(* ===== verification/Ak_Prelude.thy ===== *)
theory Ak_Prelude
  imports Main "HOL-Library.Word" "HOL-Library.Signed_Division"
begin

text \<open>
  Shared vocabulary of the development: bytes, kernel error codes, the result of a system call,
  the outcomes of the kernel services the drivers call (an allocation, a user-space copy, a
  semaphore), C's 32-bit signed arithmetic, and \<open>memcpy\<close> on lists.

  The kernel services are not code of this repository.  Each call to one of them gets its outcome
  as an argument of the definition that makes the call: a list of outcomes for successive
  \<open>kmalloc\<close> calls, a flag for \<open>down_interruptible\<close>, an \<open>ucopy\<close> for \<open>copy_from_user\<close>.
  Theorems quantify over all outcomes.
\<close>

named_theorems wf_defs "well-formedness predicates of the components"
named_theorems op_defs "operations, unfolded in the proofs of their own specification only"

type_synonym byte = "8 word"

subsection \<open>System call results\<close>

datatype errno =
    EPERM | EINTR | EIO | ENXIO | EAGAIN | ENOMEM | EFAULT | EBUSY | EEXIST | ENODEV | EINVAL
  | ENOTTY | EOPNOTSUPP | ERESTARTSYS | ENOIOCTLCMD

text \<open>
  \<open>Ret v\<close>: the call returned \<open>v\<close>.  \<open>Err e\<close>: it returned \<open>-e\<close>.  \<open>Asleep\<close>: it is still
  waiting when the given list of wake-ups is used up.  \<open>Oops\<close>: it divided by zero, followed a null
  pointer or left the bounds of an array.
\<close>

datatype 'a sysret = Ret 'a | Err errno | Asleep | Oops

fun is_ret :: "'a sysret \<Rightarrow> bool" where
  "is_ret (Ret _) = True"
| "is_ret _ = False"

subsection \<open>Outcomes of kernel services\<close>

text \<open>
  \<open>kmalloc\<close> may return null.  The outcomes of the successive calls are a list; beyond its end
  every call succeeds.
\<close>

fun kmalloc :: "bool list \<Rightarrow> bool \<times> bool list" where
  "kmalloc [] = (True, [])"
| "kmalloc (ok # al) = (ok, al)"

text \<open>
  \<open>copy_from_user\<close> either copies all bytes or reports a fault; after a fault the destination holds
  whatever the partial copy left there, which is the argument of \<open>Faulted\<close>.
\<close>

datatype 'a ucopy = Copied | Faulted "'a list"

fun copy_in :: "'a ucopy \<Rightarrow> 'a list \<Rightarrow> 'a list" where
  "copy_in Copied xs = xs"
| "copy_in (Faulted junk) xs = take (length xs) junk"

lemma length_copy_in_le [simp]: "length (copy_in uc xs) \<le> length xs"
  by (cases uc) auto

text \<open>
  What happens to a sleeping caller: a signal ends the wait; or it is woken up and a signal arrives
  while it takes the semaphore again; or it continues with the semaphore and finds the device in the
  state the others left.  A call that may sleep takes the list of these events.
\<close>

datatype 'd wake = Signal | Lock_Signal | Resumed 'd

text \<open>
  The loop \<open>while (blocked) { up; if (O_NONBLOCK) return -EAGAIN; wait_event_interruptible;
  down_interruptible }\<close> around the semaphore.
\<close>

fun wait_while :: "('d \<Rightarrow> bool) \<Rightarrow> bool \<Rightarrow> 'd \<Rightarrow> 'd wake list \<Rightarrow> 'd \<times> unit sysret" where
  "wait_while blocked nonblock dev ws =
     (if \<not> blocked dev then (dev, Ret ())
      else if nonblock then (dev, Err EAGAIN)
      else case ws of
        [] \<Rightarrow> (dev, Asleep)
      | Signal # _ \<Rightarrow> (dev, Err ERESTARTSYS)
      | Lock_Signal # _ \<Rightarrow> (dev, Err ERESTARTSYS)
      | Resumed dev' # ws' \<Rightarrow> wait_while blocked nonblock dev' ws')"

declare wait_while.simps [simp del]

lemma wait_while_effect:
  "P dev \<Longrightarrow> \<forall>d. Resumed d \<in> set ws \<longrightarrow> P d \<Longrightarrow> wait_while blocked nb dev ws = (dev', res) \<Longrightarrow>
   P dev' \<and> res \<noteq> Oops \<and> (is_ret res \<longrightarrow> \<not> blocked dev') \<and>
   (res = Err EAGAIN \<longrightarrow> nb \<and> dev' = dev \<and> blocked dev) \<and>
   (\<forall>e. res = Err e \<longrightarrow> e \<in> {EAGAIN, ERESTARTSYS}) \<and> (res = Asleep \<longrightarrow> \<not> nb \<and> blocked dev')"
proof (induction blocked nb dev ws arbitrary: dev' res rule: wait_while.induct)
  case (1 blocked nb dev ws)
  show ?case
  proof (cases "blocked dev \<and> \<not> nb \<and> (\<exists>d ws'. ws = Resumed d # ws')")
    case True
    then obtain d ws' where ws: "ws = Resumed d # ws'" by blast
    have "P d" "\<forall>d. Resumed d \<in> set ws' \<longrightarrow> P d" using "1.prems"(2) ws by auto
    moreover have "wait_while blocked nb d ws' = (dev', res)"
      using "1.prems"(3) True ws by (subst (asm) wait_while.simps) simp
    ultimately show ?thesis using "1.IH"[of "Resumed d" ws' d dev' res] True ws by auto
  next
    case False
    then show ?thesis
      using "1.prems"(1,3)[unfolded wait_while.simps[of blocked nb dev ws]]
      by (auto split: if_splits list.splits wake.splits)
  qed
qed

text \<open>
  A bare \<open>schedule ()\<close> followed by an uninterruptible \<open>down\<close>: the caller sleeps on, was woken by a
  signal, or runs again and finds the device in the given state.
\<close>

datatype 'd sched = Sleeps | Signalled | Runs 'd

text \<open>
  \<open>__get_user (x, p)\<close> stores the value read in \<open>x\<close>; on a fault it stores 0 and returns
  \<open>-EFAULT\<close>.
\<close>

definition get_user :: "int option \<Rightarrow> int \<times> bool" where
  "get_user r = (case r of Some v \<Rightarrow> (v, True) | None \<Rightarrow> (0, False))"

subsection \<open>C's 32-bit signed integers\<close>

text \<open>The kernel is compiled with wrapping signed arithmetic; \<open>s32\<close> is the conversion to \<open>int\<close>.\<close>

definition s32 :: "int \<Rightarrow> int" where
  "s32 x = (x + 2147483648) mod 4294967296 - 2147483648"

lemma s32_id: "- 2147483648 \<le> x \<Longrightarrow> x < 2147483648 \<Longrightarrow> s32 x = x"
  by (simp add: s32_def)

lemma s32_nat: "n < 2147483648 \<Longrightarrow> s32 (int n) = int n"
  by (simp add: s32_def)

lemma s32_bounds: "- 2147483648 \<le> s32 x \<and> s32 x < 2147483648"
  by (simp add: s32_def)

definition s64 :: "int \<Rightarrow> int" where
  "s64 x = (x + 9223372036854775808) mod 18446744073709551616 - 9223372036854775808"

lemma s64_id: "- 9223372036854775808 \<le> x \<Longrightarrow> x < 9223372036854775808 \<Longrightarrow> s64 x = x"
  by (simp add: s64_def)

text \<open>\<open>(size_t) x\<close> on a 64-bit machine.\<close>

definition size_t :: "int \<Rightarrow> nat" where
  "size_t x = nat (x mod 18446744073709551616)"

lemma size_t_nat: "n < 18446744073709551616 \<Longrightarrow> size_t (int n) = n"
  by (simp add: size_t_def)

lemma size_t_small: "n < 2147483648 \<Longrightarrow> size_t (int n) = n"
  by (simp add: size_t_def)

lemma size_t_diff:
  assumes "b \<le> a" "a < 2147483648"
  shows "size_t (int a - int b) = a - b"
proof -
  have "int a - int b = int (a - b)" using assms(1) by simp
  moreover have "a - b < 2147483648" using assms(2) by linarith
  ultimately show ?thesis by (simp only: size_t_small)
qed

lemma sdiv_nat: "int a sdiv int b = int (a div b)"
  by (simp add: signed_divide_int_def zdiv_int sgn_if)

lemma smod_nat: "int a smod int b = int (a mod b)"
  by (simp add: signed_modulo_int_def zmod_int sgn_if)

lemma surjective_triple: "t = (fst t, fst (snd t), snd (snd t))"
  by simp

subsection \<open>Memory as lists\<close>

text \<open>\<open>blit m p xs\<close> is \<open>memcpy (m + p, xs, length xs)\<close>, for a copy within the bounds of \<open>m\<close>.\<close>

definition blit :: "'a list \<Rightarrow> nat \<Rightarrow> 'a list \<Rightarrow> 'a list" where
  "blit m p xs = take p m @ xs @ drop (p + length xs) m"

definition region :: "'a list \<Rightarrow> nat \<Rightarrow> nat \<Rightarrow> 'a list" where
  "region m p n = take n (drop p m)"

lemma length_blit [simp]: "p + length xs \<le> length m \<Longrightarrow> length (blit m p xs) = length m"
  by (simp add: blit_def)

lemma length_region [simp]: "length (region m p n) = min n (length m - p)"
  by (simp add: region_def min.commute)

lemma nth_region: "i < n \<Longrightarrow> p + i < length m \<Longrightarrow> region m p n ! i = m ! (p + i)"
  by (simp add: region_def)

lemma nth_blit:
  assumes "p + length xs \<le> length m" "i < length m"
  shows "blit m p xs ! i = (if p \<le> i \<and> i < p + length xs then xs ! (i - p) else m ! i)"
  using assms by (auto simp: blit_def nth_append min_def)

lemma blit_Nil [simp]: "blit m p [] = m"
  by (simp add: blit_def)

lemma region_blit: "p + length xs \<le> length m \<Longrightarrow> region (blit m p xs) p (length xs) = xs"
  by (simp add: region_def blit_def)

lemma take_blit: "n \<le> p \<Longrightarrow> p \<le> length m \<Longrightarrow> take n (blit m p xs) = take n m"
  by (simp add: blit_def min_def)

lemma drop_blit:
  "p + length xs \<le> n \<Longrightarrow> p \<le> length m \<Longrightarrow> drop n (blit m p xs) = drop n m"
  by (simp add: blit_def)

lemma find_append:
  "List.find P (xs @ ys) = (case List.find P xs of None \<Rightarrow> List.find P ys | Some x \<Rightarrow> Some x)"
  by (induction xs) simp_all

lemma split_at_length:
  assumes "zs = ys @ rest" "length ys = min n (length zs)"
  shows "ys = take n zs" "rest = drop n zs"
  using assms by (auto simp: min_def split: if_splits)

text \<open>A range that stays within one block of size \<open>Q\<close>, and its place in the block.\<close>

lemma block_range:
  assumes "0 < (Q::nat)" "c \<le> Q - p mod Q"
  shows "p \<le> i \<and> i < p + c \<longleftrightarrow>
    i div Q = p div Q \<and> p mod Q \<le> i mod Q \<and> i mod Q < p mod Q + c"
proof
  assume r: "p \<le> i \<and> i < p + c"
  have m: "p mod Q < Q" using assms(1) by simp
  have p: "p = p div Q * Q + p mod Q" by simp
  have "i = p div Q * Q + (p mod Q + (i - p))" using r p by linarith
  moreover have "p mod Q + (i - p) < Q" using r assms(2) m by linarith
  ultimately have "i div Q = p div Q" "i mod Q = p mod Q + (i - p)"
    by (metis div_mult_self3 div_less add.right_neutral assms(1) less_not_refl add.commute)
      (metis \<open>i = p div Q * Q + (p mod Q + (i - p))\<close> \<open>p mod Q + (i - p) < Q\<close> mod_less mod_mult_self3)
  with r show "i div Q = p div Q \<and> p mod Q \<le> i mod Q \<and> i mod Q < p mod Q + c" by linarith
next
  assume r: "i div Q = p div Q \<and> p mod Q \<le> i mod Q \<and> i mod Q < p mod Q + c"
  have "i = p div Q * Q + i mod Q" using r by (metis div_mult_mod_eq)
  moreover have "p = p div Q * Q + p mod Q" by simp
  ultimately show "p \<le> i \<and> i < p + c" using r by linarith
qed

lemma block_diff: "i div Q = p div (Q::nat) \<Longrightarrow> i - p = i mod Q - p mod Q"
  by (metis div_mult_mod_eq diff_add_inverse2 diff_diff_add add.commute diff_cancel2)

lemma block_end:
  assumes "0 < (Q::nat)" "0 < S" "c \<le> Q - p mod Q"
  shows "p + c \<le> Suc (p div Q div S) * (Q * S)"
proof -
  have "p mod Q < Q" using assms(1) by simp
  then have "p mod Q + c \<le> Q" using assms(3) by linarith
  moreover have "p = p div Q * Q + p mod Q" by simp
  ultimately have "p + c \<le> p div Q * Q + Q" by linarith
  then have 1: "p + c \<le> Suc (p div Q) * Q" by simp
  have "p div Q mod S < S" using assms(2) by simp
  moreover have "p div Q = p div Q div S * S + p div Q mod S" by simp
  ultimately have 2: "Suc (p div Q) \<le> Suc (p div Q div S) * S" unfolding mult_Suc by linarith
  from mult_le_mono1[OF 2, of Q] 1 show ?thesis by (simp add: algebra_simps)
qed

end
