(* ===== verification/Base64.thy ===== *)
theory Base64
  imports Ak_Prelude
begin

unbundle bit_operations_syntax

text \<open>
  The base64 encoder and decoder \<open>base64/base64.c\<close>.  The output buffer is modelled by the bytes
  written before the final null byte; that they fit the buffer that was allocated is a theorem.
  \<open>malloc\<close>'s outcome is an argument.
\<close>

definition base64_table :: "byte list" where
  "base64_table =
     [65, 66, 67, 68, 69, 70, 71, 72, 73, 74, 75, 76, 77, 78, 79, 80,
      81, 82, 83, 84, 85, 86, 87, 88, 89, 90, 97, 98, 99, 100, 101, 102,
      103, 104, 105, 106, 107, 108, 109, 110, 111, 112, 113, 114, 115, 116, 117, 118,
      119, 120, 121, 122, 48, 49, 50, 51, 52, 53, 54, 55, 56, 57, 43, 47]"

definition tbl :: "byte \<Rightarrow> byte" where
  "tbl v = base64_table ! unat v"

abbreviation newline :: byte where "newline \<equiv> 10"
abbreviation pad_char :: byte where "pad_char \<equiv> 61"

subsection \<open>Encoding\<close>

text \<open>The size of the buffer, in \<open>size_t\<close> arithmetic.\<close>

definition base64_olen :: "nat \<Rightarrow> nat" where
  "base64_olen len =
     (let olen = (len * 4 mod 2 ^ 64 div 3 + 4) mod 2 ^ 64;
          olen = (olen + olen div 72) mod 2 ^ 64
      in (olen + 1) mod 2 ^ 64)"

text \<open>The loop over blocks of three and the rest; the second argument is \<open>line_len\<close>.\<close>

fun base64_encode_loop :: "byte list \<Rightarrow> nat \<Rightarrow> byte list" where
  "base64_encode_loop (a # b # c # rest) line_len =
     [tbl (drop_bit 2 a), tbl (push_bit 4 (a AND 3) OR drop_bit 4 b),
      tbl (push_bit 2 (b AND 15) OR drop_bit 6 c), tbl (c AND 63)] @
     (if line_len + 4 \<ge> 72 then newline # base64_encode_loop rest 0
      else base64_encode_loop rest (line_len + 4))"
| "base64_encode_loop [a, b] line_len =
     [tbl (drop_bit 2 a), tbl (push_bit 4 (a AND 3) OR drop_bit 4 b), tbl (push_bit 2 (b AND 15)),
      pad_char, newline]"
| "base64_encode_loop [a] line_len =
     [tbl (drop_bit 2 a), tbl (push_bit 4 (a AND 3)), pad_char, pad_char, newline]"
| "base64_encode_loop [] line_len = (if line_len \<noteq> 0 then [newline] else [])"

definition base64_encode :: "bool \<Rightarrow> byte list \<Rightarrow> byte list option" where
  "base64_encode malloc_ok src =
     (if base64_olen (length src) < length src then None
      else if \<not> malloc_ok then None
      else Some (base64_encode_loop src 0))"

subsection \<open>Decoding\<close>

definition dtable :: "byte list" where
  "dtable = (fold (\<lambda>i t. t[unat (base64_table ! i) := word_of_nat i]) [0..<64] (replicate 256 0x80))
     [unat pad_char := 0]"

definition dt :: "byte \<Rightarrow> byte" where
  "dt c = dtable ! unat c"

abbreviation valid :: "byte \<Rightarrow> bool" where
  "valid c \<equiv> dt c \<noteq> 0x80"

text \<open>The three bytes of a block of four.\<close>

definition block_bytes :: "byte list \<Rightarrow> byte list" where
  "block_bytes block =
     [push_bit 2 (block ! 0) OR drop_bit 4 (block ! 1), push_bit 4 (block ! 1) OR drop_bit 2 (block ! 2),
      push_bit 6 (block ! 2) OR block ! 3]"

fun base64_decode_loop :: "byte list \<Rightarrow> byte list \<Rightarrow> nat \<Rightarrow> byte list \<Rightarrow> byte list option" where
  "base64_decode_loop [] block pad out = Some out"
| "base64_decode_loop (c # src) block pad out =
     (let tmp = dt c in
      if tmp = 0x80 then base64_decode_loop src block pad out
      else
        let pad = (if c = pad_char then pad + 1 else pad); block = block @ [tmp] in
        if length block = 4 then
          let out = out @ block_bytes block in
          if pad \<noteq> 0
          then (if pad = 1 then Some (take (length out - 1) out)
                else if pad = 2 then Some (take (length out - 2) out) else None)
          else base64_decode_loop src [] pad out
        else base64_decode_loop src block pad out)"

definition base64_decode :: "bool \<Rightarrow> byte list \<Rightarrow> byte list option" where
  "base64_decode malloc_ok src =
     (let count = length (filter valid src) in
      if count = 0 \<or> count mod 4 \<noteq> 0 then None
      else if \<not> malloc_ok then None
      else base64_decode_loop src [] 0 [])"

subsection \<open>The tables\<close>

lemma dt_tbl_all: "map (\<lambda>i. dt (tbl (word_of_nat i))) [0..<64] = map word_of_nat [0..<64]"
  by code_simp

lemma tbl_plain: "\<forall>i < 64. tbl (word_of_nat i) \<noteq> newline \<and> tbl (word_of_nat i) \<noteq> pad_char"
  by code_simp

lemma dt_special: "dt newline = 0x80" "dt pad_char = 0" "dt 0 = 0x80"
  by code_simp+

lemma tbl_lt64:
  assumes "v < 64"
  shows "dt (tbl v) = v" "tbl v \<noteq> newline" "tbl v \<noteq> pad_char"
proof -
  have lt: "unat v < 64" using assms by (simp add: word_less_nat_alt)
  have v: "word_of_nat (unat v) = v" by simp
  have "map (\<lambda>i. dt (tbl (word_of_nat i))) [0..<64] ! unat v = map word_of_nat [0..<64] ! unat v"
    by (simp only: dt_tbl_all)
  then show "dt (tbl v) = v" using lt v by simp
  show "tbl v \<noteq> newline" "tbl v \<noteq> pad_char" using tbl_plain lt v by metis+
qed

lemma masks: "(3::byte) = mask 2" "(15::byte) = mask 4" "(63::byte) = mask 6"
  by (simp_all add: mask_eq_exp_minus_1)

lemma six_bits:
  assumes "take_bit 6 v = (v::byte)"
  shows "v < 64"
proof -
  have "unat (take_bit 6 v) < 2 ^ 6" unfolding unsigned_take_bit_eq by (rule take_bit_nat_less_exp)
  then show ?thesis using assms by (simp add: word_less_nat_alt)
qed

lemma lt8: "n < LENGTH(8) \<Longrightarrow> n = 0 \<or> n = 1 \<or> n = 2 \<or> n = 3 \<or> n = 4 \<or> n = 5 \<or> n = 6 \<or> n = (7::nat)"
  by auto

lemma bit_high: "8 \<le> n \<Longrightarrow> \<not> bit (b::byte) n"
  by (auto dest: bit_imp_le_length)

lemma sextets:
  fixes a b c :: byte
  shows "drop_bit 2 a < 64" "push_bit 4 (a AND 3) OR drop_bit 4 b < 64"
    "push_bit 2 (b AND 15) OR drop_bit 6 c < 64" "c AND 63 < 64"
    "push_bit 4 (a AND 3) < 64" "push_bit 2 (b AND 15) < 64"
  unfolding masks
  by (rule six_bits, rule bit_word_eqI, auto simp: bit_simps dest: bit_imp_le_length)+

lemma regroup:
  fixes a b c :: byte
  shows "push_bit 2 (drop_bit 2 a) OR drop_bit 4 (push_bit 4 (a AND 3) OR drop_bit 4 b) = a"
    "push_bit 4 (push_bit 4 (a AND 3) OR drop_bit 4 b) OR drop_bit 2 (push_bit 2 (b AND 15) OR drop_bit 6 c) = b"
    "push_bit 6 (push_bit 2 (b AND 15) OR drop_bit 6 c) OR (c AND 63) = c"
    "push_bit 2 (drop_bit 2 a) OR drop_bit 4 (push_bit 4 (a AND 3)) = a"
    "push_bit 4 (push_bit 4 (a AND 3) OR drop_bit 4 b) OR drop_bit 2 (push_bit 2 (b AND 15)) = b"
  unfolding masks
  by (rule bit_word_eqI, drule lt8, elim disjE; simp add: bit_simps bit_high)+

subsection \<open>Round trip\<close>

text \<open>The encoding without line breaks.\<close>

fun quads :: "byte list \<Rightarrow> byte list" where
  "quads (a # b # c # rest) =
     [tbl (drop_bit 2 a), tbl (push_bit 4 (a AND 3) OR drop_bit 4 b),
      tbl (push_bit 2 (b AND 15) OR drop_bit 6 c), tbl (c AND 63)] @ quads rest"
| "quads [a, b] =
     [tbl (drop_bit 2 a), tbl (push_bit 4 (a AND 3) OR drop_bit 4 b), tbl (push_bit 2 (b AND 15)), pad_char]"
| "quads [a] = [tbl (drop_bit 2 a), tbl (push_bit 4 (a AND 3)), pad_char, pad_char]"
| "quads [] = []"

lemmas tbl_facts = sextets[THEN tbl_lt64(1)] sextets[THEN tbl_lt64(3)]

lemma valid_tbl: "v < 64 \<Longrightarrow> valid (tbl v)"
  using tbl_lt64(1)[of v] by auto

lemmas valid_facts = sextets[THEN valid_tbl]

lemma filter_encode: "filter valid (base64_encode_loop xs l) = quads xs"
  by (induction xs l rule: base64_encode_loop.induct) (simp_all add: valid_facts dt_special del: push_bit_and)

lemma decode_filter:
  "base64_decode_loop src block pad out = base64_decode_loop (filter valid src) block pad out"
  by (induction src block pad out rule: base64_decode_loop.induct) (simp_all add: Let_def)

lemma decode_block:
  assumes "v0 < 64" "v1 < 64" "v2 < 64" "v3 < 64"
  shows "base64_decode_loop (tbl v0 # tbl v1 # tbl v2 # tbl v3 # src) [] 0 out =
      base64_decode_loop src [] 0 (out @ block_bytes [v0, v1, v2, v3])"
    "base64_decode_loop [tbl v0, tbl v1, tbl v2, pad_char] [] 0 out =
      Some (out @ take 2 (block_bytes [v0, v1, v2, 0]))"
    "base64_decode_loop [tbl v0, tbl v1, pad_char, pad_char] [] 0 out =
      Some (out @ take 1 (block_bytes [v0, v1, 0, 0]))"
  using assms[THEN tbl_lt64(1)] assms[THEN tbl_lt64(3)] assms[THEN valid_tbl]
  by (simp_all add: Let_def block_bytes_def dt_special)

lemma block_bytes_groups:
  "block_bytes [drop_bit 2 a, push_bit 4 (a AND 3) OR drop_bit 4 b, push_bit 2 (b AND 15) OR drop_bit 6 c, c AND 63]
     = [a, b, c]"
  "take 2 (block_bytes [drop_bit 2 a, push_bit 4 (a AND 3) OR drop_bit 4 b, push_bit 2 (b AND 15), 0]) = [a, b]"
  "take 1 (block_bytes [drop_bit 2 a, push_bit 4 (a AND 3), 0, 0]) = [a]"
  by (simp_all add: block_bytes_def regroup del: push_bit_and push_bit_or drop_bit_and drop_bit_or)

lemma decode_quads: "base64_decode_loop (quads xs) [] 0 out = Some (out @ xs)"
proof (induction xs arbitrary: out rule: quads.induct)
  case (1 a b c rest)
  then show ?case
    unfolding quads.simps append.simps decode_block(1)[OF sextets(1-4)] block_bytes_groups by simp
next
  case (2 a b)
  show ?case
    unfolding quads.simps append.simps decode_block(2)[OF sextets(1,2,6,6)] block_bytes_groups ..
next
  case (3 a)
  show ?case
    unfolding quads.simps append.simps decode_block(3)[OF sextets(1,5,5,5)] block_bytes_groups ..
qed simp

lemma length_quads: "length (quads xs) = 4 * ((length xs + 2) div 3)"
proof (induction xs rule: quads.induct)
  case (1 a b c rest)
  have "(length (a # b # c # rest) + 2) div 3 = Suc ((length rest + 2) div 3)" by simp
  then show ?case using 1 by simp
qed simp_all

subsection \<open>Sizes\<close>

lemma encode_loop_length:
  "line < 72 \<Longrightarrow> \<exists>nl. length (base64_encode_loop xs line) = 4 * ((length xs + 2) div 3) + nl \<and>
     72 * nl \<le> line + 4 * ((length xs + 2) div 3) + 71"
proof (induction xs line rule: base64_encode_loop.induct)
  case (1 a b c rest line)
  have q: "(length (a # b # c # rest) + 2) div 3 = Suc ((length rest + 2) div 3)" by simp
  show ?case
  proof (cases "line + 4 \<ge> 72")
    case True
    from "1.IH"(1)[OF True] obtain nl where
      "length (base64_encode_loop rest 0) = 4 * ((length rest + 2) div 3) + nl"
      "72 * nl \<le> 0 + 4 * ((length rest + 2) div 3) + 71" by auto
    with True q show ?thesis by (intro exI[of _ "Suc nl"]) simp
  next
    case False
    from "1.IH"(2)[OF False] False obtain nl where
      "length (base64_encode_loop rest (line + 4)) = 4 * ((length rest + 2) div 3) + nl"
      "72 * nl \<le> line + 4 + 4 * ((length rest + 2) div 3) + 71" by auto
    with False q show ?thesis by (intro exI[of _ nl]) simp
  qed
qed (auto intro: exI[of _ 1] exI[of _ 0])

lemma olen_small:
  assumes "n < 2 ^ 62"
  shows "base64_olen n = n * 4 div 3 + 4 + (n * 4 div 3 + 4) div 72 + 1"
proof -
  have n: "n < 4611686018427387904" using assms by simp
  let ?o = "n * 4 div 3 + 4"
  have "?o \<le> n * 2 + 4" by linarith
  then have o: "?o < 9223372036854775813" using n by linarith
  have "?o div 72 \<le> ?o" by simp
  then have "?o + ?o div 72 + 1 < 18446744073709551616 \<or> ?o + ?o div 72 + 1 \<ge> 18446744073709551616" by linarith
  have d: "72 * (?o div 72) \<le> ?o" by simp
  have "n * 4 mod 18446744073709551616 = n * 4" using n by (intro mod_less) linarith
  moreover have "?o mod 18446744073709551616 = ?o" using o by (intro mod_less) linarith
  moreover have "(?o + ?o div 72) mod 18446744073709551616 = ?o + ?o div 72" using o d by (intro mod_less) linarith
  moreover have "(?o + ?o div 72 + 1) mod 18446744073709551616 = ?o + ?o div 72 + 1" using o d by (intro mod_less) linarith
  ultimately show ?thesis unfolding base64_olen_def Let_def by simp
qed

lemma olen_large:
  assumes "2 ^ 62 \<le> n" "n < 2 ^ 64"
  shows "base64_olen n < n"
proof -
  let ?M = "18446744073709551616 :: nat"
  have n: "4611686018427387904 \<le> n" "n < ?M" using assms by simp_all
  let ?m = "n * 4 mod ?M"
  have k: "n * 4 = (n * 4 div ?M) * ?M + ?m" by (rule div_mult_mod_eq[symmetric])
  have m: "?m < ?M" by simp
  have k1: "1 \<le> n * 4 div ?M" using n by (simp add: Suc_le_eq div_greater_zero_iff)
  define o1 where o1: "o1 = (?m div 3 + 4) mod ?M"
  define o2 where o2: "o2 = (o1 + o1 div 72) mod ?M"
  have e: "base64_olen n = (o2 + 1) mod ?M" unfolding base64_olen_def Let_def o1 o2 by simp
  have b1: "o1 \<le> ?m div 3 + 4" "o2 \<le> o1 + o1 div 72" "base64_olen n \<le> o2 + 1"
    unfolding e unfolding o1 o2 by (rule mod_less_eq_dividend)+
  have d: "3 * (?m div 3) \<le> ?m" "72 * (o1 div 72) \<le> o1" by simp_all
  have "216 * base64_olen n \<le> 73 * ?m + 1092" using b1 d by linarith
  moreover have "73 * ?m + 1092 < 216 * n" using k k1 m n by linarith
  ultimately show ?thesis by linarith
qed

lemma decode_loop_length:
  "length block < 4 \<Longrightarrow> base64_decode_loop src block pad out = Some res \<Longrightarrow>
   length res \<le> length out + (length block + length (filter valid src)) div 4 * 3"
proof (induction src block pad out rule: base64_decode_loop.induct)
  case (1 block pad out)
  then show ?case by simp
next
  case (2 c src block pad out)
  show ?case
  proof (cases "valid c \<and> length block = 3")
    case False
    then show ?thesis
      using "2.prems" "2.IH" by (auto simp: Let_def split: if_splits)
  next
    case True
    let ?pad = "if c = pad_char then pad + 1 else pad" and ?out = "out @ block_bytes (block @ [dt c])"
    have lo: "length ?out = length out + 3" by (simp add: block_bytes_def)
    have q: "(length block + length (filter valid (c # src))) div 4 = Suc (length (filter valid src) div 4)"
      using True by simp
    show ?thesis
    proof (cases "?pad = 0")
      case pad: True
      have "base64_decode_loop src [] ?pad ?out = Some res"
        using "2.prems"(2) True pad by (simp add: Let_def)
      with "2.IH"(2)[OF refl] True pad
      have "length res \<le> length ?out + (length [] + length (filter valid src)) div 4 * 3"
        by (simp add: Let_def)
      then show ?thesis unfolding q lo by simp
    next
      case pad: False
      have "length res \<le> length ?out"
        using "2.prems"(2) True pad by (auto simp: Let_def split: if_splits)
      then show ?thesis unfolding q lo by simp
    qed
  qed
qed

subsection \<open>Properties\<close>

text \<open>
  C6. Decoding an encoding gives the data back, for any non-empty data the encoder accepts, with the line breaks
  of the encoder or with any other bytes outside the alphabet added or removed.  The encoding of no data at all is
  empty, and the decoder refuses it.
\<close>

theorem base64_roundtrip:
  assumes "length xs < 2 ^ 64" "base64_encode malloc_ok xs = Some e" "filter valid e' = filter valid e"
  shows "base64_decode True e' = (if xs = [] then None else Some xs)"
proof -
  have "\<not> base64_olen (length xs) < length xs" using assms(2) by (simp add: base64_encode_def split: if_splits)
  then have e: "e = base64_encode_loop xs 0" using assms(2) by (simp add: base64_encode_def split: if_splits)
  then have f: "filter valid e' = quads xs" using assms(3) filter_encode by simp
  show ?thesis
  proof (cases "xs = []")
    case True
    then show ?thesis by (simp add: base64_decode_def f)
  next
    case False
    then have "length (quads xs) \<noteq> 0" "length (quads xs) mod 4 = 0"
      unfolding length_quads by (cases xs) auto
    moreover have "base64_decode_loop e' [] 0 [] = Some xs"
      using decode_filter[of e' "[]" 0 "[]"] decode_quads[of xs "[]"] f by simp
    ultimately show ?thesis using False by (simp add: base64_decode_def f)
  qed
qed

theorem base64_roundtrip_witness:
  "base64_decode True (the (base64_encode True [77, 97])) = Some [77, 97]"
  using base64_roundtrip[of "[77, 97]" True "the (base64_encode True [77, 97])"]
  by (simp add: base64_encode_def olen_small)

text \<open>
  The encoder never writes past its buffer: its overflow check refuses exactly the lengths from
  2^62 on, and otherwise the characters, line breaks and the final null byte fit \<open>olen\<close>.
\<close>

theorem base64_encode_fits:
  assumes "length xs < 2 ^ 64"
  shows "(base64_encode True xs = None \<longleftrightarrow> 2 ^ 62 \<le> length xs) \<and>
    (case base64_encode True xs of None \<Rightarrow> True | Some e \<Rightarrow> length e + 1 \<le> base64_olen (length xs))"
proof (cases "length xs < 2 ^ 62")
  case True
  let ?n = "length xs"
  have o: "base64_olen ?n = ?n * 4 div 3 + 4 + (?n * 4 div 3 + 4) div 72 + 1" by (rule olen_small[OF True])
  then have ok: "\<not> base64_olen ?n < ?n" by linarith
  obtain nl where nl: "length (base64_encode_loop xs 0) = 4 * ((?n + 2) div 3) + nl"
    "72 * nl \<le> 0 + 4 * ((?n + 2) div 3) + 71"
    using encode_loop_length[of 0 xs] by auto
  have "4 * ((?n + 2) div 3) \<le> ?n * 4 div 3 + 3" by linarith
  moreover from this nl(2) have "nl \<le> (?n * 4 div 3 + 4) div 72 + 1" by linarith
  ultimately have "length (base64_encode_loop xs 0) + 1 \<le> base64_olen ?n" unfolding nl(1) o by linarith
  then show ?thesis using ok True by (simp add: base64_encode_def)
next
  case False
  then have "base64_olen (length xs) < length xs" using assms by (intro olen_large) simp_all
  then show ?thesis using False by (simp add: base64_encode_def)
qed

theorem base64_encode_fits_witness:
  "length (the (base64_encode True [1, 2, 3])) + 1 \<le> base64_olen (length [1 :: byte, 2, 3])"
  using base64_encode_fits[of "[1, 2, 3]"] by (cases "base64_encode True [1, 2, 3]") simp_all

text \<open>
  The decoder never writes more than its buffer holds, three bytes for four characters of the
  alphabet, but it accepts pad characters anywhere in the last block: \<open>"=AAA"\<close> decodes to two bytes.
\<close>

theorem base64_decode_fits:
  assumes "base64_decode ok src = Some out"
  shows "length out \<le> length (filter valid src) div 4 * 3 \<and> ok \<and>
    base64_decode True [61, 65, 65, 65] = Some [0, 0]"
proof -
  have "ok" "base64_decode_loop src [] 0 [] = Some out"
    using assms by (simp_all add: base64_decode_def Let_def split: if_splits)
  moreover have "base64_decode True [61, 65, 65, 65] = Some [0, 0]" by code_simp
  ultimately show ?thesis using decode_loop_length[of "[]" src 0 "[]" out] by simp
qed

theorem base64_decode_fits_witness: "base64_decode True [61, 65, 65, 65] = Some [0, 0]"
proof -
  have "base64_decode True [81, 81, 61, 61] = Some [65]" by code_simp
  from base64_decode_fits[OF this] show ?thesis by blast
qed

end
