(* ===== verification/Big_Integer.thy ===== *)
theory Big_Integer
  imports Ak_Prelude "HOL-Library.Signed_Division"
begin

text \<open>
  The decimal big integers of \<open>acm-lib/big_integer\<close>: a sign and a string of digits, computed with in groups
  of four digits.  A C++ string is a list of characters, an \<open>int\<close> array a list of integers (every element
  stays far inside the 32 bits, see the bounds in the loop lemmas; the size of the array of \<open>Multiply\<close>, the product of
  the numbers of groups, is an \<open>int\<close> as long as no operand has more than 185360 digits).  Subtraction is the one operation
  that can write past an array: \<open>None\<close> stands for that.
\<close>

subsection \<open>Characters, \<open>atoi\<close> and \<open>%d\<close>\<close>

definition is_digit :: "char \<Rightarrow> bool" where
  "is_digit c \<longleftrightarrow> 48 \<le> (of_char c :: nat) \<and> (of_char c :: nat) \<le> 57"

definition digit :: "char \<Rightarrow> int" where
  "digit c = int (of_char c) - 48"

definition is_space :: "char \<Rightarrow> bool" where
  "is_space c \<longleftrightarrow> (of_char c :: nat) = 32 \<or> 9 \<le> (of_char c :: nat) \<and> (of_char c :: nat) \<le> 13"

fun digits_from :: "int \<Rightarrow> string \<Rightarrow> int" where
  "digits_from acc [] = acc"
| "digits_from acc (c # cs) = (if is_digit c then digits_from (10 * acc + digit c) cs else acc)"

definition atoi :: "string \<Rightarrow> int" where
  "atoi s = (case dropWhile is_space s of
       [] \<Rightarrow> 0
     | c # cs \<Rightarrow> if c = CHR ''-'' then - digits_from 0 cs
                else if c = CHR ''+'' then digits_from 0 cs
                else digits_from 0 (c # cs))"

fun show_nat :: "nat \<Rightarrow> string" where
  "show_nat n = (if n < 10 then [char_of (48 + n)] else show_nat (n div 10) @ [char_of (48 + n mod 10)])"

declare show_nat.simps [simp del]

definition show_int :: "int \<Rightarrow> string" where
  "show_int n = (if n < 0 then CHR ''-'' # show_nat (nat (- n)) else show_nat (nat n))"

text \<open>\<open>operator<\<close> of \<open>std::string\<close>.\<close>

fun str_lt :: "string \<Rightarrow> string \<Rightarrow> bool" where
  "str_lt s [] = False"
| "str_lt [] (d # ds) = True"
| "str_lt (c # cs) (d # ds) =
     (if (of_char c :: nat) < of_char d then True
      else if (of_char d :: nat) < of_char c then False else str_lt cs ds)"

subsection \<open>Groups of four digits\<close>

definition size4 :: "string \<Rightarrow> nat" where
  "size4 s = (if length s mod 4 = 0 then length s div 4 else length s div 4 + 1)"

function groups :: "string \<Rightarrow> int list" where
  "groups s =
     (if 4 \<le> length s then atoi (drop (length s - 4) s) # groups (take (length s - 4) s)
      else if s \<noteq> [] then [atoi s] else [])"
  by pat_completeness auto
termination by (relation "measure length") auto

declare groups.simps [simp del]

text \<open>The highest group that is not zero, searched from \<open>i\<close> down to \<open>lo\<close>; then the printing.\<close>

function top_group :: "int list \<Rightarrow> nat \<Rightarrow> nat \<Rightarrow> nat option" where
  "top_group g lo i = (if g ! i \<noteq> 0 then Some i else if i \<le> lo then None else top_group g lo (i - 1))"
  by pat_completeness auto
termination by (relation "measure (\<lambda>(g, lo, i). i)") auto

declare top_group.simps [simp del]

definition pad4 :: "int \<Rightarrow> string" where
  "pad4 n = (if n < 1000 then ''0'' else []) @ (if n < 100 then ''0'' else []) @
     (if n < 10 then ''0'' else []) @ show_int n"

definition print_groups :: "int list \<Rightarrow> nat \<Rightarrow> nat \<Rightarrow> string" where
  "print_groups g lo i =
     (case top_group g lo i of
        None \<Rightarrow> ''0''
      | Some k \<Rightarrow> show_int (g ! k) @ concat (map (\<lambda>j. pad4 (g ! j)) (rev [lo..<k])))"

subsection \<open>Unsigned integers\<close>

definition mul_step :: "int list \<Rightarrow> int list \<Rightarrow> nat \<Rightarrow> nat \<Rightarrow> int list \<Rightarrow> int list" where
  "mul_step gl gr i j res =
     (let res1 = res[i + j - 1 := res ! (i + j - 1) + gl ! i * gr ! j];
          res2 = res1[i + j := res1 ! (i + j) + res1 ! (i + j - 1) sdiv 10000]
      in res2[i + j - 1 := res2 ! (i + j - 1) smod 10000])"

definition big_Multiply :: "string \<Rightarrow> string \<Rightarrow> string" where
  "big_Multiply lbs rbs =
     (let n = size4 lbs; m = size4 rbs; gl = 0 # groups lbs; gr = 0 # groups rbs;
          res = fold (\<lambda>i res. fold (\<lambda>j res. mul_step gl gr i j res) [1..<m + 1] res) [1..<n + 1]
                  (replicate (n * m + 2) 0)
      in print_groups res 1 (n * m + 1))"

definition add_step :: "int list \<Rightarrow> int list \<Rightarrow> nat \<Rightarrow> nat \<Rightarrow> int list \<Rightarrow> int list" where
  "add_step gl gr m j res =
     (let res1 = (if j < m then res[j := res ! j + (gl ! j + gr ! j)] else res[j := res ! j + gl ! j]);
          res2 = res1[j + 1 := res1 ! (j + 1) + res1 ! j sdiv 10000]
      in res2[j := res2 ! j smod 10000])"

definition big_Add :: "string \<Rightarrow> string \<Rightarrow> string" where
  "big_Add lbs0 rbs0 =
     (let (lbs, rbs) = (if length lbs0 < length rbs0 then (rbs0, lbs0) else (lbs0, rbs0));
          n = size4 lbs; m = size4 rbs; gl = groups lbs; gr = groups rbs;
          res = fold (\<lambda>j res. add_step gl gr m j res) [0..<n] (replicate (n + 1) 0)
      in print_groups res 0 n)"

text \<open>\<open>k\<close> steps from \<open>j\<close> on; a borrow from the group above the last one writes past the array.\<close>

fun minus_loop :: "int list \<Rightarrow> nat \<Rightarrow> nat \<Rightarrow> nat \<Rightarrow> int list \<Rightarrow> int list \<Rightarrow> int list option" where
  "minus_loop gr m j 0 gl res = Some res"
| "minus_loop gr m j (Suc k) gl res =
     (let x = gl ! j - (if j < m then gr ! j else 0) in
      if x < 0 then
        if j + 1 < length gl
        then minus_loop gr m (j + 1) k (gl[j + 1 := gl ! (j + 1) - 1, j := gl ! j + 10000])
               (res[j := x + 10000])
        else None
      else minus_loop gr m (j + 1) k gl (res[j := x]))"

text \<open>The difference of the larger and the smaller operand and whether the first one was the larger.\<close>

definition big_Minuss :: "string \<Rightarrow> string \<Rightarrow> (string \<times> bool) option" where
  "big_Minuss lbs0 rbs0 =
     (let sign = (if length lbs0 < length rbs0 then False
                  else if length lbs0 = length rbs0 then \<not> str_lt lbs0 rbs0 else True);
          (lbs, rbs) = (if \<not> sign then (rbs0, lbs0) else (lbs0, rbs0));
          n = size4 lbs; m = size4 rbs
      in case minus_loop (groups rbs) m 0 n (groups lbs) (replicate (n + 1) 0) of
           None \<Rightarrow> None
         | Some res \<Rightarrow> Some (print_groups res 0 n, sign))"

subsection \<open>Unsigned decimals\<close>

definition split_dot :: "string \<Rightarrow> string \<times> string" where
  "split_dot a = (takeWhile (\<lambda>c. c \<noteq> CHR ''.'') a, drop 1 (dropWhile (\<lambda>c. c \<noteq> CHR ''.'') a))"

definition big_Compare :: "string \<Rightarrow> string \<Rightarrow> int" where
  "big_Compare a b =
     (let (ah, ab) = split_dot a; (bh, bb) = split_dot b in
      if length ah < length bh then -1 else if length bh < length ah then 1
      else if str_lt ah bh then -1 else if str_lt bh ah then 1
      else if str_lt ab bb then -1 else if str_lt bb ab then 1 else 0)"

text \<open>The string without its last dot and the number of characters after it.\<close>

definition erase_dot :: "string \<Rightarrow> string \<times> nat" where
  "erase_dot s =
     (let d = length (takeWhile (\<lambda>c. c \<noteq> CHR ''.'') (rev s)) in
      if d < length s then (take (length s - 1 - d) s @ drop (length s - d) s, d) else (s, 0))"

fun strip_zeros :: "string \<Rightarrow> int \<Rightarrow> string \<times> int" where
  "strip_zeros (c # cs) dot = (if c = CHR ''0'' then strip_zeros cs (dot - 1) else (c # cs, dot))"
| "strip_zeros [] dot = ([], dot)"

fun place_dot :: "string \<Rightarrow> int \<Rightarrow> nat \<Rightarrow> string" where
  "place_dot [] idx i = []"
| "place_dot (c # cs) idx i =
     (if int i = idx then (if i = 0 then ''0'' else []) @ ''.'' else []) @ c # place_dot cs idx (i + 1)"

definition big_MultiplyEx :: "string \<Rightarrow> string \<Rightarrow> string" where
  "big_MultiplyEx s0 t0 =
     (let (s1, dots) = erase_dot s0; (t1, dott) = erase_dot t0; dot = int (dots + dott);
          ret = big_Multiply s1 t1;
          (s, dot') =
            (if length ret \<noteq> 1
             then if dot \<noteq> 0 then (case strip_zeros (rev ret) dot of (r, d) \<Rightarrow> (rev r, d)) else (ret, dot)
             else if hd ret = CHR ''0'' then (ret, 0) else (ret, dot));
          idx = int (length s) - dot'
      in if idx < 0 then ''0.'' @ replicate (nat (- idx)) (CHR ''0'') @ place_dot s (-1) 0
         else place_dot s idx 0)"

definition zero_fill :: "string \<Rightarrow> nat \<Rightarrow> string" where
  "zero_fill s n = s @ replicate (n - length s) (CHR ''0'')"

definition zero_lead :: "string \<Rightarrow> nat \<Rightarrow> string" where
  "zero_lead s n = replicate (n - length s) (CHR ''0'') @ s"

definition strip_right :: "string \<Rightarrow> string" where
  "strip_right b = rev (dropWhile (\<lambda>c. c = CHR ''0'') (rev b))"

definition with_fraction :: "string \<Rightarrow> string \<Rightarrow> string" where
  "with_fraction a b = a @ (if b \<noteq> [] then ''.'' else []) @ b"

definition big_AddEx :: "string \<Rightarrow> string \<Rightarrow> string" where
  "big_AddEx a0 b0 =
     (let (ah, ab0) = split_dot a0; (bh, bb0) = split_dot b0;
          a = big_Add ah bh;
          n = (if length ab0 < length bb0 then length bb0 else length ab0);
          ab = zero_fill ab0 n; bb = zero_fill bb0 n;
          b = big_Add ab bb
      in if n < length b then with_fraction (big_Add a [hd b]) (strip_right (tl b))
         else with_fraction a (strip_right (zero_lead b n)))"

definition big_MinusEx :: "string \<Rightarrow> string \<Rightarrow> (string \<times> bool) option" where
  "big_MinusEx a0 b0 =
     (let (a, b, sign) = (if big_Compare a0 b0 = -1 then (b0, a0, False) else (a0, b0, True));
          (ah, ab0) = split_dot a; (bh, bb0) = split_dot b;
          n = (if length ab0 < length bb0 then length bb0 else length ab0);
          ab = zero_fill ab0 n; bb = zero_fill bb0 n
      in case big_Minuss ah bh of None \<Rightarrow> None
       | Some (d, _) \<Rightarrow>
         (case (if str_lt ab bb \<and> d \<noteq> ''0''
                then (case big_Minuss d ''1'' of None \<Rightarrow> None
                      | Some (d', _) \<Rightarrow> map_option (\<lambda>(e, _). (d', e)) (big_Minuss (CHR ''1'' # ab) bb))
                else map_option (\<lambda>(e, _). (d, e)) (big_Minuss ab bb)) of
            None \<Rightarrow> None
          | Some (d', e) \<Rightarrow> Some (with_fraction d' (strip_right (zero_lead e n)), sign)))"

function big_pow :: "string \<Rightarrow> int \<Rightarrow> string" where
  "big_pow b n =
     (if n = 0 then ''1'' else if n = 1 then b
      else let t = big_pow b (n sdiv 2) in
        if n smod 2 = 0 then big_MultiplyEx t t else big_MultiplyEx (big_MultiplyEx t t) b)"
  by pat_completeness auto
termination
proof (relation "measure (\<lambda>(b, n). nat \<bar>n\<bar>)", goal_cases)
  case (2 b n)
  then have "\<bar>n sdiv 2\<bar> < \<bar>n\<bar>" by (auto simp: signed_divide_int_def abs_mult sgn_if)
  then show ?case by simp
qed simp

declare big_pow.simps [simp del]

subsection \<open>Remainder\<close>

definition isZero :: "string \<Rightarrow> bool" where
  "isZero s = list_all (\<lambda>c. c = CHR ''0'') s"

text \<open>
  No result: the loop does not end (division by zero).  \<open>Some None\<close>: a write past an array.
\<close>

partial_function (option) mod_reduce :: "string \<Rightarrow> string \<Rightarrow> string option option" where
  "mod_reduce t p =
     (if 0 \<le> big_Compare p t then
        (case big_Minuss p t of None \<Rightarrow> Some None | Some (q, _) \<Rightarrow> mod_reduce t q)
      else Some (Some p))"

partial_function (option) mod_loop :: "string \<Rightarrow> string \<Rightarrow> string \<Rightarrow> (string \<times> string) option option" where
  "mod_loop t p s =
     (if s = [] then Some (Some (p, s))
      else case mod_reduce t p of
          None \<Rightarrow> None
        | Some None \<Rightarrow> Some None
        | Some (Some q) \<Rightarrow>
            if q = ''0'' then
              (if isZero (take (length t) s) then Some (Some (''0'', drop (length t) s))
               else mod_loop t (take (length t) s) (drop (length t) s))
            else mod_loop t (q @ take 1 s) (drop 1 s))"

declare mod_reduce.simps [code] mod_loop.simps [code]

definition big_mod :: "string \<Rightarrow> string \<Rightarrow> string option option" where
  "big_mod s t =
     (case mod_loop t (take (length t) s) (drop (length t) s) of
        None \<Rightarrow> None
      | Some None \<Rightarrow> Some None
      | Some (Some (p, s')) \<Rightarrow>
          let p1 = (if p = ''0'' then s' else p @ s');
              p2 = (if isZero p1 then ''0'' else p1)
          in mod_reduce t p2)"

subsection \<open>Signed numbers\<close>

text \<open>\<open>m_sign\<close> is true for numbers that are not negative.\<close>

record big =
  m_sign :: bool
  m_str :: string

definition big_Normal :: "string \<Rightarrow> big" where
  "big_Normal s =
     (if s \<noteq> [] \<and> hd s = CHR ''-'' then \<lparr>m_sign = False, m_str = tl s\<rparr> else \<lparr>m_sign = True, m_str = s\<rparr>)"

definition big_of_int :: "int \<Rightarrow> big" where
  "big_of_int i = big_Normal (show_int i)"

definition big_ToString :: "big \<Rightarrow> string" where
  "big_ToString b = (if \<not> m_sign b then ''-'' else []) @ m_str b"

definition fix_zero :: "big \<Rightarrow> big" where
  "fix_zero b = (if m_str b = ''0'' then b\<lparr>m_sign := True\<rparr> else b)"

definition big_signMultiply :: "big \<Rightarrow> big \<Rightarrow> big" where
  "big_signMultiply l r =
     fix_zero \<lparr>m_sign = (m_sign l = m_sign r), m_str = big_MultiplyEx (m_str l) (m_str r)\<rparr>"

definition big_signAdd :: "big \<Rightarrow> big \<Rightarrow> big option" where
  "big_signAdd l r =
     (if m_sign l = m_sign r then Some (fix_zero \<lparr>m_sign = m_sign l, m_str = big_AddEx (m_str l) (m_str r)\<rparr>)
      else if big_Compare (m_str l) (m_str r) < 0
      then map_option (\<lambda>(s, _). fix_zero \<lparr>m_sign = m_sign r, m_str = s\<rparr>) (big_MinusEx (m_str r) (m_str l))
      else map_option (\<lambda>(s, _). fix_zero \<lparr>m_sign = m_sign l, m_str = s\<rparr>) (big_MinusEx (m_str l) (m_str r)))"

definition big_signMinuse :: "big \<Rightarrow> big \<Rightarrow> big option" where
  "big_signMinuse l r =
     (if m_sign l \<and> m_sign r
      then map_option (\<lambda>(s, f). fix_zero \<lparr>m_sign = f, m_str = s\<rparr>) (big_MinusEx (m_str l) (m_str r))
      else if \<not> m_sign l \<and> \<not> m_sign r
      then map_option (\<lambda>(s, f). fix_zero \<lparr>m_sign = \<not> f, m_str = s\<rparr>) (big_MinusEx (m_str l) (m_str r))
      else if m_sign l \<and> \<not> m_sign r
      then Some (fix_zero \<lparr>m_sign = True, m_str = big_AddEx (m_str l) (m_str r)\<rparr>)
      else Some (fix_zero \<lparr>m_sign = False, m_str = big_AddEx (m_str l) (m_str r)\<rparr>))"

definition big_signCompare :: "big \<Rightarrow> big \<Rightarrow> int" where
  "big_signCompare a b =
     (if m_sign a \<and> m_sign b then big_Compare (m_str a) (m_str b)
      else if \<not> m_sign a \<and> \<not> m_sign b then
        (let ret = big_Compare (m_str a) (m_str b) in if ret \<noteq> 0 then 0 - ret else ret)
      else of_bool (if m_sign a then m_sign a else m_sign b))"

text \<open>The operators of the class; \<open>^\<close> builds its result from the digits alone.\<close>

definition big_less :: "big \<Rightarrow> big \<Rightarrow> bool" where
  "big_less a b \<longleftrightarrow> big_signCompare a b = -1"

definition big_eq :: "big \<Rightarrow> big \<Rightarrow> bool" where
  "big_eq a b \<longleftrightarrow> big_signCompare a b = 0"

definition big_power :: "big \<Rightarrow> int \<Rightarrow> big" where
  "big_power x n = big_Normal (big_pow (m_str x) n)"

definition big_signPow :: "big \<Rightarrow> int \<Rightarrow> big" where
  "big_signPow x n =
     \<lparr>m_sign = \<not> (\<not> m_sign x \<and> n smod 2 \<noteq> 0), m_str = big_pow (m_str x) n\<rparr>"

definition big_remainder :: "big \<Rightarrow> big \<Rightarrow> big option option" where
  "big_remainder a b = map_option (map_option (\<lambda>s. \<lparr>m_sign = True, m_str = s\<rparr>)) (big_mod (m_str a) (m_str b))"

end
