(* ===== verification/Big_Proofs.thy ===== *)
theory Big_Proofs
  imports Big_Integer
begin

text \<open>
  Big integers without a decimal point: their strings of digits without leading zeros are the naturals,
  and the operations compute sum, difference, product and power.
\<close>

subsection \<open>Values of digit strings\<close>

definition digits :: "string \<Rightarrow> bool" where
  "digits s = list_all is_digit s"

definition dval :: "string \<Rightarrow> int" where
  "dval s = digits_from 0 s"

text \<open>Digits without leading zeros.\<close>

definition normal :: "string \<Rightarrow> bool" where
  "normal s \<longleftrightarrow> digits s \<and> s \<noteq> [] \<and> (hd s = CHR ''0'' \<longrightarrow> s = ''0'')"

lemma digits_simps [simp]: "digits []" "digits (c # s) \<longleftrightarrow> is_digit c \<and> digits s"
    "digits (s @ t) \<longleftrightarrow> digits s \<and> digits t"
  by (simp_all add: digits_def)

lemma digits_take [simp]: "digits s \<Longrightarrow> digits (take n s)" and digits_drop [simp]: "digits s \<Longrightarrow> digits (drop n s)"
  by (auto simp: digits_def list_all_iff dest: in_set_takeD in_set_dropD)

lemma digit_bounds: "is_digit c \<Longrightarrow> 0 \<le> digit c \<and> digit c \<le> 9"
  by (simp add: is_digit_def digit_def)

lemma digits_from_shift: "digits s \<Longrightarrow> digits_from a s = a * 10 ^ length s + digits_from 0 s"
proof (induction s arbitrary: a)
  case (Cons c s)
  then have c: "is_digit c" and s: "digits s" by simp_all
  show ?case
    unfolding digits_from.simps if_P[OF c] Cons.IH[OF s, of "10 * a + digit c"] Cons.IH[OF s, of "10 * 0 + digit c"]
    by (simp add: distrib_right)
qed simp

lemma dval_simps [simp]: "dval [] = 0" "is_digit c \<Longrightarrow> digits s \<Longrightarrow> dval (c # s) = digit c * 10 ^ length s + dval s"
  by (simp_all add: dval_def digits_from_shift[of s "digit c"])

lemma dval_append: "digits s \<Longrightarrow> digits t \<Longrightarrow> dval (s @ t) = dval s * 10 ^ length t + dval t"
  by (induction s) (simp_all add: algebra_simps power_add)

lemma dval_bounds: "digits s \<Longrightarrow> 0 \<le> dval s \<and> dval s < 10 ^ length s"
proof (induction s)
  case (Cons c s)
  then have "0 \<le> digit c" "digit c \<le> 9" "0 \<le> dval s" "dval s < 10 ^ length s" using digit_bounds by simp_all
  moreover have "digit c * 10 ^ length s \<le> 9 * 10 ^ length s" using \<open>digit c \<le> 9\<close> by (intro mult_right_mono) simp_all
  moreover have "0 \<le> digit c * 10 ^ length s" using \<open>0 \<le> digit c\<close> by simp
  moreover have "dval (c # s) = digit c * 10 ^ length s + dval s" using Cons.prems by simp
  moreover have "(10::int) ^ length (c # s) = 10 * 10 ^ length s" by simp
  ultimately show ?case by linarith
qed simp

lemma digit_not_space: "is_digit c \<Longrightarrow> \<not> is_space c \<and> c \<noteq> CHR ''-'' \<and> c \<noteq> CHR ''+'' \<and> c \<noteq> CHR ''.''"
  by (auto simp: is_digit_def is_space_def)

lemma atoi_digits: "digits s \<Longrightarrow> atoi s = dval s"
  by (cases s) (auto simp: atoi_def dval_def dest: digit_not_space)

subsection \<open>Printing\<close>

lemma digit_char:
  assumes "n < 10"
  shows "is_digit (char_of (48 + n)) \<and> digit (char_of (48 + n)) = int n \<and>
    (char_of (48 + n) = CHR ''0'' \<longleftrightarrow> n = 0)"
proof -
  have "(of_char (char_of (48 + n) :: char) :: nat) = (48 + n) mod 256" by simp
  then have v: "(of_char (char_of (48 + n) :: char) :: nat) = 48 + n" using assms by simp
  have "(of_char (CHR ''0'') :: nat) = 48" by simp
  then have "char_of (48 + n) = CHR ''0'' \<Longrightarrow> n = 0" using v by (metis add_cancel_right_right)
  moreover have "(char_of (48 + 0 :: nat) :: char) = CHR ''0''" by code_simp
  ultimately show ?thesis using v assms by (auto simp: is_digit_def digit_def simp del: of_char_of)
qed

lemma show_nat_props:
  "digits (show_nat n) \<and> dval (show_nat n) = int n \<and> show_nat n \<noteq> [] \<and>
   (hd (show_nat n) = CHR ''0'' \<longrightarrow> n = 0)"
proof (induction n rule: show_nat.induct)
  case (1 n)
  show ?case
  proof (cases "n < 10")
    case True
    then show ?thesis using digit_char[OF True] by (simp add: show_nat.simps[of n] del: add_numeral_left)
  next
    case False
    have "n mod 10 < 10" by simp
    moreover have "int (n div 10) * 10 + int (n mod 10) = int n"
      by (metis div_mult_mod_eq of_nat_add of_nat_mult of_nat_numeral)
    moreover have "n div 10 \<noteq> 0" using False by simp
    ultimately show ?thesis using digit_char[of "n mod 10"] "1.IH"[OF False] False
      by (simp add: show_nat.simps[of n] dval_append hd_append)
  qed
qed

lemma show_nat_length: "n < 10 ^ k \<Longrightarrow> 0 < k \<Longrightarrow> length (show_nat n) \<le> k"
proof (induction n arbitrary: k rule: show_nat.induct)
  case (1 n)
  show ?case
  proof (cases "n < 10")
    case True
    then show ?thesis using 1 by (simp add: show_nat.simps[of n])
  next
    case False
    then obtain j where k: "k = Suc j" "0 < j" using 1 by (cases k; cases "k - 1") auto
    have "n div 10 < 10 ^ j" using 1(2) k by (simp add: less_mult_imp_div_less mult.commute)
    then show ?thesis using "1.IH"[OF False] k False by (simp add: show_nat.simps[of n])
  qed
qed

lemma show_int_nonneg:
  "0 \<le> v \<Longrightarrow> digits (show_int v) \<and> dval (show_int v) = v \<and> show_int v \<noteq> [] \<and> (hd (show_int v) = CHR ''0'' \<longrightarrow> v = 0)"
  using show_nat_props[of "nat v"] by (auto simp: show_int_def)

lemma show_int_length: "0 \<le> v \<Longrightarrow> v < 10 ^ k \<Longrightarrow> 0 < k \<Longrightarrow> length (show_int v) \<le> k"
  using show_nat_length[of "nat v" k] by (simp add: show_int_def nat_less_iff)

lemma show_nat_long: "10 ^ k \<le> n \<Longrightarrow> k < length (show_nat n)"
proof (induction n arbitrary: k rule: show_nat.induct)
  case (1 n)
  show ?case
  proof (cases k)
    case 0
    then show ?thesis using show_nat_props[of n] by simp
  next
    case (Suc j)
    have "(10::nat) ^ 1 \<le> 10 ^ k" using Suc by (intro power_increasing) simp_all
    then have n: "\<not> n < 10" using "1.prems" by simp
    have "10 ^ j \<le> n div 10" using "1.prems" Suc by (simp add: less_eq_div_iff_mult_less_eq mult.commute)
    then show ?thesis using "1.IH"[OF n] Suc n by (simp add: show_nat.simps[of n])
  qed
qed

lemma pad4_props:
  assumes "0 \<le> v" "v \<le> 9999"
  shows "digits (pad4 v) \<and> dval (pad4 v) = v \<and> length (pad4 v) = 4"
proof -
  have z: "is_digit (CHR ''0'')" "digit (CHR ''0'') = 0" by (simp_all add: is_digit_def digit_def)
  have le: "length (show_nat (nat v)) \<le> k" if "v < 10 ^ k" "0 < k" for k
    using show_int_length[OF assms(1) that] assms(1) by (simp add: show_int_def)
  have gt: "k < length (show_nat (nat v))" if "10 ^ k \<le> v" for k
    using that by (intro show_nat_long) (simp add: le_nat_iff)
  have s: "digits (show_nat (nat v))" "dval (show_nat (nat v)) = v" using show_nat_props[of "nat v"] assms by simp_all
  have ne: "0 < length (show_nat (nat v))" using show_nat_props[of "nat v"] by simp
  consider "v < 10" | "10 \<le> v" "v < 100" | "100 \<le> v" "v < 1000" | "1000 \<le> v" by linarith
  then show ?thesis
  proof cases
    case 1
    then have "length (show_nat (nat v)) \<le> 1" using le[of 1] by simp
    with ne have "length (show_nat (nat v)) = 1" by linarith
    then show ?thesis using 1 s z assms by (simp add: pad4_def show_int_def)
  next
    case 2
    then have "length (show_nat (nat v)) = 2" using le[of 2] gt[of 1] by simp
    then show ?thesis using 2 s z assms by (simp add: pad4_def show_int_def)
  next
    case 3
    then have "length (show_nat (nat v)) = 3" using le[of 3] gt[of 2] by simp
    then show ?thesis using 3 s z assms by (simp add: pad4_def show_int_def)
  next
    case 4
    then have "length (show_nat (nat v)) = 4" using le[of 4] gt[of 3] assms by simp
    then show ?thesis using 4 s z assms by (simp add: pad4_def show_int_def)
  qed
qed

subsection \<open>Values of group arrays\<close>

definition radix :: "int list \<Rightarrow> int" where
  "radix xs = (\<Sum>k<length xs. xs ! k * 10000 ^ k)"

lemma radix_Nil [simp]: "radix [] = 0" and radix_Cons [simp]: "radix (x # xs) = x + 10000 * radix xs"
  by (simp_all add: radix_def sum.lessThan_Suc_shift sum_distrib_left mult.left_commute del: sum.lessThan_Suc)

lemma radix_snoc: "radix (xs @ [x]) = radix xs + x * 10000 ^ length xs"
  by (induction xs) (simp_all add: algebra_simps)

lemma radix_zeros [simp]: "radix (replicate n 0) = 0"
  by (induction n) simp_all

lemma radix_update: "j < length xs \<Longrightarrow> radix (xs[j := v]) = radix xs + (v - xs ! j) * 10000 ^ j"
proof (induction xs arbitrary: j)
  case (Cons x xs)
  show ?case
  proof (cases j)
    case (Suc i)
    then have "radix (xs[i := v]) = radix xs + (v - xs ! i) * 10000 ^ i" using Cons by simp
    then show ?thesis using Suc by simp
  qed simp
qed simp

lemma groups_props:
  "digits s \<Longrightarrow> radix (groups s) = dval s \<and> length (groups s) = size4 s \<and>
     (\<forall>k<length (groups s). 0 \<le> groups s ! k \<and> groups s ! k \<le> 9999)"
proof (induction s rule: groups.induct)
  case (1 s)
  show ?case
  proof (cases "4 \<le> length s")
    case True
    let ?n = "length s - 4" let ?h = "take ?n s" and ?t = "drop ?n s"
    have d: "digits ?h" "digits ?t" using 1 by simp_all
    have t: "length ?t = 4" using True by simp
    have "dval s = dval (?h @ ?t)" by simp
    also have "\<dots> = dval ?h * 10000 + dval ?t" unfolding dval_append[OF d] t by simp
    finally have v: "dval s = dval ?t + 10000 * dval ?h" by simp
    have b: "0 \<le> dval ?t" "dval ?t \<le> 9999" using dval_bounds[OF d(2)] unfolding t by simp_all
    have "size4 s = Suc (size4 ?h)" using True by (auto simp: size4_def mod_if div_if)
    then show ?thesis using "1.IH"[OF True d(1)] True v b
      by (simp add: groups.simps[of s] atoi_digits[OF d(2)] nth_Cons split: nat.split)
  next
    case False
    then have "dval s \<le> 9999"
    proof -
      have "(10::int) ^ length s \<le> 10 ^ 3" using False by (intro power_increasing) simp_all
      then show ?thesis using dval_bounds[OF 1(2)] by simp
    qed
    moreover have "s \<noteq> [] \<Longrightarrow> size4 s = 1" using False by (auto simp: size4_def)
    ultimately show ?thesis using False 1(2) dval_bounds[OF 1(2)]
      by (auto simp: groups.simps[of s] atoi_digits size4_def)
  qed
qed

lemma top_group_cases:
  "lo \<le> i \<Longrightarrow> (case top_group g lo i of
      None \<Rightarrow> \<forall>j. lo \<le> j \<and> j \<le> i \<longrightarrow> g ! j = 0
    | Some k \<Rightarrow> lo \<le> k \<and> k \<le> i \<and> g ! k \<noteq> 0 \<and> (\<forall>j. k < j \<and> j \<le> i \<longrightarrow> g ! j = 0))"
proof (induction g lo i rule: top_group.induct)
  case (1 g lo i)
  show ?case
  proof (cases "g ! i \<noteq> 0 \<or> i \<le> lo")
    case True
    then show ?thesis using 1(2) by (auto simp: top_group.simps[of g lo i])
  next
    case False
    have z: "(j \<le> i) = (j \<le> i - 1 \<or> j = i)" for j using False by auto
    have "lo \<le> i - 1" using False by linarith
    moreover have "top_group g lo i = top_group g lo (i - 1)" using False by (simp add: top_group.simps[of g lo i])
    ultimately show ?thesis using "1.IH" False by (auto split: option.split simp: z)
  qed
qed

lemma print_tail:
  assumes "lo \<le> k" "\<forall>j. lo \<le> j \<and> j < k \<longrightarrow> 0 \<le> g ! j \<and> g ! j \<le> 9999"
  defines "s \<equiv> concat (map (\<lambda>j. pad4 (g ! j)) (rev [lo..<k]))"
  shows "digits s \<and> length s = 4 * (k - lo) \<and> dval s = (\<Sum>j\<in>{lo..<k}. g ! j * 10000 ^ (j - lo))"
  using assms(1,2) unfolding s_def
proof (induction k rule: dec_induct)
  case (step k)
  let ?s = "concat (map (\<lambda>j. pad4 (g ! j)) (rev [lo..<k]))"
  have IH: "digits ?s \<and> length ?s = 4 * (k - lo) \<and> dval ?s = (\<Sum>j\<in>{lo..<k}. g ! j * 10000 ^ (j - lo))"
    using step by simp
  have p: "digits (pad4 (g ! k)) \<and> dval (pad4 (g ! k)) = g ! k \<and> length (pad4 (g ! k)) = 4"
    using step by (intro pad4_props) simp_all
  have e: "concat (map (\<lambda>j. pad4 (g ! j)) (rev [lo..<Suc k])) = pad4 (g ! k) @ ?s" using step.hyps by simp
  have "dval (pad4 (g ! k) @ ?s) = dval (pad4 (g ! k)) * 10 ^ length ?s + dval ?s" using p IH by (intro dval_append) simp_all
  also have "(10::int) ^ length ?s = 10000 ^ (k - lo)" using IH by (simp add: power_mult)
  finally show ?case unfolding e using p IH step.hyps by (simp add: Suc_diff_le)
qed simp

lemma print_groups_props:
  assumes "lo \<le> i" and b: "\<forall>j. lo \<le> j \<and> j \<le> i \<longrightarrow> 0 \<le> g ! j \<and> g ! j \<le> 9999"
  shows "normal (print_groups g lo i) \<and> dval (print_groups g lo i) = (\<Sum>j\<in>{lo..i}. g ! j * 10000 ^ (j - lo))"
proof (cases "top_group g lo i")
  case None
  then have "\<forall>j\<in>{lo..i}. g ! j = 0" using top_group_cases[OF assms(1), of g] by simp
  then show ?thesis using None by (simp add: print_groups_def normal_def is_digit_def digit_def)
next
  case (Some k)
  then have k: "lo \<le> k" "k \<le> i" "g ! k \<noteq> 0" "\<forall>j. k < j \<and> j \<le> i \<longrightarrow> g ! j = 0"
    using top_group_cases[OF assms(1), of g] by simp_all
  let ?t = "concat (map (\<lambda>j. pad4 (g ! j)) (rev [lo..<k]))"
  have t: "digits ?t \<and> length ?t = 4 * (k - lo) \<and> dval ?t = (\<Sum>j\<in>{lo..<k}. g ! j * 10000 ^ (j - lo))"
    using k b by (intro print_tail) simp_all
  have h: "digits (show_int (g ! k))" "dval (show_int (g ! k)) = g ! k" "show_int (g ! k) \<noteq> []"
      "hd (show_int (g ! k)) \<noteq> CHR ''0''"
    using show_int_nonneg[of "g ! k"] b k by auto
  have "(\<Sum>j\<in>{lo..i}. g ! j * 10000 ^ (j - lo)) = (\<Sum>j\<in>{lo..k}. g ! j * 10000 ^ (j - lo))"
    using k by (intro sum.mono_neutral_right) auto
  also have "\<dots> = g ! k * 10000 ^ (k - lo) + (\<Sum>j\<in>{lo..<k}. g ! j * 10000 ^ (j - lo))"
    using k by (simp add: atLeastLessThanSuc_atLeastAtMost[symmetric] add.commute del: atLeastLessThanSuc)
  also have "\<dots> = dval (show_int (g ! k)) * 10 ^ length ?t + dval ?t"
    using t h by (simp add: power_mult)
  also have "\<dots> = dval (show_int (g ! k) @ ?t)" using t h by (simp add: dval_append)
  finally show ?thesis using Some t h by (simp add: print_groups_def normal_def hd_append)
qed

lemma radix_sum: "i < length xs \<Longrightarrow> \<forall>j. i < j \<and> j < length xs \<longrightarrow> xs ! j = 0 \<Longrightarrow>
    radix xs = (\<Sum>j\<in>{0..i}. xs ! j * 10000 ^ j)"
  unfolding radix_def by (rule sum.mono_neutral_right) auto

subsection \<open>Addition\<close>

lemma sdiv_smod: "0 \<le> x \<Longrightarrow> x sdiv 10000 = x div 10000 \<and> x smod 10000 = x mod (10000 :: int)"
  by (cases "x = 0") (simp_all add: signed_divide_int_eq_divide_int[of x 10000] signed_modulo_int_eq_modulo_int[of x 10000])

text \<open>A carry from one group into the next keeps the value.\<close>

lemma radix_carry:
  assumes "j + 1 < length xs" "xs ! j = 0 + (q * 10000 + r)"
  shows "radix ((xs[j + 1 := xs ! (j + 1) + q])[j := r]) = radix xs"
  using assms by (simp add: radix_update algebra_simps)

definition add_inv :: "int list \<Rightarrow> int list \<Rightarrow> nat \<Rightarrow> int list \<Rightarrow> bool" where
  "add_inv gl gr j res \<longleftrightarrow> length res = length gl + 1 \<and>
     radix res = radix (take j gl) + radix (take j gr) \<and>
     (\<forall>k<length res. 0 \<le> res ! k \<and> (k < j \<longrightarrow> res ! k \<le> 9999)) \<and> res ! j \<le> 1 \<and>
     (\<forall>k. j < k \<and> k < length res \<longrightarrow> res ! k = 0)"

lemma radix_take_Suc: "j < length g \<Longrightarrow> radix (take (Suc j) g) = radix (take j g) + g ! j * 10000 ^ j"
  by (simp add: take_Suc_conv_app_nth radix_snoc)

lemma add_step_inv:
  assumes I: "add_inv gl gr j res" and j: "j < length gl" and len: "length gr \<le> length gl"
    and b: "\<forall>k<length gl. 0 \<le> gl ! k \<and> gl ! k \<le> 9999" "\<forall>k<length gr. 0 \<le> gr ! k \<and> gr ! k \<le> 9999"
  shows "add_inv gl gr (Suc j) (add_step gl gr (length gr) j res)"
proof -
  define y where "y = (if j < length gr then gr ! j else 0)"
  define x where "x = res ! j + (gl ! j + y)"
  have l: "length res = length gl + 1" and z: "res ! (j + 1) = 0" and r: "0 \<le> res ! j" "res ! j \<le> 1"
    using I j by (auto simp: add_inv_def)
  have y: "0 \<le> y" "y \<le> 9999" using b(2) by (simp_all add: y_def)
  have "0 \<le> gl ! j" "gl ! j \<le> 9999" using b(1) j by simp_all
  then have x: "0 \<le> x" "x \<le> 19999" using r y unfolding x_def by linarith+
  define q m where "q = x div 10000" and "m = x mod 10000"
  have q: "0 \<le> q" "q \<le> 1" "0 \<le> m" "m \<le> 9999" using x unfolding q_def m_def by linarith+
  have qm: "x = q * 10000 + m" unfolding q_def m_def by (rule div_mult_mod_eq[symmetric])
  have xs: "(if j < length gr then res[j := res ! j + (gl ! j + gr ! j)] else res[j := res ! j + gl ! j]) = res[j := x]"
    by (simp add: x_def y_def)
  have s: "add_step gl gr (length gr) j res = (res[j := x])[j + 1 := q, j := m]"
    unfolding add_step_def Let_def xs using sdiv_smod[OF x(1)] l j z by (simp add: q_def m_def)
  have "radix (add_step gl gr (length gr) j res) = radix (res[j := x])"
    unfolding s using radix_carry[of j "res[j := x]" q m] l j z qm by simp
  also have "\<dots> = radix res + (gl ! j * 10000 ^ j + y * 10000 ^ j)"
    using l j by (simp add: radix_update x_def distrib_right)
  also have "y * 10000 ^ j = radix (take (Suc j) gr) - radix (take j gr)"
    by (simp add: y_def radix_take_Suc)
  also have "radix res + (gl ! j * 10000 ^ j + (radix (take (Suc j) gr) - radix (take j gr))) =
      radix (take (Suc j) gl) + radix (take (Suc j) gr)"
    using I j by (simp add: add_inv_def radix_take_Suc)
  finally have v: "radix (add_step gl gr (length gr) j res) = radix (take (Suc j) gl) + radix (take (Suc j) gr)" .
  have n: "add_step gl gr (length gr) j res ! k = (if k = j then m else if k = j + 1 then q else res ! k)"
    if "k < length res" for k
    unfolding s using that l j by (simp add: nth_list_update)
  have ls: "length (add_step gl gr (length gr) j res) = length res" unfolding s by simp
  have "\<forall>k<length res. 0 \<le> add_step gl gr (length gr) j res ! k \<and>
      (k < Suc j \<longrightarrow> add_step gl gr (length gr) j res ! k \<le> 9999)"
    using I q by (simp add: n add_inv_def)
  moreover have "add_step gl gr (length gr) j res ! Suc j \<le> 1" using n[of "Suc j"] l j q by simp
  moreover have "\<forall>k. Suc j < k \<and> k < length res \<longrightarrow> add_step gl gr (length gr) j res ! k = 0"
    using I n by (auto simp: add_inv_def)
  ultimately show ?thesis unfolding add_inv_def ls using v l by blast
qed

lemma add_loop_inv:
  assumes "n \<le> length gl" "length gr \<le> length gl"
    and "\<forall>k<length gl. 0 \<le> gl ! k \<and> gl ! k \<le> 9999" "\<forall>k<length gr. 0 \<le> gr ! k \<and> gr ! k \<le> 9999"
  shows "add_inv gl gr n (fold (\<lambda>j res. add_step gl gr (length gr) j res) [0..<n] (replicate (length gl + 1) 0))"
  using assms(1)
proof (induction n)
  case 0
  then show ?case by (simp add: add_inv_def del: replicate.simps)
next
  case (Suc n)
  then show ?case using add_step_inv[OF _ _ assms(2-4), of n] by simp
qed

lemma size4_alt: "size4 s = (length s + 3) div 4"
  unfolding size4_def by presburger

theorem big_Add_value:
  assumes "digits a" "digits b"
  shows "normal (big_Add a b) \<and> dval (big_Add a b) = dval a + dval b"
proof -
  have main: "normal (print_groups (fold (\<lambda>j res. add_step (groups l) (groups r) (size4 r) j res) [0..<size4 l]
        (replicate (size4 l + 1) 0)) 0 (size4 l)) \<and>
      dval (print_groups (fold (\<lambda>j res. add_step (groups l) (groups r) (size4 r) j res) [0..<size4 l]
        (replicate (size4 l + 1) 0)) 0 (size4 l)) = dval l + dval r"
    if "digits l" "digits r" "length r \<le> length l" for l r
  proof -
    define res where "res = fold (\<lambda>j res. add_step (groups l) (groups r) (size4 r) j res) [0..<size4 l]
        (replicate (size4 l + 1) 0)"
    note gl = groups_props[OF that(1)] and gr = groups_props[OF that(2)]
    have le: "size4 r \<le> size4 l" using that(3) by (simp add: size4_alt div_le_mono)
    then have I: "add_inv (groups l) (groups r) (size4 l) res"
      using add_loop_inv[of "size4 l" "groups l" "groups r"] gl gr by (simp add: res_def)
    have "\<forall>j. 0 \<le> j \<and> j \<le> size4 l \<longrightarrow> 0 \<le> res ! j \<and> res ! j \<le> 9999"
    proof (intro allI impI)
      fix j assume "0 \<le> j \<and> j \<le> size4 l"
      then show "0 \<le> res ! j \<and> res ! j \<le> 9999" using I gl by (cases "j = size4 l") (simp_all add: add_inv_def)
    qed
    then have "normal (print_groups res 0 (size4 l)) \<and>
        dval (print_groups res 0 (size4 l)) = (\<Sum>j\<in>{0..size4 l}. res ! j * 10000 ^ j)"
      using print_groups_props[of 0 "size4 l" res] by simp
    moreover have "radix res = (\<Sum>j\<in>{0..size4 l}. res ! j * 10000 ^ j)"
      using I gl by (intro radix_sum) (auto simp: add_inv_def)
    moreover have "radix res = dval l + dval r"
      using I gl gr le by (simp add: add_inv_def)
    ultimately show ?thesis unfolding res_def by simp
  qed
  show ?thesis
    using main[OF assms] main[OF assms(2,1)] by (auto simp: big_Add_def Let_def add.commute)
qed

subsection \<open>Subtraction\<close>

lemma radix_bound: "\<forall>k<length xs. 0 \<le> xs ! k \<and> xs ! k \<le> 9999 \<Longrightarrow> 0 \<le> radix xs \<and> radix xs < 10000 ^ length xs"
proof (induction xs)
  case (Cons x xs)
  have "\<forall>k<length xs. 0 \<le> xs ! k \<and> xs ! k \<le> 9999" using Cons.prems by auto
  moreover have "0 \<le> x" "x \<le> 9999" using Cons.prems by (auto dest: spec[of _ 0])
  ultimately show ?case using Cons.IH by simp
qed simp

text \<open>
  The invariant of the subtraction loop: the groups already computed, and a difference of the rest that
  is not negative.
\<close>

definition rest :: "int list \<Rightarrow> int list \<Rightarrow> nat \<Rightarrow> int" where
  "rest gl gr j = radix (drop j gl) - radix (drop j gr)"

lemma radix_drop: "j < length g \<Longrightarrow> radix (drop j g) = g ! j + 10000 * radix (drop (Suc j) g)"
  by (simp add: Cons_nth_drop_Suc[symmetric])

lemma minus_loop_value:
  assumes "length gr \<le> length gl" "j + k = length gl" "length res = length gl + 1"
    and "\<forall>i<length gr. 0 \<le> gr ! i \<and> gr ! i \<le> 9999"
    and "\<forall>i. j \<le> i \<and> i < length gl \<longrightarrow> gl ! i \<le> 9999" "\<forall>i. j < i \<and> i < length gl \<longrightarrow> 0 \<le> gl ! i"
    and "j < length gl \<Longrightarrow> -1 \<le> gl ! j" and "0 \<le> rest gl gr j"
    and "\<forall>i<j. 0 \<le> res ! i \<and> res ! i \<le> 9999" "\<forall>i. j \<le> i \<and> i < length res \<longrightarrow> res ! i = 0"
  shows "\<exists>res'. minus_loop gr (length gr) j k gl res = Some res' \<and> length res' = length res \<and>
     radix res' = radix res + 10000 ^ j * rest gl gr j \<and> (\<forall>i<length gl. 0 \<le> res' ! i \<and> res' ! i \<le> 9999) \<and>
     res' ! length gl = 0"
  using assms
proof (induction k arbitrary: j gl res)
  case 0
  then show ?case by (simp add: rest_def)
next
  case (Suc k)
  have j: "j < length gl" using Suc.prems(2) by simp
  define y where "y = (if j < length gr then gr ! j else 0)"
  define x where "x = gl ! j - y"
  have y: "0 \<le> y" "y \<le> 9999" using Suc.prems(4) by (simp_all add: y_def)
  have x: "-10000 \<le> x" "x \<le> 9999" using Suc.prems(5,7) j y by (auto simp: x_def)
  have R: "rest gl gr j = x + 10000 * rest gl gr (Suc j)"
    unfolding rest_def x_def y_def radix_drop[OF j] using j
    by (cases "j < length gr") (simp_all add: radix_drop algebra_simps)
  show ?case
  proof (cases "x < 0")
    case False
    have up: "minus_loop gr (length gr) j (Suc k) gl res = minus_loop gr (length gr) (Suc j) k gl (res[j := x])"
      using False by (simp add: Let_def x_def y_def)
    have "0 \<le> rest gl gr (Suc j)" using R Suc.prems(8) x by linarith
    then have "\<exists>res'. minus_loop gr (length gr) (Suc j) k gl (res[j := x]) = Some res' \<and> length res' = length (res[j := x]) \<and>
       radix res' = radix (res[j := x]) + 10000 ^ Suc j * rest gl gr (Suc j) \<and>
       (\<forall>i<length gl. 0 \<le> res' ! i \<and> res' ! i \<le> 9999) \<and> res' ! length gl = 0"
      using Suc.prems False x j
      by (intro Suc.IH) (auto simp: nth_list_update less_Suc_eq intro: order.trans[of "-1" 0])
    then show ?thesis unfolding up R using Suc.prems(3,10) j by (auto simp: radix_update algebra_simps)
  next
    case True
    have j1: "j + 1 < length gl"
    proof (rule ccontr)
      assume "\<not> j + 1 < length gl"
      then have "rest gl gr (Suc j) = 0" using Suc.prems(1) by (simp add: rest_def)
      then show False using R True Suc.prems(8) by simp
    qed
    have "gl ! Suc j \<le> 9999" "0 \<le> gl ! Suc j" using Suc.prems(5,6) j1 by simp_all
    then have g1: "gl ! Suc j \<le> 10000" "-1 \<le> gl ! Suc j" by simp_all
    let ?gl = "gl[j + 1 := gl ! (j + 1) - 1, j := gl ! j + 10000]"
    have up: "minus_loop gr (length gr) j (Suc k) gl res = minus_loop gr (length gr) (Suc j) k ?gl (res[j := x + 10000])"
      using True j1 by (simp add: Let_def x_def y_def)
    have "drop (Suc j) ?gl = (gl ! (j + 1) - 1) # drop (j + 2) gl"
      using j1 by (simp add: drop_update_swap Cons_nth_drop_Suc[symmetric])
    then have D: "radix (drop (Suc j) ?gl) = radix (drop (Suc j) gl) - 1"
      using radix_drop[of "Suc j" gl] j1 by simp
    then have R': "rest ?gl gr (Suc j) = rest gl gr (Suc j) - 1" by (simp add: rest_def)
    have "0 \<le> rest ?gl gr (Suc j)" using R R' Suc.prems(8) True by linarith
    then have "\<exists>res'. minus_loop gr (length gr) (Suc j) k ?gl (res[j := x + 10000]) = Some res' \<and>
       length res' = length (res[j := x + 10000]) \<and>
       radix res' = radix (res[j := x + 10000]) + 10000 ^ Suc j * rest ?gl gr (Suc j) \<and>
       (\<forall>i<length ?gl. 0 \<le> res' ! i \<and> res' ! i \<le> 9999) \<and> res' ! length ?gl = 0"
      using Suc.prems True x j j1 g1
      by (intro Suc.IH) (auto simp: nth_list_update less_Suc_eq)
    then show ?thesis unfolding up R R' using Suc.prems(3,10) j by (auto simp: radix_update algebra_simps)
  qed
qed

text \<open>Strings of digits of the same length are ordered like their values.\<close>

lemma digit_less: "is_digit c \<Longrightarrow> is_digit d \<Longrightarrow> ((of_char c :: nat) < of_char d) = (digit c < digit d)"
  by (simp add: digit_def)

lemma str_lt_value:
  "length a = length b \<Longrightarrow> digits a \<Longrightarrow> digits b \<Longrightarrow> str_lt a b \<longleftrightarrow> dval a < dval b"
proof (induction a b rule: list_induct2)
  case (Cons c s d t)
  have s: "0 \<le> dval s" "dval s < 10 ^ length s" "0 \<le> dval t" "dval t < 10 ^ length s"
    using dval_bounds[of s] dval_bounds[of t] Cons by simp_all
  have v: "dval (c # s) = digit c * 10 ^ length s + dval s" "dval (d # t) = digit d * 10 ^ length s + dval t"
    using Cons by simp_all
  have lt: "x * 10 ^ length s + u < y * 10 ^ length s + v"
    if "x < y" "u < 10 ^ length s" "0 \<le> v" for x y u v :: int
  proof -
    have "(x + 1) * 10 ^ length s \<le> y * 10 ^ length s" using that by (intro mult_right_mono) simp_all
    then show ?thesis using that by (simp add: distrib_right)
  qed
  consider "digit c < digit d" | "digit d < digit c" | "digit c = digit d" by linarith
  then show ?case
  proof cases
    case 1
    then show ?thesis using lt[OF 1 s(2,3)] v digit_less[of c d] Cons.prems Cons.hyps by simp
  next
    case 2
    then show ?thesis using lt[OF 2 s(4,1)] v digit_less[of d c] digit_less[of c d] Cons.prems Cons.hyps by simp
  next
    case 3
    then show ?thesis using v digit_less[of d c] digit_less[of c d] Cons by simp
  qed
qed simp

lemma big_Minuss_core:
  assumes "digits l" "digits r" "length r \<le> length l" "dval r \<le> dval l"
  shows "\<exists>res. minus_loop (groups r) (size4 r) 0 (size4 l) (groups l) (replicate (size4 l + 1) 0) = Some res \<and>
     normal (print_groups res 0 (size4 l)) \<and> dval (print_groups res 0 (size4 l)) = dval l - dval r"
proof -
  note gl = groups_props[OF assms(1)] and gr = groups_props[OF assms(2)]
  have le: "size4 r \<le> size4 l" using assms(3) by (simp add: size4_alt div_le_mono)
  have "\<exists>res. minus_loop (groups r) (length (groups r)) 0 (size4 l) (groups l) (replicate (size4 l + 1) 0) = Some res \<and>
      length res = length (replicate (size4 l + 1) (0::int)) \<and>
      radix res = radix (replicate (size4 l + 1) 0) + 10000 ^ 0 * rest (groups l) (groups r) 0 \<and>
      (\<forall>i<length (groups l). 0 \<le> res ! i \<and> res ! i \<le> 9999) \<and> res ! length (groups l) = 0"
    using gl gr le assms(4)
    by (intro minus_loop_value) (auto simp: rest_def simp del: replicate.simps intro: order.trans[of "-1" 0])
  then obtain res where res: "minus_loop (groups r) (size4 r) 0 (size4 l) (groups l) (replicate (size4 l + 1) 0) = Some res"
      "length res = size4 l + 1" "radix res = dval l - dval r"
      "\<forall>i. i < size4 l \<longrightarrow> 0 \<le> res ! i \<and> res ! i \<le> 9999" "res ! size4 l = 0"
    using gl gr by (auto simp: rest_def simp del: replicate.simps)
  have "\<forall>j. 0 \<le> j \<and> j \<le> size4 l \<longrightarrow> 0 \<le> res ! j \<and> res ! j \<le> 9999"
    using res(4,5) by (auto simp: le_less)
  then have "normal (print_groups res 0 (size4 l)) \<and>
      dval (print_groups res 0 (size4 l)) = (\<Sum>j\<in>{0..size4 l}. res ! j * 10000 ^ j)"
    using print_groups_props[of 0 "size4 l" res] by simp
  moreover have "radix res = (\<Sum>j\<in>{0..size4 l}. res ! j * 10000 ^ j)"
    using res(2) by (intro radix_sum) auto
  ultimately show ?thesis using res by auto
qed

text \<open>
  Without leading zeros a longer string is a larger number, so no borrow leaves the array.
\<close>

lemma normal_bounds: "normal s \<Longrightarrow> s \<noteq> ''0'' \<Longrightarrow> 10 ^ (length s - 1) \<le> dval s \<and> dval s < 10 ^ length s"
proof (cases s)
  case (Cons c t)
  assume n: "normal s" "s \<noteq> ''0''"
  then have c: "is_digit c" "digits t" "c \<noteq> CHR ''0''" using Cons by (auto simp: normal_def)
  have "digit c \<noteq> 0"
  proof
    assume "digit c = 0"
    then have "(of_char c :: nat) = of_char (CHR ''0'')" using c(1) by (simp add: digit_def is_digit_def)
    then show False using c(3) by (metis char_of_char)
  qed
  then have "1 \<le> digit c" using digit_bounds[OF c(1)] by simp
  then have "1 * 10 ^ length t \<le> digit c * 10 ^ length t" by (intro mult_right_mono) simp_all
  then have "10 ^ length t \<le> digit c * 10 ^ length t + dval t" using dval_bounds[OF c(2)] by linarith
  then show ?thesis using Cons c dval_bounds[of s] by simp
qed (simp add: normal_def)

lemma normal_zero: "normal s \<Longrightarrow> (dval s = 0) = (s = ''0'')"
proof (cases "s = ''0''")
  case False
  assume "normal s"
  then have "(10::int) ^ (length s - 1) \<le> dval s" using normal_bounds False by simp
  moreover have "(0::int) < 10 ^ (length s - 1)" by simp
  ultimately have "0 < dval s" by linarith
  then show ?thesis using False by simp
qed (simp add: is_digit_def digit_def)

lemma normal_len_less: "normal a \<Longrightarrow> normal b \<Longrightarrow> length a < length b \<Longrightarrow> dval a < dval b"
proof -
  assume n: "normal a" "normal b" "length a < length b"
  have "b \<noteq> ''0''" using n by (auto simp: normal_def)
  then have "10 ^ (length b - 1) \<le> dval b" using normal_bounds[OF n(2)] by simp
  moreover have "(10::int) ^ length a \<le> 10 ^ (length b - 1)" using n(3) by (intro power_increasing) simp_all
  moreover have "dval a < 10 ^ length a" using dval_bounds[of a] n(1) by (simp add: normal_def)
  ultimately show ?thesis by linarith
qed

theorem big_Minuss_value:
  assumes "digits a" "digits b"
    and "length a < length b \<Longrightarrow> dval a < dval b" "length b < length a \<Longrightarrow> dval b \<le> dval a"
  shows "\<exists>s. big_Minuss a b = Some (s, dval b \<le> dval a) \<and> normal s \<and> dval s = \<bar>dval a - dval b\<bar>"
proof (cases "length a < length b \<or> length a = length b \<and> str_lt a b")
  case True
  then have lt: "dval a < dval b" using assms str_lt_value[of a b] by auto
  obtain res where "minus_loop (groups a) (size4 a) 0 (size4 b) (groups b) (replicate (size4 b + 1) 0) = Some res"
      "normal (print_groups res 0 (size4 b))" "dval (print_groups res 0 (size4 b)) = dval b - dval a"
    using big_Minuss_core[OF assms(2,1)] True lt by auto
  then show ?thesis using True lt by (auto simp: big_Minuss_def Let_def simp del: replicate.simps)
next
  case False
  then have le: "dval b \<le> dval a" using assms str_lt_value[of a b] by (cases "length a = length b") auto
  obtain res where "minus_loop (groups b) (size4 b) 0 (size4 a) (groups a) (replicate (size4 a + 1) 0) = Some res"
      "normal (print_groups res 0 (size4 a))" "dval (print_groups res 0 (size4 a)) = dval a - dval b"
    using big_Minuss_core[OF assms(1,2)] False le by auto
  then show ?thesis using False le by (auto simp: big_Minuss_def Let_def simp del: replicate.simps)
qed

subsection \<open>Multiplication\<close>

text \<open>
  Before step \<open>j\<close> of row \<open>i\<close>: the groups are in range except the one that has just got a carry, and
  the ones no row has reached are zero.  All values stay below \<open>10 ^ 8\<close>.
\<close>

definition mul_inv :: "nat \<Rightarrow> nat \<Rightarrow> nat \<Rightarrow> nat \<Rightarrow> int list \<Rightarrow> bool" where
  "mul_inv N m i j res \<longleftrightarrow> length res = N \<and>
     (\<forall>k<N. 0 \<le> res ! k \<and> res ! k \<le> (if k = i + j - 1 then 19998 else 9999)) \<and>
     (\<forall>k<N. (if j \<le> m then i + m \<le> k else i + m < k) \<longrightarrow> res ! k = 0) \<and> (m < j \<longrightarrow> res ! (i + m) \<le> 9999)"

lemma mul_step_inv:
  assumes I: "mul_inv N m i j res" and ij: "1 \<le> i" "1 \<le> j" "j \<le> m" "i + m < N"
    and b: "0 \<le> gl ! i" "gl ! i \<le> 9999" "0 \<le> gr ! j" "gr ! j \<le> 9999"
  shows "mul_inv N m i (Suc j) (mul_step gl gr i j res) \<and>
     radix (mul_step gl gr i j res) = radix res + gl ! i * gr ! j * 10000 ^ (i + j - 1)"
proof -
  define p where "p = i + j - 1"
  have p: "Suc p = i + j" "p < N" "Suc p < N" "p + 1 \<le> i + m" using ij by (simp_all add: p_def)
  define x where "x = res ! p + gl ! i * gr ! j"
  have l: "length res = N" using I by (simp add: mul_inv_def)
  have B: "0 \<le> res ! k \<and> res ! k \<le> (if k = p then 19998 else 9999)" if "k < N" for k
    using I that by (simp add: mul_inv_def p_def)
  have rp: "0 \<le> res ! p" "res ! p \<le> 19998" using B[OF p(2)] by simp_all
  have rq: "0 \<le> res ! Suc p" "res ! Suc p \<le> 9999" using B[OF p(3)] by simp_all
  have "0 \<le> gl ! i * gr ! j" "gl ! i * gr ! j \<le> 9999 * 9999" using b by (simp, intro mult_mono) simp_all
  then have x: "0 \<le> x" "x \<le> 99999999" using rp unfolding x_def by linarith+
  define q r where "q = x div 10000" and "r = x mod 10000"
  have qr: "0 \<le> q" "q \<le> 9999" "0 \<le> r" "r \<le> 9999" using x unfolding q_def r_def by linarith+
  have xq: "x = q * 10000 + r" unfolding q_def r_def by (rule div_mult_mod_eq[symmetric])
  have s: "mul_step gl gr i j res = (res[p := x])[p + 1 := res[p := x] ! (p + 1) + q, p := r]"
    using sdiv_smod[OF x(1)] p l unfolding mul_step_def Let_def p_def[symmetric] p(1)[symmetric]
    by (simp add: x_def q_def r_def)
  have "radix (mul_step gl gr i j res) = radix (res[p := x])"
    unfolding s using radix_carry[of p "res[p := x]" q r] p l xq by simp
  also have "\<dots> = radix res + gl ! i * gr ! j * 10000 ^ p" using p l by (simp add: radix_update x_def)
  finally have v: "radix (mul_step gl gr i j res) = radix res + gl ! i * gr ! j * 10000 ^ (i + j - 1)"
    by (simp add: p_def)
  have n: "mul_step gl gr i j res ! k = (if k = p then r else if k = Suc p then res ! Suc p + q else res ! k)"
    if "k < N" for k
    unfolding s using that l p by (simp add: nth_list_update)
  have ls: "length (mul_step gl gr i j res) = N" unfolding s using l by simp
  have old: "0 \<le> res ! k" "k \<noteq> p \<longrightarrow> res ! k \<le> 9999" "i + m \<le> k \<longrightarrow> res ! k = 0" if "k < N" for k
    using I that ij by (auto simp: mul_inv_def p_def)
  have idx: "i + Suc j - 1 = Suc p" using p(1) by simp
  have "0 \<le> mul_step gl gr i j res ! k \<and> mul_step gl gr i j res ! k \<le> (if k = Suc p then 19998 else 9999)"
    if "k < N" for k
    unfolding n[OF that] using old(1,2)[OF that] qr rq by simp
  then have "\<forall>k<N. 0 \<le> mul_step gl gr i j res ! k \<and> mul_step gl gr i j res ! k \<le> (if k = i + Suc j - 1 then 19998 else 9999)"
    unfolding idx by blast
  moreover have "\<forall>k<N. (if Suc j \<le> m then i + m \<le> k else i + m < k) \<longrightarrow> mul_step gl gr i j res ! k = 0"
    using old n p ij by (auto simp: p_def)
  moreover have "m < Suc j \<longrightarrow> mul_step gl gr i j res ! (i + m) \<le> 9999"
  proof
    assume "m < Suc j"
    then have e: "i + m = Suc p" using p(1) ij by simp
    have "res ! Suc p = 0" using old(3)[OF p(3)] e by simp
    then show "mul_step gl gr i j res ! (i + m) \<le> 9999" unfolding e n[OF p(3)] using qr by simp
  qed
  ultimately show ?thesis unfolding mul_inv_def[of N m i "Suc j"] ls using v by blast
qed

lemma mul_row_inv:
  assumes "mul_inv N m i 1 res" "1 \<le> i" "i + m < N" "j \<le> m"
    and "0 \<le> gl ! i" "gl ! i \<le> 9999" "\<forall>k<m + 1. 0 \<le> gr ! k \<and> gr ! k \<le> 9999"
  shows "mul_inv N m i (Suc j) (fold (\<lambda>j res. mul_step gl gr i j res) [1..<Suc j] res) \<and>
     radix (fold (\<lambda>j res. mul_step gl gr i j res) [1..<Suc j] res) =
       radix res + gl ! i * 10000 ^ (i - 1) * (\<Sum>k\<in>{1..<Suc j}. gr ! k * 10000 ^ k)"
  using assms(4)
proof (induction j)
  case 0
  then show ?case using assms by simp
next
  case (Suc j)
  let ?r = "fold (\<lambda>j res. mul_step gl gr i j res) [1..<Suc j] res"
  have IH: "mul_inv N m i (Suc j) ?r"
      "radix ?r = radix res + gl ! i * 10000 ^ (i - 1) * (\<Sum>k\<in>{1..<Suc j}. gr ! k * 10000 ^ k)" using Suc by simp_all
  have "1 \<le> Suc j" "0 \<le> gr ! Suc j" "gr ! Suc j \<le> 9999" using assms(7) Suc.prems by simp_all
  note S = mul_step_inv[OF IH(1) assms(2) this(1) Suc.prems assms(3) assms(5,6) this(2,3)]
  have f: "fold (\<lambda>j res. mul_step gl gr i j res) [1..<Suc (Suc j)] res = mul_step gl gr i (Suc j) ?r" by simp
  have e: "i + Suc j - 1 = (i - 1) + Suc j" using assms(2) by simp
  have "gl ! i * gr ! Suc j * 10000 ^ (i + Suc j - 1) = gl ! i * 10000 ^ (i - 1) * (gr ! Suc j * 10000 ^ Suc j)"
    unfolding e power_add by (simp only: ac_simps)
  then show ?case unfolding f using S IH(2) by (simp add: distrib_left del: power_Suc)
qed

lemma mul_inv_start:
  "length r = N \<Longrightarrow> \<forall>k<N. 0 \<le> r ! k \<and> r ! k \<le> 9999 \<Longrightarrow> \<forall>k<N. i + m < k \<longrightarrow> r ! k = 0 \<Longrightarrow> 1 \<le> m \<Longrightarrow>
   mul_inv N m (Suc i) 1 r"
  by (fastforce simp: mul_inv_def)

lemma mul_inv_end:
  assumes "mul_inv N m i (Suc m) r"
  shows "length r = N \<and> (\<forall>k<N. 0 \<le> r ! k \<and> r ! k \<le> 9999) \<and> (\<forall>k<N. i + m < k \<longrightarrow> r ! k = 0)"
proof -
  have "0 \<le> r ! k \<and> r ! k \<le> 9999" if "k < N" for k
  proof -
    have "0 \<le> r ! k \<and> r ! k \<le> (if k = i + m then 19998 else 9999)" "r ! (i + m) \<le> 9999"
      using assms that by (simp_all add: mul_inv_def)
    then show ?thesis by (cases "k = i + m") simp_all
  qed
  then show ?thesis using assms by (simp add: mul_inv_def)
qed

lemma mul_loop_inv:
  assumes "n * m + 2 = N" "i \<le> n" "1 \<le> m"
    and "\<forall>k<n + 1. 0 \<le> gl ! k \<and> gl ! k \<le> 9999" "\<forall>k<m + 1. 0 \<le> gr ! k \<and> gr ! k \<le> 9999"
  defines "R \<equiv> (\<Sum>k\<in>{1..<Suc m}. gr ! k * 10000 ^ k)"
  defines "res \<equiv> fold (\<lambda>i res. fold (\<lambda>j res. mul_step gl gr i j res) [1..<m + 1] res) [1..<Suc i] (replicate N 0)"
  shows "length res = N \<and> (\<forall>k<N. 0 \<le> res ! k \<and> res ! k \<le> 9999) \<and> (\<forall>k<N. i + m < k \<longrightarrow> res ! k = 0) \<and>
     radix res = (\<Sum>k\<in>{1..<Suc i}. gl ! k * 10000 ^ (k - 1)) * R"
  using assms(2) unfolding res_def
proof (induction i)
  case 0
  then show ?case by simp
next
  case (Suc i)
  let ?row = "\<lambda>i res. fold (\<lambda>j res. mul_step gl gr i j res) [1..<m + 1] res"
  let ?r = "fold ?row [1..<Suc i] (replicate N 0)"
  have IH: "length ?r = N" "\<forall>k<N. 0 \<le> ?r ! k \<and> ?r ! k \<le> 9999" "\<forall>k<N. i + m < k \<longrightarrow> ?r ! k = 0"
      "radix ?r = (\<Sum>k\<in>{1..<Suc i}. gl ! k * 10000 ^ (k - 1)) * R" using Suc by simp_all
  have bound: "Suc i + m < N"
    using assms(1,3) Suc.prems by (cases n; cases m) (simp_all add: algebra_simps)
  have start: "mul_inv N m (Suc i) 1 ?r" by (rule mul_inv_start[OF IH(1-3) assms(3)])
  have g: "0 \<le> gl ! Suc i" "gl ! Suc i \<le> 9999" using assms(4) Suc.prems by simp_all
  have row: "mul_inv N m (Suc i) (Suc m) (?row (Suc i) ?r)"
      "radix (?row (Suc i) ?r) = radix ?r + gl ! Suc i * 10000 ^ (Suc i - 1) * R"
    using mul_row_inv[OF start _ bound _ g assms(5), of m] by (simp_all add: R_def)
  have f: "fold ?row [1..<Suc (Suc i)] (replicate N 0) = ?row (Suc i) ?r" by simp
  have out: "length r = N \<and> (\<forall>k<N. 0 \<le> r ! k \<and> r ! k \<le> 9999) \<and> (\<forall>k<N. Suc i + m < k \<longrightarrow> r ! k = 0)"
    if "mul_inv N m (Suc i) (Suc m) r" for r by (rule mul_inv_end[OF that])
  have "radix (?row (Suc i) ?r) = (\<Sum>k\<in>{1..<Suc (Suc i)}. gl ! k * 10000 ^ (k - 1)) * R"
    unfolding row(2) IH(4) by (simp add: distrib_right)
  then show ?case unfolding f using out[OF row(1)] by blast
qed

lemma sum_tail: "(\<Sum>j\<in>{1..<Suc n}. (x # xs) ! j * 10000 ^ (j - 1)) = (\<Sum>k<n. xs ! k * (10000::int) ^ k)"
  by (induction n) simp_all

lemma small_multiple: "0 \<le> x \<and> x \<le> 9999 \<Longrightarrow> x = 10000 * t \<Longrightarrow> x = (0::int)"
  by (cases "t \<le> 0"; cases "t = 0") auto

theorem big_Multiply_value:
  assumes "digits a" "digits b"
  shows "normal (big_Multiply a b) \<and> dval (big_Multiply a b) = dval a * dval b"
proof -
  define n m where "n = size4 a" and "m = size4 b"
  define gl gr where "gl = 0 # groups a" and "gr = 0 # groups b"
  note ga = groups_props[OF assms(1)] and gb = groups_props[OF assms(2)]
  have bl: "\<forall>k<n + 1. 0 \<le> gl ! k \<and> gl ! k \<le> 9999" "\<forall>k<m + 1. 0 \<le> gr ! k \<and> gr ! k \<le> 9999"
    using ga gb by (auto simp: gl_def gr_def n_def m_def nth_Cons split: nat.split)
  define res where "res = fold (\<lambda>i res. fold (\<lambda>j res. mul_step gl gr i j res) [1..<m + 1] res) [1..<n + 1] (replicate (n * m + 2) 0)"
  have M: "big_Multiply a b = print_groups res 1 (n * m + 1)"
    by (simp add: big_Multiply_def Let_def res_def gl_def gr_def n_def m_def)
  have R: "(\<Sum>k\<in>{1..<Suc m}. gr ! k * 10000 ^ k) = 10000 * dval b"
  proof -
    have "radix gr = (\<Sum>k\<in>{0..<Suc m}. gr ! k * 10000 ^ k)"
      using gb by (simp add: radix_def gr_def m_def atLeast0LessThan)
    also have "\<dots> = (\<Sum>k\<in>{1..<Suc m}. gr ! k * 10000 ^ k)"
      by (subst sum.atLeast_Suc_lessThan) (simp_all add: gr_def)
    finally show ?thesis using gb by (simp add: gr_def)
  qed
  have L: "(\<Sum>k\<in>{1..<Suc n}. gl ! k * 10000 ^ (k - 1)) = dval a"
    using conjunct1[OF ga] conjunct1[OF conjunct2[OF ga]] unfolding gl_def sum_tail radix_def n_def by simp
  show ?thesis
  proof (cases "m = 0")
    case True
    have "fold (\<lambda>i res. res) xs r = r" for xs :: "nat list" and r :: "int list" by (induction xs) simp_all
    then have "res = replicate 2 0" using True by (simp add: res_def numeral_2_eq_2)
    moreover have "length b = 0" using True unfolding m_def size4_alt by linarith
    then have "b = []" by simp
    moreover have "print_groups [0, 0] 1 1 = ''0''" by code_simp
    ultimately show ?thesis unfolding M using True
      by (simp add: numeral_2_eq_2 normal_def is_digit_def digit_def)
  next
    case False
    then have I: "length res = n * m + 2" "\<forall>k<n * m + 2. 0 \<le> res ! k \<and> res ! k \<le> 9999" "radix res = dval a * (10000 * dval b)"
      using mul_loop_inv[OF refl order.refl _ bl] R L by (simp_all add: res_def)
    have "normal (big_Multiply a b) \<and> dval (big_Multiply a b) = (\<Sum>j\<in>{1..n * m + 1}. res ! j * 10000 ^ (j - 1))"
      unfolding M using I(2) by (intro print_groups_props) auto
    moreover have v: "radix res = res ! 0 + 10000 * (\<Sum>j\<in>{1..<Suc (n * m + 1)}. res ! j * 10000 ^ (j - 1))"
    proof -
      obtain r rs where "res = r # rs" "length rs = n * m + 1" using I(1) by (cases res) simp_all
      then show ?thesis using sum_tail[of r rs "n * m + 1"] by (simp add: radix_def[of rs])
    qed
    moreover have "res ! 0 = 0"
    proof -
      have "0 \<le> res ! 0 \<and> res ! 0 \<le> 9999" using I(2) by simp
      moreover have "res ! 0 = 10000 * (dval a * dval b - (\<Sum>j\<in>{1..<Suc (n * m + 1)}. res ! j * 10000 ^ (j - 1)))"
        using v I(3) by (simp add: right_diff_distrib)
      ultimately show ?thesis by (rule small_multiple)
    qed
    ultimately show ?thesis using I(3) by (simp add: atLeastLessThanSuc_atLeastAtMost)
  qed
qed

subsection \<open>Numbers without a decimal point\<close>

lemma split_dot_digits: "digits s \<Longrightarrow> split_dot s = (s, [])"
  by (induction s) (auto simp: split_dot_def dest: digit_not_space)

lemma erase_dot_digits: "digits s \<Longrightarrow> erase_dot s = (s, 0)"
proof -
  assume d: "digits s"
  then have T: "takeWhile (\<lambda>c. c \<noteq> CHR ''.'') (rev s) = rev s"
    by (intro takeWhile_eq_all_conv[THEN iffD2]) (auto simp: digits_def list_all_iff dest: digit_not_space)
  show ?thesis unfolding erase_dot_def Let_def T by simp
qed

lemma place_dot_none: "int (i + length s) \<le> idx \<Longrightarrow> place_dot s idx i = s"
  by (induction s arbitrary: i) auto

lemma normal_0: "normal ''0''" and dval_0: "dval ''0'' = 0" and dval_1: "dval ''1'' = 1" and normal_1: "normal ''1''"
  by (simp_all add: normal_def is_digit_def digit_def)

lemma normal_digits: "normal s \<Longrightarrow> digits s" by (simp add: normal_def)

theorem big_MultiplyEx_value:
  assumes "digits a" "digits b"
  shows "normal (big_MultiplyEx a b) \<and> dval (big_MultiplyEx a b) = dval a * dval b"
proof -
  have "big_MultiplyEx a b = big_Multiply a b"
    using assms by (simp add: big_MultiplyEx_def erase_dot_digits Let_def place_dot_none)
  then show ?thesis using big_Multiply_value[OF assms] by simp
qed

lemma big_Add_nil: "big_Add [] [] = ''0''"
  by code_simp

lemma big_Minuss_nil: "big_Minuss [] [] = Some (''0'', True)"
  by code_simp

theorem big_AddEx_value:
  assumes "digits a" "digits b"
  shows "normal (big_AddEx a b) \<and> dval (big_AddEx a b) = dval a + dval b"
proof -
  have "big_AddEx a b = big_Add (big_Add a b) ''0''"
    using assms by (simp add: big_AddEx_def split_dot_digits Let_def zero_fill_def big_Add_nil with_fraction_def strip_right_def)
  moreover have "digits (big_Add a b)" "digits ''0''"
    using big_Add_value[OF assms] normal_digits[OF normal_0] by (simp_all add: normal_digits)
  ultimately show ?thesis using big_Add_value[OF assms] big_Add_value[of "big_Add a b" "''0''"] dval_0 by simp
qed

lemma big_Compare_value:
  assumes "normal a" "normal b"
  shows "big_Compare a b = sgn (dval a - dval b)"
proof -
  have d: "digits a" "digits b" using assms by (simp_all add: normal_digits)
  consider "length a < length b" | "length b < length a" | "length a = length b" by linarith
  then show ?thesis
  proof cases
    case 3
    then show ?thesis using str_lt_value[OF 3 d] str_lt_value[OF 3[symmetric] d(2,1)] d
      by (simp add: big_Compare_def split_dot_digits)
  qed (use normal_len_less[OF assms] normal_len_less[OF assms(2,1)] d in \<open>simp_all add: big_Compare_def split_dot_digits\<close>)
qed

theorem big_MinusEx_value:
  assumes "normal a" "normal b"
  shows "\<exists>s. big_MinusEx a b = Some (s, dval b \<le> dval a) \<and> normal s \<and> dval s = \<bar>dval a - dval b\<bar>"
proof -
  have main: "\<exists>s f. big_Minuss l r = Some (s, f) \<and> normal s \<and> dval s = dval l - dval r"
    if "normal l" "normal r" "dval r \<le> dval l" for l r
    using big_Minuss_value[of l r] that normal_len_less[of l r] normal_len_less[of r l]
    by (force simp: normal_digits)
  have d: "digits a" "digits b" using assms by (simp_all add: normal_digits)
  note defs = big_MinusEx_def Let_def split_dot_digits zero_fill_def big_Minuss_nil zero_lead_def strip_right_def
    with_fraction_def big_Compare_value[OF assms]
  show ?thesis
  proof (cases "dval a < dval b")
    case True
    then obtain s f where "big_Minuss b a = Some (s, f)" "normal s" "dval s = dval b - dval a"
      using main[OF assms(2,1)] by auto
    then show ?thesis using True d by (simp add: defs)
  next
    case False
    then obtain s f where "big_Minuss a b = Some (s, f)" "normal s" "dval s = dval a - dval b"
      using main[OF assms] by auto
    moreover have "sgn (dval a - dval b) \<noteq> - 1" using False by (simp add: sgn_if)
    ultimately show ?thesis using False d by (simp add: defs)
  qed
qed

lemma half: "0 \<le> k \<Longrightarrow> nat k = (if k mod 2 = 0 then nat (k div 2) + nat (k div 2) else Suc (nat (k div 2) + nat (k div 2)))"
  for k :: int
proof -
  assume k: "0 \<le> k"
  define q where "q = nat (k div 2)"
  have kq: "k div 2 = int q" using k by (simp add: q_def)
  have "k = 2 * (k div 2) + k mod 2" by simp
  then have e: "k = 2 * int q + k mod 2" unfolding kq .
  show ?thesis
  proof (cases "k mod 2 = 0")
    case True
    then have "k = int (q + q)" using e by simp
    then show ?thesis unfolding kq using True by simp
  next
    case False
    then have "k mod 2 = 1" by presburger
    then have "k = int (Suc (q + q))" using e by simp
    then show ?thesis unfolding kq using False by simp
  qed
qed

theorem big_pow_value:
  "normal b \<Longrightarrow> normal (big_pow b n) \<and> dval (big_pow b n) = dval b ^ nat \<bar>n\<bar>"
proof (induction b n rule: big_pow.induct)
  case (1 b n)
  show ?case
  proof (cases "n = 0 \<or> n = 1")
    case True
    then show ?thesis using 1(2) normal_1 dval_1 by (auto simp: big_pow.simps[of b n])
  next
    case False
    let ?t = "big_pow b (n sdiv 2)"
    have t: "digits ?t" "dval ?t = dval b ^ nat \<bar>n sdiv 2\<bar>" using 1 False by (simp_all add: normal_digits)
    have h: "\<bar>n sdiv 2\<bar> = \<bar>n\<bar> div 2" by (simp add: signed_divide_int_def abs_mult sgn_if)
    note tt = big_MultiplyEx_value[OF t(1) t(1)]
    note ttb = big_MultiplyEx_value[OF normal_digits[OF conjunct1[OF tt]] normal_digits[OF 1(2)]]
    have m: "(n smod 2 = 0) = (\<bar>n\<bar> mod 2 = 0)" by (simp add: signed_modulo_int_def sgn_if)
    show ?thesis
    proof (cases "\<bar>n\<bar> mod 2 = 0")
      case True
      have p: "big_pow b n = big_MultiplyEx ?t ?t"
        unfolding big_pow.simps[of b n] Let_def using False True m by simp
      have "nat \<bar>n\<bar> = nat (\<bar>n\<bar> div 2) + nat (\<bar>n\<bar> div 2)" using half[of "\<bar>n\<bar>"] True by simp
      then show ?thesis using tt unfolding p t(2) h by (simp only: power_add)
    next
      case odd: False
      have p: "big_pow b n = big_MultiplyEx (big_MultiplyEx ?t ?t) b"
        unfolding big_pow.simps[of b n] Let_def using False odd m by simp
      have e: "nat \<bar>n\<bar> = Suc (nat (\<bar>n\<bar> div 2) + nat (\<bar>n\<bar> div 2))" using half[of "\<bar>n\<bar>"] odd by simp
      have "dval (big_pow b n) = dval b ^ nat (\<bar>n\<bar> div 2) * dval b ^ nat (\<bar>n\<bar> div 2) * dval b"
        using tt ttb unfolding p t(2) h by simp
      then show ?thesis using ttb unfolding e power_Suc power_add p by simp
    qed
  qed
qed

end
