(* ===== verification/Big_Signed.thy ===== *)
theory Big_Signed
  imports Big_Proofs
begin

text \<open>
  Signed big integers: the class refines the integers as long as its values come from normal strings and
  no decimal point occurs; where it does not (comparison across signs, \<open>^\<close>, \<open>%\<close>, products of
  decimals) the theorems say what it computes instead.
\<close>

definition big_ok :: "big \<Rightarrow> bool" where
  "big_ok b \<longleftrightarrow> normal (m_str b) \<and> (m_str b = ''0'' \<longrightarrow> m_sign b)"

definition big_val :: "big \<Rightarrow> int" where
  "big_val b = (if m_sign b then dval (m_str b) else - dval (m_str b))"

lemma ok_digits: "big_ok b \<Longrightarrow> digits (m_str b)"
  by (simp add: big_ok_def normal_def)

lemma ok_nonneg: "big_ok b \<Longrightarrow> 0 \<le> dval (m_str b)"
  using dval_bounds ok_digits by blast

lemma ok_neg_pos: "big_ok b \<Longrightarrow> \<not> m_sign b \<Longrightarrow> 0 < dval (m_str b)"
  using normal_zero[of "m_str b"] ok_nonneg[of b] by (auto simp: big_ok_def)





lemma big_of_int_value: "big_ok (big_of_int i) \<and> big_val (big_of_int i) = i \<and> big_ToString (big_of_int i) = show_int i"
proof -
  have s: "digits (show_nat n) \<and> dval (show_nat n) = int n \<and> show_nat n \<noteq> [] \<and> (hd (show_nat n) = CHR ''0'' \<longrightarrow> n = 0)" for n
    by (rule show_nat_props)
  have z: "show_nat 0 = ''0''" by code_simp
  have m: "hd (show_nat n) \<noteq> CHR ''-''" for n using s[of n] by (cases "show_nat n") (auto dest: digit_not_space)
  show ?thesis
  proof (cases "i < 0")
    case True
    then have "show_nat (nat (- i)) \<noteq> ''0''" using s[of "nat (- i)"] dval_0 by auto
    then show ?thesis using True s[of "nat (- i)"]
      by (auto simp: big_of_int_def big_Normal_def show_int_def big_ok_def big_val_def big_ToString_def normal_def)
  next
    case False
    then show ?thesis using s[of "nat i"] m[of "nat i"] z
      by (auto simp: big_of_int_def big_Normal_def show_int_def big_ok_def big_val_def big_ToString_def normal_def)
  qed
qed

lemma normal_print: "big_ok b \<Longrightarrow> big_Normal (big_ToString b) = b"
proof -
  assume "big_ok b"
  then have "m_str b \<noteq> [] \<and> hd (m_str b) \<noteq> CHR ''-''"
    by (cases "m_str b") (auto simp: big_ok_def normal_def dest: digit_not_space)
  then show ?thesis by (cases b) (simp add: big_Normal_def big_ToString_def)
qed

subsection \<open>Remainder by repeated subtraction\<close>

lemma mod_reduce_value:
  assumes "normal t" "t \<noteq> ''0''" "normal p"
  shows "\<exists>r. mod_reduce t p = Some (Some r) \<and> normal r \<and> dval r = dval p mod dval t"
  using assms(3)
proof (induction "nat (dval p)" arbitrary: p rule: less_induct)
  case less
  have t: "0 < dval t" using normal_zero[OF assms(1)] assms(2) dval_bounds[OF normal_digits[OF assms(1)]] by linarith
  have p: "0 \<le> dval p" using dval_bounds[OF normal_digits[OF less.prems]] by simp
  show ?case
  proof (cases "dval t \<le> dval p")
    case False
    then have "\<not> 0 \<le> big_Compare p t" unfolding big_Compare_value[OF less.prems assms(1)] by (simp add: sgn_if)
    then show ?thesis using less.prems False p by (simp add: mod_reduce.simps[of t p] mod_pos_pos_trivial)
  next
    case True
    then have c: "0 \<le> big_Compare p t" unfolding big_Compare_value[OF less.prems assms(1)] by (simp add: sgn_if)
    obtain q where q: "big_Minuss p t = Some (q, dval t \<le> dval p)" "normal q" "dval q = \<bar>dval p - dval t\<bar>"
      using big_Minuss_value[of p t] normal_len_less[OF less.prems assms(1)] normal_len_less[OF assms(1) less.prems]
        normal_digits less.prems assms(1) by (metis less_imp_le)
    have "dval q = dval p - dval t" using q(3) True by simp
    moreover have "nat (dval q) < nat (dval p)" using calculation t True by simp
    ultimately show ?thesis using less.hyps[OF _ q(2)] c q(1) by (simp add: mod_reduce.simps[of t p])
  qed
qed

lemma mod_reduce_zero: "mod_reduce t p = Some y \<Longrightarrow> t = ''0'' \<longrightarrow> \<not> normal p"
proof (rule mod_reduce.raw_induct[where P = "\<lambda>t p y. t = ''0'' \<longrightarrow> \<not> normal p"], intro impI notI)
  fix red :: "string \<Rightarrow> string \<Rightarrow> string option option" and t p y
  assume IH: "\<And>t p y. red t p = Some y \<Longrightarrow> t = ''0'' \<longrightarrow> \<not> normal p"
    and body: "(if 0 \<le> big_Compare p t then case big_Minuss p t of None \<Rightarrow> Some None | Some (q, _) \<Rightarrow> red t q
       else Some (Some p)) = Some y" and t: "t = ''0''" and p: "normal p"
  have n: "normal t" using t normal_0 by simp
  have c: "0 \<le> big_Compare p t"
    unfolding big_Compare_value[OF p n] using dval_0 t dval_bounds[OF normal_digits[OF p]] by (simp add: sgn_if)
  obtain q where "big_Minuss p t = Some (q, dval t \<le> dval p)" "normal q"
    using big_Minuss_value[of p t] normal_len_less[OF p n] normal_len_less[OF n p] normal_digits p n
    by (metis less_imp_le)
  then show False using body c IH t by auto
qed

lemma normal_not_isZero: "normal p \<Longrightarrow> isZero p \<longleftrightarrow> p = ''0''"
  by (cases p) (auto simp: normal_def isZero_def)

lemma big_mod_short:
  assumes "normal s" "length s \<le> length t"
  shows "big_mod s t = mod_reduce t s"
proof -
  have "mod_loop t s [] = Some (Some (s, []))" by (simp add: mod_loop.simps)
  moreover have "s = ''0'' \<longleftrightarrow> isZero s" using normal_not_isZero[OF assms(1)] by simp
  moreover have "isZero []" by (simp add: isZero_def)
  ultimately show ?thesis using assms by (auto simp: big_mod_def)
qed

text \<open>
  With a decimal point \<open>MultiplyEx\<close> strips the zeros at the end of the product of the digits without
  stopping at the point: 100 times 0.1 is 1.
\<close>

lemma big_decimal_product: "big_MultiplyEx ''100'' ''0.1'' = ''1''"
  by code_simp

subsection \<open>Properties\<close>




text \<open>
  Numbers survive the conversions: the big integer of an \<open>int\<close> has its value and prints as
  \<open>%d\<close> does, and reading the printed form of a number gives the number back.
\<close>

theorem big_print_parse:
  assumes "big_ok b"
  shows "big_Normal (big_ToString b) = b \<and> big_val (big_of_int i) = i \<and> big_ok (big_of_int i) \<and>
     big_ToString (big_of_int i) = show_int i"
  using normal_print[OF assms] big_of_int_value by simp

theorem big_print_parse_witness:
  "big_Normal (big_ToString \<lparr>m_sign = False, m_str = ''120''\<rparr>) = \<lparr>m_sign = False, m_str = ''120''\<rparr> \<and>
   big_val (big_of_int (-7)) = -7"
  using big_print_parse[of "\<lparr>m_sign = False, m_str = ''120''\<rparr>" "-7"]
  by (simp add: big_ok_def normal_def is_digit_def)

text \<open>
  Powers by repeated squaring end for every exponent, negative ones included, and give the power by
  the exponent's absolute value; \<open>signPow\<close> has the right sign, while the operator \<open>^\<close>, which
  works on the digits alone, loses the sign of the base.
\<close>

theorem big_power_value:
  assumes "big_ok x"
  shows "big_val (big_signPow x n) = big_val x ^ nat \<bar>n\<bar> \<and> big_val (big_power x n) = \<bar>big_val x\<bar> ^ nat \<bar>n\<bar> \<and>
     normal (m_str (big_power x n))"
proof -
  have nx: "normal (m_str x)" using assms by (simp add: big_ok_def)
  note P = big_pow_value[OF nx, of n]
  have s: "n smod 2 = 0 \<longleftrightarrow> even (nat \<bar>n\<bar>)"
    by (simp add: signed_modulo_int_def sgn_if even_nat_iff) presburger
  have "hd (big_pow (m_str x) n) \<noteq> CHR ''-''" "big_pow (m_str x) n \<noteq> []"
    using P by (cases "big_pow (m_str x) n"; auto simp: normal_def dest: digit_not_space)+
  moreover have "\<bar>big_val x\<bar> = dval (m_str x)" using ok_nonneg[OF assms] by (simp add: big_val_def)
  ultimately show ?thesis using P s
    by (auto simp: big_signPow_def big_power_def big_Normal_def big_val_def power_minus_even power_minus_odd)
qed

theorem big_power_value_witness:
  "big_val (big_signPow (big_of_int (-2)) 3) = -8 \<and> big_val (big_power (big_of_int (-2)) 3) = 8"
  using big_power_value[of "big_of_int (-2)" 3] big_of_int_value by simp

text \<open>
  Comparison is right between numbers of the same sign; between numbers of different signs
  \<open>signCompare\<close> returns 1 whichever is the larger, so a negative number is never less than a
  positive one.
\<close>

theorem big_compare_signs:
  assumes "big_ok a" "big_ok b"
  shows "(m_sign a = m_sign b \<longrightarrow> big_less a b = (big_val a < big_val b) \<and> big_eq a b = (big_val a = big_val b)) \<and>
     (m_sign a \<noteq> m_sign b \<longrightarrow> \<not> big_less a b \<and> \<not> big_less b a \<and> \<not> big_eq a b)"
proof -
  have n: "normal (m_str a)" "normal (m_str b)" using assms by (simp_all add: big_ok_def)
  show ?thesis
    by (auto simp: big_less_def big_eq_def big_signCompare_def big_Compare_value[OF n] big_val_def sgn_if Let_def)
qed

theorem big_compare_signs_witness:
  "big_val (big_of_int (-1)) < big_val (big_of_int 1) \<and> \<not> big_less (big_of_int (-1)) (big_of_int 1) \<and>
   big_less (big_of_int (-2)) (big_of_int (-1))"
proof -
  have "m_sign (big_of_int (-1)) = False" "m_sign (big_of_int 1) = True" "m_sign (big_of_int (-2)) = False"
    by code_simp+
  then show ?thesis
    using big_compare_signs[of "big_of_int (-1)" "big_of_int 1"] big_compare_signs[of "big_of_int (-2)" "big_of_int (-1)"]
      big_of_int_value by simp
qed

text \<open>
  The remainder is right, and its loop ends, when the dividend has at most as many digits as a
  divisor that is not zero; division by zero never returns; and on longer dividends leading zeros of a
  partial dividend make the subtraction write past its array, as in 3001 % 3.
\<close>

theorem big_remainder_partial:
  assumes "normal s" "normal t" "length s \<le> length t"
  shows "(t \<noteq> ''0'' \<longrightarrow> (\<exists>r. big_mod s t = Some (Some r) \<and> normal r \<and> dval r = dval s mod dval t)) \<and>
     (t = ''0'' \<longrightarrow> big_mod s t = None) \<and> big_mod ''3001'' ''3'' = Some None"
proof (intro conjI impI)
  show "\<exists>r. big_mod s t = Some (Some r) \<and> normal r \<and> dval r = dval s mod dval t" if "t \<noteq> ''0''"
    unfolding big_mod_short[OF assms(1,3)] by (rule mod_reduce_value[OF assms(2) that assms(1)])
  show "big_mod s t = None" if "t = ''0''"
    unfolding big_mod_short[OF assms(1,3)] using mod_reduce_zero[of t s] assms(1) that by (cases "mod_reduce t s") auto
  show "big_mod ''3001'' ''3'' = Some None" by code_simp
qed

theorem big_remainder_partial_witness:
  "(\<exists>r. big_mod ''95'' ''12'' = Some (Some r) \<and> normal r \<and> dval r = 11) \<and> big_mod ''5'' ''0'' = None"
  using big_remainder_partial[of "''95''" "''12''"] big_remainder_partial[of "''5''" "''0''"]
  by (simp add: normal_def is_digit_def digit_def)

end
