(* ===== verification/Byte_Fifo.thy ===== *)
theory Byte_Fifo
  imports Ak_Prelude
begin

text \<open>
  The interfaces of the first-in first-out buffers of the repository.  The drivers hold a lock over
  each critical section, so what concurrent calls do is a sequence of sections: one from the entry of
  a call to its return or to its sleep, one from each wake-up on.  \<open>byte_sections\<close> is about any such
  sequence, \<open>byte_fifo\<close> about single calls that neither block nor fault, with a producer and a consumer
  that take turns.  Then the geometry the ring buffers share: read and write offset into one array,
  empty when they meet, full with one cell unused.
\<close>

text \<open>
  A sequence of sections: the final state, everything accepted and everything delivered.  \<open>all_along\<close>
  is a condition on each section and the state it starts from.
\<close>

fun sections_run :: "('c \<Rightarrow> 's \<Rightarrow> 's \<times> 'b list \<times> 'b list) \<Rightarrow> 's \<Rightarrow> 'c list \<Rightarrow> 's \<times> 'b list \<times> 'b list" where
  "sections_run call s [] = (s, [], [])"
| "sections_run call s (c # cs) =
     (case call c s of (s', ws, rs) \<Rightarrow> case sections_run call s' cs of (s'', ws', rs') \<Rightarrow> (s'', ws @ ws', rs @ rs'))"

fun all_along :: "('c \<Rightarrow> 's \<Rightarrow> 's \<times> 'b list \<times> 'b list) \<Rightarrow> ('c \<Rightarrow> 's \<Rightarrow> bool) \<Rightarrow> 's \<Rightarrow> 'c list \<Rightarrow> bool" where
  "all_along call ok s [] = True"
| "all_along call ok s (c # cs) \<longleftrightarrow> ok c s \<and> all_along call ok (fst (call c s)) cs"

text \<open>What a section accepts and delivers, from the result of the call.\<close>

fun read_result :: "'s \<times> 'b list sysret \<Rightarrow> 's \<times> 'b list \<times> 'b list" where
  "read_result (dev, Ret ys) = (dev, [], ys)"
| "read_result (dev, _) = (dev, [], [])"

fun write_result :: "'b list \<Rightarrow> 's \<times> nat sysret \<Rightarrow> 's \<times> 'b list \<times> 'b list" where
  "write_result buf (dev, Ret k) = (dev, take k buf, [])"
| "write_result buf (dev, _) = (dev, [], [])"

text \<open>
  Every section keeps the count of stored elements; those that satisfy \<open>sound\<close> keep their order too.
\<close>

locale byte_sections =
  fixes inv :: "'s \<Rightarrow> bool"
    and content :: "'s \<Rightarrow> 'b list"
    and cap :: "'s \<Rightarrow> nat"
    and call :: "'c \<Rightarrow> 's \<Rightarrow> 's \<times> 'b list \<times> 'b list"
    and sound :: "'c \<Rightarrow> 's \<Rightarrow> bool"
  assumes call_inv: "inv s \<Longrightarrow> call c s = (s', ws, rs) \<Longrightarrow> inv s' \<and> cap s' = cap s"
    and call_count: "inv s \<Longrightarrow> call c s = (s', ws, rs) \<Longrightarrow>
      length (content s) + length ws = length rs + length (content s')"
    and call_order: "inv s \<Longrightarrow> call c s = (s', ws, rs) \<Longrightarrow> sound c s \<Longrightarrow> content s @ ws = rs @ content s'"
    and bounded: "inv s \<Longrightarrow> length (content s) \<le> cap s"
begin

lemma run_sections:
  "inv s \<Longrightarrow> sections_run call s cs = (s', ws, rs) \<Longrightarrow>
   inv s' \<and> cap s' = cap s \<and> length (content s) + length ws = length rs + length (content s') \<and>
   length (content s') \<le> cap s \<and> (all_along call sound s cs \<longrightarrow> content s @ ws = rs @ content s')"
proof (induction cs arbitrary: s s' ws rs)
  case Nil
  then show ?case using bounded by auto
next
  case (Cons c cs)
  obtain s1 ws1 rs1 where c: "call c s = (s1, ws1, rs1)" by (metis prod_cases3)
  obtain s2 ws2 rs2 where r: "sections_run call s1 cs = (s2, ws2, rs2)" by (metis prod_cases3)
  have eq: "s' = s2" "ws = ws1 @ ws2" "rs = rs1 @ rs2" using Cons.prems(2) c r by auto
  note 1 = call_inv[OF Cons.prems(1) c] call_count[OF Cons.prems(1) c]
  have "inv s1" using 1 by blast
  note 2 = Cons.IH[OF this r]
  have "content s @ ws = rs @ content s'" if "all_along call sound s (c # cs)"
  proof -
    have "content s @ ws1 = rs1 @ content s1" using call_order[OF Cons.prems(1) c] that by simp
    moreover have "content s1 @ ws2 = rs2 @ content s2" using 2 that c by simp
    ultimately show ?thesis unfolding eq by (metis append.assoc)
  qed
  then show ?case using 1 2 eq by auto
qed

lemma run_from_empty:
  assumes "inv s" "content s = []" "sections_run call s cs = (s', ws, rs)"
  shows "inv s' \<and> length ws = length rs + length (content s') \<and> length (content s') \<le> cap s \<and>
    (all_along call sound s cs \<longrightarrow> rs = take (length rs) ws)"
  using run_sections[OF assms(1,3)] assms(2) by auto

end

text \<open>
  A producer with the message \<open>xs\<close> and a consumer with a buffer of \<open>n\<close> elements take turns; the
  result is what the consumer has got after the given number of turns.
\<close>

fun fifo_pump :: "('s \<Rightarrow> 'b list \<Rightarrow> 's \<times> nat) \<Rightarrow> ('s \<Rightarrow> nat \<Rightarrow> 's \<times> 'b list) \<Rightarrow> nat \<Rightarrow> nat \<Rightarrow> 's \<Rightarrow> 'b list \<Rightarrow> 'b list" where
  "fifo_pump put get n 0 s xs = []"
| "fifo_pump put get n (Suc turns) s xs =
     (case put s xs of (s1, k) \<Rightarrow> case get s1 n of (s2, ys) \<Rightarrow>
        ys @ fifo_pump put get n turns s2 (drop k xs))"

text \<open>\<open>put\<close> accepts a prefix of the elements it is given, \<open>get\<close> delivers some of the oldest ones, neither blocks.\<close>

locale byte_fifo =
  fixes inv :: "'s \<Rightarrow> bool"
    and content :: "'s \<Rightarrow> 'b list"
    and cap :: "'s \<Rightarrow> nat"
    and put :: "'s \<Rightarrow> 'b list \<Rightarrow> 's \<times> nat"
    and get :: "'s \<Rightarrow> nat \<Rightarrow> 's \<times> 'b list"
  assumes put_inv: "inv s \<Longrightarrow> put s xs = (s', k) \<Longrightarrow> inv s' \<and> cap s' = cap s"
    and put_content: "inv s \<Longrightarrow> put s xs = (s', k) \<Longrightarrow> content s' = content s @ take k xs \<and> k \<le> length xs"
    and put_progress: "inv s \<Longrightarrow> put s xs = (s', k) \<Longrightarrow> xs \<noteq> [] \<Longrightarrow> length (content s) < cap s \<Longrightarrow> 0 < k"
    and get_inv: "inv s \<Longrightarrow> get s n = (s', ys) \<Longrightarrow> inv s' \<and> cap s' = cap s"
    and get_content: "inv s \<Longrightarrow> get s n = (s', ys) \<Longrightarrow> content s = ys @ content s' \<and> length ys \<le> n"
    and get_progress: "inv s \<Longrightarrow> get s n = (s', ys) \<Longrightarrow> 0 < n \<Longrightarrow> content s \<noteq> [] \<Longrightarrow> ys \<noteq> []"
    and bounded: "inv s \<Longrightarrow> length (content s) \<le> cap s"
begin

lemma pump_all:
  assumes "inv s" "0 < cap s" "0 < n" "2 * length xs + length (content s) \<le> turns"
  shows "fifo_pump put get n turns s xs = content s @ xs"
  using assms
proof (induction turns arbitrary: s xs)
  case 0
  then show ?case by simp
next
  case (Suc turns)
  obtain s1 k where p: "put s xs = (s1, k)" by force
  obtain s2 ys where g: "get s1 n = (s2, ys)" by force
  note pi = put_inv[OF Suc.prems(1) p] and pc = put_content[OF Suc.prems(1) p]
  then have i1: "inv s1" by blast
  note gi = get_inv[OF i1 g] and gc = get_content[OF i1 g]
  have len: "length (content s) + k = length ys + length (content s2)"
    using pc gc by (metis length_append length_take min.absorb2)
  have eq: "ys @ content s2 @ drop k xs = content s @ xs"
    using pc gc by (metis append.assoc append_take_drop_id)
  have "2 * length (drop k xs) + length (content s2) \<le> turns"
  proof (cases "content s1 = []")
    case True
    then have e: "content s = []" "take k xs = []" using pc by auto
    have "xs = []"
    proof (rule ccontr)
      assume "xs \<noteq> []"
      with put_progress[OF Suc.prems(1) p] e(1) Suc.prems(2) have "0 < k" by simp
      with e(2) \<open>xs \<noteq> []\<close> show False by simp
    qed
    with True gc show ?thesis by simp
  next
    case False
    with get_progress[OF i1 g Suc.prems(3)] have "0 < length ys" by blast
    moreover have "k \<le> length xs" using pc by blast
    ultimately show ?thesis unfolding length_drop using len Suc.prems(4) by arith
  qed
  from Suc.IH[OF _ _ Suc.prems(3) this] gi pi Suc.prems(2)
  have "fifo_pump put get n turns s2 (drop k xs) = content s2 @ drop k xs" by simp
  then show ?case using p g eq by simp
qed

end

subsection \<open>Rings with one unused cell\<close>

definition ring_content :: "'b list \<Rightarrow> nat \<Rightarrow> nat \<Rightarrow> 'b list" where
  "ring_content b r w = (if r \<le> w then region b r (w - r) else drop r b @ take w b)"

text \<open>How much one \<open>memcpy\<close> can put in at \<open>w\<close> and take out at \<open>r\<close>.\<close>

definition ring_room :: "nat \<Rightarrow> nat \<Rightarrow> nat \<Rightarrow> nat" where
  "ring_room n r w = (if r \<le> w then (if r = 0 then n - w - 1 else n - w) else r - w - 1)"

definition ring_avail :: "nat \<Rightarrow> nat \<Rightarrow> nat \<Rightarrow> nat" where
  "ring_avail n r w = (if r \<le> w then w - r else n - r)"

text \<open>Advance an offset by a chunk that ends at the end of the array at most.\<close>

definition ring_next :: "nat \<Rightarrow> nat \<Rightarrow> nat \<Rightarrow> nat" where
  "ring_next n p c = (if p + c = n then 0 else p + c)"

lemma length_ring_content:
  "r < length b \<Longrightarrow> w < length b \<Longrightarrow>
   length (ring_content b r w) = (if r \<le> w then w - r else length b - r + w)"
  by (auto simp: ring_content_def)

lemma ring_content_empty: "r < length b \<Longrightarrow> w < length b \<Longrightarrow> ring_content b r w = [] \<longleftrightarrow> r = w"
  by (auto simp: ring_content_def region_def)

lemma ring_content_put:
  assumes "r < length b" "w < length b" "length xs \<le> ring_room (length b) r w"
  shows "ring_content (blit b w xs) r (ring_next (length b) w (length xs)) = ring_content b r w @ xs"
    and "w + length xs \<le> length b"
    and "ring_next (length b) w (length xs) < length b"
proof -
  show le: "w + length xs \<le> length b"
    using assms by (auto simp: ring_room_def split: if_splits)
  then show "ring_next (length b) w (length xs) < length b"
    using assms(1) by (auto simp: ring_next_def)
  consider (mid) "r \<le> w" "w + length xs < length b" | (wrap) "r \<le> w" "w + length xs = length b" "0 < r"
    | (low) "w < r" "w + length xs < r"
    using assms le by (fastforce simp: ring_room_def split: if_splits)
  then show "ring_content (blit b w xs) r (ring_next (length b) w (length xs)) = ring_content b r w @ xs"
  proof cases
    case mid
    then show ?thesis
      by (simp add: ring_content_def ring_next_def region_def blit_def drop_take)
  next
    case wrap
    then show ?thesis
      by (simp add: ring_content_def ring_next_def region_def blit_def drop_take)
  next
    case low
    then show ?thesis using assms
      by (simp add: ring_content_def ring_next_def region_def blit_def)
  qed
qed

lemma ring_content_get:
  assumes "r < length b" "w < length b" "c \<le> ring_avail (length b) r w"
  shows "ring_content b r w = region b r c @ ring_content b (ring_next (length b) r c) w"
    and "r + c \<le> length b"
    and "ring_next (length b) r c < length b"
proof -
  show le: "r + c \<le> length b"
    using assms by (auto simp: ring_avail_def split: if_splits)
  then show "ring_next (length b) r c < length b"
    using assms(1) by (auto simp: ring_next_def)
  consider (up) "r \<le> w" "r + c \<le> w" | (mid) "w < r" "r + c < length b" | (wrap) "w < r" "r + c = length b"
    using assms le by (fastforce simp: ring_avail_def split: if_splits)
  then show "ring_content b r w = region b r c @ ring_content b (ring_next (length b) r c) w"
  proof cases
    case up
    then have "take (w - r) (drop r b) = take c (drop r b) @ take (w - r - c) (drop c (drop r b))"
      by (metis add_le_imp_le_diff add.commute le_add_diff_inverse take_add)
    with up assms show ?thesis
      by (simp add: ring_content_def ring_next_def region_def add.commute)
  next
    case mid
    then show ?thesis
      by (simp add: ring_content_def ring_next_def region_def) (metis add.commute append_take_drop_id drop_drop)
  next
    case wrap
    then show ?thesis
      by (simp add: ring_content_def ring_next_def region_def)
  qed
qed

text \<open>A copy into the free part that is not published (a faulted one) changes no content.\<close>

lemma ring_content_scratch:
  assumes "r < length b" "w < length b" "length xs \<le> ring_room (length b) r w"
  shows "ring_content (blit b w xs) r w = ring_content b r w"
proof -
  have le: "w + length xs \<le> length b" by (rule ring_content_put(2)[OF assms])
  show ?thesis
  proof (cases "r \<le> w")
    case True
    then show ?thesis using le by (simp add: ring_content_def region_def blit_def drop_take)
  next
    case False
    then have "w + length xs \<le> r" using assms by (auto simp: ring_room_def split: if_splits)
    then show ?thesis using False le by (simp add: ring_content_def drop_blit take_blit)
  qed
qed

lemma ring_room_pos:
  "r < length b \<Longrightarrow> w < length b \<Longrightarrow> length (ring_content b r w) < length b - 1 \<Longrightarrow>
   0 < ring_room (length b) r w"
  by (auto simp: ring_content_def ring_room_def split: if_splits)

lemma ring_content_bound:
  "r < length b \<Longrightarrow> w < length b \<Longrightarrow> length (ring_content b r w) \<le> length b - 1"
  by (auto simp: ring_content_def)

lemma ring_avail_pos: "r < n \<Longrightarrow> r \<noteq> w \<Longrightarrow> 0 < ring_avail n r w"
  by (auto simp: ring_avail_def)

text \<open>The free space of a non-empty ring as the drivers compute it, in C's remainder.\<close>

lemma ring_free_smod:
  assumes "r < length b" "w < length b" "r \<noteq> w"
  shows "(int r + int (length b) - int w) smod int (length b) - 1 =
    int (length b - 1 - length (ring_content b r w))"
proof -
  have e: "int r + int (length b) - int w = int (r + length b - w)" using assms by simp
  have "(r + length b - w) mod length b - 1 = length b - 1 - length (ring_content b r w) \<and>
      0 < (r + length b - w) mod length b"
  proof (cases "r < w")
    case True
    then have "r + length b - w < length b" using assms by linarith
    then have m: "(r + length b - w) mod length b = r + length b - w" by (rule mod_less)
    show ?thesis unfolding m length_ring_content[OF assms(1,2)] using True assms by auto
  next
    case False
    then have m: "(r + length b - w) mod length b = r - w"
      using assms by (metis Nat.add_diff_assoc2 linorder_not_less less_imp_diff_less mod_add_self2 mod_less)
    show ?thesis unfolding m length_ring_content[OF assms(1,2)] using False assms by auto
  qed
  then have "int ((r + length b - w) mod length b) - 1 = int (length b - 1 - length (ring_content b r w))"
    by linarith
  then show ?thesis unfolding e smod_nat .
qed

end
