(* ===== verification/Byte_Store.thy ===== *)
theory Byte_Store
  imports Ak_Prelude
begin

text \<open>
  The interface of a random-access device: \<open>wr\<close> stores a prefix of the bytes it is given at a
  position, \<open>rd\<close> delivers some of the bytes from a position on, \<open>peek\<close> is the byte a position
  holds (\<open>None\<close> where nothing was stored).  Both may transfer less than they were asked to, as
  \<open>read(2)\<close> and \<open>write(2)\<close> may.  The clients are the loops every user of such a device runs.
\<close>

function write_all :: "('s \<Rightarrow> nat \<Rightarrow> 'b list \<Rightarrow> 's \<times> nat) \<Rightarrow> 's \<Rightarrow> nat \<Rightarrow> 'b list \<Rightarrow> 's \<times> nat" where
  "write_all wr s p xs =
     (if xs = [] then (s, 0)
      else case wr s p xs of (s', k) \<Rightarrow>
        if k = 0 then (s', 0)
        else case write_all wr s' (p + k) (drop k xs) of (s'', m) \<Rightarrow> (s'', k + m))"
  by pat_completeness auto
termination
  by (relation "measure (\<lambda>(wr, s, p, xs). length xs)") auto

function read_all :: "('s \<Rightarrow> nat \<Rightarrow> nat \<Rightarrow> 'c list) \<Rightarrow> 's \<Rightarrow> nat \<Rightarrow> nat \<Rightarrow> 'c list" where
  "read_all rd s p n =
     (if n = 0 then []
      else let out = rd s p n
        in if out = [] then [] else out @ read_all rd s (p + length out) (n - length out))"
  by pat_completeness auto
termination
  by (relation "measure (\<lambda>(rd, s, p, n). n)") auto

declare write_all.simps [simp del] read_all.simps [simp del]

locale byte_store =
  fixes inv :: "'s \<Rightarrow> bool"
    and lim :: "'s \<Rightarrow> nat"
    and peek :: "'s \<Rightarrow> nat \<Rightarrow> 'b option"
    and wr :: "'s \<Rightarrow> nat \<Rightarrow> 'b list \<Rightarrow> 's \<times> nat"
    and rd :: "'s \<Rightarrow> nat \<Rightarrow> nat \<Rightarrow> 'b option list"
  assumes wr_inv: "inv s \<Longrightarrow> p < lim s \<Longrightarrow> wr s p xs = (s', k) \<Longrightarrow> inv s' \<and> lim s' = lim s"
    and wr_len: "inv s \<Longrightarrow> p < lim s \<Longrightarrow> wr s p xs = (s', k) \<Longrightarrow> k \<le> length xs \<and> p + k \<le> lim s"
    and wr_progress: "inv s \<Longrightarrow> p < lim s \<Longrightarrow> xs \<noteq> [] \<Longrightarrow> wr s p xs = (s', k) \<Longrightarrow> 0 < k"
    and wr_peek: "inv s \<Longrightarrow> p < lim s \<Longrightarrow> wr s p xs = (s', k) \<Longrightarrow>
      peek s' i = (if p \<le> i \<and> i < p + k then Some (xs ! (i - p)) else peek s i)"
    and rd_len: "inv s \<Longrightarrow> p < lim s \<Longrightarrow> length (rd s p n) \<le> n"
    and rd_nth: "inv s \<Longrightarrow> p < lim s \<Longrightarrow> j < length (rd s p n) \<Longrightarrow> rd s p n ! j = peek s (p + j)"
    and rd_progress: "inv s \<Longrightarrow> p < lim s \<Longrightarrow> peek s p \<noteq> None \<Longrightarrow> 0 < n \<Longrightarrow> rd s p n \<noteq> []"
    and peek_lim: "inv s \<Longrightarrow> peek s p \<noteq> None \<Longrightarrow> p < lim s"
begin

lemma write_all_spec:
  assumes "inv s" "p + length xs \<le> lim s" "write_all wr s p xs = (s', m)"
  shows "m = length xs \<and> inv s' \<and> lim s' = lim s \<and>
    (\<forall>i. peek s' i = (if p \<le> i \<and> i < p + length xs then Some (xs ! (i - p)) else peek s i))"
  using assms
proof (induction "length xs" arbitrary: s p xs s' m rule: less_induct)
  case less
  show ?case
  proof (cases "xs = []")
    case True
    then show ?thesis using less.prems by (auto simp: write_all.simps)
  next
    case False
    obtain s1 k where w: "wr s p xs = (s1, k)" by force
    have p: "p < lim s" using less.prems(2) False by (cases xs) auto
    have k: "0 < k" "k \<le> length xs" and i1: "inv s1" "lim s1 = lim s"
      using wr_progress[OF less.prems(1) p False w] wr_len[OF less.prems(1) p w]
        wr_inv[OF less.prems(1) p w] by auto
    obtain s2 m2 where r: "write_all wr s1 (p + k) (drop k xs) = (s2, m2)" by force
    have eq: "s' = s2" "m = k + m2"
      using less.prems(3) False w k r by (simp_all add: write_all.simps[of wr s p xs])
    have "length (drop k xs) < length xs" "p + k + length (drop k xs) \<le> lim s1"
      using k False less.prems(2) i1 by auto
    from less.hyps[OF this(1) i1(1) this(2) r]
    have IH: "m2 = length (drop k xs)" "inv s2" "lim s2 = lim s1"
      "\<And>i. peek s2 i = (if p + k \<le> i \<and> i < p + k + length (drop k xs)
          then Some (drop k xs ! (i - (p + k))) else peek s1 i)" by blast+
    have "peek s2 i = (if p \<le> i \<and> i < p + length xs then Some (xs ! (i - p)) else peek s i)" for i
      using k IH(4)[of i] wr_peek[OF less.prems(1) p w, of i] by (auto simp: add.commute)
    then show ?thesis using eq IH(1,2,3) i1 k by simp
  qed
qed

lemma read_all_spec:
  assumes "inv s" "\<forall>i. p \<le> i \<and> i < p + n \<longrightarrow> peek s i \<noteq> None"
  shows "read_all rd s p n = map (peek s) [p..<p + n]"
  using assms
proof (induction n arbitrary: p rule: less_induct)
  case (less n)
  show ?case
  proof (cases "n = 0")
    case True
    then show ?thesis by (simp add: read_all.simps)
  next
    case False
    let ?o = "rd s p n"
    have pk: "peek s p \<noteq> None" using less.prems(2) False by simp
    then have p: "p < lim s" using peek_lim less.prems(1) by blast
    have ne: "?o \<noteq> []" using rd_progress[OF less.prems(1) p pk] False by simp
    have le: "length ?o \<le> n" using rd_len[OF less.prems(1) p] .
    have out: "?o = map (peek s) [p..<p + length ?o]"
      by (rule nth_equalityI) (simp_all add: rd_nth[OF less.prems(1) p])
    have lt: "n - length ?o < n" using ne False by (cases ?o) auto
    have "\<forall>i. p + length ?o \<le> i \<and> i < p + length ?o + (n - length ?o) \<longrightarrow> peek s i \<noteq> None"
      using less.prems(2) le by auto
    from less.IH[OF lt less.prems(1) this]
    have rest: "read_all rd s (p + length ?o) (n - length ?o) = map (peek s) [p + length ?o..<p + n]"
      using le by simp
    have "[p..<p + n] = [p..<p + length ?o] @ [p + length ?o..<p + n]"
      using le upt_add_eq_append[of p "p + length ?o" "n - length ?o"] by simp
    then have "map (peek s) [p..<p + n] = ?o @ map (peek s) [p + length ?o..<p + n]"
      using out by (metis map_append)
    then show ?thesis using False ne rest
      by (simp add: read_all.simps[of rd s p n] Let_def)
  qed
qed

lemma write_read_roundtrip:
  assumes "inv s" "p + length xs \<le> lim s" "write_all wr s p xs = (s', m)"
  shows "read_all rd s' p (length xs) = map Some xs"
proof -
  note W = write_all_spec[OF assms]
  have "read_all rd s' p (length xs) = map (peek s') [p..<p + length xs]"
    using W by (intro read_all_spec) auto
  also have "\<dots> = map Some xs"
    by (rule nth_equalityI) (use W in auto)
  finally show ?thesis .
qed

lemma write_other_region:
  assumes "inv s" "p + length xs \<le> lim s" "write_all wr s p xs = (s', m)"
    and "q + n \<le> p \<or> p + length xs \<le> q" "\<forall>i. q \<le> i \<and> i < q + n \<longrightarrow> peek s i \<noteq> None"
  shows "read_all rd s' q n = read_all rd s q n"
proof -
  note W = write_all_spec[OF assms(1-3)]
  have same: "peek s' i = peek s i" if "q \<le> i" "i < q + n" for i
    using W assms(4) that by auto
  have "read_all rd s' q n = map (peek s') [q..<q + n]"
    using W assms(5) same by (intro read_all_spec) auto
  also have "\<dots> = map (peek s) [q..<q + n]" using same by simp
  also have "\<dots> = read_all rd s q n"
    using assms(1,5) by (intro read_all_spec [symmetric]) auto
  finally show ?thesis .
qed

end

end
