(* ===== verification/Chrdev.thy ===== *)
theory Chrdev
  imports Byte_Fifo
begin

text \<open>
  The character device \<open>chardevice/drv/main.c\<close>: a ring that serves a request in up to two copies,
  across the end of the memory, and counts the stored bytes.  Pointers are offsets from \<open>dev->mem\<close>.
  Read and write return the \<open>int\<close> of the code, negative for an error, because the code adds to an
  error value; each of the two copies has its own outcome.
\<close>

record chrdev =
  cd_mem :: "byte list"
  cd_mem_size :: int
  cd_mem_end :: int
  cd_p_read :: int
  cd_p_write :: int
  cd_cur_size :: nat

abbreviation EFAULT_value :: int where "EFAULT_value \<equiv> 14"

definition chrdev_setup :: "byte list \<Rightarrow> int \<Rightarrow> chrdev" where
  "chrdev_setup mem g_mem_size = \<lparr>cd_mem = mem, cd_mem_size = g_mem_size,
     cd_mem_end = g_mem_size - 1, cd_p_read = 0, cd_p_write = 0, cd_cur_size = 0\<rparr>"

text \<open>A copy of \<open>n\<close> bytes at offset \<open>p\<close> stays in the memory.\<close>

definition in_mem :: "chrdev \<Rightarrow> int \<Rightarrow> nat \<Rightarrow> bool" where
  "in_mem dev p n \<longleftrightarrow> 0 \<le> p \<and> p + int n \<le> int (length (cd_mem dev))"

subsection \<open>Reading\<close>

definition chrdev_take :: "bool \<Rightarrow> bool \<Rightarrow> chrdev \<Rightarrow> nat \<Rightarrow> chrdev \<times> (int \<times> byte list) sysret" where
  "chrdev_take fault1 fault2 dev count0 =
     (let r = cd_p_read dev; w = cd_p_write dev; m = cd_mem dev in
      if r < w then
        let count = min count0 (size_t (w - r)) in
        if \<not> in_mem dev r count then (dev, Oops)
        else if fault1 then (dev, Ret (- EFAULT_value, []))
        else (dev\<lparr>cd_p_read := r + int count, cd_cur_size := size_t (int (cd_cur_size dev) - int count)\<rparr>,
              Ret (s32 (int count), region m (nat r) count))
      else
        let to_end = size_t (cd_mem_end dev - r + 1); from_begin = size_t w in
        if count0 \<le> to_end then
          if \<not> in_mem dev r count0 then (dev, Oops)
          else if fault1 then (dev, Ret (- EFAULT_value, []))
          else (dev\<lparr>cd_cur_size := size_t (int (cd_cur_size dev) - int count0),
                    cd_p_read := (if count0 = to_end then 0 else r + int count0)\<rparr>,
                Ret (s32 (int count0), region m (nat r) count0))
        else if \<not> in_mem dev r to_end then (dev, Oops)
        else
          let ret = (if fault1 then - EFAULT_value else s32 (int to_end));
              out = (if fault1 then [] else region m (nat r) to_end);
              count = min (count0 - to_end) from_begin in
          if \<not> in_mem dev 0 count then (dev\<lparr>cd_p_read := 0\<rparr>, Oops)
          else if fault2 then (dev\<lparr>cd_p_read := 0\<rparr>, Ret (- EFAULT_value, out))
          else let ret' = s32 (ret + int count) in
            (dev\<lparr>cd_cur_size := size_t (int (cd_cur_size dev) - ret'), cd_p_read := int count\<rparr>,
             Ret (ret', out @ region m 0 count)))"

definition chrdev_read ::
  "bool \<Rightarrow> bool \<Rightarrow> chrdev wake list \<Rightarrow> bool \<Rightarrow> bool \<Rightarrow> chrdev \<Rightarrow> nat \<Rightarrow> chrdev \<times> (int \<times> byte list) sysret" where
  "chrdev_read intr nonblock ws fault1 fault2 dev count0 =
     (if intr then (dev, Err ERESTARTSYS)
      else case wait_while (\<lambda>d. cd_p_read d = cd_p_write d) nonblock dev ws of
        (dev', Ret _) \<Rightarrow> chrdev_take fault1 fault2 dev' count0
      | (dev', Err e) \<Rightarrow> (dev', Err e)
      | (dev', Asleep) \<Rightarrow> (dev', Asleep)
      | (dev', Oops) \<Rightarrow> (dev', Oops))"

subsection \<open>Writing\<close>

text \<open>\<open>None\<close> is the division by zero.\<close>

definition get_freespace_num :: "chrdev \<Rightarrow> nat option" where
  "get_freespace_num dev =
     (if cd_p_read dev = cd_p_write dev then Some (size_t (cd_mem_size dev - 1))
      else if cd_mem_size dev = 0 then None
      else Some (size_t ((cd_p_read dev + cd_mem_size dev - cd_p_write dev) smod cd_mem_size dev - 1)))"

definition chrdev_accept :: "byte ucopy \<Rightarrow> byte ucopy \<Rightarrow> chrdev \<Rightarrow> byte list \<Rightarrow> chrdev \<times> int sysret" where
  "chrdev_accept uc1 uc2 dev buf =
     (case get_freespace_num dev of
        None \<Rightarrow> (dev, Oops)
      | Some freespace \<Rightarrow>
        let count = min (length buf) freespace; w = cd_p_write dev;
            to_end = size_t (cd_mem_end dev - w + 1) in
        if cd_p_read dev \<le> w then
          if count \<le> to_end then
            if \<not> in_mem dev w count then (dev, Oops)
            else
              let dev1 = dev\<lparr>cd_mem := blit (cd_mem dev) (nat w) (copy_in uc1 (take count buf))\<rparr> in
              if uc1 \<noteq> Copied then (dev1, Ret (- EFAULT_value))
              else (dev1\<lparr>cd_p_write := (if count = to_end then 0 else w + int count),
                         cd_cur_size := size_t (int (cd_cur_size dev) + int count)\<rparr>, Ret (s32 (int count)))
          else if \<not> in_mem dev w to_end then (dev, Oops)
          else
            let from_begin = count - to_end;
                dev1 = dev\<lparr>cd_mem := blit (cd_mem dev) (nat w) (copy_in uc1 (take to_end buf)),
                           cd_cur_size := (if uc1 = Copied then size_t (int (cd_cur_size dev) + int to_end)
                                           else cd_cur_size dev),
                           cd_p_write := 0\<rparr>;
                ret = (if uc1 = Copied then s32 (int to_end) else - EFAULT_value) in
            if \<not> in_mem dev 0 from_begin then (dev1, Oops)
            else
              let dev2 = dev1\<lparr>cd_mem := blit (cd_mem dev1) 0
                                (copy_in uc2 (take from_begin (drop to_end buf)))\<rparr> in
              if uc2 \<noteq> Copied then (dev2, Ret (- EFAULT_value))
              else (dev2\<lparr>cd_p_write := int from_begin,
                         cd_cur_size := size_t (int (cd_cur_size dev2) + int from_begin)\<rparr>,
                    Ret (s32 (ret + int from_begin)))
        else if \<not> in_mem dev w count then (dev, Oops)
        else
          let dev1 = dev\<lparr>cd_mem := blit (cd_mem dev) (nat w) (copy_in uc1 (take count buf))\<rparr> in
          if uc1 \<noteq> Copied then (dev1, Ret (- EFAULT_value))
          else (dev1\<lparr>cd_p_write := w + int count, cd_cur_size := size_t (int (cd_cur_size dev) + int count)\<rparr>,
                Ret (s32 (int count))))"

definition chrdev_write ::
  "bool \<Rightarrow> bool \<Rightarrow> chrdev wake list \<Rightarrow> byte ucopy \<Rightarrow> byte ucopy \<Rightarrow> chrdev \<Rightarrow> byte list \<Rightarrow> chrdev \<times> int sysret" where
  "chrdev_write intr nonblock ws uc1 uc2 dev buf =
     (if intr then (dev, Err ERESTARTSYS)
      else case wait_while (\<lambda>d. get_freespace_num d = Some 0) nonblock dev ws of
        (dev', Ret _) \<Rightarrow> chrdev_accept uc1 uc2 dev' buf
      | (dev', Err e) \<Rightarrow> (dev', Err e)
      | (dev', Asleep) \<Rightarrow> (dev', Asleep)
      | (dev', Oops) \<Rightarrow> (dev', Oops))"

subsection \<open>Poll and control\<close>

definition chrdev_poll :: "chrdev \<Rightarrow> (bool \<times> bool) option" where
  "chrdev_poll dev = (case get_freespace_num dev of None \<Rightarrow> None
     | Some free \<Rightarrow> Some (cd_p_read dev \<noteq> cd_p_write dev, free \<noteq> 0))"

datatype chrdev_cmd = CHRDEV_IOC_BUFCLEAR | CHRDEV_IOC_SIZE | CHRDEV_OTHER_NR | CHRDEV_OTHER_MAGIC

definition chrdev_ioctl :: "bool \<Rightarrow> bool \<Rightarrow> chrdev_cmd \<Rightarrow> chrdev \<Rightarrow> chrdev \<times> int sysret" where
  "chrdev_ioctl accessible intr cmd dev =
     (case cmd of
        CHRDEV_OTHER_MAGIC \<Rightarrow> (dev, Err ENOTTY)
      | CHRDEV_IOC_BUFCLEAR \<Rightarrow>
          if intr then (dev, Err ERESTARTSYS)
          else (dev\<lparr>cd_mem := blit (cd_mem dev) 0 (replicate (nat (cd_mem_size dev)) 0)\<rparr>, Ret 0)
      | CHRDEV_IOC_SIZE \<Rightarrow>
          if \<not> accessible then (dev, Err EFAULT) else (dev, Ret (s32 (int (cd_cur_size dev))))
      | CHRDEV_OTHER_NR \<Rightarrow> (dev, Err ENOTTY))"

subsection \<open>The ring\<close>

definition chr_at :: "chrdev \<Rightarrow> byte list \<Rightarrow> nat \<Rightarrow> nat \<Rightarrow> bool" where
  "chr_at dev b r w \<longleftrightarrow> cd_mem dev = b \<and> cd_mem_size dev = int (length b) \<and>
     cd_mem_end dev = int (length b) - 1 \<and> length b < 2147483648 \<and>
     cd_p_read dev = int r \<and> cd_p_write dev = int w \<and> r < length b \<and> w < length b \<and>
     cd_cur_size dev = length (ring_content b r w)"

definition chrdev_content :: "chrdev \<Rightarrow> byte list" where
  "chrdev_content dev = ring_content (cd_mem dev) (nat (cd_p_read dev)) (nat (cd_p_write dev))"

definition chrdev_cap :: "chrdev \<Rightarrow> nat" where
  "chrdev_cap dev = nat (cd_mem_size dev) - 1"

definition chrdev_wf :: "chrdev \<Rightarrow> bool" where
  "chrdev_wf dev \<longleftrightarrow> chr_at dev (cd_mem dev) (nat (cd_p_read dev)) (nat (cd_p_write dev))"

lemma chrdev_wf_at: "chrdev_wf dev \<longleftrightarrow> (\<exists>b r w. chr_at dev b r w)"
proof
  show "chrdev_wf dev \<Longrightarrow> \<exists>b r w. chr_at dev b r w" unfolding chrdev_wf_def by blast
  show "\<exists>b r w. chr_at dev b r w \<Longrightarrow> chrdev_wf dev" by (auto simp: chrdev_wf_def chr_at_def)
qed

lemma chr_at_content: "chr_at dev b r w \<Longrightarrow> chrdev_content dev = ring_content b r w \<and> chrdev_cap dev = length b - 1"
  by (simp add: chr_at_def chrdev_content_def chrdev_cap_def)

lemma freespace_at:
  assumes "chr_at dev b r w"
  shows "get_freespace_num dev = Some (length b - 1 - length (ring_content b r w))"
proof -
  note A = assms[unfolded chr_at_def]
  have sm: "size_t (int (length b - 1 - n)) = length b - 1 - n" for n
    using A by (intro size_t_small) linarith
  have m1: "int (length b) - 1 = int (length b - 1 - 0)" using A by linarith
  show ?thesis
  proof (cases "r = w")
    case True
    have e: "ring_content b w w = []" by (simp add: ring_content_def region_def)
    have "get_freespace_num dev = Some (size_t (int (length b) - 1))"
      using True A by (simp add: get_freespace_num_def)
    then show ?thesis unfolding m1 sm True e by simp
  next
    case False
    have "get_freespace_num dev = Some (size_t ((int r + int (length b) - int w) smod int (length b) - 1))"
      using False A by (auto simp: get_freespace_num_def)
    moreover have "(int r + int (length b) - int w) smod int (length b) - 1 =
        int (length b - 1 - length (ring_content b r w))"
      using A False by (intro ring_free_smod) simp_all
    ultimately show ?thesis by (simp only: sm)
  qed
qed

lemma chr_at_read:
  assumes "chr_at dev b r w" "c \<le> ring_avail (length b) r w"
  shows "chr_at (dev\<lparr>cd_p_read := int (ring_next (length b) r c), cd_cur_size := cd_cur_size dev - c\<rparr>)
      b (ring_next (length b) r c) w"
    "ring_content b r w = region b r c @ ring_content b (ring_next (length b) r c) w"
    "length (region b r c) = c" "in_mem dev (int r) c" "c \<le> cd_cur_size dev"
proof -
  note A = assms(1)[unfolded chr_at_def]
  have rw: "r < length b" "w < length b" using A by simp_all
  note G = ring_content_get[OF rw assms(2)]
  show "ring_content b r w = region b r c @ ring_content b (ring_next (length b) r c) w" by (rule G(1))
  show lr: "length (region b r c) = c" using G(2) by simp
  have "length (ring_content b r w) = c + length (ring_content b (ring_next (length b) r c) w)"
    using G(1) lr by (metis length_append)
  then show "c \<le> cd_cur_size dev"
    "chr_at (dev\<lparr>cd_p_read := int (ring_next (length b) r c), cd_cur_size := cd_cur_size dev - c\<rparr>)
      b (ring_next (length b) r c) w"
    using A G(3) by (simp_all add: chr_at_def)
  show "in_mem dev (int r) c" using A G(2) by (simp add: in_mem_def flip: of_nat_add)
qed

lemma chr_at_write:
  assumes "chr_at dev b r w" "length xs \<le> ring_room (length b) r w"
  shows "chr_at (dev\<lparr>cd_mem := blit b w xs, cd_p_write := int (ring_next (length b) w (length xs)),
        cd_cur_size := cd_cur_size dev + length xs\<rparr>)
      (blit b w xs) r (ring_next (length b) w (length xs))"
    "ring_content (blit b w xs) r (ring_next (length b) w (length xs)) = ring_content b r w @ xs"
    "in_mem dev (int w) (length xs)"
proof -
  note A = assms(1)[unfolded chr_at_def]
  have rw: "r < length b" "w < length b" using A by simp_all
  note P = ring_content_put[OF rw assms(2)]
  show "ring_content (blit b w xs) r (ring_next (length b) w (length xs)) = ring_content b r w @ xs"
    by (rule P(1))
  show "chr_at (dev\<lparr>cd_mem := blit b w xs, cd_p_write := int (ring_next (length b) w (length xs)),
        cd_cur_size := cd_cur_size dev + length xs\<rparr>)
      (blit b w xs) r (ring_next (length b) w (length xs))"
    using A P by (simp add: chr_at_def)
  show "in_mem dev (int w) (length xs)" using A P(2) by (simp add: in_mem_def flip: of_nat_add)
qed

lemma cur_size_small: "chr_at dev b r w \<Longrightarrow> cd_cur_size dev < length b"
  using ring_content_bound[of r b w] by (auto simp: chr_at_def)

lemma chrdev_take_effect:
  assumes at: "chr_at dev b r w" and ne: "r \<noteq> w"
  shows "\<exists>dev' ys r'. chrdev_take False False dev n = (dev', Ret (int (length ys), ys)) \<and>
    chr_at dev' b r' w \<and> ring_content b r w = ys @ ring_content b r' w \<and>
    length ys = min n (length (ring_content b r w))"
proof -
  note A = at[unfolded chr_at_def]
  note cs = cur_size_small[OF at]
  have rw: "r < length b" "w < length b" using A by simp_all
  consider (up) "r < w" | (low) "w < r" "n \<le> length b - r" | (both) "w < r" "length b - r < n"
    using ne by linarith
  then show ?thesis
  proof cases
    case up
    define c where c: "c = min n (w - r)"
    have ca: "c \<le> ring_avail (length b) r w" using up by (simp add: c ring_avail_def)
    note R = chr_at_read[OF at ca]
    have nx: "ring_next (length b) r c = r + c" using up rw by (auto simp: ring_next_def c)
    have st: "size_t (int w - int r) = w - r" using up A by (intro size_t_diff) linarith+
    have sc: "size_t (int (cd_cur_size dev) - int c) = cd_cur_size dev - c"
      using R(5) cs A by (intro size_t_diff) linarith+
    have si: "s32 (int c) = int c" using R(5) cs A by (intro s32_nat) linarith
    have "chrdev_take False False dev n =
      (dev\<lparr>cd_p_read := int (ring_next (length b) r c), cd_cur_size := cd_cur_size dev - c\<rparr>, Ret (int c, region b r c))"
      using up R(4) A st sc si unfolding chrdev_take_def Let_def nx by (simp flip: c)
    moreover have "length (region b r c) = min n (length (ring_content b r w))"
      using R(3) up rw by (simp add: c length_ring_content)
    ultimately show ?thesis using R(1,2,3) by metis
  next
    case low
    have ca: "n \<le> ring_avail (length b) r w" using low by (simp add: ring_avail_def)
    note R = chr_at_read[OF at ca]
    have st: "size_t (int (length b) - 1 - int r + 1) = length b - r"
      using size_t_diff[of r "length b"] A by simp
    have sc: "size_t (int (cd_cur_size dev) - int n) = cd_cur_size dev - n"
      using R(5) cs A by (intro size_t_diff) linarith+
    have si: "s32 (int n) = int n" using R(5) cs A by (intro s32_nat) linarith
    have "chrdev_take False False dev n =
      (dev\<lparr>cd_p_read := int (ring_next (length b) r n), cd_cur_size := cd_cur_size dev - n\<rparr>, Ret (int n, region b r n))"
      using low R(4) A st sc si unfolding chrdev_take_def Let_def by (auto simp: ring_next_def)
    moreover have "length (region b r n) = min n (length (ring_content b r w))"
      using R(3,5) A by simp
    ultimately show ?thesis using R(1,2,3) by metis
  next
    case both
    let ?c1 = "length b - r"
    define c2 where c2: "c2 = min (n - ?c1) w"
    have ca: "?c1 \<le> ring_avail (length b) r w" using both by (simp add: ring_avail_def)
    note R = chr_at_read[OF at ca]
    have nx: "ring_next (length b) r ?c1 = 0" using rw by (simp add: ring_next_def)
    define d1 where d1: "d1 = dev\<lparr>cd_p_read := 0, cd_cur_size := cd_cur_size dev - ?c1\<rparr>"
    have at1: "chr_at d1 b 0 w" using R(1) unfolding nx d1 by simp
    have ca2: "c2 \<le> ring_avail (length b) 0 w" by (simp add: ring_avail_def c2)
    note R2 = chr_at_read[OF at1 ca2]
    have nx2: "ring_next (length b) 0 c2 = c2" using rw by (auto simp: ring_next_def c2)
    have le: "?c1 + c2 \<le> cd_cur_size dev" using R(5) R2(5) by (simp add: d1)
    have st: "size_t (int (length b) - 1 - int r + 1) = ?c1" "size_t (int w) = w"
      using size_t_diff[of r "length b"] A size_t_small[of w] by simp_all
    have lt: "?c1 + c2 < 2147483648" using le cs A by linarith
    then have si: "s32 (int ?c1) = int ?c1" "s32 (int ?c1 + int c2) = int (?c1 + c2)"
      unfolding of_nat_add[symmetric] by (intro s32_nat, linarith)+
    have sc: "size_t (int (cd_cur_size dev) - int (?c1 + c2)) = cd_cur_size dev - (?c1 + c2)"
      using le cs A by (intro size_t_diff) linarith+
    have im: "in_mem dev 0 c2" using R2(4) by (simp add: in_mem_def d1)
    have "chrdev_take False False dev n =
      (d1\<lparr>cd_p_read := int (ring_next (length b) 0 c2), cd_cur_size := cd_cur_size d1 - c2\<rparr>,
       Ret (int (?c1 + c2), region b r ?c1 @ region b 0 c2))"
    proof -
      have a: "\<not> cd_p_read dev < cd_p_write dev" "\<not> n \<le> ?c1"
        "cd_mem_end dev - cd_p_read dev + 1 = int (length b) - 1 - int r + 1"
        "size_t (cd_p_write dev) = w" "nat (cd_p_read dev) = r" "cd_mem dev = b" "in_mem dev (cd_p_read dev) ?c1"
        using both A st(2) R(4) by simp_all
      show ?thesis
        unfolding chrdev_take_def Let_def a(3-6) st(1) c2[symmetric] if_not_P[OF a(1)] if_not_P[OF a(2)]
          nx2 d1
        using a(7) im si sc by simp
    qed
    moreover have "length (region b r ?c1 @ region b 0 c2) = ?c1 + c2" using R(3) R2(3) by simp
    moreover have "?c1 + c2 = min n (length (ring_content b r w))"
      using both rw by (auto simp: length_ring_content c2)
    moreover have "ring_content b r w = (region b r ?c1 @ region b 0 c2) @ ring_content b (ring_next (length b) 0 c2) w"
      using R(2) R2(2) nx by simp
    ultimately show ?thesis using R2(1) by metis
  qed
qed

lemma chrdev_accept_effect:
  assumes at: "chr_at dev b r w" and k: "k = min (length buf) (length b - 1 - length (ring_content b r w))"
  shows "\<exists>dev' b' w'. chrdev_accept Copied Copied dev buf = (dev', Ret (int k)) \<and>
    chr_at dev' b' r w' \<and> length b' = length b \<and> ring_content b' r w' = ring_content b r w @ take k buf"
proof -
  note A = at[unfolded chr_at_def]
  note fs = freespace_at[OF at]
  have rw: "r < length b" "w < length b" using A by simp_all
  have L: "length (ring_content b r w) = (if r \<le> w then w - r else length b - r + w)"
    by (rule length_ring_content[OF rw])
  have kb: "k \<le> length buf" "k < 2147483648" using A by (auto simp: k)
  have tot: "cd_cur_size dev + k < 2147483648"
    using A ring_content_bound[OF rw] by (auto simp: k)
  have st: "size_t (int (length b) - 1 - int w + 1) = length b - w"
    using size_t_diff[of w "length b"] A by simp
  have sc: "size_t (int (cd_cur_size dev) + int j) = cd_cur_size dev + j" if "j \<le> k" for j
    unfolding of_nat_add[symmetric] using tot that by (intro size_t_small) linarith
  have si: "s32 (int j) = int j" if "j \<le> k" for j using that kb by (intro s32_nat) linarith
  consider (one) "r \<le> w" "k \<le> length b - w" | (low) "w < r" | (two) "r \<le> w" "length b - w < k"
    by linarith
  then show ?thesis
  proof cases
    case one
    let ?xs = "take k buf"
    have "length ?xs \<le> ring_room (length b) r w"
      using one rw L by (auto simp: ring_room_def k)
    note W = chr_at_write[OF at this]
    have lx: "length ?xs = k" using kb by simp
    have "chrdev_accept Copied Copied dev buf = (dev\<lparr>cd_mem := blit b w ?xs,
        cd_p_write := int (ring_next (length b) w k), cd_cur_size := cd_cur_size dev + k\<rparr>, Ret (int k))"
      using one A W(3) lx st sc[of k] si[of k] unfolding chrdev_accept_def fs option.case Let_def k[symmetric]
      by (auto simp: ring_next_def)
    moreover have "length (blit b w ?xs) = length b" using W(3) A by (auto simp: in_mem_def)
    ultimately show ?thesis using W(1,2)[unfolded lx] by blast
  next
    case low
    let ?xs = "take k buf"
    have "length ?xs \<le> ring_room (length b) r w"
      using low rw L by (auto simp: ring_room_def k)
    note W = chr_at_write[OF at this]
    have lx: "length ?xs = k" using kb by simp
    have nx: "ring_next (length b) w k = w + k" using low rw L by (auto simp: ring_next_def k)
    have "chrdev_accept Copied Copied dev buf = (dev\<lparr>cd_mem := blit b w ?xs,
        cd_p_write := int (ring_next (length b) w k), cd_cur_size := cd_cur_size dev + k\<rparr>, Ret (int k))"
      using low A W(3) lx st sc[of k] si[of k] nx unfolding chrdev_accept_def fs option.case Let_def k[symmetric]
      by simp
    moreover have "length (blit b w ?xs) = length b" using W(3) A by (auto simp: in_mem_def)
    ultimately show ?thesis using W(1,2)[unfolded lx] by blast
  next
    case two
    let ?c1 = "length b - w" and ?c2 = "k - (length b - w)"
    let ?xs = "take ?c1 buf" and ?ys = "take ?c2 (drop ?c1 buf)"
    have r0: "0 < r" using two L by (auto simp: k)
    have lx: "length ?xs = ?c1" "length ?ys = ?c2" using two kb by simp_all
    have "length ?xs \<le> ring_room (length b) r w" using two r0 lx by (simp add: ring_room_def)
    note W = chr_at_write[OF at this, unfolded lx]
    have nx: "ring_next (length b) w ?c1 = 0" using rw by (simp add: ring_next_def)
    define d1 where d1: "d1 = dev\<lparr>cd_mem := blit b w ?xs, cd_p_write := 0, cd_cur_size := cd_cur_size dev + ?c1\<rparr>"
    have at1: "chr_at d1 (blit b w ?xs) r 0" using W(1) unfolding nx d1 by simp
    have lb: "length (blit b w ?xs) = length b" using W(3) A lx by (simp add: in_mem_def)
    have "length ?ys \<le> ring_room (length (blit b w ?xs)) r 0"
      using two r0 L lb lx(2) by (auto simp: ring_room_def k)
    note W2 = chr_at_write[OF at1 this, unfolded lx lb]
    have nx2: "ring_next (length b) 0 ?c2 = ?c2" using two rw L r0 by (auto simp: ring_next_def k)
    have im: "in_mem dev 0 ?c2" using W2(3) lb A by (simp add: in_mem_def d1)
    have sc2: "size_t (int (cd_cur_size dev + ?c1) + int ?c2) = cd_cur_size dev + ?c1 + ?c2"
      unfolding of_nat_add[symmetric] using tot two by (intro size_t_small) linarith
    have sk: "s32 (int ?c1 + int ?c2) = int k"
      unfolding of_nat_add[symmetric] using two kb si[of k] by simp
    have "chrdev_accept Copied Copied dev buf =
      (d1\<lparr>cd_mem := blit (blit b w ?xs) 0 ?ys, cd_p_write := int (ring_next (length b) 0 ?c2),
          cd_cur_size := cd_cur_size d1 + ?c2\<rparr>, Ret (int k))"
    proof -
      have c: "\<not> k \<le> ?c1" "?c1 \<le> k" using two by simp_all
      have a: "cd_p_read dev \<le> cd_p_write dev" "cd_mem_end dev - cd_p_write dev + 1 = int (length b) - 1 - int w + 1"
        "nat (cd_p_write dev) = w" "cd_mem dev = b"
        using two A by simp_all
      have i: "in_mem dev (cd_p_write dev) ?c1" using W(3) A by simp
      show ?thesis
        unfolding chrdev_accept_def fs option.case Let_def k[symmetric] a(2) st
        using c a i im sc[OF c(2)] si[OF c(2)] sk sc2 nx2 by (simp add: d1)
    qed
    moreover have "ring_content (blit (blit b w ?xs) 0 ?ys) r (ring_next (length b) 0 ?c2) = ring_content b r w @ take k buf"
    proof -
      have "?xs @ ?ys = take k buf" using two by (metis less_imp_le le_add_diff_inverse take_add)
      then show ?thesis using W(2) W2(2) nx by simp
    qed
    moreover have "length (blit (blit b w ?xs) 0 ?ys) = length b"
      using W2(3) lb lx A by (simp add: in_mem_def d1)
    ultimately show ?thesis using W2(1) by blast
  qed
qed

subsection \<open>The device as a FIFO\<close>

definition chrdev_put :: "chrdev \<Rightarrow> byte list \<Rightarrow> chrdev \<times> nat" where
  "chrdev_put dev xs = (case chrdev_write False True [] Copied Copied dev xs of
     (dev', Ret k) \<Rightarrow> (dev', nat k) | (dev', _) \<Rightarrow> (dev', 0))"

definition chrdev_get :: "chrdev \<Rightarrow> nat \<Rightarrow> chrdev \<times> byte list" where
  "chrdev_get dev n = (case chrdev_read False True [] False False dev n of
     (dev', Ret (_, ys)) \<Rightarrow> (dev', ys) | (dev', _) \<Rightarrow> (dev', []))"

lemma chrdev_put_spec:
  assumes wf: "chrdev_wf dev" and R: "chrdev_put dev xs = (dev', k)"
  shows "chrdev_wf dev' \<and> chrdev_cap dev' = chrdev_cap dev \<and>
    k = min (length xs) (chrdev_cap dev - length (chrdev_content dev)) \<and>
    chrdev_content dev' = chrdev_content dev @ take k xs"
proof -
  from wf obtain b r w where at: "chr_at dev b r w" by (auto simp: chrdev_wf_at)
  note C = chr_at_content[OF at] and fs = freespace_at[OF at]
  let ?k = "min (length xs) (length b - 1 - length (ring_content b r w))"
  show ?thesis
  proof (cases "length b - 1 - length (ring_content b r w) = 0")
    case True
    then have "wait_while (\<lambda>d. get_freespace_num d = Some 0) True dev [] = (dev, Err EAGAIN)"
      using fs by (simp add: wait_while.simps)
    then have "dev' = dev" "k = 0" using R by (simp_all add: chrdev_put_def chrdev_write_def)
    then show ?thesis using True C wf by simp
  next
    case False
    then have wl: "wait_while (\<lambda>d. get_freespace_num d = Some 0) True dev [] = (dev, Ret ())"
      using fs by (simp add: wait_while.simps)
    from chrdev_accept_effect[OF at refl, of xs] obtain d b' w' where
      m: "chrdev_accept Copied Copied dev xs = (d, Ret (int ?k))" and at': "chr_at d b' r w'"
        "length b' = length b" "ring_content b' r w' = ring_content b r w @ take ?k xs" by blast
    have e: "dev' = d" "k = ?k" using R m wl by (simp_all add: chrdev_put_def chrdev_write_def)
    have "chrdev_wf d" using at'(1) by (auto simp: chrdev_wf_at)
    then show ?thesis using e chr_at_content[OF at'(1)] at'(2,3) C by simp
  qed
qed

lemma chrdev_get_spec:
  assumes wf: "chrdev_wf dev" and R: "chrdev_get dev n = (dev', ys)"
  shows "chrdev_wf dev' \<and> chrdev_cap dev' = chrdev_cap dev \<and>
    chrdev_content dev = ys @ chrdev_content dev' \<and> length ys = min n (length (chrdev_content dev))"
proof -
  from wf obtain b r w where at: "chr_at dev b r w" by (auto simp: chrdev_wf_at)
  note C = chr_at_content[OF at] and A = at[unfolded chr_at_def]
  show ?thesis
  proof (cases "r = w")
    case True
    then have "wait_while (\<lambda>d. cd_p_read d = cd_p_write d) True dev [] = (dev, Err EAGAIN)"
      using A by (simp add: wait_while.simps)
    then have "dev' = dev" "ys = []" using R by (simp_all add: chrdev_get_def chrdev_read_def)
    moreover have "chrdev_content dev = []" using True C by (simp add: ring_content_def region_def)
    ultimately show ?thesis using wf by simp
  next
    case False
    then have wl: "wait_while (\<lambda>d. cd_p_read d = cd_p_write d) True dev [] = (dev, Ret ())"
      using A by (simp add: wait_while.simps)
    from chrdev_take_effect[OF at False, of n] obtain d zs r' where
      m: "chrdev_take False False dev n = (d, Ret (int (length zs), zs))" and at': "chr_at d b r' w"
        "ring_content b r w = zs @ ring_content b r' w" "length zs = min n (length (ring_content b r w))" by blast
    have e: "dev' = d" "ys = zs" using R m wl by (simp_all add: chrdev_get_def chrdev_read_def)
    have "chrdev_wf d" using at'(1) by (auto simp: chrdev_wf_at)
    then show ?thesis using e chr_at_content[OF at'(1)] at'(2,3) C by simp
  qed
qed

lemma chrdev_content_bound: "chrdev_wf dev \<Longrightarrow> length (chrdev_content dev) \<le> chrdev_cap dev"
proof -
  assume "chrdev_wf dev"
  then obtain b r w where at: "chr_at dev b r w" by (auto simp: chrdev_wf_at)
  then show ?thesis using ring_content_bound[of r b w] chr_at_content[OF at] by (simp add: chr_at_def)
qed

interpretation chrdev: byte_fifo chrdev_wf chrdev_content chrdev_cap chrdev_put chrdev_get
proof (unfold_locales, goal_cases)
  case (1 s xs s' k)
  then show ?case using chrdev_put_spec[OF 1] by blast
next
  case (2 s xs s' k)
  then show ?case using chrdev_put_spec[OF 2] by simp
next
  case (3 s xs s' k)
  then show ?case using chrdev_put_spec[OF 3(1,2)] by simp
next
  case (4 s n s' ys)
  then show ?case using chrdev_get_spec[OF 4] by blast
next
  case (5 s n s' ys)
  then show ?case using chrdev_get_spec[OF 5] by (metis min.cobounded1)
next
  case (6 s n s' ys)
  have "0 < min n (length (chrdev_content s))" using 6(3,4) by simp
  then show ?case using chrdev_get_spec[OF 6(1,2)] by (metis length_greater_0_conv)
next
  case (7 s)
  then show ?case by (rule chrdev_content_bound)
qed

subsection \<open>Properties\<close>

lemma chrdev_setup_wf:
  assumes "mem \<noteq> []" "length mem < 2147483648"
  shows "chrdev_wf (chrdev_setup mem (int (length mem)))" "chrdev_content (chrdev_setup mem n) = []"
    "chrdev_cap (chrdev_setup mem (int (length mem))) = length mem - 1"
  using assms
  by (simp_all add: chrdev_wf_def chr_at_def chrdev_setup_def chrdev_content_def chrdev_cap_def
      ring_content_def region_def)

lemma chrdev_cur_size: "chrdev_wf dev \<Longrightarrow> cd_cur_size dev = length (chrdev_content dev)"
  by (simp add: chrdev_wf_def chr_at_def chrdev_content_def)

lemma chrdev_accept_all:
  assumes "chrdev_wf dev"
  shows "\<exists>dev' k. chrdev_accept Copied Copied dev xs = (dev', Ret (int k)) \<and> chrdev_wf dev' \<and>
    k = min (length xs) (chrdev_cap dev - cd_cur_size dev) \<and>
    chrdev_content dev' = chrdev_content dev @ take k xs \<and> cd_cur_size dev' = cd_cur_size dev + k"
proof -
  from assms obtain b r w where at: "chr_at dev b r w" by (auto simp: chrdev_wf_at)
  note C = chr_at_content[OF at]
  let ?k = "min (length xs) (length b - 1 - length (ring_content b r w))"
  from chrdev_accept_effect[OF at refl, of xs] obtain d b' w' where
    m: "chrdev_accept Copied Copied dev xs = (d, Ret (int ?k))" and at': "chr_at d b' r w'"
      "ring_content b' r w' = ring_content b r w @ take ?k xs" by blast
  have d: "chrdev_wf d" "chrdev_content d = chrdev_content dev @ take ?k xs"
    using at' C chr_at_content[OF at'(1)] by (auto simp: chrdev_wf_at)
  have "cd_cur_size d = cd_cur_size dev + ?k"
    unfolding chrdev_cur_size[OF d(1)] chrdev_cur_size[OF assms] d(2) by simp
  moreover have "?k = min (length xs) (chrdev_cap dev - cd_cur_size dev)" using C chrdev_cur_size[OF assms] by simp
  ultimately show ?thesis using m d by metis
qed

lemma chrdev_take_all:
  assumes "chrdev_wf dev" "cd_p_read dev \<noteq> cd_p_write dev"
  shows "\<exists>dev'. chrdev_take False False dev n =
      (dev', Ret (int (min n (cd_cur_size dev)), take n (chrdev_content dev))) \<and> chrdev_wf dev' \<and>
    chrdev_content dev' = drop n (chrdev_content dev) \<and> cd_cur_size dev' = cd_cur_size dev - n"
proof -
  from assms(1) obtain b r w where at: "chr_at dev b r w" by (auto simp: chrdev_wf_at)
  note C = chr_at_content[OF at] and A = at[unfolded chr_at_def]
  have "r \<noteq> w" using assms(2) A by simp
  from chrdev_take_effect[OF at this, of n] obtain d zs r' where
    m: "chrdev_take False False dev n = (d, Ret (int (length zs), zs))" and at': "chr_at d b r' w"
      "ring_content b r w = zs @ ring_content b r' w" "length zs = min n (length (ring_content b r w))" by blast
  have z: "chrdev_content dev = zs @ chrdev_content d" "length zs = min n (length (chrdev_content dev))"
    using at' C chr_at_content[OF at'(1)] by simp_all
  note S = split_at_length[OF z]
  have wf: "chrdev_wf d" using at'(1) by (auto simp: chrdev_wf_at)
  have "cd_cur_size d = cd_cur_size dev - n"
    unfolding chrdev_cur_size[OF wf] chrdev_cur_size[OF assms(1)] using S by simp
  then show ?thesis using m wf S z(2) chrdev_cur_size[OF assms(1)] by simp
qed

text \<open>\<open>found\<close> ranges over the states that a waiting caller may find: the one at its entry and those of its wake-ups.\<close>

definition may_find :: "chrdev \<Rightarrow> chrdev wake list \<Rightarrow> chrdev \<Rightarrow> bool" where
  "may_find dev ws found \<longleftrightarrow> found = dev \<or> Resumed found \<in> set ws"

lemma chrdev_wait:
  assumes "\<forall>d. may_find dev ws d \<longrightarrow> chrdev_wf d" "wait_while blocked nb dev ws = (found, res)"
  shows "may_find dev ws found \<and> chrdev_wf found \<and> res \<noteq> Oops \<and> (is_ret res \<longrightarrow> \<not> blocked found) \<and>
    (res = Err EAGAIN \<longrightarrow> nb \<and> found = dev \<and> blocked dev) \<and> (\<forall>e. res = Err e \<longrightarrow> e \<in> {EAGAIN, ERESTARTSYS}) \<and>
    (res = Asleep \<longrightarrow> \<not> nb \<and> blocked found)"
proof -
  have "may_find dev ws dev" "\<forall>d. Resumed d \<in> set ws \<longrightarrow> may_find dev ws d" by (simp_all add: may_find_def)
  then show ?thesis using wait_while_effect[of "may_find dev ws", OF _ _ assms(2)] assms(1) by blast
qed

lemma chrdev_full_iff: "chrdev_wf dev \<Longrightarrow> get_freespace_num dev = Some 0 \<longleftrightarrow> cd_cur_size dev = chrdev_cap dev"
proof -
  assume wf: "chrdev_wf dev"
  then obtain b r w where at: "chr_at dev b r w" by (auto simp: chrdev_wf_at)
  show ?thesis
    using freespace_at[OF at] chr_at_content[OF at] chrdev_cur_size[OF wf] chrdev_content_bound[OF wf] by auto
qed

lemma chrdev_empty_iff: "chrdev_wf dev \<Longrightarrow> cd_p_read dev = cd_p_write dev \<longleftrightarrow> cd_cur_size dev = 0"
proof -
  assume wf: "chrdev_wf dev"
  then obtain b r w where at: "chr_at dev b r w" by (auto simp: chrdev_wf_at)
  then show ?thesis using ring_content_empty[of r b w] by (simp add: chr_at_def)
qed

text \<open>
  C14. A read or write none of whose user copies faults transfers all it can in one call, across the end of the
  memory, from the state it finds when it need not wait any longer: a write accepts the request up to the free
  space, a read delivers it up to the stored bytes.  A call that is interrupted, gives up or sleeps changes nothing.
  The device stays well-formed, in particular \<open>cur_size\<close> is the number of stored bytes.
\<close>

theorem chrdev_full_transfer:
  assumes "\<forall>d. may_find dev ws d \<longrightarrow> chrdev_wf d"
  shows "(case chrdev_write intr nb ws Copied Copied dev xs of
      (dev', Ret c) \<Rightarrow> \<exists>found k. may_find dev ws found \<and> c = int k \<and> k = min (length xs) (chrdev_cap found - cd_cur_size found) \<and>
        cd_cur_size found < chrdev_cap found \<and> chrdev_wf dev' \<and>
        chrdev_content dev' = chrdev_content found @ take k xs \<and> cd_cur_size dev' = cd_cur_size found + k
    | (dev', Err e) \<Rightarrow> may_find dev ws dev' \<and> (e = EAGAIN \<and> nb \<and> cd_cur_size dev = chrdev_cap dev \<or> e = ERESTARTSYS)
    | (dev', Asleep) \<Rightarrow> may_find dev ws dev' \<and> \<not> nb \<and> cd_cur_size dev' = chrdev_cap dev'
    | (dev', Oops) \<Rightarrow> False) \<and>
    (case chrdev_read intr nb ws False False dev n of
      (dev', Ret (c, ys)) \<Rightarrow> \<exists>found. may_find dev ws found \<and> c = int (min n (cd_cur_size found)) \<and> 0 < cd_cur_size found \<and>
        ys = take n (chrdev_content found) \<and> chrdev_wf dev' \<and>
        chrdev_content dev' = drop n (chrdev_content found) \<and> cd_cur_size dev' = cd_cur_size found - n
    | (dev', Err e) \<Rightarrow> may_find dev ws dev' \<and> (e = EAGAIN \<and> nb \<and> cd_cur_size dev = 0 \<or> e = ERESTARTSYS)
    | (dev', Asleep) \<Rightarrow> may_find dev ws dev' \<and> \<not> nb \<and> cd_cur_size dev' = 0
    | (dev', Oops) \<Rightarrow> False)"
proof (rule conjI, goal_cases)
  case 1
  obtain found res where w: "wait_while (\<lambda>d. get_freespace_num d = Some 0) nb dev ws = (found, res)" by force
  note W = chrdev_wait[OF assms w]
  have dev: "chrdev_wf dev" "may_find dev ws dev" using assms by (simp_all add: may_find_def)
  then have wf: "chrdev_wf found" using W by blast
  note full = chrdev_full_iff[OF wf] chrdev_full_iff[OF dev(1)]
  show ?case
  proof (cases "intr \<or> \<not> is_ret res")
    case True
    then show ?thesis using w W full dev by (cases intr; cases res) (auto simp: chrdev_write_def)
  next
    case False
    from chrdev_accept_all[OF wf, of xs] obtain dev' k where
      a: "chrdev_accept Copied Copied found xs = (dev', Ret (int k))" "chrdev_wf dev'"
        "k = min (length xs) (chrdev_cap found - cd_cur_size found)"
        "chrdev_content dev' = chrdev_content found @ take k xs" "cd_cur_size dev' = cd_cur_size found + k" by blast
    have "cd_cur_size found \<noteq> chrdev_cap found" using W False full by blast
    then have "cd_cur_size found < chrdev_cap found"
      using chrdev_content_bound[OF wf] chrdev_cur_size[OF wf] by linarith
    moreover have "chrdev_write intr nb ws Copied Copied dev xs = (dev', Ret (int k))"
      using False w a(1) by (cases res) (simp_all add: chrdev_write_def)
    ultimately show ?thesis using W a(2-5) by auto
  qed
next
  case 2
  obtain found res where w: "wait_while (\<lambda>d. cd_p_read d = cd_p_write d) nb dev ws = (found, res)" by force
  note W = chrdev_wait[OF assms w]
  have dev: "chrdev_wf dev" "may_find dev ws dev" using assms by (simp_all add: may_find_def)
  then have wf: "chrdev_wf found" using W by blast
  note empty = chrdev_empty_iff[OF wf] chrdev_empty_iff[OF dev(1)]
  show ?case
  proof (cases "intr \<or> \<not> is_ret res")
    case True
    then show ?thesis using w W empty dev by (cases intr; cases res) (auto simp: chrdev_read_def)
  next
    case False
    then have ne: "cd_p_read found \<noteq> cd_p_write found" using W by blast
    from chrdev_take_all[OF wf ne, of n] obtain dev' where
      a: "chrdev_take False False found n = (dev', Ret (int (min n (cd_cur_size found)), take n (chrdev_content found)))" "chrdev_wf dev'"
        "chrdev_content dev' = drop n (chrdev_content found)" "cd_cur_size dev' = cd_cur_size found - n" by blast
    have "chrdev_read intr nb ws False False dev n =
        (dev', Ret (int (min n (cd_cur_size found)), take n (chrdev_content found)))"
      using False w a(1) by (cases res) (simp_all add: chrdev_read_def)
    then show ?thesis using W a(2-4) empty ne by auto
  qed
qed

theorem chrdev_full_transfer_witness:
  "case chrdev_write False False [] Copied Copied (chrdev_setup [0, 0, 0, 0] 4) [7, 8, 9, 10, 11] of
     (dev', Ret c) \<Rightarrow> c = 3 \<and> chrdev_content dev' = [7, 8, 9] | (dev', _) \<Rightarrow> dev' = chrdev_setup [0, 0, 0, 0] 4"
  using conjunct1[OF chrdev_full_transfer[of "chrdev_setup [0, 0, 0, 0] 4" "[]", where xs = "[7, 8, 9, 10, 11]" and intr = False and nb = False]]
    chrdev_setup_wf(1,3)[of "[0, 0, 0, 0]"] chrdev_setup_wf(2)[of "[0, 0, 0, 0]" 4]
  by (auto simp: may_find_def chrdev_setup_def chrdev_cap_def split: prod.splits sysret.splits)

text \<open>
  A read that crosses the end of the memory and faults in its first copy but not in the second
  returns the error value plus a byte count, so a request whose second part is longer than 14 bytes
  looks like a success; the bytes up to the end of the memory are lost, and \<open>cur_size\<close> is wrong
  afterwards.
\<close>

theorem chrdev_read_fault_masked:
  assumes "chrdev_wf dev" "cd_p_write dev < cd_p_read dev"
    and "int n > cd_mem_size dev - cd_p_read dev + cd_p_write dev"
    and "chrdev_read False nb ws True False dev n = (dev', res)"
  shows "(\<exists>ys. res = Ret (cd_p_write dev - 14, ys)) \<and> cd_p_read dev' = cd_p_write dev \<and>
    (14 < cd_p_write dev \<longrightarrow> 0 < cd_cur_size dev')"
proof -
  from assms(1) obtain b r w where at: "chr_at dev b r w" by (auto simp: chrdev_wf_at)
  note A = at[unfolded chr_at_def]
  have rw: "w < r" "length b - r < n" "w \<le> n - (length b - r)" using assms(2,3) A by linarith+
  have wl: "wait_while (\<lambda>d. cd_p_read d = cd_p_write d) nb dev ws = (dev, Ret ())"
    using rw A by (simp add: wait_while.simps)
  have st: "size_t (int (length b) - 1 - int r + 1) = length b - r" "size_t (int w) = w"
    using size_t_diff[of r "length b"] A size_t_small[of w] by simp_all
  have c2: "min (n - (length b - r)) w = w" using rw by simp
  have sw: "s32 (- 14 + int w) = int w - 14" using A by (simp add: s32_id)
  have a: "\<not> cd_p_read dev < cd_p_write dev" "\<not> n \<le> length b - r"
    "cd_mem_end dev - cd_p_read dev + 1 = int (length b) - 1 - int r + 1"
    "size_t (cd_p_write dev) = w" "in_mem dev (cd_p_read dev) (length b - r)" "in_mem dev 0 w"
    using rw A st by (auto simp: in_mem_def)
  have T: "chrdev_take True False dev n = (dev\<lparr>cd_cur_size := size_t (int (cd_cur_size dev) - (int w - 14)),
      cd_p_read := int w\<rparr>, Ret (int w - 14, region (cd_mem dev) 0 w))"
    unfolding chrdev_take_def Let_def a(3,4) st(1) if_not_P[OF a(1)] if_not_P[OF a(2)] c2
    using a(5,6) sw by simp
  have d': "dev' = dev\<lparr>cd_cur_size := size_t (int (cd_cur_size dev) - (int w - 14)), cd_p_read := int w\<rparr>"
    "res = Ret (int w - 14, region (cd_mem dev) 0 w)"
    using assms(4) wl T by (simp_all add: chrdev_read_def)
  have cur: "cd_cur_size dev = length b - r + w" using A rw(1) by (simp add: length_ring_content)
  have "size_t (int (cd_cur_size dev) - (int w - 14)) = length b - r + 14"
  proof -
    have "int (cd_cur_size dev) - (int w - 14) = int (length b - r + 14)" using cur A by simp
    moreover have "size_t (int (length b - r + 14)) = length b - r + 14"
      using A by (intro size_t_nat) linarith
    ultimately show ?thesis by (simp only:)
  qed
  then show ?thesis using d' A by simp
qed

definition wrapped_chrdev :: chrdev where
  "wrapped_chrdev = \<lparr>cd_mem = [1, 2, 3, 4], cd_mem_size = 4, cd_mem_end = 3, cd_p_read = 2, cd_p_write = 1,
     cd_cur_size = 3\<rparr>"

theorem chrdev_read_fault_masked_witness:
  "\<exists>ys. snd (chrdev_read False True [] True False wrapped_chrdev 9) = Ret (- 13, ys)"
  using chrdev_read_fault_masked[OF _ _ _ surjective_pairing, of wrapped_chrdev 9 True "[]"]
  by (simp add: wrapped_chrdev_def chrdev_wf_def chr_at_def ring_content_def)

end
