(* ===== verification/Ctest.thy ===== *)
theory Ctest
  imports Byte_Fifo
begin

text \<open>
  The character device \<open>myctest/dev/ctest.c\<close>: a ring of 4 MB with a read and a write index, and a
  256-byte buffer behind a \<open>/proc\<close> file.  Indices are offsets from \<open>dev->mem\<close>.  A caller waits at
  most once.  The results of the user copies are ignored by the code: \<open>copied\<close> is the number of bytes
  that reached user space when the copy faulted.
\<close>

definition CTEST_SIZE :: nat where "CTEST_SIZE = 4194304"
abbreviation PROC_BUFF_SIZE :: nat where "PROC_BUFF_SIZE \<equiv> 256"
abbreviation CTEST_MEM_CLEAR :: nat where "CTEST_MEM_CLEAR \<equiv> 1"

record ctest_dev =
  ct_r_index :: int
  ct_w_index :: int
  ct_mem :: "byte list"
  ct_proc_buff :: "byte list"

definition ctest_ioctl :: "nat \<Rightarrow> ctest_dev \<Rightarrow> ctest_dev \<times> int sysret" where
  "ctest_ioctl cmd dev =
     (if cmd = CTEST_MEM_CLEAR then (dev\<lparr>ct_r_index := 0, ct_w_index := 0\<rparr>, Ret (int cmd))
      else (dev, Err EINVAL))"

text \<open>\<open>poll\<close>: readable, writable.\<close>

definition ctest_poll :: "ctest_dev \<Rightarrow> bool \<times> bool" where
  "ctest_poll dev = (ct_r_index dev \<noteq> ct_w_index dev, ct_w_index dev + 1 \<noteq> ct_r_index dev)"

definition u32 :: "int \<Rightarrow> nat" where
  "u32 x = nat (x mod 4294967296)"

definition ctest_take :: "nat option \<Rightarrow> ctest_dev \<Rightarrow> nat \<Rightarrow> ctest_dev \<times> (nat \<times> byte list) sysret" where
  "ctest_take copied dev count =
     (let capability = ct_w_index dev - ct_r_index dev;
          capability = (if capability < 0 then capability + int CTEST_SIZE else capability);
          num = int CTEST_SIZE - ct_r_index dev;
          num = (if num < capability then num else capability);
          count = (if count \<le> u32 num then count else size_t num);
          r = ct_r_index dev + int count
      in if ct_r_index dev < 0 \<or> int (length (ct_mem dev)) < r then (dev, Oops)
         else (dev\<lparr>ct_r_index := (if r = int CTEST_SIZE then 0 else r)\<rparr>,
           Ret (count, let out = region (ct_mem dev) (nat (ct_r_index dev)) count in
             case copied of None \<Rightarrow> out | Some m \<Rightarrow> take m out)))"

definition ctest_read ::
  "bool \<Rightarrow> ctest_dev option \<Rightarrow> nat option \<Rightarrow> ctest_dev \<Rightarrow> nat \<Rightarrow> ctest_dev \<times> (nat \<times> byte list) sysret" where
  "ctest_read nonblock woken copied dev count =
     (if ct_r_index dev = ct_w_index dev
      then (if nonblock then (dev, Err EAGAIN)
            else case woken of None \<Rightarrow> (dev, Asleep) | Some dev' \<Rightarrow> ctest_take copied dev' count)
      else ctest_take copied dev count)"

definition ctest_accept :: "byte ucopy \<Rightarrow> ctest_dev \<Rightarrow> byte list \<Rightarrow> ctest_dev \<times> nat sysret" where
  "ctest_accept uc dev buf =
     (let capability = ct_r_index dev - ct_w_index dev;
          capability = (if capability \<le> 0 then capability + int CTEST_SIZE - 1 else capability - 1);
          num = int CTEST_SIZE - ct_w_index dev;
          num = (if num < capability then num else capability);
          count = (if length buf < u32 num then length buf else u32 num);
          w = ct_w_index dev + int count
      in if ct_w_index dev < 0 \<or> int (length (ct_mem dev)) < w then (dev, Oops)
         else (dev\<lparr>ct_mem := blit (ct_mem dev) (nat (ct_w_index dev)) (copy_in uc (take count buf)),
                   ct_w_index := (if w = int CTEST_SIZE then 0 else w)\<rparr>, Ret count))"

definition ctest_full :: "ctest_dev \<Rightarrow> bool" where
  "ctest_full dev \<longleftrightarrow> ct_w_index dev + 1 = ct_r_index dev \<or>
     int CTEST_SIZE - 1 = ct_w_index dev - ct_r_index dev"

definition ctest_write ::
  "bool \<Rightarrow> ctest_dev option \<Rightarrow> byte ucopy \<Rightarrow> ctest_dev \<Rightarrow> byte list \<Rightarrow> ctest_dev \<times> nat sysret" where
  "ctest_write nonblock woken uc dev buf =
     (if ctest_full dev
      then (if nonblock then (dev, Err EAGAIN)
            else case woken of None \<Rightarrow> (dev, Asleep) | Some dev' \<Rightarrow> ctest_accept uc dev' buf)
      else ctest_accept uc dev buf)"

subsection \<open>The \<open>/proc\<close> file\<close>

text \<open>\<open>"%s\n"\<close> prints up to the first null byte; without one it runs past the end of the array.\<close>

definition ctest_proc_read :: "ctest_dev \<Rightarrow> int \<Rightarrow> byte list sysret" where
  "ctest_proc_read dev off =
     (if off > 0 then Ret []
      else if 0 \<in> set (ct_proc_buff dev) then Ret (takeWhile (\<lambda>b. b \<noteq> 0) (ct_proc_buff dev) @ [10])
      else Oops)"

definition ctest_proc_write :: "byte ucopy \<Rightarrow> ctest_dev \<Rightarrow> byte list \<Rightarrow> ctest_dev \<times> nat" where
  "ctest_proc_write uc dev buff =
     (let count = (if PROC_BUFF_SIZE < length buff then PROC_BUFF_SIZE else length buff) in
      (dev\<lparr>ct_proc_buff := blit (ct_proc_buff dev) 0 (copy_in uc (take count buff))\<rparr>, count))"

subsection \<open>The ring\<close>

definition ctest_wf :: "ctest_dev \<Rightarrow> bool" where
  "ctest_wf dev \<longleftrightarrow> length (ct_mem dev) = CTEST_SIZE \<and>
     0 \<le> ct_r_index dev \<and> ct_r_index dev < int CTEST_SIZE \<and>
     0 \<le> ct_w_index dev \<and> ct_w_index dev < int CTEST_SIZE"

definition ctest_content :: "ctest_dev \<Rightarrow> byte list" where
  "ctest_content dev = ring_content (ct_mem dev) (nat (ct_r_index dev)) (nat (ct_w_index dev))"

lemma u32_small: "n < 4294967296 \<Longrightarrow> u32 (int n) = n"
  by (simp add: u32_def)

lemma ctest_wfE:
  assumes "ctest_wf dev"
  obtains r w where "ct_r_index dev = int r" "ct_w_index dev = int w" "r < CTEST_SIZE" "w < CTEST_SIZE"
    "length (ct_mem dev) = CTEST_SIZE" "CTEST_SIZE < 2147483648"
    "ctest_content dev = ring_content (ct_mem dev) r w"
proof
  show "ct_r_index dev = int (nat (ct_r_index dev))" "ct_w_index dev = int (nat (ct_w_index dev))"
    "nat (ct_r_index dev) < CTEST_SIZE" "nat (ct_w_index dev) < CTEST_SIZE"
    "length (ct_mem dev) = CTEST_SIZE" "CTEST_SIZE < 2147483648"
    "ctest_content dev = ring_content (ct_mem dev) (nat (ct_r_index dev)) (nat (ct_w_index dev))"
    using assms by (auto simp: ctest_wf_def ctest_content_def CTEST_SIZE_def)
qed

lemma ctest_take_effect:
  assumes wf: "ctest_wf dev"
  shows "\<exists>dev' out. ctest_take copied dev n =
      (dev', Ret (length out, case copied of None \<Rightarrow> out | Some m \<Rightarrow> take m out)) \<and>
    ctest_wf dev' \<and> ctest_content dev = out @ ctest_content dev' \<and> length out \<le> n \<and>
    (0 < n \<and> ctest_content dev \<noteq> [] \<longrightarrow> out \<noteq> [])"
proof -
  from wf obtain r w where A: "ct_r_index dev = int r" "ct_w_index dev = int w" "r < CTEST_SIZE" "w < CTEST_SIZE"
    "length (ct_mem dev) = CTEST_SIZE" "CTEST_SIZE < 2147483648"
    and C: "ctest_content dev = ring_content (ct_mem dev) r w" by (rule ctest_wfE)
  define c where c: "c = min n (if r \<le> w then w - r else CTEST_SIZE - r)"
  have num: "(let capability = int w - int r;
          capability = (if capability < 0 then capability + int CTEST_SIZE else capability);
          num = int CTEST_SIZE - int r in if num < capability then num else capability)
      = int (if r \<le> w then w - r else CTEST_SIZE - r)"
    using A(3,4) by (auto simp: Let_def)
  let ?k = "if r \<le> w then w - r else CTEST_SIZE - r"
  have "?k < 2147483648" using A(3,4,6) by auto
  then have cnt: "(if n \<le> u32 (int ?k) then n else size_t (int ?k)) = c"
    by (simp add: u32_small size_t_small c min_def)
  have bounds: "r < length (ct_mem dev)" "w < length (ct_mem dev)" "c \<le> ring_avail (length (ct_mem dev)) r w"
    using A by (simp_all add: c ring_avail_def)
  note G = ring_content_get[OF bounds]
  let ?d = "dev\<lparr>ct_r_index := int (ring_next CTEST_SIZE r c)\<rparr>"
  let ?out = "region (ct_mem dev) r c"
  have lo: "length ?out = c" using G(2) A(5) by simp
  have "ctest_take copied dev n = (?d, Ret (c, case copied of None \<Rightarrow> ?out | Some m \<Rightarrow> take m ?out))"
    unfolding ctest_take_def A(1,2) Let_def unfolding num[unfolded Let_def] cnt nat_int
    using G(2) A(5) by (simp add: ring_next_def flip: of_nat_add)
  moreover have "ctest_wf ?d"
    using A G(3) by (simp add: ctest_wf_def)
  moreover have "ctest_content dev = ?out @ ctest_content ?d"
    using G(1) A(2,5) C by (simp add: ctest_content_def)
  moreover have "0 < c" if "0 < n" "ctest_content dev \<noteq> []"
  proof -
    have "r \<noteq> w" using that(2) C ring_content_empty[OF bounds(1,2)] by simp
    then show ?thesis using that(1) A(3) by (simp add: c)
  qed
  moreover have "c \<le> n" by (simp add: c)
  ultimately show ?thesis using lo
    by (intro exI[of _ ?d] exI[of _ ?out]) (metis less_numeral_extra(3) list.size(3))
qed

lemma ctest_accept_effect:
  assumes wf: "ctest_wf dev"
  shows "\<exists>dev' k. ctest_accept uc dev buf = (dev', Ret k) \<and> k \<le> length buf \<and>
    (buf \<noteq> [] \<and> length (ctest_content dev) < CTEST_SIZE - 1 \<longrightarrow> 0 < k) \<and>
    ctest_wf dev' \<and> length (ctest_content dev') = length (ctest_content dev) + k \<and>
    (uc = Copied \<longrightarrow> ctest_content dev' = ctest_content dev @ take k buf)"
proof -
  from wf obtain r w where A: "ct_r_index dev = int r" "ct_w_index dev = int w" "r < CTEST_SIZE" "w < CTEST_SIZE"
    "length (ct_mem dev) = CTEST_SIZE" "CTEST_SIZE < 2147483648"
    and C: "ctest_content dev = ring_content (ct_mem dev) r w" by (rule ctest_wfE)
  let ?k = "ring_room CTEST_SIZE r w"
  define c where c: "c = min (length buf) ?k"
  define ys where ys: "ys = copy_in uc (take c buf)"
  have num: "(let capability = int r - int w;
          capability = (if capability \<le> 0 then capability + int CTEST_SIZE - 1 else capability - 1);
          num = int CTEST_SIZE - int w in if num < capability then num else capability) = int ?k"
    using A(3,4) by (auto simp: Let_def ring_room_def)
  have "?k < 2147483648" using A(3,4,6) by (auto simp: ring_room_def)
  then have cnt: "(if length buf < u32 (int ?k) then length buf else u32 (int ?k)) = c"
    by (simp add: u32_small c min_def)
  have rw: "r < length (ct_mem dev)" "w < length (ct_mem dev)" using A by simp_all
  have yl: "length ys \<le> c" using length_copy_in_le[of uc "take c buf"] by (simp add: ys del: length_copy_in_le)
  then have fit: "length ys \<le> ring_room (length (ct_mem dev)) r w" using A(5) by (simp add: c)
  note G = ring_content_put[OF rw fit]
  have fit': "length (take c buf) \<le> ring_room (length (ct_mem dev)) r w" using A(5) by (simp add: c)
  have lc: "length (take c buf) = c" by (simp add: c)
  note W = ring_content_put[OF rw fit', unfolded lc A(5)]
  have le: "w + c \<le> CTEST_SIZE" by (rule W(2))
  let ?d = "dev\<lparr>ct_mem := blit (ct_mem dev) w ys, ct_w_index := int (ring_next CTEST_SIZE w c)\<rparr>"
  have "ctest_accept uc dev buf = (?d, Ret c)"
    unfolding ctest_accept_def A(1,2) Let_def unfolding num[unfolded Let_def] cnt
    using le A(5) by (simp add: ring_next_def ys flip: of_nat_add)
  moreover have "0 < c" if "buf \<noteq> []" "length (ctest_content dev) < CTEST_SIZE - 1"
    using that ring_room_pos[OF rw] A(5) C by (simp add: c)
  moreover have "c \<le> length buf" by (simp add: c)
  moreover have lb: "length (blit (ct_mem dev) w ys) = CTEST_SIZE" using G(2) A(5) by simp
  then have "ctest_wf ?d" using A W(3) by (simp add: ctest_wf_def)
  moreover have "length (ctest_content ?d) = length (ctest_content dev) + c"
  proof -
    have lb': "length (blit (ct_mem dev) w (take c buf)) = CTEST_SIZE" using W(2) A(5) lc by simp
    have "length (ctest_content ?d) = length (ring_content (blit (ct_mem dev) w (take c buf)) r (ring_next CTEST_SIZE w c))"
      unfolding ctest_content_def using A(1,3) W(3) lb lb' by (simp add: length_ring_content)
    then show ?thesis using W(1) lc C by simp
  qed
  moreover have "uc = Copied \<longrightarrow> ctest_content ?d = ctest_content dev @ take c buf"
    using A(1) W(1) C ys by (simp add: ctest_content_def)
  ultimately show ?thesis by blast
qed

lemma ctest_full_iff:
  assumes "ctest_wf dev"
  shows "ctest_full dev \<longleftrightarrow> length (ctest_content dev) = CTEST_SIZE - 1"
    and "ct_r_index dev = ct_w_index dev \<longleftrightarrow> ctest_content dev = []"
    and "length (ctest_content dev) \<le> CTEST_SIZE - 1"
proof -
  from assms obtain r w where A: "ct_r_index dev = int r" "ct_w_index dev = int w" "r < CTEST_SIZE" "w < CTEST_SIZE"
    "length (ct_mem dev) = CTEST_SIZE" "CTEST_SIZE < 2147483648"
    and C: "ctest_content dev = ring_content (ct_mem dev) r w" by (rule ctest_wfE)
  have rw: "r < length (ct_mem dev)" "w < length (ct_mem dev)" using A by simp_all
  show "ctest_full dev \<longleftrightarrow> length (ctest_content dev) = CTEST_SIZE - 1"
    unfolding ctest_full_def C length_ring_content[OF rw] A(1,2,5) using A(3,4) by auto
  show "ct_r_index dev = ct_w_index dev \<longleftrightarrow> ctest_content dev = []"
    using ring_content_empty[OF rw] A(1,2) C by simp
  show "length (ctest_content dev) \<le> CTEST_SIZE - 1"
    using ring_content_bound[OF rw] A(5) C by simp
qed

subsection \<open>The device as a FIFO\<close>

definition ctest_put :: "ctest_dev \<Rightarrow> byte list \<Rightarrow> ctest_dev \<times> nat" where
  "ctest_put dev xs = (case ctest_write True None Copied dev xs of
     (dev', Ret k) \<Rightarrow> (dev', k) | (dev', _) \<Rightarrow> (dev', 0))"

definition ctest_get :: "ctest_dev \<Rightarrow> nat \<Rightarrow> ctest_dev \<times> byte list" where
  "ctest_get dev n = (case ctest_read True None None dev n of
     (dev', Ret (_, ys)) \<Rightarrow> (dev', ys) | (dev', _) \<Rightarrow> (dev', []))"

lemma ctest_put_spec:
  assumes wf: "ctest_wf dev" and R: "ctest_put dev xs = (dev', k)"
  shows "ctest_wf dev' \<and> ctest_content dev' = ctest_content dev @ take k xs \<and> k \<le> length xs \<and>
    (xs \<noteq> [] \<and> length (ctest_content dev) < CTEST_SIZE - 1 \<longrightarrow> 0 < k)"
proof (cases "ctest_full dev")
  case True
  then have "dev' = dev" "k = 0" using R by (simp_all add: ctest_put_def ctest_write_def)
  then show ?thesis using True wf ctest_full_iff(1)[OF wf] by simp
next
  case False
  from ctest_accept_effect[OF wf, of Copied xs] obtain d m where
    m: "ctest_accept Copied dev xs = (d, Ret m)" "m \<le> length xs"
      "xs \<noteq> [] \<and> length (ctest_content dev) < CTEST_SIZE - 1 \<longrightarrow> 0 < m"
      "ctest_wf d" "ctest_content d = ctest_content dev @ take m xs" by blast
  have "dev' = d \<and> k = m" using R m(1) unfolding ctest_put_def ctest_write_def if_not_P[OF False] by simp
  then show ?thesis using m(2-5) by simp
qed

lemma ctest_get_spec:
  assumes wf: "ctest_wf dev" and R: "ctest_get dev n = (dev', ys)"
  shows "ctest_wf dev' \<and> ctest_content dev = ys @ ctest_content dev' \<and> length ys \<le> n \<and>
    (0 < n \<and> ctest_content dev \<noteq> [] \<longrightarrow> ys \<noteq> [])"
proof (cases "ct_r_index dev = ct_w_index dev")
  case True
  then show ?thesis using R wf ctest_full_iff(2)[OF wf] by (simp add: ctest_get_def ctest_read_def)
next
  case False
  from ctest_take_effect[OF wf, of None n] obtain d out where
    m: "ctest_take None dev n = (d, Ret (length out, out))" "ctest_wf d"
      "ctest_content dev = out @ ctest_content d" "length out \<le> n"
      "0 < n \<and> ctest_content dev \<noteq> [] \<longrightarrow> out \<noteq> []" by auto
  have "dev' = d" "ys = out" using R False m(1) by (simp_all add: ctest_get_def ctest_read_def)
  then show ?thesis using m(2-5) by simp
qed

interpretation ctest: byte_fifo ctest_wf ctest_content "\<lambda>_. CTEST_SIZE - 1" ctest_put ctest_get
proof (unfold_locales, goal_cases)
  case (1 s xs s' k)
  then show ?case using ctest_put_spec[OF 1] by simp
next
  case (2 s xs s' k)
  then show ?case using ctest_put_spec[OF 2] by simp
next
  case (3 s xs s' k)
  then show ?case using ctest_put_spec[OF 3(1,2)] by simp
next
  case (4 s n s' ys)
  then show ?case using ctest_get_spec[OF 4] by simp
next
  case (5 s n s' ys)
  then show ?case using ctest_get_spec[OF 5] by simp
next
  case (6 s n s' ys)
  then show ?case using ctest_get_spec[OF 6(1,2)] by blast
next
  case (7 s)
  then show ?case by (rule ctest_full_iff(3))
qed

subsection \<open>Interleaved calls\<close>

text \<open>
  The sections of a call, the second one after its wait.  A copy to the reader that faults delivers fewer bytes
  than the call returns and takes off the ring; \<open>0\<close> stands for the lost ones.
\<close>

datatype ctest_section =
    CT_read bool "nat option" nat
  | CT_woken_read "nat option" nat
  | CT_write bool "byte ucopy" "byte list"
  | CT_woken_write "byte ucopy" "byte list"

fun with_lost :: "'s \<times> (nat \<times> byte list) sysret \<Rightarrow> 's \<times> byte list sysret" where
  "with_lost (dev, Ret (count, ys)) = (dev, Ret (ys @ replicate (count - length ys) 0))"
| "with_lost (dev, Err e) = (dev, Err e)"
| "with_lost (dev, Asleep) = (dev, Asleep)"
| "with_lost (dev, Oops) = (dev, Oops)"

fun ctest_call :: "ctest_section \<Rightarrow> ctest_dev \<Rightarrow> ctest_dev \<times> byte list \<times> byte list" where
  "ctest_call (CT_read nonblock copied count) dev = read_result (with_lost (ctest_read nonblock None copied dev count))"
| "ctest_call (CT_woken_read copied count) dev = read_result (with_lost (ctest_take copied dev count))"
| "ctest_call (CT_write nonblock uc buf) dev = write_result buf (ctest_write nonblock None uc dev buf)"
| "ctest_call (CT_woken_write uc buf) dev = write_result buf (ctest_accept uc dev buf)"

fun no_fault :: "ctest_section \<Rightarrow> ctest_dev \<Rightarrow> bool" where
  "no_fault (CT_read nonblock copied count) dev \<longleftrightarrow> copied = None"
| "no_fault (CT_woken_read copied count) dev \<longleftrightarrow> copied = None"
| "no_fault (CT_write nonblock uc buf) dev \<longleftrightarrow> uc = Copied"
| "no_fault (CT_woken_write uc buf) dev \<longleftrightarrow> uc = Copied"

lemma ctest_take_section:
  assumes wf: "ctest_wf dev" and R: "read_result (with_lost (ctest_take copied dev n)) = (dev', ws, rs)"
  shows "ctest_wf dev' \<and> length (ctest_content dev) + length ws = length rs + length (ctest_content dev') \<and>
    (copied = None \<longrightarrow> ctest_content dev @ ws = rs @ ctest_content dev')"
proof -
  from ctest_take_effect[OF wf, of copied n] obtain d out where
    d: "ctest_take copied dev n = (d, Ret (length out, case copied of None \<Rightarrow> out | Some m \<Rightarrow> take m out))" "ctest_wf d"
      "ctest_content dev = out @ ctest_content d" by blast
  let ?ys = "case copied of None \<Rightarrow> out | Some m \<Rightarrow> take m out"
  have e: "dev' = d" "ws = []" "rs = ?ys @ replicate (length out - length ?ys) 0" using R d(1) by simp_all
  have "length rs = length out" unfolding e(3) by (cases copied) auto
  then show ?thesis using d e by auto
qed

lemma ctest_accept_section:
  assumes wf: "ctest_wf dev" and R: "write_result buf (ctest_accept uc dev buf) = (dev', ws, rs)"
  shows "ctest_wf dev' \<and> length (ctest_content dev) + length ws = length rs + length (ctest_content dev') \<and>
    (uc = Copied \<longrightarrow> ctest_content dev @ ws = rs @ ctest_content dev')"
proof -
  from ctest_accept_effect[OF wf, of uc buf] obtain d k where
    d: "ctest_accept uc dev buf = (d, Ret k)" "k \<le> length buf" "ctest_wf d" "length (ctest_content d) = length (ctest_content dev) + k"
      "uc = Copied \<longrightarrow> ctest_content d = ctest_content dev @ take k buf" by blast
  then show ?thesis using R by auto
qed

lemma ctest_call_effect:
  assumes wf: "ctest_wf dev" and R: "ctest_call c dev = (dev', ws, rs)"
  shows "ctest_wf dev' \<and> length (ctest_content dev) + length ws = length rs + length (ctest_content dev') \<and>
    (no_fault c dev \<longrightarrow> ctest_content dev @ ws = rs @ ctest_content dev')"
proof (cases c)
  case (CT_read nb copied n)
  show ?thesis
  proof (cases "ct_r_index dev = ct_w_index dev")
    case True
    then show ?thesis using R wf by (cases nb) (auto simp: CT_read ctest_read_def)
  next
    case False
    then show ?thesis using R ctest_take_section[OF wf, of copied n dev' ws rs] by (simp add: CT_read ctest_read_def)
  qed
next
  case (CT_woken_read copied n)
  then show ?thesis using R ctest_take_section[OF wf, of copied n dev' ws rs] by simp
next
  case (CT_write nb uc buf)
  show ?thesis
  proof (cases "ctest_full dev")
    case True
    then show ?thesis using R wf by (cases nb) (auto simp: CT_write ctest_write_def)
  next
    case False
    then show ?thesis using R ctest_accept_section[OF wf, of buf uc dev' ws rs] by (simp add: CT_write ctest_write_def)
  qed
next
  case (CT_woken_write uc buf)
  then show ?thesis using R ctest_accept_section[OF wf, of buf uc dev' ws rs] by simp
qed

interpretation ctest_sections: byte_sections ctest_wf ctest_content "\<lambda>_. CTEST_SIZE - 1" ctest_call no_fault
proof (unfold_locales, goal_cases)
  case (1 s c s' ws rs)
  then show ?case using ctest_call_effect by blast
next
  case (2 s c s' ws rs)
  then show ?case using ctest_call_effect by blast
next
  case (3 s c s' ws rs)
  then show ?case using ctest_call_effect by blast
next
  case (4 s)
  then show ?case by (rule ctest_full_iff(3))
qed

subsection \<open>Properties\<close>

text \<open>The device after module load, with the pages holding \<open>pages\<close>.\<close>

lemma CTEST_SIZE_pos: "0 < CTEST_SIZE"
  by (simp add: CTEST_SIZE_def)

definition ctest_init :: "(nat \<Rightarrow> byte) \<Rightarrow> ctest_dev" where
  "ctest_init pages = \<lparr>ct_r_index = 0, ct_w_index = 0, ct_mem = map pages [0..<CTEST_SIZE],
     ct_proc_buff = replicate PROC_BUFF_SIZE 0\<rparr>"

lemma ctest_init_wf: "ctest_wf (ctest_init pages)" "ctest_content (ctest_init pages) = []"
  by (simp_all add: ctest_wf_def ctest_init_def ctest_content_def ring_content_def region_def CTEST_SIZE_pos)

text \<open>
  C11. From module load on, whatever sections of blocking and non-blocking calls interleave, and whether user
  copies fault or not, the ring accounts for every byte that calls claim to have transferred: what was accepted was
  taken off or is still stored, at most 4 MB - 1 bytes.  If no user copy faults the bytes come in order; a fault is
  not noticed, so its call returns success for bytes that are lost or were never written.
\<close>

theorem ctest_trace:
  assumes "sections_run ctest_call (ctest_init pages) cs = (dev', accepted, delivered)"
  shows "ctest_wf dev' \<and> length accepted = length delivered + length (ctest_content dev') \<and>
    length (ctest_content dev') \<le> CTEST_SIZE - 1 \<and>
    (all_along ctest_call no_fault (ctest_init pages) cs \<longrightarrow> delivered = take (length delivered) accepted)"
  using ctest_sections.run_from_empty[OF ctest_init_wf assms] .

theorem ctest_trace_witness:
  "\<exists>cs. cs = [CT_read False None 2, CT_write True Copied [1, 2], CT_woken_read None 2] \<and>
     snd (snd (sections_run ctest_call (ctest_init (\<lambda>_. 0)) cs)) =
     take (length (snd (snd (sections_run ctest_call (ctest_init (\<lambda>_. 0)) cs)))) (fst (snd (sections_run ctest_call (ctest_init (\<lambda>_. 0)) cs)))"
  using ctest_trace[OF surjective_triple] by (simp del: ctest_call.simps sections_run.simps)

text \<open>
  \<open>poll\<close> tells a reader the truth, but a writer not always: it reports the ring as writable
  although it is full exactly when the write index is at the last cell and the read index at the first.
\<close>

theorem ctest_poll_exact:
  assumes "ctest_wf dev"
  shows "fst (ctest_poll dev) = (ctest_content dev \<noteq> []) \<and>
    (snd (ctest_poll dev) \<noteq> (length (ctest_content dev) < CTEST_SIZE - 1) \<longleftrightarrow>
      ct_w_index dev = int CTEST_SIZE - 1 \<and> ct_r_index dev = 0)"
proof -
  note F = ctest_full_iff[OF assms]
  have B: "0 \<le> ct_r_index dev" "ct_w_index dev < int CTEST_SIZE" "0 < int CTEST_SIZE"
    using assms CTEST_SIZE_pos by (simp_all add: ctest_wf_def)
  have q: "int CTEST_SIZE - 1 = ct_w_index dev - ct_r_index dev \<longleftrightarrow>
      ct_w_index dev = int CTEST_SIZE - 1 \<and> ct_r_index dev = 0"
    using B(1,2) by linarith
  have np: "\<not> (ct_w_index dev = int CTEST_SIZE - 1 \<and> ct_r_index dev = 0 \<and> ct_w_index dev + 1 = ct_r_index dev)"
    using B(3) by linarith
  have "snd (ctest_poll dev) \<noteq> (\<not> ctest_full dev) \<longleftrightarrow>
      ct_w_index dev = int CTEST_SIZE - 1 \<and> ct_r_index dev = 0"
    unfolding ctest_poll_def ctest_full_def snd_conv q using np by blast
  moreover have "(\<not> ctest_full dev) = (length (ctest_content dev) < CTEST_SIZE - 1)"
    using F(1,3) by (metis nat_less_le)
  ultimately show ?thesis using F(2) by (simp add: ctest_poll_def)
qed

theorem ctest_poll_exact_witness:
  "fst (ctest_poll (ctest_init (\<lambda>_. 0))) = False"
  using ctest_poll_exact[OF ctest_init_wf(1), of "\<lambda>_. 0"]
  by (simp add: ctest_init_wf(2))

end
