(* ===== verification/Fd_Map.thy ===== *)
theory Fd_Map
  imports Ak_Prelude
begin

text \<open>
  The hash table of \<open>ctest/test_other1/servers/map.c\<close>, which gives the number of a connection for a
  socket: one array of nodes, collisions linked through the index \<open>next\<close>, the new node taken from
  anywhere in the array.  A loop along the links that does not end has the value \<open>None\<close>.
\<close>

unbundle bit_operations_syntax

record hash_node =
  h_fd :: int
  h_id :: int
  h_next :: int

record HASH_MAP =
  map_size :: int
  nodes :: "hash_node list"

text \<open>\<open>Aborted\<close>: the assertion at the end of \<open>map_insert\<close> failed.\<close>

datatype 'a assertion = Fine 'a | Aborted

text \<open>The size doubles in 32 bits: from 1073741824 on it overflows to 0 and the loop does not end.\<close>

partial_function (option) double_above :: "int \<Rightarrow> int \<Rightarrow> int option" where
  "double_above limit sz = (if sz \<le> limit then double_above limit (s32 (sz * 2)) else Some sz)"

definition map_new :: "int \<Rightarrow> HASH_MAP option" where
  "map_new limit = map_option (\<lambda>sz. \<lparr>map_size = sz,
     nodes = replicate (nat sz) \<lparr>h_fd = -1, h_id = 0, h_next = -1\<rparr>\<rparr>) (double_above limit 1)"

definition slot :: "HASH_MAP \<Rightarrow> int \<Rightarrow> nat" where
  "slot m fd = nat (fd AND (map_size m - 1))"

partial_function (option) search_loop :: "hash_node list \<Rightarrow> int \<Rightarrow> nat \<Rightarrow> int option" where
  "search_loop ns fd k =
     (if h_fd (ns ! k) = fd then Some (h_id (ns ! k))
      else if h_next (ns ! k) < 0 then Some (-1)
      else search_loop ns fd (nat (h_next (ns ! k))))"

definition map_search :: "HASH_MAP \<Rightarrow> int \<Rightarrow> int option" where
  "map_search m fd = search_loop (nodes m) fd (slot m fd)"

text \<open>The first loop of \<open>map_insert\<close> stops at a free node or at the end of the chain.\<close>

partial_function (option) chain_stop :: "hash_node list \<Rightarrow> nat \<Rightarrow> nat option" where
  "chain_stop ns k =
     (if h_fd (ns ! k) < 0 then Some k
      else if h_next (ns ! k) < 0 then Some k
      else chain_stop ns (nat (h_next (ns ! k))))"

fun first_free :: "hash_node list \<Rightarrow> nat option" where
  "first_free [] = None"
| "first_free (x # ns) = (if h_fd x < 0 then Some 0 else map_option Suc (first_free ns))"

definition put_node :: "int \<Rightarrow> int \<Rightarrow> nat \<Rightarrow> hash_node list \<Rightarrow> hash_node list" where
  "put_node fd num k ns = ns[k := (ns ! k)\<lparr>h_fd := fd, h_id := num\<rparr>]"

definition map_insert :: "int \<Rightarrow> int \<Rightarrow> HASH_MAP \<Rightarrow> HASH_MAP assertion option" where
  "map_insert fd num m = (case chain_stop (nodes m) (slot m fd) of
       None \<Rightarrow> None
     | Some k \<Rightarrow>
         if h_fd (nodes m ! k) < 0 then Some (Fine (m\<lparr>nodes := put_node fd num k (nodes m)\<rparr>))
         else (case first_free (nodes m) of
             None \<Rightarrow> Some Aborted
           | Some i \<Rightarrow> (let ns = put_node fd num i (nodes m) in
               Some (Fine (m\<lparr>nodes := ns[k := (ns ! k)\<lparr>h_next := int i\<rparr>]\<rparr>)))))"

partial_function (option) erase_loop :: "hash_node list \<Rightarrow> int \<Rightarrow> nat \<Rightarrow> hash_node list option" where
  "erase_loop ns fd k =
     (if h_fd (ns ! k) = fd then Some (ns[k := (ns ! k)\<lparr>h_fd := -1\<rparr>])
      else if h_next (ns ! k) < 0 then Some ns
      else erase_loop ns fd (nat (h_next (ns ! k))))"

definition map_erase :: "int \<Rightarrow> HASH_MAP \<Rightarrow> HASH_MAP option" where
  "map_erase fd m = map_option (\<lambda>ns. m\<lparr>nodes := ns\<rparr>) (erase_loop (nodes m) fd (slot m fd))"

lemmas [code] = double_above.simps search_loop.simps chain_stop.simps erase_loop.simps

subsection \<open>Sizes and links\<close>

lemma double_above_power:
  assumes "0 \<le> limit" "limit < 2 ^ 30" "k \<le> 30"
  shows "\<exists>n \<ge> k. n \<le> 30 \<and> double_above limit (2 ^ k) = Some (2 ^ n) \<and> limit < 2 ^ n"
  using assms(3)
proof (induction "30 - k" arbitrary: k)
  case 0
  then have "k = 30" by simp
  then show ?case using assms by (subst double_above.simps) auto
next
  case (Suc d)
  show ?case
  proof (cases "(2::int) ^ k \<le> limit")
    case False
    then show ?thesis using Suc.prems by (subst double_above.simps) auto
  next
    case True
    have k: "k < 30" using Suc.hyps(2) by simp
    have "(2::int) ^ Suc k \<le> 2 ^ 30" using k by (intro power_increasing) simp_all
    then have "- 2147483648 \<le> (2::int) ^ k * 2" "(2::int) ^ k * 2 < 2147483648"
      by (simp_all add: algebra_simps order_trans[of _ 0])
    then have "s32 (2 ^ k * 2) = 2 ^ Suc k" by (simp add: s32_id)
    then have e: "double_above limit (2 ^ k) = double_above limit (2 ^ Suc k)"
      using True by (subst double_above.simps) simp
    have "d = 30 - Suc k" using Suc.hyps(2) by simp
    then obtain n where "Suc k \<le> n" "n \<le> 30" "double_above limit (2 ^ Suc k) = Some (2 ^ n)" "limit < 2 ^ n"
      using Suc.hyps(1)[of "Suc k"] k by (metis Suc_leI)
    then show ?thesis unfolding e using Suc_leD by blast
  qed
qed

definition links :: "hash_node list \<Rightarrow> (nat \<times> nat) set" where
  "links ns = {(k, nat (h_next (ns ! k))) | k. k < length ns \<and> 0 \<le> h_next (ns ! k)}"

definition map_ok :: "HASH_MAP \<Rightarrow> bool" where
  "map_ok m \<longleftrightarrow> (\<exists>n. map_size m = 2 ^ n) \<and> int (length (nodes m)) = map_size m \<and>
     (\<forall>k < length (nodes m). h_next (nodes m ! k) < map_size m)"

lemma slot_less: "map_ok m \<Longrightarrow> slot m fd < length (nodes m)"
proof -
  assume ok: "map_ok m"
  then obtain n where n: "map_size m = 2 ^ n" unfolding map_ok_def by blast
  have "fd AND (2 ^ n - 1) = take_bit n fd" by (simp add: take_bit_eq_mask mask_eq_exp_minus_1)
  moreover have "0 \<le> take_bit n fd" "take_bit n fd < 2 ^ n" by simp_all
  ultimately show ?thesis using ok n unfolding map_ok_def slot_def by simp
qed

lemma links_less: "map_ok m \<Longrightarrow> (j, k) \<in> links (nodes m) \<Longrightarrow> j < length (nodes m) \<and> k < length (nodes m)"
  by (auto simp: links_def map_ok_def)


subsection \<open>Searching a present socket\<close>

text \<open>From a node that leads to one with the socket, the first node that has it is found.\<close>

lemma search_found:
  assumes "(k, j) \<in> (links ns)\<^sup>*" "h_fd (ns ! j) = fd"
  shows "\<exists>i. search_loop ns fd k = Some (h_id (ns ! i)) \<and> (k, i) \<in> (links ns)\<^sup>* \<and> h_fd (ns ! i) = fd"
  using assms(1)
proof (induction rule: converse_rtrancl_induct)
  case base
  show ?case using assms(2) by (subst search_loop.simps) auto
next
  case (step k k')
  then obtain i where i: "search_loop ns fd k' = Some (h_id (ns ! i))" "(k', i) \<in> (links ns)\<^sup>*" "h_fd (ns ! i) = fd"
    by blast
  have k: "\<not> h_next (ns ! k) < 0" "k' = nat (h_next (ns ! k))" using step.hyps(1) by (auto simp: links_def)
  show ?case
  proof (cases "h_fd (ns ! k) = fd")
    case True
    then show ?thesis by (subst search_loop.simps) auto
  next
    case False
    then have "search_loop ns fd k = search_loop ns fd k'" using k by (subst search_loop.simps) simp
    then show ?thesis using i step.hyps(1) by (metis converse_rtrancl_into_rtrancl)
  qed
qed

definition closed :: "hash_node list \<Rightarrow> bool" where
  "closed ns \<longleftrightarrow> (\<forall>k j. (k, j) \<in> links ns \<longrightarrow> j < length ns)"

lemma map_ok_closed: "map_ok m \<Longrightarrow> closed (nodes m)"
  using links_less by (auto simp: closed_def)

lemma search_result:
  assumes "search_loop ns fd k = Some x"
  shows "closed ns \<longrightarrow> k < length ns \<longrightarrow> (\<forall>j < length ns. h_fd (ns ! j) \<noteq> fd) \<longrightarrow> x = -1"
proof (rule search_loop.raw_induct[where P = "\<lambda>ns fd k x. closed ns \<longrightarrow> k < length ns \<longrightarrow>
    (\<forall>j < length ns. h_fd (ns ! j) \<noteq> fd) \<longrightarrow> x = -1", OF _ assms], intro impI)
  fix search :: "hash_node list \<Rightarrow> int \<Rightarrow> nat \<Rightarrow> int option" and ns fd k x
  assume IH: "\<And>ns fd k x. search ns fd k = Some x \<Longrightarrow> closed ns \<longrightarrow> k < length ns \<longrightarrow>
      (\<forall>j < length ns. h_fd (ns ! j) \<noteq> fd) \<longrightarrow> x = -1"
    and e: "(if h_fd (ns ! k) = fd then Some (h_id (ns ! k)) else if h_next (ns ! k) < 0 then Some (- 1)
      else search ns fd (nat (h_next (ns ! k)))) = Some x"
    and c: "closed ns" "k < length ns" and ne: "\<forall>j < length ns. h_fd (ns ! j) \<noteq> fd"
  show "x = -1"
  proof (cases "h_next (ns ! k) < 0")
    case True
    then show ?thesis using e c(2) ne by simp
  next
    case False
    then have "nat (h_next (ns ! k)) < length ns" using c by (auto simp: closed_def links_def)
    moreover have "search ns fd (nat (h_next (ns ! k))) = Some x" using e c(2) ne False by simp
    ultimately show ?thesis using IH c(1) ne by blast
  qed
qed

lemma chain_stop_result:
  assumes "chain_stop ns k = Some j"
  shows "closed ns \<longrightarrow> k < length ns \<longrightarrow>
    (k, j) \<in> (links ns)\<^sup>* \<and> j < length ns \<and> (h_fd (ns ! j) < 0 \<or> h_next (ns ! j) < 0)"
proof (rule chain_stop.raw_induct[where P = "\<lambda>ns k j. closed ns \<longrightarrow> k < length ns \<longrightarrow>
    (k, j) \<in> (links ns)\<^sup>* \<and> j < length ns \<and> (h_fd (ns ! j) < 0 \<or> h_next (ns ! j) < 0)", OF _ assms], intro impI)
  fix stop :: "hash_node list \<Rightarrow> nat \<Rightarrow> nat option" and ns k j
  assume IH: "\<And>ns k j. stop ns k = Some j \<Longrightarrow> closed ns \<longrightarrow> k < length ns \<longrightarrow>
      (k, j) \<in> (links ns)\<^sup>* \<and> j < length ns \<and> (h_fd (ns ! j) < 0 \<or> h_next (ns ! j) < 0)"
    and e: "(if h_fd (ns ! k) < 0 then Some k else if h_next (ns ! k) < 0 then Some k
      else stop ns (nat (h_next (ns ! k)))) = Some j"
    and c: "closed ns" "k < length ns"
  show "(k, j) \<in> (links ns)\<^sup>* \<and> j < length ns \<and> (h_fd (ns ! j) < 0 \<or> h_next (ns ! j) < 0)"
  proof (cases "h_fd (ns ! k) < 0 \<or> h_next (ns ! k) < 0")
    case True
    then show ?thesis using e c(2) by (auto split: if_splits)
  next
    case False
    let ?k = "nat (h_next (ns ! k))"
    have l: "(k, ?k) \<in> links ns" using False c(2) by (auto simp: links_def)
    then have "?k < length ns" using c(1) by (auto simp: closed_def)
    moreover have "stop ns ?k = Some j" using e False by simp
    ultimately show ?thesis using IH c(1) l by (meson converse_rtrancl_into_rtrancl)
  qed
qed

lemma erase_result:
  assumes "erase_loop ns fd k = Some ns'"
  shows "closed ns \<longrightarrow> k < length ns \<longrightarrow>
    (\<exists>j < length ns. h_fd (ns ! j) = fd \<and> ns' = ns[j := (ns ! j)\<lparr>h_fd := -1\<rparr>]) \<or>
    ns' = ns \<and> (\<forall>j. (k, j) \<in> (links ns)\<^sup>* \<longrightarrow> h_fd (ns ! j) \<noteq> fd)"
proof (rule erase_loop.raw_induct[where P = "\<lambda>ns fd k ns'. closed ns \<longrightarrow> k < length ns \<longrightarrow>
    (\<exists>j < length ns. h_fd (ns ! j) = fd \<and> ns' = ns[j := (ns ! j)\<lparr>h_fd := -1\<rparr>]) \<or>
    ns' = ns \<and> (\<forall>j. (k, j) \<in> (links ns)\<^sup>* \<longrightarrow> h_fd (ns ! j) \<noteq> fd)", OF _ assms], intro impI)
  fix erase :: "hash_node list \<Rightarrow> int \<Rightarrow> nat \<Rightarrow> hash_node list option" and ns fd k ns'
  assume IH: "\<And>ns fd k ns'. erase ns fd k = Some ns' \<Longrightarrow> closed ns \<longrightarrow> k < length ns \<longrightarrow>
      (\<exists>j < length ns. h_fd (ns ! j) = fd \<and> ns' = ns[j := (ns ! j)\<lparr>h_fd := -1\<rparr>]) \<or>
      ns' = ns \<and> (\<forall>j. (k, j) \<in> (links ns)\<^sup>* \<longrightarrow> h_fd (ns ! j) \<noteq> fd)"
    and e: "(if h_fd (ns ! k) = fd then Some (ns[k := (ns ! k)\<lparr>h_fd := -1\<rparr>])
      else if h_next (ns ! k) < 0 then Some ns else erase ns fd (nat (h_next (ns ! k)))) = Some ns'"
    and c: "closed ns" "k < length ns"
  let ?Q = "\<lambda>k. (\<exists>j < length ns. h_fd (ns ! j) = fd \<and> ns' = ns[j := (ns ! j)\<lparr>h_fd := -1\<rparr>]) \<or>
    ns' = ns \<and> (\<forall>j. (k, j) \<in> (links ns)\<^sup>* \<longrightarrow> h_fd (ns ! j) \<noteq> fd)"
  consider (here) "h_fd (ns ! k) = fd" | (stop) "h_fd (ns ! k) \<noteq> fd" "h_next (ns ! k) < 0"
    | (later) "h_fd (ns ! k) \<noteq> fd" "\<not> h_next (ns ! k) < 0" by blast
  then show "?Q k"
  proof cases
    case here
    then show ?thesis using e c(2) by auto
  next
    case stop
    have "j = k" if "(k, j) \<in> (links ns)\<^sup>*" for j
      using that by (rule converse_rtranclE) (use stop(2) in \<open>auto simp: links_def\<close>)
    then show ?thesis using e stop by auto
  next
    case later
    let ?k = "nat (h_next (ns ! k))"
    have "(k, ?k) \<in> links ns" using later c(2) by (auto simp: links_def)
    then have "?k < length ns" using c(1) by (auto simp: closed_def)
    moreover have "erase ns fd ?k = Some ns'" using e later by simp
    ultimately have Q: "?Q ?k" using IH c(1) by blast
    have "j = k \<or> (?k, j) \<in> (links ns)\<^sup>*" if "(k, j) \<in> (links ns)\<^sup>*" for j
      using that by (rule converse_rtranclE) (auto simp: links_def)
    then show ?thesis using Q later(1) by blast
  qed
qed

lemma first_free_Some: "first_free ns = Some i \<Longrightarrow> i < length ns \<and> h_fd (ns ! i) < 0"
  by (induction ns arbitrary: i) (auto split: if_splits)

lemma first_free_None: "first_free ns = None \<longleftrightarrow> (\<forall>x \<in> set ns. 0 \<le> h_fd x)"
  by (induction ns) auto

subsection \<open>The table stands for a map\<close>

definition map_rep :: "HASH_MAP \<Rightarrow> (int \<Rightarrow> int option) \<Rightarrow> bool" where
  "map_rep m f \<longleftrightarrow> map_ok m \<and> dom f \<subseteq> {0..} \<and>
     (\<forall>fd \<in> dom f. \<exists>j < length (nodes m). (slot m fd, j) \<in> (links (nodes m))\<^sup>* \<and> h_fd (nodes m ! j) = fd) \<and>
     (\<forall>j < length (nodes m). 0 \<le> h_fd (nodes m ! j) \<longrightarrow> f (h_fd (nodes m ! j)) = Some (h_id (nodes m ! j))) \<and>
     (\<forall>i < length (nodes m). \<forall>j < length (nodes m). 0 \<le> h_fd (nodes m ! i) \<longrightarrow>
        h_fd (nodes m ! i) = h_fd (nodes m ! j) \<longrightarrow> i = j)"

lemma links_same:
  assumes "length ns' = length ns" "\<And>k. k < length ns \<Longrightarrow> h_next (ns' ! k) = h_next (ns ! k)"
  shows "links ns' = links ns"
  using assms by (auto simp: links_def)

lemma map_rep_new:
  assumes "0 \<le> limit" "limit < 2 ^ 30"
  obtains m where "map_new limit = Some m" "map_rep m (\<lambda>_. None)" "limit < map_size m" "links (nodes m) = {}"
    "\<forall>j < length (nodes m). h_fd (nodes m ! j) = -1"
proof -
  obtain n where n: "double_above limit (2 ^ 0) = Some (2 ^ n)" "limit < 2 ^ n"
    using double_above_power[OF assms, of 0] by auto
  let ?m = "\<lparr>map_size = 2 ^ n, nodes = replicate (nat (2 ^ n)) \<lparr>h_fd = -1, h_id = 0, h_next = -1\<rparr>\<rparr>"
  have "map_new limit = Some ?m" using n(1) by (simp add: map_new_def)
  moreover have "map_ok ?m" by (auto simp: map_ok_def)
  then have "map_rep ?m (\<lambda>_. None)" by (simp add: map_rep_def)
  moreover have "links (nodes ?m) = {}" by (auto simp: links_def)
  ultimately show thesis using that[of ?m] n(2) by simp
qed

lemma search_rep:
  assumes r: "map_rep m f"
  shows "f fd = Some x \<Longrightarrow> map_search m fd = Some x"
    and "f fd = None \<Longrightarrow> 0 \<le> fd \<Longrightarrow> map_search m fd \<in> {None, Some (-1)}"
proof -
  have ok: "map_ok m" and dom: "dom f \<subseteq> {0..}"
    and reach: "\<And>fd. fd \<in> dom f \<Longrightarrow> \<exists>j < length (nodes m). (slot m fd, j) \<in> (links (nodes m))\<^sup>* \<and> h_fd (nodes m ! j) = fd"
    and val: "\<And>j. j < length (nodes m) \<Longrightarrow> 0 \<le> h_fd (nodes m ! j) \<Longrightarrow> f (h_fd (nodes m ! j)) = Some (h_id (nodes m ! j))"
    using r unfolding map_rep_def by blast+
  show "map_search m fd = Some x" if f: "f fd = Some x"
  proof -
    obtain j where "(slot m fd, j) \<in> (links (nodes m))\<^sup>*" "h_fd (nodes m ! j) = fd" using reach[of fd] f by blast
    then obtain i where i: "search_loop (nodes m) fd (slot m fd) = Some (h_id (nodes m ! i))"
        "(slot m fd, i) \<in> (links (nodes m))\<^sup>*" "h_fd (nodes m ! i) = fd"
      using search_found by blast
    have "i < length (nodes m)" using i(2) slot_less[OF ok] links_less[OF ok] by (auto elim: rtranclE)
    moreover have "0 \<le> fd" using f dom by auto
    ultimately have "f fd = Some (h_id (nodes m ! i))" using val i(3) by metis
    then show ?thesis using f i(1) by (simp add: map_search_def)
  qed
  show "map_search m fd \<in> {None, Some (-1)}" if f: "f fd = None" "0 \<le> fd"
  proof -
    have "h_fd (nodes m ! j) \<noteq> fd" if "j < length (nodes m)" for j using val[OF that] f by auto
    then show ?thesis
      using search_result[of "nodes m" fd "slot m fd"] map_ok_closed[OF ok] slot_less[OF ok, of fd]
      by (cases "map_search m fd") (auto simp: map_search_def)
  qed
qed

text \<open>A node \<open>i\<close> that was free gets a new socket; no link is lost and the node can be reached.\<close>

lemma map_rep_put:
  assumes r: "map_rep m f" and fd: "0 \<le> fd" "f fd = None"
    and i: "i < length (nodes m)" "h_fd (nodes m ! i) < 0"
    and len: "length ns' = length (nodes m)"
    and i': "h_fd (ns' ! i) = fd" "h_id (ns' ! i) = x"
    and o: "\<And>j. j < length (nodes m) \<Longrightarrow> j \<noteq> i \<Longrightarrow> h_fd (ns' ! j) = h_fd (nodes m ! j) \<and> h_id (ns' ! j) = h_id (nodes m ! j)"
    and nx: "\<And>j. j < length (nodes m) \<Longrightarrow> h_next (ns' ! j) < map_size m"
    and l: "links (nodes m) \<subseteq> links ns'" and go: "(slot m fd, i) \<in> (links ns')\<^sup>*"
  shows "map_rep (m\<lparr>nodes := ns'\<rparr>) (f(fd \<mapsto> x))" (is "map_rep ?m' ?f'")
proof -
  have ok: "map_ok m" and dom: "dom f \<subseteq> {0..}"
    and reach: "\<And>g. g \<in> dom f \<Longrightarrow> \<exists>j < length (nodes m). (slot m g, j) \<in> (links (nodes m))\<^sup>* \<and> h_fd (nodes m ! j) = g"
    and val: "\<And>j. j < length (nodes m) \<Longrightarrow> 0 \<le> h_fd (nodes m ! j) \<Longrightarrow> f (h_fd (nodes m ! j)) = Some (h_id (nodes m ! j))"
    and uniq: "\<And>i j. i < length (nodes m) \<Longrightarrow> j < length (nodes m) \<Longrightarrow> 0 \<le> h_fd (nodes m ! i) \<Longrightarrow>
      h_fd (nodes m ! i) = h_fd (nodes m ! j) \<Longrightarrow> i = j"
    using r unfolding map_rep_def by blast+
  have new: "h_fd (nodes m ! j) \<noteq> fd" if "j < length (nodes m)" for j using val[OF that] fd by auto
  have sl: "slot ?m' g = slot m g" for g by (simp add: slot_def)
  have "map_ok ?m'" using ok nx len by (simp add: map_ok_def)
  moreover have "dom ?f' \<subseteq> {0..}" using dom fd(1) by auto
  moreover have "\<exists>j < length ns'. (slot m g, j) \<in> (links ns')\<^sup>* \<and> h_fd (ns' ! j) = g" if g: "g \<in> dom ?f'" for g
  proof (cases "g = fd")
    case True
    then show ?thesis using go i i' len by auto
  next
    case False
    then obtain j where j: "j < length (nodes m)" "(slot m g, j) \<in> (links (nodes m))\<^sup>*" "h_fd (nodes m ! j) = g"
      using reach[of g] g by auto
    have "0 \<le> g" using False g dom by auto
    then have "j \<noteq> i" using j(3) i(2) by auto
    then show ?thesis using j o[OF j(1)] len rtrancl_mono[OF l] by auto
  qed
  moreover have "?f' (h_fd (ns' ! j)) = Some (h_id (ns' ! j))" if j: "j < length ns'" "0 \<le> h_fd (ns' ! j)" for j
    using j i' o[of j] val[of j] new[of j] len by (cases "j = i") auto
  moreover have "a = b" if ab: "a < length ns'" "b < length ns'" "0 \<le> h_fd (ns' ! a)" "h_fd (ns' ! a) = h_fd (ns' ! b)" for a b
  proof (cases "a = i"; cases "b = i")
    assume "a = i" "b \<noteq> i"
    then show ?thesis using ab i' o[of b] new[of b] len by simp
  next
    assume "a \<noteq> i" "b = i"
    then show ?thesis using ab i' o[of a] new[of a] len by simp
  next
    assume n: "a \<noteq> i" "b \<noteq> i"
    have "a < length (nodes m)" "b < length (nodes m)" using ab len by simp_all
    moreover from this have "h_fd (ns' ! a) = h_fd (nodes m ! a)" "h_fd (ns' ! b) = h_fd (nodes m ! b)"
      using o n by blast+
    ultimately show ?thesis using uniq ab(3,4) by simp
  qed simp
  ultimately show ?thesis unfolding map_rep_def by (simp add: sl)
qed

lemma links_put: "i < length ns \<Longrightarrow> links (put_node fd x i ns) = links ns"
  by (rule links_same) (auto simp: put_node_def nth_list_update)

lemma insert_cases:
  assumes ok: "map_ok m" and e: "map_insert fd x m = Some (Fine m')"
  obtains (own) k where "k < length (nodes m)" "h_fd (nodes m ! k) < 0" "(slot m fd, k) \<in> (links (nodes m))\<^sup>*"
      "m' = m\<lparr>nodes := put_node fd x k (nodes m)\<rparr>"
  | (chained) k i where "k < length (nodes m)" "\<not> h_fd (nodes m ! k) < 0" "h_next (nodes m ! k) < 0"
      "(slot m fd, k) \<in> (links (nodes m))\<^sup>*" "i < length (nodes m)" "h_fd (nodes m ! i) < 0"
      "m' = m\<lparr>nodes := (put_node fd x i (nodes m))[k := (put_node fd x i (nodes m) ! k)\<lparr>h_next := int i\<rparr>]\<rparr>"
proof -
  obtain k where c: "chain_stop (nodes m) (slot m fd) = Some k"
    using e by (auto simp: map_insert_def split: option.splits)
  have k: "(slot m fd, k) \<in> (links (nodes m))\<^sup>*" "k < length (nodes m)" "h_fd (nodes m ! k) < 0 \<or> h_next (nodes m ! k) < 0"
    using chain_stop_result[OF c] map_ok_closed[OF ok] slot_less[OF ok] by blast+
  show thesis
  proof (cases "h_fd (nodes m ! k) < 0")
    case True
    then show thesis using own[of k] k e c by (simp add: map_insert_def)
  next
    case False
    then obtain i where "first_free (nodes m) = Some i"
        "m' = m\<lparr>nodes := (put_node fd x i (nodes m))[k := (put_node fd x i (nodes m) ! k)\<lparr>h_next := int i\<rparr>]\<rparr>"
      using e c by (auto simp: map_insert_def Let_def split: option.splits)
    then show thesis using chained[of k i] k False first_free_Some by auto
  qed
qed

lemma links_chain:
  assumes "k < length ns" "h_next (ns ! k) < 0" "i < length ns"
  shows "links (ns[k := (ns ! k)\<lparr>h_next := int i\<rparr>]) = insert (k, i) (links ns)"
  using assms by (auto simp: links_def nth_list_update split: if_splits)

lemma map_rep_insert:
  assumes r: "map_rep m f" and fd: "0 \<le> fd" "f fd = None" and e: "map_insert fd x m = Some (Fine m')"
  shows "map_rep m' (f(fd \<mapsto> x))"
proof -
  have ok: "map_ok m" using r by (simp add: map_rep_def)
  show ?thesis
    using ok e
  proof (cases rule: insert_cases)
    case (own k)
    have "map_rep (m\<lparr>nodes := put_node fd x k (nodes m)\<rparr>) (f(fd \<mapsto> x))"
    proof (rule map_rep_put[OF r fd own(1,2)])
      show "links (nodes m) \<subseteq> links (put_node fd x k (nodes m))" "(slot m fd, k) \<in> (links (put_node fd x k (nodes m)))\<^sup>*"
        using own(3) by (simp_all add: links_put[OF own(1)])
      show "h_next (put_node fd x k (nodes m) ! j) < map_size m" if "j < length (nodes m)" for j
        using that ok own(1) by (auto simp: map_ok_def put_node_def nth_list_update)
    qed (use own(1) in \<open>simp_all add: put_node_def\<close>)
    then show ?thesis using own(4) by simp
  next
    case (chained k i)
    let ?p = "put_node fd x i (nodes m)"
    let ?ns = "?p[k := (?p ! k)\<lparr>h_next := int i\<rparr>]"
    have ki: "k \<noteq> i" using chained by auto
    have p: "length ?p = length (nodes m)" "?p ! k = nodes m ! k" using ki by (simp_all add: put_node_def)
    have L: "links ?ns = insert (k, i) (links (nodes m))"
      using links_chain[of k ?p i] links_put[OF chained(5)] chained p by simp
    have "map_rep (m\<lparr>nodes := ?ns\<rparr>) (f(fd \<mapsto> x))"
    proof (rule map_rep_put[OF r fd chained(5,6)])
      show "links (nodes m) \<subseteq> links ?ns" unfolding L by blast
      have "(slot m fd, k) \<in> (links ?ns)\<^sup>*" using chained(4) rtrancl_mono[of "links (nodes m)" "links ?ns"] L by blast
      then show "(slot m fd, i) \<in> (links ?ns)\<^sup>*" unfolding L by (rule rtrancl_into_rtrancl) simp
      show "h_next (?ns ! j) < map_size m" if "j < length (nodes m)" for j
        using that ok chained(5) by (auto simp: map_ok_def put_node_def nth_list_update)
    qed (use chained ki p in \<open>simp_all add: put_node_def nth_list_update\<close>)
    then show ?thesis using chained(7) by simp
  qed
qed

lemma map_rep_erase:
  assumes r: "map_rep m f" and fd: "0 \<le> fd" and e: "map_erase fd m = Some m'"
  shows "map_rep m' (f(fd := None))"
proof -
  have ok: "map_ok m" and dom: "dom f \<subseteq> {0..}"
    and reach: "\<And>g. g \<in> dom f \<Longrightarrow> \<exists>j < length (nodes m). (slot m g, j) \<in> (links (nodes m))\<^sup>* \<and> h_fd (nodes m ! j) = g"
    and val: "\<And>j. j < length (nodes m) \<Longrightarrow> 0 \<le> h_fd (nodes m ! j) \<Longrightarrow> f (h_fd (nodes m ! j)) = Some (h_id (nodes m ! j))"
    and uniq: "\<And>i j. i < length (nodes m) \<Longrightarrow> j < length (nodes m) \<Longrightarrow> 0 \<le> h_fd (nodes m ! i) \<Longrightarrow>
      h_fd (nodes m ! i) = h_fd (nodes m ! j) \<Longrightarrow> i = j"
    using r unfolding map_rep_def by blast+
  obtain ns' where ns: "erase_loop (nodes m) fd (slot m fd) = Some ns'" "m' = m\<lparr>nodes := ns'\<rparr>"
    using e by (auto simp: map_erase_def)
  consider (found) j where "j < length (nodes m)" "h_fd (nodes m ! j) = fd" "ns' = (nodes m)[j := (nodes m ! j)\<lparr>h_fd := -1\<rparr>]"
    | (absent) "ns' = nodes m" "\<forall>j. (slot m fd, j) \<in> (links (nodes m))\<^sup>* \<longrightarrow> h_fd (nodes m ! j) \<noteq> fd"
    using erase_result[OF ns(1)] map_ok_closed[OF ok] slot_less[OF ok] by blast
  then show ?thesis
  proof cases
    case absent
    then have "f fd = None" using reach[of fd] by blast
    then have "f(fd := None) = f" by auto
    then show ?thesis using r ns(2) absent(1) by simp
  next
    case (found j)
    have L: "links ns' = links (nodes m)" using found(1) by (intro links_same) (auto simp: found(3) nth_list_update)
    have h: "h_fd (ns' ! i) = (if i = j then -1 else h_fd (nodes m ! i))" "h_id (ns' ! i) = h_id (nodes m ! i)"
        "h_next (ns' ! i) = h_next (nodes m ! i)" if "i < length (nodes m)" for i
      using that found(1) by (simp_all add: found(3) nth_list_update)
    have len: "length ns' = length (nodes m)" by (simp add: found(3))
    have other: "h_fd (nodes m ! i) \<noteq> fd" if "i < length (nodes m)" "i \<noteq> j" for i
      using uniq[of j i] found(1,2) that fd by auto
    have sl: "slot m' g = slot m g" for g by (simp add: slot_def ns(2))
    have "map_ok m'" using ok h(3) len by (simp add: map_ok_def ns(2))
    moreover have "dom (f(fd := None)) \<subseteq> {0..}" using dom by auto
    moreover have "\<exists>i < length ns'. (slot m g, i) \<in> (links ns')\<^sup>* \<and> h_fd (ns' ! i) = g" if g: "g \<in> dom (f(fd := None))" for g
    proof -
      obtain i where i: "i < length (nodes m)" "(slot m g, i) \<in> (links (nodes m))\<^sup>*" "h_fd (nodes m ! i) = g"
        using reach[of g] g by (auto split: if_splits)
      have "i \<noteq> j" using g i(3) found(2) by (auto split: if_splits)
      then show ?thesis using i h(1) len L by auto
    qed
    moreover have "(f(fd := None)) (h_fd (ns' ! i)) = Some (h_id (ns' ! i))" if "i < length ns'" "0 \<le> h_fd (ns' ! i)" for i
      using that h[of i] val[of i] other[of i] len by (auto split: if_splits)
    moreover have "a = b" if ab: "a < length ns'" "b < length ns'" "0 \<le> h_fd (ns' ! a)" "h_fd (ns' ! a) = h_fd (ns' ! b)" for a b
    proof -
      have n: "a \<noteq> j" "b \<noteq> j" using ab h(1)[of a] h(1)[of b] len by auto
      show ?thesis using uniq[of a b] ab n h(1)[of a] h(1)[of b] len by simp
    qed
    ultimately show ?thesis unfolding map_rep_def by (simp add: sl[unfolded ns(2)] ns(2))
  qed
qed

subsection \<open>Sequences of calls\<close>

datatype map_call = Insert int int | Erase int

fun map_run :: "map_call list \<Rightarrow> HASH_MAP \<Rightarrow> HASH_MAP assertion option" where
  "map_run [] m = Some (Fine m)"
| "map_run (Insert fd x # cs) m = (case map_insert fd x m of
       None \<Rightarrow> None | Some Aborted \<Rightarrow> Some Aborted | Some (Fine m') \<Rightarrow> map_run cs m')"
| "map_run (Erase fd # cs) m = (case map_erase fd m of None \<Rightarrow> None | Some m' \<Rightarrow> map_run cs m')"

text \<open>What the calls mean, and that a socket is inserted only while it is not in the table.\<close>

fun map_spec :: "map_call list \<Rightarrow> (int \<Rightarrow> int option) \<Rightarrow> int \<Rightarrow> int option" where
  "map_spec [] f = f"
| "map_spec (Insert fd x # cs) f = map_spec cs (f(fd \<mapsto> x))"
| "map_spec (Erase fd # cs) f = map_spec cs (f(fd := None))"

fun map_legal :: "map_call list \<Rightarrow> (int \<Rightarrow> int option) \<Rightarrow> bool" where
  "map_legal [] f = True"
| "map_legal (Insert fd x # cs) f = (0 \<le> fd \<and> f fd = None \<and> map_legal cs (f(fd \<mapsto> x)))"
| "map_legal (Erase fd # cs) f = (0 \<le> fd \<and> map_legal cs (f(fd := None)))"

lemma map_run_rep:
  "map_rep m f \<Longrightarrow> map_legal cs f \<Longrightarrow> map_run cs m = Some (Fine m') \<Longrightarrow> map_rep m' (map_spec cs f)"
proof (induction cs f arbitrary: m rule: map_legal.induct)
  case (2 fd x cs f)
  then obtain m1 where "map_insert fd x m = Some (Fine m1)" "map_run cs m1 = Some (Fine m')"
    by (auto split: option.splits assertion.splits)
  moreover have "0 \<le> fd" "f fd = None" "map_legal cs (f(fd \<mapsto> x))" using 2(3) by simp_all
  ultimately show ?case using 2(1)[OF map_rep_insert[OF 2(2)]] by (simp del: fun_upd_apply)
next
  case (3 fd cs f)
  then obtain m1 where "map_erase fd m = Some m1" "map_run cs m1 = Some (Fine m')"
    by (auto split: option.splits)
  moreover have "0 \<le> fd" "map_legal cs (f(fd := None))" using 3(3) by simp_all
  ultimately show ?case using 3(1)[OF map_rep_erase[OF 3(2)]] by (simp del: fun_upd_apply)
qed simp

subsection \<open>Without erasing\<close>

text \<open>As long as nothing was erased a free node has no link, and the links have no cycle.\<close>

definition fresh_table :: "HASH_MAP \<Rightarrow> bool" where
  "fresh_table m \<longleftrightarrow> map_ok m \<and> acyclic (links (nodes m)) \<and>
     (\<forall>k < length (nodes m). h_fd (nodes m ! k) < 0 \<longrightarrow> h_next (nodes m ! k) < 0)"

lemma links_finite: "finite (links ns)"
proof -
  have "links ns \<subseteq> (\<lambda>k. (k, nat (h_next (ns ! k)))) ` {..<length ns}" by (auto simp: links_def)
  then show ?thesis by (rule finite_subset) simp
qed

lemma loops_end:
  assumes f: "fresh_table m"
  shows "k < length (nodes m) \<Longrightarrow> search_loop (nodes m) fd k \<noteq> None \<and> chain_stop (nodes m) k \<noteq> None"
proof (induction k rule: wf_induct_rule[OF finite_acyclic_wf_converse[OF links_finite[of "nodes m"]]])
  case 1
  then show ?case using f by (simp add: fresh_table_def)
next
  case (2 k)
  have c: "closed (nodes m)" using f map_ok_closed by (simp add: fresh_table_def)
  show ?case
  proof (cases "h_next (nodes m ! k) < 0")
    case True
    then show ?thesis by (subst search_loop.simps, subst chain_stop.simps) simp
  next
    case False
    let ?k = "nat (h_next (nodes m ! k))"
    have l: "(k, ?k) \<in> links (nodes m)" using False 2(2) by (auto simp: links_def)
    then have "?k < length (nodes m)" using c by (auto simp: closed_def)
    then have "search_loop (nodes m) fd ?k \<noteq> None \<and> chain_stop (nodes m) ?k \<noteq> None" using 2(1) l by blast
    then show ?thesis by (subst search_loop.simps, subst chain_stop.simps) simp
  qed
qed

text \<open>The nodes in use.\<close>

definition in_use :: "hash_node list \<Rightarrow> nat" where
  "in_use ns = card {k. k < length ns \<and> 0 \<le> h_fd (ns ! k)}"

lemma in_use_put:
  assumes i: "i < length ns" "h_fd (ns ! i) < 0" and len: "length ns' = length ns" and fd: "0 \<le> h_fd (ns' ! i)"
    and o: "\<And>j. j < length ns \<Longrightarrow> j \<noteq> i \<Longrightarrow> h_fd (ns' ! j) = h_fd (ns ! j)"
  shows "in_use ns' = Suc (in_use ns)"
proof -
  have "{k. k < length ns' \<and> 0 \<le> h_fd (ns' ! k)} = insert i {k. k < length ns \<and> 0 \<le> h_fd (ns ! k)}"
    using i len fd o by (auto; metis)
  moreover have "i \<notin> {k. k < length ns \<and> 0 \<le> h_fd (ns ! k)}" using i(2) by simp
  ultimately show ?thesis by (simp add: in_use_def)
qed

lemma insert_fresh:
  assumes f: "fresh_table m" and fd: "0 \<le> fd" and room: "in_use (nodes m) < length (nodes m)"
  obtains m' where "map_insert fd x m = Some (Fine m')" "fresh_table m'" "in_use (nodes m') = Suc (in_use (nodes m))"
    "length (nodes m') = length (nodes m)"
proof -
  have ok: "map_ok m" and ac: "acyclic (links (nodes m))"
    and un: "\<And>k. k < length (nodes m) \<Longrightarrow> h_fd (nodes m ! k) < 0 \<Longrightarrow> h_next (nodes m ! k) < 0"
    using f unfolding fresh_table_def by blast+
  have "first_free (nodes m) \<noteq> None"
  proof
    assume "first_free (nodes m) = None"
    then have "\<forall>k < length (nodes m). 0 \<le> h_fd (nodes m ! k)" by (simp add: first_free_None)
    then have "{k. k < length (nodes m) \<and> 0 \<le> h_fd (nodes m ! k)} = {..<length (nodes m)}" by auto
    then show False using room by (simp add: in_use_def)
  qed
  moreover have "chain_stop (nodes m) (slot m fd) \<noteq> None" using loops_end[OF f] slot_less[OF ok] by blast
  ultimately obtain m' where e: "map_insert fd x m = Some (Fine m')"
    by (fastforce simp: map_insert_def Let_def)
  have "fresh_table m' \<and> in_use (nodes m') = Suc (in_use (nodes m)) \<and> length (nodes m') = length (nodes m)"
    using ok e
  proof (cases rule: insert_cases)
    case (own k)
    have "map_ok m'" using ok own(1) unfolding own(4) by (auto simp: map_ok_def put_node_def nth_list_update)
    moreover have "links (nodes m') = links (nodes m)" using links_put[OF own(1)] own(4) by simp
    moreover have "h_next (nodes m' ! j) < 0" if "j < length (nodes m')" "h_fd (nodes m' ! j) < 0" for j
      using that un[of j] own(1,4) fd by (auto simp: put_node_def nth_list_update split: if_splits)
    moreover have "in_use (nodes m') = Suc (in_use (nodes m))"
      by (rule in_use_put[OF own(1,2)]) (use own(1,4) fd in \<open>simp_all add: put_node_def\<close>)
    ultimately show ?thesis using ac own(4) by (simp add: fresh_table_def put_node_def)
  next
    case (chained k i)
    let ?p = "put_node fd x i (nodes m)"
    let ?ns = "?p[k := (?p ! k)\<lparr>h_next := int i\<rparr>]"
    have ki: "k \<noteq> i" using chained by auto
    have p: "length ?p = length (nodes m)" "?p ! k = nodes m ! k" using ki by (simp_all add: put_node_def)
    have L: "links ?ns = insert (k, i) (links (nodes m))"
      using links_chain[of k ?p i] links_put[OF chained(5)] chained p by simp
    have "(i, k) \<notin> (links (nodes m))\<^sup>*"
      using un[OF chained(5,6)] ki by (auto simp: links_def elim: converse_rtranclE)
    then have "acyclic (links ?ns)" unfolding L using ac by (simp add: acyclic_insert)
    moreover have "map_ok m'" using ok chained(1,5) unfolding chained(7)
      by (auto simp: map_ok_def put_node_def nth_list_update)
    moreover have "h_next (nodes m' ! j) < 0" if j: "j < length (nodes m')" "h_fd (nodes m' ! j) < 0" for j
    proof -
      have "j \<noteq> k" "j \<noteq> i" using j chained(1,2,5,7) ki fd by (auto simp: put_node_def nth_list_update split: if_splits)
      then show ?thesis using j un[of j] chained(7) by (simp add: put_node_def)
    qed
    moreover have "in_use (nodes m') = Suc (in_use (nodes m))"
      by (rule in_use_put[OF chained(5,6)]) (use chained ki p fd in \<open>simp_all add: put_node_def nth_list_update\<close>)
    ultimately show ?thesis using chained(7) p by (simp add: fresh_table_def)
  qed
  then show thesis using that e by blast
qed

fun inserts :: "map_call list \<Rightarrow> bool" where
  "inserts [] = True"
| "inserts (Insert _ _ # cs) = inserts cs"
| "inserts (Erase _ # cs) = False"

lemma map_run_fresh:
  assumes "fresh_table m" "inserts cs" "map_legal cs f" "in_use (nodes m) + length cs \<le> length (nodes m)"
  shows "\<exists>m'. map_run cs m = Some (Fine m') \<and> fresh_table m'"
  using assms
proof (induction cs arbitrary: m f)
  case (Cons c cs)
  obtain fd x where c: "c = Insert fd x" using Cons.prems(2) by (cases c) simp_all
  have room: "in_use (nodes m) < length (nodes m)" "0 \<le> fd" using Cons.prems(3,4) c by simp_all
  from insert_fresh[OF Cons.prems(1) room(2,1)] obtain m' where "map_insert fd x m = Some (Fine m')" "fresh_table m'"
      "in_use (nodes m') = Suc (in_use (nodes m))" "length (nodes m') = length (nodes m)" .
  then show ?case using Cons.IH[of m' "f(fd \<mapsto> x)"] Cons.prems(2-4) c by (simp del: fun_upd_apply)
qed simp

subsection \<open>A cycle\<close>

text \<open>
  Sockets 1 and 5 fall on slot 1, so 5 goes to slot 0 and slot 1 is linked to it.  Socket 1 is closed.
  Socket 4 falls on slot 0, which is taken; the free slot is 1, whose link to slot 0 is still there.
\<close>

definition cyclic_calls :: "map_call list" where
  "cyclic_calls = [Insert 1 0, Insert 5 1, Erase 1, Insert 4 2]"

lemma search_cycle:
  assumes "search_loop ns fd k = Some x"
  shows "k \<in> {0, 1} \<longrightarrow> h_next (ns ! 0) = 1 \<longrightarrow> h_next (ns ! 1) = 0 \<longrightarrow> h_fd (ns ! 0) \<noteq> fd \<longrightarrow> h_fd (ns ! 1) \<noteq> fd \<longrightarrow> False"
proof (rule search_loop.raw_induct[where P = "\<lambda>ns fd k x. k \<in> {0, 1} \<longrightarrow> h_next (ns ! 0) = 1 \<longrightarrow>
    h_next (ns ! 1) = 0 \<longrightarrow> h_fd (ns ! 0) \<noteq> fd \<longrightarrow> h_fd (ns ! 1) \<noteq> fd \<longrightarrow> False", OF _ assms], intro impI)
  fix search :: "hash_node list \<Rightarrow> int \<Rightarrow> nat \<Rightarrow> int option" and ns fd k x
  assume IH: "\<And>ns fd k x. search ns fd k = Some x \<Longrightarrow> k \<in> {0, 1} \<longrightarrow> h_next (ns ! 0) = 1 \<longrightarrow>
      h_next (ns ! 1) = 0 \<longrightarrow> h_fd (ns ! 0) \<noteq> fd \<longrightarrow> h_fd (ns ! 1) \<noteq> fd \<longrightarrow> False"
    and e: "(if h_fd (ns ! k) = fd then Some (h_id (ns ! k)) else if h_next (ns ! k) < 0 then Some (- 1)
      else search ns fd (nat (h_next (ns ! k)))) = Some x"
    and h: "k \<in> {0, 1}" "h_next (ns ! 0) = 1" "h_next (ns ! 1) = 0" "h_fd (ns ! 0) \<noteq> fd" "h_fd (ns ! 1) \<noteq> fd"
  have "search ns fd (nat (h_next (ns ! k))) = Some x" "nat (h_next (ns ! k)) \<in> {0, 1}" using e h by auto
  then show False using IH h by blast
qed

text \<open>
  C31. Whatever sockets are inserted (each while it is absent) and erased, when all these calls have
  returned a search for a present socket returns the number stored with it, and a search for an absent one
  never returns a number.  Without erasures, up to the number of slots, every call and every search
  returns.  With one erasure this fails: after four legal calls the links form a cycle and the search for
  an absent socket does not end.
\<close>

theorem fd_map_correct:
  assumes limit: "0 \<le> limit" "limit < 2 ^ 30" and new: "map_new limit = Some m" and legal: "map_legal cs (\<lambda>_. None)"
  shows "(\<forall>m' fd. map_run cs m = Some (Fine m') \<longrightarrow> 0 \<le> fd \<longrightarrow>
       (case map_spec cs (\<lambda>_. None) fd of Some x \<Rightarrow> map_search m' fd = Some x
        | None \<Rightarrow> map_search m' fd \<in> {None, Some (-1)})) \<and>
    (inserts cs \<longrightarrow> length cs \<le> nat limit \<longrightarrow>
       (\<exists>m'. map_run cs m = Some (Fine m') \<and> (\<forall>fd. map_search m' fd \<noteq> None))) \<and>
    map_legal cyclic_calls (\<lambda>_. None) \<and>
    (limit = 3 \<longrightarrow> (\<exists>m'. map_run cyclic_calls m = Some (Fine m') \<and> map_search m' 8 = None))"
proof -
  obtain m0 where m0: "map_new limit = Some m0" "map_rep m0 (\<lambda>_. None)" "limit < map_size m0" "links (nodes m0) = {}"
    "\<forall>j < length (nodes m0). h_fd (nodes m0 ! j) = -1"
    by (rule map_rep_new[OF limit])
  have m: "map_rep m (\<lambda>_. None)" "limit < map_size m" "links (nodes m) = {}" using m0 new by simp_all
  have 1: "case map_spec cs (\<lambda>_. None) fd of Some x \<Rightarrow> map_search m' fd = Some x
        | None \<Rightarrow> map_search m' fd \<in> {None, Some (-1)}"
    if "map_run cs m = Some (Fine m')" "0 \<le> fd" for m' fd
    using search_rep[OF map_run_rep[OF m(1) legal that(1)]] that(2) by (simp split: option.split)
  have ok: "map_ok m" using m(1) by (simp add: map_rep_def)
  have "h_next (nodes m ! k) < 0" if "k < length (nodes m)" for k
    using m(3) that by (auto simp: links_def not_less[symmetric])
  then have f: "fresh_table m" using ok m(3) by (simp add: fresh_table_def acyclic_def)
  have "in_use (nodes m) = 0" using m0(5) m0(1) new by (simp add: in_use_def)
  moreover have "int (length (nodes m)) = map_size m" using ok by (simp add: map_ok_def)
  then have "nat limit \<le> length (nodes m)" using m(2) by linarith
  ultimately have 2: "\<exists>m'. map_run cs m = Some (Fine m') \<and> (\<forall>fd. map_search m' fd \<noteq> None)"
    if "inserts cs" "length cs \<le> nat limit"
  proof -
    have "in_use (nodes m) + length cs \<le> length (nodes m)"
      using that \<open>in_use (nodes m) = 0\<close> \<open>nat limit \<le> length (nodes m)\<close> by linarith
    from map_run_fresh[OF f that(1) legal this] obtain m' where m': "map_run cs m = Some (Fine m')" "fresh_table m'"
      by blast
    then show ?thesis using loops_end[OF m'(2)] slot_less by (auto simp: map_search_def fresh_table_def)
  qed
  have 3: "map_legal cyclic_calls (\<lambda>_. None)" by (simp add: cyclic_calls_def)
  have 4: "\<exists>m'. map_run cyclic_calls m = Some (Fine m') \<and> map_search m' 8 = None" if l: "limit = 3"
  proof -
    let ?m' = "\<lparr>map_size = 4, nodes = [\<lparr>h_fd = 5, h_id = 1, h_next = 1\<rparr>, \<lparr>h_fd = 4, h_id = 2, h_next = 0\<rparr>,
      \<lparr>h_fd = -1, h_id = 0, h_next = -1\<rparr>, \<lparr>h_fd = -1, h_id = 0, h_next = -1\<rparr>]\<rparr>"
    have "case map_new 3 of None \<Rightarrow> False | Some m \<Rightarrow> map_run cyclic_calls m = Some (Fine ?m')" by code_simp
    then have "map_run cyclic_calls m = Some (Fine ?m')" using new l by simp
    moreover have "map_search ?m' 8 = None"
    proof (cases "map_search ?m' 8")
      case (Some x)
      have "slot ?m' 8 = 0" by (simp add: slot_def)
      then show ?thesis using search_cycle[of "nodes ?m'" 8 0 x] Some by (simp add: map_search_def)
    qed
    ultimately show ?thesis by blast
  qed
  show ?thesis by (intro conjI allI impI 1 2 3 4)
qed

theorem fd_map_correct_witness:
  "map_new 3 = Some \<lparr>map_size = 4, nodes = replicate 4 \<lparr>h_fd = -1, h_id = 0, h_next = -1\<rparr>\<rparr> \<and>
   (\<exists>m'. map_run cyclic_calls \<lparr>map_size = 4, nodes = replicate 4 \<lparr>h_fd = -1, h_id = 0, h_next = -1\<rparr>\<rparr> = Some (Fine m') \<and>
      map_search m' 8 = None)"
proof -
  let ?m = "\<lparr>map_size = 4, nodes = replicate 4 \<lparr>h_fd = -1, h_id = 0, h_next = -1\<rparr>\<rparr>"
  have n: "map_new 3 = Some ?m" by code_simp
  have "map_legal [] (\<lambda>_. None)" by simp
  with n show ?thesis using fd_map_correct[of 3 ?m "[]"] by auto
qed

end
