(* ===== verification/Fsm.thy ===== *)
theory Fsm
  imports Ak_Prelude
begin

text \<open>
  The two programs that print the first word of every input line: the transition table of
  \<open>fsm/fsm.c\<close> and the nested loops of \<open>fsm/tradition.c\<close>.  Standard input is a list of characters,
  end of file is its end; the result is what is printed.
\<close>

subsection \<open>The transition table\<close>

datatype states = before | inside | after

record branch =
  new_state :: states
  should_putchar :: bool

definition the_table :: "states \<Rightarrow> nat \<Rightarrow> branch" where
  "the_table st idx2 =
     (case st of
        before \<Rightarrow> [\<lparr>new_state = before, should_putchar = False\<rparr>, \<lparr>new_state = before, should_putchar = True\<rparr>,
                   \<lparr>new_state = inside, should_putchar = True\<rparr>] ! idx2
      | inside \<Rightarrow> [\<lparr>new_state = after, should_putchar = False\<rparr>, \<lparr>new_state = before, should_putchar = True\<rparr>,
                   \<lparr>new_state = inside, should_putchar = True\<rparr>] ! idx2
      | after \<Rightarrow> [\<lparr>new_state = after, should_putchar = False\<rparr>, \<lparr>new_state = before, should_putchar = True\<rparr>,
                  \<lparr>new_state = after, should_putchar = False\<rparr>] ! idx2)"

definition step :: "states \<Rightarrow> char \<Rightarrow> states \<times> char list" where
  "step st c =
     (let idx2 = (if c = CHR '' '' then 0 else if c = CHR 0x0A then 1 else 2); b = the_table st idx2
      in (new_state b, if should_putchar b then [c] else []))"

fun fsm_run :: "states \<Rightarrow> char list \<Rightarrow> char list" where
  "fsm_run st [] = []"
| "fsm_run st (c # cs) = (case step st c of (st', out) \<Rightarrow> out @ fsm_run st' cs)"

definition fsm_main :: "char list \<Rightarrow> char list" where
  "fsm_main input = fsm_run before input"

subsection \<open>The nested loops\<close>

text \<open>\<open>getchar\<close>: the character read, \<open>None\<close> for \<open>EOF\<close>, and the rest of the input.\<close>

fun getchar :: "char list \<Rightarrow> char option \<times> char list" where
  "getchar [] = (None, [])"
| "getchar (c # cs) = (Some c, cs)"

text \<open>\<open>while (c == ' ') c = getchar ()\<close>\<close>

fun skip_spaces :: "char option \<Rightarrow> char list \<Rightarrow> char option \<times> char list" where
  "skip_spaces c [] = (if c = Some (CHR '' '') then (None, []) else (c, []))"
| "skip_spaces c (d # cs) = (if c = Some (CHR '' '') then skip_spaces (Some d) cs else (c, d # cs))"

text \<open>\<open>while (c != EOF && c != ' ' && c != '\n') { putchar (c); c = getchar (); }\<close>\<close>

fun print_word :: "char option \<Rightarrow> char list \<Rightarrow> char list \<times> char option \<times> char list" where
  "print_word c [] =
     (if c \<noteq> None \<and> c \<noteq> Some (CHR '' '') \<and> c \<noteq> Some (CHR 0x0A) then ([the c], None, []) else ([], c, []))"
| "print_word c (d # cs) =
     (if c \<noteq> None \<and> c \<noteq> Some (CHR '' '') \<and> c \<noteq> Some (CHR 0x0A)
      then (case print_word (Some d) cs of (out, c', cs') \<Rightarrow> (the c # out, c', cs'))
      else ([], c, d # cs))"

text \<open>\<open>while (c != EOF && c != '\n') c = getchar ()\<close>\<close>

fun skip_line :: "char option \<Rightarrow> char list \<Rightarrow> char option \<times> char list" where
  "skip_line c [] = (if c \<noteq> None \<and> c \<noteq> Some (CHR 0x0A) then (None, []) else (c, []))"
| "skip_line c (d # cs) =
     (if c \<noteq> None \<and> c \<noteq> Some (CHR 0x0A) then skip_line (Some d) cs else (c, d # cs))"

lemma skip_spaces_length: "length (snd (skip_spaces c cs)) \<le> length cs"
  by (induction c cs rule: skip_spaces.induct) (auto simp: le_SucI)

lemma print_word_length: "length (snd (snd (print_word c cs))) \<le> length cs"
  by (induction c cs rule: print_word.induct) (auto simp: le_SucI case_prod_beta)

lemma skip_line_length: "length (snd (skip_line c cs)) \<le> length cs"
  by (induction c cs rule: skip_line.induct) (auto simp: le_SucI)

text \<open>One turn of the outer loop: what it prints, the character it ends with, the rest.\<close>

definition tradition_line :: "char list \<Rightarrow> char list \<times> char option \<times> char list" where
  "tradition_line input =
     (case getchar input of (c, cs) \<Rightarrow>
      case skip_spaces c cs of (c, cs) \<Rightarrow>
      case print_word c cs of (out, c, cs) \<Rightarrow>
      case skip_line c cs of (c, cs) \<Rightarrow> (out @ [CHR 0x0A], c, cs))"

lemma skip_spaces_Some: "fst (skip_spaces c cs) \<noteq> None \<Longrightarrow> c \<noteq> None"
  by (induction c cs rule: skip_spaces.induct) (auto split: if_splits)

lemma print_word_Some: "fst (snd (print_word c cs)) \<noteq> None \<Longrightarrow> c \<noteq> None"
  by (induction c cs rule: print_word.induct) (auto split: if_splits prod.splits)

lemma skip_line_Some: "fst (skip_line c cs) \<noteq> None \<Longrightarrow> c \<noteq> None"
  by (induction c cs rule: skip_line.induct) (auto split: if_splits)

lemma tradition_line_shorter:
  assumes "tradition_line input = (out, Some c, cs)"
  shows "length cs < length input"
proof (cases input)
  case Nil
  then show ?thesis using assms by (simp add: tradition_line_def)
next
  case (Cons d ds)
  then show ?thesis
    using assms skip_spaces_length[of "Some d" ds]
      print_word_length[of "fst (skip_spaces (Some d) ds)" "snd (skip_spaces (Some d) ds)"]
      skip_line_length[of "fst (snd (print_word (fst (skip_spaces (Some d) ds)) (snd (skip_spaces (Some d) ds))))"
        "snd (snd (print_word (fst (skip_spaces (Some d) ds)) (snd (skip_spaces (Some d) ds))))"]
    by (simp add: tradition_line_def case_prod_beta)
qed

function tradition_main :: "char list \<Rightarrow> char list" where
  "tradition_main input =
     (case tradition_line input of (out, c, cs) \<Rightarrow>
        out @ (if c \<noteq> None then tradition_main cs else []))"
  by pat_completeness auto
termination
  by (relation "measure length") (auto dest!: tradition_line_shorter[OF sym])

declare tradition_main.simps [simp del]

subsection \<open>The two programs agree\<close>

text \<open>Each loop of the second program in terms of the automaton.\<close>

lemma step_simps:
  "step before c = (if c = CHR '' '' then (before, []) else if c = CHR 0x0A then (before, [c]) else (inside, [c]))"
  "step inside c = (if c = CHR '' '' then (after, []) else if c = CHR 0x0A then (before, [c]) else (inside, [c]))"
  "step after c = (if c = CHR 0x0A then (before, [c]) else (after, []))"
  by (simp_all add: step_def the_table_def)

abbreviation ahead :: "char option \<Rightarrow> char list \<Rightarrow> char list" where
  "ahead c cs \<equiv> (case c of None \<Rightarrow> [] | Some d \<Rightarrow> d # cs)"

lemma skip_spaces_fsm:
  "c \<noteq> None \<or> cs = [] \<Longrightarrow> skip_spaces c cs = (c', cs') \<Longrightarrow>
   fsm_run before (ahead c cs) = fsm_run before (ahead c' cs') \<and> (c' \<noteq> None \<or> cs' = []) \<and> c' \<noteq> Some (CHR '' '')"
  by (induction c cs rule: skip_spaces.induct) (auto simp: step_simps split: if_splits)

lemma print_word_inside:
  "c \<noteq> None \<or> cs = [] \<Longrightarrow> print_word c cs = (out, c', cs') \<Longrightarrow>
   fsm_run inside (ahead c cs) = out @ fsm_run inside (ahead c' cs') \<and> (c' \<noteq> None \<or> cs' = []) \<and>
   (c' = None \<or> c' = Some (CHR '' '') \<or> c' = Some (CHR 0x0A))"
  by (induction c cs arbitrary: out rule: print_word.induct)
    (auto simp: step_simps split: if_splits prod.splits)

lemma skip_line_after:
  "c \<noteq> None \<or> cs = [] \<Longrightarrow> skip_line c cs = (c', cs') \<Longrightarrow>
   fsm_run after (ahead c cs) = fsm_run after (ahead c' cs') \<and> (c' \<noteq> None \<or> cs' = []) \<and>
   (c' = None \<or> c' = Some (CHR 0x0A))"
  by (induction c cs rule: skip_line.induct) (auto simp: step_simps split: if_splits)

lemma tradition_line_fsm:
  assumes "tradition_line input = (out, c, cs)"
  shows "out @ (case c of None \<Rightarrow> [] | Some _ \<Rightarrow> fsm_run before cs) =
    fsm_run before input @ (case c of None \<Rightarrow> [CHR 0x0A] | Some _ \<Rightarrow> [])"
proof -
  obtain c0 s0 where g: "getchar input = (c0, s0)" by force
  obtain c1 s1 where a: "skip_spaces c0 s0 = (c1, s1)" by force
  obtain w c2 s2 where b: "print_word c1 s1 = (w, c2, s2)" by (metis prod_cases3)
  obtain c3 s3 where d: "skip_line c2 s2 = (c3, s3)" by force
  have eq: "out = w @ [CHR 0x0A]" "c = c3" "cs = s3"
    using assms g a b d by (auto simp: tradition_line_def)
  have i0: "c0 \<noteq> None \<or> s0 = []" "input = ahead c0 s0" using g by (cases input; auto)+
  note A = skip_spaces_fsm[OF i0(1) a]
  then have i1: "c1 \<noteq> None \<or> s1 = []" by blast
  note B = print_word_inside[OF i1 b]
  then have i2: "c2 \<noteq> None \<or> s2 = []" by blast
  note D = skip_line_after[OF i2 d]
  have first: "fsm_run before (ahead c1 s1) = fsm_run inside (ahead c1 s1)"
    using A by (auto simp: step_simps split: option.split)
  have rest: "fsm_run inside (ahead c2 s2) = fsm_run after (ahead c2 s2)"
    using B by (auto simp: step_simps split: option.split)
  have last: "fsm_run after (ahead c3 s3) = (case c3 of None \<Rightarrow> [] | Some _ \<Rightarrow> CHR 0x0A # fsm_run before s3)"
    using D by (auto simp: step_simps split: option.split)
  have "fsm_run before input = w @ (case c3 of None \<Rightarrow> [] | Some _ \<Rightarrow> CHR 0x0A # fsm_run before s3)"
    using A B D first rest last i0(2) by simp
  then show ?thesis unfolding eq by (simp split: option.split)
qed

subsection \<open>Properties\<close>

text \<open>
  C16. On every input the nested-loop program terminates and prints what the automaton prints,
  followed by one more newline: the one it prints when it meets the end of the input.
\<close>

theorem tradition_eq_fsm: "tradition_main input = fsm_main input @ [CHR 0x0A]"
proof (induction input rule: tradition_main.induct)
  case (1 input)
  obtain out c cs where l: "tradition_line input = (out, c, cs)" by (metis prod_cases3)
  show ?case
  proof (cases c)
    case None
    then show ?thesis
      using tradition_line_fsm[OF l] l by (simp add: tradition_main.simps[of input] fsm_main_def)
  next
    case (Some d)
    have "tradition_main cs = fsm_main cs @ [CHR 0x0A]"
      using "1.IH"[OF l[symmetric] refl] Some by simp
    then show ?thesis
      using tradition_line_fsm[OF l] l Some by (simp add: tradition_main.simps[of input] fsm_main_def)
  qed
qed

text \<open>The words of the lines: the specification of both programs.\<close>

definition first_word :: "char list \<Rightarrow> char list" where
  "first_word line = takeWhile (\<lambda>c. c \<noteq> CHR '' '') (dropWhile (\<lambda>c. c = CHR '' '') line)"

lemma fsm_line_after: "CHR 0x0A \<notin> set line \<Longrightarrow>
  fsm_run after (line @ CHR 0x0A # rest) = CHR 0x0A # fsm_run before rest"
  by (induction line) (auto simp: step_simps)

lemma fsm_line_inside: "CHR 0x0A \<notin> set line \<Longrightarrow>
  fsm_run inside (line @ CHR 0x0A # rest) =
    takeWhile (\<lambda>c. c \<noteq> CHR '' '') line @ CHR 0x0A # fsm_run before rest"
  by (induction line) (auto simp: step_simps fsm_line_after)

lemma fsm_line_before: "CHR 0x0A \<notin> set line \<Longrightarrow>
  fsm_run before (line @ CHR 0x0A # rest) = first_word line @ CHR 0x0A # fsm_run before rest"
  by (induction line) (auto simp: step_simps first_word_def fsm_line_inside)

text \<open>
  The automaton prints exactly the first word of every line: for any lines without a newline in
  them, each followed by a newline, the output is their first words (leading spaces skipped, up to
  the next space), each followed by a newline.
\<close>

theorem fsm_first_words:
  assumes "\<forall>l \<in> set ls. CHR 0x0A \<notin> set l"
  shows "fsm_main (concat (map (\<lambda>l. l @ [CHR 0x0A]) ls)) = concat (map (\<lambda>l. first_word l @ [CHR 0x0A]) ls)"
  using assms by (induction ls) (auto simp: fsm_main_def fsm_line_before)

theorem fsm_first_words_witness:
  "fsm_main (concat (map (\<lambda>l. l @ [CHR 0x0A]) [''  ab cd'', ''e''])) = ''ab'' @ [CHR 0x0A] @ ''e'' @ [CHR 0x0A]"
  using fsm_first_words[of "[''  ab cd'', ''e'']"] by (simp add: first_word_def)

end
