(* ===== verification/Globalfifo.thy ===== *)
theory Globalfifo
  imports Byte_Fifo
begin

text \<open>
  The FIFO device \<open>globalfifo/globalfifo.c\<close>: an array whose first \<open>current_len\<close> bytes are the
  content; a read moves the rest to the front.  A caller waits at most once (an \<open>if\<close>, not a loop);
  \<open>ev\<close> is how that wait ends.
\<close>

abbreviation GLOBALFIFO_SIZE :: nat where "GLOBALFIFO_SIZE \<equiv> 4096"
abbreviation FIFO_CLEAR :: nat where "FIFO_CLEAR \<equiv> 1"

record globalfifo_dev =
  gf_current_len :: nat
  gf_mem :: "byte list"

definition globalfifo_init :: globalfifo_dev where
  "globalfifo_init = \<lparr>gf_current_len = 0, gf_mem = replicate GLOBALFIFO_SIZE 0\<rparr>"

definition globalfifo_ioctl :: "nat \<Rightarrow> globalfifo_dev \<Rightarrow> globalfifo_dev \<times> int sysret" where
  "globalfifo_ioctl cmd dev =
     (if cmd = FIFO_CLEAR
      then (dev\<lparr>gf_current_len := 0, gf_mem := replicate GLOBALFIFO_SIZE 0\<rparr>, Ret 0)
      else (dev, Err EINVAL))"

text \<open>\<open>poll\<close>: readable, writable.\<close>

definition globalfifo_poll :: "globalfifo_dev \<Rightarrow> bool \<times> bool" where
  "globalfifo_poll dev = (gf_current_len dev \<noteq> 0, gf_current_len dev \<noteq> GLOBALFIFO_SIZE)"

text \<open>
  What stays is moved to the front with \<open>memcpy\<close>.  If it is more than what was read the two ranges overlap,
  and C leaves the result undefined: the destination then holds \<open>moved\<close>, bytes of any value.
\<close>

definition globalfifo_take ::
  "bool \<Rightarrow> byte list \<Rightarrow> globalfifo_dev \<Rightarrow> nat \<Rightarrow> globalfifo_dev \<times> byte list sysret" where
  "globalfifo_take fault moved dev count =
     (let count = (if count > gf_current_len dev then gf_current_len dev else count);
          rest = gf_current_len dev - count in
      if fault then (dev, Err EFAULT)
      else (dev\<lparr>gf_mem := blit (gf_mem dev) 0
                  (if count < rest then take rest moved else region (gf_mem dev) count rest),
                gf_current_len := rest\<rparr>,
            Ret (region (gf_mem dev) 0 count)))"

definition globalfifo_read ::
  "bool \<Rightarrow> globalfifo_dev sched \<Rightarrow> bool \<Rightarrow> byte list \<Rightarrow> globalfifo_dev \<Rightarrow> nat \<Rightarrow> globalfifo_dev \<times> byte list sysret" where
  "globalfifo_read nonblock ev fault moved dev count =
     (if gf_current_len dev = 0
      then (if nonblock then (dev, Err EAGAIN)
            else case ev of
              Sleeps \<Rightarrow> (dev, Asleep)
            | Signalled \<Rightarrow> (dev, Err ERESTARTSYS)
            | Runs dev' \<Rightarrow> globalfifo_take fault moved dev' count)
      else globalfifo_take fault moved dev count)"

definition globalfifo_accept :: "byte ucopy \<Rightarrow> globalfifo_dev \<Rightarrow> byte list \<Rightarrow> globalfifo_dev \<times> nat sysret" where
  "globalfifo_accept uc dev buf =
     (let count = (if length buf > GLOBALFIFO_SIZE - gf_current_len dev
                   then GLOBALFIFO_SIZE - gf_current_len dev else length buf);
          dev1 = dev\<lparr>gf_mem := blit (gf_mem dev) (gf_current_len dev) (copy_in uc (take count buf))\<rparr>
      in if uc \<noteq> Copied then (dev1, Err EFAULT)
         else (dev1\<lparr>gf_current_len := gf_current_len dev + count\<rparr>, Ret count))"

definition globalfifo_write ::
  "bool \<Rightarrow> globalfifo_dev sched \<Rightarrow> byte ucopy \<Rightarrow> globalfifo_dev \<Rightarrow> byte list \<Rightarrow> globalfifo_dev \<times> nat sysret" where
  "globalfifo_write nonblock ev uc dev buf =
     (if gf_current_len dev = GLOBALFIFO_SIZE
      then (if nonblock then (dev, Err EAGAIN)
            else case ev of
              Sleeps \<Rightarrow> (dev, Asleep)
            | Signalled \<Rightarrow> (dev, Err ERESTARTSYS)
            | Runs dev' \<Rightarrow> globalfifo_accept uc dev' buf)
      else globalfifo_accept uc dev buf)"

subsection \<open>The content\<close>

definition globalfifo_wf :: "globalfifo_dev \<Rightarrow> bool" where
  "globalfifo_wf dev \<longleftrightarrow> length (gf_mem dev) = GLOBALFIFO_SIZE \<and> gf_current_len dev \<le> GLOBALFIFO_SIZE"

definition globalfifo_content :: "globalfifo_dev \<Rightarrow> byte list" where
  "globalfifo_content dev = take (gf_current_len dev) (gf_mem dev)"

lemma globalfifo_init_wf: "globalfifo_wf globalfifo_init" "globalfifo_content globalfifo_init = []"
  by (simp_all add: globalfifo_wf_def globalfifo_init_def globalfifo_content_def)

text \<open>The move of a read does what a copy in ascending order does; without an overlap it always does.\<close>

definition moves_right :: "byte list \<Rightarrow> globalfifo_dev \<Rightarrow> nat \<Rightarrow> bool" where
  "moves_right moved dev count \<longleftrightarrow> (let rest = gf_current_len dev - count in
     count < rest \<longrightarrow> take rest moved = region (gf_mem dev) count rest)"

lemma globalfifo_take_effect:
  assumes wf: "globalfifo_wf dev" and R: "globalfifo_take fault moved dev count = (dev', res)"
  shows "globalfifo_wf dev'"
    and "if fault then dev' = dev \<and> res = Err EFAULT
      else res = Ret (take count (globalfifo_content dev)) \<and> gf_current_len dev' = gf_current_len dev - count"
    and "\<not> fault \<Longrightarrow> moves_right moved dev count \<Longrightarrow> globalfifo_content dev' = drop count (globalfifo_content dev)"
proof -
  define c where c: "c = min count (gf_current_len dev)"
  have cc: "(if count > gf_current_len dev then gf_current_len dev else count) = c" by (simp add: c)
  have L: "length (gf_mem dev) = GLOBALFIFO_SIZE" "gf_current_len dev \<le> GLOBALFIFO_SIZE" "c \<le> gf_current_len dev"
    using wf by (simp_all add: globalfifo_wf_def c)
  note R' = R[unfolded globalfifo_take_def Let_def cc]
  let ?rest = "gf_current_len dev - c"
  let ?new = "if c < ?rest then take ?rest moved else region (gf_mem dev) c ?rest"
  have fit: "length ?new \<le> ?rest" using L by simp
  then have bl: "length (blit (gf_mem dev) 0 ?new) = length (gf_mem dev)" using L by simp
  show "globalfifo_wf dev'"
  proof (cases fault)
    case True
    then show ?thesis using R' wf by simp
  next
    case False
    then have "dev' = dev\<lparr>gf_mem := blit (gf_mem dev) 0 ?new, gf_current_len := ?rest\<rparr>" using R' by simp
    then show ?thesis using bl L by (simp add: globalfifo_wf_def)
  qed
  have rest: "?rest = gf_current_len dev - count" by (simp add: c)
  show "if fault then dev' = dev \<and> res = Err EFAULT
      else res = Ret (take count (globalfifo_content dev)) \<and> gf_current_len dev' = gf_current_len dev - count"
    using R' L rest by (auto simp: globalfifo_content_def region_def c min.commute)
  assume f: "\<not> fault" "moves_right moved dev count"
  have "c < ?rest \<Longrightarrow> c = count" by (auto simp: c min_def split: if_splits)
  then have new: "?new = region (gf_mem dev) c ?rest"
    using f(2) rest unfolding moves_right_def Let_def by auto
  have "take ?rest (blit (gf_mem dev) 0 (region (gf_mem dev) c ?rest)) = take ?rest (drop c (gf_mem dev))"
    using L by (simp add: blit_def region_def)
  also have "\<dots> = drop count (take (gf_current_len dev) (gf_mem dev))"
    by (simp add: c drop_take min_def)
  finally show "globalfifo_content dev' = drop count (globalfifo_content dev)"
    using R' f(1) unfolding new by (auto simp: globalfifo_content_def)
qed

lemma globalfifo_accept_effect:
  assumes wf: "globalfifo_wf dev" and R: "globalfifo_accept uc dev buf = (dev', res)"
    and k: "k = min (length buf) (GLOBALFIFO_SIZE - gf_current_len dev)"
  shows "globalfifo_wf dev'"
    and "if uc \<noteq> Copied then res = Err EFAULT \<and> globalfifo_content dev' = globalfifo_content dev
      else res = Ret k \<and> globalfifo_content dev' = globalfifo_content dev @ take k buf"
proof -
  let ?ys = "copy_in uc (take k buf)"
  have kk: "(if length buf > GLOBALFIFO_SIZE - gf_current_len dev
      then GLOBALFIFO_SIZE - gf_current_len dev else length buf) = k" by (simp add: k)
  have L: "length (gf_mem dev) = GLOBALFIFO_SIZE" "gf_current_len dev + k \<le> GLOBALFIFO_SIZE"
    using wf by (auto simp: globalfifo_wf_def k)
  have yl: "length ?ys \<le> k"
    using length_copy_in_le[of uc "take k buf"] by (simp del: length_copy_in_le)
  then have fit: "gf_current_len dev + length ?ys \<le> length (gf_mem dev)" using L by linarith
  note R' = R[unfolded globalfifo_accept_def Let_def kk]
  show "globalfifo_wf dev'"
    using R' L length_blit[OF fit] by (auto simp: globalfifo_wf_def split: if_splits)
  show "if uc \<noteq> Copied then res = Err EFAULT \<and> globalfifo_content dev' = globalfifo_content dev
      else res = Ret k \<and> globalfifo_content dev' = globalfifo_content dev @ take k buf"
    using R' L fit by (auto simp: globalfifo_content_def blit_def k)
qed

subsection \<open>Interleaved calls\<close>

text \<open>
  A call has one section, or two around its wait: the first ends \<open>Asleep\<close>, the second starts behind the test.
\<close>

datatype globalfifo_section =
    GF_read bool bool "byte list" nat
  | GF_woken_read bool "byte list" nat
  | GF_write bool "byte ucopy" "byte list"
  | GF_woken_write "byte ucopy" "byte list"

fun globalfifo_call :: "globalfifo_section \<Rightarrow> globalfifo_dev \<Rightarrow> globalfifo_dev \<times> byte list \<times> byte list" where
  "globalfifo_call (GF_read nonblock fault moved count) dev = read_result (globalfifo_read nonblock Sleeps fault moved dev count)"
| "globalfifo_call (GF_woken_read fault moved count) dev = read_result (globalfifo_take fault moved dev count)"
| "globalfifo_call (GF_write nonblock uc buf) dev = write_result buf (globalfifo_write nonblock Sleeps uc dev buf)"
| "globalfifo_call (GF_woken_write uc buf) dev = write_result buf (globalfifo_accept uc dev buf)"

fun memcpy_moves :: "globalfifo_section \<Rightarrow> globalfifo_dev \<Rightarrow> bool" where
  "memcpy_moves (GF_read nonblock fault moved count) dev = moves_right moved dev count"
| "memcpy_moves (GF_woken_read fault moved count) dev = moves_right moved dev count"
| "memcpy_moves _ dev = True"

lemma length_globalfifo_content:
  "globalfifo_wf dev \<Longrightarrow> length (globalfifo_content dev) = gf_current_len dev"
  by (simp add: globalfifo_wf_def globalfifo_content_def)

lemma take_section:
  assumes wf: "globalfifo_wf dev" and R: "read_result (globalfifo_take fault moved dev n) = (dev', ws, rs)"
  shows "globalfifo_wf dev' \<and> ws = [] \<and> gf_current_len dev = length rs + gf_current_len dev' \<and>
    (moves_right moved dev n \<longrightarrow> globalfifo_content dev = rs @ globalfifo_content dev')"
proof -
  obtain d res where a: "globalfifo_take fault moved dev n = (d, res)" by force
  note E = globalfifo_take_effect[OF wf a] length_globalfifo_content[OF wf]
  show ?thesis
  proof (cases fault)
    case True
    then show ?thesis using R a E wf by auto
  next
    case False
    then have "res = Ret (take n (globalfifo_content dev))" "gf_current_len d = gf_current_len dev - n" using E(2) by auto
    then show ?thesis using R a E(1,3,4) False by auto
  qed
qed

lemma accept_section:
  assumes wf: "globalfifo_wf dev" and R: "write_result buf (globalfifo_accept uc dev buf) = (dev', ws, rs)"
  shows "globalfifo_wf dev' \<and> rs = [] \<and> globalfifo_content dev @ ws = globalfifo_content dev'"
proof -
  obtain d res where a: "globalfifo_accept uc dev buf = (d, res)" by force
  show ?thesis using R a globalfifo_accept_effect[OF wf a refl] by (auto split: if_splits)
qed

lemma globalfifo_call_effect:
  assumes wf: "globalfifo_wf dev" and R: "globalfifo_call c dev = (dev', ws, rs)"
  shows "globalfifo_wf dev' \<and> length (globalfifo_content dev) + length ws = length rs + length (globalfifo_content dev') \<and>
    (memcpy_moves c dev \<longrightarrow> globalfifo_content dev @ ws = rs @ globalfifo_content dev')"
proof (cases c)
  case (GF_read nb fault moved n)
  show ?thesis
  proof (cases "gf_current_len dev = 0")
    case True
    then show ?thesis using R wf by (cases nb) (auto simp: GF_read globalfifo_read_def)
  next
    case False
    then have "read_result (globalfifo_take fault moved dev n) = (dev', ws, rs)" using R by (simp add: GF_read globalfifo_read_def)
    then show ?thesis using take_section[OF wf] length_globalfifo_content[OF wf] length_globalfifo_content[of dev']
      by (auto simp: GF_read)
  qed
next
  case (GF_woken_read fault moved n)
  then show ?thesis using R take_section[OF wf, of fault moved n dev' ws rs] length_globalfifo_content[OF wf] length_globalfifo_content[of dev']
    by auto
next
  case (GF_write nb uc buf)
  show ?thesis
  proof (cases "gf_current_len dev = GLOBALFIFO_SIZE")
    case True
    then show ?thesis using R wf by (cases nb) (auto simp: GF_write globalfifo_write_def)
  next
    case False
    then have "write_result buf (globalfifo_accept uc dev buf) = (dev', ws, rs)" using R by (simp add: GF_write globalfifo_write_def)
    from accept_section[OF wf this] have a: "globalfifo_wf dev'" "rs = []" "globalfifo_content dev @ ws = globalfifo_content dev'" by blast+
    then show ?thesis by (metis append_Nil length_append list.size(3) add_0)
  qed
next
  case (GF_woken_write uc buf)
  then have "write_result buf (globalfifo_accept uc dev buf) = (dev', ws, rs)" using R by simp
  from accept_section[OF wf this] have a: "globalfifo_wf dev'" "rs = []" "globalfifo_content dev @ ws = globalfifo_content dev'" by blast+
  then show ?thesis by (metis append_Nil length_append list.size(3) add_0)
qed

interpretation globalfifo: byte_sections globalfifo_wf globalfifo_content "\<lambda>_. GLOBALFIFO_SIZE" globalfifo_call memcpy_moves
proof (unfold_locales, goal_cases)
  case (1 s c s' ws rs)
  then show ?case using globalfifo_call_effect by blast
next
  case (2 s c s' ws rs)
  then show ?case using globalfifo_call_effect by blast
next
  case (3 s c s' ws rs)
  then show ?case using globalfifo_call_effect by blast
next
  case (4 s)
  then show ?case using length_globalfifo_content[OF 4] by (simp add: globalfifo_wf_def)
qed

subsection \<open>Properties\<close>

text \<open>
  C10. From module load on, whatever sections of blocking and non-blocking reads and writes interleave, with
  failing user copies or not, the FIFO accounts for every byte: what was accepted was delivered or is still stored,
  at most 4096 bytes.  The bytes come in order if each move to the front, where \<open>memcpy\<close> gets overlapping ranges,
  still copies like one in ascending order, which C does not promise.
\<close>

theorem globalfifo_trace:
  assumes "sections_run globalfifo_call globalfifo_init cs = (dev', accepted, delivered)"
  shows "length accepted = length delivered + gf_current_len dev' \<and> gf_current_len dev' \<le> GLOBALFIFO_SIZE \<and>
    (all_along globalfifo_call memcpy_moves globalfifo_init cs \<longrightarrow> delivered = take (length delivered) accepted)"
  using globalfifo.run_from_empty[OF globalfifo_init_wf assms] length_globalfifo_content[of dev'] by auto

theorem globalfifo_trace_witness:
  "\<exists>cs. cs = [GF_write True Copied [1, 2, 3, 4], GF_read False False [] 2, GF_read True False [] 9] \<and>
     snd (snd (sections_run globalfifo_call globalfifo_init cs)) =
     take (length (snd (snd (sections_run globalfifo_call globalfifo_init cs)))) (fst (snd (sections_run globalfifo_call globalfifo_init cs)))"
proof -
  let ?cs = "[GF_write True Copied [1, 2, 3, 4], GF_read False False [] 2, GF_read True False [] 9]"
  have "all_along globalfifo_call memcpy_moves globalfifo_init ?cs"
    by (simp add: globalfifo_init_def globalfifo_write_def globalfifo_accept_def globalfifo_read_def globalfifo_take_def
        moves_right_def Let_def)
  then show ?thesis using globalfifo_trace[OF surjective_triple, of ?cs] by blast
qed

text \<open>A read that takes the smaller part of the FIFO relies on the undefined copy.\<close>

lemma overlapping_move:
  "globalfifo_content (fst (globalfifo_take False [9, 9] \<lparr>gf_current_len = 3, gf_mem = [1, 2, 3]\<rparr> 1)) = [9, 9]"
  by (simp add: globalfifo_take_def globalfifo_content_def blit_def region_def)

text \<open>
  A read delivers the first bytes of the FIFO and a write fills it up, and either waits at most
  once: a caller is served from the state it finds when it is woken, so a reader woken after another
  reader has emptied the FIFO gets 0, the end of file, instead of waiting on, and a writer that finds
  the FIFO full again stores nothing and returns 0.
\<close>

theorem globalfifo_wait_once:
  assumes "globalfifo_wf dev" "globalfifo_wf woken"
  shows "snd (globalfifo_read nb (Runs woken) False moved dev n) =
      (if globalfifo_content dev \<noteq> [] then Ret (take n (globalfifo_content dev))
       else if nb then Err EAGAIN else Ret (take n (globalfifo_content woken))) \<and>
    snd (globalfifo_write nb (Runs woken) Copied dev buf) =
      (if length (globalfifo_content dev) < GLOBALFIFO_SIZE
       then Ret (min (length buf) (GLOBALFIFO_SIZE - length (globalfifo_content dev)))
       else if nb then Err EAGAIN
       else Ret (min (length buf) (GLOBALFIFO_SIZE - length (globalfifo_content woken))))"
proof -
  have L: "length (globalfifo_content dev) = gf_current_len dev"
    "length (globalfifo_content woken) = gf_current_len woken"
    using assms by (simp_all add: length_globalfifo_content)
  have "globalfifo_content dev = [] \<longleftrightarrow> gf_current_len dev = 0" using L(1) by (metis length_0_conv)
  then have "snd (globalfifo_read nb (Runs woken) False moved dev n) =
      (if globalfifo_content dev \<noteq> [] then Ret (take n (globalfifo_content dev))
       else if nb then Err EAGAIN else Ret (take n (globalfifo_content woken)))"
    using globalfifo_take_effect(2)[OF assms(2) surjective_pairing, of False moved n]
      globalfifo_take_effect(2)[OF assms(1) surjective_pairing, of False moved n]
    by (simp add: globalfifo_read_def)
  moreover have "gf_current_len dev \<le> GLOBALFIFO_SIZE" using assms(1) by (simp add: globalfifo_wf_def)
  then have "snd (globalfifo_write nb (Runs woken) Copied dev buf) =
      (if length (globalfifo_content dev) < GLOBALFIFO_SIZE
       then Ret (min (length buf) (GLOBALFIFO_SIZE - length (globalfifo_content dev)))
       else if nb then Err EAGAIN
       else Ret (min (length buf) (GLOBALFIFO_SIZE - length (globalfifo_content woken))))"
    using L globalfifo_accept_effect(2)[OF assms(2) surjective_pairing refl, of Copied buf]
      globalfifo_accept_effect(2)[OF assms(1) surjective_pairing refl, of Copied buf]
    by (auto simp: globalfifo_write_def)
  ultimately show ?thesis by blast
qed

theorem globalfifo_wait_once_witness:
  "snd (globalfifo_read False (Runs globalfifo_init) False [] globalfifo_init 5) = Ret []"
  using globalfifo_wait_once[OF globalfifo_init_wf(1) globalfifo_init_wf(1)]
  by (simp add: globalfifo_init_wf(2))

end
