(* ===== verification/Globalmem.thy ===== *)
theory Globalmem
  imports Byte_Store
begin

text \<open>
  The memory devices \<open>globalmem\<close>, \<open>globalmem_lock\<close> (with a semaphore) and \<open>globalmem_two\<close> (two
  minors), and the constant device \<open>simple/dev/mycdev.c\<close>.  The request size is the \<open>unsigned int\<close> the
  code truncates it to.
\<close>

definition GLOBALMEM_SIZE :: nat where "GLOBALMEM_SIZE = 4096"
abbreviation MEM_CLEAR :: nat where "MEM_CLEAR \<equiv> 1"

record globalmem_dev =
  gm_mem :: "byte list"

definition uint :: "nat \<Rightarrow> nat" where
  "uint n = n mod 4294967296"

subsection \<open>globalmem\<close>

definition globalmem_ioctl :: "nat \<Rightarrow> globalmem_dev \<Rightarrow> globalmem_dev \<times> int sysret" where
  "globalmem_ioctl cmd dev =
     (if cmd = MEM_CLEAR then (dev\<lparr>gm_mem := replicate GLOBALMEM_SIZE 0\<rparr>, Ret 0) else (dev, Err EINVAL))"

definition globalmem_read :: "bool \<Rightarrow> globalmem_dev \<Rightarrow> nat \<Rightarrow> nat \<Rightarrow> nat \<times> byte list sysret" where
  "globalmem_read fault dev sz ppos =
     (let p = ppos; count = uint sz in
      if p \<ge> GLOBALMEM_SIZE then (ppos, Ret [])
      else let count = (if count > GLOBALMEM_SIZE - p then GLOBALMEM_SIZE - p else count) in
        if fault then (ppos, Err EFAULT) else (ppos + count, Ret (region (gm_mem dev) p count)))"

definition globalmem_write ::
  "byte ucopy \<Rightarrow> globalmem_dev \<Rightarrow> byte list \<Rightarrow> nat \<Rightarrow> globalmem_dev \<times> nat \<times> nat sysret" where
  "globalmem_write uc dev buf ppos =
     (let p = ppos; count = uint (length buf) in
      if p \<ge> GLOBALMEM_SIZE then (dev, ppos, Ret 0)
      else
        let count = (if count > GLOBALMEM_SIZE - p then GLOBALMEM_SIZE - p else count);
            dev' = dev\<lparr>gm_mem := blit (gm_mem dev) p (copy_in uc (take count buf))\<rparr>
        in if uc \<noteq> Copied then (dev', ppos, Err EFAULT) else (dev', ppos + count, Ret count))"

text \<open>The absolute offset is compared and stored as an \<open>unsigned int\<close>.\<close>

definition globalmem_llseek :: "int \<Rightarrow> int \<Rightarrow> nat \<Rightarrow> int \<times> int sysret" where
  "globalmem_llseek f_pos offset orig =
     (if orig = 0 then
        if offset < 0 then (f_pos, Err EINVAL)
        else if offset mod 4294967296 > int GLOBALMEM_SIZE then (f_pos, Err EINVAL)
        else (offset mod 4294967296, Ret (offset mod 4294967296))
      else if orig = 1 then
        if s64 (f_pos + offset) > int GLOBALMEM_SIZE then (f_pos, Err EINVAL)
        else if s64 (f_pos + offset) < 0 then (f_pos, Err EINVAL)
        else (s64 (f_pos + offset), Ret (s64 (f_pos + offset)))
      else (f_pos, Err EINVAL))"

subsection \<open>globalmem_lock: the semaphore is taken after the checks\<close>

definition globalmem_lock_ioctl :: "bool \<Rightarrow> nat \<Rightarrow> globalmem_dev \<Rightarrow> globalmem_dev \<times> int sysret" where
  "globalmem_lock_ioctl intr cmd dev =
     (if cmd = MEM_CLEAR
      then (if intr then (dev, Err ERESTARTSYS)
            else (dev\<lparr>gm_mem := replicate GLOBALMEM_SIZE 0\<rparr>, Ret 0))
      else (dev, Err EINVAL))"

definition globalmem_lock_read ::
  "bool \<Rightarrow> bool \<Rightarrow> globalmem_dev \<Rightarrow> nat \<Rightarrow> nat \<Rightarrow> nat \<times> byte list sysret" where
  "globalmem_lock_read intr fault dev sz ppos =
     (let p = ppos; count = uint sz in
      if p \<ge> GLOBALMEM_SIZE then (ppos, if count \<noteq> 0 then Err ENXIO else Ret [])
      else let count = (if count > GLOBALMEM_SIZE - p then GLOBALMEM_SIZE - p else count) in
        if intr then (ppos, Err ERESTARTSYS)
        else if fault then (ppos, Err EFAULT)
        else (ppos + count, Ret (region (gm_mem dev) p count)))"

definition globalmem_lock_write ::
  "bool \<Rightarrow> byte ucopy \<Rightarrow> globalmem_dev \<Rightarrow> byte list \<Rightarrow> nat \<Rightarrow> globalmem_dev \<times> nat \<times> nat sysret" where
  "globalmem_lock_write intr uc dev buf ppos =
     (let p = ppos; count = uint (length buf) in
      if p \<ge> GLOBALMEM_SIZE then (dev, ppos, if count \<noteq> 0 then Err ENXIO else Ret 0)
      else let count = (if count > GLOBALMEM_SIZE - p then GLOBALMEM_SIZE - p else count) in
        if intr then (dev, ppos, Err ERESTARTSYS)
        else
          let dev' = dev\<lparr>gm_mem := blit (gm_mem dev) p (copy_in uc (take count buf))\<rparr>
          in if uc \<noteq> Copied then (dev', ppos, Err EFAULT) else (dev', ppos + count, Ret count))"

subsection \<open>globalmem_two: the file's inode selects the device\<close>

type_synonym globalmem_two = "globalmem_dev \<times> globalmem_dev"

definition globalmem_two_open :: "globalmem_two \<Rightarrow> bool \<Rightarrow> globalmem_dev" where
  "globalmem_two_open devs minor1 = (if minor1 then snd devs else fst devs)"

definition globalmem_two_read ::
  "bool \<Rightarrow> globalmem_two \<Rightarrow> bool \<Rightarrow> nat \<Rightarrow> nat \<Rightarrow> nat \<times> byte list sysret" where
  "globalmem_two_read fault devs minor1 sz ppos =
     (let dev = globalmem_two_open devs minor1; p = ppos; count = uint sz in
      if p \<ge> GLOBALMEM_SIZE then (ppos, if count \<noteq> 0 then Err ENXIO else Ret [])
      else let count = (if count > GLOBALMEM_SIZE - p then GLOBALMEM_SIZE - p else count) in
        if fault then (ppos, Err EFAULT) else (ppos + count, Ret (region (gm_mem dev) p count)))"

definition globalmem_two_write ::
  "byte ucopy \<Rightarrow> globalmem_two \<Rightarrow> bool \<Rightarrow> byte list \<Rightarrow> nat \<Rightarrow> globalmem_two \<times> nat \<times> nat sysret" where
  "globalmem_two_write uc devs minor1 buf ppos =
     (let dev = globalmem_two_open devs minor1; p = ppos; count = uint (length buf) in
      if p \<ge> GLOBALMEM_SIZE then (devs, ppos, if count \<noteq> 0 then Err ENXIO else Ret 0)
      else
        let count = (if count > GLOBALMEM_SIZE - p then GLOBALMEM_SIZE - p else count);
            dev' = dev\<lparr>gm_mem := blit (gm_mem dev) p (copy_in uc (take count buf))\<rparr>;
            devs' = (if minor1 then (fst devs, dev') else (dev', snd devs))
        in if uc \<noteq> Copied then (devs', ppos, Err EFAULT) else (devs', ppos + count, Ret count))"

definition globalmem_two_ioctl :: "nat \<Rightarrow> globalmem_two \<Rightarrow> bool \<Rightarrow> globalmem_two \<times> int sysret" where
  "globalmem_two_ioctl cmd devs minor1 =
     (if cmd = MEM_CLEAR
      then (let dev' = (globalmem_two_open devs minor1)\<lparr>gm_mem := replicate GLOBALMEM_SIZE 0\<rparr>
            in (if minor1 then (fst devs, dev') else (dev', snd devs), Ret 0))
      else (devs, Err EINVAL))"

subsection \<open>mycdev\<close>

abbreviation MYCDEV_SIZE :: nat where "MYCDEV_SIZE \<equiv> 100"

definition mycdev_buf :: "byte list" where
  "mycdev_buf = [84, 104, 105, 115, 32, 105, 115, 32, 109, 121, 99, 100, 101, 118, 33] @ replicate 85 0"

text \<open>The position is checked but neither used as the source offset nor advanced.\<close>

definition mycdev_read :: "bool \<Rightarrow> nat \<Rightarrow> nat \<Rightarrow> nat \<times> byte list sysret" where
  "mycdev_read fault sz pos =
     (let p = pos; count = uint sz in
      if p \<ge> MYCDEV_SIZE then (pos, Err EPERM)
      else let count = (if count > MYCDEV_SIZE then MYCDEV_SIZE - p else count) in
        if fault then (pos, Err EPERM) else (pos, Ret (region mycdev_buf 0 count)))"

definition mycdev_write :: "byte list \<Rightarrow> nat \<Rightarrow> nat \<times> nat sysret" where
  "mycdev_write buf pos = (pos, Ret (length buf))"

subsection \<open>The memory devices as byte stores\<close>

definition globalmem_wf :: "globalmem_dev \<Rightarrow> bool" where
  "globalmem_wf dev \<longleftrightarrow> length (gm_mem dev) = GLOBALMEM_SIZE"

definition globalmem_peek :: "globalmem_dev \<Rightarrow> nat \<Rightarrow> byte option" where
  "globalmem_peek dev i = (if i < GLOBALMEM_SIZE then Some (gm_mem dev ! i) else None)"

definition globalmem_pwrite :: "globalmem_dev \<Rightarrow> nat \<Rightarrow> byte list \<Rightarrow> globalmem_dev \<times> nat" where
  "globalmem_pwrite dev p buf = (case globalmem_write Copied dev (take GLOBALMEM_SIZE buf) p of
     (dev', _, Ret k) \<Rightarrow> (dev', k) | (dev', _, _) \<Rightarrow> (dev', 0))"

definition globalmem_pread :: "globalmem_dev \<Rightarrow> nat \<Rightarrow> nat \<Rightarrow> byte option list" where
  "globalmem_pread dev p n = (case globalmem_read False dev (min n GLOBALMEM_SIZE) p of
     (_, Ret xs) \<Rightarrow> map Some xs | _ \<Rightarrow> [])"

lemma uint_small: "n \<le> GLOBALMEM_SIZE \<Longrightarrow> uint n = n"
  by (simp add: uint_def GLOBALMEM_SIZE_def)

lemma GLOBALMEM_SIZE_pos: "0 < GLOBALMEM_SIZE"
  by (simp add: GLOBALMEM_SIZE_def)

lemma clip_eq: "(if c > GLOBALMEM_SIZE - p then GLOBALMEM_SIZE - p else c) = min c (GLOBALMEM_SIZE - p)"
  by simp

lemma globalmem_write_eq:
  assumes "length buf \<le> GLOBALMEM_SIZE" "p < GLOBALMEM_SIZE" "k = min (length buf) (GLOBALMEM_SIZE - p)"
  shows "globalmem_write Copied dev buf p =
    (dev\<lparr>gm_mem := blit (gm_mem dev) p (take k buf)\<rparr>, p + k, Ret k)"
  using assms unfolding globalmem_write_def Let_def clip_eq uint_small[OF assms(1)] assms(3)[symmetric] by simp

lemma globalmem_lock_write_eq:
  assumes "length buf \<le> GLOBALMEM_SIZE" "p < GLOBALMEM_SIZE"
  shows "globalmem_lock_write False uc dev buf p = globalmem_write uc dev buf p"
  using assms by (simp add: globalmem_write_def globalmem_lock_write_def Let_def)

lemma globalmem_mem_peek:
  assumes "globalmem_wf dev" "p + length xs \<le> GLOBALMEM_SIZE"
  shows "globalmem_wf (dev\<lparr>gm_mem := blit (gm_mem dev) p xs\<rparr>)"
    "globalmem_peek (dev\<lparr>gm_mem := blit (gm_mem dev) p xs\<rparr>) i =
      (if p \<le> i \<and> i < p + length xs then Some (xs ! (i - p)) else globalmem_peek dev i)"
  using assms nth_blit[of p xs "gm_mem dev" i] by (auto simp: globalmem_wf_def globalmem_peek_def)

lemma globalmem_pwrite_spec:
  assumes "globalmem_wf dev" "p < GLOBALMEM_SIZE" "globalmem_pwrite dev p buf = (dev', k)"
  shows "k = min (length buf) (GLOBALMEM_SIZE - p)" "globalmem_wf dev'"
    "globalmem_peek dev' i = (if p \<le> i \<and> i < p + k then Some (buf ! (i - p)) else globalmem_peek dev i)"
proof -
  let ?b = "take GLOBALMEM_SIZE buf" and ?k = "min (length buf) (GLOBALMEM_SIZE - p)"
  have k': "?k = min (length ?b) (GLOBALMEM_SIZE - p)" by auto
  have tk: "take ?k ?b = take ?k buf" "length (take ?k buf) = ?k" by auto
  have "globalmem_write Copied dev ?b p = (dev\<lparr>gm_mem := blit (gm_mem dev) p (take ?k buf)\<rparr>, p + ?k, Ret ?k)"
    using globalmem_write_eq[OF _ assms(2) k', of dev] unfolding tk(1) by simp
  then have e: "k = ?k" "dev' = dev\<lparr>gm_mem := blit (gm_mem dev) p (take ?k buf)\<rparr>"
    using assms(3) by (auto simp: globalmem_pwrite_def)
  have fit: "p + length (take ?k buf) \<le> GLOBALMEM_SIZE" using assms(2) tk(2) by linarith
  show "k = ?k" by (rule e(1))
  show "globalmem_wf dev'" unfolding e(2) by (rule globalmem_mem_peek(1)[OF assms(1) fit])
  show "globalmem_peek dev' i = (if p \<le> i \<and> i < p + k then Some (buf ! (i - p)) else globalmem_peek dev i)"
    unfolding e(2) globalmem_mem_peek(2)[OF assms(1) fit] tk(2) e(1)
  proof (cases "p \<le> i \<and> i < p + ?k")
    case True
    then have "i - p < ?k" by linarith
    then have "take ?k buf ! (i - p) = buf ! (i - p)" by (rule nth_take)
    with True show "(if p \<le> i \<and> i < p + ?k then Some (take ?k buf ! (i - p)) else globalmem_peek dev i) =
      (if p \<le> i \<and> i < p + ?k then Some (buf ! (i - p)) else globalmem_peek dev i)" by simp
  qed auto
qed

lemma globalmem_pread_spec:
  assumes "globalmem_wf dev" "p < GLOBALMEM_SIZE"
  shows "globalmem_pread dev p n = map (globalmem_peek dev) [p..<p + min n (GLOBALMEM_SIZE - p)]"
proof -
  let ?k = "min n (GLOBALMEM_SIZE - p)"
  have u: "uint (min n GLOBALMEM_SIZE) = min n GLOBALMEM_SIZE" by (rule uint_small) simp
  have m: "min (min n GLOBALMEM_SIZE) (GLOBALMEM_SIZE - p) = ?k" by auto
  have "globalmem_read False dev (min n GLOBALMEM_SIZE) p = (p + ?k, Ret (region (gm_mem dev) p ?k))"
    unfolding globalmem_read_def Let_def clip_eq u m using assms(2) by simp
  then have r: "globalmem_pread dev p n = map Some (region (gm_mem dev) p ?k)"
    by (simp add: globalmem_pread_def)
  show ?thesis unfolding r
    using assms by (intro nth_equalityI) (auto simp: globalmem_wf_def globalmem_peek_def nth_region)
qed

interpretation globalmem: byte_store globalmem_wf "\<lambda>_. GLOBALMEM_SIZE" globalmem_peek
  globalmem_pwrite globalmem_pread
proof (unfold_locales, goal_cases)
  case (1 s p xs s' k)
  then show ?case using globalmem_pwrite_spec(2)[OF 1] by simp
next
  case (2 s p xs s' k)
  then show ?case using globalmem_pwrite_spec(1)[OF 2] by simp
next
  case (3 s p xs s' k)
  then show ?case using globalmem_pwrite_spec(1)[OF 3(1,2,4)] by simp
next
  case (4 s p xs s' k i)
  then show ?case by (rule globalmem_pwrite_spec(3))
next
  case (5 s p n)
  then show ?case using globalmem_pread_spec[OF 5] by simp
next
  case (6 s p j n)
  then show ?case using globalmem_pread_spec[OF 6(1,2), of n] by simp
next
  case (7 s p n)
  then show ?case using globalmem_pread_spec[OF 7(1,2), of n] by simp
next
  case (8 s p)
  then show ?case by (simp add: globalmem_peek_def split: if_splits)
qed

subsection \<open>Properties\<close>

lemma globalmem_zero_wf: "globalmem_wf \<lparr>gm_mem = replicate GLOBALMEM_SIZE 0\<rparr>"
  by (simp add: globalmem_wf_def)

text \<open>
  What is written to the 4 KB memory with the short-write loop, at any position that leaves room
  for it, is what the short-read loop returns, and reading any other region returns what it did before.
\<close>

theorem globalmem_roundtrip:
  assumes "globalmem_wf dev" "p + length xs \<le> GLOBALMEM_SIZE"
    and "write_all globalmem_pwrite dev p xs = (dev', m)"
  shows "m = length xs \<and> read_all globalmem_pread dev' p (length xs) = map Some xs \<and>
    (\<forall>q n. (q + n \<le> p \<or> p + length xs \<le> q) \<and> q + n \<le> GLOBALMEM_SIZE \<longrightarrow>
      read_all globalmem_pread dev' q n = read_all globalmem_pread dev q n)"
  using globalmem.write_all_spec[OF assms] globalmem.write_read_roundtrip[OF assms]
    globalmem.write_other_region[OF assms]
  by (simp add: globalmem_peek_def)

theorem globalmem_roundtrip_witness:
  "read_all globalmem_pread (fst (write_all globalmem_pwrite \<lparr>gm_mem = replicate GLOBALMEM_SIZE 0\<rparr> 9 [1, 2]))
     9 (length [1 :: byte, 2]) = map Some [1, 2]"
  using globalmem_roundtrip[OF globalmem_zero_wf _ surjective_pairing, of 9 "[1, 2]"]
  by (simp add: GLOBALMEM_SIZE_def)

text \<open>
  The three drivers agree: with the semaphore obtained the locking driver, and on either minor the
  two-device driver, read and write exactly like the plain one at every position inside the memory
  (past the end they report \<open>ENXIO\<close> where the plain driver returns 0); and a write to one of the two
  devices never changes the other.
\<close>

theorem globalmem_variants:
  shows "(p < GLOBALMEM_SIZE \<longrightarrow>
      globalmem_lock_read False fault dev n p = globalmem_read fault dev n p \<and>
      globalmem_lock_write False uc dev buf p = globalmem_write uc dev buf p \<and>
      globalmem_two_read fault devs i n p = globalmem_read fault (globalmem_two_open devs i) n p \<and>
      (case globalmem_two_write uc devs i buf p of (devs', p', r) \<Rightarrow>
         globalmem_write uc (globalmem_two_open devs i) buf p = (globalmem_two_open devs' i, p', r))) \<and>
    (GLOBALMEM_SIZE \<le> p \<and> uint n \<noteq> 0 \<longrightarrow>
      snd (globalmem_read fault dev n p) = Ret [] \<and>
      snd (globalmem_lock_read intr fault dev n p) = Err ENXIO \<and>
      snd (globalmem_two_read fault devs i n p) = Err ENXIO) \<and>
    globalmem_two_open (fst (globalmem_two_write uc devs i buf p)) (\<not> i) = globalmem_two_open devs (\<not> i)"
  by (auto simp: globalmem_read_def globalmem_lock_read_def globalmem_two_read_def globalmem_write_def
      globalmem_lock_write_def globalmem_two_write_def globalmem_two_open_def Let_def split: prod.splits)

theorem globalmem_variants_witness:
  "globalmem_lock_read False False \<lparr>gm_mem = [1, 2, 3]\<rparr> 2 1 = globalmem_read False \<lparr>gm_mem = [1, 2, 3]\<rparr> 2 1"
  using globalmem_variants[where p = 1 and fault = False and dev = "\<lparr>gm_mem = [1, 2, 3]\<rparr>" and n = 2]
  by (simp add: GLOBALMEM_SIZE_def)

text \<open>
  An accepted seek always leaves the position within the memory, but an absolute offset is cut
  to 32 bits first, so a seek far past the end can succeed at another position.
\<close>

theorem globalmem_seek_bounds:
  assumes "globalmem_llseek f_pos offset orig = (f_pos', Ret r)"
  shows "f_pos' = r \<and> 0 \<le> r \<and> r \<le> int GLOBALMEM_SIZE \<and>
    (orig = 0 \<longrightarrow> r = offset mod 4294967296) \<and>
    globalmem_llseek f_pos (4294967296 + 5) 0 = (5, Ret 5)"
  using assms
  by (auto simp: globalmem_llseek_def GLOBALMEM_SIZE_def split: if_splits)

theorem globalmem_seek_bounds_witness:
  "fst (globalmem_llseek 0 (4294967296 + 5) 0) = 5"
  using globalmem_seek_bounds[of 0 17 0 17 17]
  by (simp add: globalmem_llseek_def GLOBALMEM_SIZE_def)

end
