(* ===== verification/Hash_Set.thy ===== *)
theory Hash_Set
  imports Ak_Prelude "HOL-Library.Multiset"
begin

text \<open>
  The hash sets of \<open>acm-lib/hash_set\<close>: the two collision policies, open addressing and overflow chains,
  and the class that works through either.  What both promise is the locale \<open>bag_table\<close>; the hash
  function is an argument, and \<open>None\<close> is an access outside the table.
\<close>

subsection \<open>Open addressing\<close>

record 'k open_address =
  oa_data :: "'k list"
  oa_usage :: "bool list"
  oa_size :: nat

definition oa_Clear :: "'k open_address \<Rightarrow> 'k open_address" where
  "oa_Clear s = s\<lparr>oa_usage := fold (\<lambda>i u. u[i := False]) [0..<oa_size s] (oa_usage s)\<rparr>"

text \<open>\<open>new\<close> does not initialise: the argument says what the arrays hold.\<close>

definition oa_Init :: "(nat \<Rightarrow> 'k \<times> bool) \<Rightarrow> nat \<Rightarrow> 'k open_address" where
  "oa_Init junk n =
     oa_Clear \<lparr>oa_data = map (fst \<circ> junk) [0..<n], oa_usage = map (snd \<circ> junk) [0..<n], oa_size = n\<rparr>"

definition oa_Count :: "'k open_address \<Rightarrow> nat" where
  "oa_Count s = fold (\<lambda>i c. if oa_usage s ! i then c + 1 else c) [0..<oa_size s] 0"

definition oa_store :: "'k open_address \<Rightarrow> 'k \<Rightarrow> nat \<Rightarrow> 'k open_address" where
  "oa_store s k i = s\<lparr>oa_usage := (oa_usage s)[i := True], oa_data := (oa_data s)[i := k]\<rparr>"

definition oa_Insert :: "('k \<Rightarrow> int) \<Rightarrow> 'k open_address \<Rightarrow> 'k \<Rightarrow> ('k open_address \<times> bool) option" where
  "oa_Insert f s k =
     (if f k < 0 \<or> int (oa_size s) \<le> f k then None
      else let pos = nat (f k) in
        if oa_usage s ! pos then
          (case List.find (\<lambda>i. \<not> oa_usage s ! i) [pos + 1..<oa_size s] of
             Some i \<Rightarrow> Some (oa_store s k i, True)
           | None \<Rightarrow>
             (case List.find (\<lambda>i. \<not> oa_usage s ! i) [0..<pos] of
                Some i \<Rightarrow> Some (oa_store s k i, True)
              | None \<Rightarrow> Some (s, False)))
        else Some (oa_store s k pos, True))"

text \<open>A loop of the search: it stops at the key or at an unused cell.\<close>

fun oa_scan :: "'k open_address \<Rightarrow> 'k \<Rightarrow> nat list \<Rightarrow> bool option" where
  "oa_scan s k [] = None"
| "oa_scan s k (i # is) =
     (if oa_usage s ! i then if oa_data s ! i = k then Some True else oa_scan s k is else Some False)"

definition oa_Lookup :: "('k \<Rightarrow> int) \<Rightarrow> 'k open_address \<Rightarrow> 'k \<Rightarrow> bool option" where
  "oa_Lookup f s k =
     (if f k < 0 \<or> int (oa_size s) \<le> f k then None
      else let pos = nat (f k) in
        Some (if oa_usage s ! pos then
                if oa_data s ! pos = k then True
                else (case oa_scan s k [pos + 1..<oa_size s] of
                        Some b \<Rightarrow> b
                      | None \<Rightarrow> (case oa_scan s k [0..<pos] of Some b \<Rightarrow> b | None \<Rightarrow> False))
              else False))"

subsection \<open>Overflow chains\<close>

type_synonym 'k overflow_chain = "(bool \<times> 'k list) list"

definition oc_Init :: "nat \<Rightarrow> 'k overflow_chain" where
  "oc_Init n = replicate n (False, [])"

text \<open>\<open>DestroyAllNode\<close>, which is all that \<open>Clear\<close> does.\<close>

definition oc_Clear :: "'k overflow_chain \<Rightarrow> 'k overflow_chain" where
  "oc_Clear s = map (\<lambda>(use, l). if use \<and> l \<noteq> [] then (False, []) else (use, l)) s"

definition oc_Count :: "'k overflow_chain \<Rightarrow> nat" where
  "oc_Count s = fold (\<lambda>(use, l) c. if use then c + length l else c) s 0"

definition oc_Insert :: "('k \<Rightarrow> int) \<Rightarrow> 'k overflow_chain \<Rightarrow> 'k \<Rightarrow> ('k overflow_chain \<times> bool) option" where
  "oc_Insert f s k =
     (if f k < 0 \<or> int (length s) \<le> f k then None
      else let pos = nat (f k) in
        Some (if fst (s ! pos) then s[pos := (True, k # snd (s ! pos))] else s[pos := (True, [k])], True))"

fun oc_walk :: "'k \<Rightarrow> 'k list \<Rightarrow> bool" where
  "oc_walk k [] = False"
| "oc_walk k (x # l) = (if x = k then True else oc_walk k l)"

definition oc_Lookup :: "('k \<Rightarrow> int) \<Rightarrow> 'k overflow_chain \<Rightarrow> 'k \<Rightarrow> bool option" where
  "oc_Lookup f s k =
     (if f k < 0 \<or> int (length s) \<le> f k then None
      else let pos = nat (f k) in Some (if fst (s ! pos) then oc_walk k (snd (s ! pos)) else False))"

subsection \<open>The set over a policy\<close>

datatype 'k hash_set = Open_Address "'k open_address" | Overflow_Chain "'k overflow_chain"

definition Hash_Set :: "bool \<Rightarrow> (nat \<Rightarrow> 'k \<times> bool) \<Rightarrow> nat \<Rightarrow> 'k hash_set" where
  "Hash_Set chained junk n = (if chained then Overflow_Chain (oc_Init n) else Open_Address (oa_Init junk n))"

fun hs_Count :: "'k hash_set \<Rightarrow> nat" where
  "hs_Count (Open_Address s) = oa_Count s"
| "hs_Count (Overflow_Chain s) = oc_Count s"

fun hs_Clear :: "'k hash_set \<Rightarrow> 'k hash_set" where
  "hs_Clear (Open_Address s) = Open_Address (oa_Clear s)"
| "hs_Clear (Overflow_Chain s) = Overflow_Chain (oc_Clear s)"

fun hs_Insert :: "('k \<Rightarrow> int) \<Rightarrow> 'k hash_set \<Rightarrow> 'k \<Rightarrow> ('k hash_set \<times> bool) option" where
  "hs_Insert f (Open_Address s) k = map_option (\<lambda>(t, b). (Open_Address t, b)) (oa_Insert f s k)"
| "hs_Insert f (Overflow_Chain s) k = map_option (\<lambda>(t, b). (Overflow_Chain t, b)) (oc_Insert f s k)"

fun hs_Lookup :: "('k \<Rightarrow> int) \<Rightarrow> 'k hash_set \<Rightarrow> 'k \<Rightarrow> bool option" where
  "hs_Lookup f (Open_Address s) k = oa_Lookup f s k"
| "hs_Lookup f (Overflow_Chain s) k = oc_Lookup f s k"

subsection \<open>What a table promises\<close>

datatype 'k table_op = Insert_op 'k | Lookup_op 'k | Count_op | Clear_op

datatype answer = Flag bool | Number nat | Done

fun op_key :: "'k table_op \<Rightarrow> 'k set" where
  "op_key (Insert_op k) = {k}"
| "op_key (Lookup_op k) = {k}"
| "op_key Count_op = {}"
| "op_key Clear_op = {}"

text \<open>The abstract table: a multiset of keys with or without a capacity.\<close>

definition has_room :: "nat option \<Rightarrow> 'k multiset \<Rightarrow> bool" where
  "has_room cap m = (case cap of None \<Rightarrow> True | Some n \<Rightarrow> size m < n)"

fun bag_run :: "nat option \<Rightarrow> 'k multiset \<Rightarrow> 'k table_op list \<Rightarrow> answer list" where
  "bag_run cap m [] = []"
| "bag_run cap m (Insert_op k # ops) =
     Flag (has_room cap m) # bag_run cap (if has_room cap m then add_mset k m else m) ops"
| "bag_run cap m (Lookup_op k # ops) = Flag (k \<in># m) # bag_run cap m ops"
| "bag_run cap m (Count_op # ops) = Number (size m) # bag_run cap m ops"
| "bag_run cap m (Clear_op # ops) = Done # bag_run cap {#} ops"

text \<open>A concrete table, given by its operations.\<close>

fun table_run ::
  "('s \<Rightarrow> 'k \<Rightarrow> ('s \<times> bool) option) \<Rightarrow> ('s \<Rightarrow> 'k \<Rightarrow> bool option) \<Rightarrow> ('s \<Rightarrow> nat) \<Rightarrow> ('s \<Rightarrow> 's) \<Rightarrow>
   's \<Rightarrow> 'k table_op list \<Rightarrow> answer list option" where
  "table_run ins look cnt clr s [] = Some []"
| "table_run ins look cnt clr s (Insert_op k # ops) =
     (case ins s k of None \<Rightarrow> None
      | Some (s', b) \<Rightarrow> map_option ((#) (Flag b)) (table_run ins look cnt clr s' ops))"
| "table_run ins look cnt clr s (Lookup_op k # ops) =
     (case look s k of None \<Rightarrow> None
      | Some b \<Rightarrow> map_option ((#) (Flag b)) (table_run ins look cnt clr s ops))"
| "table_run ins look cnt clr s (Count_op # ops) =
     map_option ((#) (Number (cnt s))) (table_run ins look cnt clr s ops)"
| "table_run ins look cnt clr s (Clear_op # ops) = map_option ((#) Done) (table_run ins look cnt clr (clr s) ops)"

locale bag_table =
  fixes valid :: "'s \<Rightarrow> 'k \<Rightarrow> bool"
    and wf :: "'s \<Rightarrow> bool"
    and cap :: "'s \<Rightarrow> nat option"
    and items :: "'s \<Rightarrow> 'k multiset"
    and ins :: "'s \<Rightarrow> 'k \<Rightarrow> ('s \<times> bool) option"
    and look :: "'s \<Rightarrow> 'k \<Rightarrow> bool option"
    and cnt :: "'s \<Rightarrow> nat"
    and clr :: "'s \<Rightarrow> 's"
  assumes ins_law: "wf s \<Longrightarrow> valid s k \<Longrightarrow>
      \<exists>s'. ins s k = Some (s', has_room (cap s) (items s)) \<and> wf s' \<and> cap s' = cap s \<and> valid s' = valid s \<and>
        items s' = (if has_room (cap s) (items s) then add_mset k (items s) else items s)"
    and look_law: "wf s \<Longrightarrow> valid s k \<Longrightarrow> look s k = Some (k \<in># items s)"
    and cnt_law: "wf s \<Longrightarrow> cnt s = size (items s)"
    and clr_law: "wf s \<Longrightarrow> wf (clr s) \<and> cap (clr s) = cap s \<and> valid (clr s) = valid s \<and> items (clr s) = {#}"
begin

lemma run_refines:
  "wf s \<Longrightarrow> (\<forall>k \<in> \<Union> (op_key ` set ops). valid s k) \<Longrightarrow>
   table_run ins look cnt clr s ops = Some (bag_run (cap s) (items s) ops)"
proof (induction ops arbitrary: s)
  case (Cons p ops)
  show ?case
  proof (cases p)
    case (Insert_op k)
    then obtain s' where "ins s k = Some (s', has_room (cap s) (items s))" "wf s'" "cap s' = cap s"
        "valid s' = valid s" "items s' = (if has_room (cap s) (items s) then add_mset k (items s) else items s)"
      using ins_law[of s k] Cons.prems by auto
    then show ?thesis using Cons.IH[of s'] Cons.prems Insert_op by simp
  next
    case (Lookup_op k)
    then show ?thesis using Cons.IH[of s] Cons.prems look_law[of s k] by simp
  next
    case Count_op
    then show ?thesis using Cons.IH[of s] Cons.prems cnt_law[of s] by simp
  next
    case Clear_op
    then show ?thesis using Cons.IH[of "clr s"] Cons.prems clr_law[of s] by simp
  qed
qed simp

end

subsection \<open>Open addressing keeps the promise\<close>

text \<open>The order in which the cells are probed.\<close>

definition probes :: "nat \<Rightarrow> nat \<Rightarrow> nat list" where
  "probes n p = p # [p + 1..<n] @ [0..<p]"

lemma set_probes: "p < n \<Longrightarrow> set (probes n p) = {0..<n}"
  by (auto simp: probes_def)

definition oa_valid :: "('k \<Rightarrow> int) \<Rightarrow> 'k open_address \<Rightarrow> 'k \<Rightarrow> bool" where
  "oa_valid f s k \<longleftrightarrow> 0 \<le> f k \<and> f k < int (oa_size s)"

definition oa_used :: "'k open_address \<Rightarrow> nat list" where
  "oa_used s = filter (\<lambda>i. oa_usage s ! i) [0..<oa_size s]"

definition oa_items :: "'k open_address \<Rightarrow> 'k multiset" where
  "oa_items s = mset (map (\<lambda>i. oa_data s ! i) (oa_used s))"

text \<open>Every key is found along its probes: the cells before it are used.\<close>

definition oa_wf :: "('k \<Rightarrow> int) \<Rightarrow> 'k open_address \<Rightarrow> bool" where
  "oa_wf f s \<longleftrightarrow> length (oa_data s) = oa_size s \<and> length (oa_usage s) = oa_size s \<and>
     (\<forall>i < oa_size s. oa_usage s ! i \<longrightarrow> oa_valid f s (oa_data s ! i) \<and>
        (\<forall>j \<in> set (takeWhile (\<lambda>j. j \<noteq> i) (probes (oa_size s) (nat (f (oa_data s ! i))))). oa_usage s ! j))"

lemma oa_Insert_probes:
  "oa_Insert f s k =
     (if f k < 0 \<or> int (oa_size s) \<le> f k then None
      else case List.find (\<lambda>i. \<not> oa_usage s ! i) (probes (oa_size s) (nat (f k))) of
          Some i \<Rightarrow> Some (oa_store s k i, True)
        | None \<Rightarrow> Some (s, False))"
  by (simp add: oa_Insert_def probes_def Let_def find_append split: option.splits)

lemma oa_scan_append:
  "oa_scan s k (xs @ ys) = (case oa_scan s k xs of None \<Rightarrow> oa_scan s k ys | Some b \<Rightarrow> Some b)"
  by (induction xs) simp_all

lemma oa_Lookup_probes:
  "oa_Lookup f s k =
     (if f k < 0 \<or> int (oa_size s) \<le> f k then None
      else Some (oa_scan s k (probes (oa_size s) (nat (f k))) = Some True))"
  by (auto simp: oa_Lookup_def probes_def Let_def oa_scan_append split: option.splits)

lemma oa_scan_found:
  "oa_scan s k is = Some True \<longleftrightarrow>
     (\<exists>i \<in> set is. oa_usage s ! i \<and> oa_data s ! i = k \<and> (\<forall>j \<in> set (takeWhile (\<lambda>j. j \<noteq> i) is). oa_usage s ! j))"
  by (induction "is") auto

lemma fold_clear: "length (fold (\<lambda>i u. u[i := False]) is u) = length u"
  "j < length u \<Longrightarrow> fold (\<lambda>i u. u[i := False]) is u ! j = (u ! j \<and> j \<notin> set is)"
proof (induction "is" arbitrary: u)
  case (Cons i "is")
  case 2
  then show ?case using Cons(2)[of "u[i := False]"] by (cases "i = j") simp_all
qed simp_all

lemma oa_Clear_usage:
  "length (oa_usage s) = oa_size s \<Longrightarrow> j < oa_size s \<Longrightarrow> \<not> oa_usage (oa_Clear s) ! j"
  by (simp add: oa_Clear_def fold_clear)

lemma oa_Clear_ok:
  assumes "length (oa_data s) = oa_size s" "length (oa_usage s) = oa_size s"
  shows "oa_wf f (oa_Clear s)" "oa_size (oa_Clear s) = oa_size s" "oa_items (oa_Clear s) = {#}"
proof -
  show z: "oa_size (oa_Clear s) = oa_size s" by (simp add: oa_Clear_def)
  show "oa_wf f (oa_Clear s)"
    using assms oa_Clear_usage[OF assms(2)] by (auto simp: oa_wf_def z) (simp_all add: oa_Clear_def fold_clear)
  have "oa_used (oa_Clear s) = []" using oa_Clear_usage[OF assms(2)] by (simp add: oa_used_def z filter_empty_conv)
  then show "oa_items (oa_Clear s) = {#}" by (simp add: oa_items_def)
qed

lemma oa_Count_size: "oa_Count s = size (oa_items s)"
proof -
  have "fold (\<lambda>i c. if P i then c + 1 else c) is c = c + length (filter P is)" for P c and "is" :: "nat list"
    by (induction "is" arbitrary: c) simp_all
  then have "oa_Count s = length (oa_used s)" unfolding oa_Count_def oa_used_def by simp
  then show ?thesis by (simp add: oa_items_def)
qed

lemma oa_items_iff: "k \<in># oa_items s \<longleftrightarrow> (\<exists>i < oa_size s. oa_usage s ! i \<and> oa_data s ! i = k)"
  by (auto simp: oa_items_def oa_used_def)

lemma oa_Lookup_ok:
  assumes "oa_wf f s" "oa_valid f s k"
  shows "oa_Lookup f s k = Some (k \<in># oa_items s)"
proof -
  have p: "set (probes (oa_size s) (nat (f k))) = {0..<oa_size s}"
    using assms(2) by (intro set_probes) (auto simp: oa_valid_def)
  have "oa_scan s k (probes (oa_size s) (nat (f k))) = Some True \<longleftrightarrow> k \<in># oa_items s"
    unfolding oa_scan_found oa_items_iff p using assms(1) by (auto simp: oa_wf_def)
  then show ?thesis using assms(2) by (auto simp: oa_Lookup_probes oa_valid_def)
qed

text \<open>Storing a key in the first free cell of its probes.\<close>

lemma oa_used_store:
  assumes "i < oa_size s" "length (oa_usage s) = oa_size s" "\<not> oa_usage s ! i"
  shows "mset (oa_used (oa_store s k i)) = add_mset i (mset (oa_used s))"
proof -
  have u: "oa_usage (oa_store s k i) ! j = (j = i \<or> oa_usage s ! j)" if "j < oa_size s" for j
    using assms that by (cases "j = i") (simp_all add: oa_store_def)
  have sp: "[0..<oa_size s] = [0..<i] @ i # [Suc i..<oa_size s]"
    using assms(1) upt_add_eq_append[of 0 i "oa_size s - i"] upt_conv_Cons[of i "oa_size s"] by simp
  have "filter (\<lambda>j. oa_usage (oa_store s k i) ! j) [0..<i] = filter (\<lambda>j. oa_usage s ! j) [0..<i]"
    using u assms(1) by (intro filter_cong) simp_all
  moreover have "filter (\<lambda>j. oa_usage (oa_store s k i) ! j) [Suc i..<oa_size s] =
      filter (\<lambda>j. oa_usage s ! j) [Suc i..<oa_size s]"
    using u by (intro filter_cong) simp_all
  moreover have z: "oa_size (oa_store s k i) = oa_size s" by (simp add: oa_store_def)
  ultimately show ?thesis
    unfolding oa_used_def z sp filter_append filter.simps using assms(3) u[OF assms(1)] by simp
qed

lemma oa_items_store:
  assumes "oa_wf f s" "i < oa_size s" "\<not> oa_usage s ! i"
  shows "oa_items (oa_store s k i) = add_mset k (oa_items s)"
proof -
  have l: "length (oa_data s) = oa_size s" "length (oa_usage s) = oa_size s" using assms(1) by (simp_all add: oa_wf_def)
  have "oa_items (oa_store s k i) = image_mset (\<lambda>j. oa_data (oa_store s k i) ! j) (add_mset i (mset (oa_used s)))"
    unfolding oa_items_def mset_map oa_used_store[OF assms(2) l(2) assms(3)] ..
  also have "\<dots> = add_mset k (image_mset (\<lambda>j. oa_data (oa_store s k i) ! j) (mset (oa_used s)))"
    using assms(2) l(1) by (simp add: oa_store_def)
  also have "image_mset (\<lambda>j. oa_data (oa_store s k i) ! j) (mset (oa_used s)) =
      image_mset (\<lambda>j. oa_data s ! j) (mset (oa_used s))"
  proof (rule image_mset_cong)
    fix j assume "j \<in># mset (oa_used s)"
    then have "j \<noteq> i" using assms(3) by (auto simp: oa_used_def)
    then show "oa_data (oa_store s k i) ! j = oa_data s ! j" by (simp add: oa_store_def)
  qed
  finally show ?thesis by (simp add: oa_items_def)
qed

lemma find_first:
  "List.find P xs = Some i \<Longrightarrow> i \<in> set xs \<and> P i \<and> (\<forall>j \<in> set (takeWhile (\<lambda>j. j \<noteq> i) xs). \<not> P j)"
  by (induction xs) (auto split: if_splits)

lemma oa_wf_store:
  assumes wf: "oa_wf f s" and v: "oa_valid f s k"
    and F: "List.find (\<lambda>i. \<not> oa_usage s ! i) (probes (oa_size s) (nat (f k))) = Some i"
  shows "oa_wf f (oa_store s k i)" "i < oa_size s" "\<not> oa_usage s ! i"
proof -
  have p: "set (probes (oa_size s) (nat (f k))) = {0..<oa_size s}"
    using v by (intro set_probes) (auto simp: oa_valid_def)
  show i: "i < oa_size s" "\<not> oa_usage s ! i" using find_first[OF F] p by auto
  let ?t = "oa_store s k i"
  have l: "length (oa_data s) = oa_size s" "length (oa_usage s) = oa_size s" using wf by (simp_all add: oa_wf_def)
  have z: "oa_size ?t = oa_size s" "length (oa_data ?t) = oa_size s" "length (oa_usage ?t) = oa_size s"
    using l by (simp_all add: oa_store_def)
  have u: "oa_usage ?t ! j = (j = i \<or> oa_usage s ! j)" if "j < oa_size s" for j
    using that i l by (cases "j = i") (simp_all add: oa_store_def)
  have d: "oa_data ?t ! j = (if j = i then k else oa_data s ! j)" if "j < oa_size s" for j
    using that i l by (cases "j = i") (simp_all add: oa_store_def)
  have "oa_valid f ?t (oa_data ?t ! x) \<and>
      (\<forall>j \<in> set (takeWhile (\<lambda>j. j \<noteq> x) (probes (oa_size s) (nat (f (oa_data ?t ! x))))). oa_usage ?t ! j)"
    if x: "x < oa_size s" "oa_usage ?t ! x" for x
  proof (cases "x = i")
    case True
    have "oa_usage ?t ! j" if j: "j \<in> set (takeWhile (\<lambda>j. j \<noteq> i) (probes (oa_size s) (nat (f k))))" for j
    proof -
      have "j < oa_size s" using set_takeWhileD[OF j] p by simp
      moreover have "oa_usage s ! j" using find_first[OF F] j by blast
      ultimately show ?thesis using u by simp
    qed
    then show ?thesis using True d[OF x(1)] v z by (simp add: oa_valid_def)
  next
    case False
    then have "oa_usage s ! x" using x u by simp
    with wf x(1) have w: "oa_valid f s (oa_data s ! x)"
      "\<forall>j \<in> set (takeWhile (\<lambda>j. j \<noteq> x) (probes (oa_size s) (nat (f (oa_data s ! x))))). oa_usage s ! j"
      unfolding oa_wf_def by blast+
    have "set (probes (oa_size s) (nat (f (oa_data s ! x)))) = {0..<oa_size s}"
      using w(1) by (intro set_probes) (auto simp: oa_valid_def)
    then have "oa_usage ?t ! j"
      if "j \<in> set (takeWhile (\<lambda>j. j \<noteq> x) (probes (oa_size s) (nat (f (oa_data s ! x)))))" for j
      using bspec[OF w(2) that] u[of j] set_takeWhileD[OF that] by simp
    then show ?thesis using False d[OF x(1)] w(1) z by (simp add: oa_valid_def)
  qed
  then show "oa_wf f ?t" unfolding oa_wf_def z by blast
qed

lemma oa_Insert_ok:
  assumes wf: "oa_wf f s" and v: "oa_valid f s k"
  shows "\<exists>s'. oa_Insert f s k = Some (s', has_room (Some (oa_size s)) (oa_items s)) \<and> oa_wf f s' \<and>
    oa_size s' = oa_size s \<and>
    oa_items s' = (if has_room (Some (oa_size s)) (oa_items s) then add_mset k (oa_items s) else oa_items s)"
proof -
  have p: "set (probes (oa_size s) (nat (f k))) = {0..<oa_size s}"
    using v by (intro set_probes) (auto simp: oa_valid_def)
  have e: "oa_Insert f s k =
      (case List.find (\<lambda>i. \<not> oa_usage s ! i) (probes (oa_size s) (nat (f k))) of
          Some i \<Rightarrow> Some (oa_store s k i, True) | None \<Rightarrow> Some (s, False))"
    using v by (auto simp: oa_Insert_probes oa_valid_def)
  have sz: "size (oa_items s) = length (oa_used s)" by (simp add: oa_items_def)
  show ?thesis
  proof (cases "List.find (\<lambda>i. \<not> oa_usage s ! i) (probes (oa_size s) (nat (f k)))")
    case None
    then have "\<forall>i < oa_size s. oa_usage s ! i" unfolding find_None_iff p by simp
    then have "oa_used s = [0..<oa_size s]" by (simp add: oa_used_def filter_id_conv)
    then show ?thesis using e None wf sz by (simp add: has_room_def)
  next
    case (Some i)
    note st = oa_wf_store[OF wf v Some]
    have "length (oa_used s) < length [0..<oa_size s]"
      unfolding oa_used_def by (rule length_filter_less[of i]) (use st in simp_all)
    then have "has_room (Some (oa_size s)) (oa_items s)" using sz by (simp add: has_room_def)
    then show ?thesis using e Some st oa_items_store[OF wf st(2,3)] by (simp add: oa_store_def)
  qed
qed

interpretation oa: bag_table "oa_valid f" "oa_wf f" "\<lambda>s. Some (oa_size s)" oa_items "oa_Insert f" "oa_Lookup f"
    oa_Count oa_Clear for f
proof
  fix s :: "'a open_address" and k assume a: "oa_wf f s" "oa_valid f s k"
  from oa_Insert_ok[OF a] show "\<exists>s'. oa_Insert f s k = Some (s', has_room (Some (oa_size s)) (oa_items s)) \<and>
      oa_wf f s' \<and> Some (oa_size s') = Some (oa_size s) \<and> oa_valid f s' = oa_valid f s \<and>
      oa_items s' = (if has_room (Some (oa_size s)) (oa_items s) then add_mset k (oa_items s) else oa_items s)"
    by (auto simp: oa_valid_def fun_eq_iff)
  show "oa_Lookup f s k = Some (k \<in># oa_items s)" by (rule oa_Lookup_ok[OF a])
next
  fix s :: "'a open_address" assume a: "oa_wf f s"
  show "oa_Count s = size (oa_items s)" by (rule oa_Count_size)
  show "oa_wf f (oa_Clear s) \<and> Some (oa_size (oa_Clear s)) = Some (oa_size s) \<and>
      oa_valid f (oa_Clear s) = oa_valid f s \<and> oa_items (oa_Clear s) = {#}"
    using oa_Clear_ok[of s] a by (auto simp: oa_wf_def oa_valid_def fun_eq_iff)
qed

subsection \<open>Overflow chains keep the promise\<close>

definition oc_valid :: "('k \<Rightarrow> int) \<Rightarrow> 'k overflow_chain \<Rightarrow> 'k \<Rightarrow> bool" where
  "oc_valid f s k \<longleftrightarrow> 0 \<le> f k \<and> f k < int (length s)"

definition oc_items :: "'k overflow_chain \<Rightarrow> 'k multiset" where
  "oc_items s = (\<Sum>i < length s. mset (snd (s ! i)))"

text \<open>Every key is in its own chain, and exactly the chains in use have nodes.\<close>

definition oc_wf :: "('k \<Rightarrow> int) \<Rightarrow> 'k overflow_chain \<Rightarrow> bool" where
  "oc_wf f s \<longleftrightarrow> (\<forall>i < length s. (fst (s ! i) \<longleftrightarrow> snd (s ! i) \<noteq> []) \<and> (\<forall>k \<in> set (snd (s ! i)). f k = int i))"

lemma oc_walk_iff: "oc_walk k l \<longleftrightarrow> k \<in> set l"
  by (induction l) auto

lemma oc_items_iff: "k \<in># oc_items s \<longleftrightarrow> (\<exists>i < length s. k \<in> set (snd (s ! i)))"
  by (auto simp: oc_items_def set_mset_sum)

lemma oc_Lookup_ok:
  assumes "oc_wf f s" "oc_valid f s k"
  shows "oc_Lookup f s k = Some (k \<in># oc_items s)"
proof -
  have p: "nat (f k) < length s" "int (nat (f k)) = f k" using assms(2) by (auto simp: oc_valid_def)
  have "k \<in># oc_items s \<longleftrightarrow> k \<in> set (snd (s ! nat (f k)))"
    unfolding oc_items_iff
  proof
    assume "\<exists>i < length s. k \<in> set (snd (s ! i))"
    then obtain i where i: "i < length s" "k \<in> set (snd (s ! i))" by blast
    then have "f k = int i" using assms(1) by (simp add: oc_wf_def)
    then show "k \<in> set (snd (s ! nat (f k)))" using i(2) by simp
  qed (use p(1) in blast)
  moreover have "fst (s ! nat (f k)) \<longleftrightarrow> snd (s ! nat (f k)) \<noteq> []" 
    using assms(1) p(1) unfolding oc_wf_def by blast
  moreover have "\<not> (f k < 0 \<or> int (length s) \<le> f k)" using assms(2) unfolding oc_valid_def by linarith
  ultimately show ?thesis by (simp add: oc_Lookup_def Let_def oc_walk_iff)
qed

lemma oc_Insert_ok:
  assumes wf: "oc_wf f s" and v: "oc_valid f s k"
  shows "\<exists>s'. oc_Insert f s k = Some (s', True) \<and> oc_wf f s' \<and> length s' = length s \<and>
    oc_items s' = add_mset k (oc_items s)"
proof -
  define p where "p = nat (f k)"
  have p: "p < length s" "f k = int p" using v by (auto simp: oc_valid_def p_def)
  have w: "(fst (s ! i) \<longleftrightarrow> snd (s ! i) \<noteq> []) \<and> (\<forall>x \<in> set (snd (s ! i)). f x = int i)" if "i < length s" for i
    using wf that unfolding oc_wf_def by blast
  have e: "fst (s ! p) \<longleftrightarrow> snd (s ! p) \<noteq> []" using w[OF p(1)] by blast
  let ?t = "s[p := (True, k # snd (s ! p))]"
  have "oc_Insert f s k = Some (?t, True)"
  proof -
    have "\<not> (f k < 0 \<or> int (length s) \<le> f k)" using v unfolding oc_valid_def by linarith
    then show ?thesis unfolding oc_Insert_def Let_def p_def[symmetric] using e by (cases "fst (s ! p)") simp_all
  qed
  moreover have "(fst (?t ! i) \<longleftrightarrow> snd (?t ! i) \<noteq> []) \<and> (\<forall>x \<in> set (snd (?t ! i)). f x = int i)" if "i < length s" for i
    using w[OF that] w[OF p(1)] p by (cases "i = p") simp_all
  then have "oc_wf f ?t" by (simp add: oc_wf_def)
  moreover have "oc_items ?t = add_mset k (oc_items s)"
  proof -
    have "oc_items ?t = (\<Sum>i < length s. (if i = p then {#k#} else {#}) + mset (snd (s ! i)))"
      unfolding oc_items_def length_list_update by (rule sum.cong) (auto simp: nth_list_update p(1))
    then show ?thesis using p(1) by (simp add: sum.distrib oc_items_def)
  qed
  ultimately show ?thesis by simp
qed

lemma oc_Clear_ok:
  assumes "oc_wf f s"
  shows "oc_wf f (oc_Clear s) \<and> length (oc_Clear s) = length s \<and> oc_items (oc_Clear s) = {#}"
proof -
  have "oc_Clear s ! i = (False, [])" if "i < length s" for i
    using that assms by (cases "s ! i") (auto simp: oc_Clear_def oc_wf_def)
  then show ?thesis by (simp add: oc_wf_def oc_items_def) (simp add: oc_Clear_def)
qed

lemma oc_Count_size:
  assumes "oc_wf f s"
  shows "oc_Count s = size (oc_items s)"
proof -
  have "fold (\<lambda>(use, l) c. if use then c + length l else c) xs c =
      c + (\<Sum>i < length xs. length (snd (xs ! i)))" if "\<forall>x \<in> set xs. fst x \<longleftrightarrow> snd x \<noteq> []" for xs :: "(bool \<times> 'a list) list" and c
    using that
  proof (induction xs arbitrary: c)
    case (Cons x xs)
    then show ?case by (cases x) (auto simp: sum.lessThan_Suc_shift simp del: sum.lessThan_Suc)
  qed simp
  moreover have "\<forall>x \<in> set s. fst x \<longleftrightarrow> snd x \<noteq> []"
    using assms unfolding oc_wf_def all_set_conv_all_nth by blast
  ultimately show ?thesis by (simp add: oc_Count_def oc_items_def size_multiset_sum)
qed

interpretation oc: bag_table "oc_valid f" "oc_wf f" "\<lambda>s. None" oc_items "oc_Insert f" "oc_Lookup f" oc_Count oc_Clear
  for f
proof
  fix s :: "'a overflow_chain" and k assume a: "oc_wf f s" "oc_valid f s k"
  from oc_Insert_ok[OF a] show "\<exists>s'. oc_Insert f s k = Some (s', has_room None (oc_items s)) \<and> oc_wf f s' \<and>
      None = None \<and> oc_valid f s' = oc_valid f s \<and>
      oc_items s' = (if has_room None (oc_items s) then add_mset k (oc_items s) else oc_items s)"
    by (auto simp: oc_valid_def has_room_def fun_eq_iff)
  show "oc_Lookup f s k = Some (k \<in># oc_items s)" by (rule oc_Lookup_ok[OF a])
next
  fix s :: "'a overflow_chain" assume a: "oc_wf f s"
  show "oc_Count s = size (oc_items s)" by (rule oc_Count_size[OF a])
  show "oc_wf f (oc_Clear s) \<and> None = None \<and> oc_valid f (oc_Clear s) = oc_valid f s \<and> oc_items (oc_Clear s) = {#}"
    using oc_Clear_ok[OF a] by (auto simp: oc_valid_def fun_eq_iff)
qed

subsection \<open>The set keeps the promise\<close>

fun hs_valid :: "('k \<Rightarrow> int) \<Rightarrow> 'k hash_set \<Rightarrow> 'k \<Rightarrow> bool" where
  "hs_valid f (Open_Address s) k = oa_valid f s k"
| "hs_valid f (Overflow_Chain s) k = oc_valid f s k"

fun hs_wf :: "('k \<Rightarrow> int) \<Rightarrow> 'k hash_set \<Rightarrow> bool" where
  "hs_wf f (Open_Address s) = oa_wf f s"
| "hs_wf f (Overflow_Chain s) = oc_wf f s"

fun hs_cap :: "'k hash_set \<Rightarrow> nat option" where
  "hs_cap (Open_Address s) = Some (oa_size s)"
| "hs_cap (Overflow_Chain s) = None"

fun hs_items :: "'k hash_set \<Rightarrow> 'k multiset" where
  "hs_items (Open_Address s) = oa_items s"
| "hs_items (Overflow_Chain s) = oc_items s"

interpretation hs: bag_table "hs_valid f" "hs_wf f" hs_cap hs_items "hs_Insert f" "hs_Lookup f" hs_Count hs_Clear for f
proof
  fix s :: "'a hash_set" and k assume a: "hs_wf f s" "hs_valid f s k"
  show "\<exists>s'. hs_Insert f s k = Some (s', has_room (hs_cap s) (hs_items s)) \<and> hs_wf f s' \<and>
      hs_cap s' = hs_cap s \<and> hs_valid f s' = hs_valid f s \<and>
      hs_items s' = (if has_room (hs_cap s) (hs_items s) then add_mset k (hs_items s) else hs_items s)"
  proof (cases s)
    case (Open_Address t)
    then obtain t' where "oa_Insert f t k = Some (t', has_room (Some (oa_size t)) (oa_items t))" "oa_wf f t'"
      "oa_size t' = oa_size t" "oa_valid f t' = oa_valid f t"
      "oa_items t' = (if has_room (Some (oa_size t)) (oa_items t) then add_mset k (oa_items t) else oa_items t)"
      using oa.ins_law[of f t k] a by auto
    then show ?thesis using Open_Address by (intro exI[of _ "Open_Address t'"]) (simp add: fun_eq_iff)
  next
    case (Overflow_Chain t)
    then obtain t' where "oc_Insert f t k = Some (t', True)" "oc_wf f t'" "oc_valid f t' = oc_valid f t"
      "oc_items t' = add_mset k (oc_items t)"
      using oc.ins_law[of f t k] a by (auto simp: has_room_def)
    then show ?thesis using Overflow_Chain
      by (intro exI[of _ "Overflow_Chain t'"]) (simp add: fun_eq_iff has_room_def)
  qed
  show "hs_Lookup f s k = Some (k \<in># hs_items s)"
    using oa.look_law[of f _ k] oc.look_law[of f _ k] a by (cases s) simp_all
next
  fix s :: "'a hash_set" assume a: "hs_wf f s"
  show "hs_Count s = size (hs_items s)" using oa.cnt_law[of f] oc.cnt_law[of f] a by (cases s) simp_all
  show "hs_wf f (hs_Clear s) \<and> hs_cap (hs_Clear s) = hs_cap s \<and> hs_valid f (hs_Clear s) = hs_valid f s \<and>
      hs_items (hs_Clear s) = {#}"
    using oa.clr_law[of f] oc.clr_law[of f] a by (cases s) (simp_all add: fun_eq_iff)
qed

lemma Hash_Set_ok:
  "hs_wf f (Hash_Set chained junk n)" "hs_items (Hash_Set chained junk n) = {#}"
  "hs_cap (Hash_Set chained junk n) = (if chained then None else Some n)"
  "hs_valid f (Hash_Set chained junk n) k \<longleftrightarrow> 0 \<le> f k \<and> f k < int n"
  using oa_Clear_ok[of "\<lparr>oa_data = map (fst \<circ> junk) [0..<n], oa_usage = map (snd \<circ> junk) [0..<n], oa_size = n\<rparr>"]
  by (simp_all add: Hash_Set_def oa_Init_def oc_Init_def oc_wf_def oc_items_def oc_valid_def oa_valid_def)

subsection \<open>Properties\<close>

text \<open>
  C17. A hash set over either policy is a bag of keys: for every sequence of calls whose keys hash into
  the table, no access leaves the table and the answers are those of a multiset, with as many places
  as the table has cells under open addressing and without a limit under overflow chains.
\<close>

theorem hash_set_refines_bag:
  assumes "\<forall>k \<in> \<Union> (op_key ` set ops). 0 \<le> f k \<and> f k < int n"
  shows "table_run (hs_Insert f) (hs_Lookup f) hs_Count hs_Clear (Hash_Set chained junk n) ops =
    Some (bag_run (if chained then None else Some n) {#} ops)"
  using hs.run_refines[of f "Hash_Set chained junk n" ops] assms by (simp add: Hash_Set_ok)

text \<open>In the witness the keys collide, one is inserted twice and counts twice, and the open table is full.\<close>

theorem hash_set_refines_bag_witness:
  "table_run (hs_Insert (\<lambda>k. k mod 3)) (hs_Lookup (\<lambda>k. k mod 3)) hs_Count hs_Clear
     (Hash_Set False (\<lambda>_. (7, True)) 3)
     [Insert_op 5, Insert_op 2, Insert_op 2, Insert_op (9 :: int), Lookup_op 2, Lookup_op 8, Count_op] =
   Some [Flag True, Flag True, Flag True, Flag False, Flag True, Flag False, Number 3]"
proof -
  have "\<forall>k \<in> \<Union> (op_key ` set [Insert_op 5, Insert_op 2, Insert_op 2, Insert_op (9 :: int), Lookup_op 2,
      Lookup_op 8, Count_op]). 0 \<le> k mod 3 \<and> k mod 3 < int 3" by simp
  from hash_set_refines_bag[OF this, of False "\<lambda>_. (7, True)"] show ?thesis by (simp add: has_room_def)
qed

end
