(* ===== verification/Sorts.thy ===== *)
theory Sorts
  imports Ak_Prelude "HOL-Library.Multiset"
begin

text \<open>
  The sorting templates of \<open>acm-lib/sort\<close>, on a list for the array and with the comparison \<open>f\<close>
  as an argument (the versions without it use \<open><\<close>).  They sort for every strict weak order, which is
  the interface locale \<open>weak_order\<close>.
\<close>

text \<open>\<open>std::swap\<close> of two array elements.\<close>

definition swap :: "'a list \<Rightarrow> nat \<Rightarrow> nat \<Rightarrow> 'a list" where
  "swap xs i j = xs[i := xs ! j, j := xs ! i]"

text \<open>The comparison used by the programs.\<close>

definition cmp :: "int \<Rightarrow> int \<Rightarrow> bool" where
  "cmp a b \<longleftrightarrow> a < b"

subsection \<open>The simple sorts\<close>

definition bubble_pass :: "('a \<Rightarrow> 'a \<Rightarrow> bool) \<Rightarrow> nat \<Rightarrow> 'a list \<Rightarrow> 'a list" where
  "bubble_pass f i xs =
     fold (\<lambda>j xs. if f (xs ! j) (xs ! (j - 1)) then swap xs j (j - 1) else xs) (rev [i + 1..<length xs]) xs"

definition BubbleSort :: "('a \<Rightarrow> 'a \<Rightarrow> bool) \<Rightarrow> 'a list \<Rightarrow> 'a list" where
  "BubbleSort f xs = fold (bubble_pass f) [0..<length xs - 1] xs"

definition select_min :: "('a \<Rightarrow> 'a \<Rightarrow> bool) \<Rightarrow> 'a list \<Rightarrow> nat \<Rightarrow> nat" where
  "select_min f xs i = fold (\<lambda>j k. if f (xs ! j) (xs ! k) then j else k) [i + 1..<length xs] i"

definition SelectionSort :: "('a \<Rightarrow> 'a \<Rightarrow> bool) \<Rightarrow> 'a list \<Rightarrow> 'a list" where
  "SelectionSort f xs = fold (\<lambda>i xs. swap xs i (select_min f xs i)) [0..<length xs - 1] xs"

text \<open>The inner loop of the insertion sorts with gap \<open>h\<close>, the final store included.\<close>

function insert_gap :: "('a \<Rightarrow> 'a \<Rightarrow> bool) \<Rightarrow> nat \<Rightarrow> 'a \<Rightarrow> 'a list \<Rightarrow> nat \<Rightarrow> 'a list" where
  "insert_gap f h temp xs k =
     (if 0 < h \<and> h \<le> k \<and> f temp (xs ! (k - h)) then insert_gap f h temp (xs[k := xs ! (k - h)]) (k - h)
      else xs[k := temp])"
  by pat_completeness auto
termination by (relation "measure (\<lambda>(f, h, temp, xs, k). k)") auto

declare insert_gap.simps [simp del]

definition InsertionSort :: "('a \<Rightarrow> 'a \<Rightarrow> bool) \<Rightarrow> 'a list \<Rightarrow> 'a list" where
  "InsertionSort f xs = fold (\<lambda>i xs. insert_gap f 1 (xs ! i) xs i) [1..<length xs] xs"

text \<open>The gaps 1, 4, 13, ... below the size; the indices visited from \<open>j\<close> on in steps of \<open>h\<close>.\<close>

function shell_gaps :: "nat \<Rightarrow> nat \<Rightarrow> nat list" where
  "shell_gaps n h = (if h < n then h # shell_gaps n (3 * h + 1) else [])"
  by pat_completeness auto
termination by (relation "measure (\<lambda>(n, h). n - h)") auto

function shell_indices :: "nat \<Rightarrow> nat \<Rightarrow> nat \<Rightarrow> nat list" where
  "shell_indices n h j = (if j < n \<and> 0 < h then j # shell_indices n h (j + h) else [])"
  by pat_completeness auto
termination by (relation "measure (\<lambda>(n, h, j). n - j)") auto

declare shell_gaps.simps [simp del] shell_indices.simps [simp del]

text \<open>
  The table \<open>array\<close> has 20 places, enough for 1743392200 elements; up to there the gaps also stay in the range of \<open>int\<close>.
\<close>

lemma shell_gaps_fit:
  assumes "n \<le> 1743392200"
  shows "length (shell_gaps n 1) \<le> 20"
proof -
  have "length (shell_gaps n h) \<le> k"
    if "1743392200 \<le> 3 ^ k * h + (3 ^ k - 1) div 2" for k h
    using that
  proof (induction k arbitrary: h)
    case 0
    then show ?case using assms by (simp add: shell_gaps.simps[of n h])
  next
    case (Suc k)
    have "odd (3 ^ k :: nat)" by simp
    then obtain m where m: "3 ^ k = 2 * m + (1 :: nat)" by (rule oddE)
    have "3 ^ Suc k * h + (3 ^ Suc k - 1) div 2 = 3 ^ k * (3 * h + 1) + (3 ^ k - 1) div (2 :: nat)"
      using m by (simp add: algebra_simps)
    then have "1743392200 \<le> 3 ^ k * (3 * h + 1) + (3 ^ k - 1) div (2 :: nat)" using Suc.prems by simp
    from Suc.IH[OF this] show ?case using assms by (auto simp: shell_gaps.simps[of n h])
  qed
  from this[of 19 1] show ?thesis by simp
qed

definition shell_pass :: "('a \<Rightarrow> 'a \<Rightarrow> bool) \<Rightarrow> nat \<Rightarrow> 'a list \<Rightarrow> 'a list" where
  "shell_pass f h xs =
     fold (\<lambda>c xs. fold (\<lambda>j xs. insert_gap f h (xs ! j) xs j) (shell_indices (length xs) h c) xs) [h..<2 * h] xs"

definition ShellSort :: "('a \<Rightarrow> 'a \<Rightarrow> bool) \<Rightarrow> 'a list \<Rightarrow> 'a list" where
  "ShellSort f xs = fold (shell_pass f) (rev (shell_gaps (length xs) 1)) xs"

subsection \<open>Merge sort\<close>

text \<open>\<open>std::merge\<close>: the right element only when it is less.\<close>

fun std_merge :: "('a \<Rightarrow> 'a \<Rightarrow> bool) \<Rightarrow> 'a list \<Rightarrow> 'a list \<Rightarrow> 'a list" where
  "std_merge f [] ys = ys"
| "std_merge f xs [] = xs"
| "std_merge f (x # xs) (y # ys) =
     (if f y x then y # std_merge f (x # xs) ys else x # std_merge f xs (y # ys))"

function MergeSort :: "('a \<Rightarrow> 'a \<Rightarrow> bool) \<Rightarrow> 'a list \<Rightarrow> 'a list" where
  "MergeSort f xs =
     (if 1 < length xs
      then std_merge f (MergeSort f (take (length xs div 2) xs)) (MergeSort f (drop (length xs div 2) xs))
      else xs)"
  by pat_completeness auto
termination by (relation "measure (\<lambda>(f, xs). length xs)") auto

declare MergeSort.simps [simp del]

subsection \<open>Heap sort\<close>

function heap_down :: "('a \<Rightarrow> 'a \<Rightarrow> bool) \<Rightarrow> 'a list \<Rightarrow> nat \<Rightarrow> nat \<Rightarrow> 'a list" where
  "heap_down f xs i n =
     (let p = 2 * i + 1 in
      if p < n then
        let q = (if p + 1 < n \<and> f (xs ! p) (xs ! (p + 1)) then p + 1 else p)
        in if f (xs ! i) (xs ! q) then heap_down f (swap xs q i) q n else xs
      else xs)"
  by pat_completeness auto
termination by (relation "measure (\<lambda>(f, xs, i, n). n - i)") (auto split: if_splits)

declare heap_down.simps [simp del]

definition HeapSort :: "('a \<Rightarrow> 'a \<Rightarrow> bool) \<Rightarrow> 'a list \<Rightarrow> 'a list" where
  "HeapSort f xs =
     fold (\<lambda>i xs. heap_down f (swap xs 0 i) 0 i) (rev [1..<length xs])
       (fold (\<lambda>i xs. heap_down f xs i (length xs)) (rev [0..<(length xs - 1) div 2 + 1]) xs)"

subsection \<open>Quick sort\<close>

text \<open>The scans; \<open>None\<close> is an access outside the array.\<close>

function scan_up :: "('a \<Rightarrow> 'a \<Rightarrow> bool) \<Rightarrow> 'a list \<Rightarrow> 'a \<Rightarrow> nat \<Rightarrow> nat option" where
  "scan_up f xs b i =
     (if i < length xs then if f (xs ! i) b then scan_up f xs b (i + 1) else Some i else None)"
  by pat_completeness auto
termination by (relation "measure (\<lambda>(f, xs, b, i). length xs - i)") auto

fun scan_down :: "('a \<Rightarrow> 'a \<Rightarrow> bool) \<Rightarrow> 'a list \<Rightarrow> 'a \<Rightarrow> nat \<Rightarrow> nat option" where
  "scan_down f xs b 0 = (if f b (xs ! 0) then None else Some 0)"
| "scan_down f xs b (Suc i) = (if f b (xs ! Suc i) then scan_down f xs b i else Some (Suc i))"

declare scan_up.simps [simp del]

text \<open>The outer loop; the pivot is the element at \<open>first\<close>, read through a reference.\<close>

partial_function (option) qs_partition ::
  "('a \<Rightarrow> 'a \<Rightarrow> bool) \<Rightarrow> nat \<Rightarrow> nat \<Rightarrow> nat \<Rightarrow> 'a list \<Rightarrow> ('a list \<times> nat) option" where
  "qs_partition f first lower upper xs =
     (if lower \<le> upper then
        Option.bind (scan_up f xs (xs ! first) lower) (\<lambda>l.
        Option.bind (scan_down f xs (xs ! first) upper) (\<lambda>u.
          if l < u then qs_partition f first (l + 1) (u - 1) (swap xs l u)
          else qs_partition f first (l + 1) u xs))
      else Some (xs, upper))"

text \<open>
  \<open>rand\<close> takes its values from a list.  \<open>None\<close> is an access outside the array, a remainder by zero or
  a recursion that does not end.
\<close>

fun next_rand :: "nat list \<Rightarrow> nat \<times> nat list" where
  "next_rand [] = (0, [])"
| "next_rand (r # rs) = (r, rs)"

partial_function (option) quick_sort ::
  "('a \<Rightarrow> 'a \<Rightarrow> bool) \<Rightarrow> nat \<Rightarrow> nat \<Rightarrow> 'a list \<Rightarrow> nat list \<Rightarrow> ('a list \<times> nat list) option" where
  "quick_sort f first lst xs rs =
     (if lst - first = 0 then None
      else
        (case next_rand rs of (r, rs1) \<Rightarrow>
         Option.bind (qs_partition f first (first + 1) lst (swap xs first (r mod (lst - first) + first)))
           (\<lambda>(xs1, upper).
              Option.bind
                (if first + 1 < upper then quick_sort f first (upper - 1) (swap xs1 upper first) rs1
                 else Some (swap xs1 upper first, rs1))
                (\<lambda>(xs2, rs2).
                   if upper + 1 < lst then quick_sort f (upper + 1) lst xs2 rs2 else Some (xs2, rs2)))))"

declare qs_partition.simps [code] quick_sort.simps [code]

definition QuickSort :: "('a \<Rightarrow> 'a \<Rightarrow> bool) \<Rightarrow> 'a list \<Rightarrow> nat list \<Rightarrow> 'a list option" where
  "QuickSort f xs rs =
     (if length xs < 2 then Some xs
      else
        let m = fold (\<lambda>i m. if f (xs ! m) (xs ! i) then i else m) [1..<length xs] 0
        in map_option fst (quick_sort f 0 (length xs - 2) (swap xs (length xs - 1) m) rs))"

end
