(* ===== verification/Sort_Proofs.thy ===== *)
theory Sort_Proofs
  imports Sorts
begin

text \<open>
  The sorts permute the array and order it, for every comparison that is a strict weak order.  The
  comparison is an interface: the lemmas are proved in the locale \<open>weak_order\<close>, which is
  interpreted on the comparison of the programs.
\<close>

subsection \<open>Permutations\<close>

lemma length_swap [simp]: "length (swap xs i j) = length xs"
  by (simp add: swap_def)

lemma mset_swap_eq [simp]: "i < length xs \<Longrightarrow> j < length xs \<Longrightarrow> mset (swap xs i j) = mset xs"
  using mset_swap[of i xs j] by (simp add: swap_def list_update_swap) (metis list_update_id list_update_swap mset_swap)

lemma nth_swap: "i < length xs \<Longrightarrow> j < length xs \<Longrightarrow> k < length xs \<Longrightarrow>
    swap xs i j ! k = (if k = i then xs ! j else if k = j then xs ! i else xs ! k)"
  by (auto simp: swap_def nth_list_update)

definition same :: "'a list \<Rightarrow> 'a list \<Rightarrow> bool" where
  "same xs ys \<longleftrightarrow> length ys = length xs \<and> mset ys = mset xs"

lemma same_refl [simp]: "same xs xs" and same_trans: "same xs ys \<Longrightarrow> same ys zs \<Longrightarrow> same xs zs"
  by (simp_all add: same_def)

lemma same_fold: "(\<And>x ys. x \<in> set is \<Longrightarrow> same xs ys \<Longrightarrow> same ys (g x ys)) \<Longrightarrow> same xs (fold g is xs)"
proof (induction "is" rule: rev_induct)
  case (snoc i "is")
  then have "same xs (fold g is xs)" by simp
  then show ?case using snoc.prems[of i] same_trans by fastforce
qed simp

text \<open>Equal prefixes and equal multisets give equal suffix multisets, and the other way round.\<close>

lemma suffix_set:
  assumes "same xs ys" "take i ys = take i xs"
  shows "set (drop i ys) = set (drop i xs)"
proof -
  have "mset (take i ys) + mset (drop i ys) = mset (take i xs) + mset (drop i xs)"
    using assms(1) by (simp add: same_def flip: mset_append)
  then have "mset (drop i ys) = mset (drop i xs)" using assms(2) by simp
  then show ?thesis by (rule mset_eq_setD)
qed

lemma prefix_set:
  assumes "same xs ys" "drop i ys = drop i xs"
  shows "set (take i ys) = set (take i xs)"
proof -
  have "mset (take i ys) + mset (drop i ys) = mset (take i xs) + mset (drop i xs)"
    using assms(1) by (simp add: same_def flip: mset_append)
  then have "mset (take i ys) = mset (take i xs)" using assms(2) by simp
  then show ?thesis by (rule mset_eq_setD)
qed

lemma nth_in_drop: "i \<le> m \<Longrightarrow> m < length xs \<Longrightarrow> xs ! m \<in> set (drop i xs)"
  using nth_mem[of "m - i" "drop i xs"] by simp

lemma in_drop_nth: "x \<in> set (drop i xs) \<Longrightarrow> \<exists>m. i \<le> m \<and> m < length xs \<and> x = xs ! m"
  by (auto simp: in_set_conv_nth) (metis add.commute le_add1 less_diff_conv)

lemma nth_in_take: "m < i \<Longrightarrow> m < length xs \<Longrightarrow> xs ! m \<in> set (take i xs)"
  by (metis in_set_conv_nth length_take min_less_iff_conj nth_take)

lemma in_take_nth: "x \<in> set (take i xs) \<Longrightarrow> \<exists>m. m < i \<and> m < length xs \<and> x = xs ! m"
  by (auto simp: in_set_conv_nth)

definition ordered :: "('a \<Rightarrow> 'a \<Rightarrow> bool) \<Rightarrow> 'a list \<Rightarrow> bool" where
  "ordered f xs \<longleftrightarrow> sorted_wrt (\<lambda>a b. \<not> f b a) xs"

lemma ordered_nth: "ordered f xs \<longleftrightarrow> (\<forall>a b. a < b \<and> b < length xs \<longrightarrow> \<not> f (xs ! b) (xs ! a))"
  by (auto simp: ordered_def sorted_wrt_iff_nth_less)

lemma take_shorter: "take (Suc k) ys = take (Suc k) xs \<Longrightarrow> take k ys = take k xs"
  by (metis append_take_drop_id take_take min.cobounded1 min_def le_SucI)

text \<open>The first \<open>i\<close> elements are in their final places.\<close>

definition settled :: "('a \<Rightarrow> 'a \<Rightarrow> bool) \<Rightarrow> nat \<Rightarrow> 'a list \<Rightarrow> bool" where
  "settled f i xs \<longleftrightarrow> (\<forall>a b. a < i \<and> a < b \<and> b < length xs \<longrightarrow> \<not> f (xs ! b) (xs ! a))"

definition min_pass :: "('a \<Rightarrow> 'a \<Rightarrow> bool) \<Rightarrow> nat \<Rightarrow> 'a list \<Rightarrow> 'a list \<Rightarrow> bool" where
  "min_pass f i xs ys \<longleftrightarrow> same xs ys \<and> take i ys = take i xs \<and>
     (\<forall>m. i \<le> m \<and> m < length xs \<longrightarrow> \<not> f (ys ! m) (ys ! i))"

lemma min_pass_settled:
  assumes "settled f i xs" "min_pass f i xs ys" "i < length xs"
  shows "settled f (Suc i) ys"
  unfolding settled_def
proof (intro allI impI)
  fix a b assume ab: "a < Suc i \<and> a < b \<and> b < length ys"
  have l: "length ys = length xs" and t: "take i ys = take i xs" and s: "same xs ys"
    using assms(2) by (simp_all add: min_pass_def same_def)
  show "\<not> f (ys ! b) (ys ! a)"
  proof (cases "a = i")
    case True
    then show ?thesis using assms(2) ab l by (simp add: min_pass_def)
  next
    case False
    then have ai: "a < i" using ab by simp
    have same_nth: "ys ! k = xs ! k" if "k < i" for k using t that by (metis nth_take)
    show ?thesis
    proof (cases "b < i")
      case True
      then show ?thesis using assms(1) same_nth ai ab l by (simp add: settled_def)
    next
      case False
      then have "ys ! b \<in> set (drop i ys)" using ab by (intro nth_in_drop) simp_all
      then obtain m where "i \<le> m" "m < length xs" "ys ! b = xs ! m"
        using suffix_set[OF s t] in_drop_nth by metis
      then show ?thesis using assms(1) same_nth[OF ai] ai by (simp add: settled_def)
    qed
  qed
qed

lemma settled_ordered: "settled f (length xs - 1) xs \<Longrightarrow> ordered f xs"
  by (auto simp: settled_def ordered_nth)

lemma min_passes_sort:
  assumes "\<And>i ys. i < length xs - 1 \<Longrightarrow> length ys = length xs \<Longrightarrow> min_pass f i ys (g i ys)"
  shows "same xs (fold g [0..<length xs - 1] xs) \<and> ordered f (fold g [0..<length xs - 1] xs)"
proof -
  have "same xs (fold g [0..<k] xs) \<and> settled f k (fold g [0..<k] xs)" if "k \<le> length xs - 1" for k
    using that
  proof (induction k)
    case 0
    then show ?case by (simp add: settled_def)
  next
    case (Suc k)
    let ?ys = "fold g [0..<k] xs"
    have IH: "same xs ?ys" "settled f k ?ys" and l: "length ?ys = length xs" using Suc by (simp_all add: same_def)
    have p: "min_pass f k ?ys (g k ?ys)" using assms Suc.prems l by simp
    have "settled f (Suc k) (g k ?ys)" using min_pass_settled[OF IH(2) p] Suc.prems l by simp
    moreover have "same xs (g k ?ys)" using same_trans[OF IH(1)] p by (simp add: min_pass_def)
    ultimately show ?case by simp
  qed
  from this[of "length xs - 1"] show ?thesis
    using settled_ordered[of f "fold g [0..<length xs - 1] xs"] by (simp add: same_def)
qed

subsection \<open>Strict weak orders\<close>

locale weak_order =
  fixes f :: "'a \<Rightarrow> 'a \<Rightarrow> bool"
  assumes asym: "f a b \<Longrightarrow> \<not> f b a"
    and neg_trans: "\<not> f b a \<Longrightarrow> \<not> f c b \<Longrightarrow> \<not> f c a"

context weak_order
begin

lemma irrefl: "\<not> f a a"
  using asym by blast

lemma bubble_pass_min: "i < length xs - 1 \<Longrightarrow> min_pass f i xs (bubble_pass f i xs)"
proof -
  assume i: "i < length xs - 1"
  let ?n = "length xs"
  let ?g = "\<lambda>j xs. if f (xs ! j) (xs ! (j - 1)) then swap xs j (j - 1) else xs"
  have "min_pass f k xs (fold ?g (rev [k + 1..<?n]) xs)" if "k < ?n" for k
  proof -
    from that have "k \<le> ?n - 1" by simp
    then show ?thesis
    proof (induction k rule: inc_induct)
      case base
      have "\<not> f (xs ! m) (xs ! (?n - 1))" if "?n - 1 \<le> m" "m < ?n" for m
      proof -
        have "m = ?n - 1" using that by linarith
        then show ?thesis using irrefl by simp
      qed
      moreover have "[?n - 1 + 1..<?n] = []" using i by simp
      ultimately show ?case unfolding min_pass_def by (simp del: One_nat_def)
    next
      case (step k)
      let ?ys = "fold ?g (rev [Suc k + 1..<?n]) xs"
      have e: "fold ?g (rev [k + 1..<?n]) xs = ?g (k + 1) ?ys" using step.hyps by (simp add: upt_conv_Cons)
      have IH: "same xs ?ys" "take (Suc k) ?ys = take (Suc k) xs" "\<And>m. Suc k \<le> m \<Longrightarrow> m < ?n \<Longrightarrow> \<not> f (?ys ! m) (?ys ! Suc k)"
        and l: "length ?ys = ?n" using step.IH by (simp_all add: min_pass_def same_def)
      have k: "Suc k < ?n" using step.hyps by simp
      show ?case
      proof (cases "f (?ys ! Suc k) (?ys ! k)")
        case True
        have s: "same xs (swap ?ys (Suc k) k)" using IH(1) k l by (simp add: same_def)
        have "take k (swap ?ys (Suc k) k) = take k ?ys" by (simp add: swap_def)
        also have "\<dots> = take k xs" using IH(2) by (rule take_shorter)
        finally have t: "take k (swap ?ys (Suc k) k) = take k xs" .
        have "\<not> f (swap ?ys (Suc k) k ! m) (swap ?ys (Suc k) k ! k)" if "k \<le> m" "m < ?n" for m
          using IH(3)[of m] that k l asym[OF True] irrefl by (auto simp: nth_swap)
        then show ?thesis unfolding e using True s t by (simp add: min_pass_def)
      next
        case False
        have t: "take k ?ys = take k xs" using IH(2) by (rule take_shorter)
        have "\<not> f (?ys ! m) (?ys ! k)" if "k \<le> m" "m < ?n" for m
          using neg_trans[OF False IH(3), of m] irrefl that by (cases "m = k") simp_all
        then show ?thesis unfolding e using False IH(1) t by (simp add: min_pass_def)
      qed
    qed
  qed
  from this[of i] i show ?thesis by (simp add: bubble_pass_def)
qed

lemma bubble_sorts: "same xs (BubbleSort f xs) \<and> ordered f (BubbleSort f xs)"
  unfolding BubbleSort_def by (rule min_passes_sort) (simp add: bubble_pass_min)

lemma select_min_spec:
  assumes "i < length xs"
  shows "i \<le> select_min f xs i \<and> select_min f xs i < length xs \<and>
     (\<forall>m. i \<le> m \<and> m < length xs \<longrightarrow> \<not> f (xs ! m) (xs ! select_min f xs i))"
proof -
  let ?g = "\<lambda>j k. if f (xs ! j) (xs ! k) then j else k"
  have "i \<le> fold ?g [i + 1..<k] i \<and> fold ?g [i + 1..<k] i < k \<and>
     (\<forall>m. i \<le> m \<and> m < k \<longrightarrow> \<not> f (xs ! m) (xs ! fold ?g [i + 1..<k] i))" if "i + 1 \<le> k" for k
    using that
  proof (induction k rule: dec_induct)
    case base
    have "\<not> f (xs ! m) (xs ! i)" if "i \<le> m" "m < Suc i" for m
      using that irrefl by (metis le_antisym less_Suc_eq_le)
    then show ?case by simp
  next
    case (step k)
    let ?j = "fold ?g [i + 1..<k] i"
    have e: "fold ?g [i + 1..<Suc k] i = ?g k ?j" using step.hyps by simp
    show ?case
    proof (cases "f (xs ! k) (xs ! ?j)")
      case True
      have "\<not> f (xs ! m) (xs ! k)" if "i \<le> m" "m < Suc k" for m
        using step.IH that neg_trans[OF asym[OF True], of "xs ! m"] irrefl by (cases "m = k") (auto dest: neg_trans)
      then show ?thesis unfolding e using True step by simp
    next
      case False
      then show ?thesis unfolding e using step by (auto simp: less_Suc_eq)
    qed
  qed
  from this[of "length xs"] assms show ?thesis by (simp add: select_min_def)
qed

lemma select_pass_min: "i < length xs - 1 \<Longrightarrow> min_pass f i xs (swap xs i (select_min f xs i))"
proof -
  assume "i < length xs - 1"
  then have i: "i < length xs" by simp
  let ?k = "select_min f xs i"
  have k: "i \<le> ?k" "?k < length xs" "\<And>m. i \<le> m \<Longrightarrow> m < length xs \<Longrightarrow> \<not> f (xs ! m) (xs ! ?k)"
    using select_min_spec[OF i] by simp_all
  have "take i (swap xs i ?k) = take i xs" using k(1) by (simp add: swap_def)
  moreover have "\<not> f (swap xs i ?k ! m) (swap xs i ?k ! i)" if "i \<le> m" "m < length xs" for m
    using k that i by (simp add: nth_swap)
  ultimately show ?thesis using i k by (simp add: min_pass_def same_def)
qed

lemma selection_sorts: "same xs (SelectionSort f xs) \<and> ordered f (SelectionSort f xs)"
  unfolding SelectionSort_def by (rule min_passes_sort) (simp add: select_pass_min)

end

subsection \<open>Insertion and Shell sort\<close>

lemma insert_gap_same: "k < length xs \<Longrightarrow> same (xs[k := t]) (insert_gap f h t xs k)"
proof (induction f h t xs k rule: insert_gap.induct)
  case (1 f h t xs k)
  show ?case
  proof (cases "0 < h \<and> h \<le> k \<and> f t (xs ! (k - h))")
    case False
    have "insert_gap f h t xs k = xs[k := t]" unfolding insert_gap.simps[of f h t xs k] if_not_P[OF False] ..
    then show ?thesis by simp
  next
    case True
    let ?ys = "xs[k := xs ! (k - h)]"
    have "insert_gap f h t xs k = insert_gap f h t ?ys (k - h)"
      unfolding insert_gap.simps[of f h t xs k] if_P[OF True] ..
    moreover have "same (?ys[k - h := t]) (insert_gap f h t ?ys (k - h))" using 1 True by simp
    moreover have "?ys[k - h := t] = swap (xs[k := t]) k (k - h)"
      using True 1(2) by (simp add: swap_def nth_list_update list_update_swap) 
    moreover have "same (xs[k := t]) (swap (xs[k := t]) k (k - h))" using 1(2) by (simp add: same_def)
    ultimately show ?thesis using same_trans by metis
  qed
qed

lemma insert_same: "k < length xs \<Longrightarrow> same xs (insert_gap f h (xs ! k) xs k)"
  using insert_gap_same[of k xs "xs ! k"] by simp

text \<open>The array with a hole at \<open>k\<close>: ordered up to \<open>i\<close>, and above the hole greater than \<open>t\<close>.\<close>

definition holed :: "('a \<Rightarrow> 'a \<Rightarrow> bool) \<Rightarrow> 'a \<Rightarrow> 'a list \<Rightarrow> nat \<Rightarrow> nat \<Rightarrow> bool" where
  "holed f t xs k i \<longleftrightarrow> k \<le> i \<and> i < length xs \<and>
     (\<forall>a b. a < b \<and> b \<le> i \<and> a \<noteq> k \<and> b \<noteq> k \<longrightarrow> \<not> f (xs ! b) (xs ! a)) \<and>
     (\<forall>m. k < m \<and> m \<le> i \<longrightarrow> f t (xs ! m))"

definition prefix_ordered :: "('a \<Rightarrow> 'a \<Rightarrow> bool) \<Rightarrow> 'a list \<Rightarrow> nat \<Rightarrow> bool" where
  "prefix_ordered f xs i \<longleftrightarrow> (\<forall>a b. a < b \<and> b < i \<longrightarrow> \<not> f (xs ! b) (xs ! a))"

context weak_order
begin

lemma insert_gap_sorted: "holed f t xs k i \<Longrightarrow> prefix_ordered f (insert_gap f 1 t xs k) (Suc i)"
proof (induction k arbitrary: xs)
  case 0
  have "insert_gap f 1 t xs 0 = xs[0 := t]" by (simp add: insert_gap.simps)
  moreover have "0 < length xs" using 0 by (cases xs) (simp_all add: holed_def)
  then have "\<not> f (xs[0 := t] ! b) (xs[0 := t] ! a)" if "a < b" "b < Suc i" for a b
    using 0 that asym[of t "xs ! b"] by (cases "a = 0") (simp_all add: holed_def)
  ultimately show ?case by (simp add: prefix_ordered_def)
next
  case (Suc k)
  show ?case
  proof (cases "f t (xs ! k)")
    case True
    let ?ys = "xs[Suc k := xs ! k]"
    have "holed f t ?ys k i"
      using Suc.prems True by (auto simp: holed_def nth_list_update)
    then show ?thesis using Suc.IH[of ?ys] True by (simp add: insert_gap.simps[of f "Suc 0" t xs "Suc k"])
  next
    case False
    have e: "insert_gap f 1 t xs (Suc k) = xs[Suc k := t]"
      using False by (simp add: insert_gap.simps[of f "Suc 0" t xs "Suc k"])
    have "\<not> f t (xs ! a)" if "a < Suc k" for a
    proof (cases "a = k")
      case a: False
      then have "\<not> f (xs ! k) (xs ! a)" using Suc.prems that by (simp add: holed_def)
      then show ?thesis using neg_trans False by blast
    qed (use False in simp)
    note low = this
    have k: "Suc k \<le> i" "i < length xs" using Suc.prems by (simp_all add: holed_def)
    have "\<not> f (xs[Suc k := t] ! b) (xs[Suc k := t] ! a)" if ab: "a < b" "b < Suc i" for a b
    proof -
      consider "a = Suc k" | "b = Suc k" | "a \<noteq> Suc k" "b \<noteq> Suc k" by blast
      then show ?thesis
      proof cases
        case 1
        then show ?thesis using Suc.prems ab k asym[of t "xs ! b"] by (simp add: holed_def)
      next
        case 2
        then show ?thesis using low[of a] ab k by simp
      next
        case 3
        then show ?thesis using Suc.prems ab by (simp add: holed_def)
      qed
    qed
    then show ?thesis unfolding e prefix_ordered_def by blast
  qed
qed

lemma insertion_sorts: "same xs (InsertionSort f xs) \<and> ordered f (InsertionSort f xs)"
proof -
  let ?g = "\<lambda>i xs. insert_gap f 1 (xs ! i) xs i"
  have "same xs (fold ?g [1..<k] xs) \<and> prefix_ordered f (fold ?g [1..<k] xs) k" if "1 \<le> k" "k \<le> length xs" for k
    using that
  proof (induction k rule: dec_induct)
    case base
    then show ?case by (simp add: prefix_ordered_def)
  next
    case (step k)
    let ?ys = "fold ?g [1..<k] xs"
    have IH: "same xs ?ys" "prefix_ordered f ?ys k" and l: "length ?ys = length xs"
      using step by (simp_all add: same_def)
    have "holed f (?ys ! k) ?ys k k" using IH(2) step.prems l by (auto simp: holed_def prefix_ordered_def)
    then have "prefix_ordered f (?g k ?ys) (Suc k)" by (rule insert_gap_sorted)
    moreover have "same xs (?g k ?ys)" using same_trans[OF IH(1)] insert_same[of k ?ys] step.prems l by simp
    ultimately show ?case using step.hyps by simp
  qed
  from this[of "length xs"] show ?thesis
    by (cases xs) (auto simp: InsertionSort_def ordered_nth prefix_ordered_def same_def)
qed

end

lemma shell_indices_bound: "j \<in> set (shell_indices n h c) \<Longrightarrow> j < n"
proof (induction n h c rule: shell_indices.induct)
  case (1 n h c)
  then show ?case by (cases "c < n \<and> 0 < h") (auto simp: shell_indices.simps[of n h c])
qed

lemma shell_indices_1: "shell_indices n 1 c = [c..<n]"
proof (induction n "1::nat" c rule: shell_indices.induct)
  case (1 n c)
  then show ?case by (cases "c < n") (simp_all add: shell_indices.simps[of n "Suc 0" c] upt_conv_Cons)
qed

lemma shell_pass_same: "same (xs :: 'a list) (shell_pass f h xs)"
  unfolding shell_pass_def
proof (rule same_fold)
  fix c :: nat and ys :: "'a list"
  show "same ys (fold (\<lambda>j xs. insert_gap f h (xs ! j) xs j) (shell_indices (length ys) h c) ys)"
  proof (rule same_fold)
    fix j zs assume "j \<in> set (shell_indices (length ys) h c)" "same ys zs"
    then have "j < length zs" using shell_indices_bound by (fastforce simp: same_def)
    then show "same zs (insert_gap f h (zs ! j) zs j)" by (rule insert_same)
  qed
qed

lemma shell_pass_1: "shell_pass f 1 ys = InsertionSort f ys"
proof -
  have "[1..<2 * 1 :: nat] = [1]" by (simp add: upt_rec)
  then show ?thesis unfolding shell_pass_def InsertionSort_def shell_indices_1 by simp
qed

context weak_order
begin

lemma shell_sorts: "same xs (ShellSort f xs) \<and> ordered f (ShellSort f xs)"
proof (cases "1 < length xs")
  case False
  then show ?thesis by (auto simp: ShellSort_def shell_gaps.simps ordered_nth)
next
  case True
  let ?ys = "fold (shell_pass f) (rev (shell_gaps (length xs) 4)) xs"
  have s: "same xs ?ys" by (rule same_fold) (rule shell_pass_same)
  have "ShellSort f xs = shell_pass f 1 ?ys"
    using True by (simp add: ShellSort_def shell_gaps.simps[of "length xs" "Suc 0"])
  also have "\<dots> = InsertionSort f ?ys" by (rule shell_pass_1)
  finally show ?thesis using insertion_sorts[of ?ys] same_trans[OF s] by simp
qed

end

subsection \<open>Merge sort\<close>

lemma merge_mset: "mset (std_merge f xs ys) = mset xs + mset ys"
  by (induction f xs ys rule: std_merge.induct) simp_all

lemma merge_set: "set (std_merge f xs ys) = set xs \<union> set ys"
  by (metis merge_mset set_mset_mset set_mset_union)

lemma merge_ordered: "weak_order f \<Longrightarrow> ordered f xs \<Longrightarrow> ordered f ys \<Longrightarrow> ordered f (std_merge f xs ys)"
proof (induction f xs ys rule: std_merge.induct)
  case (3 f x xs y ys)
  note wo = weak_order.asym[OF "3.prems"(1)] weak_order.neg_trans[OF "3.prems"(1)]
  have o: "\<forall>a\<in>set xs. \<not> f a x" "\<forall>b\<in>set ys. \<not> f b y" "ordered f xs" "ordered f ys"
    using "3.prems" by (simp_all add: ordered_def)
  show ?case
  proof (cases "f y x")
    case True
    have "\<forall>z\<in>set (std_merge f (x # xs) ys). \<not> f z y"
      unfolding merge_set using o wo(1)[OF True] wo(2)[of x y] by auto
    then show ?thesis using "3.IH"(1)[OF True] "3.prems" o True by (simp add: ordered_def)
  next
    case False
    have "\<forall>z\<in>set (std_merge f xs (y # ys)). \<not> f z x"
      unfolding merge_set using o False wo(2)[of y x] by auto
    then show ?thesis using "3.IH"(2)[OF False] "3.prems" o False by (simp add: ordered_def)
  qed
qed (simp_all add: ordered_def)

context weak_order
begin

lemma merge_sorts: "same xs (MergeSort f xs) \<and> ordered f (MergeSort f xs)"
proof (induction "length xs" arbitrary: xs rule: less_induct)
  case less
  show ?case
  proof (cases "1 < length xs")
    case False
    then show ?thesis by (auto simp: MergeSort.simps[of f xs] ordered_nth)
  next
    case True
    let ?l = "take (length xs div 2) xs" and ?r = "drop (length xs div 2) xs"
    have IH: "same ?l (MergeSort f ?l) \<and> ordered f (MergeSort f ?l)" "same ?r (MergeSort f ?r) \<and> ordered f (MergeSort f ?r)"
      using less[of ?l] less[of ?r] True by simp_all
    have e: "MergeSort f xs = std_merge f (MergeSort f ?l) (MergeSort f ?r)" using True by (simp add: MergeSort.simps[of f xs])
    have m: "mset (MergeSort f xs) = mset xs"
      unfolding e merge_mset using IH by (simp add: same_def flip: mset_append)
    then have "length (MergeSort f xs) = length xs" by (rule mset_eq_length)
    then show ?thesis using m merge_ordered[OF weak_order_axioms] IH unfolding same_def e by simp
  qed
qed

end

end
