(* ===== verification/Heap_Quick.thy ===== *)
theory Heap_Quick
  imports Sort_Proofs
begin

text \<open>Heap sort and quick sort, and the properties of all sorts.\<close>

subsection \<open>Heaps\<close>

text \<open>
  Parents from \<open>lo\<close> on, except \<open>e\<close>, are not less than their children among the first \<open>n\<close>
  elements.
\<close>

definition heap_but :: "('a \<Rightarrow> 'a \<Rightarrow> bool) \<Rightarrow> nat option \<Rightarrow> nat \<Rightarrow> nat \<Rightarrow> 'a list \<Rightarrow> bool" where
  "heap_but f e lo n xs \<longleftrightarrow> n \<le> length xs \<and>
     (\<forall>c. 0 < c \<and> c < n \<and> lo \<le> (c - 1) div 2 \<and> e \<noteq> Some ((c - 1) div 2) \<longrightarrow> \<not> f (xs ! ((c - 1) div 2)) (xs ! c))"

text \<open>The parent of \<open>i\<close> is not less than the children of \<open>i\<close>.\<close>

definition bridged :: "('a \<Rightarrow> 'a \<Rightarrow> bool) \<Rightarrow> nat \<Rightarrow> nat \<Rightarrow> nat \<Rightarrow> 'a list \<Rightarrow> bool" where
  "bridged f i lo n xs \<longleftrightarrow> (0 < i \<and> lo \<le> (i - 1) div 2 \<longrightarrow>
     (\<forall>c. 0 < c \<and> c < n \<and> (c - 1) div 2 = i \<longrightarrow> \<not> f (xs ! ((i - 1) div 2)) (xs ! c)))"

definition child :: "('a \<Rightarrow> 'a \<Rightarrow> bool) \<Rightarrow> 'a list \<Rightarrow> nat \<Rightarrow> nat \<Rightarrow> nat" where
  "child f xs i n = (if 2 * i + 1 + 1 < n \<and> f (xs ! (2 * i + 1)) (xs ! (2 * i + 1 + 1)) then 2 * i + 1 + 1 else 2 * i + 1)"

lemma heap_down_unfold:
  "heap_down f xs i n =
     (if 2 * i + 1 < n \<and> f (xs ! i) (xs ! child f xs i n)
      then heap_down f (swap xs (child f xs i n) i) (child f xs i n) n else xs)"
  unfolding heap_down.simps[of f xs i n] Let_def child_def[symmetric] by (cases "2 * i + 1 < n") simp_all

lemma child_bounds: "2 * i + 1 < n \<Longrightarrow> child f xs i n < n \<and> i < child f xs i n \<and>
    (child f xs i n = 2 * i + 1 \<or> child f xs i n = 2 * i + 2) \<and> (child f xs i n - 1) div 2 = i"
  by (simp add: child_def)

lemma heap_down_frame:
  "i < n \<Longrightarrow> n \<le> length xs \<Longrightarrow> same xs (heap_down f xs i n) \<and> drop n (heap_down f xs i n) = drop n xs"
proof (induction "n - i" arbitrary: xs i rule: less_induct)
  case less
  let ?q = "child f xs i n"
  show ?case
  proof (cases "2 * i + 1 < n \<and> f (xs ! i) (xs ! ?q)")
    case False
    show ?thesis unfolding heap_down_unfold[of f xs i n] if_not_P[OF False] by simp
  next
    case True
    then have q: "?q < n" "i < ?q" using child_bounds by blast+
    have "n - ?q < n - i" using q by linarith
    then have IH: "same (swap xs ?q i) (heap_down f (swap xs ?q i) ?q n) \<and>
        drop n (heap_down f (swap xs ?q i) ?q n) = drop n (swap xs ?q i)"
      using less.hyps[of ?q "swap xs ?q i"] q less.prems by simp
    have "same xs (swap xs ?q i)" using q less.prems by (simp add: same_def)
    moreover have "drop n (swap xs ?q i) = drop n xs" using q less.prems by (simp add: swap_def)
    ultimately show ?thesis unfolding heap_down_unfold[of f xs i n] if_P[OF True] using IH same_trans by metis
  qed
qed

context weak_order
begin

lemma heap_down_heap:
  assumes "i < n" "heap_but f (Some i) lo n xs" "bridged f i lo n xs"
  shows "heap_but f None lo n (heap_down f xs i n)"
  using assms
proof (induction "n - i" arbitrary: xs i rule: less_induct)
  case less
  define p where "p = 2 * i + 1"
  define q where "q = child f xs i n"
  have qdef: "q = (if p + 1 < n \<and> f (xs ! p) (xs ! (p + 1)) then p + 1 else p)"
    by (simp add: q_def p_def child_def)
  have n: "n \<le> length xs" using less.prems(2) by (simp add: heap_but_def)
  have children: "c = p \<or> c = p + 1" if "0 < c" "(c - 1) div 2 = i" for c
    using that unfolding p_def by presburger
  have old: "\<not> f (xs ! ((c - 1) div 2)) (xs ! c)" if "0 < c" "c < n" "lo \<le> (c - 1) div 2" "(c - 1) div 2 \<noteq> i" for c
    using less.prems(2) that by (simp add: heap_but_def)
  show ?case
  proof (cases "p < n \<and> f (xs ! i) (xs ! q)")
    case False
    have e: "heap_down f xs i n = xs"
      unfolding heap_down_unfold[of f xs i n] q_def[symmetric] p_def[symmetric] if_not_P[OF False] ..
    have "\<not> f (xs ! i) (xs ! c)" if c: "0 < c" "c < n" "(c - 1) div 2 = i" for c
    proof -
      have pn: "p < n" using children[OF c(1,3)] c(2) by auto
      then have iq: "\<not> f (xs ! i) (xs ! q)" using False by blast
      have "\<not> f (xs ! q) (xs ! c)" if "c = p \<or> c = p + 1"
        using that c(2) asym irrefl by (auto simp: qdef split: if_splits)
      then show ?thesis using neg_trans[OF _ iq] children[OF c(1,3)] by blast
    qed
    then show ?thesis unfolding e using old n by (auto simp: heap_but_def)
  next
    case True
    have pq: "p \<le> q" "q \<le> p + 1" "q < n" "i < q" "(q - 1) div 2 = i"
      using True child_bounds[of i n f xs] by (auto simp: q_def p_def)
    let ?ys = "swap xs q i"
    have e: "heap_down f xs i n = heap_down f ?ys q n"
      unfolding heap_down_unfold[of f xs i n] q_def[symmetric] p_def[symmetric] if_P[OF True] ..
    have ys: "?ys ! k = (if k = q then xs ! i else if k = i then xs ! q else xs ! k)" if "k < n" for k
      using that pq less.prems(1) n by (simp add: nth_swap)
    have big: "\<not> f (xs ! q) (xs ! c)" if "0 < c" "c < n" "(c - 1) div 2 = i" for c
      using children[OF that(1,3)] that(2) asym irrefl by (auto simp: qdef split: if_splits)
    have "\<not> f (?ys ! ((c - 1) div 2)) (?ys ! c)"
      if c: "0 < c" "c < n" "lo \<le> (c - 1) div 2" "(c - 1) div 2 \<noteq> q" for c
    proof -
      have pc: "(c - 1) div 2 < n" using c by linarith
      consider "(c - 1) div 2 = i" | "c = i" "(c - 1) div 2 \<noteq> i" | "c \<noteq> i" "(c - 1) div 2 \<noteq> i" by blast
      then show ?thesis
      proof cases
        case 1
        then have "c \<noteq> i" using c(1) by linarith
        then show ?thesis using 1 big[OF c(1,2)] asym True pq ys[OF c(2)] ys[OF pc] by auto
      next
        case 2
        have "0 < q" "q < n" "(q - 1) div 2 = i" using pq by simp_all
        then have "\<not> f (xs ! ((i - 1) div 2)) (xs ! q)" using less.prems(3) 2 c by (auto simp: bridged_def)
        moreover have "i \<noteq> q" using pq by simp
        ultimately show ?thesis using 2 c ys[OF c(2)] ys[OF pc] by simp
      next
        case 3
        then have "c \<noteq> q" using pq by auto
        then show ?thesis using 3 old[OF c(1-3)] c ys[OF c(2)] ys[OF pc] by simp
      qed
    qed
    then have H: "heap_but f (Some q) lo n ?ys" using n by (auto simp: heap_but_def)
    have "\<not> f (?ys ! i) (?ys ! c)" if c: "0 < c" "c < n" "(c - 1) div 2 = q" "lo \<le> i" for c
    proof -
      have "c \<noteq> q" "c \<noteq> i" using c(1,3) pq(4) by linarith+
      then show ?thesis using old[of c] c pq ys[OF c(2)] ys[of i] less.prems(1) by auto
    qed
    then have B: "bridged f q lo n ?ys" using pq(5) by (simp add: bridged_def)
    have "n - q < n - i" using pq by linarith
    from less.hyps[OF this pq(3) H B] show ?thesis unfolding e .
  qed
qed

lemma heap_top:
  assumes "heap_but f None 0 n xs"
  shows "c < n \<Longrightarrow> \<not> f (xs ! 0) (xs ! c)"
proof (induction c rule: less_induct)
  case (less c)
  show ?case
  proof (cases "c = 0")
    case False
    then have p: "(c - 1) div 2 < c" "(c - 1) div 2 < n" using less.prems by linarith+
    have "\<not> f (xs ! ((c - 1) div 2)) (xs ! c)" using assms less.prems False by (simp add: heap_but_def)
    then show ?thesis using less.IH[OF p] neg_trans by blast
  qed (simp add: irrefl)
qed

lemma heapify:
  assumes "k \<le> (length xs - 1) div 2 + 1" "xs \<noteq> []"
  shows "same xs (fold (\<lambda>i xs. heap_down f xs i (length xs)) (rev [k..<(length xs - 1) div 2 + 1]) xs) \<and>
     heap_but f None k (length xs) (fold (\<lambda>i xs. heap_down f xs i (length xs)) (rev [k..<(length xs - 1) div 2 + 1]) xs)"
  using assms(1)
proof (induction k rule: inc_induct)
  case base
  have "\<not> (0 < c \<and> c < length xs \<and> (length xs - 1) div 2 + 1 \<le> (c - 1) div 2)" for c by linarith
  then show ?case by (auto simp: heap_but_def)
next
  case (step k)
  let ?ys = "fold (\<lambda>i xs. heap_down f xs i (length xs)) (rev [Suc k..<(length xs - 1) div 2 + 1]) xs"
  have e: "rev [k..<(length xs - 1) div 2 + 1] = rev [Suc k..<(length xs - 1) div 2 + 1] @ [k]"
    using step.hyps by (simp add: upt_conv_Cons)
  have IH: "same xs ?ys" "heap_but f None (Suc k) (length xs) ?ys" and l: "length ?ys = length xs"
    using step.IH by (simp_all add: same_def)
  have k: "k < length xs" using step.hyps assms(2) by (cases xs) auto
  have H: "heap_but f (Some k) k (length xs) ?ys" using IH(2) by (auto simp: heap_but_def)
  have B: "bridged f k k (length xs) ?ys" unfolding bridged_def by linarith
  have "heap_but f None k (length xs) (heap_down f ?ys k (length ?ys))"
    unfolding l by (rule heap_down_heap[OF k H B])
  moreover have "same xs (heap_down f ?ys k (length ?ys))"
    using heap_down_frame[of k "length ?ys" ?ys f] k l same_trans[OF IH(1)] by simp
  ultimately show ?case unfolding e by simp
qed

text \<open>Index \<open>i\<close> is next to be filled: a heap up to \<open>i\<close>, in order beyond.\<close>

definition heap_inv :: "nat \<Rightarrow> 'a list \<Rightarrow> bool" where
  "heap_inv i xs \<longleftrightarrow> heap_but f None 0 (Suc i) xs \<and>
     (\<forall>a b. a < b \<and> i < b \<and> b < length xs \<longrightarrow> \<not> f (xs ! b) (xs ! a))"

lemma heap_step:
  assumes "heap_inv (Suc i) xs"
  shows "same xs (heap_down f (swap xs 0 (Suc i)) 0 (Suc i)) \<and> heap_inv i (heap_down f (swap xs 0 (Suc i)) 0 (Suc i))"
proof -
  let ?s = "swap xs 0 (Suc i)" let ?ys = "heap_down f ?s 0 (Suc i)"
  have len: "Suc i < length xs" and heap: "heap_but f None 0 (Suc (Suc i)) xs" using assms by (auto simp: heap_inv_def heap_but_def)
  have s: "?s ! k = (if k = 0 then xs ! Suc i else if k = Suc i then xs ! 0 else xs ! k)" if "k < length xs" for k
  proof -
    have "0 < length xs" using len by linarith
    then show ?thesis using nth_swap[of 0 xs "Suc i" k] that len by simp
  qed
  have fr: "same ?s ?ys" "drop (Suc i) ?ys = drop (Suc i) ?s" using heap_down_frame[of 0 "Suc i" ?s f] len by simp_all
  have "0 < length xs" using len by linarith
  then have ss: "same xs ?s" using len mset_swap_eq[of 0 xs "Suc i"] by (simp add: same_def)
  have l: "length ?ys = length xs" using same_trans[OF ss fr(1)] by (simp add: same_def)
  have "\<not> f (?s ! ((c - 1) div 2)) (?s ! c)" if c: "0 < c" "c < Suc i" "(c - 1) div 2 \<noteq> 0" for c
  proof -
    have p: "(c - 1) div 2 < Suc i" using c by linarith
    then have "?s ! ((c - 1) div 2) = xs ! ((c - 1) div 2)" "?s ! c = xs ! c" using s[of c] s[of "(c - 1) div 2"] c len by simp_all
    then show ?thesis using heap c by (simp add: heap_but_def)
  qed
  then have "heap_but f (Some 0) 0 (Suc i) ?s" using len by (auto simp: heap_but_def)
  then have hp: "heap_but f None 0 (Suc i) ?ys" by (intro heap_down_heap) (simp_all add: bridged_def)
  have hi: "?ys ! b = ?s ! b" if "Suc i \<le> b" "b < length xs" for b
    using arg_cong[OF fr(2), of "\<lambda>zs. zs ! (b - Suc i)"] that l by simp
  have lo: "\<exists>k\<le>Suc i. ?ys ! a = xs ! k" if "a < Suc i" for a
  proof -
    have "?ys ! a \<in> set (take (Suc i) ?s)"
      using nth_in_take[of a "Suc i" ?ys] that l len prefix_set[OF fr] by simp
    then obtain m where "m < Suc i" "?ys ! a = ?s ! m" using in_take_nth by metis
    moreover have "m < length xs" "m \<noteq> Suc i" using calculation(1) len by linarith+
    ultimately have "?ys ! a = (if m = 0 then xs ! Suc i else xs ! m)" using s[of m] by simp
    then show ?thesis using \<open>m < Suc i\<close> by (cases "m = 0") (auto intro: less_imp_le)
  qed
  have "\<not> f (?ys ! b) (?ys ! a)" if ab: "a < b" "i < b" "b < length ?ys" for a b
  proof (cases "b = Suc i")
    case True
    then have "?ys ! b = xs ! 0" using hi[of b] s[of b] ab l by simp
    moreover obtain k where "k \<le> Suc i" "?ys ! a = xs ! k" using lo[of a] ab True by auto
    ultimately show ?thesis using heap_top[OF heap, of k] by simp
  next
    case False
    then have b: "?ys ! b = xs ! b" "Suc i < b" using hi[of b] s[of b] ab l by simp_all
    have "\<exists>k<b. ?ys ! a = xs ! k"
    proof (cases "a < Suc i")
      case True
      then show ?thesis using lo[OF True] b(2) by (meson le_less_trans)
    next
      case f: False
      show ?thesis
      proof (cases "a = Suc i")
        case True
        then have "?ys ! a = xs ! 0" using hi[of a] s[of a] ab l by simp
        moreover have "0 < b" using b(2) by simp
        ultimately show ?thesis by blast
      next
        case False
        then show ?thesis using hi[of a] s[of a] ab l f by auto
      qed
    qed
    then show ?thesis using assms b ab l by (auto simp: heap_inv_def)
  qed
  then show ?thesis using hp same_trans[OF ss fr(1)] unfolding heap_inv_def by blast
qed

lemma heap_sorts: "same xs (HeapSort f xs) \<and> ordered f (HeapSort f xs)"
proof (cases "xs = []")
  case True
  then show ?thesis by (simp add: HeapSort_def heap_down_unfold ordered_nth)
next
  case False
  let ?ys = "fold (\<lambda>i xs. heap_down f xs i (length xs)) (rev [0..<(length xs - 1) div 2 + 1]) xs"
  let ?g = "\<lambda>i xs. heap_down f (swap xs 0 i) 0 i"
  have h: "same xs ?ys" "heap_but f None 0 (length xs) ?ys" using heapify[OF _ False, of 0] by simp_all
  have "same xs (fold ?g (rev [Suc k..<length xs]) ?ys) \<and> heap_inv k (fold ?g (rev [Suc k..<length xs]) ?ys)"
    if "k \<le> length xs - 1" for k
    using that
  proof (induction k rule: inc_induct)
    case base
    have "Suc (length xs - 1) = length xs" using False by simp
    then show ?case using h by (auto simp: heap_inv_def same_def)
  next
    case (step k)
    have e: "fold ?g (rev [Suc k..<length xs]) ?ys = ?g (Suc k) (fold ?g (rev [Suc (Suc k)..<length xs]) ?ys)"
      using step.hyps by (simp add: upt_conv_Cons)
    show ?case unfolding e using heap_step[OF conjunct2[OF step.IH]] same_trans[OF conjunct1[OF step.IH]] by blast
  qed
  from this[of 0] show ?thesis
    by (auto simp: HeapSort_def heap_inv_def ordered_nth)
qed

subsection \<open>Quick sort\<close>

text \<open>
  The element after the range is not less than those in it (the sentinel that stops the scan); the part
  already scanned is on the right side of the pivot.
\<close>

definition sentinel :: "nat \<Rightarrow> nat \<Rightarrow> 'a list \<Rightarrow> bool" where
  "sentinel p q xs \<longleftrightarrow> p \<le> q \<and> Suc q < length xs \<and> (\<forall>k. p \<le> k \<and> k \<le> q \<longrightarrow> \<not> f (xs ! Suc q) (xs ! k))"

lemma scan_up_stops:
  "i \<le> s \<Longrightarrow> s < length xs \<Longrightarrow> \<not> f (xs ! s) b \<Longrightarrow>
   \<exists>l. scan_up f xs b i = Some l \<and> i \<le> l \<and> l \<le> s \<and> \<not> f (xs ! l) b \<and> (\<forall>k. i \<le> k \<and> k < l \<longrightarrow> f (xs ! k) b)"
proof (induction "s - i" arbitrary: i)
  case 0
  then show ?case by (auto simp: scan_up.simps[of f xs b i])
next
  case (Suc d)
  then have i: "i < s" "i < length xs" by simp_all
  show ?case
  proof (cases "f (xs ! i) b")
    case True
    obtain l where l: "scan_up f xs b (i + 1) = Some l" "i + 1 \<le> l" "l \<le> s" "\<not> f (xs ! l) b"
        "\<forall>k. i + 1 \<le> k \<and> k < l \<longrightarrow> f (xs ! k) b"
    proof -
      have "d = s - (i + 1)" "i + 1 \<le> s" using Suc.hyps(2) i by simp_all
      then show ?thesis using Suc.hyps(1)[of "i + 1"] Suc.prems(2,3) that by blast
    qed
    have "f (xs ! k) b" if "i \<le> k" "k < l" for k using l(5) that True by (cases "k = i") simp_all
    then show ?thesis using l True i by (auto simp: scan_up.simps[of f xs b i])
  next
    case False
    then show ?thesis using i by (auto simp: scan_up.simps[of f xs b i])
  qed
qed

lemma scan_down_stops:
  "s \<le> i \<Longrightarrow> \<not> f b (xs ! s) \<Longrightarrow>
   \<exists>u. scan_down f xs b i = Some u \<and> s \<le> u \<and> u \<le> i \<and> \<not> f b (xs ! u) \<and> (\<forall>k. u < k \<and> k \<le> i \<longrightarrow> f b (xs ! k))"
proof (induction i)
  case (Suc i)
  show ?case
  proof (cases "f b (xs ! Suc i)")
    case True
    then have "s \<noteq> Suc i" using Suc.prems by auto
    then obtain u where "scan_down f xs b i = Some u" "s \<le> u" "u \<le> i" "\<not> f b (xs ! u)" "\<forall>k. u < k \<and> k \<le> i \<longrightarrow> f b (xs ! k)"
      using Suc by auto
    then show ?thesis using True by (auto simp: le_Suc_eq)
  qed (use Suc.prems in auto)
qed simp

definition part_inv :: "nat \<Rightarrow> nat \<Rightarrow> nat \<Rightarrow> nat \<Rightarrow> 'a list \<Rightarrow> bool" where
  "part_inv p q l u xs \<longleftrightarrow> sentinel p q xs \<and> p < l \<and> p \<le> u \<and> u \<le> q \<and>
     (\<forall>k. p < k \<and> k < l \<and> k \<le> u \<longrightarrow> \<not> f (xs ! p) (xs ! k)) \<and>
     (\<forall>k. u < k \<and> k \<le> q \<longrightarrow> \<not> f (xs ! k) (xs ! p))"

text \<open>What stays outside a range, inside it only moves.\<close>

definition moved :: "nat \<Rightarrow> nat \<Rightarrow> 'a list \<Rightarrow> 'a list \<Rightarrow> bool" where
  "moved p q xs ys \<longleftrightarrow> same xs ys \<and> (\<forall>k<length xs. k < p \<or> q < k \<longrightarrow> ys ! k = xs ! k) \<and>
     (\<forall>k. p \<le> k \<and> k \<le> q \<longrightarrow> (\<exists>m. p \<le> m \<and> m \<le> q \<and> ys ! k = xs ! m))"

lemma moved_refl: "moved p q xs xs"
  unfolding moved_def using same_refl by blast

lemma moved_trans:
  assumes "moved p q xs ys" "moved p q ys zs"
  shows "moved p q xs zs"
proof -
  have "\<exists>m. p \<le> m \<and> m \<le> q \<and> zs ! k = xs ! m" if k: "p \<le> k" "k \<le> q" for k
  proof -
    obtain m where m: "p \<le> m" "m \<le> q" "zs ! k = ys ! m" using assms(2) k unfolding moved_def by blast
    then show ?thesis using assms(1) unfolding moved_def by metis
  qed
  moreover have "zs ! k = xs ! k" if k: "k < length xs" "k < p \<or> q < k" for k
  proof -
    have "length ys = length xs" using assms(1) by (simp add: moved_def same_def)
    then have "zs ! k = ys ! k" "ys ! k = xs ! k" using assms k unfolding moved_def by (metis, blast)
    then show ?thesis by simp
  qed
  moreover have "same xs zs" using assms same_trans unfolding moved_def by blast
  ultimately show ?thesis unfolding moved_def by blast
qed

text \<open>The same with an upper bound that is excluded, for ranges that may be empty.\<close>

definition within :: "nat \<Rightarrow> nat \<Rightarrow> 'a list \<Rightarrow> 'a list \<Rightarrow> bool" where
  "within p v xs ys \<longleftrightarrow> same xs ys \<and> (\<forall>k<length xs. k < p \<or> v \<le> k \<longrightarrow> ys ! k = xs ! k) \<and>
     (\<forall>k. p \<le> k \<and> k < v \<longrightarrow> (\<exists>m. p \<le> m \<and> m < v \<and> ys ! k = xs ! m))"

lemma within_refl: "within p v xs xs"
  unfolding within_def using same_refl by blast

lemma moved_within: "moved p q xs ys = within p (Suc q) xs ys"
  by (simp add: moved_def within_def less_Suc_eq_le Suc_le_eq)

lemma within_mono:
  assumes "within p v xs ys" "p' \<le> p" "v \<le> v'" "v' \<le> length xs"
  shows "within p' v' xs ys"
proof -
  have "\<exists>m. p' \<le> m \<and> m < v' \<and> ys ! k = xs ! m" if k: "p' \<le> k" "k < v'" for k
  proof (cases "p \<le> k \<and> k < v")
    case True
    then obtain m where "p \<le> m" "m < v" "ys ! k = xs ! m" using assms(1) unfolding within_def by blast
    then show ?thesis using assms(2,3) by (meson le_trans less_le_trans)
  next
    case False
    then have "ys ! k = xs ! k" using assms(1,4) k unfolding within_def by (metis less_le_trans not_le)
    then show ?thesis using k by blast
  qed
  moreover have "ys ! k = xs ! k" if "k < length xs" "k < p' \<or> v' \<le> k" for k
    using assms that unfolding within_def by (meson le_trans less_le_trans)
  ultimately show ?thesis using assms(1) unfolding within_def by blast
qed

lemma moved_mono: "moved p q xs ys \<Longrightarrow> p' \<le> p \<Longrightarrow> q \<le> q' \<Longrightarrow> q' < length xs \<Longrightarrow> moved p' q' xs ys"
  using within_mono[of p "Suc q" xs ys p' "Suc q'"] by (simp add: moved_within Suc_le_eq)

lemma moved_swap: "p \<le> i \<Longrightarrow> i \<le> q \<Longrightarrow> p \<le> j \<Longrightarrow> j \<le> q \<Longrightarrow> q < length xs \<Longrightarrow> moved p q xs (swap xs i j)"
  unfolding moved_def by (auto simp: same_def nth_swap)

lemma sentinel_moved:
  assumes "sentinel p q xs" "moved p q xs ys"
  shows "sentinel p q ys"
proof -
  have l: "length ys = length xs" using assms(2) by (simp add: moved_def same_def)
  have s: "Suc q < length xs" "\<And>m. p \<le> m \<Longrightarrow> m \<le> q \<Longrightarrow> \<not> f (xs ! Suc q) (xs ! m)" "p \<le> q"
    using assms(1) by (simp_all add: sentinel_def)
  have e: "ys ! Suc q = xs ! Suc q" using assms(2) s(1) by (simp add: moved_def)
  have "\<not> f (ys ! Suc q) (ys ! k)" if k: "p \<le> k" "k \<le> q" for k
  proof -
    obtain m where "p \<le> m" "m \<le> q" "ys ! k = xs ! m" using assms(2) k unfolding moved_def by blast
    then show ?thesis using s(2)[of m] e by simp
  qed
  then show ?thesis using s l by (simp add: sentinel_def)
qed

lemma partition_spec:
  assumes "part_inv p q l u xs"
  shows "\<exists>ys v. qs_partition f p l u xs = Some (ys, v) \<and> moved (Suc p) q xs ys \<and> ys ! p = xs ! p \<and>
     p \<le> v \<and> v \<le> q \<and> sentinel p q ys \<and>
     (\<forall>k. p < k \<and> k \<le> v \<longrightarrow> \<not> f (ys ! p) (ys ! k)) \<and> (\<forall>k. v < k \<and> k \<le> q \<longrightarrow> \<not> f (ys ! k) (ys ! p))"
  using assms
proof (induction "Suc u - l" arbitrary: l u xs rule: less_induct)
  case less
  have I: "sentinel p q xs" "p < l" "p \<le> u" "u \<le> q"
      "\<And>k. p < k \<Longrightarrow> k < l \<Longrightarrow> k \<le> u \<Longrightarrow> \<not> f (xs ! p) (xs ! k)" "\<And>k. u < k \<Longrightarrow> k \<le> q \<Longrightarrow> \<not> f (xs ! k) (xs ! p)"
    using less.prems by (simp_all add: part_inv_def)
  have s: "p \<le> q" "Suc q < length xs" "\<not> f (xs ! Suc q) (xs ! p)" using I(1) by (simp_all add: sentinel_def)
  show ?case
  proof (cases "l \<le> u")
    case False
    have "qs_partition f p l u xs = Some (xs, u)"
      using False by (simp add: qs_partition.simps[of f p l u xs])
    moreover have "\<not> f (xs ! p) (xs ! k)" if "p < k" "k \<le> u" for k using I(5)[of k] that False by simp
    ultimately show ?thesis using I(1,3,4,6) moved_refl by blast
  next
    case True
    have "l \<le> Suc q" using True I(4) by simp
    then obtain l' where l': "scan_up f xs (xs ! p) l = Some l'" "l \<le> l'" "l' \<le> Suc q" "\<not> f (xs ! l') (xs ! p)"
        "\<And>k. l \<le> k \<Longrightarrow> k < l' \<Longrightarrow> f (xs ! k) (xs ! p)" using scan_up_stops s(2,3) by metis
    obtain u' where u': "scan_down f xs (xs ! p) u = Some u'" "p \<le> u'" "u' \<le> u" "\<not> f (xs ! p) (xs ! u')"
        "\<And>k. u' < k \<Longrightarrow> k \<le> u \<Longrightarrow> f (xs ! p) (xs ! k)" using scan_down_stops[OF I(3)] irrefl by metis
    have low: "\<not> f (xs ! p) (xs ! k)" if "p < k" "k < l'" "k \<le> u" for k
      using I(5)[of k] l'(5)[of k] that asym by (cases "k < l") auto
    have high: "\<not> f (xs ! k) (xs ! p)" if "u' < k" "k \<le> q" for k
      using I(6)[of k] u'(5)[of k] that asym by (cases "u < k") auto
    show ?thesis
    proof (cases "l' < u'")
      case swp: True
      let ?ys = "swap xs l' u'"
      have b: "p < l'" "u' \<le> q" "l' < length xs" "u' < length xs" using I(2,4) l' u' swp s(2) by linarith+
      have ys: "?ys ! k = (if k = l' then xs ! u' else if k = u' then xs ! l' else xs ! k)" if "k < length xs" for k
        using that b by (simp add: nth_swap)
      have yp: "?ys ! p = xs ! p" using ys[of p] b swp by simp
      have m: "moved (Suc p) q xs ?ys" using b swp s(2) by (intro moved_swap) simp_all
      have "\<not> f (?ys ! p) (?ys ! k)" if "p < k" "k < l' + 1" "k \<le> u' - 1" for k
        using that low[of k] u' ys[of k] b swp yp by (cases "k = l'") simp_all
      moreover have "\<not> f (?ys ! k) (?ys ! p)" if "u' - 1 < k" "k \<le> q" for k
        using that high[of k] l' ys[of k] b swp yp s(2) by (cases "k = u'") simp_all
      moreover have "sentinel p q ?ys"
        by (rule sentinel_moved[OF I(1)]) (use m s in \<open>auto intro: moved_mono\<close>)
      ultimately have P: "part_inv p q (l' + 1) (u' - 1) ?ys" unfolding part_inv_def using b swp by auto
      have "Suc (u' - 1) - (l' + 1) < Suc u - l" using swp l' u' True by linarith
      from less.hyps[OF this P] obtain zs v where z: "qs_partition f p (l' + 1) (u' - 1) ?ys = Some (zs, v)"
          "moved (Suc p) q ?ys zs" "zs ! p = ?ys ! p" "p \<le> v" "v \<le> q" "sentinel p q zs"
          "\<forall>k. p < k \<and> k \<le> v \<longrightarrow> \<not> f (zs ! p) (zs ! k)" "\<forall>k. v < k \<and> k \<le> q \<longrightarrow> \<not> f (zs ! k) (zs ! p)" by blast
      have "qs_partition f p l u xs = Some (zs, v)"
        using True l'(1) u'(1) swp z(1) by (simp add: qs_partition.simps[of f p l u xs])
      then show ?thesis using z moved_trans[OF m z(2)] yp by metis
    next
      case False
      have P: "part_inv p q (l' + 1) u' xs"
        unfolding part_inv_def
      proof (intro conjI allI impI)
        show "\<not> f (xs ! p) (xs ! k)" if "p < k \<and> k < l' + 1 \<and> k \<le> u'" for k
        proof (cases "k < l'")
          case True
          then show ?thesis using that low[of k] u' by simp
        next
          case f: False
          then have "k = u'" using that False by linarith
          then show ?thesis using u'(4) by simp
        qed
      qed (use I l' u' high in auto)
      have "Suc u' - (l' + 1) < Suc u - l" using l' u' True False by linarith
      from less.hyps[OF this P] show ?thesis
        using True l'(1) u'(1) False by (simp add: qs_partition.simps[of f p l u xs])
    qed
  qed
qed

lemma quick_sort_spec:
  assumes "p < q" "sentinel p q xs"
  shows "\<exists>ys rs'. quick_sort f p q xs rs = Some (ys, rs') \<and> moved p q xs ys \<and>
     (\<forall>a b. p \<le> a \<and> a < b \<and> b \<le> q \<longrightarrow> \<not> f (ys ! b) (ys ! a))"
  using assms
proof (induction "q - p" arbitrary: p q xs rs rule: less_induct)
  case less
  obtain r rs1 where r: "next_rand rs = (r, rs1)" by force
  define t where "t = r mod (q - p) + p"
  have "r mod (q - p) < q - p" using less.prems(1) by simp
  then have "t < q" unfolding t_def by linarith
  then have t: "p \<le> t" "t \<le> q" "q < length xs" "Suc q < length xs"
    using less.prems by (simp_all add: t_def sentinel_def)
  let ?x0 = "swap xs p t"
  have m0: "moved p q xs ?x0" using t less.prems(1) by (intro moved_swap) simp_all
  have s0: "sentinel p q ?x0" by (rule sentinel_moved[OF less.prems(2) m0])
  have "part_inv p q (p + 1) q ?x0" using s0 less.prems(1) by (auto simp: part_inv_def)
  from partition_spec[OF this] obtain x1 v where part: "qs_partition f p (p + 1) q ?x0 = Some (x1, v)"
      "moved (Suc p) q ?x0 x1" "x1 ! p = ?x0 ! p" "p \<le> v" "v \<le> q" "sentinel p q x1"
      "\<And>k. p < k \<Longrightarrow> k \<le> v \<Longrightarrow> \<not> f (x1 ! p) (x1 ! k)" "\<And>k. v < k \<Longrightarrow> k \<le> q \<Longrightarrow> \<not> f (x1 ! k) (x1 ! p)"
    by metis
  have m1: "moved p q xs x1"
    using moved_trans[OF m0 moved_mono[OF part(2), of p q]] t(3) by simp
  have l1: "length x1 = length xs" using m1 by (simp add: moved_def same_def)
  let ?x2 = "swap x1 v p"
  have x2: "?x2 ! k = (if k = v then x1 ! p else if k = p then x1 ! v else x1 ! k)" if "k < length xs" for k
    using that part(4,5) t(3) l1 less.prems(1) by (simp add: nth_swap)
  have m2: "moved p q x1 ?x2" using part(4,5) t(3) l1 less.prems(1) by (intro moved_swap) simp_all
  have s2: "sentinel p q ?x2" by (rule sentinel_moved[OF part(6) m2])
  have lo: "\<not> f (?x2 ! v) (?x2 ! k)" if "p \<le> k" "k \<le> v" for k
  proof -
    consider "k = v" | "k \<noteq> v" "k = p" | "k \<noteq> v" "k \<noteq> p" by blast
    then show ?thesis
      using part(7)[of k] part(7)[of v] that part(5) t(3) x2[of k] x2[of v] irrefl by cases auto
  qed
  have hi: "\<not> f (?x2 ! k) (?x2 ! v)" if "v < k" "k \<le> q" for k
    using part(8)[of k] that part(4) t(3) x2[of k] x2[of v] by simp
  define left where "left = (if p + 1 < v then quick_sort f p (v - 1) ?x2 rs1 else Some (?x2, rs1))"
  have "\<exists>x3 rs2. left = Some (x3, rs2) \<and> within p v ?x2 x3 \<and>
     (\<forall>a b. p \<le> a \<and> a < b \<and> b < v \<longrightarrow> \<not> f (x3 ! b) (x3 ! a))"
  proof (cases "p + 1 < v")
    case True
    then have v: "v = Suc (v - 1)" by simp
    have "\<not> f (?x2 ! v) (?x2 ! k)" if "p \<le> k" "k \<le> v - 1" for k using lo[of k] that by linarith
    moreover have "p \<le> v - 1" "v < length ?x2" using True part(5) t(4) l1 by simp_all
    ultimately have "sentinel p (v - 1) ?x2" using v unfolding sentinel_def by simp
    moreover have "v - 1 - p < q - p" "p < v - 1" using True part(5) by linarith+
    ultimately obtain x3 rs2 where h: "quick_sort f p (v - 1) ?x2 rs1 = Some (x3, rs2)" "moved p (v - 1) ?x2 x3"
        "\<forall>a b. p \<le> a \<and> a < b \<and> b \<le> v - 1 \<longrightarrow> \<not> f (x3 ! b) (x3 ! a)" using less.hyps by blast
    have "\<not> f (x3 ! b) (x3 ! a)" if "p \<le> a" "a < b" "b < v" for a b using h(3) that by simp
    moreover have "within p v ?x2 x3" using h(2) v by (simp add: moved_within)
    moreover have "left = Some (x3, rs2)" unfolding left_def if_P[OF True] by (rule h(1))
    ultimately show ?thesis by blast
  next
    case False
    have "left = Some (?x2, rs1)" unfolding left_def if_not_P[OF False] ..
    moreover have "\<not> f (?x2 ! b) (?x2 ! a)" if "p \<le> a" "a < b" "b < v" for a b using that False by linarith
    ultimately show ?thesis using within_refl by blast
  qed
  then obtain x3 rs2 where left: "left = Some (x3, rs2)" "within p v ?x2 x3"
      "\<And>a b. p \<le> a \<Longrightarrow> a < b \<Longrightarrow> b < v \<Longrightarrow> \<not> f (x3 ! b) (x3 ! a)" by blast
  define right where "right = (if v + 1 < q then quick_sort f (v + 1) q x3 rs2 else Some (x3, rs2))"
  have l3: "length x3 = length xs" using left(2) l1 by (simp add: within_def same_def)
  have x3: "x3 ! k = ?x2 ! k" if "v \<le> k" "k < length xs" for k
    using left(2) that l1 by (simp add: within_def)
  have "\<exists>x4 rs3. right = Some (x4, rs3) \<and> within (v + 1) (Suc q) x3 x4 \<and>
     (\<forall>a b. v < a \<and> a < b \<and> b \<le> q \<longrightarrow> \<not> f (x4 ! b) (x4 ! a))"
  proof (cases "v + 1 < q")
    case True
    have "\<not> f (x3 ! Suc q) (x3 ! k)" if "v + 1 \<le> k" "k \<le> q" for k
      using s2 that part(4) x3[of k] x3[of "Suc q"] t(4) part(5) by (simp add: sentinel_def)
    then have "sentinel (v + 1) q x3" using True t(4) l3 by (simp add: sentinel_def)
    moreover have "q - (v + 1) < q - p" using True part(4) by linarith
    ultimately obtain x4 rs3 where h: "quick_sort f (v + 1) q x3 rs2 = Some (x4, rs3)" "moved (v + 1) q x3 x4"
        "\<forall>a b. v + 1 \<le> a \<and> a < b \<and> b \<le> q \<longrightarrow> \<not> f (x4 ! b) (x4 ! a)" using less.hyps True by blast
    moreover have "right = Some (x4, rs3)" unfolding right_def if_P[OF True] by (rule h(1))
    ultimately show ?thesis by (auto simp: moved_within)
  next
    case False
    have "right = Some (x3, rs2)" unfolding right_def if_not_P[OF False] ..
    moreover have "\<not> f (x3 ! b) (x3 ! a)" if "v < a" "a < b" "b \<le> q" for a b using that False by linarith
    ultimately show ?thesis using within_refl by blast
  qed
  then obtain x4 rs3 where right: "right = Some (x4, rs3)" "within (v + 1) (Suc q) x3 x4"
      "\<And>a b. v < a \<Longrightarrow> a < b \<Longrightarrow> b \<le> q \<Longrightarrow> \<not> f (x4 ! b) (x4 ! a)" by blast
  have res: "quick_sort f p q xs rs = Some (x4, rs3)"
  proof -
    have "q - p \<noteq> 0" using less.prems(1) by simp
    then show ?thesis
      unfolding quick_sort.simps[of f p q xs rs] r prod.case t_def[symmetric] part(1) bind.simps left_def[symmetric]
        left(1) right_def[symmetric] right(1) by simp
  qed
  have x4: "x4 ! k = x3 ! k" if "k \<le> v" for k
    using right(2) that l3 part(5) t(3) by (simp add: within_def)
  have pv: "x4 ! v = ?x2 ! v" using x4[of v] x3[of v] part(5) t(3) by simp
  have L: "\<not> f (x4 ! v) (x4 ! k)" if k: "p \<le> k" "k < v" for k
  proof -
    obtain m where "p \<le> m" "m < v" "x3 ! k = ?x2 ! m" using left(2) k unfolding within_def by blast
    then show ?thesis using lo[of m] x4[of k] k(2) pv by simp
  qed
  have R: "\<not> f (x4 ! k) (x4 ! v)" if k: "v < k" "k \<le> q" for k
  proof -
    have "v + 1 \<le> k \<and> k < Suc q" using k by simp
    then obtain m where "v + 1 \<le> m" "m < Suc q" "x4 ! k = x3 ! m" using right(2) unfolding within_def by blast
    then show ?thesis using hi[of m] x3[of m] t(3) pv by simp
  qed
  have "\<not> f (x4 ! b) (x4 ! a)" if ab: "p \<le> a" "a < b" "b \<le> q" for a b
  proof -
    consider "b < v" | "b = v" | "v < b" "a < v" | "v < b" "a = v" | "v < a" by linarith
    then show ?thesis
    proof cases
      case 1
      then show ?thesis using left(3)[of a b] x4[of a] x4[of b] ab by simp
    next
      case 2
      then show ?thesis using L[of a] ab by simp
    next
      case 3
      then show ?thesis using neg_trans[OF L R] ab by blast
    next
      case 4
      then show ?thesis using R[of b] ab by simp
    next
      case 5
      then show ?thesis using right(3) ab by blast
    qed
  qed
  moreover have "moved p q xs x4"
  proof -
    have "moved p q ?x2 x3" "moved p q x3 x4"
      unfolding moved_within using within_mono[OF left(2), of p "Suc q"] within_mono[OF right(2), of p "Suc q"]
        part(4,5) t(4) l1 l3 by simp_all
    then show ?thesis using m1 m2 moved_trans by blast
  qed
  ultimately show ?case using res by blast
qed

lemma quick_max:
  assumes "xs \<noteq> []"
  defines "m \<equiv> fold (\<lambda>i m. if f (xs ! m) (xs ! i) then i else m) [1..<length xs] 0"
  shows "m < length xs \<and> (\<forall>k<length xs. \<not> f (xs ! m) (xs ! k))"
proof -
  let ?g = "\<lambda>i m. if f (xs ! m) (xs ! i) then i else m"
  have "fold ?g [1..<n] 0 < n \<and> (\<forall>k<n. \<not> f (xs ! fold ?g [1..<n] 0) (xs ! k))" if "1 \<le> n" for n
    using that
  proof (induction n rule: dec_induct)
    case base
    then show ?case by (simp add: irrefl)
  next
    case (step n)
    let ?m = "fold ?g [1..<n] 0"
    have e: "fold ?g [1..<Suc n] 0 = ?g n ?m" using step.hyps by simp
    show ?case
    proof (cases "f (xs ! ?m) (xs ! n)")
      case True
      have "\<not> f (xs ! n) (xs ! k)" if "k < Suc n" for k
      proof (cases "k = n")
        case False
        then have "\<not> f (xs ! ?m) (xs ! k)" using step.IH that by simp
        then show ?thesis using neg_trans[of "xs ! ?m" "xs ! k" "xs ! n"] asym[OF True] by blast
      qed (simp add: irrefl)
      then show ?thesis unfolding e using True by simp
    next
      case False
      then show ?thesis unfolding e using step.IH by (auto simp: less_Suc_eq)
    qed
  qed
  from this[of "length xs"] show ?thesis using assms(1) by (cases xs) (simp_all add: m_def)
qed

lemma quick_sorts: "length xs \<noteq> 2 \<Longrightarrow> \<exists>ys. QuickSort f xs rs = Some ys \<and> same xs ys \<and> ordered f ys"
proof -
  assume n2: "length xs \<noteq> 2"
  show ?thesis
  proof (cases "length xs < 2")
    case True
    then show ?thesis by (auto simp: QuickSort_def ordered_nth)
  next
    case False
    then have n: "2 < length xs" using n2 by simp
    then have ne: "xs \<noteq> []" by auto
    define m where "m = fold (\<lambda>i m. if f (xs ! m) (xs ! i) then i else m) [1..<length xs] 0"
    have m: "m < length xs" "\<And>k. k < length xs \<Longrightarrow> \<not> f (xs ! m) (xs ! k)"
      using quick_max[OF ne] unfolding m_def by blast+
    let ?n = "length xs - 1" let ?x = "swap xs ?n m"
    have nn: "?n < length xs" "Suc (length xs - 2) = ?n" using n by linarith+
    have x: "?x ! k = (if k = ?n then xs ! m else if k = m then xs ! ?n else xs ! k)" if "k < length xs" for k
      using nth_swap[OF nn(1) m(1) that] .
    have top: "\<not> f (?x ! ?n) (?x ! k)" if "k < length xs" for k
      using x[OF that] x[OF nn(1)] m(2)[of ?n] m(2)[OF that] m(2)[OF m(1)] nn(1) by (simp split: if_splits)
    have "sentinel 0 (length xs - 2) ?x" unfolding sentinel_def nn(2) using top nn by simp
    then obtain ys rs' where q: "quick_sort f 0 (length xs - 2) ?x rs = Some (ys, rs')" "moved 0 (length xs - 2) ?x ys"
        "\<And>a b. a < b \<Longrightarrow> b \<le> length xs - 2 \<Longrightarrow> \<not> f (ys ! b) (ys ! a)"
      using quick_sort_spec[of 0 "length xs - 2" ?x rs] n by auto
    have s: "same xs ?x" using nn m(1) mset_swap_eq[of ?n xs m] by (simp add: same_def)
    have "same xs ys" using same_trans[OF s] q(2) by (simp add: moved_def)
    moreover have "\<not> f (ys ! b) (ys ! a)" if ab: "a < b" "b < length xs" for a b
    proof (cases "b = ?n")
      case True
      then have "ys ! b = ?x ! ?n" using q(2) nn by (simp add: moved_def)
      moreover obtain k where "k \<le> length xs - 2" "ys ! a = ?x ! k"
        using q(2) ab True unfolding moved_def by (metis One_nat_def Suc_leI diff_Suc_1 le0 less_Suc_eq_le nn(2))
      ultimately show ?thesis using top[of k] n by simp
    next
      case False
      then show ?thesis using q(3)[of a b] ab by simp
    qed
    ultimately have "ordered f ys" "same xs ys" by (auto simp: ordered_nth same_def)
    moreover have "QuickSort f xs rs = Some ys"
      using False q(1) by (simp add: QuickSort_def Let_def m_def)
    ultimately show ?thesis by blast
  qed
qed

end

subsection \<open>Properties\<close>

interpretation int_order: weak_order cmp
  by unfold_locales (auto simp: cmp_def)

text \<open>Two elements: the range left for \<open>quick_sort\<close> has one, and \<open>rand() % 0\<close> is computed.\<close>

lemma quick_two: "length xs = 2 \<Longrightarrow> QuickSort f xs rs = None"
  by (simp add: QuickSort_def Let_def quick_sort.simps)

lemma sort_unique: "same xs ys \<Longrightarrow> ordered cmp ys \<Longrightarrow> ys = sort xs"
  using properties_for_sort[of ys xs]
  by (auto simp: same_def ordered_def cmp_def not_less)

text \<open>
  C8. Bubble, selection, insertion, Shell, merge and heap sort permute the array and order it, for every
  comparison that is a strict weak order.
\<close>

theorem sorts_correct:
  assumes "weak_order f"
  shows "\<forall>s \<in> {BubbleSort f, SelectionSort f, InsertionSort f, ShellSort f, MergeSort f, HeapSort f}.
     mset (s xs) = mset xs \<and> sorted_wrt (\<lambda>a b. \<not> f b a) (s xs)"
  using weak_order.bubble_sorts[OF assms] weak_order.selection_sorts[OF assms] weak_order.insertion_sorts[OF assms]
    weak_order.shell_sorts[OF assms] weak_order.merge_sorts[OF assms] weak_order.heap_sorts[OF assms]
  by (simp add: same_def ordered_def)

theorem sorts_correct_witness:
  "weak_order cmp \<and> mset (HeapSort cmp [10, 9, 8, 4, 5, 7, 6, 3, 1, 4]) = mset [10, 9, 8, 4, 5, 7, 6, 3, 1, 4] \<and>
   sorted (ShellSort cmp [10, 9, 8, 4, 5, 7, 6, 3, 1, 4])"
  using sorts_correct[OF int_order.weak_order_axioms, of "[10, 9, 8, 4, 5, 7, 6, 3, 1, 4]"] int_order.weak_order_axioms
  by (simp add: cmp_def not_less)

text \<open>
  C7. Quick sort, whatever numbers \<open>rand\<close> returns, ends, stays in the array and returns the sorted
  array, unless the array has exactly two elements: then it computes a remainder by zero.
\<close>

theorem quick_sort_correct:
  "(length xs \<noteq> 2 \<longrightarrow> QuickSort cmp xs rs = Some (sort xs)) \<and> (length xs = 2 \<longrightarrow> QuickSort cmp xs rs = None)"
  using int_order.quick_sorts[of xs rs] sort_unique[of xs] quick_two[of xs cmp rs] by auto

theorem quick_sort_correct_witness:
  "QuickSort cmp [10, 9, 8, 4] [3, 1] = Some (sort [10, 9, 8, 4]) \<and> QuickSort cmp [2, 1] [] = None"
  using quick_sort_correct[of "[10, 9, 8, 4]" "[3, 1]"] quick_sort_correct[of "[2, 1]" "[]"] by simp

end
