(* ===== verification/Heap_Queue.thy ===== *)
theory Heap_Queue
  imports Heap_Quick
begin

text \<open>
  The priority queue \<open>acm-lib/heap\<close>: a binary heap in an array, for a comparison that is a strict weak order.
  The array that \<open>new T[size]\<close> returns, with whatever it contains, is an argument.
\<close>

record 'a Heap =
  m_pdata :: "'a list"
  max_size :: nat
  curr_size :: nat

definition heap_new :: "'a list \<Rightarrow> 'a Heap" where
  "heap_new mem = \<lparr>m_pdata = mem, max_size = length mem, curr_size = 0\<rparr>"

definition isEmpty :: "'a Heap \<Rightarrow> bool" where
  "isEmpty h \<longleftrightarrow> curr_size h = 0"

definition isFull :: "'a Heap \<Rightarrow> bool" where
  "isFull h \<longleftrightarrow> curr_size h = max_size h"

definition clear :: "'a Heap \<Rightarrow> 'a Heap" where
  "clear h = h\<lparr>curr_size := 0\<rparr>"

function up_loop :: "('a \<Rightarrow> 'a \<Rightarrow> bool) \<Rightarrow> 'a \<Rightarrow> 'a list \<Rightarrow> nat \<Rightarrow> 'a list" where
  "up_loop m_f target xs currentpos =
     (if currentpos \<noteq> 0 then
        let parentpos = (currentpos - 1) div 2
        in if \<not> m_f (xs ! currentpos) (xs ! parentpos) then xs[currentpos := target]
           else up_loop m_f target (swap xs parentpos currentpos) parentpos
      else xs[currentpos := target])"
  by pat_completeness auto
termination by (relation "measure (\<lambda>(m_f, target, xs, currentpos). currentpos)") auto

declare up_loop.simps [simp del]

definition FilterUp :: "('a \<Rightarrow> 'a \<Rightarrow> bool) \<Rightarrow> 'a list \<Rightarrow> nat \<Rightarrow> 'a list" where
  "FilterUp m_f xs i = up_loop m_f (xs ! i) xs i"

definition insertItem :: "('a \<Rightarrow> 'a \<Rightarrow> bool) \<Rightarrow> 'a \<Rightarrow> 'a Heap \<Rightarrow> 'a Heap" where
  "insertItem m_f item h =
     (if isFull h then h
      else h\<lparr>m_pdata := FilterUp m_f ((m_pdata h)[curr_size h := item]) (curr_size h), curr_size := curr_size h + 1\<rparr>)"

function down_loop :: "('a \<Rightarrow> 'a \<Rightarrow> bool) \<Rightarrow> nat \<Rightarrow> 'a \<Rightarrow> 'a list \<Rightarrow> nat \<Rightarrow> 'a list" where
  "down_loop m_f n target xs currentpos =
     (let childpos = 2 * currentpos + 1 in
      if childpos < n then
        let q = (if childpos + 1 < n \<and> m_f (xs ! (childpos + 1)) (xs ! childpos) then childpos + 1 else childpos)
        in if m_f target (xs ! q) then xs[currentpos := target]
           else down_loop m_f n target (swap xs currentpos q) q
      else xs[currentpos := target])"
  by pat_completeness auto
termination by (relation "measure (\<lambda>(m_f, n, target, xs, currentpos). n - currentpos)") (auto split: if_splits)

declare down_loop.simps [simp del]

definition FilterDown :: "('a \<Rightarrow> 'a \<Rightarrow> bool) \<Rightarrow> nat \<Rightarrow> 'a list \<Rightarrow> nat \<Rightarrow> 'a list" where
  "FilterDown m_f n xs i = down_loop m_f n (xs ! i) xs i"

text \<open>The item that \<open>deleteItem\<close> returns from an empty heap is not initialised: \<open>None\<close>.\<close>

definition deleteItem :: "('a \<Rightarrow> 'a \<Rightarrow> bool) \<Rightarrow> 'a Heap \<Rightarrow> 'a option \<times> 'a Heap" where
  "deleteItem m_f h =
     (if isEmpty h then (None, h)
      else let temp = m_pdata h ! 0; n = curr_size h - 1
           in (Some temp, h\<lparr>m_pdata := FilterDown m_f n ((m_pdata h)[0 := m_pdata h ! n]) 0, curr_size := n\<rparr>))"

subsection \<open>Order in the array\<close>

definition flipped :: "('a \<Rightarrow> 'a \<Rightarrow> bool) \<Rightarrow> 'a \<Rightarrow> 'a \<Rightarrow> bool" where
  "flipped f a b = f b a"

lemma weak_order_flipped: "weak_order f \<Longrightarrow> weak_order (flipped f)"
  unfolding flipped_def by (rule weak_order.intro) (erule (1) weak_order.asym, erule (2) weak_order.neg_trans[rotated])

definition contents :: "'a Heap \<Rightarrow> 'a multiset" where
  "contents h = mset (take (curr_size h) (m_pdata h))"

definition heap_ok :: "('a \<Rightarrow> 'a \<Rightarrow> bool) \<Rightarrow> 'a Heap \<Rightarrow> bool" where
  "heap_ok f h \<longleftrightarrow> length (m_pdata h) = max_size h \<and> heap_but (flipped f) None 0 (curr_size h) (m_pdata h)"

text \<open>All are in order with their parents but \<open>i\<close>, and the children of \<open>i\<close> with its parent.\<close>

definition up_but :: "('a \<Rightarrow> 'a \<Rightarrow> bool) \<Rightarrow> nat \<Rightarrow> nat \<Rightarrow> 'a list \<Rightarrow> bool" where
  "up_but f i n xs \<longleftrightarrow> n \<le> length xs \<and> (\<forall>c. 0 < c \<and> c < n \<and> c \<noteq> i \<longrightarrow> \<not> f (xs ! c) (xs ! ((c - 1) div 2))) \<and>
     (\<forall>c. 0 < i \<and> 0 < c \<and> c < n \<and> (c - 1) div 2 = i \<longrightarrow> \<not> f (xs ! c) (xs ! ((i - 1) div 2)))"

lemma list_update_same: "i < length xs \<Longrightarrow> xs ! i = t \<Longrightarrow> xs[i := t] = xs"
  by auto

lemma drop_swap: "i < n \<Longrightarrow> j < n \<Longrightarrow> drop n (swap xs i j) = drop n xs"
  by (simp add: swap_def)

lemma prefix_mset:
  assumes "same xs ys" "drop n ys = drop n xs"
  shows "mset (take n ys) = mset (take n xs)"
proof -
  have "mset (take n ys) + mset (drop n ys) = mset (take n xs) + mset (drop n xs)"
    using assms(1) by (simp add: same_def flip: mset_append)
  then show ?thesis using assms(2) by simp
qed

context weak_order
begin

lemma up_loop_heap:
  assumes "c < n" "up_but f c n xs" "xs ! c = t"
  shows "heap_but (flipped f) None 0 n (up_loop f t xs c) \<and> same xs (up_loop f t xs c) \<and> drop n (up_loop f t xs c) = drop n xs"
  using assms
proof (induction c arbitrary: xs rule: less_induct)
  case (less c)
  let ?p = "(c - 1) div 2" let ?ys = "swap xs ?p c"
  have n: "n \<le> length xs" "c < length xs" using less.prems(1,2) by (auto simp: up_but_def)
  have ord: "\<not> f (xs ! b) (xs ! ((b - 1) div 2))" if "0 < b" "b < n" "b \<noteq> c" for b
    using less.prems(2) that by (simp add: up_but_def)
  show ?case
  proof (cases "c \<noteq> 0 \<and> f (xs ! c) (xs ! ?p)")
    case False
    then have e: "up_loop f t xs c = xs"
      using list_update_same[OF n(2) less.prems(3)] by (subst up_loop.simps) (auto simp: Let_def)
    have "\<not> f (xs ! b) (xs ! ((b - 1) div 2))" if "0 < b" "b < n" for b
      using ord[OF that] False that(1) by (cases "b = c") auto
    then show ?thesis unfolding e using n by (simp add: heap_but_def flipped_def)
  next
    case True
    then have e: "up_loop f t xs c = up_loop f t ?ys ?p" by (subst up_loop.simps) (simp add: Let_def)
    have p: "?p < c" "?p < n" "?p < length xs" using True less.prems(1) n by linarith+
    have ys: "?ys ! k = (if k = ?p then xs ! c else if k = c then xs ! ?p else xs ! k)" if "k < n" for k
      using nth_swap[of ?p xs c k] p n that by simp
    have "\<not> f (?ys ! b) (?ys ! ((b - 1) div 2))" if b: "0 < b" "b < n" "b \<noteq> ?p" for b
    proof -
      have pb: "(b - 1) div 2 < n" "(b - 1) div 2 < b" using b(1,2) by linarith+
      consider "b = c" | "b \<noteq> c" "(b - 1) div 2 = c" | "b \<noteq> c" "(b - 1) div 2 = ?p" "?p \<noteq> c"
        | "b \<noteq> c" "(b - 1) div 2 \<noteq> c" "(b - 1) div 2 \<noteq> ?p" using p(1) by fastforce
      then show ?thesis
      proof cases
        case 1
        then show ?thesis using ys[OF b(2)] ys[OF pb(1)] b(3) True asym by auto
      next
        case 2
        have "\<not> f (xs ! b) (xs ! ?p)" using less.prems(2) 2 b True by (simp add: up_but_def)
        then show ?thesis using 2 ys[OF b(2)] ys[OF pb(1)] b(3) p by simp
      next
        case 3
        have "\<not> f (xs ! b) (xs ! ?p)" using ord[OF b(1,2) 3(1)] 3(2) by simp
        moreover have "\<not> f (xs ! ?p) (xs ! c)" using True asym by blast
        ultimately have "\<not> f (xs ! b) (xs ! c)" using neg_trans by blast
        then show ?thesis using 3 ys[OF b(2)] ys[OF pb(1)] b(3) by simp
      next
        case 4
        then show ?thesis using ord[OF b(1,2) 4(1)] ys[OF b(2)] ys[OF pb(1)] b(3) by simp
      qed
    qed
    moreover have "\<not> f (?ys ! b) (?ys ! ((?p - 1) div 2))" if b: "0 < ?p" "0 < b" "b < n" "(b - 1) div 2 = ?p" for b
    proof -
      have g: "(?p - 1) div 2 < n" "(?p - 1) div 2 < ?p" using b(1) p(2) by linarith+
      have bp: "b \<noteq> ?p" using b(1,4) by linarith
      have pg: "\<not> f (xs ! ?p) (xs ! ((?p - 1) div 2))" using ord[OF b(1) p(2)] p(1) by simp
      have "\<not> f (xs ! b) (xs ! ((?p - 1) div 2))" if "b \<noteq> c"
        using neg_trans[OF pg] ord[OF b(2,3) that] b(4) by simp
      then show ?thesis using ys[OF b(3)] ys[OF g(1)] g(2) bp pg p(1) by (cases "b = c") simp_all
    qed
    ultimately have "up_but f ?p n ?ys" using n by (simp add: up_but_def)
    moreover have "?ys ! ?p = t" using ys[OF p(2)] less.prems(3) by simp
    ultimately have IH: "heap_but (flipped f) None 0 n (up_loop f t ?ys ?p) \<and> same ?ys (up_loop f t ?ys ?p) \<and>
        drop n (up_loop f t ?ys ?p) = drop n ?ys" using less.IH[OF p(1,2)] by blast
    have "same xs ?ys" using p n by (simp add: same_def)
    then show ?thesis unfolding e using IH same_trans drop_swap[OF p(2) less.prems(1), of xs] by metis
  qed
qed

text \<open>The way down: \<open>heap_but\<close> and \<open>bridged\<close> for the comparison the other way round.\<close>

lemma down_loop_heap:
  assumes "c < n" "heap_but (flipped f) (Some c) 0 n xs" "bridged (flipped f) c 0 n xs" "xs ! c = t"
  shows "heap_but (flipped f) None 0 n (down_loop f n t xs c) \<and> same xs (down_loop f n t xs c) \<and>
    drop n (down_loop f n t xs c) = drop n xs"
  using assms
proof (induction "n - c" arbitrary: xs c rule: less_induct)
  case less
  define p where "p = 2 * c + 1"
  define q where "q = (if p + 1 < n \<and> f (xs ! (p + 1)) (xs ! p) then p + 1 else p)"
  have n: "n \<le> length xs" "c < length xs" using less.prems(1,2) by (auto simp: heap_but_def)
  have children: "b = p \<or> b = p + 1" if "0 < b" "(b - 1) div 2 = c" for b using that unfolding p_def by presburger
  have old: "\<not> f (xs ! b) (xs ! ((b - 1) div 2))" if "0 < b" "b < n" "(b - 1) div 2 \<noteq> c" for b
    using less.prems(2) that by (simp add: heap_but_def flipped_def)
  have least: "\<not> f (xs ! b) (xs ! q)" if "0 < b" "b < n" "(b - 1) div 2 = c" for b
    using children[OF that(1,3)] that(2) asym irrefl by (auto simp: q_def split: if_splits)
  have step: "down_loop f n t xs c =
      (if p < n then if f t (xs ! q) then xs[c := t] else down_loop f n t (swap xs c q) q else xs[c := t])"
    by (subst down_loop.simps) (simp only: Let_def p_def[symmetric] q_def[symmetric])
  show ?case
  proof (cases "p < n \<and> \<not> f t (xs ! q)")
    case False
    then have e: "down_loop f n t xs c = xs" using list_update_same[OF n(2) less.prems(4)] step by auto
    have "\<not> f (xs ! b) (xs ! c)" if b: "0 < b" "b < n" "(b - 1) div 2 = c" for b
    proof -
      have "p < n" using children[OF b(1,3)] b(2) by auto
      then have "\<not> f (xs ! q) (xs ! c)" using False less.prems(4) asym by blast
      then show ?thesis using neg_trans[OF _ least[OF b]] by blast
    qed
    then have "\<not> f (xs ! b) (xs ! ((b - 1) div 2))" if "0 < b" "b < n" for b
      using that old[OF that] by (cases "(b - 1) div 2 = c") auto
    then show ?thesis unfolding e using n by (simp add: heap_but_def flipped_def)
  next
    case True
    let ?ys = "swap xs c q"
    have e: "down_loop f n t xs c = down_loop f n t ?ys q" using True step by simp
    have q: "c < q" "q < n" "(q - 1) div 2 = c" using True by (auto simp: q_def p_def)
    have ys: "?ys ! k = (if k = c then xs ! q else if k = q then xs ! c else xs ! k)" if "k < n" for k
      using nth_swap[of c xs q k] that q less.prems(1) n by simp
    have "\<not> f (?ys ! b) (?ys ! ((b - 1) div 2))" if b: "0 < b" "b < n" "(b - 1) div 2 \<noteq> q" for b
    proof -
      have pb: "(b - 1) div 2 < n" "(b - 1) div 2 < b" using b(1,2) by linarith+
      consider "(b - 1) div 2 = c" "b = q" | "(b - 1) div 2 = c" "b \<noteq> q" | "b = c" "(b - 1) div 2 \<noteq> c"
        | "b \<noteq> c" "b \<noteq> q" "(b - 1) div 2 \<noteq> c" using q(3) by blast
      then show ?thesis
      proof cases
        case 1
        then show ?thesis using ys[OF b(2)] ys[OF pb(1)] True less.prems(4) q(1) by simp
      next
        case 2
        then show ?thesis using ys[OF b(2)] ys[OF pb(1)] least[OF b(1,2) 2(1)] pb(2) by simp
      next
        case 3
        have "\<not> f (xs ! q) (xs ! ((c - 1) div 2))"
          using less.prems(3) q b(1) 3 by (auto simp: bridged_def flipped_def)
        then show ?thesis using 3 ys[OF b(2)] ys[OF pb(1)] b(3) by simp
      next
        case 4
        then show ?thesis using ys[OF b(2)] ys[OF pb(1)] old[OF b(1,2) 4(3)] b(3) by simp
      qed
    qed
    then have H: "heap_but (flipped f) (Some q) 0 n ?ys" using n by (simp add: heap_but_def flipped_def)
    have "\<not> f (?ys ! b) (?ys ! c)" if b: "0 < b" "b < n" "(b - 1) div 2 = q" for b
    proof -
      have "b \<noteq> c" "b \<noteq> q" "c \<noteq> q" using b(1,3) q(1) by linarith+
      then show ?thesis using ys[OF b(2)] ys[OF less.prems(1)] old[OF b(1,2)] b(3) by simp
    qed
    then have B: "bridged (flipped f) q 0 n ?ys" using q(3) by (simp add: bridged_def flipped_def)
    have T: "?ys ! q = t" using ys[OF q(2)] less.prems(4) q(1) by simp
    have "n - q < n - c" using q by linarith
    from less.hyps[OF this q(2) H B T] have IH: "heap_but (flipped f) None 0 n (down_loop f n t ?ys q) \<and>
        same ?ys (down_loop f n t ?ys q) \<and> drop n (down_loop f n t ?ys q) = drop n ?ys" .
    have "same xs ?ys" using q less.prems(1) n by (simp add: same_def)
    then show ?thesis unfolding e using IH same_trans drop_swap[OF less.prems(1) q(2), of xs] by metis
  qed
qed

subsection \<open>The operations\<close>

lemma insertItem_ok:
  assumes "heap_ok f h" "\<not> isFull h"
  shows "heap_ok f (insertItem f x h) \<and> contents (insertItem f x h) = add_mset x (contents h) \<and>
    max_size (insertItem f x h) = max_size h"
proof -
  let ?n = "curr_size h" and ?xs = "(m_pdata h)[curr_size h := x]"
  have l: "?n < length (m_pdata h)" and hb: "heap_but (flipped f) None 0 ?n (m_pdata h)"
    using assms by (auto simp: heap_ok_def isFull_def heap_but_def)
  have "\<not> f (?xs ! c) (?xs ! ((c - 1) div 2))" if "0 < c" "c < ?n" for c
  proof -
    have "(c - 1) div 2 < ?n" using that by linarith
    then show ?thesis using hb that by (simp add: heap_but_def flipped_def)
  qed
  moreover have "(c - 1) div 2 \<noteq> ?n" if "c < Suc ?n" "0 < c" for c using that by linarith
  ultimately have "up_but f ?n (Suc ?n) ?xs" using l by (auto simp: up_but_def)
  from up_loop_heap[OF lessI this] have u: "heap_but (flipped f) None 0 (Suc ?n) (FilterUp f ?xs ?n)"
    "same ?xs (FilterUp f ?xs ?n)" "drop (Suc ?n) (FilterUp f ?xs ?n) = drop (Suc ?n) ?xs"
    using l by (simp_all add: FilterUp_def)
  have "mset (take (Suc ?n) (FilterUp f ?xs ?n)) = add_mset x (mset (take ?n (m_pdata h)))"
    unfolding prefix_mset[OF u(2,3)] using l by (simp add: take_Suc_conv_app_nth)
  then show ?thesis using assms u(1,2) by (simp add: heap_ok_def contents_def insertItem_def same_def)
qed

lemma deleteItem_ok:
  assumes "heap_ok f h" "\<not> isEmpty h"
  shows "\<exists>x h'. deleteItem f h = (Some x, h') \<and> heap_ok f h' \<and> contents h = add_mset x (contents h') \<and>
    (\<forall>y \<in># contents h. \<not> f y x) \<and> max_size h' = max_size h"
proof -
  obtain n where n: "curr_size h = Suc n" using assms(2) by (cases "curr_size h") (auto simp: isEmpty_def)
  let ?d = "m_pdata h"
  let ?xs = "?d[0 := ?d ! n]"
  let ?ys = "FilterDown f n ?xs 0"
  have l: "n < length ?d" "0 < length ?d" and hb: "heap_but (flipped f) None 0 (Suc n) ?d"
    using assms n by (auto simp: heap_ok_def heap_but_def)
  have fl: "weak_order (flipped f)" by (rule weak_order_flipped[OF weak_order_axioms])
  have top: "\<not> f y (?d ! 0)" if y: "y \<in># contents h" for y
  proof -
    have "y \<in> set (take (Suc n) ?d)" using y by (simp add: contents_def n)
    then obtain c where "c < Suc n" "y = ?d ! c" using in_take_nth by metis
    then show ?thesis using weak_order.heap_top[OF fl hb, of c] by (simp add: flipped_def)
  qed
  have fd: "heap_but (flipped f) None 0 n ?ys \<and> same ?xs ?ys \<and> drop n ?ys = drop n ?xs"
  proof (cases "n = 0")
    case True
    then have "?ys = ?xs" using l by (simp add: FilterDown_def down_loop.simps)
    then show ?thesis using True l by (simp add: heap_but_def)
  next
    case False
    have "\<not> f (?xs ! c) (?xs ! ((c - 1) div 2))" if c: "0 < c" "c < n" "(c - 1) div 2 \<noteq> 0" for c
    proof -
      have "?xs ! c = ?d ! c" "?xs ! ((c - 1) div 2) = ?d ! ((c - 1) div 2)" using c by simp_all
      then show ?thesis using hb c by (simp add: heap_but_def flipped_def)
    qed
    then have "heap_but (flipped f) (Some 0) 0 n ?xs" using l by (simp add: heap_but_def flipped_def)
    moreover have "bridged (flipped f) 0 0 n ?xs" by (simp add: bridged_def)
    ultimately show ?thesis unfolding FilterDown_def using False by (intro down_loop_heap) simp_all
  qed
  have m: "mset (take n ?ys) = mset (take n ?xs)" using fd by (intro prefix_mset) simp_all
  have c: "contents h = add_mset (?d ! 0) (mset (take n ?ys))"
  proof (cases n)
    case 0
    then show ?thesis using l by (simp add: contents_def n take_Suc_conv_app_nth)
  next
    case (Suc k)
    obtain x xs where d: "?d = x # xs" using l(2) by (cases ?d) auto
    show ?thesis unfolding m using l(1) Suc
      by (simp add: contents_def n d take_Suc_conv_app_nth)
  qed
  have "deleteItem f h = (Some (?d ! 0), h\<lparr>m_pdata := ?ys, curr_size := n\<rparr>)"
    by (simp add: deleteItem_def isEmpty_def n)
  moreover have "heap_ok f (h\<lparr>m_pdata := ?ys, curr_size := n\<rparr>)" using fd assms(1) by (simp add: heap_ok_def same_def)
  moreover have "contents (h\<lparr>m_pdata := ?ys, curr_size := n\<rparr>) = mset (take n ?ys)" by (simp add: contents_def)
  ultimately show ?thesis using c top by auto
qed

end

subsection \<open>What a client of the queue sees\<close>

locale priority_queue =
  fixes less :: "'a \<Rightarrow> 'a \<Rightarrow> bool" and ok :: "'q \<Rightarrow> bool" and items :: "'q \<Rightarrow> 'a multiset"
    and pop :: "'q \<Rightarrow> 'a option \<times> 'q"
  assumes pop_least: "ok q \<Longrightarrow> items q \<noteq> {#} \<Longrightarrow>
      \<exists>x q'. pop q = (Some x, q') \<and> ok q' \<and> items q = add_mset x (items q') \<and> (\<forall>y \<in># items q. \<not> less y x)"
    and pop_empty: "ok q \<Longrightarrow> items q = {#} \<Longrightarrow> pop q = (None, q)"
begin

fun pop_all :: "nat \<Rightarrow> 'q \<Rightarrow> 'a list" where
  "pop_all 0 q = []"
| "pop_all (Suc n) q = (case pop q of (None, _) \<Rightarrow> [] | (Some x, q') \<Rightarrow> x # pop_all n q')"

lemma pop_all_sorts:
  "ok q \<Longrightarrow> size (items q) \<le> n \<Longrightarrow> mset (pop_all n q) = items q \<and> sorted_wrt (\<lambda>a b. \<not> less b a) (pop_all n q)"
proof (induction n arbitrary: q)
  case (Suc n)
  show ?case
  proof (cases "items q = {#}")
    case True
    then show ?thesis using pop_empty[OF Suc.prems(1)] by simp
  next
    case False
    then obtain x q' where p: "pop q = (Some x, q')" "ok q'" "items q = add_mset x (items q')" "\<forall>y \<in># items q. \<not> less y x"
      using pop_least[OF Suc.prems(1)] by blast
    have IH: "mset (pop_all n q') = items q'" "sorted_wrt (\<lambda>a b. \<not> less b a) (pop_all n q')"
      using Suc.IH[OF p(2)] Suc.prems(2) p(3) by simp_all
    have "set (pop_all n q') = set_mset (items q')" using IH(1) by (metis set_mset_mset)
    then show ?thesis using p IH by simp
  qed
qed simp

end

lemma contents_empty: "heap_ok f h \<Longrightarrow> contents h = {#} \<longleftrightarrow> isEmpty h"
  by (auto simp: contents_def isEmpty_def heap_ok_def heap_but_def)

sublocale weak_order \<subseteq> heap: priority_queue f "heap_ok f" contents "deleteItem f"
proof
  fix h
  assume h: "heap_ok f h"
  show "contents h = {#} \<Longrightarrow> deleteItem f h = (None, h)" using contents_empty[OF h] by (simp add: deleteItem_def)
  assume "contents h \<noteq> {#}"
  then show "\<exists>x h'. deleteItem f h = (Some x, h') \<and> heap_ok f h' \<and> contents h = add_mset x (contents h') \<and>
      (\<forall>y \<in># contents h. \<not> f y x)"
    using deleteItem_ok[OF h] contents_empty[OF h] by blast
qed

interpretation std_less: weak_order "(<) :: 'a::linorder \<Rightarrow> 'a \<Rightarrow> bool"
  by unfold_locales auto

lemma heap_new_ok: "heap_ok f (heap_new mem) \<and> contents (heap_new mem) = {#}"
  by (simp add: heap_ok_def heap_new_def contents_def heap_but_def)

lemma insert_many:
  assumes "weak_order f" "heap_ok f h" "curr_size h + length xs \<le> max_size h"
  shows "heap_ok f (fold (insertItem f) xs h) \<and> contents (fold (insertItem f) xs h) = mset xs + contents h"
  using assms(2,3)
proof (induction xs arbitrary: h)
  case (Cons x xs)
  have nf: "\<not> isFull h" using Cons.prems(2) by (simp add: isFull_def)
  have "curr_size (insertItem f x h) = Suc (curr_size h)" using nf by (simp add: insertItem_def)
  then show ?case using weak_order.insertItem_ok[OF assms(1) Cons.prems(1) nf, of x] Cons by simp
qed simp

text \<open>Filling and draining a queue sorts.\<close>

lemma std_less_drain:
  assumes "length xs \<le> length mem"
  shows "std_less.heap.pop_all (length xs) (fold (insertItem (<)) xs (heap_new mem)) = sort xs"
proof -
  let ?h = "fold (insertItem (<)) xs (heap_new mem)"
  have h: "heap_ok (<) ?h \<and> contents ?h = mset xs"
    using insert_many[OF std_less.weak_order_axioms, of "heap_new mem" xs] heap_new_ok[of _ mem] assms
    by (simp add: heap_new_def)
  then have "mset (std_less.heap.pop_all (length xs) ?h) = mset xs" "sorted (std_less.heap.pop_all (length xs) ?h)"
    using std_less.heap.pop_all_sorts[of ?h "length xs"] by (simp_all add: not_less)
  then show ?thesis by (metis properties_for_sort)
qed

text \<open>
  C23. An insertion adds the item unless the array is full; a deletion returns a least item and removes just it.\<close>

theorem heap_queue_refines:
  assumes "weak_order f" "heap_ok f h"
  shows "(if isFull h then insertItem f x h = h
      else heap_ok f (insertItem f x h) \<and> contents (insertItem f x h) = add_mset x (contents h)) \<and>
    (case deleteItem f h of
       (None, h') \<Rightarrow> h' = h \<and> contents h = {#}
     | (Some y, h') \<Rightarrow> heap_ok f h' \<and> contents h = add_mset y (contents h') \<and> (\<forall>z \<in># contents h. \<not> f z y))"
proof (intro conjI)
  show "if isFull h then insertItem f x h = h
      else heap_ok f (insertItem f x h) \<and> contents (insertItem f x h) = add_mset x (contents h)"
    using weak_order.insertItem_ok[OF assms, of x] by (simp add: insertItem_def)
  show "case deleteItem f h of (None, h') \<Rightarrow> h' = h \<and> contents h = {#}
     | (Some y, h') \<Rightarrow> heap_ok f h' \<and> contents h = add_mset y (contents h') \<and> (\<forall>z \<in># contents h. \<not> f z y)"
  proof (cases "isEmpty h")
    case True
    then show ?thesis using contents_empty[OF assms(2)] by (simp add: deleteItem_def)
  next
    case False
    then show ?thesis using weak_order.deleteItem_ok[OF assms False] by force
  qed
qed

theorem heap_queue_refines_witness:
  "\<exists>y h'. deleteItem (<) (fold (insertItem (<)) [5, 3, 8, 1 :: nat] (heap_new [0, 0, 0, 0, 0])) = (Some y, h') \<and>
     {#5, 3, 8, 1#} = add_mset y (contents h') \<and> (\<forall>z \<in> {5, 3, 8, 1}. y \<le> z)"
proof -
  let ?h = "fold (insertItem (<)) [5, 3, 8, 1 :: nat] (heap_new [0, 0, 0, 0, 0])"
  have h: "heap_ok (<) ?h" "contents ?h = {#5, 3, 8, 1#}"
    using insert_many[OF std_less.weak_order_axioms, of "heap_new [0, 0, 0, 0, 0]" "[5, 3, 8, 1 :: nat]"]
      heap_new_ok[of "(<)" "[0, 0, 0, 0, 0 :: nat]"] by (simp_all add: heap_new_def add.commute)
  show ?thesis
    using heap_queue_refines[OF std_less.weak_order_axioms h(1), of 0] unfolding h(2)
    by (auto simp: not_less split: prod.splits option.splits)
qed

end
