(* ===== verification/Kmp.thy ===== *)
theory Kmp
  imports Ak_Prelude
begin

text \<open>
  Knuth-Morris-Pratt search, \<open>acm-lib/kmp/kmp.cpp\<close>.  Strings are lists, indices as in the code: positions
  \<open>i\<close> and \<open>j\<close> count from 1, \<open>next\<close> has an unused first cell.  The array comes uninitialised from
  \<open>new\<close>; its content is an argument.  \<open>None\<close> is a write past the array or a loop that does not end.
\<close>

partial_function (option) next_loop :: "'a list \<Rightarrow> nat \<Rightarrow> nat \<Rightarrow> nat list \<Rightarrow> nat list option" where
  "next_loop p i j nx =
     (if i < length p then
        if j = 0 \<or> p ! (i - 1) = p ! (j - 1) then next_loop p (i + 1) (j + 1) (nx[i + 1 := j + 1])
        else next_loop p i (nx ! j) nx
      else Some nx)"

definition getNextofString :: "nat list \<Rightarrow> 'a list \<Rightarrow> nat list option" where
  "getNextofString junk p =
     (if length p + 1 \<le> 1 then None else next_loop p 1 0 ((take (length p + 1) junk)[1 := 0]))"

partial_function (option) find_loop :: "'a list \<Rightarrow> 'a list \<Rightarrow> nat list \<Rightarrow> nat \<Rightarrow> nat \<Rightarrow> (nat \<times> nat) option" where
  "find_loop t p nx i j =
     (if i \<le> length t \<and> j \<le> length p then
        if j = 0 \<or> t ! (i - 1) = p ! (j - 1) then find_loop t p nx (i + 1) (j + 1)
        else find_loop t p nx i (nx ! j)
      else Some (i, j))"

definition findSubString :: "'a list \<Rightarrow> 'a list \<Rightarrow> nat list \<Rightarrow> nat \<Rightarrow> int option" where
  "findSubString t p nx index =
     map_option (\<lambda>(i, j). if length p < j then int i - int (length p) else 0) (find_loop t p nx index 1)"

definition IndexSubString :: "nat list \<Rightarrow> 'a list \<Rightarrow> 'a list \<Rightarrow> nat list option \<Rightarrow> nat \<Rightarrow> int option" where
  "IndexSubString junk text pat nxt pos =
     Option.bind (case nxt of None \<Rightarrow> getNextofString junk pat | Some nx \<Rightarrow> Some nx)
       (\<lambda>nx. map_option (\<lambda>r. r - 1) (findSubString text pat nx (pos + 1)))"

declare next_loop.simps [code] find_loop.simps [code]

subsection \<open>Borders\<close>

text \<open>\<open>k\<close> is the length of a proper border of the first \<open>l\<close> elements of \<open>p\<close>.\<close>

definition border :: "'a list \<Rightarrow> nat \<Rightarrow> nat \<Rightarrow> bool" where
  "border p l k \<longleftrightarrow> k < l \<and> (\<forall>x<k. p ! x = p ! (l - k + x))"

lemma border_trans: "border p l b \<Longrightarrow> border p b c \<Longrightarrow> border p l c"
  unfolding border_def
proof (intro conjI allI impI)
  assume b: "b < l \<and> (\<forall>x<b. p ! x = p ! (l - b + x))" and c: "c < b \<and> (\<forall>x<c. p ! x = p ! (b - c + x))"
  show "c < l" using b c by simp
  fix x assume x: "x < c"
  have "p ! x = p ! (b - c + x)" using c x by blast
  also have "\<dots> = p ! (l - b + (b - c + x))"
  proof -
    have "b - c + x < b" using c x by linarith
    then show ?thesis using b by blast
  qed
  also have "l - b + (b - c + x) = l - c + x" using b c by simp
  finally show "p ! x = p ! (l - c + x)" .
qed

lemma border_inner: "border p l b \<Longrightarrow> border p l c \<Longrightarrow> c < b \<Longrightarrow> border p b c"
  unfolding border_def
proof (intro conjI allI impI)
  assume b: "b < l \<and> (\<forall>x<b. p ! x = p ! (l - b + x))" and c: "c < l \<and> (\<forall>x<c. p ! x = p ! (l - c + x))" and cb: "c < b"
  fix x assume x: "x < c"
  have "b - c + x < b" using x cb by simp
  then have "p ! (b - c + x) = p ! (l - b + (b - c + x))" using b by blast
  also have "l - b + (b - c + x) = l - c + x" using b cb by simp
  finally show "p ! x = p ! (b - c + x)" using c x by simp
qed simp

lemma border_extend:
  assumes "border p l k" "p ! k = p ! l"
  shows "border p (Suc l) (Suc k)"
  unfolding border_def
proof (intro conjI allI impI)
  show "Suc k < Suc l" using assms(1) by (simp add: border_def)
  fix x assume "x < Suc k"
  then show "p ! x = p ! (Suc l - Suc k + x)" using assms by (cases "x = k") (auto simp: border_def)
qed

lemma border_shrink: "border p (Suc l) (Suc k) \<Longrightarrow> border p l k \<and> p ! k = p ! l"
  by (auto simp: border_def dest: spec[of _ k])

text \<open>The entry \<open>q\<close> of the table: one more than the longest border of the first \<open>q - 1\<close> elements.\<close>

definition next_ok :: "'a list \<Rightarrow> nat list \<Rightarrow> nat \<Rightarrow> bool" where
  "next_ok p nx q \<longleftrightarrow> (if q = 1 then nx ! q = 0
     else 1 \<le> nx ! q \<and> border p (q - 1) (nx ! q - 1) \<and> (\<forall>k. border p (q - 1) k \<longrightarrow> k < nx ! q))"

definition next_inv :: "'a list \<Rightarrow> nat \<Rightarrow> nat \<Rightarrow> nat list \<Rightarrow> bool" where
  "next_inv p i j nx \<longleftrightarrow> length nx = length p + 1 \<and> 1 \<le> i \<and> i \<le> length p \<and> j < i \<and>
     (\<forall>q. 1 \<le> q \<and> q \<le> i \<longrightarrow> next_ok p nx q) \<and> (1 \<le> j \<longrightarrow> border p (i - 1) (j - 1)) \<and>
     (\<forall>k. border p (i - 1) k \<and> j \<le> k \<longrightarrow> p ! k \<noteq> p ! (i - 1))"

lemma next_inv_match:
  assumes I: "next_inv p i j nx" and i: "i < length p" and m: "j = 0 \<or> p ! (i - 1) = p ! (j - 1)"
  shows "next_inv p (i + 1) (j + 1) (nx[i + 1 := j + 1])"
proof -
  obtain l where l: "i = Suc l" using I by (cases i) (auto simp: next_inv_def)
  have j: "j \<le> l" "length nx = length p + 1" using I l by (auto simp: next_inv_def)
  have b: "border p i j"
  proof (cases j)
    case 0
    then show ?thesis using l by (simp add: border_def)
  next
    case (Suc b)
    then show ?thesis using I m l border_extend[of p l b] by (simp add: next_inv_def)
  qed
  have max: "k \<le> j" if "border p i k" for k
  proof (cases k)
    case (Suc c)
    then have "border p l c" "p ! c = p ! l" using border_shrink that l by metis+
    then show ?thesis using I l Suc by (force simp: next_inv_def)
  qed simp
  have "next_ok p (nx[i + 1 := j + 1]) q" if q: "1 \<le> q" "q \<le> i + 1" for q
  proof (cases "q = i + 1")
    case True
    then show ?thesis using b max l i j by (auto simp: next_ok_def less_Suc_eq_le)
  next
    case False
    then have "next_ok p nx q" using I q by (simp add: next_inv_def)
    then show ?thesis using False by (cases "q = 1") (simp_all add: next_ok_def)
  qed
  moreover have "\<forall>k. border p i k \<and> j + 1 \<le> k \<longrightarrow> p ! k \<noteq> p ! i" using max by fastforce
  ultimately show ?thesis using b i j l by (simp add: next_inv_def)
qed

lemma next_inv_fall:
  assumes I: "next_inv p i j nx" and m: "\<not> (j = 0 \<or> p ! (i - 1) = p ! (j - 1))"
  shows "next_inv p i (nx ! j) nx \<and> nx ! j < j"
proof -
  have j: "1 \<le> j" "j < i" "next_ok p nx j" "border p (i - 1) (j - 1)" using I m by (auto simp: next_inv_def)
  have old: "p ! k \<noteq> p ! (i - 1)" if "border p (i - 1) k" "j - 1 \<le> k" for k
    using I m that by (cases "k = j - 1") (auto simp: next_inv_def)
  show ?thesis
  proof (cases "j = 1")
    case True
    then have z: "nx ! j = 0" using j(3) by (simp add: next_ok_def)
    have "next_inv p i 0 nx" using I old True by (simp add: next_inv_def)
    then show ?thesis using z True by simp
  next
    case False
    then have n: "1 \<le> nx ! j" "border p (j - 1) (nx ! j - 1)" "\<And>k. border p (j - 1) k \<Longrightarrow> k < nx ! j"
      using j(3) by (simp_all add: next_ok_def)
    have "nx ! j - 1 < j - 1" using n(2) by (simp add: border_def)
    then have lt: "nx ! j < j" by linarith
    have "p ! k \<noteq> p ! (i - 1)" if "border p (i - 1) k" "nx ! j \<le> k" for k
    proof (cases "j - 1 \<le> k")
      case f: False
      then have "border p (j - 1) k" using border_inner[OF j(4) that(1)] by simp
      then show ?thesis using n(3) that(2) by fastforce
    qed (use old that in blast)
    then show ?thesis using I lt border_trans[OF j(4) n(2)] j(2) by (simp add: next_inv_def)
  qed
qed

lemma next_loop_ok:
  "next_inv p i j nx \<Longrightarrow> \<exists>ny. next_loop p i j nx = Some ny \<and> length ny = length p + 1 \<and>
     (\<forall>q. 1 \<le> q \<and> q \<le> length p \<longrightarrow> next_ok p ny q)"
proof (induction "2 * (length p - i) + j" arbitrary: i j nx rule: less_induct)
  case less
  show ?case
  proof (cases "i < length p")
    case False
    then have "i = length p" using less.prems by (simp add: next_inv_def)
    moreover have "next_loop p i j nx = Some nx" using False by (simp add: next_loop.simps[of p i j nx])
    ultimately show ?thesis using less.prems by (simp add: next_inv_def)
  next
    case True
    show ?thesis
    proof (cases "j = 0 \<or> p ! (i - 1) = p ! (j - 1)")
      case m: True
      have "2 * (length p - (i + 1)) + (j + 1) < 2 * (length p - i) + j" using True by linarith
      from less.hyps[OF this next_inv_match[OF less.prems True m]] show ?thesis
        using True m by (simp add: next_loop.simps[of p i j nx])
    next
      case m: False
      have "2 * (length p - i) + nx ! j < 2 * (length p - i) + j" using next_inv_fall[OF less.prems m] by simp
      from less.hyps[OF this conjunct1[OF next_inv_fall[OF less.prems m]]] show ?thesis
        using True m by (simp add: next_loop.simps[of p i j nx])
    qed
  qed
qed

lemma getNext_ok:
  assumes "p \<noteq> []" "length p + 1 \<le> length junk"
  shows "\<exists>nx. getNextofString junk p = Some nx \<and> length nx = length p + 1 \<and>
     (\<forall>q. 1 \<le> q \<and> q \<le> length p \<longrightarrow> next_ok p nx q)"
proof -
  have p: "1 \<le> length p" using assms(1) by (cases p) simp_all
  then have "1 < length (take (length p + 1) junk)" using assms by simp
  then have "(take (length p + 1) junk)[1 := 0] ! 1 = 0" by (rule nth_list_update_eq)
  then have "next_inv p 1 0 ((take (length p + 1) junk)[1 := 0])"
    using assms(2) p by (auto simp: next_inv_def next_ok_def border_def le_Suc_eq)
  from next_loop_ok[OF this] show ?thesis using assms(1) by (simp add: getNextofString_def)
qed

subsection \<open>Search\<close>

definition occurs :: "'a list \<Rightarrow> 'a list \<Rightarrow> nat \<Rightarrow> bool" where
  "occurs t p s \<longleftrightarrow> s + length p \<le> length t \<and> take (length p) (drop s t) = p"

lemma occurs_nth: "occurs t p s \<longleftrightarrow> s + length p \<le> length t \<and> (\<forall>x<length p. t ! (s + x) = p ! x)"
  by (auto simp: occurs_def list_eq_iff_nth_eq)

definition find_inv :: "'a list \<Rightarrow> 'a list \<Rightarrow> nat \<Rightarrow> nat \<Rightarrow> nat \<Rightarrow> bool" where
  "find_inv t p pos i j \<longleftrightarrow> pos + j \<le> i \<and> 1 \<le> i \<and> (i \<le> length t + 1 \<or> j \<le> 1) \<and> j \<le> length p + 1 \<and>
     (\<forall>s. pos \<le> s \<and> s < i - j \<longrightarrow> \<not> occurs t p s) \<and> (\<forall>x. x + 1 < j \<longrightarrow> t ! (i - j + x) = p ! x)"

lemma find_match:
  assumes I: "find_inv t p pos i j" and b: "i \<le> length t" "j \<le> length p" and m: "j = 0 \<or> t ! (i - 1) = p ! (j - 1)"
  shows "find_inv t p pos (i + 1) (j + 1)"
proof -
  have "t ! (i - j + x) = p ! x" if "x < j" for x
  proof (cases "x + 1 < j")
    case True
    then show ?thesis using I unfolding find_inv_def by blast
  next
    case False
    then have "x = j - 1" "i - j + x = i - 1" "j \<noteq> 0" using that I by (auto simp: find_inv_def)
    then show ?thesis using m by simp
  qed
  then show ?thesis using I b by (simp add: find_inv_def)
qed

lemma find_fall:
  assumes I: "find_inv t p pos i j" and b: "i \<le> length t" "j \<le> length p" and m: "\<not> (j = 0 \<or> t ! (i - 1) = p ! (j - 1))"
    and ok: "next_ok p nx j"
  shows "find_inv t p pos i (nx ! j) \<and> nx ! j < j"
proof -
  have j: "1 \<le> j" "j \<le> i" "pos + j \<le> i" using m I by (auto simp: find_inv_def)
  have eq: "t ! (i - j + x) = p ! x" if "x + 1 < j" for x using I that unfolding find_inv_def by blast
  have skip: "\<not> occurs t p s" if "pos \<le> s" "s < i - j" for s using I that by (simp add: find_inv_def)
  have here: "\<not> occurs t p (i - j)"
  proof
    assume "occurs t p (i - j)"
    moreover have "j - 1 < length p" using j b by linarith
    ultimately have "t ! (i - j + (j - 1)) = p ! (j - 1)" unfolding occurs_nth by blast
    moreover have "i - j + (j - 1) = i - 1" using j by simp
    ultimately show False using m by simp
  qed
  have overlap: "border p (j - 1) (i - 1 - s)" if "occurs t p s" "i - j < s" "s < i" for s
    unfolding border_def
  proof (intro conjI allI impI)
    show "i - 1 - s < j - 1" using that j by linarith
    fix x assume x: "x < i - 1 - s"
    have "x < length p" using x that b j by linarith
    then have "p ! x = t ! (s + x)" using that(1) by (simp add: occurs_nth)
    also have "s + x = i - j + (j - 1 - (i - 1 - s) + x)" using that x j by linarith
    also have "t ! \<dots> = p ! (j - 1 - (i - 1 - s) + x)" using x that j by (intro eq) linarith
    finally show "p ! x = p ! (j - 1 - (i - 1 - s) + x)" .
  qed
  have lt: "nx ! j < j"
  proof (cases "j = 1")
    case True
    then show ?thesis using ok by (simp add: next_ok_def)
  next
    case False
    then have "nx ! j - 1 < j - 1" using ok by (simp add: next_ok_def border_def)
    then show ?thesis by linarith
  qed
  have none: "\<not> occurs t p s" if s: "pos \<le> s" "s < i - nx ! j" for s
  proof (cases "s \<le> i - j")
    case True
    then show ?thesis using skip[of s] here s by (cases "s = i - j") simp_all
  next
    case False
    show ?thesis
    proof
      assume o: "occurs t p s"
      have si: "s < i" using s by simp
      have "border p (j - 1) (i - 1 - s)" using overlap[OF o _ si] False by simp
      then have "j \<noteq> 1" "i - 1 - s < nx ! j" using ok by (auto simp: next_ok_def border_def)
      then show False using s by linarith
    qed
  qed
  have keep: "t ! (i - nx ! j + x) = p ! x" if x: "x + 1 < nx ! j" for x
  proof -
    have j1: "j \<noteq> 1" using x ok by (auto simp: next_ok_def)
    then have bd: "border p (j - 1) (nx ! j - 1)" using ok by (simp add: next_ok_def)
    have "p ! x = p ! (j - 1 - (nx ! j - 1) + x)" using bd x by (simp add: border_def)
    also have "\<dots> = t ! (i - j + (j - 1 - (nx ! j - 1) + x))" using x lt by (intro eq[symmetric]) linarith
    also have "i - j + (j - 1 - (nx ! j - 1) + x) = i - nx ! j + x" using x lt j by linarith
    finally show ?thesis by simp
  qed
  show ?thesis using I lt none keep b j by (simp add: find_inv_def)
qed

text \<open>The result: the first occurrence from \<open>pos\<close> on.\<close>

definition first_occ :: "'a list \<Rightarrow> 'a list \<Rightarrow> nat \<Rightarrow> int" where
  "first_occ t p pos =
     (case filter (occurs t p) [pos..<length t + 1] of [] \<Rightarrow> - 1 | s # _ \<Rightarrow> int s)"

lemma first_occ_none: "(\<And>s. pos \<le> s \<Longrightarrow> \<not> occurs t p s) \<Longrightarrow> first_occ t p pos = -1"
  by (simp add: first_occ_def)

lemma first_occ_some:
  assumes "pos \<le> s" "occurs t p s" "\<And>r. pos \<le> r \<Longrightarrow> r < s \<Longrightarrow> \<not> occurs t p r"
  shows "first_occ t p pos = int s"
proof -
  have "s < length t + 1" using assms(2) by (simp add: occurs_nth)
  then have "[pos..<length t + 1] = [pos..<s] @ s # [Suc s..<length t + 1]"
    using assms(1) by (metis le_add_diff_inverse less_imp_le upt_add_eq_append upt_conv_Cons)
  moreover have "filter (occurs t p) [pos..<s] = []" using assms(3) by simp
  ultimately show ?thesis using assms(2) by (simp add: first_occ_def)
qed

lemma find_loop_ok:
  assumes "find_inv t p pos i j" "p \<noteq> []" "\<forall>q. 1 \<le> q \<and> q \<le> length p \<longrightarrow> next_ok p nx q"
  shows "\<exists>i' j'. find_loop t p nx i j = Some (i', j') \<and>
     first_occ t p pos = (if length p < j' then int i' - int (length p) else 0) - 1"
  using assms(1)
proof (induction "2 * (length t + 1 - i) + j" arbitrary: i j rule: less_induct)
  case less
  show ?case
  proof (cases "i \<le> length t \<and> j \<le> length p")
    case True
    show ?thesis
    proof (cases "j = 0 \<or> t ! (i - 1) = p ! (j - 1)")
      case m: True
      have "2 * (length t + 1 - (i + 1)) + (j + 1) < 2 * (length t + 1 - i) + j" using True by linarith
      from less.hyps[OF this find_match[OF less.prems conjunct1[OF True] conjunct2[OF True] m]] show ?thesis
        using True m by (simp add: find_loop.simps[of t p nx i j])
    next
      case m: False
      have "next_ok p nx j" using assms(3) m True by simp
      note F = find_fall[OF less.prems conjunct1[OF True] conjunct2[OF True] m this]
      have "2 * (length t + 1 - i) + nx ! j < 2 * (length t + 1 - i) + j" using F by simp
      from less.hyps[OF this conjunct1[OF F]] show ?thesis
        using True m by (simp add: find_loop.simps[of t p nx i j])
    qed
  next
    case False
    have r: "find_loop t p nx i j = Some (i, j)"
      unfolding find_loop.simps[of t p nx i j] if_not_P[OF False] ..
    show ?thesis
    proof (cases "length p < j")
      case True
      then have j: "j = length p + 1" using less.prems by (simp add: find_inv_def)
      have s: "pos \<le> i - j" "j \<le> i" using less.prems by (auto simp: find_inv_def)
      have "1 < j" using j assms(2) by (cases p) simp_all
      then have "i \<le> length t + 1" using less.prems by (auto simp: find_inv_def)
      then have "occurs t p (i - j)"
        using less.prems j s(2) by (simp add: find_inv_def occurs_nth)
      then have "first_occ t p pos = int (i - j)"
        using less.prems s(1) by (intro first_occ_some) (simp_all add: find_inv_def)
      then show ?thesis using r True j s(2) by (simp add: of_nat_diff)
    next
      case f: False
      then have i: "length t < i" using False by simp
      have "\<not> occurs t p s" if "pos \<le> s" for s
      proof (cases "s < i - j")
        case True
        then show ?thesis using less.prems that by (simp add: find_inv_def)
      next
        case g: False
        have "j \<le> i" using less.prems by (simp add: find_inv_def)
        moreover have "i \<le> length t + 1 \<or> j \<le> 1" using less.prems by (simp add: find_inv_def)
        moreover have "1 \<le> length p" using assms(2) by (cases p) simp_all
        ultimately show ?thesis using g f i unfolding occurs_nth by linarith
      qed
      then have "first_occ t p pos = -1" by (rule first_occ_none)
      then show ?thesis using r f by simp
    qed
  qed
qed

subsection \<open>Properties\<close>

text \<open>
  C9. Building the table and searching both end, whatever the fresh array contains, and the result is the
  first position from \<open>pos\<close> on at which the pattern occurs, or -1 when there is none; an empty pattern
  makes the table construction write past its array.
\<close>

theorem kmp_first_occurrence:
  assumes "length pat + 1 \<le> length junk"
  shows "IndexSubString junk text pat None pos = (if pat = [] then None else Some (first_occ text pat pos))"
proof (cases "pat = []")
  case True
  then show ?thesis by (simp add: IndexSubString_def getNextofString_def)
next
  case False
  obtain nx where nx: "getNextofString junk pat = Some nx" "\<forall>q. 1 \<le> q \<and> q \<le> length pat \<longrightarrow> next_ok pat nx q"
    using getNext_ok[OF False assms] by blast
  have "find_inv text pat pos (pos + 1) 1" by (auto simp: find_inv_def)
  from find_loop_ok[OF this False nx(2)] obtain i j where r: "find_loop text pat nx (pos + 1) 1 = Some (i, j)"
      "first_occ text pat pos = (if length pat < j then int i - int (length pat) else 0) - 1" by blast
  have "findSubString text pat nx (pos + 1) = Some (if length pat < j then int i - int (length pat) else 0)"
    unfolding findSubString_def r(1) by simp
  then show ?thesis using nx(1) r(2) False by (simp add: IndexSubString_def)
qed

theorem kmp_first_occurrence_witness:
  "IndexSubString [9, 9, 9, 9, 9] ''abababac'' ''abac'' None 1 = Some 4 \<and> IndexSubString [9, 9, 9] ''ab'' ''ba'' None 0 = Some (-1)"
proof -
  have "first_occ ''abababac'' ''abac'' 1 = 4" "first_occ ''ab'' ''ba'' 0 = -1" by code_simp+
  then show ?thesis
    using kmp_first_occurrence[of "''abac''" "[9, 9, 9, 9, 9]" "''abababac''" 1]
      kmp_first_occurrence[of "''ba''" "[9, 9, 9]" "''ab''" 0] by simp
qed

end
