(* ===== verification/Mread_Ring.thy ===== *)
theory Mread_Ring
  imports Ak_Prelude "HOL-Library.Monad_Syntax"
begin

text \<open>
  The block allocator of the file server, \<open>ctest/test_other1/servers/ringbuffer.c\<close>: a buffer of bytes
  tiled by blocks, each with a header of four 32-bit integers in front of its data, blocks of one
  connection linked through \<open>next\<close>.  The memory is a list of bytes and the headers are loaded from it and
  stored to it at their offsets, little-endian.  A pointer to a block is its offset.

  \<open>None\<close> is the value of a call that does not return normally: an assertion fails, an access leaves the
  buffer, a pointer difference with the null pointer is taken, or a loop over the blocks does not end.
  Sizes are meant to stay far below 2147483648; the 64-bit comparison \<open>length >= sizeof(RBUF_BLOCK)\<close> is
  written out, since a negative length passes it.
\<close>

unbundle bit_operations_syntax

subsection \<open>Integers in memory\<close>

definition int_of_bytes :: "byte list \<Rightarrow> int" where
  "int_of_bytes bs = s32 (horner_sum uint 256 bs)"

definition bytes_of_int :: "int \<Rightarrow> byte list" where
  "bytes_of_int v = [word_of_int v, word_of_int (v div 256), word_of_int (v div 65536), word_of_int (v div 16777216)]"

definition ld :: "byte list \<Rightarrow> int \<Rightarrow> int option" where
  "ld m a = (if 0 \<le> a \<and> a + 4 \<le> int (length m) then Some (int_of_bytes (region m (nat a) 4)) else None)"

definition st :: "byte list \<Rightarrow> int \<Rightarrow> int \<Rightarrow> byte list option" where
  "st m a v = (if 0 \<le> a \<and> a + 4 \<le> int (length m) then Some (blit m (nat a) (bytes_of_int v)) else None)"

definition ALIGN :: "int \<Rightarrow> int" where
  "ALIGN s = (s + 3) AND NOT 3"

subsection \<open>The operations\<close>

record RINGBUFFER =
  rb_size :: int
  rb_head :: int
  rb_mem :: "byte list"

text \<open>\<open>RBUF_BLOCK\<close>: 16 bytes.\<close>

abbreviation HDR :: int where "HDR \<equiv> 16"

definition get_length :: "RINGBUFFER \<Rightarrow> int \<Rightarrow> int option" where
  "get_length rb b = ld (rb_mem rb) b"

definition get_offset :: "RINGBUFFER \<Rightarrow> int \<Rightarrow> int option" where
  "get_offset rb b = ld (rb_mem rb) (b + 4)"

definition get_id :: "RINGBUFFER \<Rightarrow> int \<Rightarrow> int option" where
  "get_id rb b = ld (rb_mem rb) (b + 8)"

definition get_next :: "RINGBUFFER \<Rightarrow> int \<Rightarrow> int option" where
  "get_next rb b = ld (rb_mem rb) (b + 12)"

definition put_at :: "RINGBUFFER \<Rightarrow> int \<Rightarrow> int \<Rightarrow> RINGBUFFER option" where
  "put_at rb a v = do { m \<leftarrow> st (rb_mem rb) a v; Some (rb\<lparr>rb_mem := m\<rparr>) }"

definition check :: "bool \<Rightarrow> unit option" where
  "check ok = (if ok then Some () else None)"

text \<open>\<open>length >= sizeof(RBUF_BLOCK)\<close>, compared without sign.\<close>

definition has_header :: "int \<Rightarrow> bool" where
  "has_header l \<longleftrightarrow> l < 0 \<or> HDR \<le> l"

definition block_next :: "RINGBUFFER \<Rightarrow> int \<Rightarrow> int option option" where
  "block_next rb blk = do {
     l \<leftarrow> get_length rb blk;
     let align_length = ALIGN l;
     if align_length + blk = rb_size rb then Some None
     else do { check (align_length + blk < rb_size rb); Some (Some (blk + align_length)) } }"

text \<open>\<open>junk\<close> is what \<open>malloc\<close> returns; a failed \<open>malloc\<close> is followed by a null dereference.\<close>

definition ringbuffer_new :: "int \<Rightarrow> byte list \<Rightarrow> RINGBUFFER option" where
  "ringbuffer_new sz junk = do {
     rb \<leftarrow> put_at \<lparr>rb_size = sz, rb_head = 0, rb_mem = junk\<rparr> 0 sz;
     put_at rb 8 (-1) }"

partial_function (option) last_of_chain :: "RINGBUFFER \<Rightarrow> int \<Rightarrow> int option" where
  "last_of_chain rb head = do {
     n \<leftarrow> get_next rb head;
     if 0 \<le> n then last_of_chain rb n else Some head }"

definition ringbuffer_link :: "RINGBUFFER \<Rightarrow> int \<Rightarrow> int \<Rightarrow> RINGBUFFER option" where
  "ringbuffer_link rb head n = do {
     l \<leftarrow> last_of_chain rb head;
     i \<leftarrow> get_id rb l;
     rb \<leftarrow> put_at rb (n + 8) i;
     put_at rb (l + 12) n }"

definition alloc_at :: "RINGBUFFER \<Rightarrow> int \<Rightarrow> int \<Rightarrow> (RINGBUFFER \<times> int) option" where
  "alloc_at rb total_size sz = do {
     let blk = rb_head rb;
     let align_length = ALIGN (HDR + sz);
     rb \<leftarrow> put_at rb blk (HDR + sz);
     rb \<leftarrow> put_at rb (blk + 4) 0;
     rb \<leftarrow> put_at rb (blk + 12) (-1);
     rb \<leftarrow> put_at rb (blk + 8) (-1);
     n \<leftarrow> block_next rb blk;
     nx \<leftarrow> n;
     let rb = rb\<lparr>rb_head := nx\<rparr>;
     if align_length < total_size
     then do {
       rb \<leftarrow> put_at rb nx (total_size - align_length);
       rb \<leftarrow> (if has_header (total_size - align_length) then put_at rb (nx + 8) (-1) else Some rb);
       Some (rb, blk) }
     else Some (rb, blk) }"

datatype scan = In_use int | Room int | At_end

text \<open>The test of a block: its \<open>id\<close> is read only when the block is large enough to have one.\<close>

definition used_by :: "RINGBUFFER \<Rightarrow> int \<Rightarrow> int option" where
  "used_by rb blk = do {
     l \<leftarrow> get_length rb blk;
     if has_header l then get_id rb blk else Some (-1) }"

partial_function (option) alloc_scan :: "RINGBUFFER \<Rightarrow> int \<Rightarrow> int \<Rightarrow> int \<Rightarrow> scan option" where
  "alloc_scan rb align_length free_size blk = do {
     i \<leftarrow> used_by rb blk;
     if 0 \<le> i then Some (In_use i)
     else do {
       l \<leftarrow> get_length rb blk;
       if align_length \<le> free_size + ALIGN l then Some (Room (free_size + ALIGN l))
       else do {
         n \<leftarrow> block_next rb blk;
         case n of None \<Rightarrow> Some At_end | Some b \<Rightarrow> alloc_scan rb align_length (free_size + ALIGN l) b } } }"

text \<open>The loop runs twice; \<open>i\<close> counts the rounds left.  The pointer returned may be null.\<close>

fun alloc_rounds :: "nat \<Rightarrow> RINGBUFFER \<Rightarrow> int \<Rightarrow> (RINGBUFFER \<times> int option) option" where
  "alloc_rounds 0 rb sz = Some (rb, None)"
| "alloc_rounds (Suc i) rb sz = do {
     s \<leftarrow> alloc_scan rb (ALIGN (HDR + sz)) 0 (rb_head rb);
     case s of
       In_use _ \<Rightarrow> Some (rb, None)
     | Room free_size \<Rightarrow> do { (rb, b) \<leftarrow> alloc_at rb free_size sz; Some (rb, Some b) }
     | At_end \<Rightarrow> alloc_rounds i (rb\<lparr>rb_head := 0\<rparr>) sz }"

definition ringbuffer_alloc :: "RINGBUFFER \<Rightarrow> int \<Rightarrow> (RINGBUFFER \<times> int option) option" where
  "ringbuffer_alloc rb sz = alloc_rounds 2 rb sz"

partial_function (option) used_scan :: "RINGBUFFER \<Rightarrow> int \<Rightarrow> int option option" where
  "used_scan rb blk = do {
     i \<leftarrow> used_by rb blk;
     if 0 \<le> i then Some (Some i)
     else do {
       n \<leftarrow> block_next rb blk;
       case n of None \<Rightarrow> Some None | Some b \<Rightarrow> used_scan rb b } }"

fun last_rounds :: "nat \<Rightarrow> RINGBUFFER \<Rightarrow> (RINGBUFFER \<times> int) option" where
  "last_rounds 0 rb = Some (rb, -1)"
| "last_rounds (Suc i) rb = do {
     u \<leftarrow> used_scan rb (rb_head rb);
     case u of Some j \<Rightarrow> Some (rb, j) | None \<Rightarrow> last_rounds i (rb\<lparr>rb_head := 0\<rparr>) }"

definition last_id :: "RINGBUFFER \<Rightarrow> (RINGBUFFER \<times> int) option" where
  "last_id rb = last_rounds 2 rb"

partial_function (option) collect_scan :: "int \<Rightarrow> RINGBUFFER \<Rightarrow> int \<Rightarrow> RINGBUFFER option" where
  "collect_scan i rb blk = do {
     l \<leftarrow> get_length rb blk;
     rb \<leftarrow> (if has_header l then do { j \<leftarrow> get_id rb blk; if j = i then put_at rb (blk + 8) (-1) else Some rb }
           else Some rb);
     n \<leftarrow> block_next rb blk;
     case n of None \<Rightarrow> Some rb | Some b \<Rightarrow> collect_scan i rb b }"

definition ringbuffer_collect :: "RINGBUFFER \<Rightarrow> (RINGBUFFER \<times> int) option" where
  "ringbuffer_collect rb = do {
     (rb, i) \<leftarrow> last_id rb;
     rb \<leftarrow> collect_scan i rb 0;
     Some (rb, i) }"

definition ringbuffer_resize :: "RINGBUFFER \<Rightarrow> int \<Rightarrow> int \<Rightarrow> RINGBUFFER option" where
  "ringbuffer_resize rb blk sz =
     (if sz = 0 then Some (rb\<lparr>rb_head := blk\<rparr>)
      else do {
        let align_length = ALIGN (HDR + sz);
        l \<leftarrow> get_length rb blk;
        let old_length = ALIGN l;
        check (align_length < old_length);
        rb \<leftarrow> put_at rb blk (sz + HDR);
        if align_length = old_length then Some rb
        else do {
          n \<leftarrow> block_next rb blk;
          b \<leftarrow> n;
          rb \<leftarrow> put_at rb b (old_length - align_length);
          rb \<leftarrow> (if has_header (old_length - align_length) then put_at rb (b + 8) (-1) else Some rb);
          Some (rb\<lparr>rb_head := b\<rparr>) } })"

definition block_id :: "RINGBUFFER \<Rightarrow> int \<Rightarrow> int option" where
  "block_id rb blk = do {
     l \<leftarrow> get_length rb blk;
     check (has_header l);
     i \<leftarrow> get_id rb blk;
     check (0 \<le> i);
     Some i }"

partial_function (option) free_rest :: "int \<Rightarrow> RINGBUFFER \<Rightarrow> int \<Rightarrow> RINGBUFFER option" where
  "free_rest i rb blk = do {
     n \<leftarrow> get_next rb blk;
     if 0 \<le> n
     then do {
       j \<leftarrow> block_id rb n;
       check (j = i);
       rb \<leftarrow> put_at rb (n + 8) (-1);
       free_rest i rb n }
     else Some rb }"

definition ringbuffer_free :: "RINGBUFFER \<Rightarrow> int option \<Rightarrow> RINGBUFFER option" where
  "ringbuffer_free rb p = (case p of
       None \<Rightarrow> Some rb
     | Some blk \<Rightarrow> do {
         i \<leftarrow> block_id rb blk;
         rb \<leftarrow> put_at rb (blk + 8) (-1);
         free_rest i rb blk })"

text \<open>\<open>ringbuffer_data\<close> returns the sz and the address of the data, or null.\<close>

partial_function (option) data_count :: "RINGBUFFER \<Rightarrow> int \<Rightarrow> int \<Rightarrow> int \<Rightarrow> int option" where
  "data_count rb sz ret blk = do {
     n \<leftarrow> get_next rb blk;
     if 0 \<le> n
     then do {
       l \<leftarrow> get_length rb n;
       if sz \<le> ret + (l - HDR) then Some sz else data_count rb sz (ret + (l - HDR)) n }
     else Some ret }"

partial_function (option) data_loop :: "RINGBUFFER \<Rightarrow> int \<Rightarrow> int \<Rightarrow> int \<Rightarrow> int \<Rightarrow> (int \<times> int option) option" where
  "data_loop rb sz skip len blk =
     (if skip < len
      then (if sz \<le> len - skip
            then do { off \<leftarrow> get_offset rb blk; Some (sz, Some (blk + HDR + off + skip)) }
            else do { r \<leftarrow> data_count rb sz (len - skip) blk; Some (r, None) })
      else do {
        n \<leftarrow> get_next rb blk;
        if n < 0 then do { check (len = skip); Some (0, None) }
        else do {
          off \<leftarrow> get_offset rb n;
          check (off = 0);
          l \<leftarrow> get_length rb n;
          data_loop rb sz (skip - len) (l - HDR) n } })"

definition ringbuffer_data :: "RINGBUFFER \<Rightarrow> int \<Rightarrow> int \<Rightarrow> int \<Rightarrow> (int \<times> int option) option" where
  "ringbuffer_data rb blk sz skip = do {
     l \<leftarrow> get_length rb blk;
     off \<leftarrow> get_offset rb blk;
     data_loop rb sz skip (l - HDR - off) blk }"

definition memcpy_at :: "RINGBUFFER \<Rightarrow> int \<Rightarrow> int \<Rightarrow> int \<Rightarrow> RINGBUFFER option" where
  "memcpy_at rb dst src n =
     (if 0 \<le> n \<and> 0 \<le> dst \<and> dst + n \<le> int (length (rb_mem rb)) \<and> 0 \<le> src \<and> src + n \<le> int (length (rb_mem rb))
      then Some (rb\<lparr>rb_mem := blit (rb_mem rb) (nat dst) (region (rb_mem rb) (nat src) (nat n))\<rparr>) else None)"

text \<open>The inner loop of \<open>ringbuffer_copy\<close>; it returns the address and the amount of the last copy.\<close>

partial_function (option) copy_blocks ::
  "RINGBUFFER \<Rightarrow> int \<Rightarrow> int \<Rightarrow> int \<Rightarrow> int \<Rightarrow> int \<Rightarrow> (RINGBUFFER \<times> int \<times> int \<times> int \<times> int) option" where
  "copy_blocks rb ptr sz len src frm =
     (if len < sz
      then do {
        rb \<leftarrow> memcpy_at rb ptr src len;
        n \<leftarrow> get_next rb frm;
        check (0 \<le> n);
        off \<leftarrow> get_offset rb n;
        check (off = 0);
        l \<leftarrow> get_length rb n;
        copy_blocks rb (ptr + len) (sz - len) l (n + HDR) n }
      else Some (rb, ptr, sz, src, frm))"

partial_function (option) copy_loop ::
  "RINGBUFFER \<Rightarrow> int \<Rightarrow> int \<Rightarrow> int \<Rightarrow> int \<Rightarrow> int \<Rightarrow> (RINGBUFFER \<times> int) option" where
  "copy_loop rb to sz skip len frm =
     (if skip < len
      then do {
        off \<leftarrow> get_offset rb frm;
        (rb, ptr, sz, src, frm) \<leftarrow> copy_blocks rb (to + HDR) sz (len - skip) (frm + HDR + off + skip) frm;
        rb \<leftarrow> memcpy_at rb ptr src sz;
        i \<leftarrow> get_id rb frm;
        rb \<leftarrow> put_at rb (to + 8) i;
        Some (rb, to + HDR) }
      else do {
        n \<leftarrow> get_next rb frm;
        check (0 \<le> n);
        off \<leftarrow> get_offset rb n;
        check (off = 0);
        l \<leftarrow> get_length rb n;
        copy_loop rb to sz (skip - len) (l - HDR) n })"

definition ringbuffer_copy :: "RINGBUFFER \<Rightarrow> int \<Rightarrow> int \<Rightarrow> int \<Rightarrow> (RINGBUFFER \<times> int) option" where
  "ringbuffer_copy rb frm skip to = do {
     lt \<leftarrow> get_length rb to;
     lf \<leftarrow> get_length rb frm;
     off \<leftarrow> get_offset rb frm;
     copy_loop rb to (lt - HDR) skip (lf - HDR - off) frm }"

partial_function (option) yield_loop :: "int \<Rightarrow> int \<Rightarrow> RINGBUFFER \<Rightarrow> int \<Rightarrow> (RINGBUFFER \<times> int option) option" where
  "yield_loop skip len rb blk =
     (if skip < len
      then do {
        off \<leftarrow> get_offset rb blk;
        rb \<leftarrow> put_at rb (blk + 4) (off + skip);
        Some (rb, Some blk) }
      else do {
        rb \<leftarrow> put_at rb (blk + 8) (-1);
        n \<leftarrow> get_next rb blk;
        if n < 0 then Some (rb, None)
        else do {
          off \<leftarrow> get_offset rb n;
          check (off = 0);
          l \<leftarrow> get_length rb n;
          yield_loop (skip - len) (l - HDR) rb n } })"

definition ringbuffer_yield :: "RINGBUFFER \<Rightarrow> int \<Rightarrow> int \<Rightarrow> (RINGBUFFER \<times> int option) option" where
  "ringbuffer_yield rb blk skip = do {
     l \<leftarrow> get_length rb blk;
     off \<leftarrow> get_offset rb blk;
     yield_loop skip (l - HDR - off) rb blk }"

lemmas [code] = last_of_chain.simps alloc_scan.simps used_scan.simps collect_scan.simps free_rest.simps
  data_count.simps data_loop.simps copy_blocks.simps copy_loop.simps yield_loop.simps

subsection \<open>Loads after stores\<close>

lemma int_bytes: "int_of_bytes (bytes_of_int v) = s32 v"
proof -
  have d: "v div 65536 = v div 256 div 256" "v div 16777216 = v div 256 div 256 div 256"
    by (simp_all add: zdiv_zmult2_eq[symmetric])
  define a where "a = v div 256"
  define b where "b = a div 256"
  define c where "c = b div 256"
  have e: "v = 256 * a + v mod 256" "a = 256 * b + a mod 256" "b = 256 * c + b mod 256"
    unfolding a_def b_def c_def by simp_all
  have "horner_sum uint 256 (bytes_of_int v) = v mod 256 + 256 * (a mod 256 + 256 * (b mod 256 + 256 * (c mod 256)))"
    unfolding bytes_of_int_def d a_def[symmetric] b_def[symmetric] c_def[symmetric]
    by (simp add: uint_word_of_int)
  also have "\<dots> = v - 4294967296 * (c div 256)"
  proof -
    have "v mod 256 = v - 256 * a" "a mod 256 = a - 256 * b" "b mod 256 = b - 256 * c"
        "c mod 256 = c - 256 * (c div 256)"
      using e by (simp_all add: minus_div_mult_eq_mod[symmetric])
    then show ?thesis by (simp only:) (simp add: algebra_simps)
  qed
  finally have "horner_sum uint 256 (bytes_of_int v) = v - 4294967296 * (c div 256)" .
  moreover have "s32 (v - 4294967296 * k) = s32 v" for k
  proof -
    have "v - 4294967296 * k + 2147483648 = v + 2147483648 + (- k) * 4294967296" by simp
    then show ?thesis unfolding s32_def by (metis mod_mult_self1)
  qed
  ultimately show ?thesis by (simp add: int_of_bytes_def)
qed

lemma length_bytes [simp]: "length (bytes_of_int v) = 4"
  by (simp add: bytes_of_int_def)

lemma ld_Some: "0 \<le> a \<Longrightarrow> a + 4 \<le> int (length m) \<Longrightarrow> ld m a = Some (int_of_bytes (region m (nat a) 4))"
  by (simp add: ld_def)

lemma st_Some: "0 \<le> a \<Longrightarrow> a + 4 \<le> int (length m) \<Longrightarrow> st m a v = Some (blit m (nat a) (bytes_of_int v))"
  by (simp add: st_def)

lemma st_length: "st m a v = Some m' \<Longrightarrow> length m' = length m"
  by (auto simp: st_def split: if_splits)

lemma st_other: "st m a v = Some m' \<Longrightarrow> k < length m \<Longrightarrow> int k < a \<or> a + 4 \<le> int k \<Longrightarrow> m' ! k = m ! k"
  by (auto simp: st_def nth_blit split: if_splits)

lemma ld_st_same: "st m a v = Some m' \<Longrightarrow> ld m' a = Some (s32 v)"
  using region_blit[of "nat a" "bytes_of_int v" m] by (auto simp: st_def ld_def int_bytes split: if_splits)

lemma ld_cong:
  assumes "length m' = length m" "\<And>k. k < length m \<Longrightarrow> a \<le> int k \<Longrightarrow> int k < a + 4 \<Longrightarrow> m' ! k = m ! k"
  shows "ld m' a = ld m a"
proof (cases "0 \<le> a \<and> a + 4 \<le> int (length m)")
  case True
  have "region m' (nat a) 4 = region m (nat a) 4"
  proof (rule nth_equalityI)
    show "length (region m' (nat a) 4) = length (region m (nat a) 4)" using assms(1) by simp
    fix i assume "i < length (region m' (nat a) 4)"
    then have i: "i < 4" "nat a + i < length m" using True assms(1) by auto
    have "m' ! (nat a + i) = m ! (nat a + i)" by (rule assms(2)) (use i True in auto)
    then show "region m' (nat a) 4 ! i = region m (nat a) 4 ! i" using i assms(1) by (simp add: nth_region)
  qed
  then show ?thesis using True assms(1) by (simp add: ld_def)
next
  case False
  then show ?thesis using assms(1) by (auto simp: ld_def)
qed

lemma ld_st_other: "st m a v = Some m' \<Longrightarrow> b + 4 \<le> a \<or> a + 4 \<le> b \<Longrightarrow> ld m' b = ld m b"
  by (rule ld_cong) (auto simp: st_length st_other)

lemma ALIGN_eq: "ALIGN s = 4 * ((s + 3) div 4)"
proof -
  have "(s + 3) AND NOT (mask 2) = push_bit 2 (drop_bit 2 (s + 3))" by (rule bit_eqI) (auto simp: bit_simps not_less dest: le_Suc_ex)
  moreover have "mask 2 = (3::int)" by (simp add: mask_eq_exp_minus_1)
  ultimately have "ALIGN s = push_bit 2 (drop_bit 2 (s + 3))" by (simp add: ALIGN_def)
  then show ?thesis by (simp add: push_bit_eq_mult drop_bit_eq_div)
qed

lemma ALIGN_bounds: "s \<le> ALIGN s" "ALIGN s < s + 4" "4 dvd ALIGN s"
  unfolding ALIGN_eq by presburger+

lemma ALIGN_fix: "4 dvd s \<Longrightarrow> ALIGN s = s"
  unfolding ALIGN_eq by presburger

subsection \<open>The buffer as a list of blocks\<close>

text \<open>
  \<open>tiled m off bs\<close>: from \<open>off\<close> on the memory holds the blocks \<open>bs\<close>, given by length and \<open>id\<close>.  A fragment,
  too short for a header, counts as free.
\<close>

fun tiled :: "byte list \<Rightarrow> int \<Rightarrow> (int \<times> int) list \<Rightarrow> bool" where
  "tiled m off [] = True"
| "tiled m off ((l, i) # bs) \<longleftrightarrow> 0 < l \<and> off + ALIGN l \<le> int (length m) \<and> ld m off = Some l \<and>
     (if HDR \<le> l then ld m (off + 8) = Some i else i = -1) \<and> tiled m (off + ALIGN l) bs"

definition extent :: "(int \<times> int) list \<Rightarrow> int" where
  "extent bs = sum_list (map (\<lambda>(l, i). ALIGN l) bs)"

lemma extent_simps [simp]:
  "extent [] = 0" "extent ((l, i) # bs) = ALIGN l + extent bs" "extent (xs @ ys) = extent xs + extent ys"
  by (simp_all add: extent_def)

lemma tiled_append: "tiled m off (xs @ ys) \<longleftrightarrow> tiled m off xs \<and> tiled m (off + extent xs) ys"
  by (induction xs arbitrary: off) (auto simp: add.assoc)

lemma tiled_extent: "tiled m off bs \<Longrightarrow> 0 \<le> extent bs \<and> (bs \<noteq> [] \<longrightarrow> 0 < extent bs)"
proof (induction bs arbitrary: off)
  case (Cons b bs)
  obtain l i where b: "b = (l, i)" by (cases b)
  have "0 < l" "0 \<le> extent bs" using Cons b by auto
  then show ?case using ALIGN_bounds(1)[of l] b by simp
qed simp

lemma tiled_bounds: "tiled m off bs \<Longrightarrow> bs \<noteq> [] \<Longrightarrow> 0 \<le> off \<and> off + extent bs \<le> int (length m)"
proof (induction bs arbitrary: off)
  case (Cons b bs)
  obtain l i where b: "b = (l, i)" by (cases b)
  have "0 \<le> off" using Cons.prems(1) b by (auto simp: ld_def split: if_splits)
  moreover have "off + ALIGN l + extent bs \<le> int (length m)"
    using Cons.IH[of "off + ALIGN l"] Cons.prems(1) b by (cases "bs = []") auto
  ultimately show ?case using b by simp
qed simp

lemma extent_dvd: "4 dvd extent bs"
proof (induction bs)
  case (Cons b bs)
  then show ?case using ALIGN_bounds(3) by (cases b) (simp add: dvd_add)
qed simp

lemma tiled_frame:
  assumes "tiled m off bs" "length m' = length m"
    "\<And>k. k < length m \<Longrightarrow> off \<le> int k \<Longrightarrow> int k < off + extent bs \<Longrightarrow> m' ! k = m ! k"
  shows "tiled m' off bs"
  using assms(1,3)
proof (induction bs arbitrary: off)
  case (Cons b bs)
  obtain l i where b: "b = (l, i)" by (cases b)
  have l: "0 < l" "tiled m (off + ALIGN l) bs" using Cons.prems(1) b by auto
  have a: "4 \<le> ALIGN l" using l(1) ALIGN_bounds(1,3)[of l] zdvd_imp_le[of 4 "ALIGN l"] by linarith
  have t: "0 \<le> extent bs" using tiled_extent[OF l(2)] by simp
  have "ld m' off = ld m off"
    by (rule ld_cong[OF assms(2)], rule Cons.prems(2)) (use a t b in auto)
  moreover have "ld m' (off + 8) = ld m (off + 8)" if "HDR \<le> l"
    by (rule ld_cong[OF assms(2)], rule Cons.prems(2)) (use that ALIGN_bounds(1)[of l] t b in auto)
  moreover have "tiled m' (off + ALIGN l) bs"
    by (rule Cons.IH[OF l(2)], rule Cons.prems(2)) (use a b in auto)
  ultimately show ?case using Cons.prems(1) b assms(2) by auto
qed simp

text \<open>What the functions see at the head of a tiled part.\<close>

lemma used_by_head: "tiled (rb_mem rb) off ((l, i) # bs) \<Longrightarrow> used_by rb off = Some i"
  by (auto simp: used_by_def get_length_def get_id_def has_header_def)

lemma block_next_head:
  assumes "tiled (rb_mem rb) off ((l, i) # bs)" "off + extent ((l, i) # bs) = rb_size rb"
  shows "block_next rb off = Some (if bs = [] then None else Some (off + ALIGN l))"
proof -
  have l: "get_length rb off = Some l" using assms(1) by (simp add: get_length_def)
  show ?thesis
  proof (cases "bs = []")
    case True
    then have "ALIGN l + off = rb_size rb" using assms(2) by simp
    then show ?thesis using l True by (simp add: block_next_def)
  next
    case False
    then have "0 < extent bs" using assms(1) tiled_extent[of "rb_mem rb" "off + ALIGN l" bs] by simp
    then have "ALIGN l + off < rb_size rb" using assms(2) by simp
    then show ?thesis using l False by (simp add: block_next_def check_def)
  qed
qed

fun scan_list :: "int \<Rightarrow> int \<Rightarrow> (int \<times> int) list \<Rightarrow> scan" where
  "scan_list n f [] = At_end"
| "scan_list n f ((l, i) # bs) = (if 0 \<le> i then In_use i
     else if n \<le> f + ALIGN l then Room (f + ALIGN l) else scan_list n (f + ALIGN l) bs)"

lemma alloc_scan_list:
  assumes "tiled (rb_mem rb) off bs" "bs \<noteq> []" "off + extent bs = rb_size rb"
  shows "alloc_scan rb n f off = Some (scan_list n f bs)"
  using assms
proof (induction bs arbitrary: off f)
  case (Cons b bs)
  obtain l i where b: "b = (l, i)" by (cases b)
  note h = used_by_head[OF Cons.prems(1)[unfolded b]] block_next_head[OF Cons.prems(1)[unfolded b] Cons.prems(3)[unfolded b]]
  have l: "get_length rb off = Some l" using Cons.prems(1) b by (simp add: get_length_def)
  have IH: "bs \<noteq> [] \<Longrightarrow> alloc_scan rb n (f + ALIGN l) (off + ALIGN l) = Some (scan_list n (f + ALIGN l) bs)"
    using Cons.prems b by (intro Cons.IH) auto
  show ?case
    by (subst alloc_scan.simps) (use h l IH b in \<open>cases "bs = []"; simp\<close>)
qed simp

lemma used_scan_list:
  assumes "tiled (rb_mem rb) off bs" "bs \<noteq> []" "off + extent bs = rb_size rb"
  shows "used_scan rb off = Some (map_option snd (find (\<lambda>(l, i). 0 \<le> i) bs))"
  using assms
proof (induction bs arbitrary: off)
  case (Cons b bs)
  obtain l i where b: "b = (l, i)" by (cases b)
  note h = used_by_head[OF Cons.prems(1)[unfolded b]] block_next_head[OF Cons.prems(1)[unfolded b] Cons.prems(3)[unfolded b]]
  have IH: "bs \<noteq> [] \<Longrightarrow> used_scan rb (off + ALIGN l) = Some (map_option snd (find (\<lambda>(l, i). 0 \<le> i) bs))"
    using Cons.prems b by (intro Cons.IH) auto
  show ?case
    by (subst used_scan.simps) (use h IH b in \<open>cases "bs = []"; simp\<close>)
qed simp

subsection \<open>Allocation\<close>

definition wr :: "byte list \<Rightarrow> int \<Rightarrow> int \<Rightarrow> byte list" where
  "wr m a v = blit m (nat a) (bytes_of_int v)"

definition inside :: "byte list \<Rightarrow> int \<Rightarrow> bool" where
  "inside m a \<longleftrightarrow> 0 \<le> a \<and> a + 4 \<le> int (length m)"

lemma st_wr: "inside m a \<Longrightarrow> st m a v = Some (wr m a v)"
  by (simp add: st_def wr_def inside_def)

lemma put_at_wr: "inside (rb_mem rb) a \<Longrightarrow> put_at rb a v = Some (rb\<lparr>rb_mem := wr (rb_mem rb) a v\<rparr>)"
  by (simp add: put_at_def st_wr)

lemma length_wr: "inside m a \<Longrightarrow> length (wr m a v) = length m"
  using st_length st_wr by blast

lemma inside_wr: "inside m a \<Longrightarrow> inside (wr m a v) b \<longleftrightarrow> inside m b"
  by (simp add: inside_def[of _ b] length_wr)

lemma ld_wr: "inside m a \<Longrightarrow> ld (wr m a v) a = Some (s32 v)"
  using ld_st_same st_wr by blast

lemma ld_wr_other: "inside m a \<Longrightarrow> b + 4 \<le> a \<or> a + 4 \<le> b \<Longrightarrow> ld (wr m a v) b = ld m b"
  using ld_st_other st_wr by blast

lemma nth_wr: "inside m a \<Longrightarrow> k < length m \<Longrightarrow> int k < a \<or> a + 4 \<le> int k \<Longrightarrow> wr m a v ! k = m ! k"
  using st_other st_wr by blast

text \<open>The header that an allocation writes, and the rest of the room after it.\<close>

definition new_header :: "byte list \<Rightarrow> int \<Rightarrow> int \<Rightarrow> byte list" where
  "new_header m h l = wr (wr (wr (wr m h l) (h + 4) 0) (h + 12) (-1)) (h + 8) (-1)"

definition fragment :: "byte list \<Rightarrow> int \<Rightarrow> int \<Rightarrow> byte list" where
  "fragment m a l = (if HDR \<le> l then wr (wr m a l) (a + 8) (-1) else wr m a l)"

lemma new_header:
  assumes "0 \<le> h" "h + HDR \<le> int (length m)" "0 \<le> l" "l < 2147483648"
  shows "length (new_header m h l) = length m" "ld (new_header m h l) h = Some l"
    "ld (new_header m h l) (h + 4) = Some 0" "ld (new_header m h l) (h + 8) = Some (-1)"
    "ld (new_header m h l) (h + 12) = Some (-1)"
    "\<And>k. k < length m \<Longrightarrow> int k < h \<or> h + HDR \<le> int k \<Longrightarrow> new_header m h l ! k = m ! k"
proof -
  have i: "inside m h" "inside m (h + 4)" "inside m (h + 8)" "inside m (h + 12)" using assms by (simp_all add: inside_def)
  have v: "s32 l = l" "s32 0 = 0" "s32 (-1) = -1" using assms by (simp_all add: s32_def)
  note w = length_wr inside_wr i v ld_wr ld_wr_other nth_wr
  show "length (new_header m h l) = length m" "ld (new_header m h l) h = Some l"
    "ld (new_header m h l) (h + 4) = Some 0" "ld (new_header m h l) (h + 8) = Some (-1)"
    "ld (new_header m h l) (h + 12) = Some (-1)"
    by (simp_all add: new_header_def w)
  show "new_header m h l ! k = m ! k" if "k < length m" "int k < h \<or> h + HDR \<le> int k" for k
    using that by (auto simp: new_header_def w)
qed

lemma fragment:
  assumes "0 \<le> a" "0 < l" "4 dvd l" "a + l \<le> int (length m)" "l < 2147483648"
  shows "length (fragment m a l) = length m" "tiled (fragment m a l) a [(l, -1)]"
    "\<And>k. k < length m \<Longrightarrow> int k < a \<or> a + l \<le> int k \<Longrightarrow> fragment m a l ! k = m ! k"
proof -
  have l: "4 \<le> l" using assms(2,3) zdvd_imp_le by blast
  then have i: "inside m a" "HDR \<le> l \<Longrightarrow> inside m (a + 8)" using assms by (simp_all add: inside_def)
  have v: "s32 l = l" "s32 (-1) = -1" using assms by (simp_all add: s32_def)
  note w = length_wr inside_wr i v ld_wr ld_wr_other nth_wr
  show len: "length (fragment m a l) = length m" by (simp add: fragment_def w)
  have "ld (fragment m a l) a = Some l" by (simp add: fragment_def w)
  moreover have "HDR \<le> l \<Longrightarrow> ld (fragment m a l) (a + 8) = Some (-1)" by (simp add: fragment_def w)
  ultimately show "tiled (fragment m a l) a [(l, -1)]" using assms len by (simp add: ALIGN_fix)
  show "fragment m a l ! k = m ! k" if "k < length m" "int k < a \<or> a + l \<le> int k" for k
    using that l by (auto simp: fragment_def w)
qed

lemma alloc_at_value:
  assumes h: "0 \<le> rb_head rb" and sz: "0 \<le> sz" and small: "rb_size rb < 2147483648"
    and len: "rb_size rb = int (length (rb_mem rb))"
    and N: "N = ALIGN (HDR + sz)" and T: "N \<le> T" "rb_head rb + T \<le> rb_size rb" "4 dvd T"
  shows "alloc_at rb T sz =
    (if rb_head rb + N = rb_size rb then None
     else Some (rb\<lparr>rb_head := rb_head rb + N, rb_mem :=
        (if N < T then fragment (new_header (rb_mem rb) (rb_head rb) (HDR + sz)) (rb_head rb + N) (T - N)
         else new_header (rb_mem rb) (rb_head rb) (HDR + sz))\<rparr>, rb_head rb))"
proof -
  let ?h = "rb_head rb" and ?m = "rb_mem rb"
  let ?m' = "new_header ?m ?h (HDR + sz)"
  have n: "HDR + sz \<le> N" "4 dvd N" using N ALIGN_bounds by blast+
  have b: "?h + HDR \<le> int (length ?m)" "0 \<le> HDR + sz" "HDR + sz < 2147483648" using sz T n len small h by linarith+
  note hd = new_header[OF h b]
  have i: "inside ?m ?h" "inside ?m (?h + 4)" "inside ?m (?h + 8)" "inside ?m (?h + 12)"
    using b h by (simp_all add: inside_def)
  have w: "put_at rb ?h (HDR + sz) \<bind> (\<lambda>rb. put_at rb (?h + 4) 0 \<bind> (\<lambda>rb. put_at rb (?h + 12) (-1) \<bind>
      (\<lambda>rb. put_at rb (?h + 8) (-1) \<bind> f))) = f (rb\<lparr>rb_mem := ?m'\<rparr>)" for f :: "RINGBUFFER \<Rightarrow> (RINGBUFFER \<times> int) option"
    by (simp add: put_at_wr i length_wr inside_wr new_header_def)
  have nx: "block_next (rb\<lparr>rb_mem := ?m'\<rparr>) ?h = Some (if ?h + N = rb_size rb then None else Some (?h + N))"
    using hd(2) N T by (auto simp: block_next_def get_length_def check_def Let_def add.commute)
  have fr: "put_at (rb\<lparr>rb_mem := ?m', rb_head := ?h + N\<rparr>) (?h + N) (T - N) \<bind>
      (\<lambda>rb. if has_header (T - N) then put_at rb (?h + N + 8) (-1) else Some rb) =
      Some (rb\<lparr>rb_mem := fragment ?m' (?h + N) (T - N), rb_head := ?h + N\<rparr>)" if "N < T"
  proof -
    have "4 \<le> T - N" using that T(3) n(2) zdvd_imp_le[of 4 "T - N"] by (simp add: dvd_diff)
    then have "inside ?m' (?h + N)" "HDR \<le> T - N \<Longrightarrow> inside ?m' (?h + N + 8)"
      using h n sz T(2) len hd(1) by (simp_all add: inside_def)
    then show ?thesis using that by (auto simp: put_at_wr length_wr inside_wr fragment_def has_header_def)
  qed
  show ?thesis
    unfolding alloc_at_def Let_def N[symmetric] w nx
    using fr by (auto simp: bind_assoc[symmetric])
qed

end
