(* ===== verification/Ring_Blocks.thy ===== *)
theory Ring_Blocks
  imports Mread_Ring
begin

text \<open>
  What the allocator of \<open>Mread_Ring\<close> does to the blocks of the buffer: allocation, the receive that
  shortens the block, and the collection of the oldest connection's blocks.
\<close>

text \<open>The head stands before \<open>post\<close>.\<close>

definition rb_ok :: "RINGBUFFER \<Rightarrow> (int \<times> int) list \<Rightarrow> (int \<times> int) list \<Rightarrow> bool" where
  "rb_ok rb pre post \<longleftrightarrow> rb_size rb = int (length (rb_mem rb)) \<and> rb_size rb < 2147483648 \<and>
     tiled (rb_mem rb) 0 (pre @ post) \<and> extent (pre @ post) = rb_size rb \<and> rb_head rb = extent pre \<and> post \<noteq> []"

definition free_block :: "int \<times> int \<Rightarrow> bool" where
  "free_block b \<longleftrightarrow> snd b < 0"

lemma rb_ok_new:
  assumes "HDR \<le> sz" "4 dvd sz" "sz < 2147483648" "length junk = nat sz"
  shows "\<exists>rb. ringbuffer_new sz junk = Some rb \<and> rb_ok rb [] [(sz, -1)]"
proof -
  let ?m = "wr (wr junk 0 sz) 8 (-1)"
  have i: "inside junk 0" "inside junk 8" using assms by (simp_all add: inside_def)
  have "ringbuffer_new sz junk = Some \<lparr>rb_size = sz, rb_head = 0, rb_mem = ?m\<rparr>"
    by (simp add: ringbuffer_new_def put_at_wr i inside_wr)
  moreover have "ld ?m 0 = Some sz" "ld ?m 8 = Some (-1)" "length ?m = nat sz"
    using assms by (simp_all add: i inside_wr length_wr ld_wr ld_wr_other s32_def)
  then have "rb_ok \<lparr>rb_size = sz, rb_head = 0, rb_mem = ?m\<rparr> [] [(sz, -1)]"
    using assms by (simp add: rb_ok_def ALIGN_fix)
  ultimately show ?thesis by blast
qed

lemma scan_Room:
  "scan_list n f bs = Room t \<Longrightarrow>
    \<exists>taken rest. bs = taken @ rest \<and> f + extent taken = t \<and> n \<le> t \<and> list_all free_block taken"
proof (induction bs arbitrary: f)
  case (Cons b bs)
  obtain l i where b: "b = (l, i)" by (cases b)
  have i: "i < 0" using Cons.prems b by (auto split: if_splits)
  show ?case
  proof (cases "n \<le> f + ALIGN l")
    case True
    then have "b # bs = [b] @ bs \<and> f + extent [b] = t \<and> n \<le> t \<and> list_all free_block [b]"
      using Cons.prems b i by (simp add: free_block_def)
    then show ?thesis by blast
  next
    case False
    then have "scan_list n (f + ALIGN l) bs = Room t" using Cons.prems b i by simp
    then obtain taken rest where "bs = taken @ rest" "f + ALIGN l + extent taken = t" "n \<le> t" "list_all free_block taken"
      using Cons.IH by blast
    then have "b # bs = (b # taken) @ rest \<and> f + extent (b # taken) = t \<and> n \<le> t \<and> list_all free_block (b # taken)"
      using b i by (simp add: free_block_def)
    then show ?thesis by blast
  qed
qed simp

definition leftover :: "int \<Rightarrow> (int \<times> int) list" where
  "leftover l = (if 0 < l then [(l, -1)] else [])"

lemma alloc_at_blocks:
  assumes ok: "rb_ok rb pre (taken @ rest)" and sz: "0 \<le> sz" and N: "N = ALIGN (HDR + sz)" "N \<le> extent taken"
  shows "if N = extent taken \<and> rest = [] then alloc_at rb (extent taken) sz = None
    else \<exists>rb'. alloc_at rb (extent taken) sz = Some (rb', extent pre) \<and>
      rb_ok rb' (pre @ [(HDR + sz, -1)]) (leftover (extent taken - N) @ rest) \<and> rb_size rb' = rb_size rb \<and>
      get_offset rb' (extent pre) = Some 0 \<and> get_next rb' (extent pre) = Some (-1) \<and>
      (\<forall>k < length (rb_mem rb). int k < extent pre \<or> extent pre + extent taken \<le> int k \<longrightarrow>
         rb_mem rb' ! k = rb_mem rb ! k)"
proof -
  let ?m = "rb_mem rb" and ?h = "extent pre" and ?T = "extent taken"
  have len: "rb_size rb = int (length ?m)" and small: "rb_size rb < 2147483648"
    and til: "tiled ?m 0 (pre @ taken @ rest)" and ex: "?h + (?T + extent rest) = rb_size rb" and hd: "rb_head rb = ?h"
    using ok by (simp_all add: rb_ok_def)
  have t: "tiled ?m 0 pre" "tiled ?m ?h taken" "tiled ?m (?h + ?T) rest" using til by (simp_all add: tiled_append)
  have n: "HDR + sz \<le> N" "4 dvd N" using N ALIGN_bounds by blast+
  have h0: "0 \<le> ?h" "0 \<le> extent rest" using tiled_extent t by blast+
  let ?m1 = "new_header ?m ?h (HDR + sz)"
  have b: "?h + HDR \<le> int (length ?m)" "0 \<le> HDR + sz" "HDR + sz < 2147483648" using sz N(2) n len small h0 ex by linarith+
  note hd1 = new_header[OF h0(1) b]
  have val: "alloc_at rb ?T sz = (if ?h + N = rb_size rb then None
     else Some (rb\<lparr>rb_head := ?h + N, rb_mem := (if N < ?T then fragment ?m1 (?h + N) (?T - N) else ?m1)\<rparr>, ?h))"
    using alloc_at_value[OF _ sz small len N(1,2) _ extent_dvd] h0 ex hd by simp
  show ?thesis
  proof (cases "N = ?T \<and> rest = []")
    case True
    then show ?thesis using val ex by simp
  next
    case False
    have "rest \<noteq> [] \<Longrightarrow> 0 < extent rest" using tiled_extent[OF t(3)] by simp
    then have more: "?h + N < rb_size rb" using False N(2) ex by (cases "rest = []") auto
    let ?m' = "if N < ?T then fragment ?m1 (?h + N) (?T - N) else ?m1"
    have fr: "length ?m' = length ?m \<and> (\<forall>k < length ?m. int k < ?h + N \<or> ?h + ?T \<le> int k \<longrightarrow> ?m' ! k = ?m1 ! k) \<and>
        tiled ?m' (?h + N) (leftover (?T - N))"
    proof (cases "N < ?T")
      case True
      have "4 dvd ?T - N" using n(2) extent_dvd by (simp add: dvd_diff)
      then show ?thesis using fragment[of "?h + N" "?T - N" ?m1] hd1(1) True h0 n sz ex len small
        by (simp add: leftover_def)
    next
      case False
      then show ?thesis using hd1(1) by (simp add: leftover_def)
    qed
    have len': "length ?m' = length ?m" and
      out: "\<And>k. k < length ?m \<Longrightarrow> int k < ?h \<or> ?h + ?T \<le> int k \<Longrightarrow> ?m' ! k = ?m ! k"
      using fr hd1(6) n sz N(2) by auto
    have ldm: "ld ?m' a = ld ?m1 a" if "a + 4 \<le> ?h + HDR" for a
      by (rule ld_cong) (use fr len' hd1(1) that n(1) sz in auto)
    have "tiled ?m' 0 pre" by (rule tiled_frame[OF t(1) len']) (use out in auto)
    moreover have "tiled ?m' ?h [(HDR + sz, -1)]"
      using ldm[of ?h] ldm[of "?h + 8"] hd1(2,4) N(1,2) sz len' len ex h0 by simp
    moreover have "tiled ?m' (?h + N) (leftover (?T - N))" using fr by blast
    moreover have "tiled ?m' (?h + ?T) rest" by (rule tiled_frame[OF t(3) len']) (use out in auto)
    moreover have lo: "extent (leftover (?T - N)) = ?T - N"
      using N(2) n(2) extent_dvd[of taken] by (simp add: leftover_def ALIGN_fix dvd_diff)
    ultimately have tiles: "tiled ?m' 0 ((pre @ [(HDR + sz, -1)]) @ leftover (?T - N) @ rest)"
      using N(1) by (simp add: tiled_append add.assoc)
    have ne: "leftover (?T - N) @ rest \<noteq> []" using False N(2) by (auto simp: leftover_def)
    let ?rb = "rb\<lparr>rb_head := ?h + N, rb_mem := ?m'\<rparr>"
    have "rb_ok ?rb (pre @ [(HDR + sz, -1)]) (leftover (?T - N) @ rest)"
      unfolding rb_ok_def using tiles lo len len' small ex N(1) ne by simp
    moreover have "alloc_at rb ?T sz = Some (?rb, ?h)" using val more by simp
    moreover have "get_offset ?rb ?h = Some 0" "get_next ?rb ?h = Some (-1)"
      using ldm[of "?h + 4"] ldm[of "?h + 12"] hd1(3,5) by (simp_all add: get_offset_def get_next_def)
    ultimately show ?thesis using False out by auto
  qed
qed

lemma rb_ok_rewind: "rb_ok rb pre post \<Longrightarrow> rb_ok (rb\<lparr>rb_head := 0\<rparr>) [] (pre @ post)"
  by (simp add: rb_ok_def)

lemma rb_ok_scan:
  assumes "rb_ok rb pre post"
  shows "alloc_scan rb n f (rb_head rb) = Some (scan_list n f post)"
    "used_scan rb (rb_head rb) = Some (map_option snd (find (\<lambda>(l, i). 0 \<le> i) post))"
  using assms alloc_scan_list[of rb "rb_head rb" post n f] used_scan_list[of rb "rb_head rb" post]
  by (simp_all add: rb_ok_def tiled_append)

text \<open>The three outcomes of \<open>ringbuffer_alloc\<close>.\<close>

definition alloc_result :: "RINGBUFFER \<Rightarrow> (int \<times> int) list \<Rightarrow> int \<Rightarrow> (RINGBUFFER \<times> int option) option \<Rightarrow> bool" where
  "alloc_result rb bs sz res = (case res of
       None \<Rightarrow> \<exists>p taken. bs = p @ taken \<and> list_all free_block taken \<and> extent taken = ALIGN (HDR + sz)
     | Some (rb', None) \<Rightarrow> rb_mem rb' = rb_mem rb \<and> (\<exists>pre post. pre @ post = bs \<and> rb_ok rb' pre post)
     | Some (rb', Some b) \<Rightarrow> \<exists>p taken q. bs = p @ taken @ q \<and> list_all free_block taken \<and> b = extent p \<and>
         ALIGN (HDR + sz) \<le> extent taken \<and>
         rb_ok rb' (p @ [(HDR + sz, -1)]) (leftover (extent taken - ALIGN (HDR + sz)) @ q) \<and> rb_size rb' = rb_size rb \<and>
         get_offset rb' b = Some 0 \<and> get_next rb' b = Some (-1) \<and>
         (\<forall>k < length (rb_mem rb). int k < b \<or> b + extent taken \<le> int k \<longrightarrow> rb_mem rb' ! k = rb_mem rb ! k))"

lemma alloc_rounds_result:
  "rb_ok rb pre post \<Longrightarrow> pre @ post = bs \<Longrightarrow> rb_mem rb = rb_mem rb0 \<Longrightarrow> rb_size rb = rb_size rb0 \<Longrightarrow> 0 \<le> sz \<Longrightarrow>
    alloc_result rb0 bs sz (alloc_rounds i rb sz)"
proof (induction i arbitrary: rb pre post)
  case 0
  then show ?case by (auto simp: alloc_result_def)
next
  case (Suc i)
  let ?N = "ALIGN (HDR + sz)"
  show ?case
  proof (cases "scan_list ?N 0 post")
    case (In_use j)
    then have "alloc_rounds (Suc i) rb sz = Some (rb, None)" using rb_ok_scan(1)[OF Suc.prems(1)] by simp
    then show ?thesis using Suc.prems by (auto simp: alloc_result_def)
  next
    case At_end
    then have "alloc_rounds (Suc i) rb sz = alloc_rounds i (rb\<lparr>rb_head := 0\<rparr>) sz"
      using rb_ok_scan(1)[OF Suc.prems(1)] by simp
    then show ?thesis using Suc.IH[OF rb_ok_rewind[OF Suc.prems(1)]] Suc.prems by simp
  next
    case (Room t)
    from scan_Room[OF this] obtain taken rest where b: "post = taken @ rest" "extent taken = t" "?N \<le> t" "list_all free_block taken"
      by auto
    have e: "alloc_rounds (Suc i) rb sz = map_option (\<lambda>(rb, b). (rb, Some b)) (alloc_at rb t sz)"
      using rb_ok_scan(1)[OF Suc.prems(1)] Room by (auto simp: map_conv_bind_option split_beta' comp_def)
    have a: "rb_ok rb pre (taken @ rest)" using Suc.prems(1) b(1) by simp
    note r = alloc_at_blocks[OF a Suc.prems(5) refl b(3)[folded b(2)]]
    show ?thesis
    proof (cases "?N = extent taken \<and> rest = []")
      case True
      then have "alloc_at rb t sz = None" using r b(2) by simp
      moreover have "bs = pre @ taken" using Suc.prems(2) b(1) True by simp
      ultimately show ?thesis using e b(4) True by (auto simp: alloc_result_def)
    next
      case False
      then obtain rb' where w: "alloc_at rb t sz = Some (rb', extent pre)"
          "rb_ok rb' (pre @ [(HDR + sz, -1)]) (leftover (t - ?N) @ rest)" "rb_size rb' = rb_size rb"
          "get_offset rb' (extent pre) = Some 0" "get_next rb' (extent pre) = Some (-1)"
          "\<forall>k < length (rb_mem rb). int k < extent pre \<or> extent pre + t \<le> int k \<longrightarrow> rb_mem rb' ! k = rb_mem rb ! k"
        using r b(2) by auto
      have "bs = pre @ taken @ rest" using Suc.prems(2) b(1) by simp
      moreover have "alloc_rounds (Suc i) rb sz = Some (rb', Some (extent pre))" using e w(1) by simp
      ultimately show ?thesis using w(2-) b(2-4) Suc.prems(3,4) unfolding alloc_result_def
        by (simp only: option.case prod.case) blast
    qed
  qed
qed

subsection \<open>Collecting\<close>

definition collected :: "int \<Rightarrow> int \<times> int \<Rightarrow> int \<times> int" where
  "collected i b = (if snd b = i then (fst b, -1) else b)"

lemma put_id_tiled:
  assumes t: "tiled m off ((l, i) # bs)" and h: "HDR \<le> l" and v: "-2147483648 \<le> v" "v < 2147483648"
  shows "inside m (off + 8)" "tiled (wr m (off + 8) v) off ((l, v) # bs)"
    "\<And>k. k < length m \<Longrightarrow> int k < off + 8 \<or> off + 12 \<le> int k \<Longrightarrow> wr m (off + 8) v ! k = m ! k"
    "length (wr m (off + 8) v) = length m"
proof -
  show i: "inside m (off + 8)" using t h ALIGN_bounds(1)[of l] by (auto simp: inside_def ld_def split: if_splits)
  show len: "length (wr m (off + 8) v) = length m" by (rule length_wr[OF i])
  show out: "wr m (off + 8) v ! k = m ! k" if "k < length m" "int k < off + 8 \<or> off + 12 \<le> int k" for k
    using that by (intro nth_wr[OF i]) auto
  have "tiled (wr m (off + 8) v) (off + ALIGN l) bs"
    by (rule tiled_frame[OF _ len]) (use t h ALIGN_bounds(1)[of l] out in auto)
  moreover have "ld (wr m (off + 8) v) off = ld m off" by (rule ld_wr_other[OF i]) simp
  moreover have "ld (wr m (off + 8) v) (off + 8) = Some v" using ld_wr[OF i] s32_id[OF v] by simp
  ultimately show "tiled (wr m (off + 8) v) off ((l, v) # bs)" using t h len by simp
qed

lemma collect_blocks:
  assumes "tiled (rb_mem rb) off bs" "bs \<noteq> []" "off + extent bs = rb_size rb"
  shows "\<exists>m'. collect_scan i rb off = Some (rb\<lparr>rb_mem := m'\<rparr>) \<and> length m' = length (rb_mem rb) \<and>
    tiled m' off (map (collected i) bs) \<and> (\<forall>k < length m'. int k < off \<longrightarrow> m' ! k = rb_mem rb ! k)"
  using assms
proof (induction bs arbitrary: rb off)
  case (Cons b bs)
  obtain l j where b: "b = (l, j)" by (cases b)
  have t: "tiled (rb_mem rb) off ((l, j) # bs)" and e: "off + extent ((l, j) # bs) = rb_size rb"
    using Cons.prems b by auto
  have gl: "get_length rb off = Some l" "0 < l" and frag: "\<not> HDR \<le> l \<longrightarrow> j = -1" using t by (auto simp: get_length_def)
  let ?m = "if HDR \<le> l \<and> j = i then wr (rb_mem rb) (off + 8) (-1) else rb_mem rb"
  have m: "tiled ?m off (collected i (l, j) # bs)" "length ?m = length (rb_mem rb)"
      "\<forall>k < length ?m. int k < off \<longrightarrow> ?m ! k = rb_mem rb ! k"
    using t frag put_id_tiled[OF t, of "-1"] by (auto simp: collected_def)
  have hh: "has_header l \<longleftrightarrow> HDR \<le> l" using gl(2) by (auto simp: has_header_def)
  have gi: "HDR \<le> l \<Longrightarrow> get_id rb off = Some j" using t by (auto simp: get_id_def)
  have step: "(if has_header l then get_id rb off \<bind> (\<lambda>j. if j = i then put_at rb (off + 8) (-1) else Some rb) else Some rb) =
      Some (rb\<lparr>rb_mem := ?m\<rparr>)"
    using put_at_wr[of rb "off + 8" "-1"] put_id_tiled(1)[OF t, where v = "-1"] gi hh by auto
  obtain l' j' where c: "collected i (l, j) = (l', j')" "l' = l" by (cases "collected i (l, j)") (auto simp: collected_def split: if_splits)
  have nx: "block_next (rb\<lparr>rb_mem := ?m\<rparr>) off = Some (if bs = [] then None else Some (off + ALIGN l))"
    by (rule block_next_head[of _ _ l j' bs]) (use m(1) e c in auto)
  show ?case
  proof (cases "bs = []")
    case True
    have "collect_scan i rb off = Some (rb\<lparr>rb_mem := ?m\<rparr>)"
      by (subst collect_scan.simps) (use gl step nx True in simp)
    moreover have "tiled ?m off (map (collected i) (b # bs))" using m(1) b True by (simp del: tiled.simps)
    ultimately show ?thesis using m(2,3) by blast
  next
    case False
    let ?rb = "rb\<lparr>rb_mem := ?m\<rparr>"
    have "tiled (rb_mem ?rb) (off + ALIGN l) bs" using m(1) c by simp
    moreover have "off + ALIGN l + extent bs = rb_size ?rb" using e by simp
    ultimately obtain m' where w: "collect_scan i ?rb (off + ALIGN l) = Some (?rb\<lparr>rb_mem := m'\<rparr>)" "length m' = length ?m"
        "tiled m' (off + ALIGN l) (map (collected i) bs)" "\<forall>k < length m'. int k < off + ALIGN l \<longrightarrow> m' ! k = ?m ! k"
      using Cons.IH[OF _ False] by fastforce
    have "collect_scan i rb off = collect_scan i ?rb (off + ALIGN l)"
      by (subst collect_scan.simps) (use gl step nx False in simp)
    moreover have "tiled m' off [collected i (l, j)]"
      by (rule tiled_frame[of ?m]) (use m(1) w(2,4) c ALIGN_bounds(1)[of l] in auto)
    then have "tiled m' off (map (collected i) ((l, j) # bs))" using w(3) c by simp
    moreover have "int k < off + ALIGN l" if "int k < off" for k using that ALIGN_bounds(1)[of l] gl(2) by linarith
    ultimately show ?thesis using w m(2,3) b by auto
  qed
qed simp

text \<open>The oldest block in use: the first from the head on, or else the first of all.\<close>

definition oldest :: "(int \<times> int) list \<Rightarrow> (int \<times> int) list \<Rightarrow> int" where
  "oldest pre post = (case find (\<lambda>(l, i). 0 \<le> i) (post @ pre) of None \<Rightarrow> -1 | Some b \<Rightarrow> snd b)"

lemma last_id_value:
  assumes ok: "rb_ok rb pre post"
  shows "\<exists>h pre' post'. last_id rb = Some (rb\<lparr>rb_head := h\<rparr>, oldest pre post) \<and> pre' @ post' = pre @ post \<and>
    rb_ok (rb\<lparr>rb_head := h\<rparr>) pre' post'"
proof -
  let ?f = "find (\<lambda>(l, i). 0 \<le> i)"
  have s1: "used_scan rb (rb_head rb) = Some (map_option snd (?f post))" by (rule rb_ok_scan(2)[OF ok])
  have s2: "used_scan (rb\<lparr>rb_head := 0\<rparr>) 0 = Some (map_option snd (?f (pre @ post)))"
    using rb_ok_scan(2)[OF rb_ok_rewind[OF ok]] by simp
  show ?thesis
  proof (cases "?f post")
    case (Some b)
    then have "last_id rb = Some (rb\<lparr>rb_head := rb_head rb\<rparr>, oldest pre post)"
      using s1 by (simp add: last_id_def numeral_2_eq_2 oldest_def find_append)
    moreover have "rb\<lparr>rb_head := rb_head rb\<rparr> = rb" by simp
    ultimately show ?thesis using ok by metis
  next
    case None
    then have "oldest pre post = (case ?f (pre @ post) of None \<Rightarrow> -1 | Some b \<Rightarrow> snd b)"
      by (simp add: oldest_def find_append split: option.split)
    then have "last_id rb = Some (rb\<lparr>rb_head := 0\<rparr>, oldest pre post)"
      using s1 s2 None by (simp add: last_id_def numeral_2_eq_2 split: option.split)
    then show ?thesis using rb_ok_rewind[OF ok] by (metis append_Nil)
  qed
qed

lemma collected_extent: "extent (map (collected i) bs) = extent bs"
  by (induction bs) (auto simp: collected_def)

lemma collect_value:
  assumes ok: "rb_ok rb pre post"
  shows "\<exists>rb' pre' post'. ringbuffer_collect rb = Some (rb', oldest pre post) \<and>
    pre' @ post' = map (collected (oldest pre post)) (pre @ post) \<and> rb_ok rb' pre' post' \<and> rb_size rb' = rb_size rb"
proof -
  let ?i = "oldest pre post"
  obtain h p q where l: "last_id rb = Some (rb\<lparr>rb_head := h\<rparr>, ?i)" "p @ q = pre @ post" "rb_ok (rb\<lparr>rb_head := h\<rparr>) p q"
    using last_id_value[OF ok] by blast
  let ?rb = "rb\<lparr>rb_head := h\<rparr>"
  have "tiled (rb_mem ?rb) 0 (p @ q)" "p @ q \<noteq> []" "0 + extent (p @ q) = rb_size ?rb" using l(3) by (simp_all add: rb_ok_def)
  from collect_blocks[OF this, of ?i] obtain m' where m: "collect_scan ?i ?rb 0 = Some (?rb\<lparr>rb_mem := m'\<rparr>)"
      "length m' = length (rb_mem ?rb)" "tiled m' 0 (map (collected ?i) (p @ q))" by blast
  have "rb_ok (?rb\<lparr>rb_mem := m'\<rparr>) (map (collected ?i) p) (map (collected ?i) q)"
    using l(3) m(2,3) unfolding rb_ok_def by (simp add: collected_extent)
  moreover have "ringbuffer_collect rb = Some (?rb\<lparr>rb_mem := m'\<rparr>, ?i)" using l(1) m(1) by (simp add: ringbuffer_collect_def)
  moreover have "map (collected ?i) p @ map (collected ?i) q = map (collected ?i) (pre @ post)"
    using l(2) by (metis map_append)
  ultimately show ?thesis by fastforce
qed

subsection \<open>Shortening a block to what was received\<close>

lemma resize_value:
  assumes ok: "rb_ok rb (p @ [(l, i)]) post" and l: "HDR \<le> l" and sz: "0 < sz" "HDR + sz \<le> l"
  shows "if ALIGN (HDR + sz) = ALIGN l then ringbuffer_resize rb (extent p) sz = None
    else \<exists>rb'. ringbuffer_resize rb (extent p) sz = Some rb' \<and>
      rb_ok rb' (p @ [(HDR + sz, i)]) ((ALIGN l - ALIGN (HDR + sz), -1) # post) \<and> rb_size rb' = rb_size rb \<and>
      get_offset rb' (extent p) = get_offset rb (extent p) \<and> get_next rb' (extent p) = get_next rb (extent p) \<and>
      (\<forall>k < length (rb_mem rb). int k < extent p \<or> extent p + HDR \<le> int k \<and> int k < extent p + HDR + sz \<or>
          extent p + ALIGN l \<le> int k \<longrightarrow> rb_mem rb' ! k = rb_mem rb ! k)"
proof -
  let ?m = "rb_mem rb" and ?h = "extent p" and ?N = "ALIGN (HDR + sz)" and ?O = "ALIGN l"
  have len: "rb_size rb = int (length ?m)" and small: "rb_size rb < 2147483648"
    and t: "tiled ?m 0 p" "tiled ?m ?h [(l, i)]" "tiled ?m (?h + ?O) post"
    and ex: "?h + (?O + extent post) = rb_size rb" and hd: "rb_head rb = ?h + ?O" and ne: "post \<noteq> []"
    using ok by (simp_all add: rb_ok_def tiled_append)
  have h0: "0 \<le> ?h" "0 \<le> extent post" using tiled_extent t by blast+
  have gl: "get_length rb ?h = Some l" using t(2) by (simp add: get_length_def)
  have O: "l \<le> ?O" "4 dvd ?O" and N: "HDR + sz \<le> ?N" "4 dvd ?N" using ALIGN_bounds by blast+
  have le: "?N \<le> ?O" unfolding ALIGN_eq using sz(2) by (simp add: zdiv_mono1)
  show ?thesis
  proof (cases "?N = ?O")
    case True
    then show ?thesis using sz gl by (simp add: ringbuffer_resize_def check_def)
  next
    case False
    then have lt: "?N < ?O" using le by simp
    have i: "inside ?m ?h" using h0 O(1) l ex len by (simp add: inside_def)
    let ?m1 = "wr ?m ?h (HDR + sz)"
    let ?m' = "fragment ?m1 (?h + ?N) (?O - ?N)"
    have b: "HDR + sz < 2147483648" using sz(2) O(1) ex h0 small by linarith
    have len1: "length ?m1 = length ?m" by (rule length_wr[OF i])
    have d: "4 dvd ?O - ?N" using O N by (simp add: dvd_diff)
    have g: "0 \<le> ?h + ?N" "?h + ?N + (?O - ?N) \<le> int (length ?m1)" "?O - ?N < 2147483648"
      using h0 N sz(1) ex len len1 small by linarith+
    have dp: "0 < ?O - ?N" using lt by simp
    note fr = fragment[OF g(1) dp d g(2,3)]
    have out: "?m' ! k = ?m ! k" if "k < length ?m"
        "int k < ?h \<or> ?h + 4 \<le> int k \<and> int k < ?h + ?N \<or> ?h + ?O \<le> int k" for k
      using that fr(3)[of k] nth_wr[OF i, of k] len1 N(1) sz(1) lt by auto
    have len': "length ?m' = length ?m" using fr(1) len1 by simp
    have gl1: "ld ?m1 ?h = Some (HDR + sz)" using ld_wr[OF i] s32_id[of "HDR + sz"] b sz(1) by simp
    have ldm: "ld ?m' a = ld ?m1 a" if "a + 4 \<le> ?h + ?N" for a
      by (rule ld_cong) (use fr(1,3) that in auto)
    have ldi: "ld ?m' (?h + 8) = ld ?m (?h + 8)" "ld ?m' (?h + 4) = ld ?m (?h + 4)" "ld ?m' (?h + 12) = ld ?m (?h + 12)"
      using ldm N(1) sz(1) ld_wr_other[OF i] by simp_all
    have "tiled ?m' 0 p" by (rule tiled_frame[OF t(1) len']) (use out in auto)
    moreover have "tiled ?m' ?h [(HDR + sz, i)]"
      using ldm[of ?h] gl1 ldi(1) t(2) l N(1) sz(1) lt len' len ex h0 by auto
    moreover have "tiled ?m' (?h + ?N) [(?O - ?N, -1)]" using fr(2) .
    moreover have "tiled ?m' (?h + ?O) post" by (rule tiled_frame[OF t(3) len']) (use out in auto)
    moreover have ad: "ALIGN (?O - ?N) = ?O - ?N" by (rule ALIGN_fix[OF d])
    ultimately have p: "tiled ?m' 0 p" "tiled ?m' ?h [(HDR + sz, i)]" "tiled ?m' (?h + ?N) [(?O - ?N, -1)]"
        "tiled ?m' (?h + ?O) post" and ad: "ALIGN (?O - ?N) = ?O - ?N" by blast+
    have "tiled ?m' (?h + ?N) ([(?O - ?N, -1)] @ post)"
      unfolding tiled_append using p(3,4) ad by (simp del: tiled.simps)
    then have "tiled ?m' ?h ([(HDR + sz, i)] @ [(?O - ?N, -1)] @ post)"
      unfolding tiled_append[of _ _ "[(HDR + sz, i)]"] using p(2) by (simp del: tiled.simps)
    then have tiles: "tiled ?m' 0 ((p @ [(HDR + sz, i)]) @ (?O - ?N, -1) # post)"
      using p(1) tiled_append[of ?m' 0 p "[(HDR + sz, i)] @ [(?O - ?N, -1)] @ post"] by (simp del: tiled.simps)
    let ?rb = "rb\<lparr>rb_mem := ?m', rb_head := ?h + ?N\<rparr>"
    have "rb_ok ?rb (p @ [(HDR + sz, i)]) ((?O - ?N, -1) # post)"
      unfolding rb_ok_def using tiles ad len len' small ex by simp
    moreover have "block_next (rb\<lparr>rb_mem := ?m1\<rparr>) ?h = Some (Some (?h + ?N))"
      using gl1 lt ex h0 by (simp add: block_next_def get_length_def check_def)
    then have "ringbuffer_resize rb ?h sz = Some ?rb"
    proof -
      have "inside ?m1 (?h + ?N)" "HDR \<le> ?O - ?N \<Longrightarrow> inside ?m1 (?h + ?N + 8)"
        using g(1,2) dp zdvd_imp_le[OF d dp] by (simp_all add: inside_def)
      then show ?thesis
        using \<open>block_next (rb\<lparr>rb_mem := ?m1\<rparr>) ?h = Some (Some (?h + ?N))\<close> gl lt sz(1) put_at_wr[OF i] dp
        by (simp add: ringbuffer_resize_def check_def Let_def add.commute[of sz] put_at_wr inside_wr fragment_def has_header_def)
    qed
    moreover have "get_offset ?rb ?h = get_offset rb ?h" "get_next ?rb ?h = get_next rb ?h"
      using ldi by (simp_all add: get_offset_def get_next_def)
    moreover have "\<forall>k < length ?m. int k < ?h \<or> ?h + HDR \<le> int k \<and> int k < ?h + HDR + sz \<or> ?h + ?O \<le> int k \<longrightarrow>
        rb_mem ?rb ! k = ?m ! k"
      using out N(1) by auto
    ultimately show ?thesis using False by auto
  qed
qed

subsection \<open>The allocator\<close>

text \<open>The server receives into a block it has just allocated and then shortens it.\<close>

lemma alloc_then_resize:
  assumes ok: "rb_ok rb pre post" and sz: "0 \<le> sz" and a: "ringbuffer_alloc rb sz = Some (rb', Some b)"
    and n: "0 < n" "n \<le> sz"
  shows "ringbuffer_resize rb' b n = None \<longleftrightarrow> ALIGN (HDR + n) = ALIGN (HDR + sz)"
proof -
  have "alloc_result rb (pre @ post) sz (ringbuffer_alloc rb sz)"
    unfolding ringbuffer_alloc_def by (rule alloc_rounds_result[OF ok refl refl refl sz])
  then obtain p q where b: "b = extent p" "rb_ok rb' (p @ [(HDR + sz, -1)]) q" unfolding a alloc_result_def by auto
  have "HDR \<le> HDR + sz" "HDR + n \<le> HDR + sz" using sz n(2) by simp_all
  from resize_value[OF b(2) this(1) n(1) this(2)] show ?thesis using b(1) by (auto split: if_splits)
qed

text \<open>
  C34. In a buffer tiled by blocks: an allocation takes a run of free blocks that is long enough, writes a
  header there, leaves every other block and byte alone and keeps the buffer tiled; or it returns null and
  changes nothing; it fails only when the room it found ends exactly at the end of the buffer.  Collecting
  frees all blocks of the oldest connection and nothing else.  Shortening a new block to what was received
  fails exactly when the rounded lengths agree, so a receive that fills the block stops the server.
\<close>

theorem ring_allocator:
  assumes "rb_ok rb pre post" "0 \<le> sz"
  shows "alloc_result rb (pre @ post) sz (ringbuffer_alloc rb sz) \<and>
    (\<exists>rb' pre' post'. ringbuffer_collect rb = Some (rb', oldest pre post) \<and>
       pre' @ post' = map (collected (oldest pre post)) (pre @ post) \<and> rb_ok rb' pre' post') \<and>
    (\<forall>rb' b n. ringbuffer_alloc rb sz = Some (rb', Some b) \<longrightarrow> 0 < n \<longrightarrow> n \<le> sz \<longrightarrow>
       (ringbuffer_resize rb' b n = None \<longleftrightarrow> ALIGN (HDR + n) = ALIGN (HDR + sz)))"
proof -
  have 1: "alloc_result rb (pre @ post) sz (ringbuffer_alloc rb sz)"
    unfolding ringbuffer_alloc_def by (rule alloc_rounds_result[OF assms(1) refl refl refl assms(2)])
  have 2: "\<exists>rb' pre' post'. ringbuffer_collect rb = Some (rb', oldest pre post) \<and>
      pre' @ post' = map (collected (oldest pre post)) (pre @ post) \<and> rb_ok rb' pre' post'"
    using collect_value[OF assms(1)] by blast
  show ?thesis using alloc_then_resize[OF assms] by (intro conjI allI impI 1 2)
qed

text \<open>The smallest buffer of the server: a block of 60 bytes fits, and receiving 57 bytes into it fails.\<close>

theorem ring_allocator_witness:
  "\<exists>rb rb'. ringbuffer_new 120 (replicate 120 0) = Some rb \<and> ringbuffer_alloc rb 60 = Some (rb', Some 0) \<and>
     ringbuffer_resize rb' 0 57 = None \<and> ringbuffer_resize rb' 0 56 \<noteq> None"
proof -
  obtain rb where rb: "ringbuffer_new 120 (replicate 120 0) = Some rb" "rb_ok rb [] [(120, -1)]"
    using rb_ok_new[of 120 "replicate 120 0"] by auto
  have s: "scan_list (ALIGN (HDR + 60)) 0 [(120, -1)] = Room 120" by (simp add: ALIGN_eq)
  have sc: "alloc_scan rb (ALIGN (HDR + 60)) 0 (rb_head rb) = Some (Room 120)"
    unfolding rb_ok_scan(1)[OF rb(2)] s ..
  have ok: "rb_ok rb [] ([(120, -1)] @ [])" using rb(2) by simp
  have "\<exists>rb'. alloc_at rb 120 60 = Some (rb', 0)"
    using alloc_at_blocks[OF ok _ refl, of 60] by (auto simp: ALIGN_eq)
  then obtain rb' where "alloc_at rb 120 60 = Some (rb', 0)" ..
  then have a: "ringbuffer_alloc rb 60 = Some (rb', Some 0)"
    using sc by (simp add: ringbuffer_alloc_def numeral_2_eq_2)
  have "ringbuffer_resize rb' 0 n = None \<longleftrightarrow> ALIGN (HDR + n) = ALIGN (HDR + 60)" if "0 < n" "n \<le> 60" for n
    using ring_allocator[OF rb(2), of 60, THEN conjunct2, THEN conjunct2] a that by auto
  from this[of 57] this[of 56] show ?thesis using rb(1) a by (auto simp: ALIGN_eq)
qed

end
