(* ===== verification/Ring_Chain.thy ===== *)
theory Ring_Chain
  imports Ring_Blocks
begin

text \<open>
  The chain of blocks of one connection as a stream of bytes: \<open>ringbuffer_link\<close> appends,
  \<open>ringbuffer_data\<close> looks ahead, \<open>ringbuffer_yield\<close> drops, \<open>ringbuffer_copy\<close> gathers.
\<close>

subsection \<open>Chains\<close>

definition data_block :: "RINGBUFFER \<Rightarrow> int \<Rightarrow> byte list \<Rightarrow> bool" where
  "data_block rb b d \<longleftrightarrow> 0 \<le> b \<and> b + HDR + int (length d) \<le> int (length (rb_mem rb)) \<and>
     get_length rb b = Some (HDR + int (length d)) \<and> region (rb_mem rb) (nat (b + HDR)) (length d) = d"

text \<open>Each block is linked to the one after it; only the first may have been read in part.\<close>

fun linked :: "RINGBUFFER \<Rightarrow> (int \<times> byte list) list \<Rightarrow> bool" where
  "linked rb [] = True"
| "linked rb [(b, d)] = (data_block rb b d \<and> (\<exists>n < 0. get_next rb b = Some n))"
| "linked rb ((b, d) # (c, e) # cs) = (data_block rb b d \<and> get_next rb b = Some c \<and> get_offset rb c = Some 0 \<and>
     linked rb ((c, e) # cs))"

definition stream :: "nat \<Rightarrow> (int \<times> byte list) list \<Rightarrow> byte list" where
  "stream off cs = drop off (concat (map snd cs))"

lemma stream_drop: "stream (off + skip) cs = drop skip (stream off cs)"
  by (simp add: stream_def add.commute)

lemma linked_Cons: "linked rb ((b, d) # cs) \<Longrightarrow> data_block rb b d \<and> linked rb cs"
  by (cases cs) auto

lemma linked_next:
  "linked rb ((b, d) # cs) \<Longrightarrow> \<exists>n. get_next rb b = Some n \<and> (n < 0 \<longleftrightarrow> cs = [])"
proof (cases cs)
  case (Cons ce cs')
  obtain c e where ce: "ce = (c, e)" by (cases ce)
  assume "linked rb ((b, d) # cs)"
  then have "get_next rb b = Some c" "data_block rb c e" using linked_Cons[of rb c e cs'] ce Cons by simp_all
  then show ?thesis using Cons by (simp add: data_block_def)
qed auto

lemma data_address: "0 \<le> b \<Longrightarrow> nat (b + HDR + int off + int skip) = nat (b + HDR) + (off + skip)"
  by linarith

lemma data_count_value:
  assumes "linked rb ((b, d) # cs)" "ret < sz"
  shows "data_count rb sz ret b = Some (min sz (ret + int (length (concat (map snd cs)))))"
  using assms
proof (induction cs arbitrary: b d ret)
  case Nil
  then obtain n where "get_next rb b = Some n" "n < 0" by auto
  then show ?case using Nil.prems(2) by (subst data_count.simps) simp
next
  case (Cons ce cs)
  obtain c e where ce: "ce = (c, e)" by (cases ce)
  have l: "get_next rb b = Some c" "data_block rb c e" "linked rb ((c, e) # cs)"
    using Cons.prems(1) ce linked_Cons[of rb c e cs] by simp_all
  have u: "data_count rb sz ret b =
      (if sz \<le> ret + int (length e) then Some sz else data_count rb sz (ret + int (length e)) c)"
    using l(1,2) by (subst data_count.simps) (simp add: data_block_def)
  show ?case
  proof (cases "sz \<le> ret + int (length e)")
    case True
    then show ?thesis using u ce by (simp add: min_def)
  next
    case False
    then show ?thesis using u ce Cons.IH[OF l(3), of "ret + int (length e)"] by (simp add: add.assoc)
  qed
qed

lemma region_inner:
  assumes "region m p n = d" "i + k \<le> n" "p + n \<le> length m"
  shows "region m (p + i) k = take k (drop i d)"
  using assms by (auto simp: region_def min_def drop_take add.commute)

text \<open>Looking ahead by \<open>skip\<close> bytes.\<close>

lemma data_loop_value:
  assumes "linked rb ((b, d) # cs)" "get_offset rb b = Some (int off)" "off \<le> length d" "0 < sz"
    "skip \<le> length (stream off ((b, d) # cs))"
  shows "\<exists>p. data_loop rb (int sz) (int skip) (int (length d) - int off) b =
      Some (int (min sz (length (stream off ((b, d) # cs)) - skip)), p) \<and>
    (\<forall>a. p = Some a \<longrightarrow> skip + sz \<le> length (stream off ((b, d) # cs)) \<and>
       region (rb_mem rb) (nat a) sz = take sz (drop skip (stream off ((b, d) # cs))))"
  using assms
proof (induction cs arbitrary: b d off skip)
  case Nil
  have n: "\<exists>n < 0. get_next rb b = Some n" "data_block rb b d" using Nil.prems(1) by auto
  have len: "length (stream off [(b, d)]) = length d - off" by (simp add: stream_def)
  consider (inside) "skip < length d - off" "sz \<le> length d - off - skip"
    | (short) "skip < length d - off" "\<not> sz \<le> length d - off - skip" | (all) "skip = length d - off"
    using Nil.prems(5) len by linarith
  then show ?case
  proof cases
    case inside
    have "data_loop rb (int sz) (int skip) (int (length d) - int off) b = Some (int sz, Some (b + HDR + int off + int skip))"
      using inside Nil.prems(2,3) by (subst data_loop.simps) auto
    moreover have "region (rb_mem rb) (nat (b + HDR) + (off + skip)) sz = take sz (drop (off + skip) d)"
      by (rule region_inner[of _ _ "length d"]) (use n(2) inside in \<open>auto simp: data_block_def\<close>)
    moreover have "nat (b + HDR + int off + int skip) = nat (b + HDR) + (off + skip)" using n(2) data_address by (simp add: data_block_def)
    ultimately show ?thesis using inside len by (simp add: stream_def add.commute)
  next
    case short
    have "data_loop rb (int sz) (int skip) (int (length d) - int off) b =
        map_option (\<lambda>r. (r, None)) (data_count rb (int sz) (int (length d) - int off - int skip) b)"
      using short Nil.prems(2,3) by (subst data_loop.simps) (auto simp: map_conv_bind_option comp_def)
    moreover have "data_count rb (int sz) (int (length d) - int off - int skip) b =
        Some (min (int sz) (int (length d) - int off - int skip))"
      using data_count_value[OF Nil.prems(1), of "int (length d) - int off - int skip" "int sz"] short by simp
    moreover have "min (int sz) (int (length d) - int off - int skip) = int (min sz (length d - off - skip))"
      using short Nil.prems(3) by linarith
    ultimately show ?thesis unfolding len by simp
  next
    case all
    then show ?thesis using n(1) Nil.prems(3) len by (subst data_loop.simps) (auto simp: check_def)
  qed
next
  case (Cons ce cs)
  obtain c e where ce: "ce = (c, e)" by (cases ce)
  let ?n = "length d - off" and ?r = "concat (map snd (ce # cs))"
  have n: "data_block rb b d" "get_next rb b = Some c" "get_offset rb c = Some (int 0)" "linked rb ((c, e) # cs)"
    using Cons.prems(1) ce by auto
  have c: "0 \<le> c" "get_length rb c = Some (HDR + int (length e))" using linked_Cons[OF n(4)] by (simp_all add: data_block_def)
  have st: "stream off ((b, d) # ce # cs) = drop off d @ stream 0 ((c, e) # cs)"
    using Cons.prems(3) ce by (simp add: stream_def)
  have len: "length (stream off ((b, d) # ce # cs)) = ?n + length ?r" unfolding st using ce by (simp add: stream_def)
  consider (inside) "skip < ?n" "sz \<le> ?n - skip" | (short) "skip < ?n" "\<not> sz \<le> ?n - skip" | (later) "?n \<le> skip"
    by linarith
  then show ?case
  proof cases
    case inside
    have "data_loop rb (int sz) (int skip) (int (length d) - int off) b = Some (int sz, Some (b + HDR + int off + int skip))"
      using inside Cons.prems(2,3) by (subst data_loop.simps) auto
    moreover have "region (rb_mem rb) (nat (b + HDR) + (off + skip)) sz = take sz (drop (off + skip) d)"
      by (rule region_inner[of _ _ "length d"]) (use n(1) inside in \<open>auto simp: data_block_def\<close>)
    moreover have "nat (b + HDR + int off + int skip) = nat (b + HDR) + (off + skip)" using n(1) data_address by (simp add: data_block_def)
    moreover have "take sz (drop skip (stream off ((b, d) # ce # cs))) = take sz (drop (off + skip) d)"
      using inside by (simp add: st add.commute)
    ultimately show ?thesis using inside len by simp
  next
    case short
    have "data_loop rb (int sz) (int skip) (int (length d) - int off) b =
        map_option (\<lambda>r. (r, None)) (data_count rb (int sz) (int (length d) - int off - int skip) b)"
      using short Cons.prems(2,3) by (subst data_loop.simps) (auto simp: map_conv_bind_option comp_def)
    moreover have "data_count rb (int sz) (int (length d) - int off - int skip) b =
        Some (min (int sz) (int (length d) - int off - int skip + int (length ?r)))"
      using data_count_value[OF Cons.prems(1), of "int (length d) - int off - int skip" "int sz"] short by simp
    moreover have "min (int sz) (int (length d) - int off - int skip + int (length ?r)) = int (min sz (?n + length ?r - skip))"
      using short Cons.prems(3) by linarith
    ultimately show ?thesis unfolding len by simp
  next
    case later
    let ?S = "stream off ((b, d) # ce # cs)" and ?s = "stream 0 ((c, e) # cs)"
    have "\<not> int skip < int (length d) - int off" "int skip - (int (length d) - int off) = int (skip - ?n)"
      using later Cons.prems(3) by linarith+
    then have 1: "data_loop rb (int sz) (int skip) (int (length d) - int off) b =
        data_loop rb (int sz) (int (skip - ?n)) (int (length e) - int 0) c"
      using n(2,3) c by (subst data_loop.simps) (simp add: check_def)
    have L: "length ?S = ?n + length ?s" by (simp add: st)
    have 2: "length ?S - skip = length ?s - (skip - ?n)" "skip + sz \<le> length ?S \<longleftrightarrow> skip - ?n + sz \<le> length ?s"
      using L later by linarith+
    have 3: "drop skip ?S = drop (skip - ?n) ?s" using later by (simp add: st)
    have 4: "skip - ?n \<le> length ?s" using Cons.prems(5) L by linarith
    show ?thesis unfolding 1 2 3 by (rule Cons.IH[OF n(4,3) le0 Cons.prems(4) 4])
  qed
qed

lemma data_value:
  assumes "linked rb ((b, d) # cs)" "get_offset rb b = Some (int off)" "off \<le> length d" "0 < sz"
    "skip \<le> length (stream off ((b, d) # cs))"
  shows "\<exists>p. ringbuffer_data rb b (int sz) (int skip) =
      Some (int (min sz (length (stream off ((b, d) # cs)) - skip)), p) \<and>
    (\<forall>a. p = Some a \<longrightarrow> skip + sz \<le> length (stream off ((b, d) # cs)) \<and>
       region (rb_mem rb) (nat a) sz = take sz (drop skip (stream off ((b, d) # cs))))"
proof -
  have "get_length rb b = Some (HDR + int (length d))" using linked_Cons[OF assms(1)] by (simp add: data_block_def)
  then have e: "ringbuffer_data rb b (int sz) (int skip) =
      data_loop rb (int sz) (int skip) (int (length d) - int off) b"
    using assms(2) by (simp add: ringbuffer_data_def)
  show ?thesis unfolding e by (rule data_loop_value[OF assms])
qed

subsection \<open>Blocks that do not overlap\<close>

definition apart :: "int \<times> byte list \<Rightarrow> int \<times> byte list \<Rightarrow> bool" where
  "apart x y \<longleftrightarrow> fst x + HDR + int (length (snd x)) \<le> fst y \<or> fst y + HDR + int (length (snd y)) \<le> fst x"

text \<open>Writes outside the blocks of a chain leave it alone.\<close>

definition same_block :: "RINGBUFFER \<Rightarrow> RINGBUFFER \<Rightarrow> int \<times> byte list \<Rightarrow> bool" where
  "same_block rb rb' x \<longleftrightarrow> (\<forall>k < length (rb_mem rb). fst x \<le> int k \<and> int k < fst x + HDR + int (length (snd x)) \<longrightarrow>
     rb_mem rb' ! k = rb_mem rb ! k)"

lemma region_cong:
  assumes "length m' = length m" "\<And>k. k < length m \<Longrightarrow> p \<le> k \<Longrightarrow> k < p + n \<Longrightarrow> m' ! k = m ! k"
  shows "region m' p n = region m p n"
proof (rule nth_equalityI)
  show "length (region m' p n) = length (region m p n)" using assms(1) by simp
  fix i assume i: "i < length (region m' p n)"
  then have "i < n" "p + i < length m" using assms(1) by auto
  then show "region m' p n ! i = region m p n ! i" using assms by (simp add: nth_region)
qed

lemma same_block_fields:
  assumes len: "length (rb_mem rb') = length (rb_mem rb)" and s: "same_block rb rb' (b, d)" and "0 \<le> b"
  shows "get_length rb' b = get_length rb b" "get_offset rb' b = get_offset rb b" "get_id rb' b = get_id rb b"
    "get_next rb' b = get_next rb b" "data_block rb' b d = data_block rb b d"
proof -
  have f: "ld (rb_mem rb') a = ld (rb_mem rb) a" if "b \<le> a" "a + 4 \<le> b + HDR" for a
    by (rule ld_cong[OF len]) (use s that in \<open>auto simp: same_block_def\<close>)
  show g: "get_length rb' b = get_length rb b" "get_offset rb' b = get_offset rb b" "get_id rb' b = get_id rb b"
    "get_next rb' b = get_next rb b"
    by (simp_all add: get_length_def get_offset_def get_id_def get_next_def f)
  have "region (rb_mem rb') (nat (b + HDR)) (length d) = region (rb_mem rb) (nat (b + HDR)) (length d)"
    by (rule region_cong[OF len]) (use s assms(3) in \<open>auto simp: same_block_def\<close>)
  then show "data_block rb' b d = data_block rb b d" using g(1) len by (simp add: data_block_def)
qed

lemma linked_frame:
  assumes "linked rb cs" "length (rb_mem rb') = length (rb_mem rb)" "\<forall>x \<in> set cs. same_block rb rb' x"
  shows "linked rb' cs"
  using assms(1,3)
proof (induction cs)
  case (Cons x cs)
  obtain b d where x: "x = (b, d)" by (cases x)
  have l: "data_block rb b d" "linked rb cs" using linked_Cons Cons.prems(1) x by blast+
  have same: "same_block rb rb' (b, d)" "\<forall>y \<in> set cs. same_block rb rb' y" using Cons.prems(2) x by simp_all
  have b0: "0 \<le> b" using l(1) by (simp add: data_block_def)
  note sf = same_block_fields[OF assms(2) same(1) b0]
  have IH: "linked rb' cs" using Cons.IH l(2) same(2) by blast
  show ?case
  proof (cases cs)
    case Nil
    then show ?thesis using Cons.prems(1) x sf by simp
  next
    case (Cons y ys)
    obtain c e where y: "y = (c, e)" by (cases y)
    have "data_block rb c e" using linked_Cons l(2) Cons y by blast
    then have "0 \<le> c" by (simp add: data_block_def)
    then have "get_offset rb' c = get_offset rb c" using same_block_fields(2)[OF assms(2), of c e] same(2) Cons y by simp
    then show ?thesis using Cons.prems(1) x Cons y sf IH by simp
  qed
qed simp

lemma put_field:
  assumes d: "data_block rb b d" and f: "f \<in> {4, 8, 12}" and rb': "rb' = rb\<lparr>rb_mem := wr (rb_mem rb) (b + f) v\<rparr>"
  shows "put_at rb (b + f) v = Some rb'" "length (rb_mem rb') = length (rb_mem rb)" "data_block rb' b d"
    "ld (rb_mem rb') (b + f) = Some (s32 v)" "\<And>g. g \<in> {0, 4, 8, 12} \<Longrightarrow> g \<noteq> f \<Longrightarrow> ld (rb_mem rb') (b + g) = ld (rb_mem rb) (b + g)"
    "\<And>y. apart (b, d) y \<Longrightarrow> same_block rb rb' y"
    "\<And>k. k < length (rb_mem rb) \<Longrightarrow> int k < b \<or> b + HDR \<le> int k \<Longrightarrow> rb_mem rb' ! k = rb_mem rb ! k"
proof -
  have b: "0 \<le> b" "b + HDR + int (length d) \<le> int (length (rb_mem rb))" using d by (simp_all add: data_block_def)
  then have i: "inside (rb_mem rb) (b + f)" using f by (auto simp: inside_def)
  show p: "put_at rb (b + f) v = Some rb'" using put_at_wr[OF i] rb' by simp
  show len: "length (rb_mem rb') = length (rb_mem rb)" using length_wr[OF i] rb' by simp
  show out: "rb_mem rb' ! k = rb_mem rb ! k" if "k < length (rb_mem rb)" "int k < b \<or> b + HDR \<le> int k" for k
    using that nth_wr[OF i] f rb' by auto
  show "ld (rb_mem rb') (b + f) = Some (s32 v)" using ld_wr[OF i] rb' by simp
  show other: "ld (rb_mem rb') (b + g) = ld (rb_mem rb) (b + g)" if "g \<in> {0, 4, 8, 12}" "g \<noteq> f" for g
    using ld_wr_other[OF i, of "b + g" v] that f rb' by auto
  have "region (rb_mem rb') (nat (b + HDR)) (length d) = region (rb_mem rb) (nat (b + HDR)) (length d)"
    by (rule region_cong[OF len]) (use out b in \<open>auto simp: nat_le_iff\<close>)
  moreover have "get_length rb' b = get_length rb b" using other[of 0] f by (auto simp: get_length_def)
  ultimately show "data_block rb' b d" using d len by (simp add: data_block_def)
  show "same_block rb rb' y" if "apart (b, d) y" for y
    using that out by (auto simp: apart_def same_block_def)
qed

subsection \<open>Dropping what was read\<close>

text \<open>What a call may change: the headers of the chain only.\<close>

definition only_headers :: "RINGBUFFER \<Rightarrow> RINGBUFFER \<Rightarrow> (int \<times> byte list) list \<Rightarrow> bool" where
  "only_headers rb rb' cs \<longleftrightarrow> rb_size rb' = rb_size rb \<and> rb_head rb' = rb_head rb \<and>
     length (rb_mem rb') = length (rb_mem rb) \<and>
     (\<forall>k < length (rb_mem rb). (\<forall>(b, d) \<in> set cs. int k < b \<or> b + HDR \<le> int k) \<longrightarrow> rb_mem rb' ! k = rb_mem rb ! k)"

text \<open>
  The result for a chain \<open>cs\<close> with the stream \<open>w\<close>: null if nothing is left, else the block where the rest
  starts; the blocks before it are free.
\<close>

definition yield_result ::
  "RINGBUFFER \<Rightarrow> (int \<times> byte list) list \<Rightarrow> byte list \<Rightarrow> nat \<Rightarrow> (RINGBUFFER \<times> int option) option \<Rightarrow> bool" where
  "yield_result rb cs w skip res \<longleftrightarrow> (\<exists>rb'. only_headers rb rb' cs \<and>
    (if length w \<le> skip then res = Some (rb', None)
     else \<exists>used b' d' cs' off'. cs = used @ (b', d') # cs' \<and> off' \<le> length d' \<and> res = Some (rb', Some b') \<and>
       linked rb' ((b', d') # cs') \<and> get_offset rb' b' = Some (int off') \<and>
       stream off' ((b', d') # cs') = drop skip w \<and> (\<forall>(c, e) \<in> set used. get_id rb' c = Some (-1))))"

lemma yield_all: "only_headers rb rb' cs \<Longrightarrow> length w \<le> skip \<Longrightarrow> res = Some (rb', None) \<Longrightarrow> yield_result rb cs w skip res"
  by (auto simp: yield_result_def)

lemma yield_some:
  assumes "only_headers rb rb' cs" "skip < length w" "cs = used @ (b', d') # cs'" "off' \<le> length d'"
    "res = Some (rb', Some b')" "linked rb' ((b', d') # cs')" "get_offset rb' b' = Some (int off')"
    "stream off' ((b', d') # cs') = drop skip w" "\<forall>(c, e) \<in> set used. get_id rb' c = Some (-1)"
  shows "yield_result rb cs w skip res"
proof -
  have n: "\<not> length w \<le> skip" using assms(2) by simp
  show ?thesis unfolding yield_result_def if_not_P[OF n] using assms(1,3-) by blast
qed

lemma yield_loop_value:
  assumes "linked rb ((b, d) # cs)" "get_offset rb b = Some (int off)" "off \<le> length d"
    "sorted_wrt apart ((b, d) # cs)" "int (length (rb_mem rb)) < 2147483648"
  shows "yield_result rb ((b, d) # cs) (stream off ((b, d) # cs)) skip
    (yield_loop (int skip) (int (length d) - int off) rb b)"
  using assms
proof (induction cs arbitrary: rb b d off skip)
  case Nil
  have db: "data_block rb b d" and nx: "\<exists>n < 0. get_next rb b = Some n" using Nil.prems(1) by auto
  show ?case
  proof (cases "skip < length d - off")
    case True
    let ?rb = "rb\<lparr>rb_mem := wr (rb_mem rb) (b + 4) (int off + int skip)\<rparr>"
    note p = put_field[OF db _ refl, where f = 4 and v = "int off + int skip", simplified]
    have small: "s32 (int off + int skip) = int off + int skip"
      by (rule s32_id) (use True db Nil.prems(5) in \<open>auto simp: data_block_def\<close>)
    have y: "yield_loop (int skip) (int (length d) - int off) rb b = Some (?rb, Some b)"
      using True Nil.prems(2,3) p(1) by (subst yield_loop.simps) auto
    have "get_next ?rb b = get_next rb b" using p(5)[of 12] by (simp add: get_next_def)
    then have "linked ?rb [(b, d)]" using p(3) nx by simp
    moreover have "get_offset ?rb b = Some (int (off + skip))" using p(4) small by (simp add: get_offset_def)
    moreover have "only_headers rb ?rb [(b, d)]" using p(2,7) by (auto simp: only_headers_def)
    moreover have "stream (off + skip) [(b, d)] = drop skip (stream off [(b, d)])" by (rule stream_drop)
    moreover have "off + skip \<le> length d" using True by simp
    moreover have "skip < length (stream off [(b, d)])" using True by (simp add: stream_def)
    ultimately show ?thesis using y by (intro yield_some[where used = "[]" and off' = "off + skip"]) simp_all
  next
    case False
    let ?rb = "rb\<lparr>rb_mem := wr (rb_mem rb) (b + 8) (-1)\<rparr>"
    note p = put_field[OF db _ refl, where f = 8 and v = "-1", simplified]
    have "get_next ?rb b = get_next rb b" using p(5)[of 12] by (simp add: get_next_def)
    then have "yield_loop (int skip) (int (length d) - int off) rb b = Some (?rb, None)"
      using False Nil.prems(3) p(1) nx by (subst yield_loop.simps) auto
    moreover have "only_headers rb ?rb [(b, d)]" using p(2,7) by (auto simp: only_headers_def)
    moreover have "length (stream off [(b, d)]) \<le> skip" using False by (simp add: stream_def)
    ultimately show ?thesis by (intro yield_all)
  qed
next
  case (Cons ce cs)
  obtain c e where ce: "ce = (c, e)" by (cases ce)
  let ?n = "length d - off"
  have n: "data_block rb b d" "get_next rb b = Some c" "get_offset rb c = Some (int 0)" "linked rb ((c, e) # cs)"
    using Cons.prems(1) ce by auto
  have de: "data_block rb c e" using linked_Cons[OF n(4)] by blast
  have st: "stream off ((b, d) # ce # cs) = drop off d @ stream 0 ((c, e) # cs)"
    using Cons.prems(3) ce by (simp add: stream_def)
  have ap: "\<forall>y \<in> set (ce # cs). apart (b, d) y" "sorted_wrt apart ((c, e) # cs)" using Cons.prems(4) ce by simp_all
  show ?case
  proof (cases "skip < ?n")
    case True
    let ?rb = "rb\<lparr>rb_mem := wr (rb_mem rb) (b + 4) (int off + int skip)\<rparr>"
    note p = put_field[OF n(1) _ refl, where f = 4 and v = "int off + int skip", simplified]
    have small: "s32 (int off + int skip) = int off + int skip"
      by (rule s32_id) (use True n(1) Cons.prems(5) in \<open>auto simp: data_block_def\<close>)
    have y: "yield_loop (int skip) (int (length d) - int off) rb b = Some (?rb, Some b)"
      using True Cons.prems(2,3) p(1) by (subst yield_loop.simps) auto
    have nx: "get_next ?rb b = get_next rb b" using p(5)[of 12] by (simp add: get_next_def)
    have same: "\<forall>y \<in> set (ce # cs). same_block rb ?rb y" using p(6) ap(1) by blast
    have tail: "linked ?rb ((c, e) # cs)" by (rule linked_frame[OF n(4)]) (use p(2) same ce in auto)
    have "get_offset ?rb c = Some 0"
      using same_block_fields(2)[of ?rb rb c e] p(2) same ce de n(3) by (simp add: data_block_def)
    then have "linked ?rb ((b, d) # ce # cs)" using tail p(3) nx n(2) ce by simp
    moreover have "get_offset ?rb b = Some (int (off + skip))" using p(4) small by (simp add: get_offset_def)
    moreover have "only_headers rb ?rb ((b, d) # ce # cs)" using p(2,7) by (auto simp: only_headers_def)
    moreover have "stream (off + skip) ((b, d) # ce # cs) = drop skip (stream off ((b, d) # ce # cs))"
      by (rule stream_drop)
    moreover have "off + skip \<le> length d" using True by simp
    moreover have "skip < length (stream off ((b, d) # ce # cs))" using True by (simp add: st)
    ultimately show ?thesis using y
      by (intro yield_some[where used = "[]" and off' = "off + skip"]) (simp_all del: linked.simps)
  next
    case False
    let ?rb = "rb\<lparr>rb_mem := wr (rb_mem rb) (b + 8) (-1)\<rparr>"
    note p = put_field[OF n(1) _ refl, where f = 8 and v = "-1", simplified]
    have nx: "get_next ?rb b = Some c" using p(5)[of 12] n(2) by (simp add: get_next_def)
    have same: "\<forall>y \<in> set (ce # cs). same_block rb ?rb y" using p(6) ap(1) by blast
    have tail: "linked ?rb ((c, e) # cs)" by (rule linked_frame[OF n(4)]) (use p(2) same ce in auto)
    have c0: "0 \<le> c" using de by (simp add: data_block_def)
    have cf: "get_offset ?rb c = Some (int 0)" "get_length ?rb c = Some (HDR + int (length e))"
      using same_block_fields(1,2)[of ?rb rb c e] p(2) same ce de n(3) by (simp_all add: data_block_def)
    have y: "yield_loop (int skip) (int (length d) - int off) rb b =
        yield_loop (int (skip - ?n)) (int (length e) - int 0) ?rb c"
    proof -
      have "\<not> int skip < int (length d) - int off" "int skip - (int (length d) - int off) = int (skip - ?n)"
        using False Cons.prems(3) by linarith+
      then show ?thesis using p(1) nx cf c0 by (subst yield_loop.simps) (simp add: check_def)
    qed
    have small: "int (length (rb_mem ?rb)) < 2147483648" using Cons.prems(5) p(2) by simp
    have IH: "yield_result ?rb ((c, e) # cs) (stream 0 ((c, e) # cs)) (skip - ?n)
        (yield_loop (int (skip - ?n)) (int (length e) - int 0) ?rb c)"
      using Cons.IH[OF tail cf(1) le0 ap(2) small] .
    then obtain rb' where r: "only_headers ?rb rb' ((c, e) # cs)" and
      R: "if length (stream 0 ((c, e) # cs)) \<le> skip - ?n
        then yield_loop (int (skip - ?n)) (int (length e) - int 0) ?rb c = Some (rb', None)
        else \<exists>used b' d' cs' off'. (c, e) # cs = used @ (b', d') # cs' \<and> off' \<le> length d' \<and>
         yield_loop (int (skip - ?n)) (int (length e) - int 0) ?rb c = Some (rb', Some b') \<and>
         linked rb' ((b', d') # cs') \<and> get_offset rb' b' = Some (int off') \<and>
         stream off' ((b', d') # cs') = drop (skip - ?n) (stream 0 ((c, e) # cs)) \<and>
         (\<forall>(c, e) \<in> set used. get_id rb' c = Some (-1))"
      unfolding yield_result_def by (elim exE conjE)
    have oh: "only_headers rb rb' ((b, d) # ce # cs)"
      using r p(2,7) ce unfolding only_headers_def by auto
    have len: "length (stream off ((b, d) # ce # cs)) = ?n + length (stream 0 ((c, e) # cs))" by (simp add: st)
    show ?thesis
    proof (cases "length (stream 0 ((c, e) # cs)) \<le> skip - ?n")
      case True
      then have "yield_loop (int skip) (int (length d) - int off) rb b = Some (rb', None)" using R y by simp
      moreover have "length (stream off ((b, d) # ce # cs)) \<le> skip" using True False len by linarith
      ultimately show ?thesis using oh by (intro yield_all)
    next
      case F: False
      then obtain used b' d' cs' off' where q: "(c, e) # cs = used @ (b', d') # cs'" "off' \<le> length d'"
          "yield_loop (int (skip - ?n)) (int (length e) - int 0) ?rb c = Some (rb', Some b')"
          "linked rb' ((b', d') # cs')" "get_offset rb' b' = Some (int off')"
          "stream off' ((b', d') # cs') = drop (skip - ?n) (stream 0 ((c, e) # cs))"
          "\<forall>(c, e) \<in> set used. get_id rb' c = Some (-1)"
        using R by (auto simp del: linked.simps)
      have "drop skip (stream off ((b, d) # ce # cs)) = drop (skip - ?n) (stream 0 ((c, e) # cs))"
        using False by (simp add: st)
      then have 1: "stream off' ((b', d') # cs') = drop skip (stream off ((b, d) # ce # cs))" using q(6) by simp
      have "same_block ?rb rb' (b, d)"
        unfolding same_block_def
      proof (intro allI impI)
        fix k assume k: "k < length (rb_mem ?rb)" "fst (b, d) \<le> int k \<and> int k < fst (b, d) + HDR + int (length (snd (b, d)))"
        have "int k < fst x \<or> fst x + HDR \<le> int k" if "x \<in> set ((c, e) # cs)" for x
          using bspec[OF ap(1), of x] that k(2) ce by (auto simp: apart_def)
        then have "\<forall>(b, d) \<in> set ((c, e) # cs). int k < b \<or> b + HDR \<le> int k"
          by (simp only: split_beta') blast
        then show "rb_mem rb' ! k = rb_mem ?rb ! k" using r k(1) unfolding only_headers_def by blast
      qed
      then have 2: "get_id rb' b = Some (-1)"
        using same_block_fields(3)[of rb' ?rb b d] r p(4) n(1)
        by (simp add: only_headers_def get_id_def data_block_def s32_def)
      have 3: "skip < length (stream off ((b, d) # ce # cs))" using F False len by linarith
      have 4: "(b, d) # ce # cs = ((b, d) # used) @ (b', d') # cs'" using q(1) ce by simp
      have 5: "yield_loop (int skip) (int (length d) - int off) rb b = Some (rb', Some b')" unfolding y by (rule q(3))
      have 6: "\<forall>(c, e) \<in> set ((b, d) # used). get_id rb' c = Some (-1)" using q(7) 2 by simp
      show ?thesis by (rule yield_some[OF oh 3 4 q(2) 5 q(4,5) 1 6])
    qed
  qed
qed

lemma yield_value:
  assumes "linked rb ((b, d) # cs)" "get_offset rb b = Some (int off)" "off \<le> length d"
    "sorted_wrt apart ((b, d) # cs)" "int (length (rb_mem rb)) < 2147483648"
  shows "yield_result rb ((b, d) # cs) (stream off ((b, d) # cs)) skip (ringbuffer_yield rb b (int skip))"
proof -
  have "get_length rb b = Some (HDR + int (length d))" using linked_Cons[OF assms(1)] by (simp add: data_block_def)
  then have e: "ringbuffer_yield rb b (int skip) = yield_loop (int skip) (int (length d) - int off) rb b"
    using assms(2) by (simp add: ringbuffer_yield_def)
  show ?thesis unfolding e by (rule yield_loop_value[OF assms])
qed

subsection \<open>Appending a block\<close>

lemma last_of_chain_value:
  "linked rb ((b, d) # cs) \<Longrightarrow> last_of_chain rb b = Some (fst (last ((b, d) # cs)))"
proof (induction cs arbitrary: b d)
  case Nil
  then obtain n where "get_next rb b = Some n" "n < 0" by auto
  then show ?case by (subst last_of_chain.simps) simp
next
  case (Cons ce cs)
  obtain c e where ce: "ce = (c, e)" by (cases ce)
  have l: "get_next rb b = Some c" "linked rb ((c, e) # cs)" using Cons.prems ce by simp_all
  have "0 \<le> c" using linked_Cons[OF l(2)] by (simp add: data_block_def)
  then have "last_of_chain rb b = last_of_chain rb c" using l(1) by (subst last_of_chain.simps) simp
  then show ?case using Cons.IH[OF l(2)] ce by simp
qed

lemma linked_snoc:
  assumes "linked rb (xs @ [(l, d)])" "length (rb_mem rb') = length (rb_mem rb)" "\<forall>x \<in> set xs. same_block rb rb' x"
    "data_block rb' l d" "get_offset rb' l = get_offset rb l" "get_next rb' l = Some n"
    "data_block rb' n e" "get_offset rb' n = Some 0" "\<exists>m < 0. get_next rb' n = Some m"
  shows "linked rb' (xs @ [(l, d), (n, e)])"
  using assms(1,3)
proof (induction xs)
  case Nil
  then show ?case using assms by simp
next
  case (Cons x xs)
  obtain b c where x: "x = (b, c)" by (cases x)
  have l: "data_block rb b c" "linked rb (xs @ [(l, d)])" using linked_Cons[of rb b c "xs @ [(l, d)]"] Cons.prems(1) x by simp_all
  have b0: "0 \<le> b" using l(1) by (simp add: data_block_def)
  have same: "same_block rb rb' (b, c)" "\<forall>y \<in> set xs. same_block rb rb' y" using Cons.prems(2) x by simp_all
  note sf = same_block_fields[OF assms(2) same(1) b0]
  have IH: "linked rb' (xs @ [(l, d), (n, e)])" by (rule Cons.IH[OF l(2) same(2)])
  show ?case
  proof (cases xs)
    case Nil
    then show ?thesis using Cons.prems(1) x sf IH assms(5) by simp
  next
    case (Cons y ys)
    obtain f g where y: "y = (f, g)" by (cases y)
    have "data_block rb f g" using linked_Cons[of rb f g "ys @ [(l, d)]"] l(2) Cons y by simp
    then have "0 \<le> f" by (simp add: data_block_def)
    then have "get_offset rb' f = get_offset rb f" using same_block_fields(2)[OF assms(2), of f g] same(2) Cons y by simp
    then show ?thesis using Cons.prems(1) x Cons y sf IH by simp
  qed
qed

lemma ld_range: "ld m a = Some v \<Longrightarrow> s32 v = v"
  using s32_bounds[of "horner_sum uint 256 (region m (nat a) 4)"]
  by (auto simp: ld_def int_of_bytes_def intro: s32_id split: if_splits)

lemma link_value:
  assumes L: "linked rb (xs @ [(l, d)])" and ap: "sorted_wrt apart (xs @ [(l, d)] @ [(n, e)])"
    and N: "data_block rb n e" "get_offset rb n = Some 0" "get_next rb n = Some m" "m < 0"
    and i: "get_id rb l = Some i" and off: "get_offset rb (fst (hd (xs @ [(l, d)]))) = Some off"
    and small: "int (length (rb_mem rb)) < 2147483648"
  shows "\<exists>rb'. ringbuffer_link rb (fst (hd (xs @ [(l, d)]))) n = Some rb' \<and> linked rb' (xs @ [(l, d)] @ [(n, e)]) \<and>
    get_id rb' n = Some i \<and> get_offset rb' (fst (hd (xs @ [(l, d)]))) = Some off"
proof -
  obtain b c cs where hd: "xs @ [(l, d)] = (b, c) # cs" by (cases xs) auto
  have lst: "last_of_chain rb b = Some l" using last_of_chain_value[of rb b c cs] L hd by (metis fst_conv last_snoc)
  have nl: "apart (n, e) (l, d)" "\<forall>x \<in> set xs. apart (n, e) x" "\<forall>x \<in> set xs. apart (l, d) x"
    using ap by (auto simp: sorted_wrt_append apart_def)
  have D: "data_block rb l d" using L by (induction xs) (auto dest: linked_Cons)
  have i32: "s32 i = i" using i unfolding get_id_def by (rule ld_range)
  let ?r1 = "rb\<lparr>rb_mem := wr (rb_mem rb) (n + 8) i\<rparr>"
  note p = put_field[OF N(1) _ refl, where f = 8 and v = i, simplified]
  have l0: "0 \<le> l" and n0: "0 \<le> n" using D N(1) by (simp_all add: data_block_def)
  have sl: "same_block rb ?r1 (l, d)" by (rule p(6)[OF nl(1)])
  have len1: "length (rb_mem ?r1) = length (rb_mem rb)" using p(2) by simp
  note sf = same_block_fields[OF len1 sl l0]
  have D1: "data_block ?r1 l d" using D sf(5) by simp
  let ?r2 = "?r1\<lparr>rb_mem := wr (rb_mem ?r1) (l + 12) n\<rparr>"
  note q = put_field[OF D1 _ refl, where f = 12 and v = n, simplified]
  have "apart (l, d) (n, e)" using nl(1) by (auto simp: apart_def)
  then have sn: "same_block ?r1 ?r2 (n, e)" using q(6) by simp
  have len2: "length (rb_mem ?r2) = length (rb_mem ?r1)" using q(2) by simp
  then have len: "length (rb_mem ?r2) = length (rb_mem rb)" using len1 by simp
  note sg = same_block_fields[OF len2 sn n0]
  have n32: "s32 n = n" by (rule s32_id) (use N(1) small in \<open>auto simp: data_block_def\<close>)
  have same: "same_block rb ?r2 x" if "x \<in> set xs" for x
    using p(6)[of x] q(6)[of x] nl that p(2) by (simp add: same_block_def)
  have F: "get_offset ?r2 l = get_offset rb l" "get_next ?r2 l = Some n"
    using q(4) q(5)[of 4] n32 sf(2) by (simp_all add: get_offset_def get_next_def)
  have G: "data_block ?r2 n e" "get_offset ?r2 n = Some 0" "get_next ?r2 n = Some m" "get_id ?r2 n = Some i"
    using sg p(3,4) p(5)[of 4] p(5)[of 12] N i32 by (simp_all add: get_offset_def get_next_def get_id_def)
  have "linked ?r2 (xs @ [(l, d), (n, e)])"
  proof (rule linked_snoc[OF L len])
    show "\<forall>x \<in> set xs. same_block rb ?r2 x" using same by blast
    show "data_block ?r2 l d" using q(3) by simp
    show "\<exists>m < 0. get_next ?r2 n = Some m" using G(3) N(4) by blast
  qed (fact F G(1,2))+
  moreover have "ringbuffer_link rb b n = Some ?r2" using lst i p(1) q(1) by (simp add: ringbuffer_link_def)
  moreover have "get_offset ?r2 b = Some off"
  proof (cases xs)
    case Nil
    then show ?thesis using hd off F(1) by simp
  next
    case (Cons x ys)
    have bx: "x = (b, c)" using hd Cons by simp
    have "data_block rb b c" using linked_Cons[of rb b c cs] L hd by simp
    then have "0 \<le> b" by (simp add: data_block_def)
    then show ?thesis using same_block_fields(2)[OF len, of b c] same[of x] Cons bx off by simp
  qed
  ultimately show ?thesis using hd G(4) by simp
qed

subsection \<open>Gathering\<close>

text \<open>
  Three blocks of four bytes at 0, 20 and 40, and a block for twelve bytes at 60.  The copy takes the length
  of the second block with its header, so after its four bytes it copies the header of the third.
\<close>

definition put_words :: "(int \<times> int) list \<Rightarrow> byte list \<Rightarrow> byte list" where
  "put_words ws m = fold (\<lambda>(a, v) m. wr m a v) ws m"

definition three_blocks :: RINGBUFFER where
  "three_blocks = \<lparr>rb_size = 88, rb_head = 0, rb_mem = put_words
     [(0, 20), (4, 0), (8, 7), (12, 20), (16, 67305985), (20, 20), (24, 0), (28, 7), (32, 40), (36, 134678021),
      (40, 20), (44, 0), (48, 7), (52, -1), (56, 202050057), (60, 28), (64, 0), (68, -1), (72, -1)] (replicate 88 0)\<rparr>"

definition gathered :: "(RINGBUFFER \<times> int) option \<Rightarrow> nat \<Rightarrow> byte list option" where
  "gathered r n = map_option (\<lambda>(rb, a). region (rb_mem rb) (nat a) n) r"

lemma three_linked:
  "linked three_blocks [(0, [1, 2, 3, 4]), (20, [5, 6, 7, 8]), (40, [9, 10, 11, 12])]"
  "get_offset three_blocks 0 = Some 0"
proof -
  have 1: "data_block three_blocks 0 [1, 2, 3, 4]" "data_block three_blocks 20 [5, 6, 7, 8]"
    "data_block three_blocks 40 [9, 10, 11, 12]"
    by code_simp+
  have "get_next three_blocks 0 = Some 20" "get_next three_blocks 20 = Some 40" "get_next three_blocks 40 = Some (-1)"
    "get_offset three_blocks 20 = Some 0" "get_offset three_blocks 40 = Some 0"
    by code_simp+
  then show "linked three_blocks [(0, [1, 2, 3, 4]), (20, [5, 6, 7, 8]), (40, [9, 10, 11, 12])]" using 1 by simp
  show "get_offset three_blocks 0 = Some 0" by code_simp
qed

lemma copy_three_blocks:
  "gathered (ringbuffer_copy three_blocks 0 0 60) 12 = Some [1, 2, 3, 4, 5, 6, 7, 8, 20, 0, 0, 0]"
  by code_simp

text \<open>
  C35. The chain of a connection is a queue of bytes: \<open>ringbuffer_data\<close> reports how many of the wanted bytes
  are there after the skipped ones, and the address it returns holds exactly them; \<open>ringbuffer_yield\<close> frees
  the blocks that were read and leaves the chain for the rest; \<open>ringbuffer_link\<close> appends a block.  But
  \<open>ringbuffer_copy\<close> does not gather the bytes of three blocks: a header is copied with them.
\<close>

theorem ring_stream:
  assumes "linked rb ((b, d) # cs)" "get_offset rb b = Some (int off)" "off \<le> length d"
    "sorted_wrt apart ((b, d) # cs)" "int (length (rb_mem rb)) < 2147483648"
  shows "(\<forall>sz skip. 0 < sz \<longrightarrow> skip \<le> length (stream off ((b, d) # cs)) \<longrightarrow>
      (\<exists>p. ringbuffer_data rb b (int sz) (int skip) =
          Some (int (min sz (length (stream off ((b, d) # cs)) - skip)), p) \<and>
        (\<forall>a. p = Some a \<longrightarrow> skip + sz \<le> length (stream off ((b, d) # cs)) \<and>
           region (rb_mem rb) (nat a) sz = take sz (drop skip (stream off ((b, d) # cs)))))) \<and>
    (\<forall>skip. yield_result rb ((b, d) # cs) (stream off ((b, d) # cs)) skip (ringbuffer_yield rb b (int skip))) \<and>
    (\<forall>n e i m. data_block rb n e \<longrightarrow> get_offset rb n = Some 0 \<longrightarrow> get_next rb n = Some m \<longrightarrow> m < 0 \<longrightarrow>
       get_id rb (fst (last ((b, d) # cs))) = Some i \<longrightarrow> sorted_wrt apart ((b, d) # cs @ [(n, e)]) \<longrightarrow>
       (\<exists>rb'. ringbuffer_link rb b n = Some rb' \<and> linked rb' ((b, d) # cs @ [(n, e)]) \<and> get_id rb' n = Some i \<and>
          get_offset rb' b = Some (int off) \<and> stream off ((b, d) # cs @ [(n, e)]) = stream off ((b, d) # cs) @ e)) \<and>
    linked three_blocks [(0, [1, 2, 3, 4]), (20, [5, 6, 7, 8]), (40, [9, 10, 11, 12])] \<and>
    gathered (ringbuffer_copy three_blocks 0 0 60) 12 = Some [1, 2, 3, 4, 5, 6, 7, 8, 20, 0, 0, 0]"
proof -
  have link: "\<exists>rb'. ringbuffer_link rb b n = Some rb' \<and> linked rb' ((b, d) # cs @ [(n, e)]) \<and> get_id rb' n = Some i \<and>
      get_offset rb' b = Some (int off) \<and> stream off ((b, d) # cs @ [(n, e)]) = stream off ((b, d) # cs) @ e"
    if N: "data_block rb n e" "get_offset rb n = Some 0" "get_next rb n = Some m" "m < 0"
      and i: "get_id rb (fst (last ((b, d) # cs))) = Some i" and ap: "sorted_wrt apart ((b, d) # cs @ [(n, e)])" for n e i m
  proof -
    obtain xs l f where x: "(b, d) # cs = xs @ [(l, f)]" by (metis list.distinct(1) rev_exhaust surj_pair)
    have h: "fst (hd (xs @ [(l, f)])) = b" using x by (metis fst_conv list.sel(1))
    have "linked rb (xs @ [(l, f)])" using assms(1) x by simp
    moreover have "sorted_wrt apart (xs @ [(l, f)] @ [(n, e)])" using ap x by (metis append_Cons append_assoc)
    moreover have "get_id rb l = Some i" using i x by (metis fst_conv last_snoc)
    moreover have "get_offset rb (fst (hd (xs @ [(l, f)]))) = Some (int off)" using assms(2) h by simp
    ultimately obtain rb' where r: "ringbuffer_link rb (fst (hd (xs @ [(l, f)]))) n = Some rb'"
        "linked rb' (xs @ [(l, f)] @ [(n, e)])" "get_id rb' n = Some i"
        "get_offset rb' (fst (hd (xs @ [(l, f)]))) = Some (int off)"
      using link_value N assms(5) by blast
    have eq: "xs @ [(l, f)] @ [(n, e)] = (b, d) # cs @ [(n, e)]" using x by (metis append_Cons append_assoc)
    have "stream off ((b, d) # cs @ [(n, e)]) = stream off ((b, d) # cs) @ e"
      using assms(3) by (simp add: stream_def)
    then show ?thesis using r unfolding h eq by blast
  qed
  show ?thesis
    by (intro conjI allI impI data_value[OF assms(1-3)] yield_value[OF assms] link three_linked copy_three_blocks)
qed

theorem ring_stream_witness:
  "ringbuffer_yield three_blocks 0 5 \<noteq> None \<and>
   (\<exists>p. ringbuffer_data three_blocks 0 4 6 = Some (4, p))"
proof -
  have a: "sorted_wrt apart [(0, [1, 2, 3, 4]), (20, [5, 6, 7, 8]), (40, [9, 10, 11, 12])]" by (simp add: apart_def)
  have s: "int (length (rb_mem three_blocks)) < 2147483648" by code_simp
  have z: "get_offset three_blocks 0 = Some (int 0)" using three_linked(2) by simp
  note t = ring_stream[OF three_linked(1) z le0 a s]
  have "yield_result three_blocks [(0, [1, 2, 3, 4]), (20, [5, 6, 7, 8]), (40, [9, 10, 11, 12])]
      (stream 0 [(0, [1, 2, 3, 4]), (20, [5, 6, 7, 8]), (40, [9, 10, 11, 12])]) 5 (ringbuffer_yield three_blocks 0 (int 5))"
    using t[THEN conjunct2, THEN conjunct1] by blast
  moreover have "\<exists>p. ringbuffer_data three_blocks 0 (int 4) (int 6) = Some (int (min 4 (12 - 6)), p)"
    using t[THEN conjunct1, rule_format, of 4 6] by (auto simp: stream_def)
  ultimately show ?thesis by (auto simp: yield_result_def split: if_splits)
qed

end
