(* ===== verification/Mread_Server.thy ===== *)
theory Mread_Server
  imports Ring_Chain Fd_Map
begin

text \<open>
  The connections of the file server, \<open>ctest/test_other1/servers/server.c\<close>, on top of the block buffer and
  the socket table: a pool of connection slots with a free list, the selection of the next connection, the
  receive with the collection of old blocks, and the release of what was read.

  What the kernel answers is an argument: the sockets that \<open>epoll_wait\<close> reports, the results of \<open>accept\<close> with
  the outcome of \<open>epoll_ctl\<close>, and the result of \<open>recv\<close>.  \<open>None\<close> is a call that does not return normally, as
  in \<open>Mread_Ring\<close>.  A pointer into the array of connections is an index.
\<close>

datatype status = SOCKET_INVALID | SOCKET_CLOSED | SOCKET_SUSPEND | SOCKET_READ | SOCKET_POLLIN

record SOCKET =
  sk_fd :: int
  sk_node :: "int option"
  sk_temp :: "int option"
  sk_status :: status
  pthread_flag :: int
  recev_filesize :: int
  send_ready_filesize :: int
  filesize_total :: int

record MREAD_POLL =
  listen_fd :: int
  max_connection :: nat
  closed_count :: int
  active :: int
  skip :: int
  pthread_print :: int
  sockets :: "SOCKET list"
  free_socket :: "nat option"
  socket_hash :: HASH_MAP
  queue_len :: nat
  queue_head :: nat
  ev :: "int list"
  rb :: RINGBUFFER

abbreviation READBLOCKSIZE :: int where "READBLOCKSIZE \<equiv> 60"

text \<open>The free slots are linked through \<open>fd\<close>.\<close>

definition create_sockets :: "nat \<Rightarrow> SOCKET list" where
  "create_sockets limit = map (\<lambda>i. \<lparr>sk_fd = (if i = limit - 1 then -1 else int i + 1), sk_node = None, sk_temp = None,
     sk_status = SOCKET_INVALID, pthread_flag = 1, recev_filesize = 0, send_ready_filesize = 0, filesize_total = 0\<rparr>)
     [0..<limit]"

definition create_rb :: "int \<Rightarrow> byte list \<Rightarrow> RINGBUFFER option" where
  "create_rb sz junk = (let sz = (sz + 3) AND NOT 3;
     sz = (if sz < READBLOCKSIZE * 2 then READBLOCKSIZE * 2 else sz) in ringbuffer_new sz (take (nat sz) junk))"

text \<open>\<open>fd\<close> is the listening socket; \<open>junk\<close> what \<open>malloc\<close> returns for the buffer.\<close>

definition mread_create :: "int \<Rightarrow> nat \<Rightarrow> int \<Rightarrow> byte list \<Rightarrow> MREAD_POLL option" where
  "mread_create fd limit buffer_size junk = do {
     m \<leftarrow> map_new (int limit);
     b \<leftarrow> create_rb (if buffer_size = 0 then 1024 else buffer_size) junk;
     check (0 < limit);
     Some \<lparr>listen_fd = fd, max_connection = limit, closed_count = 0, active = -1, skip = 0, pthread_print = 0,
       sockets = create_sockets limit, free_socket = Some 0, socket_hash = m, queue_len = 0, queue_head = 0,
       ev = [], rb = b\<rparr> }"

definition upd_socket :: "nat \<Rightarrow> (SOCKET \<Rightarrow> SOCKET) \<Rightarrow> MREAD_POLL \<Rightarrow> MREAD_POLL" where
  "upd_socket k f s = s\<lparr>sockets := (sockets s)[k := f (sockets s ! k)]\<rparr>"

definition alloc_socket :: "MREAD_POLL \<Rightarrow> (MREAD_POLL \<times> nat option) option" where
  "alloc_socket s = (case free_socket s of
       None \<Rightarrow> Some (s, None)
     | Some k \<Rightarrow> do {
         check (k < length (sockets s));
         let next_free = sk_fd (sockets s ! k);
         Some (s\<lparr>free_socket := (if next_free < 0 then None else Some (nat next_free))\<rparr>, Some k) })"

definition add_client :: "int \<Rightarrow> bool \<Rightarrow> MREAD_POLL \<Rightarrow> MREAD_POLL option" where
  "add_client fd ctl_ok s = do {
     (s, k) \<leftarrow> alloc_socket s;
     case k of
       None \<Rightarrow> Some s
     | Some k \<Rightarrow>
         if \<not> ctl_ok then Some s
         else do {
           let s = upd_socket k (\<lambda>x. x\<lparr>sk_fd := fd, sk_node := None, sk_status := SOCKET_SUSPEND\<rparr>) s;
           r \<leftarrow> map_insert fd (int k) (socket_hash s);
           case r of Aborted \<Rightarrow> None | Fine m \<Rightarrow> Some (s\<lparr>socket_hash := m\<rparr>) } }"

lemma add_client_queue:
  assumes "add_client fd ctl_ok s = Some s'"
  shows "queue_len s' = queue_len s" "queue_head s' = queue_head s"
  using assms by (auto simp: add_client_def alloc_socket_def upd_socket_def check_def Let_def
      split: option.splits if_splits assertion.splits bind_splits)

definition report_closed :: "MREAD_POLL \<Rightarrow> (MREAD_POLL \<times> int) option" where
  "report_closed s = (case find (\<lambda>i. sk_status (sockets s ! i) = SOCKET_CLOSED) [0..<max_connection s] of
       None \<Rightarrow> None
     | Some i \<Rightarrow> Some (s\<lparr>active := int i\<rparr>, int i))"

text \<open>The loop over the reported sockets; \<open>accs\<close> are the results of the successive calls of \<open>accept\<close>.\<close>

function poll_loop :: "(int \<times> bool) list \<Rightarrow> MREAD_POLL \<Rightarrow> (MREAD_POLL \<times> int) option" where
  "poll_loop accs s =
     (if queue_len s \<le> queue_head s then Some (s\<lparr>active := -1\<rparr>, -1)
      else (let fd = ev s ! queue_head s; s1 = s\<lparr>queue_head := queue_head s + 1\<rparr> in
        if fd = -1 then Some (s1\<lparr>active := -1\<rparr>, -1)
        else if fd = listen_fd s1
        then (case accs of
            [] \<Rightarrow> poll_loop [] s1
          | (client_fd, ctl_ok) # accs' \<Rightarrow>
              if 0 \<le> client_fd
              then (case add_client client_fd ctl_ok s1 of
                  None \<Rightarrow> None
                | Some s2 \<Rightarrow> poll_loop accs' (s2\<lparr>pthread_print := pthread_print s2 + 1\<rparr>))
              else poll_loop accs' s1)
        else (case map_search (socket_hash s1) fd of
            None \<Rightarrow> None
          | Some index \<Rightarrow>
              if 0 \<le> index
              then Some (upd_socket (nat index) (\<lambda>x. x\<lparr>sk_status := SOCKET_POLLIN\<rparr>) (s1\<lparr>active := index\<rparr>), index)
              else poll_loop accs s1)))"
  by pat_completeness auto
termination
  by (relation "measure (\<lambda>(accs, s). queue_len s - queue_head s)") (auto simp: add_client_queue)

text \<open>\<open>wait\<close> is what \<open>epoll_wait\<close> reports, \<open>None\<close> for an error.\<close>

definition mread_poll :: "int list option \<Rightarrow> (int \<times> bool) list \<Rightarrow> MREAD_POLL \<Rightarrow> (MREAD_POLL \<times> int) option" where
  "mread_poll wait accs s = (let s = s\<lparr>skip := 0\<rparr> in
     if 0 \<le> active s \<and> sk_status (sockets s ! nat (active s)) = SOCKET_READ then Some (s, active s)
     else if 0 < closed_count s then report_closed s
     else if queue_len s \<le> queue_head s
     then (case wait of
         None \<Rightarrow> Some (s\<lparr>queue_head := 0, queue_len := 0, active := -1\<rparr>, -1)
       | Some fds \<Rightarrow> poll_loop accs (s\<lparr>queue_head := 0, queue_len := length fds, ev := fds\<rparr>))
     else poll_loop accs s)"

subsection \<open>Closing\<close>

definition close_client :: "int \<Rightarrow> MREAD_POLL \<Rightarrow> MREAD_POLL option" where
  "close_client k s = do {
     check (0 \<le> k \<and> k < int (length (sockets s)));
     let s = upd_socket (nat k) (\<lambda>x. x\<lparr>sk_status := SOCKET_CLOSED, sk_node := None, sk_temp := None,
       recev_filesize := 0, filesize_total := 0, send_ready_filesize := 0, pthread_flag := 0\<rparr>) s;
     Some (s\<lparr>closed_count := closed_count s + 1, pthread_print := pthread_print s - 1\<rparr>) }"

definition close_active :: "MREAD_POLL \<Rightarrow> MREAD_POLL option" where
  "close_active s = do {
     let sock = sockets s ! nat (active s);
     b \<leftarrow> ringbuffer_free (rb s) (sk_temp sock);
     b \<leftarrow> ringbuffer_free b (sk_node sock);
     close_client (active s) (s\<lparr>rb := b\<rparr>) }"

subsection \<open>Receiving\<close>

datatype recv = Received "byte list" | Peer_closed | Would_block | Recv_error

definition link_node :: "int \<Rightarrow> MREAD_POLL \<Rightarrow> MREAD_POLL option" where
  "link_node blk s = (let k = nat (active s) in case sk_node (sockets s ! k) of
       Some n \<Rightarrow> do { b \<leftarrow> ringbuffer_link (rb s) n blk; Some (s\<lparr>rb := b\<rparr>) }
     | None \<Rightarrow> do {
         b \<leftarrow> put_at (rb s) (blk + 8) (active s);
         Some (upd_socket k (\<lambda>x. x\<lparr>sk_node := Some blk\<rparr>) (s\<lparr>rb := b\<rparr>)) })"

definition ringbuffer_read :: "MREAD_POLL \<Rightarrow> int \<Rightarrow> (int \<times> int option) option" where
  "ringbuffer_read s sz = (case sk_node (sockets s ! nat (active s)) of
       None \<Rightarrow> Some (0, None)
     | Some n \<Rightarrow> ringbuffer_data (rb s) n sz (skip s))"

text \<open>Allocate, and while there is no room collect the oldest connection and close it.\<close>

partial_function (option) alloc_or_close :: "int \<Rightarrow> MREAD_POLL \<Rightarrow> (MREAD_POLL \<times> int option) option" where
  "alloc_or_close rd s = do {
     (b, blk) \<leftarrow> ringbuffer_alloc (rb s) rd;
     let s = s\<lparr>rb := b\<rparr>;
     case blk of
       Some x \<Rightarrow> Some (s, Some x)
     | None \<Rightarrow> do {
         (b, cid) \<leftarrow> ringbuffer_collect (rb s);
         s \<leftarrow> close_client cid (s\<lparr>rb := b\<rparr>);
         if cid = active s then Some (s, None) else alloc_or_close rd s } }"

partial_function (option) alloc_temp :: "int \<Rightarrow> MREAD_POLL \<Rightarrow> (MREAD_POLL \<times> int option) option" where
  "alloc_temp sz s = do {
     (b, blk) \<leftarrow> ringbuffer_alloc (rb s) sz;
     let s = s\<lparr>rb := b\<rparr>;
     case blk of
       Some x \<Rightarrow> Some (s, Some x)
     | None \<Rightarrow> do {
         (b, cid) \<leftarrow> ringbuffer_collect (rb s);
         let s = s\<lparr>rb := b\<rparr>;
         if cid = active s then Some (s, None) else alloc_temp sz s } }"

text \<open>The data lies in several blocks: gather it in a temporary one.\<close>

definition pull_gathered :: "int \<Rightarrow> MREAD_POLL \<Rightarrow> (MREAD_POLL \<times> int option) option" where
  "pull_gathered sz s = do {
     (s, t) \<leftarrow> alloc_temp sz s;
     case t of
       None \<Rightarrow> Some (s, None)
     | Some temp \<Rightarrow> do {
         let k = nat (active s);
         b \<leftarrow> put_at (rb s) (temp + 8) (active s);
         b \<leftarrow> (case sk_temp (sockets s ! k) of None \<Rightarrow> Some b | Some old \<Rightarrow> ringbuffer_link b temp old);
         let s = upd_socket k (\<lambda>x. x\<lparr>sk_temp := Some temp\<rparr>) (s\<lparr>rb := b\<rparr>);
         n \<leftarrow> sk_node (sockets s ! k);
         (b, ret) \<leftarrow> ringbuffer_copy (rb s) n (skip s) temp;
         Some (s\<lparr>rb := b, skip := skip s + sz\<rparr>, Some ret) } }"

text \<open>What follows a \<open>recv\<close> into the block \<open>blk\<close> of \<open>rd\<close> bytes; \<open>sz'\<close> bytes are missing.\<close>

definition received :: "int \<Rightarrow> int \<Rightarrow> int \<Rightarrow> recv \<Rightarrow> int \<Rightarrow> MREAD_POLL \<Rightarrow> (MREAD_POLL \<times> int option) option" where
  "received sz sz' rd r blk s = (case r of
       Received bs \<Rightarrow> do {
         check (0 < length bs \<and> int (length bs) \<le> rd \<and> 0 \<le> blk \<and> blk + HDR + rd \<le> int (length (rb_mem (rb s))));
         let b = (rb s)\<lparr>rb_mem := blit (rb_mem (rb s)) (nat (blk + HDR)) bs\<rparr>;
         b \<leftarrow> ringbuffer_resize b blk (int (length bs));
         let s = s\<lparr>rb := b\<rparr>;
         if int (length bs) < sz'
         then do {
           s \<leftarrow> link_node blk s;
           Some (upd_socket (nat (active s)) (\<lambda>x. x\<lparr>sk_status := SOCKET_SUSPEND\<rparr>) s, None) }
         else do {
           let s = upd_socket (nat (active s)) (\<lambda>x. x\<lparr>sk_status := SOCKET_READ\<rparr>) s;
           s \<leftarrow> link_node blk s;
           n \<leftarrow> sk_node (sockets s ! nat (active s));
           (real_rd, ret) \<leftarrow> ringbuffer_data (rb s) n sz (skip s);
           case ret of
             Some a \<Rightarrow> Some (s\<lparr>skip := skip s + sz\<rparr>, Some a)
           | None \<Rightarrow> do { check (real_rd = sz); pull_gathered sz s } } }
     | Peer_closed \<Rightarrow> do { s \<leftarrow> close_active s; Some (s, None) }
     | Would_block \<Rightarrow> Some (s, None)
     | Recv_error \<Rightarrow> do { s \<leftarrow> close_active s; Some (s, None) })"

definition mread_pull :: "int \<Rightarrow> recv \<Rightarrow> MREAD_POLL \<Rightarrow> (MREAD_POLL \<times> int option) option" where
  "mread_pull sz r s =
     (if active s = -1 then Some (s, None)
      else do {
        (rd_size, buffer) \<leftarrow> ringbuffer_read s sz;
        let k = nat (active s);
        case buffer of
          Some a \<Rightarrow> Some (s\<lparr>skip := skip s + sz\<rparr>, Some a)
        | None \<Rightarrow>
            if sk_status (sockets s ! k) = SOCKET_CLOSED
            then do {
              b \<leftarrow> ringbuffer_free (rb s) (sk_node (sockets s ! k));
              Some (upd_socket k (\<lambda>x. x\<lparr>sk_node := None\<rparr>) (s\<lparr>rb := b\<rparr>), None) }
            else if sk_status (sockets s ! k) = SOCKET_READ
            then Some (upd_socket k (\<lambda>x. x\<lparr>sk_status := SOCKET_SUSPEND\<rparr>) s, None)
            else do {
              check (sk_status (sockets s ! k) = SOCKET_POLLIN);
              let sz' = sz - rd_size;
              let rd = (if READBLOCKSIZE < sz' then sz' else READBLOCKSIZE);
              (s, blk) \<leftarrow> alloc_or_close rd s;
              case blk of None \<Rightarrow> Some (s, None) | Some x \<Rightarrow> received sz sz' rd r x s } })"

subsection \<open>Releasing\<close>

text \<open>The free list is undefined after a release into an empty one: the null pointer is subtracted.\<close>

definition mread_yield :: "MREAD_POLL \<Rightarrow> MREAD_POLL option" where
  "mread_yield s =
     (if active s = -1 then Some s
      else do {
        let k = nat (active s);
        b \<leftarrow> ringbuffer_free (rb s) (sk_temp (sockets s ! k));
        let s = upd_socket k (\<lambda>x. x\<lparr>sk_temp := None\<rparr>) (s\<lparr>rb := b\<rparr>);
        let sock = sockets s ! k;
        if sk_status sock = SOCKET_CLOSED \<and> sk_node sock = None
        then do {
          m \<leftarrow> map_erase (sk_fd sock) (socket_hash s);
          f \<leftarrow> free_socket s;
          Some ((upd_socket k (\<lambda>x. x\<lparr>sk_status := SOCKET_INVALID, sk_fd := int f\<rparr>) s)
            \<lparr>closed_count := closed_count s - 1, socket_hash := m, free_socket := Some k, skip := 0, active := -1\<rparr>) }
        else do {
          s \<leftarrow> (case sk_node sock of
              None \<Rightarrow> Some s
            | Some n \<Rightarrow> do {
                (b, n') \<leftarrow> ringbuffer_yield (rb s) n (skip s);
                Some (upd_socket k (\<lambda>x. x\<lparr>sk_node := n'\<rparr>) (s\<lparr>rb := b\<rparr>)) });
          let s = s\<lparr>skip := 0\<rparr>;
          Some (if sk_node (sockets s ! k) = None then s\<lparr>active := -1\<rparr> else s) } })"

definition mread_closed :: "MREAD_POLL \<Rightarrow> (MREAD_POLL \<times> int) option" where
  "mread_closed s =
     (if active s = -1 then Some (s, 0)
      else (let sock = sockets s ! nat (active s) in
        if sk_status sock = SOCKET_CLOSED \<and> sk_node sock = None
        then do { s \<leftarrow> mread_yield s; Some (s, 1) } else Some (s, 0)))"

definition mread_socket :: "MREAD_POLL \<Rightarrow> nat \<Rightarrow> int" where
  "mread_socket s index = sk_fd (sockets s ! index)"

subsection \<open>A receive into a fresh block\<close>

lemma receive_bytes:
  assumes ok: "rb_ok b (p @ [(l, i)]) q" and l: "HDR \<le> l" and bs: "HDR + int (length bs) \<le> l"
  defines "b' \<equiv> b\<lparr>rb_mem := blit (rb_mem b) (nat (extent p + HDR)) bs\<rparr>"
  shows "rb_ok b' (p @ [(l, i)]) q" "get_offset b' (extent p) = get_offset b (extent p)"
    "get_next b' (extent p) = get_next b (extent p)" "region (rb_mem b') (nat (extent p + HDR)) (length bs) = bs"
    "0 \<le> extent p" "extent p + l \<le> int (length (rb_mem b))" "length (rb_mem b') = length (rb_mem b)"
proof -
  let ?h = "extent p" and ?m = "rb_mem b"
  have t: "tiled ?m 0 p" "tiled ?m ?h [(l, i)]" "tiled ?m (?h + ALIGN l) q"
    and ex: "?h + (ALIGN l + extent q) = int (length ?m)" and ne: "q \<noteq> []"
    using ok by (simp_all add: rb_ok_def tiled_append)
  have h0: "0 \<le> ?h" "0 \<le> extent q" using tiled_extent t by blast+
  have a: "l \<le> ALIGN l" by (rule ALIGN_bounds)
  show "0 \<le> ?h" "?h + l \<le> int (length ?m)" using h0 a ex by linarith+
  have fit: "nat (?h + HDR) + length bs \<le> length ?m" using h0 a ex bs l by linarith
  have len: "length (rb_mem b') = length ?m" using fit by (simp add: b'_def)
  then show "length (rb_mem b') = length ?m" .
  have out: "rb_mem b' ! k = ?m ! k" if "k < length ?m" "int k < ?h + HDR \<or> ?h + l \<le> int k" for k
    using that fit bs h0 by (auto simp: b'_def nth_blit)
  have f: "ld (rb_mem b') x = ld ?m x" if "x + 4 \<le> ?h + HDR" for x
    by (rule ld_cong[OF len]) (use out that in auto)
  show "get_offset b' ?h = get_offset b ?h" "get_next b' ?h = get_next b ?h"
    by (simp_all add: get_offset_def get_next_def f)
  show "region (rb_mem b') (nat (?h + HDR)) (length bs) = bs" using region_blit[OF fit] by (simp add: b'_def)
  have "tiled (rb_mem b') 0 p" by (rule tiled_frame[OF t(1) len]) (use out in auto)
  moreover have "tiled (rb_mem b') ?h [(l, i)]" using t(2) f[of ?h] f[of "?h + 8"] len by simp
  moreover have "tiled (rb_mem b') (?h + ALIGN l) q" by (rule tiled_frame[OF t(3) len]) (use out a in auto)
  ultimately have "tiled (rb_mem b') 0 ((p @ [(l, i)]) @ q)" by (simp add: tiled_append del: tiled.simps) auto
  then show "rb_ok b' (p @ [(l, i)]) q" using ok len by (simp add: rb_ok_def b'_def)
qed

text \<open>A connection that waits for its first bytes.\<close>

definition waiting :: "MREAD_POLL \<Rightarrow> nat \<Rightarrow> bool" where
  "waiting s k \<longleftrightarrow> active s = int k \<and> k < length (sockets s) \<and> sk_status (sockets s ! k) = SOCKET_POLLIN \<and>
     sk_node (sockets s ! k) = None \<and> skip s = 0"

lemma pull_waiting:
  assumes w: "waiting s k" and sz: "0 < sz" "sz \<le> 60" and a: "ringbuffer_alloc (rb s) 60 = Some (b, Some x)"
  shows "mread_pull sz r s = received sz sz 60 r x (s\<lparr>rb := b\<rparr>)"
proof -
  have "alloc_or_close 60 s = Some (s\<lparr>rb := b\<rparr>, Some x)" using a by (subst alloc_or_close.simps) simp
  then show ?thesis using w sz by (simp add: mread_pull_def waiting_def ringbuffer_read_def check_def)
qed

lemma align_60: "0 < n \<Longrightarrow> n \<le> 60 \<Longrightarrow> ALIGN (HDR + n) = ALIGN (HDR + 60) \<longleftrightarrow> 57 \<le> n" for n :: int
  unfolding ALIGN_eq by presburger

lemma received_block:
  assumes ok: "rb_ok b (p @ [(HDR + 60, -1)]) q" and x: "x = extent p" and n: "0 < length bs" "length bs < 57"
    and f: "get_offset b x = Some 0" "get_next b x = Some (-1)"
  obtains b2 where "ringbuffer_resize (b\<lparr>rb_mem := blit (rb_mem b) (nat (x + HDR)) bs\<rparr>) x (int (length bs)) = Some b2"
    "data_block b2 x bs" "get_offset b2 x = Some 0" "get_next b2 x = Some (-1)"
proof -
  let ?n = "int (length bs)"
  have h: "HDR \<le> HDR + 60" "HDR + ?n \<le> HDR + 60" using n by simp_all
  let ?b1 = "b\<lparr>rb_mem := blit (rb_mem b) (nat (extent p + HDR)) bs\<rparr>"
  note w = receive_bytes[OF ok h]
  have n0: "0 < ?n" using n by simp
  have al: "ALIGN (HDR + ?n) \<noteq> ALIGN (HDR + 60)" using align_60[of ?n] n by simp
  have "\<exists>b2. ringbuffer_resize ?b1 (extent p) ?n = Some b2 \<and>
      rb_ok b2 (p @ [(HDR + ?n, -1)]) ((ALIGN (HDR + 60) - ALIGN (HDR + ?n), -1) # q) \<and> rb_size b2 = rb_size ?b1 \<and>
      get_offset b2 (extent p) = get_offset ?b1 (extent p) \<and> get_next b2 (extent p) = get_next ?b1 (extent p) \<and>
      (\<forall>k < length (rb_mem ?b1). int k < extent p \<or> extent p + HDR \<le> int k \<and> int k < extent p + HDR + ?n \<or>
          extent p + ALIGN (HDR + 60) \<le> int k \<longrightarrow> rb_mem b2 ! k = rb_mem ?b1 ! k)"
    using resize_value[OF w(1) h(1) n0 h(2)] unfolding if_not_P[OF al] .
  then obtain b2 where r: "ringbuffer_resize ?b1 (extent p) ?n = Some b2"
      "rb_ok b2 (p @ [(HDR + ?n, -1)]) ((ALIGN (HDR + 60) - ALIGN (HDR + ?n), -1) # q)" "rb_size b2 = rb_size ?b1"
      "get_offset b2 (extent p) = get_offset ?b1 (extent p)" "get_next b2 (extent p) = get_next ?b1 (extent p)"
      "\<forall>k < length (rb_mem ?b1). extent p + HDR \<le> int k \<and> int k < extent p + HDR + ?n \<longrightarrow>
          rb_mem b2 ! k = rb_mem ?b1 ! k"
    by blast
  have len: "length (rb_mem b2) = length (rb_mem ?b1)" using r(2,3) w(1) by (simp add: rb_ok_def)
  have "region (rb_mem b2) (nat (extent p + HDR)) (length bs) = region (rb_mem ?b1) (nat (extent p + HDR)) (length bs)"
    by (rule region_cong[OF len]) (use r(6) w(5) in \<open>auto simp: nat_le_iff\<close>)
  moreover have "get_length b2 (extent p) = Some (HDR + ?n)"
    using r(2) by (simp add: rb_ok_def tiled_append get_length_def)
  moreover have "extent p + HDR + ?n \<le> int (length (rb_mem b2))" using w(6,7) len n by simp
  ultimately have "data_block b2 x bs" using w(4,5) x by (simp add: data_block_def)
  then show thesis using that r(1,4,5) w(2,3) f x by simp
qed

lemma received_value:
  assumes w: "waiting s k" and k: "k < 2147483648" and ok: "rb_ok (rb s) (p @ [(HDR + 60, -1)]) q" and x: "x = extent p"
    and f: "get_offset (rb s) x = Some 0" "get_next (rb s) x = Some (-1)"
    and n: "0 < length bs" "length bs < 57" and sz: "0 < sz" "sz \<le> 60"
  shows "\<exists>s'. received sz sz 60 (Received bs) x s = Some (s', if int (length bs) < sz then None else Some (x + HDR)) \<and>
    linked (rb s') [(x, bs)] \<and> get_offset (rb s') x = Some 0 \<and> get_id (rb s') x = Some (int k) \<and>
    sk_node (sockets s' ! k) = Some x \<and>
    sk_status (sockets s' ! k) = (if int (length bs) < sz then SOCKET_SUSPEND else SOCKET_READ) \<and>
    skip s' = (if int (length bs) < sz then 0 else sz)"
proof -
  obtain b2 where r: "ringbuffer_resize ((rb s)\<lparr>rb_mem := blit (rb_mem (rb s)) (nat (x + HDR)) bs\<rparr>) x (int (length bs)) = Some b2"
      "data_block b2 x bs" "get_offset b2 x = Some 0" "get_next b2 x = Some (-1)"
    by (rule received_block[OF ok x n f])
  have h: "HDR \<le> HDR + 60" "HDR + int (length bs) \<le> HDR + 60" using n by simp_all
  note b = receive_bytes(5,6)[OF ok h]
  have c: "0 < length bs \<and> int (length bs) \<le> 60 \<and> 0 \<le> x \<and> x + HDR + 60 \<le> int (length (rb_mem (rb s)))"
    using n b x by simp
  let ?b3 = "b2\<lparr>rb_mem := wr (rb_mem b2) (x + 8) (int k)\<rparr>"
  note q = put_field[OF r(2) _ refl, where f = 8 and v = "int k", simplified]
  have F: "get_offset ?b3 x = Some 0" "get_next ?b3 x = Some (-1)" "get_id ?b3 x = Some (int k)"
    using q(4) q(5)[of 4] q(5)[of 12] r(3,4) k by (simp_all add: get_offset_def get_next_def get_id_def s32_nat)
  have L: "linked ?b3 [(x, bs)]" using q(3) F(2) by simp
  have W: "active s = int k" "k < length (sockets s)" "sk_node (sockets s ! k) = None" "skip s = 0"
    using w by (simp_all add: waiting_def)
  show ?thesis
  proof (cases "int (length bs) < sz")
    case True
    then show ?thesis using c r(1) q(1) W L F
      by (simp add: received_def check_def Let_def link_node_def upd_socket_def del: linked.simps)
  next
    case False
    have "ringbuffer_data ?b3 x sz 0 = Some (sz, Some (x + HDR))"
    proof -
      have "get_length ?b3 x = Some (HDR + int (length bs))" using q(3) by (simp add: data_block_def)
      then show ?thesis using False sz F(1) n(1) by (simp add: ringbuffer_data_def, subst data_loop.simps) simp
    qed
    then show ?thesis using False c r(1) q(1) W L F
      by (simp add: received_def check_def Let_def link_node_def upd_socket_def del: linked.simps)
  qed
qed

text \<open>
  C32. A connection without data asks for \<open>sz\<close> bytes and the buffer has room: up to 56 bytes that arrive are
  stored as its chain and marked with its number; if they are enough the address returned holds the first
  \<open>sz\<close> of them, if not the connection is suspended with what came.  From 57 bytes on the call does not
  return: the assertion in \<open>ringbuffer_resize\<close> stops the server.
\<close>

theorem mread_receive:
  assumes w: "waiting s k" and k: "k < 2147483648" and ok: "rb_ok (rb s) pre post"
    and a: "ringbuffer_alloc (rb s) 60 = Some (b, Some x)" and sz: "0 < sz" "sz \<le> 60" and n: "0 < length bs" "length bs \<le> 60"
  shows "(57 \<le> length bs \<longrightarrow> mread_pull sz (Received bs) s = None) \<and>
    (length bs < 57 \<longrightarrow> (\<exists>s'. mread_pull sz (Received bs) s =
        Some (s', if int (length bs) < sz then None else Some (x + HDR)) \<and>
      linked (rb s') [(x, bs)] \<and> get_offset (rb s') x = Some 0 \<and> get_id (rb s') x = Some (int k) \<and>
      sk_node (sockets s' ! k) = Some x \<and>
      sk_status (sockets s' ! k) = (if int (length bs) < sz then SOCKET_SUSPEND else SOCKET_READ) \<and>
      skip s' = (if int (length bs) < sz then 0 else sz)))"
proof -
  have "alloc_result (rb s) (pre @ post) 60 (ringbuffer_alloc (rb s) 60)"
    unfolding ringbuffer_alloc_def by (rule alloc_rounds_result[OF ok refl refl refl]) simp
  then obtain p q where b: "x = extent p" "rb_ok b (p @ [(HDR + 60, -1)]) q" "get_offset b x = Some 0" "get_next b x = Some (-1)"
    unfolding a alloc_result_def by (simp only: option.case prod.case) blast
  have w': "waiting (s\<lparr>rb := b\<rparr>) k" using w by (simp add: waiting_def)
  have e: "mread_pull sz (Received bs) s = received sz sz 60 (Received bs) x (s\<lparr>rb := b\<rparr>)"
    by (rule pull_waiting[OF w sz a])
  have 1: "mread_pull sz (Received bs) s = None" if full: "57 \<le> length bs"
  proof -
    have h: "HDR \<le> HDR + 60" "HDR + int (length bs) \<le> HDR + 60" "0 < int (length bs)" using n by simp_all
    note r = receive_bytes[OF b(2) h(1,2)]
    have "ALIGN (HDR + int (length bs)) = ALIGN (HDR + 60)" using align_60[of "int (length bs)"] full n by simp
    then have "ringbuffer_resize (b\<lparr>rb_mem := blit (rb_mem b) (nat (x + HDR)) bs\<rparr>) x (int (length bs)) = None"
      using resize_value[OF r(1) h(1,3,2)] b(1) by simp
    then show ?thesis unfolding e by (simp add: received_def check_def)
  qed
  show ?thesis
    using 1 received_value[OF w' k _ b(1) _ _ n(1) _ sz, of q] b(2-4) unfolding e by simp
qed

text \<open>The smallest buffer, and a connection that has just been reported.\<close>

theorem mread_receive_witness:
  "\<exists>s. waiting s 0 \<and> mread_pull 4 (Received (replicate 60 0)) s = None \<and>
     (\<exists>s'. mread_pull 4 (Received [1, 2, 3, 4, 5]) s = Some (s', Some 16) \<and> linked (rb s') [(0, [1, 2, 3, 4, 5])])"
proof -
  obtain b where b: "ringbuffer_new 120 (replicate 120 0) = Some b" "rb_ok b [] [(120, -1)]"
    using rb_ok_new[of 120 "replicate 120 0"] by auto
  have s: "scan_list (ALIGN (HDR + 60)) 0 [(120, -1)] = Room 120" by (simp add: ALIGN_eq)
  have sc: "alloc_scan b (ALIGN (HDR + 60)) 0 (rb_head b) = Some (Room 120)"
    unfolding rb_ok_scan(1)[OF b(2)] s ..
  have ok: "rb_ok b [] ([(120, -1)] @ [])" using b(2) by simp
  have "\<exists>b'. alloc_at b 120 60 = Some (b', 0)"
    using alloc_at_blocks[OF ok _ refl, of 60] by (auto simp: ALIGN_eq)
  then obtain b' where "alloc_at b 120 60 = Some (b', 0)" ..
  then have a: "ringbuffer_alloc b 60 = Some (b', Some 0)"
    using sc by (simp add: ringbuffer_alloc_def numeral_2_eq_2)
  let ?s = "\<lparr>listen_fd = 3, max_connection = 1, closed_count = 0, active = 0, skip = 0, pthread_print = 1,
    sockets = [\<lparr>sk_fd = 5, sk_node = None, sk_temp = None, sk_status = SOCKET_POLLIN, pthread_flag = 1, recev_filesize = 0,
      send_ready_filesize = 0, filesize_total = 0\<rparr>], free_socket = None, socket_hash = \<lparr>map_size = 1, nodes = []\<rparr>,
    queue_len = 0, queue_head = 0, ev = [], rb = b\<rparr>"
  have w: "waiting ?s 0" by (simp add: waiting_def)
  have r: "rb_ok (rb ?s) [] [(120, -1)]" "ringbuffer_alloc (rb ?s) 60 = Some (b', Some 0)" using b(2) a by simp_all
  have "mread_pull 4 (Received (replicate 60 0)) ?s = None"
    using mread_receive[OF w _ r, of 4 "replicate 60 0"] by simp
  moreover have "\<exists>s'. mread_pull 4 (Received [1, 2, 3, 4, 5]) ?s = Some (s', Some 16) \<and> linked (rb s') [(0, [1, 2, 3, 4, 5])]"
    using mread_receive[OF w _ r, of 4 "[1, 2, 3, 4, 5]"] by auto
  ultimately show ?thesis using w by blast
qed

subsection \<open>The pool of connections\<close>

fun freelist :: "SOCKET list \<Rightarrow> nat list \<Rightarrow> bool" where
  "freelist ss [] = True"
| "freelist ss [k] = (sk_fd (ss ! k) < 0)"
| "freelist ss (k # j # ks) = (sk_fd (ss ! k) = int j \<and> freelist ss (j # ks))"

definition live :: "MREAD_POLL \<Rightarrow> nat \<Rightarrow> bool" where
  "live s k \<longleftrightarrow> k < length (sockets s) \<and> sk_status (sockets s ! k) \<noteq> SOCKET_INVALID"

definition pool_ok :: "MREAD_POLL \<Rightarrow> nat list \<Rightarrow> (int \<Rightarrow> int option) \<Rightarrow> bool" where
  "pool_ok s free f \<longleftrightarrow> distinct free \<and> freelist (sockets s) free \<and>
     free_socket s = (case free of [] \<Rightarrow> None | k # _ \<Rightarrow> Some k) \<and>
     (\<forall>k \<in> set free. k < length (sockets s) \<and> \<not> live s k) \<and>
     map_rep (socket_hash s) f \<and> dom f = {sk_fd (sockets s ! k) | k. live s k} \<and>
     (\<forall>k. live s k \<longrightarrow> f (sk_fd (sockets s ! k)) = Some (int k)) \<and>
     closed_count s = int (card {k. k < length (sockets s) \<and> sk_status (sockets s ! k) = SOCKET_CLOSED})"

lemma freelist_cong: "(\<And>k. k \<in> set free \<Longrightarrow> sk_fd (ss' ! k) = sk_fd (ss ! k)) \<Longrightarrow> freelist ss free \<Longrightarrow> freelist ss' free"
  by (induction ss free rule: freelist.induct) auto

lemma freelist_tail: "freelist ss (k # ks) \<Longrightarrow> freelist ss ks \<and>
    (if sk_fd (ss ! k) < 0 then None else Some (nat (sk_fd (ss ! k)))) = (case ks of [] \<Rightarrow> None | j # _ \<Rightarrow> Some j)"
  by (cases ks) auto

lemma create_nth: "k < n \<Longrightarrow> sk_fd (create_sockets n ! k) = (if k = n - 1 then -1 else int k + 1)"
  by (simp add: create_sockets_def)

lemma freelist_upto: "0 < n \<Longrightarrow> i < n \<Longrightarrow> freelist (create_sockets n) [i..<n]"
proof (induction "n - i" arbitrary: i)
  case (Suc d)
  show ?case
  proof (cases "Suc i < n")
    case True
    then have "freelist (create_sockets n) [Suc i..<n]" using Suc by simp
    moreover have "[i..<n] = i # Suc i # [Suc (Suc i)..<n]" "[Suc i..<n] = Suc i # [Suc (Suc i)..<n]"
      using True by (simp_all add: upt_conv_Cons)
    ultimately show ?thesis using True create_nth[of i n] by simp
  next
    case False
    then have i: "i = n - 1" using Suc.prems by simp
    then have "[i..<n] = [i]" using Suc.prems by (simp add: upt_rec)
    then show ?thesis using Suc.prems i create_nth[of i n] by simp
  qed
qed simp

lemma pool_ok_create:
  assumes "mread_create fd n sz junk = Some s" "int n < 2 ^ 30"
  shows "pool_ok s [0..<n] (\<lambda>_. None)"
proof -
  obtain m b where m: "map_new (int n) = Some m" and n: "0 < n" and s: "sockets s = create_sockets n" "free_socket s = Some 0"
      "socket_hash s = m" "closed_count s = 0"
    using assms(1) by (auto simp: mread_create_def check_def split: if_splits bind_splits)
  have "map_rep m (\<lambda>_. None)" using map_rep_new[of "int n"] m assms(2) by (metis of_nat_0_le_iff option.inject)
  moreover have "\<not> live s k" for k using s(1) by (auto simp: live_def create_sockets_def)
  moreover have "freelist (sockets s) [0..<n]" using freelist_upto[OF n n] s(1) by simp
  moreover have "{k. k < length (sockets s) \<and> sk_status (sockets s ! k) = SOCKET_CLOSED} = {}"
    using s(1) by (auto simp: create_sockets_def)
  ultimately show ?thesis using s n unfolding pool_ok_def by (auto simp: upt_conv_Cons create_sockets_def)
qed

text \<open>
  The steps of the pool: a connection is accepted under a socket that is not open, closed while it is open,
  and released once it is closed and its data is gone.
\<close>

datatype pool_call = Add int bool | Close nat | Reap nat

fun pool_step :: "pool_call \<Rightarrow> MREAD_POLL \<Rightarrow> MREAD_POLL option" where
  "pool_step (Add fd ctl_ok) s = add_client fd ctl_ok s"
| "pool_step (Close k) s = close_client (int k) s"
| "pool_step (Reap k) s = mread_yield (s\<lparr>active := int k\<rparr>)"

fun pool_legal :: "pool_call \<Rightarrow> MREAD_POLL \<Rightarrow> bool" where
  "pool_legal (Add fd ctl_ok) s = (0 \<le> fd \<and> (\<forall>k. live s k \<longrightarrow> sk_fd (sockets s ! k) \<noteq> fd))"
| "pool_legal (Close k) s = (live s k \<and> sk_status (sockets s ! k) \<noteq> SOCKET_CLOSED)"
| "pool_legal (Reap k) s = (k < length (sockets s) \<and> sk_status (sockets s ! k) = SOCKET_CLOSED \<and>
     sk_node (sockets s ! k) = None \<and> sk_temp (sockets s ! k) = None)"

fun pool_run :: "pool_call list \<Rightarrow> MREAD_POLL \<Rightarrow> MREAD_POLL option" where
  "pool_run [] s = Some s"
| "pool_run (c # cs) s = (if pool_legal c s then Option.bind (pool_step c s) (pool_run cs) else None)"

definition closed_set :: "SOCKET list \<Rightarrow> nat set" where
  "closed_set ss = {k. k < length ss \<and> sk_status (ss ! k) = SOCKET_CLOSED}"

lemma closed_set_finite: "finite (closed_set ss)"
  by (rule finite_subset[of _ "{..<length ss}"]) (auto simp: closed_set_def)

lemma closed_set_update:
  "k < length ss \<Longrightarrow> closed_set (ss[k := x]) =
    (if sk_status x = SOCKET_CLOSED then insert k (closed_set ss) else closed_set ss - {k})"
  by (auto simp: closed_set_def nth_list_update split: if_splits)

text \<open>The parts of the invariant, with the array changed at one slot.\<close>

lemma pool_okD:
  assumes "pool_ok s free f"
  shows "distinct free" "freelist (sockets s) free" "free_socket s = (case free of [] \<Rightarrow> None | k # _ \<Rightarrow> Some k)"
    "\<And>k. k \<in> set free \<Longrightarrow> k < length (sockets s)" "\<And>k. k \<in> set free \<Longrightarrow> \<not> live s k"
    "map_rep (socket_hash s) f" "dom f = {sk_fd (sockets s ! k) | k. live s k}"
    "\<And>k. live s k \<Longrightarrow> f (sk_fd (sockets s ! k)) = Some (int k)"
    "closed_count s = int (card (closed_set (sockets s)))"
  using assms unfolding pool_ok_def closed_set_def by blast+

lemma pool_ok_add:
  assumes ok: "pool_ok s free f" and legal: "pool_legal (Add fd ctl_ok) s" and e: "add_client fd ctl_ok s = Some s'"
  shows "case free of
      [] \<Rightarrow> s' = s
    | k # ks \<Rightarrow> if ctl_ok
        then pool_ok s' ks (f(fd \<mapsto> int k)) \<and> \<not> live s k \<and> live s' k \<and> (\<forall>j. j \<noteq> k \<longrightarrow> sockets s' ! j = sockets s ! j)
        else pool_ok s' ks f \<and> sockets s' = sockets s"
proof (cases free)
  case Nil
  then have "free_socket s = None" using pool_okD(3)[OF ok] by simp
  then show ?thesis using e Nil by (simp add: add_client_def alloc_socket_def)
next
  case (Cons k ks)
  note P = pool_okD[OF ok]
  have k: "k < length (sockets s)" "\<not> live s k" using P(4,5) Cons by auto
  have fs: "free_socket s = Some k" using P(3) Cons by simp
  define s1 where "s1 = s\<lparr>free_socket := (case ks of [] \<Rightarrow> None | j # _ \<Rightarrow> Some j)\<rparr>"
  have al: "alloc_socket s = Some (s1, Some k)"
    using fs k freelist_tail[of "sockets s" k ks] P(2) Cons by (simp add: alloc_socket_def check_def Let_def s1_def)
  have base: "distinct ks" "freelist (sockets s) ks" "\<And>j. j \<in> set ks \<Longrightarrow> j \<noteq> k"
    using P(1) freelist_tail[of "sockets s" k ks] P(2) Cons by auto
  show ?thesis
  proof (cases ctl_ok)
    case False
    then have s': "s' = s1" using e al by (simp add: add_client_def)
    have "pool_ok s1 ks f" using ok base Cons unfolding pool_ok_def live_def by (simp add: s1_def)
    then show ?thesis using False Cons s' by (simp add: s1_def)
  next
    case True
    let ?u = "\<lambda>x. x\<lparr>sk_fd := fd, sk_node := None, sk_status := SOCKET_SUSPEND\<rparr>"
    obtain m where m: "map_insert fd (int k) (socket_hash s) = Some (Fine m)" "s' = (upd_socket k ?u s1)\<lparr>socket_hash := m\<rparr>"
      using e al True by (auto simp: add_client_def upd_socket_def s1_def split: bind_splits assertion.splits)
    have ss: "sockets s' = (sockets s)[k := ?u (sockets s ! k)]" using m(2) by (simp add: upd_socket_def s1_def)
    have new: "f fd = None"
    proof (rule ccontr)
      assume "f fd \<noteq> None"
      then have "fd \<in> dom f" by blast
      then obtain j where "live s j" "sk_fd (sockets s ! j) = fd" unfolding P(7) by auto
      then show False using legal by simp
    qed
    have fd: "0 \<le> fd" using legal by simp
    have lv: "live s' j \<longleftrightarrow> j = k \<or> live s j" for j using ss k by (auto simp: live_def nth_list_update)
    have sk: "sockets s' ! j = (if j = k then ?u (sockets s ! k) else sockets s ! j)" for j
      using ss k by (simp add: nth_list_update)
    have fl: "freelist (sockets s') ks" by (rule freelist_cong[OF _ base(2)]) (use sk base(3) in auto)
    have mr: "map_rep (socket_hash s') (f(fd \<mapsto> int k))"
      using map_rep_insert[OF P(6) fd new m(1)] m(2) by simp
    have dm: "dom (f(fd \<mapsto> int k)) = {sk_fd (sockets s' ! j) | j. live s' j}"
    proof -
      have "{sk_fd (sockets s' ! j) | j. live s' j} = insert fd {sk_fd (sockets s ! j) | j. live s j}"
      proof (intro set_eqI iffI)
        fix x assume "x \<in> {sk_fd (sockets s' ! j) | j. live s' j}"
        then obtain j where "x = sk_fd (sockets s' ! j)" "live s' j" by auto
        then show "x \<in> insert fd {sk_fd (sockets s ! j) | j. live s j}" using lv[of j] sk[of j] by (cases "j = k") auto
      next
        fix x assume "x \<in> insert fd {sk_fd (sockets s ! j) | j. live s j}"
        then consider "x = fd" | j where "x = sk_fd (sockets s ! j)" "live s j" by auto
        then show "x \<in> {sk_fd (sockets s' ! j) | j. live s' j}"
        proof cases
          case 1
          then have "x = sk_fd (sockets s' ! k) \<and> live s' k" using lv[of k] sk[of k] by simp
          then show ?thesis by blast
        next
          case (2 j)
          then have "j \<noteq> k" using k(2) by auto
          then have "x = sk_fd (sockets s' ! j) \<and> live s' j" using 2 lv[of j] sk[of j] by simp
          then show ?thesis by blast
        qed
      qed
      then show ?thesis using P(7) by (simp add: dom_fun_upd)
    qed
    have val: "(f(fd \<mapsto> int k)) (sk_fd (sockets s' ! j)) = Some (int j)" if "live s' j" for j
      using that lv[of j] sk[of j] P(8)[of j] legal k(2) by auto
    have "k \<notin> closed_set (sockets s)" using k by (auto simp: closed_set_def live_def)
    then have "closed_set (sockets s') = closed_set (sockets s)" using closed_set_update[OF k(1)] ss by simp
    then have cc: "closed_count s' = int (card (closed_set (sockets s')))"
      using P(9) m(2) by (simp add: upd_socket_def s1_def)
    have "pool_ok s' ks (f(fd \<mapsto> int k))"
      unfolding pool_ok_def closed_set_def[symmetric]
    proof (intro conjI)
      show "free_socket s' = (case ks of [] \<Rightarrow> None | k # _ \<Rightarrow> Some k)" using m(2) by (simp add: upd_socket_def s1_def)
      show "\<forall>j \<in> set ks. j < length (sockets s') \<and> \<not> live s' j" using P(4,5) Cons lv base(3) ss by auto
    qed (use base(1) fl mr dm val cc in blast)+
    then show ?thesis using True Cons k lv sk by simp
  qed
qed

lemma pool_ok_close:
  assumes ok: "pool_ok s free f" and legal: "pool_legal (Close k) s"
  shows "\<exists>s'. close_client (int k) s = Some s' \<and> pool_ok s' free f"
proof -
  note P = pool_okD[OF ok]
  have k: "k < length (sockets s)" "live s k" "k \<notin> closed_set (sockets s)" using legal by (auto simp: live_def closed_set_def)
  let ?u = "\<lambda>x. x\<lparr>sk_status := SOCKET_CLOSED, sk_node := None, sk_temp := None,
       recev_filesize := 0, filesize_total := 0, send_ready_filesize := 0, pthread_flag := 0\<rparr>"
  obtain s' where e: "close_client (int k) s = Some s'" and s': "s' = (upd_socket k ?u s)\<lparr>closed_count := closed_count s + 1,
      pthread_print := pthread_print s - 1\<rparr>"
    using k(1) by (simp add: close_client_def check_def upd_socket_def)
  have ss: "sockets s' = (sockets s)[k := ?u (sockets s ! k)]" using s' by (simp add: upd_socket_def)
  have sk: "sk_fd (sockets s' ! j) = sk_fd (sockets s ! j)" for j using ss k by (simp add: nth_list_update)
  have lv: "live s' j \<longleftrightarrow> live s j" for j using ss k by (auto simp: live_def nth_list_update)
  have "closed_set (sockets s') = insert k (closed_set (sockets s))" using closed_set_update[OF k(1)] ss by simp
  then have cc: "closed_count s' = int (card (closed_set (sockets s')))"
    using P(9) s' k(3) closed_set_finite by (simp add: upd_socket_def)
  have fl: "freelist (sockets s') free" by (rule freelist_cong[OF _ P(2)]) (simp add: sk)
  have "pool_ok s' free f"
    unfolding pool_ok_def closed_set_def[symmetric] lv sk
    using P(1,3-8) fl cc s' ss by (simp add: upd_socket_def)
  then show ?thesis using e by blast
qed

lemma yield_reap:
  assumes "pool_legal (Reap k) s"
  shows "mread_yield (s\<lparr>active := int k\<rparr>) = do {
    m \<leftarrow> map_erase (sk_fd (sockets s ! k)) (socket_hash s);
    f \<leftarrow> free_socket s;
    Some (s\<lparr>sockets := (sockets s)[k := (sockets s ! k)\<lparr>sk_temp := None, sk_status := SOCKET_INVALID, sk_fd := int f\<rparr>],
      closed_count := closed_count s - 1, socket_hash := m, free_socket := Some k, skip := 0, active := -1\<rparr>) }"
  using assms by (simp add: mread_yield_def ringbuffer_free_def upd_socket_def Let_def)

lemma pool_ok_reap:
  assumes ok: "pool_ok s free f" and legal: "pool_legal (Reap k) s" and e: "mread_yield (s\<lparr>active := int k\<rparr>) = Some s'"
  shows "pool_ok s' (k # free) (f(sk_fd (sockets s ! k) := None))"
proof -
  note P = pool_okD[OF ok]
  have k: "k < length (sockets s)" "live s k" "k \<in> closed_set (sockets s)" using legal by (auto simp: live_def closed_set_def)
  let ?fd = "sk_fd (sockets s ! k)"
  obtain m f0 where m: "map_erase ?fd (socket_hash s) = Some m" "free_socket s = Some f0"
      "s' = s\<lparr>sockets := (sockets s)[k := (sockets s ! k)\<lparr>sk_temp := None, sk_status := SOCKET_INVALID, sk_fd := int f0\<rparr>],
      closed_count := closed_count s - 1, socket_hash := m, free_socket := Some k, skip := 0, active := -1\<rparr>"
    using e unfolding yield_reap[OF legal] by (auto split: bind_splits)
  obtain ks where free: "free = f0 # ks" using P(3) m(2) by (cases free) auto
  have ss: "sockets s' = (sockets s)[k := (sockets s ! k)\<lparr>sk_temp := None, sk_status := SOCKET_INVALID, sk_fd := int f0\<rparr>]"
    using m(3) by simp
  have sk: "sk_fd (sockets s' ! j) = (if j = k then int f0 else sk_fd (sockets s ! j))" for j
    using ss k(1) by (simp add: nth_list_update)
  have lv: "live s' j \<longleftrightarrow> j \<noteq> k \<and> live s j" for j using ss k(1) by (auto simp: live_def nth_list_update)
  have kf: "k \<notin> set free" using P(5) k(2) by blast
  have fl: "freelist (sockets s') (k # free)"
  proof -
    have "freelist (sockets s') free" by (rule freelist_cong[OF _ P(2)]) (use sk kf in auto)
    then show ?thesis using free sk[of k] by simp
  qed
  have fd0: "0 \<le> ?fd" using P(6) P(8)[OF k(2)] unfolding map_rep_def by auto
  have mr: "map_rep (socket_hash s') (f(?fd := None))" using map_rep_erase[OF P(6) fd0 m(1)] m(3) by simp
  have other: "sk_fd (sockets s ! j) \<noteq> ?fd" if "live s j" "j \<noteq> k" for j using P(8)[OF that(1)] P(8)[OF k(2)] that(2) by auto
  have dm: "dom (f(?fd := None)) = {sk_fd (sockets s' ! j) | j. live s' j}"
  proof (intro set_eqI iffI)
    fix x assume x: "x \<in> dom (f(?fd := None))"
    then have "x \<in> dom f" "x \<noteq> ?fd" by (auto split: if_splits)
    then obtain j where j: "x = sk_fd (sockets s ! j)" "live s j" unfolding P(7) by auto
    then have "j \<noteq> k" using \<open>x \<noteq> ?fd\<close> by auto
    then have "x = sk_fd (sockets s' ! j) \<and> live s' j" using j lv sk by simp
    then show "x \<in> {sk_fd (sockets s' ! j) | j. live s' j}" by blast
  next
    fix x assume "x \<in> {sk_fd (sockets s' ! j) | j. live s' j}"
    then obtain j where j: "x = sk_fd (sockets s' ! j)" "live s' j" by auto
    then have j': "live s j" "j \<noteq> k" "x = sk_fd (sockets s ! j)" using lv[of j] sk[of j] by auto
    then show "x \<in> dom (f(?fd := None))" using P(8)[OF j'(1)] other[OF j'(1,2)] by (simp add: domIff)
  qed
  have val: "(f(?fd := None)) (sk_fd (sockets s' ! j)) = Some (int j)" if "live s' j" for j
    using that lv[of j] sk[of j] P(8)[of j] other[of j] by auto
  have "closed_set (sockets s') = closed_set (sockets s) - {k}" using closed_set_update[OF k(1)] ss by simp
  moreover have "0 < card (closed_set (sockets s))" using k(3) closed_set_finite by (auto simp: card_gt_0_iff)
  ultimately have cc: "closed_count s' = int (card (closed_set (sockets s')))"
    using P(9) m(3) k(3) by (simp add: closed_set_finite card_Diff_singleton of_nat_diff)
  show ?thesis
    unfolding pool_ok_def closed_set_def[symmetric]
  proof (intro conjI)
    show "distinct (k # free)" using P(1) kf by simp
    show "free_socket s' = (case k # free of [] \<Rightarrow> None | k # _ \<Rightarrow> Some k)" using m(3) by simp
    show "\<forall>j \<in> set (k # free). j < length (sockets s') \<and> \<not> live s' j" using P(4,5) lv k(1) ss by auto
  qed (use fl mr dm val cc in blast)+
qed

lemma pool_run_ok:
  "pool_ok s free f \<Longrightarrow> pool_run cs s = Some s' \<Longrightarrow> \<exists>free' f'. pool_ok s' free' f'"
proof (induction cs arbitrary: s free f)
  case (Cons c cs)
  then obtain s1 where c: "pool_legal c s" "pool_step c s = Some s1" "pool_run cs s1 = Some s'"
    by (auto split: if_splits bind_splits)
  have "\<exists>free' f'. pool_ok s1 free' f'"
  proof (cases c)
    case (Add fd b)
    have "add_client fd b s = Some s1" "pool_legal (Add fd b) s" using c Add by simp_all
    from pool_ok_add[OF Cons.prems(1) this(2,1)] Cons.prems(1) show ?thesis by (cases free; cases b) auto
  next
    case (Close k)
    then have "pool_legal (Close k) s" "close_client (int k) s = Some s1" using c by simp_all
    with pool_ok_close[OF Cons.prems(1)] show ?thesis by fastforce
  next
    case (Reap k)
    then have "pool_legal (Reap k) s" "mread_yield (s\<lparr>active := int k\<rparr>) = Some s1" using c by simp_all
    with pool_ok_reap[OF Cons.prems(1)] show ?thesis by blast
  qed
  then show ?case using Cons.IH c(3) by blast
qed auto

text \<open>
  C33. However connections are accepted, closed and released: no two open connections share a socket, the
  table finds the slot of every open one, the counter of closed connections is right, and a new connection
  never takes the slot of an open one.  Releasing a connection while no slot is free is undefined: the
  null pointer enters the free list.
\<close>

theorem mread_pool:
  assumes "mread_create fd n sz junk = Some s0" "int n < 2 ^ 30" "pool_run cs s0 = Some s"
  shows "(\<forall>j k. live s j \<longrightarrow> live s k \<longrightarrow> sk_fd (sockets s ! j) = sk_fd (sockets s ! k) \<longrightarrow> j = k) \<and>
    (\<forall>k. live s k \<longrightarrow> map_search (socket_hash s) (sk_fd (sockets s ! k)) = Some (int k)) \<and>
    closed_count s = int (card (closed_set (sockets s))) \<and>
    (\<forall>c b s' k. pool_legal (Add c b) s \<longrightarrow> add_client c b s = Some s' \<longrightarrow> live s k \<longrightarrow> sockets s' ! k = sockets s ! k) \<and>
    (\<forall>k. pool_legal (Reap k) s \<longrightarrow> free_socket s = None \<longrightarrow> mread_yield (s\<lparr>active := int k\<rparr>) = None)"
proof -
  obtain free f where ok: "pool_ok s free f" using pool_run_ok[OF pool_ok_create[OF assms(1,2)] assms(3)] by blast
  note P = pool_okD[OF ok]
  have 1: "j = k" if "live s j" "live s k" "sk_fd (sockets s ! j) = sk_fd (sockets s ! k)" for j k
  proof -
    have "f (sk_fd (sockets s ! k)) = Some (int j)" using P(8)[OF that(1)] unfolding that(3) .
    then have "Some (int j) = Some (int k)" using P(8)[OF that(2)] by (rule subst)
    then show ?thesis by simp
  qed
  have 2: "map_search (socket_hash s) (sk_fd (sockets s ! k)) = Some (int k)" if "live s k" for k
    using search_rep(1)[OF P(6) P(8)[OF that]] .
  have 3: "sockets s' ! k = sockets s ! k" if a: "pool_legal (Add c b) s" "add_client c b s = Some s'" and l: "live s k" for c b s' k
  proof (cases free)
    case Nil
    then show ?thesis using pool_ok_add[OF ok a] by simp
  next
    case (Cons i ks)
    then have "if b then \<not> live s i \<and> (\<forall>j. j \<noteq> i \<longrightarrow> sockets s' ! j = sockets s ! j) else sockets s' = sockets s"
      using pool_ok_add[OF ok a] by (simp split: if_splits)
    then show ?thesis using l by (cases b) (simp_all, metis)
  qed
  have 4: "mread_yield (s\<lparr>active := int k\<rparr>) = None" if "pool_legal (Reap k) s" "free_socket s = None" for k
    using that(2) unfolding yield_reap[OF that(1)] by (simp split: bind_splits)
  have A: "\<forall>j k. live s j \<longrightarrow> live s k \<longrightarrow> sk_fd (sockets s ! j) = sk_fd (sockets s ! k) \<longrightarrow> j = k"
    by (intro allI impI) (rule 1)
  have B: "\<forall>k. live s k \<longrightarrow> map_search (socket_hash s) (sk_fd (sockets s ! k)) = Some (int k)"
    by (intro allI impI) (rule 2)
  have C: "\<forall>c b s' k. pool_legal (Add c b) s \<longrightarrow> add_client c b s = Some s' \<longrightarrow> live s k \<longrightarrow> sockets s' ! k = sockets s ! k"
    by (intro allI impI) (rule 3)
  have D: "\<forall>k. pool_legal (Reap k) s \<longrightarrow> free_socket s = None \<longrightarrow> mread_yield (s\<lparr>active := int k\<rparr>) = None"
    by (intro allI impI) (rule 4)
  show ?thesis by (intro conjI A B C D P(9))
qed

text \<open>
  The witness: with one slot, a connection is accepted and closed; it can be released only by an undefined
  operation, although this is what the server does next.
\<close>

theorem mread_pool_witness:
  "\<exists>s0 s. mread_create 3 1 120 (replicate 120 0) = Some s0 \<and> pool_run [Add 7 True, Close 0] s0 = Some s \<and>
     pool_legal (Reap 0) s \<and> mread_yield (s\<lparr>active := 0\<rparr>) = None"
proof -
  have "case mread_create 3 1 120 (replicate 120 0) of None \<Rightarrow> False | Some s0 \<Rightarrow> sockets s0 = create_sockets 1 \<and>
      free_socket s0 = Some 0 \<and> socket_hash s0 = \<lparr>map_size = 2, nodes = replicate 2 \<lparr>h_fd = -1, h_id = 0, h_next = -1\<rparr>\<rparr>"
    by code_simp
  then obtain s0 where s0: "mread_create 3 1 120 (replicate 120 0) = Some s0" "sockets s0 = create_sockets 1" "free_socket s0 = Some 0"
      "socket_hash s0 = \<lparr>map_size = 2, nodes = replicate 2 \<lparr>h_fd = -1, h_id = 0, h_next = -1\<rparr>\<rparr>"
    by (auto split: option.splits)
  have "map_insert 7 0 \<lparr>map_size = 2, nodes = replicate 2 \<lparr>h_fd = -1, h_id = 0, h_next = -1\<rparr>\<rparr> \<noteq> None"
    "\<forall>m. map_insert 7 0 \<lparr>map_size = 2, nodes = replicate 2 \<lparr>h_fd = -1, h_id = 0, h_next = -1\<rparr>\<rparr> \<noteq> Some Aborted"
    by (simp_all add: map_insert_def slot_def chain_stop.simps numeral_2_eq_2)
  then obtain m where m: "map_insert 7 0 \<lparr>map_size = 2, nodes = replicate 2 \<lparr>h_fd = -1, h_id = 0, h_next = -1\<rparr>\<rparr> = Some (Fine m)"
    by (metis assertion.exhaust not_None_eq)
  obtain s where s: "pool_run [Add 7 True, Close 0] s0 = Some s" "pool_legal (Reap 0) s" "free_socket s = None"
    using s0(2-4) m
    by (simp add: add_client_def alloc_socket_def check_def upd_socket_def create_sockets_def live_def close_client_def)
  have one: "int 1 < 2 ^ 30" by simp
  have "mread_yield (s\<lparr>active := int 0\<rparr>) = None"
    using mread_pool[OF s0(1) one s(1)] s(2,3) by blast
  then have "mread_yield (s\<lparr>active := 0\<rparr>) = None" by simp
  then show ?thesis using s0(1) s(1,2) by blast
qed

end
