(* ===== verification/Number_Theory_Lib.thy ===== *)
theory Number_Theory_Lib
  imports Ak_Prelude
begin

text \<open>
  The number-theory routines of \<open>acm-lib/number_theory\<close>: greatest common divisor and least common
  multiple, the extended Euclidean algorithm and modular inverses, the sieve, and the primality test.  C's
  \<open>/\<close> and \<open>%\<close> are \<open>sdiv\<close> and \<open>smod\<close>; the integers are unbounded, and the bounds proved for
  the coefficients show that nothing overflows for arguments below \<open>2 ^ 30\<close>.
\<close>

subsection \<open>Euclid\<close>

lemma smod_less: "b \<noteq> 0 \<Longrightarrow> nat \<bar>a smod b\<bar> < nat \<bar>b :: int\<bar>"
  by (simp add: signed_modulo_int_def abs_mult sgn_if)

function Gcd :: "int \<Rightarrow> int \<Rightarrow> int" where
  "Gcd a b = (if b \<noteq> 0 then Gcd b (a smod b) else a)"
  by pat_completeness auto
termination by (relation "measure (\<lambda>(a, b). nat \<bar>b\<bar>)") (auto dest: smod_less)

declare Gcd.simps [simp del]

text \<open>\<open>None\<close> is a division by zero.\<close>

definition Lcm :: "int \<Rightarrow> int \<Rightarrow> int option" where
  "Lcm a b = (if Gcd a b = 0 then None else Some (a sdiv Gcd a b * b))"

text \<open>The divisor and the values left in \<open>x\<close> and \<open>y\<close>, which the recursive call gets swapped.\<close>

function ExtendedEuclid :: "int \<Rightarrow> int \<Rightarrow> int \<times> int \<times> int" where
  "ExtendedEuclid a b =
     (if b = 0 then (a, 1, 0)
      else case ExtendedEuclid b (a smod b) of (d, y, x) \<Rightarrow> (d, x, y - a sdiv b * x))"
  by pat_completeness auto
termination by (relation "measure (\<lambda>(a, b). nat \<bar>b\<bar>)") (auto dest: smod_less)

declare ExtendedEuclid.simps [simp del]

definition ModInv :: "int \<Rightarrow> int \<Rightarrow> int" where
  "ModInv a n =
     (case ExtendedEuclid a n of (d, x, y) \<Rightarrow> if d = 1 then (x smod n + n) smod n else -1)"

lemma nonneg_sdiv: "0 \<le> a \<Longrightarrow> 0 < b \<Longrightarrow> a sdiv b = a div b \<and> a smod b = a mod (b :: int)"
  by (cases "a = 0") (simp_all add: signed_divide_int_eq_divide_int signed_modulo_int_eq_modulo_int)

lemma Gcd_value: "0 \<le> a \<Longrightarrow> 0 \<le> b \<Longrightarrow> Gcd a b = gcd a b"
proof (induction a b rule: Gcd.induct)
  case (1 a b)
  show ?case
  proof (cases "b = 0")
    case False
    then have m: "a smod b = a mod b" using 1 nonneg_sdiv by simp
    have "Gcd b (a smod b) = gcd b (a mod b)" using 1 False m by simp
    then show ?thesis using False by (simp add: Gcd.simps[of a b] gcd_red_int[of a b])
  qed (use 1 in \<open>simp add: Gcd.simps\<close>)
qed

lemma Lcm_value: "0 \<le> a \<Longrightarrow> 0 \<le> b \<Longrightarrow> Lcm a b = (if a = 0 \<and> b = 0 then None else Some (lcm a b))"
proof -
  assume ab: "0 \<le> a" "0 \<le> b"
  show ?thesis
  proof (cases "a = 0 \<and> b = 0")
    case True
    then show ?thesis using Gcd_value[OF ab] by (simp add: Lcm_def)
  next
    case False
    then have g: "0 < gcd a b" by auto
    have "a sdiv gcd a b * b = a div gcd a b * b" using nonneg_sdiv[OF ab(1) g] by simp
    also have "\<dots> = a * b div gcd a b" by (rule dvd_div_mult) simp
    also have "\<dots> = lcm a b"
    proof -
      have "a * b = lcm a b * gcd a b"
        using ab prod_gcd_lcm_int[of a b] abs_of_nonneg[OF ab(1)] abs_of_nonneg[OF ab(2)] by (metis mult.commute)
      then show ?thesis using g by (metis nonzero_mult_div_cancel_right less_irrefl)
    qed
    finally show ?thesis using False Gcd_value[OF ab] g by (simp add: Lcm_def)
  qed
qed

text \<open>The linear combination, and the bounds on the coefficients.\<close>

lemma ExtendedEuclid_props:
  "0 \<le> a \<Longrightarrow> 0 \<le> b \<Longrightarrow> case ExtendedEuclid a b of (d, x, y) \<Rightarrow>
     d = gcd a b \<and> a * x + b * y = d \<and> \<bar>x\<bar> \<le> max 1 b \<and> \<bar>y\<bar> \<le> max 1 a"
proof (induction a b rule: ExtendedEuclid.induct)
  case (1 a b)
  show ?case
  proof (cases "b = 0")
    case True
    then have e: "ExtendedEuclid a b = (a, 1, 0)" by (simp add: ExtendedEuclid.simps[of a 0])
    show ?thesis unfolding e using 1 True by simp
  next
    case False
    then have b: "0 < b" and s: "a sdiv b = a div b" "a smod b = a mod b" using 1 nonneg_sdiv by simp_all
    obtain d y x where r: "ExtendedEuclid b (a mod b) = (d, y, x)" by (cases "ExtendedEuclid b (a mod b)")
    have IH: "d = gcd b (a mod b)" "b * y + (a mod b) * x = d" "\<bar>y\<bar> \<le> max 1 (a mod b)" "\<bar>x\<bar> \<le> max 1 b"
      using "1.IH"[OF False] b r s by simp_all
    have e: "ExtendedEuclid a b = (d, x, y - a div b * x)"
      using False r s by (simp add: ExtendedEuclid.simps[of a b])
    have dd: "d = gcd a b" using IH(1) by (simp add: gcd_red_int[of a b])
    have "a * x + b * (y - a div b * x) = b * y + (a - b * (a div b)) * x" by (simp add: algebra_simps)
    also have "a - b * (a div b) = a mod b" by (simp add: minus_mult_div_eq_mod)
    finally have lin: "a * x + b * (y - a div b * x) = d" using IH(2) by simp
    have "\<bar>y - a div b * x\<bar> \<le> max 1 a"
    proof (cases "a mod b = 0")
      case True
      then have "ExtendedEuclid b (a mod b) = (b, 1, 0)" by (simp add: ExtendedEuclid.simps)
      then have "y = 1" "x = 0" using r by simp_all
      then show ?thesis by simp
    next
      case m: False
      then have mp: "1 \<le> a mod b" using b by (simp add: int_one_le_iff_zero_less order_less_le)
      have q: "0 \<le> a div b" using 1 b by (simp add: pos_imp_zdiv_nonneg_iff)
      have "\<bar>a div b * x\<bar> \<le> a div b * b" using q IH(4) b by (simp add: abs_mult mult_left_mono)
      moreover have "\<bar>y\<bar> \<le> a mod b" using IH(3) mp by simp
      moreover have "a div b * b + a mod b = a" by simp
      ultimately show ?thesis by linarith
    qed
    then show ?thesis using e dd lin IH(4) by simp
  qed
qed

subsection \<open>Primes\<close>

definition is_prime :: "nat \<Rightarrow> bool" where
  "is_prime p \<longleftrightarrow> 1 < p \<and> (\<forall>d. d dvd p \<longrightarrow> d = 1 \<or> d = p)"

lemma small_prime_factor:
  assumes "1 < n" "\<not> is_prime n"
  shows "\<exists>p. is_prime p \<and> p dvd n \<and> p * p \<le> n"
proof -
  obtain d where d: "d dvd n" "d \<noteq> 1" "d \<noteq> n" using assms by (auto simp: is_prime_def)
  then have dn: "1 < d" "d < n" using assms(1) by (auto dest: dvd_imp_le intro: Suc_lessI)
  define p where "p = (LEAST q. 1 < q \<and> q dvd n)"
  have p: "1 < p" "p dvd n" using LeastI[of "\<lambda>q. 1 < q \<and> q dvd n" d] dn d unfolding p_def by blast+
  have least: "p \<le> q" if "1 < q" "q dvd n" for q using that unfolding p_def by (intro Least_le) simp
  have "is_prime p"
    unfolding is_prime_def
  proof (intro conjI allI impI p(1))
    fix q assume "q dvd p"
    then have q: "q dvd n" "q \<le> p" using p by (auto intro: dvd_trans dvd_imp_le)
    have "q \<noteq> 0" using \<open>q dvd p\<close> p(1) by (intro notI) simp
    then show "q = 1 \<or> q = p" using least[of q] q by linarith
  qed
  moreover obtain e where e: "n = p * e" using p(2) by (elim dvdE)
  have "p \<noteq> n" using least[of d] dn d by auto
  then have "1 < e" using e p(1) assms(1) by (cases e) (auto intro: Suc_lessI)
  then have "p \<le> e" using least[of e] e by simp
  then have "p * p \<le> n" using e by simp
  ultimately show ?thesis using p(2) by blast
qed

subsection \<open>The sieve\<close>

function sieve_strike :: "nat \<Rightarrow> nat \<Rightarrow> bool list \<Rightarrow> bool list" where
  "sieve_strike i j mark =
     (if j < length mark \<and> 0 < i then sieve_strike i (j + i) (mark[j := False]) else mark)"
  by pat_completeness auto
termination by (relation "measure (\<lambda>(i, j, mark). length mark - j)") auto

function sieve_loop :: "nat \<Rightarrow> bool list \<Rightarrow> bool list" where
  "sieve_loop i mark =
     (if i * i \<le> length mark \<and> 0 < i
      then sieve_loop (i + 1) (if mark ! i then sieve_strike i (i * i) mark else mark) else mark)"
  by pat_completeness auto

declare sieve_strike.simps [simp del]

lemma length_strike [simp]: "length (sieve_strike i j mark) = length mark"
  by (induction i j mark rule: sieve_strike.induct) (subst sieve_strike.simps, simp)

termination sieve_loop
proof (relation "measure (\<lambda>(i, mark). Suc (length mark) - i)", simp_all)
  fix i :: nat and mark :: "bool list"
  assume a: "i * i \<le> length mark \<and> 0 < i"
  then have "i * 1 \<le> i * i" by (intro mult_le_mono2) simp
  then have "i \<le> length mark" using a by linarith
  then show "length mark - i < Suc (length mark) - i" by linarith
qed

declare sieve_loop.simps [simp del]

text \<open>\<open>M = 1000\<close> in the source.\<close>

definition SievePrime :: "nat \<Rightarrow> bool list" where
  "SievePrime M = sieve_loop 2 ((replicate M True)[0 := False, 1 := False])"

lemma strike_offsets: "(\<exists>t. x = j + t * i) \<longleftrightarrow> x = j \<or> (\<exists>t. x = j + i + t * i)" for x i j :: nat
proof
  assume "\<exists>t. x = j + t * i"
  then obtain t where t: "x = j + t * i" by blast
  show "x = j \<or> (\<exists>t. x = j + i + t * i)"
  proof (cases t)
    case (Suc u)
    then have "x = j + i + u * i" using t by simp
    then show ?thesis by blast
  qed (use t in simp)
next
  assume "x = j \<or> (\<exists>t. x = j + i + t * i)"
  then show "\<exists>t. x = j + t * i"
  proof
    assume "\<exists>t. x = j + i + t * i"
    then obtain t where "x = j + i + t * i" by blast
    then have "x = j + Suc t * i" by simp
    then show ?thesis by blast
  qed (intro exI[of _ 0], simp)
qed

lemma strike_nth:
  "0 < i \<Longrightarrow> x < length mark \<Longrightarrow> sieve_strike i j mark ! x = (mark ! x \<and> \<not> (\<exists>t. x = j + t * i))"
proof (induction i j mark rule: sieve_strike.induct)
  case (1 i j mark)
  show ?case
  proof (cases "j < length mark")
    case False
    have "x \<noteq> j + t * i" for t using 1(3) False by linarith
    moreover have "sieve_strike i j mark = mark" using False by (simp add: sieve_strike.simps[of i j mark])
    ultimately show ?thesis by simp
  next
    case True
    have c: "j < length mark \<and> 0 < i" using True 1(2) by simp
    have e: "sieve_strike i j mark = sieve_strike i (j + i) (mark[j := False])"
      unfolding sieve_strike.simps[of i j mark] if_P[OF c] ..
    have IH: "sieve_strike i (j + i) (mark[j := False]) ! x = ((mark[j := False]) ! x \<and> \<not> (\<exists>t. x = j + i + t * i))"
      by (rule 1(1)[OF c 1(2)]) (simp only: length_list_update 1(3))
    have u: "mark[j := False] ! x = (mark ! x \<and> x \<noteq> j)" using 1(3) by (cases "x = j") simp_all
    show ?thesis by (simp only: e IH u strike_offsets[of x j i] de_Morgan_disj conj_assoc)
  qed
qed

lemma is_prime_iff: "is_prime n \<longleftrightarrow> 1 < n \<and> \<not> (\<exists>p. is_prime p \<and> p dvd n \<and> p * p \<le> n)"
proof
  assume n: "is_prime n"
  have "\<not> n * n \<le> n" using n by (simp add: is_prime_def)
  then show "1 < n \<and> \<not> (\<exists>p. is_prime p \<and> p dvd n \<and> p * p \<le> n)"
    using n by (auto simp: is_prime_def)
next
  assume "1 < n \<and> \<not> (\<exists>p. is_prime p \<and> p dvd n \<and> p * p \<le> n)"
  then show "is_prime n" using small_prime_factor by blast
qed

text \<open>Before the pass for \<open>i\<close> exactly the multiples of the smaller primes, from their squares on, are struck.\<close>

definition sieved :: "nat \<Rightarrow> bool list \<Rightarrow> bool" where
  "sieved i mark \<longleftrightarrow>
     (\<forall>x < length mark. mark ! x = (1 < x \<and> \<not> (\<exists>p < i. is_prime p \<and> p dvd x \<and> p * p \<le> x)))"

lemma sieved_current:
  assumes "sieved i mark" "1 < i" "i < length mark"
  shows "mark ! i = is_prime i"
proof -
  have "p < i" if "p * p \<le> i" "is_prime p" for p
  proof -
    have "p * 2 \<le> p * p" using that(2) by (intro mult_le_mono2) (simp add: is_prime_def)
    then show ?thesis using that(1) assms(2) by linarith
  qed
  then have "(\<exists>p < i. is_prime p \<and> p dvd i \<and> p * p \<le> i) \<longleftrightarrow> (\<exists>p. is_prime p \<and> p dvd i \<and> p * p \<le> i)"
    by blast
  moreover have "mark ! i = (1 < i \<and> \<not> (\<exists>p < i. is_prime p \<and> p dvd i \<and> p * p \<le> i))"
    using assms(1) assms(3) unfolding sieved_def by blast
  ultimately show ?thesis using is_prime_iff[of i] by blast
qed

lemma struck_iff: "(\<exists>t. x = i * i + t * i) \<longleftrightarrow> i dvd x \<and> i * i \<le> x" if "0 < i" for x i :: nat
proof
  assume "i dvd x \<and> i * i \<le> x"
  then have d: "i dvd x" "i * i \<le> x" by simp_all
  obtain k where k0: "x = i * k" using d(1) by (rule dvdE)
  then have k: "x = i * k" "i * i \<le> i * k" using d(2) by simp_all
  then have "i \<le> k" using that by simp
  then have "k = i + (k - i)" by simp
  then have "x = i * (i + (k - i))" using k(1) by simp
  then have "x = i * i + (k - i) * i" by (simp only: distrib_left mult.commute)
  then show "\<exists>t. x = i * i + t * i" by blast
qed auto

lemma sieved_step:
  assumes s: "sieved i mark" and i: "1 < i" "i < length mark"
  shows "sieved (i + 1) (if mark ! i then sieve_strike i (i * i) mark else mark)"
proof -
  have c: "mark ! i = is_prime i" by (rule sieved_current[OF assms])
  have split: "(\<exists>p < i + 1. Q p) \<longleftrightarrow> (\<exists>p < i. Q p) \<or> Q i" for Q :: "nat \<Rightarrow> bool"
    by (simp add: less_Suc_eq) blast
  have m: "mark ! x = (1 < x \<and> \<not> (\<exists>p < i. is_prime p \<and> p dvd x \<and> p * p \<le> x))" if "x < length mark" for x
    using s that by (simp add: sieved_def)
  have "(if mark ! i then sieve_strike i (i * i) mark else mark) ! x =
        (1 < x \<and> \<not> (\<exists>p < i + 1. is_prime p \<and> p dvd x \<and> p * p \<le> x))" if x: "x < length mark" for x
  proof (cases "is_prime i")
    case True
    then have "sieve_strike i (i * i) mark ! x = (mark ! x \<and> \<not> (i dvd x \<and> i * i \<le> x))"
      using strike_nth[of i x mark "i * i"] struck_iff[of i x] i x by simp
    then show ?thesis using c True m[OF x] unfolding split by simp
  next
    case False
    then show ?thesis using c m[OF x] unfolding split by simp
  qed
  moreover have "length (if mark ! i then sieve_strike i (i * i) mark else mark) = length mark" by simp
  ultimately show ?thesis unfolding sieved_def by metis
qed

lemma sieve_loop_primes:
  "sieved i mark \<Longrightarrow> 1 < i \<Longrightarrow> x < length mark \<Longrightarrow> sieve_loop i mark ! x = is_prime x"
proof (induction i mark rule: sieve_loop.induct)
  case (1 i mark)
  show ?case
  proof (cases "i * i \<le> length mark")
    case True
    have "i * 2 \<le> i * i" using 1(3) by (intro mult_le_mono2) simp
    then have il: "i < length mark" using True 1(3) by linarith
    have c: "i * i \<le> length mark \<and> 0 < i" using True 1(3) by simp
    have e: "sieve_loop i mark = sieve_loop (i + 1) (if mark ! i then sieve_strike i (i * i) mark else mark)"
      by (subst sieve_loop.simps, simp only: if_P[OF c])
    show ?thesis unfolding e
      by (rule 1(1)[OF c sieved_step[OF 1(2) 1(3) il]]) (use 1(3) 1(4) in simp_all)
  next
    case False
    have "p < i" if "p * p \<le> x" for p
    proof (rule ccontr)
      assume "\<not> p < i"
      then have "i * i \<le> p * p" by (intro mult_le_mono) simp_all
      then show False using that False 1(4) by linarith
    qed
    then have "(\<exists>p < i. is_prime p \<and> p dvd x \<and> p * p \<le> x) \<longleftrightarrow> (\<exists>p. is_prime p \<and> p dvd x \<and> p * p \<le> x)"
      by blast
    moreover have "mark ! x = (1 < x \<and> \<not> (\<exists>p < i. is_prime p \<and> p dvd x \<and> p * p \<le> x))"
      using 1(2) 1(4) unfolding sieved_def by blast
    ultimately have "mark ! x = is_prime x" using is_prime_iff[of x] by blast
    then show ?thesis using False by (simp add: sieve_loop.simps[of i mark])
  qed
qed

text \<open>
  C15. The sieve is right: for every table size from 2 on, each entry that \<open>SievePrime\<close> leaves in
  \<open>mark\<close> says whether its index is prime.
\<close>

theorem sieve_prime_correct:
  assumes "2 \<le> M"
  shows "length (SievePrime M) = M \<and> (\<forall>x < M. SievePrime M ! x = is_prime x)"
proof -
  define m0 where "m0 = (replicate M True)[0 := False, 1 := False]"
  have l: "length m0 = M" by (simp add: m0_def)
  have nth: "m0 ! x = (1 < x)" if "x < M" for x
    using that assms by (cases x rule: nat.exhaust; cases "x - 1") (simp_all add: m0_def nth_list_update)
  have "\<not> (\<exists>p < 2. is_prime p \<and> p dvd x \<and> p * p \<le> x)" for x :: nat by (auto simp: is_prime_def)
  then have "sieved 2 m0" by (simp add: sieved_def l nth)
  then have "\<forall>x < M. sieve_loop 2 m0 ! x = is_prime x" using sieve_loop_primes[of 2 m0] l by simp
  moreover have "length (sieve_loop i mark) = length mark" for i mark
    by (induction i mark rule: sieve_loop.induct) (subst sieve_loop.simps, simp)
  moreover have "SievePrime M = sieve_loop 2 m0" unfolding SievePrime_def m0_def ..
  ultimately show ?thesis using l by simp
qed

theorem sieve_prime_correct_witness: "length (SievePrime 30) = 30 \<and> SievePrime 30 ! 29 = is_prime 29"
  using sieve_prime_correct[of 30] by simp

subsection \<open>Modular inverses\<close>

text \<open>
  \<open>ModInv\<close> returns the inverse of its argument modulo \<open>n\<close> in the range of the residues when
  the two are coprime, and -1 when they are not.  The coefficients it gets from \<open>ExtendedEuclid\<close>
  stay within the arguments and the sum before the last reduction within \<open>2 n\<close>, so for moduli up
  to \<open>2 ^ 30\<close> they fit an \<open>int\<close>.
\<close>

theorem mod_inv_correct:
  assumes "0 \<le> a" "0 < n"
  shows "(if coprime a n then 0 \<le> ModInv a n \<and> ModInv a n < n \<and> (a * ModInv a n) mod n = 1 mod n
          else ModInv a n = -1) \<and>
    (case ExtendedEuclid a n of (d, x, y) \<Rightarrow>
       d = gcd a n \<and> \<bar>x\<bar> \<le> max 1 n \<and> \<bar>y\<bar> \<le> max 1 a \<and> \<bar>x smod n + n\<bar> < 2 * n)"
proof -
  obtain d x y where r: "ExtendedEuclid a n = (d, x, y)" by (cases "ExtendedEuclid a n")
  have p: "d = gcd a n" "a * x + n * y = d" "\<bar>x\<bar> \<le> max 1 n" "\<bar>y\<bar> \<le> max 1 a"
    using ExtendedEuclid_props[of a n] assms r by simp_all
  have sm: "\<bar>x smod n\<bar> < n" using smod_less[of n x] assms by simp
  then have nn: "0 \<le> x smod n + n" by linarith
  have xs: "(x smod n) mod n = x mod n"
  proof -
    have "x smod n = x + n * (- (x sdiv n))" using minus_mult_sdiv_eq_smod[of x n] by simp
    then show ?thesis by (simp only: mod_mult_self2)
  qed
  have inv: "(x smod n + n) smod n = x mod n"
    using nonneg_sdiv[OF nn assms(2)] xs by simp
  have m: "ModInv a n = (if d = 1 then x mod n else -1)" by (simp add: ModInv_def r inv)
  have "(a * (x mod n)) mod n = 1 mod n" if "d = 1"
  proof -
    have "(a * (x mod n)) mod n = (a * x) mod n" by (simp add: mod_mult_right_eq)
    also have "a * x = 1 + n * (- y)" using p(2) that by (simp add: algebra_simps)
    finally show ?thesis by (simp only: mod_mult_self2)
  qed
  moreover have "coprime a n \<longleftrightarrow> d = 1" using p(1) by (simp add: coprime_iff_gcd_eq_1)
  ultimately show ?thesis using p m r sm assms nn by simp
qed

theorem mod_inv_correct_witness: "ModInv 5 7 < 7 \<and> (5 * ModInv 5 7) mod 7 = 1 \<and> ModInv 4 6 = -1"
proof -
  have "coprime (5::int) 7" "\<not> coprime (4::int) 6" by code_simp+
  then show ?thesis using mod_inv_correct[of 5 7] mod_inv_correct[of 4 6] by simp
qed

subsection \<open>The primality test\<close>

text \<open>
  \<open>return true\<close> stands inside the loop, which therefore ends in its first iteration; without an
  iteration the function falls off its end, which is \<open>None\<close>.
\<close>

definition IsPrime :: "int \<Rightarrow> bool option" where
  "IsPrime u =
     (if 0 = u \<or> 1 = u then Some False
      else if 2 = u then Some True
      else if 0 = u smod 2 then Some False
      else if 0 \<le> u \<and> 3 * 3 \<le> u then if 0 = u smod 3 then Some False else Some True
      else None)"

lemma IsPrime_only_two_and_three:
  "0 \<le> u \<Longrightarrow> IsPrime u = Some True \<longleftrightarrow> u = 2 \<or> (9 \<le> u \<and> \<not> 2 dvd u \<and> \<not> 3 dvd u)"
  using nonneg_sdiv[of u 2] nonneg_sdiv[of u 3] by (auto simp: IsPrime_def dvd_eq_mod_eq_0)

lemma IsPrime_square_of_five: "IsPrime 25 = Some True \<and> IsPrime 3 = None \<and> \<not> is_prime 25"
proof -
  have "(5::nat) dvd 25" by (rule dvdI[of _ _ 5]) simp
  moreover have "(5::nat) \<noteq> 1" "(5::nat) \<noteq> 25" by simp_all
  ultimately have "\<not> is_prime 25" unfolding is_prime_def by blast
  then show ?thesis by (simp add: IsPrime_def)
qed

end
