(* ===== verification/Philosophers.thy ===== *)
theory Philosophers
  imports Ak_Prelude
begin

text \<open>
  The dining philosophers, twice: with a state array, a mutex and one semaphore per philosopher
  (\<open>dining_philosophers_solve1.c\<close>, processes and shared memory), and with \<open>sem_trywait\<close> on the forks
  (\<open>homework/dining_philosophers_solve.c\<close>, threads).  Every semaphore operation and every access to the shared
  state is a step of its own; a schedule is a list of philosophers.  The System V semaphores of the processes keep,
  for \<open>SEM_UNDO\<close>, an adjustment per process and semaphore; \<open>semop\<close> fails when it or the value would leave its range,
  and the code goes on as if it had not.
\<close>

abbreviation PhNum :: nat where "PhNum \<equiv> 5"

subsection \<open>The monitor\<close>

datatype ph_state = THINKING | HUNGRY | EATING

text \<open>
  Where a philosopher is: thinking; the steps of \<open>take_forks\<close> (wait for the mutex, set the state, test,
  leave, wait for the own semaphore); eating; the steps of \<open>put_forks\<close>.
\<close>

datatype ph_pc = Think | T0 | T1 | T2 | T3 | T4 | Eat | U0 | U1 | U2 | U3 | U4

record table =
  st :: "nat \<Rightarrow> ph_state"
  sem :: "nat \<Rightarrow> nat"
  pc :: "nat \<Rightarrow> ph_pc"
  semadj :: "nat \<Rightarrow> nat \<Rightarrow> int"

definition LEFT :: "nat \<Rightarrow> nat" where
  "LEFT argi = (PhNum + argi - 1) mod PhNum"

definition RIGHT :: "nat \<Rightarrow> nat" where
  "RIGHT argi = (argi + 1) mod PhNum"

text \<open>
  One operation \<open>d\<close> of process \<open>i\<close> on semaphore \<open>k\<close>, with \<open>SEM_UNDO\<close>: \<open>None\<close> while the caller is blocked; the set is
  left alone when the call fails with \<open>ERANGE\<close>, which the callers do not look at.  The limits are those of the kernel,
  \<open>SEMVMX\<close> and \<open>SEMAEM\<close>.
\<close>

definition semop :: "nat \<Rightarrow> nat \<Rightarrow> int \<Rightarrow> table \<Rightarrow> table option" where
  "semop i k d s = (let v = int (sem s k) + d; a = semadj s i k - d in
     if v < 0 then None
     else if 32767 < v \<or> a < - 32768 \<or> 32767 < a then Some s
     else Some (s\<lparr>sem := (sem s)(k := nat v), semadj := (semadj s)(i := (semadj s i)(k := a))\<rparr>))"

definition p_operate :: "nat \<Rightarrow> nat \<Rightarrow> table \<Rightarrow> table option" where
  "p_operate i k s = semop i k (- 1) s"

text \<open>Adding never blocks.\<close>

definition v_operate :: "nat \<Rightarrow> nat \<Rightarrow> table \<Rightarrow> table" where
  "v_operate i k s = (case semop i k 1 s of None \<Rightarrow> s | Some s' \<Rightarrow> s')"

text \<open>Process \<open>i\<close> tests philosopher \<open>argi\<close>.\<close>

definition test :: "nat \<Rightarrow> nat \<Rightarrow> table \<Rightarrow> table" where
  "test i argi s =
     (if st s argi = HUNGRY \<and> st s (LEFT argi) \<noteq> EATING \<and> st s (RIGHT argi) \<noteq> EATING
      then v_operate i argi (s\<lparr>st := (st s)(argi := EATING)\<rparr>) else s)"

definition goto :: "nat \<Rightarrow> ph_pc \<Rightarrow> table \<Rightarrow> table" where
  "goto i x s = s\<lparr>pc := (pc s)(i := x)\<rparr>"

definition ph_step :: "nat \<Rightarrow> table \<Rightarrow> table option" where
  "ph_step i s = (case pc s i of
       Think \<Rightarrow> Some (goto i T0 s)
     | T0 \<Rightarrow> map_option (goto i T1) (p_operate i PhNum s)
     | T1 \<Rightarrow> Some (goto i T2 (s\<lparr>st := (st s)(i := HUNGRY)\<rparr>))
     | T2 \<Rightarrow> Some (goto i T3 (test i i s))
     | T3 \<Rightarrow> Some (goto i T4 (v_operate i PhNum s))
     | T4 \<Rightarrow> map_option (goto i Eat) (p_operate i i s)
     | Eat \<Rightarrow> Some (goto i U0 s)
     | U0 \<Rightarrow> map_option (goto i U1) (p_operate i PhNum s)
     | U1 \<Rightarrow> Some (goto i U2 (s\<lparr>st := (st s)(i := THINKING)\<rparr>))
     | U2 \<Rightarrow> Some (goto i U3 (test i (LEFT i) s))
     | U3 \<Rightarrow> Some (goto i U4 (test i (RIGHT i) s))
     | U4 \<Rightarrow> Some (goto i Think (v_operate i PhNum s)))"

definition ph_init :: table where
  "ph_init = \<lparr>st = (\<lambda>_. THINKING), sem = (\<lambda>k. if k = PhNum then 1 else 0), pc = (\<lambda>_. Think), semadj = (\<lambda>_ _. 0)\<rparr>"

text \<open>A philosopher that is blocked stays where it is.\<close>

definition ph_run :: "nat list \<Rightarrow> table" where
  "ph_run sched = fold (\<lambda>i s. case ph_step i s of None \<Rightarrow> s | Some s' \<Rightarrow> s') sched ph_init"

subsection \<open>The invariant of the monitor\<close>

lemma five: "i < PhNum \<Longrightarrow> i = 0 \<or> i = 1 \<or> i = 2 \<or> i = 3 \<or> i = 4"
  by linarith

lemma neighbours:
  assumes "i < PhNum"
  shows "LEFT i < PhNum" "RIGHT i < PhNum" "LEFT (RIGHT i) = i" "RIGHT (LEFT i) = i"
    "LEFT i \<noteq> i" "RIGHT i \<noteq> i" "LEFT i \<noteq> RIGHT i"
  using five[OF assms] by (auto simp: LEFT_def RIGHT_def)

definition inside :: "ph_pc \<Rightarrow> bool" where
  "inside x \<longleftrightarrow> x \<in> {T1, T2, T3, U1, U2, U3, U4}"

text \<open>The mutex is 1 exactly when nobody is between its two operations, and at most one is.\<close>

definition mutex_ok :: "table \<Rightarrow> bool" where
  "mutex_ok s \<longleftrightarrow> (\<forall>i < PhNum. \<forall>j < PhNum. inside (pc s i) \<and> inside (pc s j) \<longrightarrow> i = j) \<and>
     sem s PhNum = (if \<exists>i < PhNum. inside (pc s i) then 0 else 1)"

text \<open>What a philosopher's position says about its state and its semaphore.\<close>

fun local_ok :: "ph_pc \<Rightarrow> ph_state \<Rightarrow> nat \<Rightarrow> bool" where
  "local_ok T2 x k \<longleftrightarrow> x = HUNGRY \<and> k = 0"
| "local_ok T3 x k \<longleftrightarrow> x = HUNGRY \<and> k = 0 \<or> x = EATING \<and> k = 1"
| "local_ok T4 x k \<longleftrightarrow> x = HUNGRY \<and> k = 0 \<or> x = EATING \<and> k = 1"
| "local_ok Eat x k \<longleftrightarrow> x = EATING \<and> k = 0"
| "local_ok U0 x k \<longleftrightarrow> x = EATING \<and> k = 0"
| "local_ok U1 x k \<longleftrightarrow> x = EATING \<and> k = 0"
| "local_ok _ x k \<longleftrightarrow> x = THINKING \<and> k = 0"

text \<open>
  A hungry philosopher has a neighbour who eats, or is about to be tested: by itself, or by the
  neighbour that just stopped.
\<close>

definition served :: "table \<Rightarrow> nat \<Rightarrow> bool" where
  "served s i \<longleftrightarrow> st s (LEFT i) = EATING \<or> st s (RIGHT i) = EATING \<or> pc s i = T2 \<or>
     pc s (RIGHT i) = U2 \<or> pc s (LEFT i) = U2 \<or> pc s (LEFT i) = U3"

definition ph_inv :: "table \<Rightarrow> bool" where
  "ph_inv s \<longleftrightarrow> mutex_ok s \<and> (\<forall>i < PhNum. local_ok (pc s i) (st s i) (sem s i)) \<and>
     (\<forall>i < PhNum. st s i = EATING \<longrightarrow> st s (RIGHT i) \<noteq> EATING) \<and>
     (\<forall>i < PhNum. st s i = HUNGRY \<longrightarrow> served s i)"

lemma ph_inv_init: "ph_inv ph_init"
  by (simp add: ph_inv_def mutex_ok_def ph_init_def inside_def)

text \<open>The mutex: a step that neither enters nor leaves, one that enters, one that leaves.\<close>

lemma mutex_stay:
  assumes "mutex_ok s" "k < PhNum" "inside x = inside (pc s k)" "sem s' PhNum = sem s PhNum" "pc s' = (pc s)(k := x)"
  shows "mutex_ok s'"
proof -
  have "inside (pc s' i) = inside (pc s i)" for i using assms by simp
  then show ?thesis using assms(1,4) by (simp add: mutex_ok_def)
qed

lemma mutex_enter:
  assumes m: "mutex_ok s" and k: "k < PhNum" and x: "inside x" and f: "0 < sem s PhNum"
    and s': "sem s' PhNum = sem s PhNum - 1" "pc s' = (pc s)(k := x)"
  shows "mutex_ok s'"
proof -
  have n: "\<not> inside (pc s i)" if "i < PhNum" for i
    using m f that unfolding mutex_ok_def by (metis less_irrefl)
  then have "sem s PhNum = 1" using m unfolding mutex_ok_def by metis
  moreover have "inside (pc s' i) \<longleftrightarrow> i = k" if "i < PhNum" for i using n[OF that] x s'(2) by simp
  ultimately show ?thesis using s'(1) k by (auto simp: mutex_ok_def)
qed

lemma mutex_leave:
  assumes m: "mutex_ok s" and k: "k < PhNum" and x: "inside (pc s k)" "\<not> inside x"
    and s': "sem s' PhNum = sem s PhNum + 1" "pc s' = (pc s)(k := x)"
  shows "mutex_ok s'"
proof -
  have "sem s PhNum = 0" using m k x(1) unfolding mutex_ok_def by metis
  moreover have "\<not> inside (pc s' i)" if "i < PhNum" for i
    using m k x that s'(2) unfolding mutex_ok_def by (cases "i = k") auto
  ultimately show ?thesis using s'(1) by (auto simp: mutex_ok_def)
qed

text \<open>The rest of the invariant over a step of philosopher \<open>k\<close> that leaves the states alone.\<close>

definition rest_ok :: "table \<Rightarrow> bool" where
  "rest_ok s \<longleftrightarrow> (\<forall>i < PhNum. local_ok (pc s i) (st s i) (sem s i)) \<and>
     (\<forall>i < PhNum. st s i = EATING \<longrightarrow> st s (RIGHT i) \<noteq> EATING) \<and>
     (\<forall>i < PhNum. st s i = HUNGRY \<longrightarrow> served s i)"

lemma ph_inv_rest: "ph_inv s \<longleftrightarrow> mutex_ok s \<and> rest_ok s"
  by (simp add: ph_inv_def rest_ok_def)

lemma rest_move:
  assumes r: "rest_ok s" and k: "k < PhNum" and same: "st s' = st s" "pc s' = (pc s)(k := x)"
    "\<And>i. i < PhNum \<Longrightarrow> i \<noteq> k \<Longrightarrow> sem s' i = sem s i"
    and l: "local_ok x (st s k) (sem s' k)"
    and sv: "\<And>i. i < PhNum \<Longrightarrow> st s i = HUNGRY \<Longrightarrow> served s i \<Longrightarrow> served s' i"
  shows "rest_ok s'"
  unfolding rest_ok_def
proof (intro conjI allI impI)
  fix i assume i: "i < PhNum"
  show "local_ok (pc s' i) (st s' i) (sem s' i)"
    using r i l same by (cases "i = k") (simp_all add: rest_ok_def)
  show "st s' (RIGHT i) \<noteq> EATING" if "st s' i = EATING" using r i that same(1) by (simp add: rest_ok_def)
  show "served s' i" if "st s' i = HUNGRY" using sv[OF i] r i that same(1) by (simp add: rest_ok_def)
qed

text \<open>Leaving a position that serves nobody.\<close>

lemma served_move:
  assumes "st s' = st s" "pc s' = (pc s)(k := x)" "pc s k \<notin> {T2, U2, U3}" "served s i"
  shows "served s' i"
proof -
  have q: "pc s y = z \<Longrightarrow> z \<in> {T2, U2, U3} \<Longrightarrow> pc s' y = z" for y z
    using assms(2,3) by (cases "y = k") auto
  show ?thesis using assms(1,4) q[of _ T2] q[of _ U2] q[of _ U3] unfolding served_def by auto
qed

text \<open>Room for one more operation of \<open>i\<close>.\<close>

definition undo_room :: "nat \<Rightarrow> table \<Rightarrow> bool" where
  "undo_room i s \<longleftrightarrow> (\<forall>k. \<bar>semadj s i k\<bar> < 32767)"

definition shift :: "nat \<Rightarrow> nat \<Rightarrow> int \<Rightarrow> table \<Rightarrow> nat \<Rightarrow> nat \<Rightarrow> int" where
  "shift i k d s = (semadj s)(i := (semadj s i)(k := semadj s i k + d))"

lemma semop_room:
  assumes "undo_room i s" "sem s k \<le> 1" "d = 1 \<or> d = - 1"
  shows "semop i k d s = (if int (sem s k) + d < 0 then None
    else Some (s\<lparr>sem := (sem s)(k := nat (int (sem s k) + d)), semadj := shift i k (- d) s\<rparr>))"
proof -
  have "\<bar>semadj s i k\<bar> < 32767" using assms(1) by (simp add: undo_room_def)
  then have "- 32768 \<le> semadj s i k - d" "semadj s i k - d \<le> 32767" "int (sem s k) + d \<le> 32767" using assms(2,3) by auto
  then show ?thesis by (simp add: semop_def shift_def Let_def)
qed

lemma p_operate_room:
  assumes "undo_room i s" "sem s k \<le> 1"
  shows "p_operate i k s =
    (if 0 < sem s k then Some (s\<lparr>sem := (sem s)(k := sem s k - 1), semadj := shift i k 1 s\<rparr>) else None)"
  using semop_room[OF assms, of "- 1"] by (simp add: p_operate_def nat_diff_distrib')

lemma v_operate_room:
  assumes "undo_room i s" "sem s k \<le> 1"
  shows "v_operate i k s = s\<lparr>sem := (sem s)(k := sem s k + 1), semadj := shift i k (- 1) s\<rparr>"
  using semop_room[OF assms, of 1] by (simp add: v_operate_def nat_add_distrib)

lemma test_cases [consumes 2, case_names eat wait]:
  assumes "undo_room i s" "sem s j \<le> 1"
  obtains (eat) "st s j = HUNGRY" "st s (LEFT j) \<noteq> EATING" "st s (RIGHT j) \<noteq> EATING"
      "test i j s = s\<lparr>st := (st s)(j := EATING), sem := (sem s)(j := sem s j + 1), semadj := shift i j (- 1) s\<rparr>"
  | (wait) "test i j s = s" "st s j = HUNGRY \<longrightarrow> st s (LEFT j) = EATING \<or> st s (RIGHT j) = EATING"
proof (cases "st s j = HUNGRY \<and> st s (LEFT j) \<noteq> EATING \<and> st s (RIGHT j) \<noteq> EATING")
  case True
  have "undo_room i (s\<lparr>st := (st s)(j := EATING)\<rparr>)" using assms(1) by (simp add: undo_room_def)
  from v_operate_room[OF this, of j] show ?thesis using True assms(2) eat by (simp add: test_def shift_def)
next
  case False
  then show ?thesis using wait by (auto simp: test_def)
qed

text \<open>A test of \<open>j\<close> by \<open>k\<close>, which then moves from \<open>pc s k\<close> to \<open>x\<close>.\<close>

lemma rest_test:
  assumes r: "rest_ok s" and u: "undo_room k s" and j1: "sem s j \<le> 1" and k: "k < PhNum" and j: "j < PhNum"
    and l: "local_ok x (st (test k j s) k) (sem (test k j s) k)"
    and wait: "st s j = HUNGRY \<longrightarrow> j \<noteq> k \<longrightarrow> pc s j = T4"
    and sv: "\<And>i. i < PhNum \<Longrightarrow> i \<noteq> j \<Longrightarrow> served s i \<Longrightarrow> served (goto k x s) i"
  shows "rest_ok (goto k x (test k j s))"
using u j1
proof (cases rule: test_cases)
  case eat
  let ?s = "goto k x (test k j s)"
  have s': "st ?s = (st s)(j := EATING)" "pc ?s = (pc s)(k := x)" "sem ?s = (sem s)(j := sem s j + 1)"
    using eat(4) by (simp_all add: goto_def)
  note nb = neighbours
  show ?thesis
    unfolding rest_ok_def
  proof (intro conjI allI impI)
    fix i assume i: "i < PhNum"
    show "local_ok (pc ?s i) (st ?s i) (sem ?s i)"
    proof (cases "i = k")
      case True
      then show ?thesis using l by (simp add: goto_def)
    next
      case nk: False
      have "local_ok (pc s i) (st s i) (sem s i)" using r i by (simp add: rest_ok_def)
      then show ?thesis using nk s' wait eat(1) by (cases "i = j") auto
    qed
    show "st ?s (RIGHT i) \<noteq> EATING" if "st ?s i = EATING"
    proof (cases "i = j")
      case True
      then show ?thesis using s'(1) eat(3) nb(6)[OF j] by simp
    next
      case False
      then have e: "st s i = EATING" using that s'(1) by simp
      then have "RIGHT i \<noteq> j" using nb(3)[OF i] eat(2) by auto
      then show ?thesis using r i e s'(1) by (simp add: rest_ok_def)
    qed
    show "served ?s i" if "st ?s i = HUNGRY"
    proof -
      have ij: "i \<noteq> j" "st s i = HUNGRY" using that s'(1) by (auto split: if_splits)
      then have "served (goto k x s) i" using r i sv by (simp add: rest_ok_def)
      then show ?thesis using s' by (auto simp: served_def goto_def)
    qed
  qed
next
  case wait: wait
  show ?thesis
  proof (rule rest_move[OF r k])
    show "st (goto k x (test k j s)) = st s" "pc (goto k x (test k j s)) = (pc s)(k := x)"
      "sem (goto k x (test k j s)) i = sem s i" for i
      using wait(1) by (simp_all add: goto_def)
    show "local_ok x (st s k) (sem (goto k x (test k j s)) k)" using l wait(1) by (simp add: goto_def)
    fix i assume i: "i < PhNum" "st s i = HUNGRY" "served s i"
    show "served (goto k x (test k j s)) i"
    proof (cases "i = j")
      case True
      then show ?thesis using wait i by (auto simp: served_def goto_def)
    next
      case False
      then show ?thesis using sv[OF i(1) False i(3)] wait(1) by simp
    qed
  qed
qed

lemma rest_set:
  assumes r: "rest_ok s" and k: "k < PhNum" and s': "st s' = (st s)(k := y)" "pc s' = (pc s)(k := x)" "sem s' = sem s"
    and y: "y \<noteq> EATING" "local_ok x y (sem s k)" "y = HUNGRY \<longrightarrow> x = T2" "st s k = EATING \<longrightarrow> x = U2"
    and pk: "pc s k \<notin> {T2, U2, U3}"
  shows "rest_ok s'"
  unfolding rest_ok_def
proof (intro conjI allI impI)
  fix i assume i: "i < PhNum"
  show "local_ok (pc s' i) (st s' i) (sem s' i)"
    using r i s' y(2) by (cases "i = k") (simp_all add: rest_ok_def)
  show "st s' (RIGHT i) \<noteq> EATING" if "st s' i = EATING"
    using r i that s'(1) y(1) by (auto simp: rest_ok_def split: if_splits)
  show "served s' i" if "st s' i = HUNGRY"
  proof (cases "i = k")
    case True
    then show ?thesis using that s' y(3) by (simp add: served_def)
  next
    case False
    then have sv: "served s i" using r i that s'(1) by (simp add: rest_ok_def)
    have e: "st s z = EATING \<Longrightarrow> st s' z = EATING \<or> pc s' z = U2" for z
      using s' y(4) by (cases "z = k") auto
    have q: "pc s z = w \<Longrightarrow> w \<in> {T2, U2, U3} \<Longrightarrow> pc s' z = w" for z w
      using s'(2) pk by (cases "z = k") auto
    show ?thesis using sv e q[of _ T2] q[of _ U2] q[of _ U3] unfolding served_def by blast
  qed
qed

text \<open>Inside the mutex nobody else is in a position that its owner could disturb.\<close>

lemma alone:
  assumes "mutex_ok s" "k < PhNum" "inside (pc s k)" "j < PhNum" "j \<noteq> k"
  shows "\<not> inside (pc s j)"
  using assms unfolding mutex_ok_def by blast

lemma alone_hungry:
  assumes "ph_inv s" "k < PhNum" "inside (pc s k)" "j < PhNum" "j \<noteq> k" "st s j = HUNGRY"
  shows "pc s j = T4"
proof -
  have "local_ok (pc s j) (st s j) (sem s j)" using assms(1,4) by (simp add: ph_inv_def)
  moreover have "\<not> inside (pc s j)" using alone[of s k j] assms by (simp add: ph_inv_def)
  ultimately show ?thesis using assms(6) by (cases "pc s j") (simp_all add: inside_def)
qed

lemma test_same [simp]: "pc (test i j s) = pc s" "j < PhNum \<Longrightarrow> sem (test i j s) PhNum = sem s PhNum"
  by (simp_all add: test_def v_operate_def semop_def Let_def)

lemma ph_inv_sem:
  assumes "ph_inv s" "k \<le> PhNum"
  shows "sem s k \<le> 1"
proof (cases "k = PhNum")
  case True
  then show ?thesis using assms by (simp add: ph_inv_def mutex_ok_def)
next
  case False
  then have "local_ok (pc s k) (st s k) (sem s k)" using assms by (simp add: ph_inv_def)
  then show ?thesis by (cases "pc s k") auto
qed

lemma ph_inv_step:
  assumes I: "ph_inv s" and u: "undo_room k s" and k: "k < PhNum" and S: "ph_step k s = Some s'"
  shows "ph_inv s'"
proof -
  have m: "mutex_ok s" and r: "rest_ok s" using I by (simp_all add: ph_inv_rest)
  have l: "local_ok (pc s k) (st s k) (sem s k)" using I k by (simp add: ph_inv_def)
  have sv1: "sem s j \<le> 1" if "j < PhNum" for j using ph_inv_sem[OF I] that by simp
  have P: "j \<le> PhNum \<Longrightarrow> p_operate k j s =
      (if 0 < sem s j then Some (s\<lparr>sem := (sem s)(j := sem s j - 1), semadj := shift k j 1 s\<rparr>) else None)" for j
    using p_operate_room[OF u ph_inv_sem[OF I]] by blast
  have V: "v_operate k PhNum s = s\<lparr>sem := (sem s)(PhNum := sem s PhNum + 1), semadj := shift k PhNum (- 1) s\<rparr>"
    by (rule v_operate_room[OF u]) (use ph_inv_sem[OF I, of PhNum] in simp)
  note kn = neighbours[OF k]
  have k5: "k \<noteq> PhNum" using k by simp
  have move: "served s' i"
    if "st s' = st s" "pc s' = (pc s)(k := x)" "pc s k \<notin> {T2, U2, U3}" "served s i" for i x
    by (rule served_move[OF that])
  show ?thesis
  proof (cases "pc s k")
    case Think
    then have s': "s' = goto k T0 s" using S by (simp add: ph_step_def)
    have "mutex_ok s'" by (rule mutex_stay[OF m k, of T0]) (simp_all add: s' goto_def Think inside_def)
    moreover have "rest_ok s'"
      by (rule rest_move[OF r k, of _ T0]) (use l Think move[of T0] in \<open>simp_all add: s' goto_def\<close>)
    ultimately show ?thesis by (simp add: ph_inv_rest)
  next
    case T0
    then have s': "s' = goto k T1 (s\<lparr>sem := (sem s)(PhNum := sem s PhNum - 1), semadj := shift k PhNum 1 s\<rparr>)" "0 < sem s PhNum"
      using S P[of PhNum] P[of k] k by (auto simp: ph_step_def split: if_splits)
    have "mutex_ok s'" by (rule mutex_enter[OF m k _ s'(2), of T1]) (simp_all add: s'(1) goto_def inside_def)
    moreover have "rest_ok s'"
      by (rule rest_move[OF r k, of _ T1]) (use l T0 move[of T1] k5 in \<open>simp_all add: s'(1) goto_def\<close>)
    ultimately show ?thesis by (simp add: ph_inv_rest)
  next
    case T1
    then have s': "s' = goto k T2 (s\<lparr>st := (st s)(k := HUNGRY)\<rparr>)" using S by (simp add: ph_step_def)
    have "mutex_ok s'" by (rule mutex_stay[OF m k, of T2]) (simp_all add: s' goto_def T1 inside_def)
    moreover have "rest_ok s'"
      by (rule rest_set[OF r k, of _ HUNGRY T2]) (use l T1 in \<open>simp_all add: s' goto_def\<close>)
    ultimately show ?thesis by (simp add: ph_inv_rest)
  next
    case T2
    then have s': "s' = goto k T3 (test k k s)" using S by (simp add: ph_step_def)
    have "mutex_ok s'" by (rule mutex_stay[OF m k, of T3]) (use k in \<open>simp_all add: s' goto_def T2 inside_def\<close>)
    moreover have "local_ok T3 (st (test k k s) k) (sem (test k k s) k)"
      using l T2 by (cases rule: test_cases[OF u sv1[OF k]]) simp_all
    then have "rest_ok s'" unfolding s'
    proof (rule rest_test[OF r u sv1[OF k] k k])
      fix i assume "i \<noteq> k" "served s i"
      then show "served (goto k T3 s) i" using T2 by (auto simp: served_def goto_def)
    qed simp
    ultimately show ?thesis by (simp add: ph_inv_rest)
  next
    case T3
    then have s': "s' = goto k T4 (v_operate k PhNum s)" using S by (simp add: ph_step_def)
    have "mutex_ok s'" by (rule mutex_leave[OF m k, of T4]) (simp_all add: s' goto_def V T3 inside_def)
    moreover have "rest_ok s'"
      by (rule rest_move[OF r k, of _ T4]) (use l T3 move[of T4] k5 in \<open>simp_all add: s' goto_def V\<close>)
    ultimately show ?thesis by (simp add: ph_inv_rest)
  next
    case T4
    then have s': "s' = goto k Eat (s\<lparr>sem := (sem s)(k := sem s k - 1), semadj := shift k k 1 s\<rparr>)" "0 < sem s k"
      using S P[of PhNum] P[of k] k by (auto simp: ph_step_def split: if_splits)
    have "mutex_ok s'" by (rule mutex_stay[OF m k, of Eat]) (use k5 in \<open>simp_all add: s' goto_def T4 inside_def\<close>)
    moreover have "rest_ok s'"
      by (rule rest_move[OF r k, of _ Eat]) (use l T4 s'(2) move[of Eat] in \<open>auto simp: s'(1) goto_def\<close>)
    ultimately show ?thesis by (simp add: ph_inv_rest)
  next
    case Eat
    then have s': "s' = goto k U0 s" using S by (simp add: ph_step_def)
    have "mutex_ok s'" by (rule mutex_stay[OF m k, of U0]) (simp_all add: s' goto_def Eat inside_def)
    moreover have "rest_ok s'"
      by (rule rest_move[OF r k, of _ U0]) (use l Eat move[of U0] in \<open>simp_all add: s' goto_def\<close>)
    ultimately show ?thesis by (simp add: ph_inv_rest)
  next
    case U0
    then have s': "s' = goto k U1 (s\<lparr>sem := (sem s)(PhNum := sem s PhNum - 1), semadj := shift k PhNum 1 s\<rparr>)" "0 < sem s PhNum"
      using S P[of PhNum] P[of k] k by (auto simp: ph_step_def split: if_splits)
    have "mutex_ok s'" by (rule mutex_enter[OF m k _ s'(2), of U1]) (simp_all add: s'(1) goto_def inside_def)
    moreover have "rest_ok s'"
      by (rule rest_move[OF r k, of _ U1]) (use l U0 move[of U1] k5 in \<open>simp_all add: s'(1) goto_def\<close>)
    ultimately show ?thesis by (simp add: ph_inv_rest)
  next
    case U1
    then have s': "s' = goto k U2 (s\<lparr>st := (st s)(k := THINKING)\<rparr>)" using S by (simp add: ph_step_def)
    have "mutex_ok s'" by (rule mutex_stay[OF m k, of U2]) (simp_all add: s' goto_def U1 inside_def)
    moreover have "rest_ok s'"
      by (rule rest_set[OF r k, of _ THINKING U2]) (use l U1 in \<open>simp_all add: s' goto_def\<close>)
    ultimately show ?thesis by (simp add: ph_inv_rest)
  next
    case U2
    then have s': "s' = goto k U3 (test k (LEFT k) s)" using S by (simp add: ph_step_def)
    have "mutex_ok s'" by (rule mutex_stay[OF m k, of U3]) (use kn in \<open>simp_all add: s' goto_def U2 inside_def\<close>)
    moreover have "local_ok U3 (st (test k (LEFT k) s) k) (sem (test k (LEFT k) s) k)"
      using l U2 kn by (cases rule: test_cases[OF u sv1[OF kn(1)]]) simp_all
    then have "rest_ok s'" unfolding s'
    proof (rule rest_test[OF r u sv1[OF kn(1)] k kn(1)])
      show "st s (LEFT k) = HUNGRY \<longrightarrow> LEFT k \<noteq> k \<longrightarrow> pc s (LEFT k) = T4"
        using alone_hungry[OF I k _ kn(1)] U2 by (simp add: inside_def)
      fix i assume i: "i < PhNum" "i \<noteq> LEFT k" "served s i"
      then have "RIGHT i \<noteq> k" using neighbours(3)[OF i(1)] by auto
      then show "served (goto k U3 s) i" using i(3) U2 by (auto simp: served_def goto_def)
    qed
    ultimately show ?thesis by (simp add: ph_inv_rest)
  next
    case U3
    then have s': "s' = goto k U4 (test k (RIGHT k) s)" using S by (simp add: ph_step_def)
    have "mutex_ok s'" by (rule mutex_stay[OF m k, of U4]) (use kn in \<open>simp_all add: s' goto_def U3 inside_def\<close>)
    moreover have "local_ok U4 (st (test k (RIGHT k) s) k) (sem (test k (RIGHT k) s) k)"
      using l U3 kn by (cases rule: test_cases[OF u sv1[OF kn(2)]]) simp_all
    then have "rest_ok s'" unfolding s'
    proof (rule rest_test[OF r u sv1[OF kn(2)] k kn(2)])
      show "st s (RIGHT k) = HUNGRY \<longrightarrow> RIGHT k \<noteq> k \<longrightarrow> pc s (RIGHT k) = T4"
        using alone_hungry[OF I k _ kn(2)] U3 by (simp add: inside_def)
      fix i assume i: "i < PhNum" "i \<noteq> RIGHT k" "served s i"
      then have "LEFT i \<noteq> k" using neighbours(4)[OF i(1)] by auto
      then show "served (goto k U4 s) i" using i(3) U3 by (auto simp: served_def goto_def)
    qed
    ultimately show ?thesis by (simp add: ph_inv_rest)
  next
    case U4
    then have s': "s' = goto k Think (v_operate k PhNum s)" using S by (simp add: ph_step_def)
    have "mutex_ok s'" by (rule mutex_leave[OF m k, of Think]) (simp_all add: s' goto_def V U4 inside_def)
    moreover have "rest_ok s'"
      by (rule rest_move[OF r k, of _ Think]) (use l U4 move[of Think] k5 in \<open>simp_all add: s' goto_def V\<close>)
    ultimately show ?thesis by (simp add: ph_inv_rest)
  qed
qed

lemma ph_run_snoc: "ph_run (sched @ [k]) = (case ph_step k (ph_run sched) of None \<Rightarrow> ph_run sched | Some s' \<Rightarrow> s')"
  unfolding ph_run_def by simp

text \<open>A step changes one adjustment of its process, by one.\<close>

lemma semop_adj: "semop i k d s = Some s' \<Longrightarrow> \<bar>d\<bar> \<le> 1 \<Longrightarrow> \<bar>semadj s' j x\<bar> \<le> \<bar>semadj s j x\<bar> + (if j = i then 1 else 0)"
  by (auto simp: semop_def Let_def split: if_splits)

lemma v_operate_adj: "\<bar>semadj (v_operate i k s) j x\<bar> \<le> \<bar>semadj s j x\<bar> + (if j = i then 1 else 0)"
  using semop_adj[of i k 1 s _ j x] by (auto simp: v_operate_def split: option.split)

lemma test_adj: "\<bar>semadj (test i k s) j x\<bar> \<le> \<bar>semadj s j x\<bar> + (if j = i then 1 else 0)"
  using v_operate_adj[of i k "s\<lparr>st := (st s)(k := EATING)\<rparr>" j x] by (auto simp: test_def)

lemma ph_step_adj: "ph_step i s = Some s' \<Longrightarrow> \<bar>semadj s' j x\<bar> \<le> \<bar>semadj s j x\<bar> + (if j = i then 1 else 0)"
  using v_operate_adj[of i _ s j x] test_adj[of i _ s j x] semop_adj[of i _ "- 1" s _ j x]
  by (cases "pc s i") (auto simp: ph_step_def goto_def p_operate_def)

lemma ph_run_adj: "\<bar>semadj (ph_run sched) j x\<bar> \<le> int (count_list sched j)"
proof (induction sched rule: rev_induct)
  case Nil
  then show ?case by (simp add: ph_run_def ph_init_def)
next
  case (snoc i sched)
  then show ?case using ph_step_adj[of i "ph_run sched" _ j x] by (fastforce simp: ph_run_snoc split: option.split)
qed

lemma ph_run_inv: "set sched \<subseteq> {..<PhNum} \<Longrightarrow> \<forall>i < PhNum. count_list sched i \<le> 32767 \<Longrightarrow> ph_inv (ph_run sched)"
proof (induction sched rule: rev_induct)
  case Nil
  then show ?case using ph_inv_init by (simp add: ph_run_def)
next
  case (snoc k sched)
  then have k: "k < PhNum" by simp
  have "\<forall>i < PhNum. count_list sched i \<le> 32767" using snoc.prems(2) by (auto intro: order_trans[rotated])
  then have I: "ph_inv (ph_run sched)" using snoc by simp
  have "count_list sched k < 32767" using snoc.prems(2) k by fastforce
  then have "undo_room k (ph_run sched)"
    unfolding undo_room_def using ph_run_adj[of sched k] by (meson le_less_trans of_nat_less_numeral_iff)
  then show ?case using ph_inv_step[OF I _ k] I by (auto simp: ph_run_snoc split: option.splits)
qed

lemma ph_free_served:
  assumes I: "ph_inv s" and free: "\<forall>j < PhNum. \<not> inside (pc s j)" and i: "i < PhNum" "st s i = HUNGRY"
  shows "st s (LEFT i) = EATING \<or> st s (RIGHT i) = EATING"
proof -
  have "served s i" using I i by (simp add: ph_inv_def)
  moreover have "pc s i \<noteq> T2" "pc s (LEFT i) \<noteq> U2" "pc s (LEFT i) \<noteq> U3" "pc s (RIGHT i) \<noteq> U2"
    using free i(1) neighbours[OF i(1)] by (auto simp: inside_def)
  ultimately show ?thesis by (simp add: served_def)
qed

lemma ph_no_deadlock:
  assumes I: "ph_inv s"
  shows "\<exists>k < PhNum. ph_step k s \<noteq> None"
proof (rule ccontr)
  assume "\<not> ?thesis"
  then have b: "ph_step k s = None" if "k < PhNum" for k using that by blast
  have w: "pc s k \<in> {T0, U0, T4}" if "k < PhNum" for k
    using b[OF that] by (cases "pc s k") (simp_all add: ph_step_def)
  then have free: "\<forall>j < PhNum. \<not> inside (pc s j)" by (fastforce simp: inside_def)
  then have m: "sem s PhNum = 1" using I unfolding ph_inv_def mutex_ok_def by auto
  have t: "st s k = HUNGRY" if k: "k < PhNum" for k
  proof -
    have "pc s k = T4" "sem s k = 0"
      using w[OF k] b[OF k] m by (auto simp: ph_step_def p_operate_def semop_def Let_def split: if_splits)
    then show ?thesis using I k by (auto simp: ph_inv_def)
  qed
  have "(0::nat) < PhNum" by simp
  from ph_free_served[OF I free this t[OF this]] show False
    using t neighbours[of 0] by auto
qed

text \<open>
  C30. In every state that a schedule with at most 32767 steps of each of the five processes can reach while none is
  killed (so many \<open>SEM_UNDO\<close> leaves room for), no two neighbours eat, at most
  one process is inside the mutex, some process can go on, and whenever nobody is inside the mutex a
  philosopher that waits has a neighbour who eats or has just been let in: nobody waits for free forks.
\<close>

theorem dining_monitor:
  assumes "set sched \<subseteq> {..<PhNum}" "\<forall>i < PhNum. count_list sched i \<le> 32767"
  shows "(\<forall>i < PhNum. pc (ph_run sched) i = Eat \<longrightarrow> pc (ph_run sched) (RIGHT i) \<noteq> Eat) \<and>
    (\<forall>i < PhNum. \<forall>j < PhNum. inside (pc (ph_run sched) i) \<and> inside (pc (ph_run sched) j) \<longrightarrow> i = j) \<and>
    (\<exists>k < PhNum. ph_step k (ph_run sched) \<noteq> None) \<and>
    (sem (ph_run sched) PhNum = 1 \<longrightarrow>
      (\<forall>i < PhNum. pc (ph_run sched) i = T4 \<and> sem (ph_run sched) i = 0 \<longrightarrow>
        st (ph_run sched) (LEFT i) = EATING \<or> st (ph_run sched) (RIGHT i) = EATING))"
proof -
  define s where "s = ph_run sched"
  have I: "ph_inv s" unfolding s_def by (rule ph_run_inv[OF assms])
  have l: "local_ok (pc s i) (st s i) (sem s i)" if "i < PhNum" for i using I that by (simp add: ph_inv_def)
  have e: "st s i = EATING" if "i < PhNum" "pc s i = Eat" for i using l[OF that(1)] that(2) by simp
  have 1: "\<forall>i < PhNum. pc s i = Eat \<longrightarrow> pc s (RIGHT i) \<noteq> Eat"
  proof (intro allI impI notI)
    fix i assume i: "i < PhNum" "pc s i = Eat" "pc s (RIGHT i) = Eat"
    then have "st s i = EATING" "st s (RIGHT i) = EATING" using e neighbours(2)[OF i(1)] by simp_all
    then show False using I i(1) unfolding ph_inv_def by blast
  qed
  have 2: "\<forall>i < PhNum. \<forall>j < PhNum. inside (pc s i) \<and> inside (pc s j) \<longrightarrow> i = j"
    using I unfolding ph_inv_def mutex_ok_def by blast
  have "st s (LEFT i) = EATING \<or> st s (RIGHT i) = EATING"
    if f: "sem s PhNum = 1" and i: "i < PhNum" "pc s i = T4" "sem s i = 0" for i
  proof -
    have "\<forall>j < PhNum. \<not> inside (pc s j)" using I f unfolding ph_inv_def mutex_ok_def by (metis zero_neq_one)
    moreover have "st s i = HUNGRY" using l[OF i(1)] i by simp
    ultimately show ?thesis using ph_free_served[OF I] i(1) by blast
  qed
  then have 3: "sem s PhNum = 1 \<longrightarrow> (\<forall>i < PhNum. pc s i = T4 \<and> sem s i = 0 \<longrightarrow>
      st s (LEFT i) = EATING \<or> st s (RIGHT i) = EATING)" by blast
  show ?thesis unfolding s_def[symmetric] by (intro conjI 1 2 3 ph_no_deadlock[OF I])
qed

text \<open>The operation on a table written out, for evaluating a run step by step.\<close>

lemma semop_table: "semop i k d \<lparr>st = a, sem = b, pc = c, semadj = e\<rparr> =
  (if int (b k) + d < 0 then None
   else if 32767 < int (b k) + d \<or> e i k - d < - 32768 \<or> 32767 < e i k - d
   then Some \<lparr>st = a, sem = b, pc = c, semadj = e\<rparr>
   else Some \<lparr>st = a, sem = b(k := nat (int (b k) + d)), pc = c, semadj = e(i := (e i)(k := e i k - d))\<rparr>)"
  by (simp add: semop_def Let_def)

lemma two_hungry: "ph_run [0, 0, 0, 0, 0, 0, 1, 1, 1, 1, 1] =
  \<lparr>st = (\<lambda>_. THINKING)(0 := EATING, Suc 0 := HUNGRY),
   sem = (\<lambda>k. if k = PhNum then 1 else 0)(0 := 0, PhNum := Suc 0),
   pc = (\<lambda>_. Think)(0 := Eat, Suc 0 := T4),
   semadj = (\<lambda>_ _. 0)(0 := (\<lambda>_. 0)(PhNum := 0, 0 := 0), Suc 0 := (\<lambda>_. 0)(PhNum := 0))\<rparr>"
  by (simp add: ph_run_def ph_step_def ph_init_def goto_def p_operate_def v_operate_def semop_table test_def LEFT_def RIGHT_def)

text \<open>In the witness philosopher 0 eats and philosopher 1 has to wait.\<close>

theorem dining_monitor_witness:
  "pc (ph_run [0, 0, 0, 0, 0, 0, 1, 1, 1, 1, 1]) 0 = Eat \<and> st (ph_run [0, 0, 0, 0, 0, 0, 1, 1, 1, 1, 1]) 1 = HUNGRY \<and>
   pc (ph_run [0, 0, 0, 0, 0, 0, 1, 1, 1, 1, 1]) 1 \<noteq> Eat"
proof -
  let ?sched = "[0, 0, 0, 0, 0, 0, 1, 1, 1, 1, 1]"
  have e: "pc (ph_run ?sched) 0 = Eat" "st (ph_run ?sched) 1 = HUNGRY"
    unfolding two_hungry by simp_all
  have "\<forall>i < PhNum. count_list ?sched i \<le> 32767"
  proof (intro allI impI)
    fix i show "count_list ?sched i \<le> 32767" by (rule order_trans[OF count_le_length]) simp
  qed
  from dining_monitor[OF _ this, THEN conjunct1] have "pc (ph_run ?sched) (RIGHT 0) \<noteq> Eat" using e(1) by simp
  then show ?thesis using e by (simp add: RIGHT_def)
qed

subsection \<open>Forks tried without waiting\<close>

text \<open>
  The position of a thread: the three states of the switch, and the points between two semaphore calls.
\<close>

datatype fork_pc = F_THINKING | F_HUNGRY | F_left | F_back | F_DINING | F_posted

record forks =
  semph :: "nat \<Rightarrow> nat"
  fpc :: "nat \<Rightarrow> fork_pc"

definition leftFork :: "nat \<Rightarrow> nat" where
  "leftFork myid = myid mod PhNum"

definition rightFork :: "nat \<Rightarrow> nat" where
  "rightFork myid = (myid + 1) mod PhNum"

definition sem_trywait :: "nat \<Rightarrow> forks \<Rightarrow> forks option" where
  "sem_trywait k s = (if 0 < semph s k then Some (s\<lparr>semph := (semph s)(k := semph s k - 1)\<rparr>) else None)"

definition sem_post :: "nat \<Rightarrow> forks \<Rightarrow> forks" where
  "sem_post k s = s\<lparr>semph := (semph s)(k := semph s k + 1)\<rparr>"

definition fgoto :: "nat \<Rightarrow> fork_pc \<Rightarrow> forks \<Rightarrow> forks" where
  "fgoto i x s = s\<lparr>fpc := (fpc s)(i := x)\<rparr>"

definition fork_step :: "nat \<Rightarrow> forks \<Rightarrow> forks" where
  "fork_step i s = (case fpc s i of
       F_THINKING \<Rightarrow> fgoto i F_HUNGRY s
     | F_HUNGRY \<Rightarrow> (case sem_trywait (leftFork i) s of None \<Rightarrow> s | Some s' \<Rightarrow> fgoto i F_left s')
     | F_left \<Rightarrow> (case sem_trywait (rightFork i) s of None \<Rightarrow> fgoto i F_back s | Some s' \<Rightarrow> fgoto i F_DINING s')
     | F_back \<Rightarrow> fgoto i F_HUNGRY (sem_post (leftFork i) s)
     | F_DINING \<Rightarrow> fgoto i F_posted (sem_post (leftFork i) s)
     | F_posted \<Rightarrow> fgoto i F_THINKING (sem_post (rightFork i) s))"

definition fork_init :: forks where
  "fork_init = \<lparr>semph = (\<lambda>_. 1), fpc = (\<lambda>_. F_THINKING)\<rparr>"

definition fork_run :: "nat list \<Rightarrow> forks \<Rightarrow> forks" where
  "fork_run sched s = fold fork_step sched s"

text \<open>Fork \<open>k\<close> lies on the table, or philosopher \<open>k\<close> has it in the left or the other one in the right hand.\<close>

definition in_left :: "fork_pc \<Rightarrow> nat" where
  "in_left x = (if x \<in> {F_left, F_back, F_DINING} then 1 else 0)"

definition in_right :: "fork_pc \<Rightarrow> nat" where
  "in_right x = (if x \<in> {F_DINING, F_posted} then 1 else 0)"

definition fork_inv :: "forks \<Rightarrow> bool" where
  "fork_inv s \<longleftrightarrow> (\<forall>k < PhNum. semph s k + in_left (fpc s k) + in_right (fpc s (LEFT k)) = 1)"

lemma fork_inv_change:
  assumes I: "fork_inv s" and i: "i < PhNum"
    and p: "fpc s' = (fpc s)(i := x)"
    and l: "semph s' i + in_left x = semph s i + in_left (fpc s i)"
    and r: "semph s' (RIGHT i) + in_right x = semph s (RIGHT i) + in_right (fpc s i)"
    and o: "\<And>k. k \<noteq> i \<Longrightarrow> k \<noteq> RIGHT i \<Longrightarrow> semph s' k = semph s k"
  shows "fork_inv s'"
  unfolding fork_inv_def
proof (intro allI impI)
  fix k assume k: "k < PhNum"
  have e: "semph s k + in_left (fpc s k) + in_right (fpc s (LEFT k)) = 1" using I k by (simp add: fork_inv_def)
  consider (own) "k = i" | (right) "k = RIGHT i" "k \<noteq> i" | (other) "k \<noteq> i" "k \<noteq> RIGHT i" by blast
  then show "semph s' k + in_left (fpc s' k) + in_right (fpc s' (LEFT k)) = 1"
  proof cases
    case own
    have "LEFT k \<noteq> i" using own neighbours(5)[OF i] by simp
    then show ?thesis using e l own p by simp
  next
    case right
    have "LEFT k = i" using right(1) neighbours(3)[OF i] by simp
    then show ?thesis using e r right p by simp
  next
    case other
    have "LEFT k \<noteq> i" using other(2) neighbours(4)[OF k] by auto
    then show ?thesis using e o[OF other] other(1) p by simp
  qed
qed

lemma fork_inv_step:
  assumes I: "fork_inv s" and i: "i < PhNum"
  shows "fork_inv (fork_step i s)"
proof -
  have f: "leftFork i = i" "rightFork i = RIGHT i" using i by (simp_all add: leftFork_def rightFork_def RIGHT_def)
  have n: "RIGHT i \<noteq> i" by (rule neighbours(6)[OF i])
  note defs = fork_step_def fgoto_def sem_trywait_def sem_post_def f in_left_def in_right_def
  show ?thesis
  proof (cases "fpc s i")
    case F_THINKING
    show ?thesis by (rule fork_inv_change[OF I i, of _ F_HUNGRY]) (simp_all add: defs F_THINKING)
  next
    case F_HUNGRY
    show ?thesis
    proof (cases "0 < semph s i")
      case True
      show ?thesis by (rule fork_inv_change[OF I i, of _ F_left]) (use True n in \<open>simp_all add: defs F_HUNGRY\<close>)
    next
      case False
      then show ?thesis using I by (simp add: defs F_HUNGRY)
    qed
  next
    case F_left
    show ?thesis
    proof (cases "0 < semph s (RIGHT i)")
      case True
      show ?thesis by (rule fork_inv_change[OF I i, of _ F_DINING]) (use True n in \<open>simp_all add: defs F_left\<close>)
    next
      case False
      then show ?thesis by (intro fork_inv_change[OF I i, of _ F_back]) (simp_all add: defs F_left)
    qed
  next
    case F_back
    show ?thesis by (rule fork_inv_change[OF I i, of _ F_HUNGRY]) (use n in \<open>simp_all add: defs F_back\<close>)
  next
    case F_DINING
    show ?thesis by (rule fork_inv_change[OF I i, of _ F_posted]) (use n in \<open>simp_all add: defs F_DINING\<close>)
  next
    case F_posted
    show ?thesis by (rule fork_inv_change[OF I i, of _ F_THINKING]) (use n in \<open>simp_all add: defs F_posted\<close>)
  qed
qed

lemma fork_run_inv: "fork_inv s \<Longrightarrow> set sched \<subseteq> {..<PhNum} \<Longrightarrow> fork_inv (fork_run sched s)"
  by (induction sched arbitrary: s) (simp_all add: fork_run_def fork_inv_step)

lemma fork_inv_init: "fork_inv fork_init"
  by (simp add: fork_inv_def fork_init_def in_left_def in_right_def)

lemma fork_run_append: "fork_run (a @ b) s = fork_run b (fork_run a s)"
  by (simp add: fork_run_def)

lemma fork_run_rounds:
  assumes "fork_run l s = s"
  shows "fork_run (concat (replicate n l)) s = s"
proof (induction n)
  case 0
  show ?case by (simp add: fork_run_def)
next
  case (Suc n)
  have "concat (replicate (Suc n) l) = l @ concat (replicate n l)" by simp
  then show ?case using Suc by (simp only: fork_run_append assms)
qed

text \<open>All five take the left fork, fail on the right one and put the left one back.\<close>

definition lockstep :: "nat list" where
  "lockstep = [0, 1, 2, 3, 4, 0, 1, 2, 3, 4, 0, 1, 2, 3, 4]"

lemma fork_livelock:
  "(\<forall>n \<le> 15. \<forall>i < PhNum. fpc (fork_run (take n lockstep) (fork_run [0, 1, 2, 3, 4] fork_init)) i \<noteq> F_DINING) \<and>
   fork_run lockstep (fork_run [0, 1, 2, 3, 4] fork_init) = fork_run [0, 1, 2, 3, 4] fork_init"
proof -
  let ?h = "fork_run [0, 1, 2, 3, 4] fork_init"
  note defs = fork_run_def fork_step_def fgoto_def sem_trywait_def sem_post_def leftFork_def rightFork_def
    fork_init_def lockstep_def
  have "\<forall>n \<in> set [0..<16]. \<forall>i \<in> set [0..<5]. fpc (fork_run (take n lockstep) ?h) i \<noteq> F_DINING"
    by code_simp
  then have "fpc (fork_run (take n lockstep) ?h) i \<noteq> F_DINING" if "n \<le> 15" "i < PhNum" for n i
    using that by simp
  moreover have "fork_run lockstep ?h = ?h" by (simp add: defs fun_eq_iff)
  ultimately show ?thesis by blast
qed

text \<open>
  C36. Under any schedule of the five threads every fork is on the table or in exactly one hand, so
  neighbours never dine together; but the threads can go round for ever without anyone dining, all
  taking their left fork, failing on the right one and putting the left one back.
\<close>

theorem dining_forks:
  assumes "set sched \<subseteq> {..<PhNum}"
  shows "(\<forall>k < PhNum. semph (fork_run sched fork_init) k + in_left (fpc (fork_run sched fork_init) k) +
      in_right (fpc (fork_run sched fork_init) (LEFT k)) = 1) \<and>
    (\<forall>i < PhNum. fpc (fork_run sched fork_init) i = F_DINING \<longrightarrow> fpc (fork_run sched fork_init) (RIGHT i) \<noteq> F_DINING) \<and>
    (\<forall>rounds. \<forall>n \<le> 15. \<forall>i < PhNum.
       fpc (fork_run (concat (replicate rounds lockstep) @ take n lockstep) (fork_run [0, 1, 2, 3, 4] fork_init)) i \<noteq>
         F_DINING)"
proof -
  define s where "s = fork_run sched fork_init"
  have I: "fork_inv s" unfolding s_def by (rule fork_run_inv[OF fork_inv_init assms])
  have 1: "\<forall>k < PhNum. semph s k + in_left (fpc s k) + in_right (fpc s (LEFT k)) = 1"
    using I unfolding fork_inv_def .
  have 2: "\<forall>i < PhNum. fpc s i = F_DINING \<longrightarrow> fpc s (RIGHT i) \<noteq> F_DINING"
  proof (intro allI impI notI)
    fix i assume i: "i < PhNum" "fpc s i = F_DINING" "fpc s (RIGHT i) = F_DINING"
    have "semph s (RIGHT i) + in_left (fpc s (RIGHT i)) + in_right (fpc s i) = 1"
      using 1 neighbours(2,3)[OF i(1)] by metis
    then show False using i(2,3) by (simp add: in_left_def in_right_def)
  qed
  define h where "h = fork_run [0, 1, 2, 3, 4] fork_init"
  have h: "fork_run lockstep h = h" "\<And>n i. n \<le> 15 \<Longrightarrow> i < PhNum \<Longrightarrow> fpc (fork_run (take n lockstep) h) i \<noteq> F_DINING"
    using fork_livelock unfolding h_def by blast+
  have r: "fork_run (concat (replicate n lockstep)) h = h" for n
    by (rule fork_run_rounds[OF h(1)])
  have 3: "\<forall>rounds. \<forall>n \<le> 15. \<forall>i < PhNum.
      fpc (fork_run (concat (replicate rounds lockstep) @ take n lockstep) h) i \<noteq> F_DINING"
  proof (intro allI impI)
    fix rounds n i :: nat assume "n \<le> 15" "i < PhNum"
    then have "fpc (fork_run (take n lockstep) h) i \<noteq> F_DINING" by (rule h(2))
    then show "fpc (fork_run (concat (replicate rounds lockstep) @ take n lockstep) h) i \<noteq> F_DINING"
      unfolding fork_run_append r .
  qed
  show ?thesis unfolding s_def[symmetric] h_def[symmetric] by (intro conjI 1 2 3)
qed

theorem dining_forks_witness:
  "fpc (fork_run [0, 0, 0, 1, 1] fork_init) 0 = F_DINING \<and> fpc (fork_run [0, 0, 0, 1, 1] fork_init) 1 = F_HUNGRY"
proof -
  have e: "fpc (fork_run [0, 0, 0, 1, 1] fork_init) 0 = F_DINING" "fpc (fork_run [0, 0, 0, 1, 1] fork_init) 1 = F_HUNGRY"
    by (simp_all add: fork_run_def fork_step_def fgoto_def sem_trywait_def sem_post_def leftFork_def rightFork_def fork_init_def)
  have "fpc (fork_run [0, 0, 0, 1, 1] fork_init) (RIGHT 0) \<noteq> F_DINING"
    using dining_forks[of "[0, 0, 0, 1, 1]", THEN conjunct2, THEN conjunct1] e(1) by simp
  then show ?thesis using e by simp
qed

end
