(* ===== verification/Producer_Consumer.thy ===== *)
theory Producer_Consumer
  imports Ak_Prelude
begin

text \<open>
  Producers and consumers over a shared buffer of ten slots (\<open>producer_consumer/producer/producer.c\<close>,
  \<open>consumer/consumer.c\<close>, and the wrappers \<open>p\<close> and \<open>v\<close> of \<open>shm.c\<close>).  Any number of processes of both kinds
  share two indices and three System V semaphores: 0 is the mutex, 1 counts free slots, 2 counts goods.
  Every semaphore call and every access to the shared memory is a step of its own; the lines that the
  processes print are kept in order.  \<open>semop\<close> succeeds whenever its index is one of the set.
\<close>

abbreviation num :: nat where "num \<equiv> 10"

text \<open>Where a process is in its loop: a producer, then a consumer.\<close>

datatype proc =
  P_slot | P_mutex | P_store | P_index | P_leave | P_signal |
  C_goods | C_mutex | C_read | C_index | C_leave | C_signal

record shared =
  sems :: "nat list"
  shmaddr :: "int list"
  index0 :: nat
  index1 :: nat
  procs :: "proc list"
  produced :: "int list"
  consumed :: "int list"

text \<open>
  The wrappers: \<open>None\<close> while the caller sleeps, \<open>-1\<close> for an index that is not in the set, \<open>1\<close> on success.
\<close>

definition p :: "int \<Rightarrow> shared \<Rightarrow> (int \<times> shared) option" where
  "p index s =
     (if index < 0 then Some (-1, s)
      else if int (length (sems s)) \<le> index then Some (-1, s)
      else if 0 < sems s ! nat index then Some (1, s\<lparr>sems := (sems s)[nat index := sems s ! nat index - 1]\<rparr>)
      else None)"

definition v :: "int \<Rightarrow> shared \<Rightarrow> int \<times> shared" where
  "v index s =
     (if index < 0 then (-1, s)
      else if int (length (sems s)) \<le> index then (-1, s)
      else (1, s\<lparr>sems := (sems s)[nat index := sems s ! nat index + 1]\<rparr>))"

definition at_proc :: "nat \<Rightarrow> proc \<Rightarrow> shared \<Rightarrow> shared" where
  "at_proc k x s = s\<lparr>procs := (procs s)[k := x]\<rparr>"

text \<open>One step of process \<open>k\<close>; \<open>r\<close> is the value of \<open>rand()\<close>.\<close>

definition pc_step :: "nat \<Rightarrow> nat \<Rightarrow> shared \<Rightarrow> shared option" where
  "pc_step k r s = (case procs s ! k of
       P_slot \<Rightarrow> map_option (at_proc k P_mutex \<circ> snd) (p 1 s)
     | P_mutex \<Rightarrow> map_option (at_proc k P_store \<circ> snd) (p 0 s)
     | P_store \<Rightarrow> (let goods = int r mod 10 in
         Some (at_proc k P_index (s\<lparr>shmaddr := (shmaddr s)[index0 s := goods], produced := produced s @ [goods]\<rparr>)))
     | P_index \<Rightarrow> Some (at_proc k P_leave (s\<lparr>index0 := (index0 s + 1) mod 10\<rparr>))
     | P_leave \<Rightarrow> Some (at_proc k P_signal (snd (v 0 s)))
     | P_signal \<Rightarrow> Some (at_proc k P_slot (snd (v 2 s)))
     | C_goods \<Rightarrow> map_option (at_proc k C_mutex \<circ> snd) (p 2 s)
     | C_mutex \<Rightarrow> map_option (at_proc k C_read \<circ> snd) (p 0 s)
     | C_read \<Rightarrow> (let goods = shmaddr s ! index1 s in
         Some (at_proc k C_index (s\<lparr>consumed := consumed s @ [goods]\<rparr>)))
     | C_index \<Rightarrow> Some (at_proc k C_leave (s\<lparr>index1 := (index1 s + 1) mod num\<rparr>))
     | C_leave \<Rightarrow> Some (at_proc k C_signal (snd (v 0 s)))
     | C_signal \<Rightarrow> Some (at_proc k C_goods (snd (v 1 s))))"

text \<open>
  The state once the memory and the semaphores exist; the buffer may hold anything.  A list of processes
  is a legal start when all are at the top of their loops.
\<close>

definition pc_init :: "int list \<Rightarrow> proc list \<Rightarrow> shared" where
  "pc_init mem ps = \<lparr>sems = [1, num, 0], shmaddr = mem, index0 = 0, index1 = 0, procs = ps,
     produced = [], consumed = []\<rparr>"

definition pc_run :: "(nat \<times> nat) list \<Rightarrow> shared \<Rightarrow> shared" where
  "pc_run sched s = fold (\<lambda>(k, r) s. case pc_step k r s of None \<Rightarrow> s | Some s' \<Rightarrow> s') sched s"

subsection \<open>Counting processes\<close>

definition cnt :: "proc set \<Rightarrow> proc list \<Rightarrow> nat" where
  "cnt A ps = length (filter (\<lambda>x. x \<in> A) ps)"

lemma cnt_update:
  "k < length ps \<Longrightarrow> cnt A (ps[k := x]) + of_bool (ps ! k \<in> A) = cnt A ps + of_bool (x \<in> A)"
proof (induction ps arbitrary: k)
  case (Cons y ps)
  then show ?case by (cases k) (auto simp: cnt_def)
qed simp

lemma cnt_mono: "A \<subseteq> B \<Longrightarrow> cnt A ps \<le> cnt B ps"
  by (induction ps) (auto simp: cnt_def)

lemma cnt_less:
  assumes "A \<subseteq> B" "k < length ps" "ps ! k \<in> B" "ps ! k \<notin> A"
  shows "cnt A ps < cnt B ps"
  using assms
proof (induction ps arbitrary: k)
  case (Cons y ps)
  have le: "cnt A ps \<le> cnt B ps" by (rule cnt_mono[OF Cons.prems(1)])
  show ?case
  proof (cases k)
    case 0
    then show ?thesis using Cons.prems le by (simp add: cnt_def)
  next
    case (Suc j)
    then have "cnt A ps < cnt B ps" using Cons.IH[OF Cons.prems(1), of j] Cons.prems by simp
    then show ?thesis using Cons.prems(1) by (auto simp: cnt_def)
  qed
qed simp

lemma cnt_zero: "cnt A ps = 0 \<longleftrightarrow> (\<forall>k < length ps. ps ! k \<notin> A)"
  by (simp add: cnt_def filter_empty_conv all_set_conv_all_nth)

lemma cnt_pos: "k < length ps \<Longrightarrow> ps ! k \<in> A \<Longrightarrow> 0 < cnt A ps"
  using cnt_zero[of A ps] by auto

subsection \<open>The invariant\<close>

text \<open>
  Processes inside the mutex; processes that hold a unit of one of the two counting semaphores; those for
  which a stored item is not yet, or no longer, counted by semaphore 2.
\<close>

definition in_mutex :: "proc set" where "in_mutex = {P_store, P_index, P_leave, C_read, C_index, C_leave}"
definition holding :: "proc set" where "holding = {P_mutex, P_store, P_index, P_leave, P_signal, C_mutex, C_read, C_index, C_leave, C_signal}"
definition uncounted :: "proc set" where "uncounted = {P_index, P_leave, P_signal, C_mutex, C_read}"

lemmas proc_sets = in_mutex_def holding_def uncounted_def

definition pc_inv :: "shared \<Rightarrow> bool" where
  "pc_inv s \<longleftrightarrow> length (sems s) = 3 \<and> length (shmaddr s) = num \<and> index0 s < num \<and> index1 s < num \<and>
     sems s ! 0 + cnt in_mutex (procs s) = 1 \<and>
     sems s ! 1 + cnt holding (procs s) + sems s ! 2 = num \<and>
     length (produced s) = length (consumed s) + sems s ! 2 + cnt uncounted (procs s) \<and>
     (index0 s + cnt {P_index} (procs s)) mod num = length (produced s) mod num \<and>
     (index1 s + cnt {C_index} (procs s)) mod num = length (consumed s) mod num \<and>
     consumed s = take (length (consumed s)) (produced s) \<and>
     (\<forall>i < length (produced s). length (consumed s) \<le> i \<longrightarrow> shmaddr s ! (i mod num) = produced s ! i) \<and>
     set (produced s) \<subseteq> {0..9}"

definition resting :: "proc list \<Rightarrow> bool" where
  "resting ps \<longleftrightarrow> set ps \<subseteq> {P_slot, C_goods}"

lemma pc_inv_init:
  assumes "length mem = num" "resting ps"
  shows "pc_inv (pc_init mem ps)"
proof -
  have "cnt A ps = 0" if "P_slot \<notin> A" "C_goods \<notin> A" for A
    using assms(2) that by (auto simp: resting_def cnt_def filter_empty_conv)
  then show ?thesis using assms(1) by (simp add: pc_inv_def pc_init_def proc_sets)
qed

text \<open>A step that moves one process and changes only the semaphores.\<close>

lemma pc_inv_sems:
  assumes I: "pc_inv s" and k: "k < length (procs s)"
    and s': "s' = s\<lparr>sems := q, procs := (procs s)[k := x]\<rparr>" and q: "length q = 3"
    and 0: "q ! 0 + of_bool (x \<in> in_mutex) = sems s ! 0 + of_bool (procs s ! k \<in> in_mutex)"
    and 1: "q ! 1 + of_bool (x \<in> holding) + q ! 2 = sems s ! 1 + of_bool (procs s ! k \<in> holding) + sems s ! 2"
    and 2: "q ! 2 + of_bool (x \<in> uncounted) = sems s ! 2 + of_bool (procs s ! k \<in> uncounted)"
    and i: "x \<in> {P_index, C_index} \<longleftrightarrow> False" "procs s ! k \<in> {P_index, C_index} \<longleftrightarrow> False"
  shows "pc_inv s'"
proof -
  note c = cnt_update[OF k, of _ x]
  have "q ! 0 + cnt in_mutex (procs s') = 1" using 0 c[of in_mutex] I by (simp add: s' pc_inv_def)
  moreover have "q ! 1 + cnt holding (procs s') + q ! 2 = num" using 1 c[of holding] I by (simp add: s' pc_inv_def)
  moreover have "length (produced s) = length (consumed s) + q ! 2 + cnt uncounted (procs s')"
    using 2 c[of uncounted] I by (simp add: s' pc_inv_def)
  moreover have "cnt {P_index} (procs s') = cnt {P_index} (procs s)" "cnt {C_index} (procs s') = cnt {C_index} (procs s)"
    using c[of "{P_index}"] c[of "{C_index}"] i by (simp_all add: s')
  ultimately show ?thesis using I q by (simp add: s' pc_inv_def)
qed

lemma in_mutex_alone:
  assumes I: "pc_inv s" and k: "k < length (procs s)" "procs s ! k \<in> in_mutex" and A: "A \<subseteq> in_mutex" "procs s ! k \<notin> A"
  shows "cnt A (procs s) = 0"
proof -
  have "cnt in_mutex (procs s) \<le> 1" using I by (simp add: pc_inv_def)
  then show ?thesis using cnt_less[OF A(1) k A(2)] by simp
qed

lemma mod_num_ne:
  fixes i n :: nat
  assumes "i < n" "n - i \<le> 9"
  shows "i mod num \<noteq> n mod num"
proof
  assume "i mod num = n mod num"
  then have "num dvd n - i" using assms(1) by (metis mod_eq_dvd_iff_nat less_imp_le)
  then show False using assms by (auto dest: dvd_imp_le)
qed

lemma pc_inv_store:
  assumes I: "pc_inv s" and k: "k < length (procs s)" and at: "procs s ! k = P_store" and g: "g \<in> {0..9}"
  shows "pc_inv (at_proc k P_index (s\<lparr>shmaddr := (shmaddr s)[index0 s := g], produced := produced s @ [g]\<rparr>))"
    (is "pc_inv ?s'")
proof -
  let ?P = "length (produced s)" and ?C = "length (consumed s)"
  note c = cnt_update[OF k, of _ P_index]
  have lens: "length (sems s) = 3" "length (shmaddr s) = num" "index0 s < num" "index1 s < num"
    and mx: "sems s ! 0 + cnt in_mutex (procs s) = 1"
    and sl: "sems s ! 1 + cnt holding (procs s) + sems s ! 2 = num"
    and it: "?P = ?C + sems s ! 2 + cnt uncounted (procs s)"
    and i0: "(index0 s + cnt {P_index} (procs s)) mod num = ?P mod num"
    and i1: "(index1 s + cnt {C_index} (procs s)) mod num = ?C mod num"
    and pre: "consumed s = take ?C (produced s)"
    and ring: "\<And>i. i < ?P \<Longrightarrow> ?C \<le> i \<Longrightarrow> shmaddr s ! (i mod num) = produced s ! i"
    and val: "set (produced s) \<subseteq> {0..9}"
    using I unfolding pc_inv_def by blast+
  have "cnt {P_index} (procs s) = 0" by (rule in_mutex_alone[OF I k]) (simp_all add: at in_mutex_def)
  then have idx: "index0 s = ?P mod num" using i0 lens(3) by simp
  have "cnt uncounted (procs s) < cnt holding (procs s)" by (rule cnt_less[OF _ k]) (simp_all add: at proc_sets)
  then have room: "?P - ?C \<le> 9" "?C \<le> ?P" using sl it by linarith+
  have r: "shmaddr ?s' ! (i mod num) = produced ?s' ! i" if i: "i < length (produced ?s')" "?C \<le> i" for i
  proof (cases "i = ?P")
    case True
    then show ?thesis using idx lens(2) by (simp add: at_proc_def)
  next
    case False
    then have i': "i < ?P" using i(1) by (simp add: at_proc_def)
    have "i mod num \<noteq> index0 s" using mod_num_ne[OF i'] i(2) room(1) idx by simp
    then show ?thesis using ring[OF i' i(2)] i' by (simp add: at_proc_def nth_append)
  qed
  have "sems s ! 0 + cnt in_mutex (procs ?s') = 1" using c[of in_mutex] at mx by (simp add: at_proc_def in_mutex_def)
  moreover have "sems s ! 1 + cnt holding (procs ?s') + sems s ! 2 = num"
    using c[of holding] at sl by (simp add: at_proc_def holding_def)
  moreover have "length (produced ?s') = ?C + sems s ! 2 + cnt uncounted (procs ?s')"
    using c[of uncounted] at it by (simp add: at_proc_def uncounted_def)
  moreover have "(index0 s + cnt {P_index} (procs ?s')) mod num = length (produced ?s') mod num"
    using c[of "{P_index}"] at i0 by (simp add: at_proc_def) (metis mod_Suc_eq)
  moreover have "cnt {C_index} (procs ?s') = cnt {C_index} (procs s)"
    using c[of "{C_index}"] at by (simp add: at_proc_def)
  moreover have "consumed s = take ?C (produced s @ [g])" using pre room(2) by simp
  ultimately show ?thesis using lens i1 val g r unfolding pc_inv_def by (simp add: at_proc_def)
qed

lemma pc_inv_index0:
  assumes I: "pc_inv s" and k: "k < length (procs s)" and at: "procs s ! k = P_index"
  shows "pc_inv (at_proc k P_leave (s\<lparr>index0 := (index0 s + 1) mod 10\<rparr>))" (is "pc_inv ?s'")
proof -
  note c = cnt_update[OF k, of _ P_leave]
  have e: "cnt in_mutex (procs ?s') = cnt in_mutex (procs s)" "cnt holding (procs ?s') = cnt holding (procs s)"
    "cnt uncounted (procs ?s') = cnt uncounted (procs s)" "cnt {C_index} (procs ?s') = cnt {C_index} (procs s)"
    "cnt {P_index} (procs s) = Suc (cnt {P_index} (procs ?s'))"
    using c[of in_mutex] c[of holding] c[of uncounted] c[of "{C_index}"] c[of "{P_index}"] at
    by (simp_all add: at_proc_def proc_sets)
  have "(index0 ?s' + cnt {P_index} (procs ?s')) mod num = (index0 s + cnt {P_index} (procs s)) mod num"
    unfolding e(5) by (simp add: at_proc_def mod_simps)
  then show ?thesis using I e unfolding pc_inv_def by (simp add: at_proc_def)
qed

lemma pc_inv_index1:
  assumes I: "pc_inv s" and k: "k < length (procs s)" and at: "procs s ! k = C_index"
  shows "pc_inv (at_proc k C_leave (s\<lparr>index1 := (index1 s + 1) mod num\<rparr>))" (is "pc_inv ?s'")
proof -
  note c = cnt_update[OF k, of _ C_leave]
  have e: "cnt in_mutex (procs ?s') = cnt in_mutex (procs s)" "cnt holding (procs ?s') = cnt holding (procs s)"
    "cnt uncounted (procs ?s') = cnt uncounted (procs s)" "cnt {P_index} (procs ?s') = cnt {P_index} (procs s)"
    "cnt {C_index} (procs s) = Suc (cnt {C_index} (procs ?s'))"
    using c[of in_mutex] c[of holding] c[of uncounted] c[of "{C_index}"] c[of "{P_index}"] at
    by (simp_all add: at_proc_def proc_sets)
  have "(index1 ?s' + cnt {C_index} (procs ?s')) mod num = (index1 s + cnt {C_index} (procs s)) mod num"
    unfolding e(5) by (simp add: at_proc_def mod_simps)
  then show ?thesis using I e unfolding pc_inv_def by (simp add: at_proc_def)
qed

lemma pc_inv_read:
  assumes I: "pc_inv s" and k: "k < length (procs s)" and at: "procs s ! k = C_read"
  shows "pc_inv (at_proc k C_index (s\<lparr>consumed := consumed s @ [shmaddr s ! index1 s]\<rparr>))" (is "pc_inv ?s'")
proof -
  let ?P = "length (produced s)" and ?C = "length (consumed s)"
  note c = cnt_update[OF k, of _ C_index]
  have lens: "length (sems s) = 3" "length (shmaddr s) = num" "index0 s < num" "index1 s < num"
    and mx: "sems s ! 0 + cnt in_mutex (procs s) = 1"
    and sl: "sems s ! 1 + cnt holding (procs s) + sems s ! 2 = num"
    and it: "?P = ?C + sems s ! 2 + cnt uncounted (procs s)"
    and i0: "(index0 s + cnt {P_index} (procs s)) mod num = ?P mod num"
    and i1: "(index1 s + cnt {C_index} (procs s)) mod num = ?C mod num"
    and pre: "consumed s = take ?C (produced s)"
    and ring: "\<And>i. i < ?P \<Longrightarrow> ?C \<le> i \<Longrightarrow> shmaddr s ! (i mod num) = produced s ! i"
    and val: "set (produced s) \<subseteq> {0..9}"
    using I unfolding pc_inv_def by blast+
  have "cnt {C_index} (procs s) = 0" by (rule in_mutex_alone[OF I k]) (simp_all add: at in_mutex_def)
  then have idx: "index1 s = ?C mod num" using i1 lens(4) by simp
  have "0 < cnt uncounted (procs s)" by (rule cnt_pos[OF k]) (simp add: at uncounted_def)
  then have some: "?C < ?P" using it by linarith
  have item: "shmaddr s ! index1 s = produced s ! ?C" using ring[OF some] idx by simp
  have "sems s ! 0 + cnt in_mutex (procs ?s') = 1" using c[of in_mutex] at mx by (simp add: at_proc_def in_mutex_def)
  moreover have "sems s ! 1 + cnt holding (procs ?s') + sems s ! 2 = num"
    using c[of holding] at sl by (simp add: at_proc_def holding_def)
  moreover have "?P = length (consumed ?s') + sems s ! 2 + cnt uncounted (procs ?s')"
    using c[of uncounted] at it by (simp add: at_proc_def uncounted_def)
  moreover have "(index1 s + cnt {C_index} (procs ?s')) mod num = length (consumed ?s') mod num"
    using c[of "{C_index}"] at i1 by (simp add: at_proc_def) (metis mod_Suc_eq)
  moreover have "cnt {P_index} (procs ?s') = cnt {P_index} (procs s)"
    using c[of "{P_index}"] at by (simp add: at_proc_def)
  moreover have "consumed ?s' = take (length (consumed ?s')) (produced s)"
    using pre some item by (simp add: at_proc_def take_Suc_conv_app_nth)
  moreover have "shmaddr s ! (i mod num) = produced s ! i" if "i < ?P" "length (consumed ?s') \<le> i" for i
    using ring that by (simp add: at_proc_def)
  ultimately show ?thesis using lens i0 val unfolding pc_inv_def by (simp add: at_proc_def)
qed

subsection \<open>Every schedule\<close>

lemma three:
  assumes "length q = 3"
  obtains a b c where "q = [a, b, c]"
  using assms by (auto simp: numeral_3_eq_3 length_Suc_conv)

lemma pc_inv_step:
  assumes I: "pc_inv s" and k: "k < length (procs s)" and step: "pc_step k r s = Some s'"
  shows "pc_inv s'" "length (procs s') = length (procs s)"
proof -
  have "length (sems s) = 3" using I by (simp add: pc_inv_def)
  then obtain a b c where q: "sems s = [a, b, c]" by (rule three)
  note sem_step = pc_inv_sems[OF I k refl]
  note defs = pc_step_def at_proc_def p_def v_def q
  show "pc_inv s'"
  proof (cases "procs s ! k")
    case P_slot
    then have "0 < b" "s' = s\<lparr>sems := [a, b - 1, c], procs := (procs s)[k := P_mutex]\<rparr>"
      using step by (auto simp: defs split: if_splits)
    then show ?thesis using sem_step[of "[a, b - 1, c]" P_mutex] P_slot by (simp add: q proc_sets)
  next
    case P_mutex
    then have "0 < a" "s' = s\<lparr>sems := [a - 1, b, c], procs := (procs s)[k := P_store]\<rparr>"
      using step by (auto simp: defs split: if_splits)
    then show ?thesis using sem_step[of "[a - 1, b, c]" P_store] P_mutex by (simp add: q proc_sets)
  next
    case P_store
    have "int r mod 10 \<in> {0..9}" by simp
    from pc_inv_store[OF I k P_store this] show ?thesis using step P_store by (simp add: pc_step_def Let_def)
  next
    case P_index
    from pc_inv_index0[OF I k P_index] show ?thesis using step P_index by (simp add: pc_step_def)
  next
    case P_leave
    then have "s' = s\<lparr>sems := [a + 1, b, c], procs := (procs s)[k := P_signal]\<rparr>"
      using step by (simp add: defs)
    then show ?thesis using sem_step[of "[a + 1, b, c]" P_signal] P_leave by (simp add: q proc_sets)
  next
    case P_signal
    then have "s' = s\<lparr>sems := [a, b, c + 1], procs := (procs s)[k := P_slot]\<rparr>"
      using step by (simp add: defs numeral_2_eq_2)
    then show ?thesis using sem_step[of "[a, b, c + 1]" P_slot] P_signal by (simp add: q proc_sets)
  next
    case C_goods
    then have "0 < c" "s' = s\<lparr>sems := [a, b, c - 1], procs := (procs s)[k := C_mutex]\<rparr>"
      using step by (auto simp: defs numeral_2_eq_2 split: if_splits)
    then show ?thesis using sem_step[of "[a, b, c - 1]" C_mutex] C_goods by (simp add: q proc_sets)
  next
    case C_mutex
    then have "0 < a" "s' = s\<lparr>sems := [a - 1, b, c], procs := (procs s)[k := C_read]\<rparr>"
      using step by (auto simp: defs split: if_splits)
    then show ?thesis using sem_step[of "[a - 1, b, c]" C_read] C_mutex by (simp add: q proc_sets)
  next
    case C_read
    from pc_inv_read[OF I k C_read] show ?thesis using step C_read by (simp add: pc_step_def)
  next
    case C_index
    from pc_inv_index1[OF I k C_index] show ?thesis using step C_index by (simp add: pc_step_def)
  next
    case C_leave
    then have "s' = s\<lparr>sems := [a + 1, b, c], procs := (procs s)[k := C_signal]\<rparr>"
      using step by (simp add: defs)
    then show ?thesis using sem_step[of "[a + 1, b, c]" C_signal] C_leave by (simp add: q proc_sets)
  next
    case C_signal
    then have "s' = s\<lparr>sems := [a, b + 1, c], procs := (procs s)[k := C_goods]\<rparr>"
      using step by (simp add: defs)
    then show ?thesis using sem_step[of "[a, b + 1, c]" C_goods] C_signal by (simp add: q proc_sets)
  qed
  show "length (procs s') = length (procs s)"
    using step by (cases "procs s ! k") (auto simp: defs Let_def split: if_splits)
qed

text \<open>No process changes its kind.\<close>

definition consumer :: "proc \<Rightarrow> bool" where
  "consumer x \<longleftrightarrow> x \<in> {C_goods, C_mutex, C_read, C_index, C_leave, C_signal}"

lemma procs_p: "p i s = Some (x, s') \<Longrightarrow> procs s' = procs s"
  by (auto simp: p_def split: if_splits)

lemma procs_v: "procs (snd (v i s)) = procs s"
  by (simp add: v_def)

fun next_proc :: "proc \<Rightarrow> proc" where
  "next_proc P_slot = P_mutex"
| "next_proc P_mutex = P_store"
| "next_proc P_store = P_index"
| "next_proc P_index = P_leave"
| "next_proc P_leave = P_signal"
| "next_proc P_signal = P_slot"
| "next_proc C_goods = C_mutex"
| "next_proc C_mutex = C_read"
| "next_proc C_read = C_index"
| "next_proc C_index = C_leave"
| "next_proc C_leave = C_signal"
| "next_proc C_signal = C_goods"

lemma consumer_next: "consumer (next_proc x) = consumer x"
  by (cases x) (simp_all add: consumer_def)

lemma procs_at: "procs (at_proc k x s) = (procs s)[k := x]"
  by (simp add: at_proc_def)

lemma pc_step_procs:
  assumes step: "pc_step k r s = Some s'"
  shows "procs s' = (procs s)[k := next_proc (procs s ! k)]"
  using step
  by (cases "procs s ! k") (auto simp: pc_step_def Let_def procs_at procs_v procs_p)

lemma pc_step_kinds:
  assumes k: "k < length (procs s)" and step: "pc_step k r s = Some s'"
  shows "map consumer (procs s') = map consumer (procs s)"
  unfolding pc_step_procs[OF step] using k
  by (simp add: map_update consumer_next list_update_same_conv)

lemma pc_run_snoc:
  "pc_run (sched @ [(k, r)]) s = (case pc_step k r (pc_run sched s) of None \<Rightarrow> pc_run sched s | Some s' \<Rightarrow> s')"
  unfolding pc_run_def by simp

lemma pc_run_inv:
  assumes "pc_inv s" "set (map fst sched) \<subseteq> {..<length (procs s)}"
  shows "pc_inv (pc_run sched s) \<and> map consumer (procs (pc_run sched s)) = map consumer (procs s)"
  using assms(2)
proof (induction sched rule: rev_induct)
  case Nil
  then show ?case using assms(1) by (simp add: pc_run_def)
next
  case (snoc kr sched)
  obtain k r where kr: "kr = (k, r)" by (cases kr)
  let ?s = "pc_run sched s"
  have I: "pc_inv ?s" "map consumer (procs ?s) = map consumer (procs s)" using snoc by simp_all
  have k: "k < length (procs ?s)" using snoc.prems kr map_eq_imp_length_eq[OF I(2)] by simp
  show ?case
    using I pc_inv_step(1)[OF I(1) k] pc_step_kinds[OF k] unfolding kr pc_run_snoc by (simp split: option.split)
qed

lemma pc_not_stuck:
  assumes I: "pc_inv s" and i: "i < length (procs s)" "\<not> consumer (procs s ! i)"
    and j: "j < length (procs s)" "consumer (procs s ! j)"
  shows "\<exists>k < length (procs s). pc_step k r s \<noteq> None"
proof (rule ccontr)
  assume "\<not> ?thesis"
  then have b: "pc_step k r s = None" if "k < length (procs s)" for k using that by blast
  have "length (sems s) = 3" using I by (simp add: pc_inv_def)
  then obtain x y z where q: "sems s = [x, y, z]" by (rule three)
  note defs = pc_step_def p_def q Let_def
  have w: "procs s ! k \<in> {P_slot, P_mutex, C_goods, C_mutex}" if "k < length (procs s)" for k
    using b[OF that] by (cases "procs s ! k") (simp_all add: defs)
  have "cnt in_mutex (procs s) = 0" unfolding cnt_zero using w by (fastforce simp: in_mutex_def)
  then have m: "x = 1" using I by (simp add: pc_inv_def q)
  have w': "procs s ! k \<in> {P_slot, C_goods}" if "k < length (procs s)" for k
    using w[OF that] b[OF that] m by (auto simp: defs)
  then have "cnt holding (procs s) = 0" unfolding cnt_zero by (fastforce simp: holding_def)
  then have yz: "y + z = 10" using I by (simp add: pc_inv_def q)
  have "procs s ! i = P_slot" "procs s ! j = C_goods"
    using w'[OF i(1)] w'[OF j(1)] i(2) j(2) by (auto simp: consumer_def)
  then have "y = 0" "z = 0" using b[OF i(1)] b[OF j(1)] by (auto simp: defs split: if_splits)
  then show False using yz by simp
qed

text \<open>
  C29. For any number of producers and consumers and under every schedule: the goods consumed are the first
  of the goods produced, in order, and never more than ten behind; every value is one of 0 to 9; at most one
  process is between \<open>p\<close> and \<open>v\<close> of the mutex; and with at least one process of each kind some process
  can go on.
\<close>

theorem producer_consumer_fifo:
  assumes "length mem = num" "resting ps" "set (map fst sched) \<subseteq> {..<length ps}"
  shows "consumed (pc_run sched (pc_init mem ps)) =
      take (length (consumed (pc_run sched (pc_init mem ps)))) (produced (pc_run sched (pc_init mem ps))) \<and>
    length (produced (pc_run sched (pc_init mem ps))) - length (consumed (pc_run sched (pc_init mem ps))) \<le> num \<and>
    set (produced (pc_run sched (pc_init mem ps))) \<subseteq> {0..9} \<and>
    cnt in_mutex (procs (pc_run sched (pc_init mem ps))) \<le> 1 \<and>
    (P_slot \<in> set ps \<longrightarrow> C_goods \<in> set ps \<longrightarrow>
       (\<exists>k < length ps. pc_step k r (pc_run sched (pc_init mem ps)) \<noteq> None))"
proof -
  let ?s0 = "pc_init mem ps"
  define s where "s = pc_run sched ?s0"
  have p0: "procs ?s0 = ps" by (simp add: pc_init_def)
  have R: "pc_inv s" "map consumer (procs s) = map consumer ps"
    using pc_run_inv[OF pc_inv_init[OF assms(1,2)], of sched] assms(3) unfolding s_def p0 by blast+
  have len: "length (procs s) = length ps" using map_eq_imp_length_eq[OF R(2)] .
  have kind: "consumer (procs s ! k) = consumer (ps ! k)" if "k < length ps" for k
    using R(2) that len by (metis nth_map)
  have 1: "consumed s = take (length (consumed s)) (produced s)" "set (produced s) \<subseteq> {0..9}"
    using R(1) unfolding pc_inv_def by blast+
  have c: "length (produced s) = length (consumed s) + sems s ! 2 + cnt uncounted (procs s)"
    "sems s ! 1 + cnt holding (procs s) + sems s ! 2 = num" "sems s ! 0 + cnt in_mutex (procs s) = 1"
    using R(1) unfolding pc_inv_def by blast+
  have "cnt uncounted (procs s) \<le> cnt holding (procs s)" by (rule cnt_mono) (simp add: proc_sets)
  then have 2: "length (produced s) - length (consumed s) \<le> num" using c(1,2) by linarith
  have 3: "cnt in_mutex (procs s) \<le> 1" using c(3) by linarith
  have "\<exists>k < length ps. pc_step k r s \<noteq> None" if P: "P_slot \<in> set ps" and C: "C_goods \<in> set ps"
  proof -
    obtain i where i: "i < length ps" "ps ! i = P_slot" using P by (auto simp: in_set_conv_nth)
    obtain j where j: "j < length ps" "ps ! j = C_goods" using C by (auto simp: in_set_conv_nth)
    have "\<not> consumer (procs s ! i)" "consumer (procs s ! j)" using kind i j by (simp_all add: consumer_def)
    then show ?thesis using pc_not_stuck[OF R(1), of i j] i(1) j(1) len by simp
  qed
  then show ?thesis unfolding s_def[symmetric] by (intro conjI impI 1 2 3)
qed

text \<open>Two producers and a consumer: the second producer waits for the mutex while the first stores.\<close>

theorem producer_consumer_fifo_witness:
  "produced (pc_run [(0, 0), (0, 0), (0, 17), (1, 0), (1, 0), (0, 0), (0, 0), (0, 0), (2, 0), (2, 0), (2, 0)]
      (pc_init [0, 0, 0, 0, 0, 0, 0, 0, 0, 0] [P_slot, P_slot, C_goods])) = [7] \<and>
   consumed (pc_run [(0, 0), (0, 0), (0, 17), (1, 0), (1, 0), (0, 0), (0, 0), (0, 0), (2, 0), (2, 0), (2, 0)]
      (pc_init [0, 0, 0, 0, 0, 0, 0, 0, 0, 0] [P_slot, P_slot, C_goods])) = [7] \<and>
   (\<exists>k < 3. pc_step k 0 (pc_run [(0, 0), (0, 0), (0, 17), (1, 0), (1, 0), (0, 0), (0, 0), (0, 0), (2, 0), (2, 0), (2, 0)]
      (pc_init [0, 0, 0, 0, 0, 0, 0, 0, 0, 0] [P_slot, P_slot, C_goods])) \<noteq> None)"
proof -
  let ?ps = "[P_slot, P_slot, C_goods]" and ?mem = "[0, 0, 0, 0, 0, 0, 0, 0, 0, 0] :: int list"
    and ?sched = "[(0, 0), (0, 0), (0, 17), (1, 0), (1, 0), (0, 0), (0, 0), (0, 0), (2, 0), (2, 0), (2, 0)]"
  let ?s = "pc_run ?sched (pc_init ?mem ?ps)"
  have e: "produced ?s = [7]" "consumed ?s = [7]"
    by code_simp+
  have "\<exists>k < length ?ps. pc_step k 0 ?s \<noteq> None"
    using producer_consumer_fifo[of ?mem ?ps ?sched 0, THEN conjunct2, THEN conjunct2, THEN conjunct2, THEN conjunct2]
    by (simp add: resting_def)
  moreover have "length ?ps = 3" by simp
  ultimately show ?thesis using e by metis
qed

end
