(* ===== verification/Sbull.thy ===== *)
theory Sbull
  imports Ak_Prelude
begin

text \<open>
  The RAM disk \<open>sbull/sbull.c\<close>: transfers in units of 512 bytes, the simple and the clustering request
  functions, the user count with the timer that simulates media removal, and set-up and removal.

  \<open>sb_size\<close> is the field the code calls the size in sectors and fills with bytes; \<open>sb_timer\<close> says
  whether the timer is pending; \<open>sb_vfrees\<close> counts the \<open>vfree\<close> calls on the data of this device.
\<close>

abbreviation KERNEL_SECTOR_SIZE :: nat where "KERNEL_SECTOR_SIZE \<equiv> 512"

record sbull_dev =
  sb_size :: int
  sb_data :: "byte list option"
  sb_users :: int
  sb_media_change :: bool
  sb_timer :: bool
  sb_gd :: bool
  sb_vfrees :: nat

definition ulong :: "nat \<Rightarrow> nat" where
  "ulong n = n mod 18446744073709551616"

subsection \<open>Transfers\<close>

text \<open>The new device and buffer; \<open>None\<close> if the copy leaves the data or the buffer.\<close>

definition sbull_transfer ::
  "sbull_dev \<Rightarrow> nat \<Rightarrow> nat \<Rightarrow> byte list \<Rightarrow> bool \<Rightarrow> (sbull_dev \<times> byte list) option" where
  "sbull_transfer dev sector nsect buffer write =
     (let offset = ulong (sector * KERNEL_SECTOR_SIZE); nbytes = ulong (nsect * KERNEL_SECTOR_SIZE) in
      if ulong (offset + nbytes) > size_t (sb_size dev) then Some (dev, buffer)
      else case sb_data dev of
        None \<Rightarrow> None
      | Some d \<Rightarrow>
        if length d < offset + nbytes \<or> length buffer < nbytes then None
        else if write then Some (dev\<lparr>sb_data := Some (blit d offset (take nbytes buffer))\<rparr>, buffer)
        else Some (dev, blit buffer 0 (region d offset nbytes)))"

text \<open>A request as the simple request function sees it: its first segment.\<close>

record sb_request =
  rq_fs :: bool
  rq_write :: bool
  rq_sector :: nat
  rq_current_nr_sectors :: nat
  rq_buffer :: "byte list"

text \<open>The result: the device and, per request, \<open>end_request\<close>'s flag and the buffer.\<close>

fun sbull_request :: "sbull_dev \<Rightarrow> sb_request list \<Rightarrow> (sbull_dev \<times> (bool \<times> byte list) list) option" where
  "sbull_request dev [] = Some (dev, [])"
| "sbull_request dev (req # q) =
     (if \<not> rq_fs req
      then map_option (\<lambda>(d, out). (d, (False, rq_buffer req) # out)) (sbull_request dev q)
      else case sbull_transfer dev (rq_sector req) (rq_current_nr_sectors req) (rq_buffer req) (rq_write req) of
        None \<Rightarrow> None
      | Some (dev', buf) \<Rightarrow> map_option (\<lambda>(d, out). (d, (True, buf) # out)) (sbull_request dev' q))"

text \<open>
  A bio: start sector, the sectors of its current segment (\<open>bio_cur_sectors\<close>, which the loop uses for
  every segment), direction, segments and total size in bytes.
\<close>

record sb_bio =
  bi_sector :: nat
  bi_cur_sectors :: nat
  bi_write :: bool
  bi_segments :: "byte list list"
  bi_size :: nat

fun sbull_xfer_segments ::
  "sbull_dev \<Rightarrow> nat \<Rightarrow> nat \<Rightarrow> bool \<Rightarrow> byte list list \<Rightarrow> (sbull_dev \<times> byte list list) option" where
  "sbull_xfer_segments dev sector cur write [] = Some (dev, [])"
| "sbull_xfer_segments dev sector cur write (buffer # segs) =
     (case sbull_transfer dev sector cur buffer write of
        None \<Rightarrow> None
      | Some (dev', buffer') \<Rightarrow>
          map_option (\<lambda>(d, out). (d, buffer' # out))
            (sbull_xfer_segments dev' (ulong (sector + cur)) cur write segs))"

definition sbull_xfer_bio :: "sbull_dev \<Rightarrow> sb_bio \<Rightarrow> (sbull_dev \<times> sb_bio) option" where
  "sbull_xfer_bio dev bio =
     map_option (\<lambda>(d, segs). (d, bio\<lparr>bi_segments := segs\<rparr>))
       (sbull_xfer_segments dev (bi_sector bio) (bi_cur_sectors bio) (bi_write bio) (bi_segments bio))"

fun sbull_xfer_request :: "sbull_dev \<Rightarrow> sb_bio list \<Rightarrow> (sbull_dev \<times> sb_bio list \<times> nat) option" where
  "sbull_xfer_request dev [] = Some (dev, [], 0)"
| "sbull_xfer_request dev (bio # bios) =
     (case sbull_xfer_bio dev bio of
        None \<Rightarrow> None
      | Some (dev', bio') \<Rightarrow>
          map_option (\<lambda>(d, out, n). (d, bio' # out, n + bi_size bio div KERNEL_SECTOR_SIZE))
            (sbull_xfer_request dev' bios))"

text \<open>
  The clustering request function on a queue of requests (filesystem request or not, bios): per
  request the bios and the number of sectors reported, \<open>None\<close> for a skipped one.
\<close>

fun sbull_full_request ::
  "sbull_dev \<Rightarrow> (bool \<times> sb_bio list) list \<Rightarrow> (sbull_dev \<times> (sb_bio list \<times> nat) option list) option" where
  "sbull_full_request dev [] = Some (dev, [])"
| "sbull_full_request dev ((fs, bios) # q) =
     (if \<not> fs then map_option (\<lambda>(d, out). (d, None # out)) (sbull_full_request dev q)
      else case sbull_xfer_request dev bios of
        None \<Rightarrow> None
      | Some (dev', bios', n) \<Rightarrow>
          map_option (\<lambda>(d, out). (d, Some (bios', n) # out)) (sbull_full_request dev' q))"

definition sbull_make_request :: "sbull_dev \<Rightarrow> sb_bio \<Rightarrow> (sbull_dev \<times> sb_bio \<times> int) option" where
  "sbull_make_request dev bio = map_option (\<lambda>(d, b). (d, b, 0)) (sbull_xfer_bio dev bio)"

subsection \<open>Users and media\<close>

text \<open>\<open>check_disk_change\<close> is the kernel's; it is an argument.\<close>

definition sbull_open :: "(sbull_dev \<Rightarrow> sbull_dev) \<Rightarrow> sbull_dev \<Rightarrow> sbull_dev" where
  "sbull_open check_disk_change dev =
     (let dev1 = dev\<lparr>sb_timer := False\<rparr>;
          dev2 = (if sb_users dev1 = 0 then check_disk_change dev1 else dev1)
      in dev2\<lparr>sb_users := sb_users dev2 + 1\<rparr>)"

definition sbull_release :: "sbull_dev \<Rightarrow> sbull_dev" where
  "sbull_release dev =
     (let dev1 = dev\<lparr>sb_users := sb_users dev - 1\<rparr>
      in if sb_users dev1 = 0 then dev1\<lparr>sb_timer := True\<rparr> else dev1)"

definition sbull_media_changed :: "sbull_dev \<Rightarrow> bool" where
  "sbull_media_changed dev = sb_media_change dev"

definition sbull_revalidate :: "sbull_dev \<Rightarrow> sbull_dev" where
  "sbull_revalidate dev =
     (if sb_media_change dev
      then dev\<lparr>sb_media_change := False,
               sb_data := map_option (\<lambda>d. blit d 0 (replicate (nat (sb_size dev)) 0)) (sb_data dev)\<rparr>
      else dev)"

text \<open>The timer function; the flag says that its sanity check failed.\<close>

definition sbull_invalidate :: "sbull_dev \<Rightarrow> sbull_dev \<times> bool" where
  "sbull_invalidate dev =
     (let dev1 = dev\<lparr>sb_timer := False\<rparr> in
      if sb_users dev1 \<noteq> 0 \<or> sb_data dev1 = None then (dev1, True)
      else (dev1\<lparr>sb_media_change := True\<rparr>, False))"

text \<open>\<open>HDIO_GETGEO\<close>: cylinders, heads, sectors, start.\<close>

definition sbull_getgeo :: "int \<Rightarrow> sbull_dev \<Rightarrow> int \<times> int \<times> int \<times> int" where
  "sbull_getgeo hardsect_size dev =
     (let sz = s32 (sb_size dev * (hardsect_size sdiv 512)) in (sz div 64, 4, 16, 4))"

subsection \<open>Set-up and removal\<close>

text \<open>
  \<open>setup_device\<close>: the outcomes of \<open>vmalloc\<close>, of creating the queue and of \<open>alloc_disk\<close> are arguments.
  The result carries the capacity given to the disk, if it was added.
\<close>

definition setup_device :: "byte list option \<Rightarrow> bool \<Rightarrow> bool \<Rightarrow> int \<Rightarrow> int \<Rightarrow> sbull_dev \<times> int option" where
  "setup_device vm queue_ok disk_ok nsectors hardsect_size =
     (let dev = \<lparr>sb_size = s32 (nsectors * hardsect_size), sb_data = vm, sb_users = 0,
                 sb_media_change = False, sb_timer = False, sb_gd = False, sb_vfrees = 0\<rparr> in
      if vm = None then (dev, None)
      else if \<not> queue_ok then (dev\<lparr>sb_vfrees := 1\<rparr>, None)
      else if \<not> disk_ok then (dev\<lparr>sb_vfrees := 1\<rparr>, None)
      else (dev\<lparr>sb_gd := True\<rparr>, Some (s32 (nsectors * (hardsect_size sdiv 512)))))"

definition sbull_exit_device :: "sbull_dev \<Rightarrow> sbull_dev" where
  "sbull_exit_device dev =
     (let dev1 = dev\<lparr>sb_timer := False, sb_gd := False\<rparr>
      in if sb_data dev1 \<noteq> None then dev1\<lparr>sb_vfrees := sb_vfrees dev1 + 1\<rparr> else dev1)"

subsection \<open>Transfers within the disk\<close>

definition sbull_wf :: "sbull_dev \<Rightarrow> bool" where
  "sbull_wf dev = (case sb_data dev of None \<Rightarrow> False
     | Some d \<Rightarrow> sb_size dev = int (length d) \<and> length d < 2147483648)"

abbreviation sector_in :: "sbull_dev \<Rightarrow> nat \<Rightarrow> nat \<Rightarrow> bool" where
  "sector_in dev sector nsect \<equiv> int ((sector + nsect) * KERNEL_SECTOR_SIZE) \<le> sb_size dev"

definition sbull_bytes :: "sbull_dev \<Rightarrow> nat \<Rightarrow> nat \<Rightarrow> byte list" where
  "sbull_bytes dev sector nsect =
     (case sb_data dev of None \<Rightarrow> [] | Some d \<Rightarrow> region d (sector * KERNEL_SECTOR_SIZE) (nsect * KERNEL_SECTOR_SIZE))"

lemma sbull_transfer_in:
  assumes wf: "sbull_wf dev" and d: "sb_data dev = Some d" and i: "sector_in dev sector nsect"
    and b: "length buffer = nsect * KERNEL_SECTOR_SIZE"
  shows "sbull_transfer dev sector nsect buffer write =
    Some (if write then (dev\<lparr>sb_data := Some (blit d (sector * KERNEL_SECTOR_SIZE) buffer)\<rparr>, buffer)
          else (dev, region d (sector * KERNEL_SECTOR_SIZE) (nsect * KERNEL_SECTOR_SIZE)))"
    and "sector * KERNEL_SECTOR_SIZE + nsect * KERNEL_SECTOR_SIZE \<le> length d"
proof -
  have W: "sb_size dev = int (length d)" "length d < 2147483648" using wf d by (simp_all add: sbull_wf_def)
  have "(sector + nsect) * KERNEL_SECTOR_SIZE \<le> length d" using i W(1) by (simp only: of_nat_le_iff)
  then show le: "sector * KERNEL_SECTOR_SIZE + nsect * KERNEL_SECTOR_SIZE \<le> length d"
    by (simp only: distrib_right)
  have u: "ulong (sector * KERNEL_SECTOR_SIZE) = sector * KERNEL_SECTOR_SIZE"
    "ulong (nsect * KERNEL_SECTOR_SIZE) = nsect * KERNEL_SECTOR_SIZE"
    "ulong (sector * KERNEL_SECTOR_SIZE + nsect * KERNEL_SECTOR_SIZE) =
      sector * KERNEL_SECTOR_SIZE + nsect * KERNEL_SECTOR_SIZE"
    using le W(2) unfolding ulong_def by (intro mod_less, linarith)+
  have s: "size_t (sb_size dev) = length d" unfolding W(1) by (rule size_t_small[OF W(2)])
  have fit: "length (region d (sector * KERNEL_SECTOR_SIZE) (nsect * KERNEL_SECTOR_SIZE)) = length buffer"
    using le b by simp
  then have bl: "blit buffer 0 (region d (sector * KERNEL_SECTOR_SIZE) (nsect * KERNEL_SECTOR_SIZE)) =
      region d (sector * KERNEL_SECTOR_SIZE) (nsect * KERNEL_SECTOR_SIZE)"
    unfolding blit_def by simp
  show "sbull_transfer dev sector nsect buffer write =
    Some (if write then (dev\<lparr>sb_data := Some (blit d (sector * KERNEL_SECTOR_SIZE) buffer)\<rparr>, buffer)
          else (dev, region d (sector * KERNEL_SECTOR_SIZE) (nsect * KERNEL_SECTOR_SIZE)))"
    unfolding sbull_transfer_def Let_def u s d option.case bl using le b by simp
qed

lemma sbull_wf_write:
  assumes "sbull_wf dev" "sb_data dev = Some d" "p + length xs \<le> length d"
  shows "sbull_wf (dev\<lparr>sb_data := Some (blit d p xs)\<rparr>)"
  using assms by (simp add: sbull_wf_def)

lemma blit_blit_append:
  "p + length xs + length ys \<le> length d \<Longrightarrow> blit (blit d p xs) (p + length xs) ys = blit d p (xs @ ys)"
  by (simp add: blit_def ac_simps)

lemma region_append: "region d p (m + n) = region d p m @ region d (p + m) n"
  by (simp add: region_def take_add add.commute)

lemma sector_small:
  assumes "n * KERNEL_SECTOR_SIZE \<le> m" "m < 2147483648"
  shows "n < (18446744073709551616::nat)"
proof -
  have "n \<le> n * KERNEL_SECTOR_SIZE" by simp
  then have "n < 2147483648" using assms by linarith
  then show ?thesis by linarith
qed

lemma xfer_segments_write:
  assumes "sbull_wf dev" "sb_data dev = Some d" "sector_in dev sector (cur * length segs)"
    and "\<forall>b \<in> set segs. length b = cur * KERNEL_SECTOR_SIZE"
  shows "sbull_xfer_segments dev sector cur True segs =
    Some (dev\<lparr>sb_data := Some (blit d (sector * KERNEL_SECTOR_SIZE) (concat segs))\<rparr>, segs)"
  using assms
proof (induction segs arbitrary: dev d sector)
  case Nil
  then show ?case by simp
next
  case (Cons b segs)
  have "int ((sector + cur) * KERNEL_SECTOR_SIZE) \<le> int ((sector + cur * length (b # segs)) * KERNEL_SECTOR_SIZE)"
    unfolding of_nat_le_iff by simp
  then have i1: "sector_in dev sector cur" using Cons.prems(3) by linarith
  have lb: "length b = cur * KERNEL_SECTOR_SIZE" using Cons.prems(4) by simp
  note T = sbull_transfer_in[OF Cons.prems(1,2) i1 lb]
  let ?d1 = "blit d (sector * KERNEL_SECTOR_SIZE) b"
  let ?dev1 = "dev\<lparr>sb_data := Some ?d1\<rparr>"
  have wf1: "sbull_wf ?dev1" using T(2) lb by (intro sbull_wf_write[OF Cons.prems(1,2)]) simp
  have W: "sb_size dev = int (length d)" "length d < 2147483648"
    using Cons.prems(1,2) by (simp_all add: sbull_wf_def)
  have i2: "sector_in ?dev1 (sector + cur) (cur * length segs)" using Cons.prems(3) by (simp add: algebra_simps)
  have "(sector + cur) * KERNEL_SECTOR_SIZE \<le> length d" using T(2) by (simp add: algebra_simps)
  then have "sector + cur < 18446744073709551616" by (rule sector_small[OF _ W(2)])
  then have u: "ulong (sector + cur) = sector + cur" unfolding ulong_def by (rule mod_less)
  have seg: "\<forall>b \<in> set segs. length b = cur * KERNEL_SECTOR_SIZE" using Cons.prems(4) by simp
  note IH = Cons.IH[OF wf1 _ i2 seg, of ?d1]
  have cl: "length (concat segs) = length segs * (cur * KERNEL_SECTOR_SIZE)"
    using seg by (induction segs) auto
  have "(sector + cur * length (b # segs)) * KERNEL_SECTOR_SIZE \<le> length d"
    using Cons.prems(3) W(1) by (simp only: of_nat_le_iff)
  then have "sector * KERNEL_SECTOR_SIZE + length b + length (concat segs) \<le> length d"
    using lb cl by (simp add: algebra_simps)
  from blit_blit_append[OF this] lb
  have "blit ?d1 ((sector + cur) * KERNEL_SECTOR_SIZE) (concat segs) =
      blit d (sector * KERNEL_SECTOR_SIZE) (concat (b # segs))"
    by (simp add: algebra_simps)
  then show ?case using T(1)[of True] IH u by simp
qed

lemma xfer_segments_read:
  assumes "sbull_wf dev" "sb_data dev = Some d" "sector_in dev sector (cur * length segs)"
    and "\<forall>b \<in> set segs. length b = cur * KERNEL_SECTOR_SIZE"
  shows "\<exists>out. sbull_xfer_segments dev sector cur False segs = Some (dev, out) \<and>
    map length out = map length segs \<and> concat out = sbull_bytes dev sector (cur * length segs)"
  using assms
proof (induction segs arbitrary: sector)
  case Nil
  then show ?case by (simp add: sbull_bytes_def region_def)
next
  case (Cons b segs)
  have "int ((sector + cur) * KERNEL_SECTOR_SIZE) \<le> int ((sector + cur * length (b # segs)) * KERNEL_SECTOR_SIZE)"
    unfolding of_nat_le_iff by simp
  then have i1: "sector_in dev sector cur" using Cons.prems(3) by linarith
  have lb: "length b = cur * KERNEL_SECTOR_SIZE" using Cons.prems(4) by simp
  note T = sbull_transfer_in[OF Cons.prems(1,2) i1 lb]
  have W: "sb_size dev = int (length d)" "length d < 2147483648"
    using Cons.prems(1,2) by (simp_all add: sbull_wf_def)
  have i2: "sector_in dev (sector + cur) (cur * length segs)" using Cons.prems(3) by (simp add: algebra_simps)
  have "(sector + cur) * KERNEL_SECTOR_SIZE \<le> length d" using T(2) by (simp add: algebra_simps)
  then have "sector + cur < 18446744073709551616" by (rule sector_small[OF _ W(2)])
  then have u: "ulong (sector + cur) = sector + cur" unfolding ulong_def by (rule mod_less)
  have seg: "\<forall>b \<in> set segs. length b = cur * KERNEL_SECTOR_SIZE" using Cons.prems(4) by simp
  from Cons.IH[OF Cons.prems(1,2) i2 seg] obtain out where
    o: "sbull_xfer_segments dev (sector + cur) cur False segs = Some (dev, out)"
      "map length out = map length segs" "concat out = sbull_bytes dev (sector + cur) (cur * length segs)" by blast
  let ?b = "region d (sector * KERNEL_SECTOR_SIZE) (cur * KERNEL_SECTOR_SIZE)"
  have "?b @ sbull_bytes dev (sector + cur) (cur * length segs) = sbull_bytes dev sector (cur * length (b # segs))"
    using Cons.prems(2) region_append[of d "sector * KERNEL_SECTOR_SIZE" "cur * KERNEL_SECTOR_SIZE"
        "cur * length segs * KERNEL_SECTOR_SIZE"]
    by (simp add: sbull_bytes_def algebra_simps)
  then show ?case using T(1)[of False] T(2) u o lb by simp
qed

subsection \<open>Properties\<close>

text \<open>
  C12. A bio whose segments all have the current segment's size is carried out like one contiguous
  transfer, and reading it back, in any segmentation of that kind, returns the written bytes while all
  other sectors keep theirs.
\<close>

theorem sbull_bio_roundtrip:
  assumes wf: "sbull_wf dev" and i: "sector_in dev sector (cur * length segs)"
    and seg: "\<forall>b \<in> set segs. length b = cur * KERNEL_SECTOR_SIZE"
    and seg': "\<forall>b \<in> set segs'. length b = cur' * KERNEL_SECTOR_SIZE" "cur' * length segs' = cur * length segs"
  shows "\<exists>dev' out. sbull_xfer_segments dev sector cur True segs = Some (dev', segs) \<and> sbull_wf dev' \<and>
    sbull_xfer_segments dev' sector cur' False segs' = Some (dev', out) \<and> concat out = concat segs \<and>
    (\<forall>s n. (s + n \<le> sector \<or> sector + cur * length segs \<le> s) \<longrightarrow> sbull_bytes dev' s n = sbull_bytes dev s n)"
proof -
  from wf obtain d where d: "sb_data dev = Some d" by (auto simp: sbull_wf_def split: option.splits)
  let ?p = "sector * KERNEL_SECTOR_SIZE"
  define dev' where dev': "dev' = dev\<lparr>sb_data := Some (blit d ?p (concat segs))\<rparr>"
  have W: "sb_size dev = int (length d)" using wf d by (simp add: sbull_wf_def)
  have cl: "length (concat segs) = cur * length segs * KERNEL_SECTOR_SIZE"
    using seg by (induction segs) (auto simp: algebra_simps)
  have "(sector + cur * length segs) * KERNEL_SECTOR_SIZE \<le> length d" using i W by (simp only: of_nat_le_iff)
  then have le: "?p + length (concat segs) \<le> length d" using cl by (simp add: algebra_simps)
  note w = xfer_segments_write[OF wf d i seg, folded dev']
  have wf': "sbull_wf dev'" unfolding dev' by (rule sbull_wf_write[OF wf d le])
  have "sector_in dev' sector (cur' * length segs')" using i seg'(2) by (simp add: dev')
  from xfer_segments_read[OF wf' _ this seg'(1), of "blit d ?p (concat segs)"] obtain out where
    r: "sbull_xfer_segments dev' sector cur' False segs' = Some (dev', out)"
      "concat out = sbull_bytes dev' sector (cur' * length segs')" by (auto simp: dev')
  have "concat out = concat segs"
    using r(2) region_blit[OF le] cl seg'(2) by (simp add: sbull_bytes_def dev')
  moreover have "sbull_bytes dev' s n = sbull_bytes dev s n"
    if "s + n \<le> sector \<or> sector + cur * length segs \<le> s" for s n
  proof -
    let ?q = "s * KERNEL_SECTOR_SIZE" and ?m = "n * KERNEL_SECTOR_SIZE"
    have "?q + ?m \<le> ?p \<or> ?p + length (concat segs) \<le> ?q"
      using that cl by auto
    then have "region (blit d ?p (concat segs)) ?q ?m = region d ?q ?m"
    proof
      assume "?q + ?m \<le> ?p"
      then have "take (?q + ?m) (blit d ?p (concat segs)) = take (?q + ?m) d"
        using le by (intro take_blit) linarith+
      then show ?thesis unfolding region_def by (metis add.commute take_drop)
    next
      assume "?p + length (concat segs) \<le> ?q"
      then have "drop ?q (blit d ?p (concat segs)) = drop ?q d" using le by (intro drop_blit) linarith+
      then show ?thesis unfolding region_def by simp
    qed
    then show ?thesis using d by (simp add: sbull_bytes_def dev')
  qed
  ultimately show ?thesis using w wf' r(1) by blast
qed

definition tiny_disk :: sbull_dev where
  "tiny_disk = fst (setup_device (Some (replicate 1024 0)) True True 2 512)"

lemma tiny_disk_wf: "sbull_wf tiny_disk" "sb_size tiny_disk = 1024"
  by (simp_all add: tiny_disk_def setup_device_def sbull_wf_def s32_def)

theorem sbull_bio_roundtrip_witness:
  "\<exists>dev' out. sbull_xfer_segments tiny_disk 1 1 True [replicate 512 7] = Some (dev', [replicate 512 7]) \<and>
    sbull_xfer_segments dev' 1 1 False [replicate 512 0] = Some (dev', out) \<and>
    concat out = concat [replicate 512 7]"
  using sbull_bio_roundtrip[OF tiny_disk_wf(1), of 1 1 "[replicate 512 7]" "[replicate 512 0]" 1]
  by (simp add: tiny_disk_wf(2)) blast

text \<open>The life of the device: opening, closing while open, the timer while it is pending.\<close>

inductive sbull_step :: "(sbull_dev \<Rightarrow> sbull_dev) \<Rightarrow> sbull_dev \<Rightarrow> sbull_dev \<Rightarrow> bool" for cdc where
  step_open: "sbull_step cdc dev (sbull_open cdc dev)"
| step_release: "0 < sb_users dev \<Longrightarrow> sbull_step cdc dev (sbull_release dev)"
| step_timer: "sb_timer dev \<Longrightarrow> sbull_step cdc dev (fst (sbull_invalidate dev))"
| step_transfer: "0 < sb_users dev \<Longrightarrow> sbull_transfer dev sector nsect buf w = Some (dev', buf') \<Longrightarrow>
    sbull_step cdc dev dev'"

inductive sbull_reachable :: "(sbull_dev \<Rightarrow> sbull_dev) \<Rightarrow> sbull_dev \<Rightarrow> sbull_dev \<Rightarrow> bool" for cdc dev0 where
  reach_init: "sbull_reachable cdc dev0 dev0"
| reach_step: "sbull_reachable cdc dev0 dev \<Longrightarrow> sbull_step cdc dev dev' \<Longrightarrow> sbull_reachable cdc dev0 dev'"

inductive_cases sbull_stepE: "sbull_step cdc dev dev'"

definition users_ok :: "sbull_dev \<Rightarrow> bool" where
  "users_ok dev \<longleftrightarrow> 0 \<le> sb_users dev \<and> (sb_timer dev \<longrightarrow> sb_users dev = 0) \<and>
     (sb_media_change dev \<longrightarrow> sb_users dev = 0 \<and> \<not> sb_timer dev) \<and> sb_data dev \<noteq> None"

lemma transfer_users_ok:
  assumes "users_ok dev" "sbull_transfer dev sector nsect buf w = Some (dev', buf')"
  shows "users_ok dev'"
  using assms
  by (auto simp: sbull_transfer_def users_ok_def Let_def split: if_splits option.splits)

lemma step_users_ok:
  assumes cdc: "\<forall>d. cdc d = (if sbull_media_changed d then sbull_revalidate d else d)"
    and "users_ok dev" "sbull_step cdc dev dev'"
  shows "users_ok dev'"
  using assms(3)
proof cases
  case step_open
  then show ?thesis using assms(2) cdc
    by (auto simp: users_ok_def sbull_open_def sbull_media_changed_def sbull_revalidate_def Let_def)
next
  case step_release
  then show ?thesis using assms(2) by (auto simp: users_ok_def sbull_release_def Let_def)
next
  case step_timer
  then show ?thesis using assms(2) by (auto simp: users_ok_def sbull_invalidate_def Let_def)
next
  case (step_transfer sector nsect buf w buf')
  then show ?thesis using transfer_users_ok assms(2) by blast
qed

text \<open>
  With the kernel's \<open>check_disk_change\<close>, in every state the device can reach the timer is pending
  only while nobody uses it, so its sanity check never fails, and a medium marked as changed is never
  in use: the data is cleared only at the first \<open>open\<close> after the idle time.
\<close>

theorem sbull_timer_sane:
  assumes "\<forall>d. cdc d = (if sbull_media_changed d then sbull_revalidate d else d)"
    and "setup_device (Some d) True True n h = (dev0, cap)"
    and "sbull_reachable cdc dev0 dev"
  shows "(sb_timer dev \<longrightarrow> \<not> snd (sbull_invalidate dev)) \<and> (0 < sb_users dev \<longrightarrow> \<not> sb_media_change dev)"
proof -
  have "users_ok dev0" using assms(2) by (auto simp: setup_device_def users_ok_def)
  from assms(3) this have "users_ok dev"
    by (induction rule: sbull_reachable.induct) (use step_users_ok[OF assms(1)] in blast)+
  then show ?thesis by (auto simp: users_ok_def sbull_invalidate_def Let_def)
qed

theorem sbull_timer_sane_witness:
  "\<not> snd (sbull_invalidate (sbull_release (sbull_open
     (\<lambda>d. if sbull_media_changed d then sbull_revalidate d else d) tiny_disk)))"
proof -
  let ?cdc = "\<lambda>d. if sbull_media_changed d then sbull_revalidate d else d"
  have "sbull_reachable ?cdc tiny_disk (sbull_release (sbull_open ?cdc tiny_disk))"
    by (intro reach_step[OF reach_step[OF reach_init step_open]] step_release)
      (simp add: sbull_open_def tiny_disk_def setup_device_def sbull_media_changed_def)
  from sbull_timer_sane[OF _ surjective_pairing, of ?cdc "replicate 1024 0" 2 512,
      folded tiny_disk_def, OF _ this]
  show ?thesis
    by (simp add: sbull_open_def sbull_release_def tiny_disk_def setup_device_def sbull_media_changed_def)
qed

text \<open>
  When the queue or the disk structure cannot be allocated, \<open>setup_device\<close> frees the data but
  keeps the pointer, and removing the module frees it a second time.
\<close>

theorem sbull_double_vfree:
  assumes "\<not> (queue_ok \<and> disk_ok)" "setup_device (Some d) queue_ok disk_ok n h = (dev, cap)"
  shows "cap = None \<and> sb_vfrees dev = 1 \<and> sb_vfrees (sbull_exit_device dev) = 2"
  using assms by (auto simp: setup_device_def sbull_exit_device_def Let_def split: if_splits)

theorem sbull_double_vfree_witness:
  "sb_vfrees (sbull_exit_device (fst (setup_device (Some [0]) True False 2 512))) = 2"
  using sbull_double_vfree[OF _ surjective_pairing, of True False "[0]" 2 512] by simp

end
