(* ===== verification/Scull_Main.thy ===== *)
theory Scull_Main
  imports Byte_Store
begin

text \<open>
  The bare scull device (\<open>scull/dev/main.c\<close>): a linked list of quantum sets, each an array of
  \<open>qset\<close> pointers to buffers of \<open>quantum\<close> bytes.

  The list owned through \<open>dev->data\<close> is a list of items; an item is \<open>None\<close> while its \<open>data\<close>
  array is not allocated, a slot of the array is \<open>None\<close> while its quantum is not allocated, and a
  cell of a quantum is \<open>None\<close> from \<open>kmalloc\<close>, which leaves the memory uninitialised, until the
  first write to it.
\<close>

type_synonym cell = "byte option"
type_synonym qslot = "cell list option"
type_synonym qitem = "qslot list option"

record scull_dev =
  dev_data :: "qitem list"
  dev_quantum :: int
  dev_qset :: int
  dev_size :: nat

record scull_params =
  scull_quantum :: int
  scull_qset :: int
  scull_p_buffer :: int

abbreviation SCULL_QUANTUM :: int where "SCULL_QUANTUM \<equiv> 4000"
abbreviation SCULL_QSET :: int where "SCULL_QSET \<equiv> 1000"
abbreviation SCULL_P_BUFFER :: int where "SCULL_P_BUFFER \<equiv> 4000"

definition scull_default_params :: scull_params where
  "scull_default_params =
     \<lparr>scull_quantum = SCULL_QUANTUM, scull_qset = SCULL_QSET, scull_p_buffer = SCULL_P_BUFFER\<rparr>"

subsection \<open>Trimming\<close>

text \<open>
  The loop of \<open>scull_trim\<close> frees, per list item, the \<open>qset\<close> pointers of the array (\<open>kfree (NULL)\<close>
  does nothing), the array and the item.  The model returns the number of objects freed.
\<close>

fun scull_trim_loop :: "nat \<Rightarrow> qitem list \<Rightarrow> nat" where
  "scull_trim_loop qset [] = 0"
| "scull_trim_loop qset (None # next_items) = 1 + scull_trim_loop qset next_items"
| "scull_trim_loop qset (Some arr # next_items) =
     length (filter (\<lambda>q. q \<noteq> None) (take qset arr)) + 1 + 1 + scull_trim_loop qset next_items"

definition scull_trim :: "scull_params \<Rightarrow> scull_dev \<Rightarrow> scull_dev \<times> nat" where
  "scull_trim g dev =
     (dev\<lparr>dev_size := 0, dev_quantum := scull_quantum g, dev_qset := scull_qset g, dev_data := []\<rparr>,
      scull_trim_loop (nat (dev_qset dev)) (dev_data dev))"

datatype accmode = O_RDONLY | O_WRONLY | O_RDWR

definition scull_open :: "bool \<Rightarrow> scull_params \<Rightarrow> accmode \<Rightarrow> scull_dev \<Rightarrow> scull_dev \<times> int sysret" where
  "scull_open intr g flags dev =
     (if flags = O_WRONLY
      then (if intr then (dev, Err ERESTARTSYS) else (fst (scull_trim g dev), Ret 0))
      else (dev, Ret 0))"

definition scull_release :: "scull_dev \<Rightarrow> scull_dev \<times> int sysret" where
  "scull_release dev = (dev, Ret 0)"

subsection \<open>Following the list\<close>

text \<open>
  \<open>scull_follow_loop n k qs al\<close> is the loop \<open>while (n--)\<close> with \<open>qs\<close> pointing at item \<open>k\<close>: a missing
  \<open>next\<close> is allocated and zeroed; if the allocation fails the result is the null pointer.
\<close>

fun scull_follow_loop :: "nat \<Rightarrow> nat \<Rightarrow> qitem list \<Rightarrow> bool list \<Rightarrow> qitem list \<times> nat option \<times> bool list" where
  "scull_follow_loop 0 k qs al = (qs, Some k, al)"
| "scull_follow_loop (Suc n) k qs al =
     (if Suc k < length qs then scull_follow_loop n (Suc k) qs al
      else case kmalloc al of (ok, al') \<Rightarrow>
        if ok then scull_follow_loop n (Suc k) (qs @ [None]) al' else (qs, None, al'))"

text \<open>A negative \<open>n\<close> would count down through the whole range of \<open>int\<close>: \<open>n mod 2 ^ 32\<close> steps.\<close>

definition scull_follow :: "scull_dev \<Rightarrow> int \<Rightarrow> bool list \<Rightarrow> scull_dev \<times> nat option \<times> bool list" where
  "scull_follow dev n al =
     (let steps = nat (n mod 4294967296) in
      if dev_data dev = []
      then (case kmalloc al of (ok, al') \<Rightarrow>
        if \<not> ok then (dev, None, al')
        else case scull_follow_loop steps 0 [None] al' of (qs, r, al'') \<Rightarrow>
          (dev\<lparr>dev_data := qs\<rparr>, r, al''))
      else (case scull_follow_loop steps 0 (dev_data dev) al of (qs, r, al') \<Rightarrow>
          (dev\<lparr>dev_data := qs\<rparr>, r, al')))"

subsection \<open>Read and write\<close>

text \<open>
  List item, quantum index and offset of a position, computed as the code does, in \<open>int\<close>s.
  \<open>None\<close> is the division by zero.
\<close>

definition scull_locate :: "scull_dev \<Rightarrow> nat \<Rightarrow> (int \<times> int \<times> int) option" where
  "scull_locate dev f_pos =
     (let quantum = dev_quantum dev; qset = dev_qset dev; itemsize = s32 (quantum * qset) in
      if itemsize = 0 then None
      else let item = s32 (int f_pos sdiv itemsize); rest = s32 (int f_pos smod itemsize)
        in Some (item, rest sdiv quantum, rest smod quantum))"

text \<open>
  \<open>scull_read\<close> returns the device (following the list may extend it), the new \<open>*f_pos\<close> and the
  cells copied to user space, whose number is the code's return value.
\<close>

definition scull_read ::
  "bool \<Rightarrow> bool list \<Rightarrow> bool \<Rightarrow> scull_dev \<Rightarrow> nat \<Rightarrow> nat \<Rightarrow> scull_dev \<times> nat \<times> cell list sysret" where
  "scull_read intr al fault dev count f_pos =
     (if intr then (dev, f_pos, Err ERESTARTSYS)
      else if dev_size dev \<le> f_pos then (dev, f_pos, Ret [])
      else let count = (if dev_size dev < f_pos + count then dev_size dev - f_pos else count) in
        case scull_locate dev f_pos of
          None \<Rightarrow> (dev, f_pos, Oops)
        | Some (item, s_pos, q_pos) \<Rightarrow>
          (case scull_follow dev item al of
             (dev', None, _) \<Rightarrow> (dev', f_pos, Ret [])
           | (dev', Some k, _) \<Rightarrow>
             (case dev_data dev' ! k of
                None \<Rightarrow> (dev', f_pos, Ret [])
              | Some arr \<Rightarrow>
                if s_pos < 0 \<or> int (length arr) \<le> s_pos then (dev', f_pos, Oops)
                else (case arr ! nat s_pos of
                  None \<Rightarrow> (dev', f_pos, Ret [])
                | Some buf \<Rightarrow>
                  if q_pos < 0 \<or> int (length buf) \<le> q_pos then (dev', f_pos, Oops)
                  else let count = min count (nat (dev_quantum dev - q_pos)) in
                    if fault then (dev', f_pos, Err EFAULT)
                    else (dev', f_pos + count, Ret (region buf (nat q_pos) count))))))"

text \<open>\<open>if (!dptr->data) { kmalloc; memset }\<close> and \<open>if (!dptr->data[s_pos]) kmalloc\<close>.\<close>

definition scull_get_array :: "int \<Rightarrow> qitem \<Rightarrow> bool list \<Rightarrow> qslot list option \<times> bool list" where
  "scull_get_array qset it al =
     (case it of Some arr \<Rightarrow> (Some arr, al)
      | None \<Rightarrow> (case kmalloc al of (ok, al') \<Rightarrow>
          (if ok then Some (replicate (nat qset) None) else None, al')))"

definition scull_get_quantum :: "int \<Rightarrow> qslot \<Rightarrow> bool list \<Rightarrow> cell list option \<times> bool list" where
  "scull_get_quantum quantum q al =
     (case q of Some buf \<Rightarrow> (Some buf, al)
      | None \<Rightarrow> (case kmalloc al of (ok, al') \<Rightarrow>
          (if ok then Some (replicate (nat quantum) None) else None, al')))"

definition scull_write ::
  "bool \<Rightarrow> bool list \<Rightarrow> byte ucopy \<Rightarrow> scull_dev \<Rightarrow> byte list \<Rightarrow> nat \<Rightarrow> scull_dev \<times> nat \<times> nat sysret" where
  "scull_write intr al uc dev buf f_pos =
     (if intr then (dev, f_pos, Err ERESTARTSYS)
      else case scull_locate dev f_pos of
        None \<Rightarrow> (dev, f_pos, Oops)
      | Some (item, s_pos, q_pos) \<Rightarrow>
        (case scull_follow dev item al of
           (dev1, None, _) \<Rightarrow> (dev1, f_pos, Err ENOMEM)
         | (dev1, Some k, al1) \<Rightarrow>
           (case scull_get_array (dev_qset dev) (dev_data dev1 ! k) al1 of
              (None, _) \<Rightarrow> (dev1, f_pos, Err ENOMEM)
            | (Some arr, al2) \<Rightarrow>
              let dev2 = dev1\<lparr>dev_data := (dev_data dev1)[k := Some arr]\<rparr> in
              if s_pos < 0 \<or> int (length arr) \<le> s_pos then (dev2, f_pos, Oops)
              else (case scull_get_quantum (dev_quantum dev) (arr ! nat s_pos) al2 of
                (None, _) \<Rightarrow> (dev2, f_pos, Err ENOMEM)
              | (Some q, _) \<Rightarrow>
                if q_pos < 0 \<or> int (length q) \<le> q_pos
                then (dev2\<lparr>dev_data := (dev_data dev2)[k := Some (arr[nat s_pos := Some q])]\<rparr>, f_pos, Oops)
                else
                  let count = min (length buf) (nat (dev_quantum dev - q_pos));
                      q' = blit q (nat q_pos) (map Some (copy_in uc (take count buf)));
                      dev3 = dev2\<lparr>dev_data := (dev_data dev2)[k := Some (arr[nat s_pos := Some q'])]\<rparr>
                  in if uc \<noteq> Copied then (dev3, f_pos, Err EFAULT)
                     else (dev3\<lparr>dev_size := (if dev_size dev3 < f_pos + count then f_pos + count
                                            else dev_size dev3)\<rparr>,
                           f_pos + count, Ret count)))))"

subsection \<open>Seeking\<close>

definition scull_llseek :: "scull_dev \<Rightarrow> int \<Rightarrow> int \<Rightarrow> int \<Rightarrow> int \<times> int sysret" where
  "scull_llseek dev f_pos off whence =
     (if whence \<notin> {0, 1, 2} then (f_pos, Err EINVAL)
      else let newpos = (if whence = 0 then off
                         else if whence = 1 then s64 (f_pos + off)
                         else s64 (int (dev_size dev) + off))
        in if newpos < 0 then (f_pos, Err EINVAL) else (newpos, Ret newpos))"

subsection \<open>Control\<close>

text \<open>
  A command is its four bit fields (\<open>_IOC_DIR\<close>, \<open>_IOC_TYPE\<close>, \<open>_IOC_NR\<close>, \<open>_IOC_SIZE\<close>).  The
  environment of the call gives what the kernel services answer: \<open>access_ok\<close>, \<open>capable\<close>, the value
  \<open>__get_user\<close> reads (\<open>None\<close> on a fault) and whether \<open>__put_user\<close> succeeds.
\<close>

record ioc_cmd =
  ioc_read :: bool
  ioc_write :: bool
  ioc_type :: nat
  ioc_nr :: nat
  ioc_size :: nat

record ioctl_env =
  access_ok :: bool
  capable :: bool
  user_word :: "int option"
  put_ok :: bool

abbreviation SCULL_IOC_MAGIC :: nat where "SCULL_IOC_MAGIC \<equiv> 107"
abbreviation SCULL_IOC_MAXNR :: nat where "SCULL_IOC_MAXNR \<equiv> 14"

definition IO :: "nat \<Rightarrow> nat \<Rightarrow> ioc_cmd" where
  "IO ty nr = \<lparr>ioc_read = False, ioc_write = False, ioc_type = ty, ioc_nr = nr, ioc_size = 0\<rparr>"

definition IOR :: "nat \<Rightarrow> nat \<Rightarrow> ioc_cmd" where
  "IOR ty nr = \<lparr>ioc_read = True, ioc_write = False, ioc_type = ty, ioc_nr = nr, ioc_size = 4\<rparr>"

definition IOW :: "nat \<Rightarrow> nat \<Rightarrow> ioc_cmd" where
  "IOW ty nr = \<lparr>ioc_read = False, ioc_write = True, ioc_type = ty, ioc_nr = nr, ioc_size = 4\<rparr>"

definition IOWR :: "nat \<Rightarrow> nat \<Rightarrow> ioc_cmd" where
  "IOWR ty nr = \<lparr>ioc_read = True, ioc_write = True, ioc_type = ty, ioc_nr = nr, ioc_size = 4\<rparr>"

lemmas ioc_defs = IO_def IOR_def IOW_def IOWR_def

definition SCULL_IOCRESET :: ioc_cmd where "SCULL_IOCRESET = IO SCULL_IOC_MAGIC 0"
definition SCULL_IOCSQUANTUM :: ioc_cmd where "SCULL_IOCSQUANTUM = IOW SCULL_IOC_MAGIC 1"
definition SCULL_IOCSQSET :: ioc_cmd where "SCULL_IOCSQSET = IOW SCULL_IOC_MAGIC 2"
definition SCULL_IOCTQUANTUM :: ioc_cmd where "SCULL_IOCTQUANTUM = IO SCULL_IOC_MAGIC 3"
definition SCULL_IOCTQSET :: ioc_cmd where "SCULL_IOCTQSET = IO SCULL_IOC_MAGIC 4"
definition SCULL_IOCGQUANTUM :: ioc_cmd where "SCULL_IOCGQUANTUM = IOR SCULL_IOC_MAGIC 5"
definition SCULL_IOCGQSET :: ioc_cmd where "SCULL_IOCGQSET = IOR SCULL_IOC_MAGIC 6"
definition SCULL_IOCQQUANTUM :: ioc_cmd where "SCULL_IOCQQUANTUM = IO SCULL_IOC_MAGIC 7"
definition SCULL_IOCQQSET :: ioc_cmd where "SCULL_IOCQQSET = IO SCULL_IOC_MAGIC 8"
definition SCULL_IOCXQUANTUM :: ioc_cmd where "SCULL_IOCXQUANTUM = IOWR SCULL_IOC_MAGIC 9"
definition SCULL_IOCXQSET :: ioc_cmd where "SCULL_IOCXQSET = IOWR SCULL_IOC_MAGIC 10"
definition SCULL_IOCHQUANTUM :: ioc_cmd where "SCULL_IOCHQUANTUM = IO SCULL_IOC_MAGIC 11"
definition SCULL_IOCHQSET :: ioc_cmd where "SCULL_IOCHQSET = IO SCULL_IOC_MAGIC 12"
definition SCULL_P_IOCTSIZE :: ioc_cmd where "SCULL_P_IOCTSIZE = IO SCULL_IOC_MAGIC 13"
definition SCULL_P_IOCQSIZE :: ioc_cmd where "SCULL_P_IOCQSIZE = IO SCULL_IOC_MAGIC 14"

lemmas scull_cmd_defs =
  SCULL_IOCRESET_def SCULL_IOCSQUANTUM_def SCULL_IOCSQSET_def SCULL_IOCTQUANTUM_def
  SCULL_IOCTQSET_def SCULL_IOCGQUANTUM_def SCULL_IOCGQSET_def SCULL_IOCQQUANTUM_def
  SCULL_IOCQQSET_def SCULL_IOCXQUANTUM_def SCULL_IOCXQSET_def SCULL_IOCHQUANTUM_def
  SCULL_IOCHQSET_def SCULL_P_IOCTSIZE_def SCULL_P_IOCQSIZE_def

text \<open>
  The result of \<open>scull_ioctl\<close>: the parameters, the word \<open>__put_user\<close> stored in user memory (if it
  did), and the return value.
\<close>

type_synonym ioctl_result = "scull_params \<times> int option \<times> int sysret"

definition put_reply :: "ioctl_env \<Rightarrow> scull_params \<Rightarrow> int \<Rightarrow> ioctl_result" where
  "put_reply env g v = (if put_ok env then (g, Some v, Ret 0) else (g, None, Err EFAULT))"

definition get_reply :: "scull_params \<Rightarrow> bool \<Rightarrow> ioctl_result" where
  "get_reply g got = (g, None, if got then Ret 0 else Err EFAULT)"

definition scull_ioctl :: "ioctl_env \<Rightarrow> scull_params \<Rightarrow> ioc_cmd \<Rightarrow> nat \<Rightarrow> ioctl_result" where
  "scull_ioctl env g cmd arg =
     (if ioc_type cmd \<noteq> SCULL_IOC_MAGIC then (g, None, Err ENOTTY)
      else if ioc_nr cmd > SCULL_IOC_MAXNR then (g, None, Err ENOTTY)
      else if (ioc_read cmd \<or> ioc_write cmd) \<and> \<not> access_ok env then (g, None, Err EFAULT)
      else if cmd = SCULL_IOCRESET
        then (g\<lparr>scull_quantum := SCULL_QUANTUM, scull_qset := SCULL_QSET\<rparr>, None, Ret 0)
      else if cmd = SCULL_IOCSQUANTUM then
        (if \<not> capable env then (g, None, Err EPERM)
         else case get_user (user_word env) of (v, got) \<Rightarrow>
           get_reply (g\<lparr>scull_quantum := s32 v\<rparr>) got)
      else if cmd = SCULL_IOCTQUANTUM then
        (if \<not> capable env then (g, None, Err EPERM)
         else (g\<lparr>scull_quantum := s32 (int arg)\<rparr>, None, Ret 0))
      else if cmd = SCULL_IOCGQUANTUM then put_reply env g (scull_quantum g)
      else if cmd = SCULL_IOCQQUANTUM then (g, None, Ret (scull_quantum g))
      else if cmd = SCULL_IOCXQUANTUM then
        (if \<not> capable env then (g, None, Err EPERM)
         else let tmp = scull_quantum g in case get_user (user_word env) of (v, got) \<Rightarrow>
           (if got then put_reply env (g\<lparr>scull_quantum := s32 v\<rparr>) tmp
            else get_reply (g\<lparr>scull_quantum := s32 v\<rparr>) got))
      else if cmd = SCULL_IOCHQUANTUM then
        (if \<not> capable env then (g, None, Err EPERM)
         else let tmp = scull_quantum g in (g\<lparr>scull_quantum := s32 (int arg)\<rparr>, None, Ret tmp))
      else if cmd = SCULL_IOCSQSET then
        (if \<not> capable env then (g, None, Err EPERM)
         else case get_user (user_word env) of (v, got) \<Rightarrow>
           get_reply (g\<lparr>scull_qset := s32 v\<rparr>) got)
      else if cmd = SCULL_IOCTQSET then
        (if \<not> capable env then (g, None, Err EPERM)
         else (g\<lparr>scull_qset := s32 (int arg)\<rparr>, None, Ret 0))
      else if cmd = SCULL_IOCGQSET then put_reply env g (scull_qset g)
      else if cmd = SCULL_IOCQQSET then (g, None, Ret (scull_qset g))
      else if cmd = SCULL_IOCXQSET then
        (if \<not> capable env then (g, None, Err EPERM)
         else let tmp = scull_qset g in case get_user (user_word env) of (v, got) \<Rightarrow>
           (if got then put_reply env (g\<lparr>scull_qset := s32 v\<rparr>) tmp
            else get_reply (g\<lparr>scull_qset := s32 v\<rparr>) got))
      else if cmd = SCULL_IOCHQSET then
        (if \<not> capable env then (g, None, Err EPERM)
         else let tmp = scull_qset g in (g\<lparr>scull_qset := s32 (int arg)\<rparr>, None, Ret tmp))
      else if cmd = SCULL_P_IOCTSIZE then (g\<lparr>scull_p_buffer := s32 (int arg)\<rparr>, None, Ret 0)
      else if cmd = SCULL_P_IOCQSIZE then (g, None, Ret (scull_p_buffer g))
      else (g, None, Err ENOTTY))"

subsection \<open>Well-formedness\<close>

definition scull_Q :: "scull_dev \<Rightarrow> nat" where
  "scull_Q dev = nat (dev_quantum dev)"

definition scull_S :: "scull_dev \<Rightarrow> nat" where
  "scull_S dev = nat (dev_qset dev)"

definition qitem_wf :: "nat \<Rightarrow> nat \<Rightarrow> qitem \<Rightarrow> bool" where
  "qitem_wf Q S it = (case it of None \<Rightarrow> True
     | Some arr \<Rightarrow> length arr = S \<and> (\<forall>q \<in> set arr. case q of None \<Rightarrow> True | Some b \<Rightarrow> length b = Q))"

definition scull_wf :: "scull_dev \<Rightarrow> bool" where
  "scull_wf dev \<longleftrightarrow> 0 < dev_quantum dev \<and> 0 < dev_qset dev \<and>
     dev_quantum dev * dev_qset dev < 2147483648 \<and>
     (\<forall>it \<in> set (dev_data dev). qitem_wf (scull_Q dev) (scull_S dev) it) \<and>
     dev_size dev \<le> length (dev_data dev) * (scull_Q dev * scull_S dev)"

text \<open>Positions whose list item number is an \<open>int\<close>.\<close>

definition scull_limit :: "scull_dev \<Rightarrow> nat" where
  "scull_limit dev = 2147483648 * (scull_Q dev * scull_S dev)"

text \<open>The quantum number \<open>b\<close> of the device, and the byte at a position.\<close>

definition scull_slot :: "scull_dev \<Rightarrow> nat \<Rightarrow> qslot" where
  "scull_slot dev b =
     (let k = b div scull_S dev in
      if k < length (dev_data dev)
      then (case dev_data dev ! k of None \<Rightarrow> None | Some arr \<Rightarrow> arr ! (b mod scull_S dev))
      else None)"

definition scull_peek :: "scull_dev \<Rightarrow> nat \<Rightarrow> cell" where
  "scull_peek dev i =
     (case scull_slot dev (i div scull_Q dev) of None \<Rightarrow> None | Some b \<Rightarrow> b ! (i mod scull_Q dev))"

lemma scull_wf_pos:
  assumes "scull_wf dev"
  shows "0 < scull_Q dev" "0 < scull_S dev" "dev_quantum dev = int (scull_Q dev)"
    "dev_qset dev = int (scull_S dev)" "int (scull_Q dev) * int (scull_S dev) < 2147483648"
  using assms by (simp_all add: scull_wf_def scull_Q_def scull_S_def)

lemma scull_locate_wf:
  assumes wf: "scull_wf dev" and p: "p < scull_limit dev"
  shows "scull_locate dev p =
    Some (int (p div scull_Q dev div scull_S dev), int (p div scull_Q dev mod scull_S dev),
          int (p mod scull_Q dev))"
proof -
  let ?Q = "scull_Q dev" and ?S = "scull_S dev"
  note W = scull_wf_pos[OF wf]
  have small: "?Q * ?S < 2147483648"
    using W(5) by (metis of_nat_less_numeral_iff of_nat_mult)
  have isz: "s32 (dev_quantum dev * dev_qset dev) = int (?Q * ?S)"
    unfolding W(3,4) of_nat_mult[symmetric] by (rule s32_nat[OF small])
  have item: "s32 (int p sdiv int (?Q * ?S)) = int (p div (?Q * ?S))"
    unfolding sdiv_nat using p
    by (intro s32_nat) (simp add: scull_limit_def less_mult_imp_div_less)
  have "p mod (?Q * ?S) < ?Q * ?S" using W(1,2) by simp
  then have rest: "s32 (int p smod int (?Q * ?S)) = int (p mod (?Q * ?S))"
    unfolding smod_nat using small by (intro s32_nat) linarith
  have ne: "int (?Q * ?S) \<noteq> 0" using W(1,2) by simp
  have dm: "p mod (?Q * ?S) div ?Q = p div ?Q mod ?S" "p mod (?Q * ?S) mod ?Q = p mod ?Q"
    using W(1) by (simp_all add: mod_mult2_eq mod_mod_cancel)
  show ?thesis
    unfolding scull_locate_def Let_def isz item rest if_not_P[OF ne]
    unfolding W(3) sdiv_nat smod_nat dm by (simp add: div_mult2_eq)
qed

subsection \<open>The list and the slots\<close>

lemma scull_follow_loop_append:
  assumes "scull_follow_loop n k qs al = (qs', r, al')" "k < length qs"
  shows "\<exists>m. qs' = qs @ replicate m None \<and> (\<forall>j. r = Some j \<longrightarrow> j = k + n \<and> j < length qs')"
  using assms
proof (induction n k qs al arbitrary: qs' r al' rule: scull_follow_loop.induct)
  case (1 k qs al)
  then show ?case by (auto intro: exI[of _ 0])
next
  case (2 n k qs al)
  show ?case
  proof (cases "Suc k < length qs")
    case True
    with 2 show ?thesis by auto
  next
    case False
    obtain ok al1 where al: "kmalloc al = (ok, al1)" by force
    show ?thesis
    proof (cases ok)
      case True
      have "\<exists>m. qs' = (qs @ [None]) @ replicate m None \<and>
          (\<forall>j. r = Some j \<longrightarrow> j = Suc k + n \<and> j < length qs')"
        using "2.prems" False al True by (intro "2.IH"(2)[OF False al[symmetric]]) auto
      then show ?thesis by (metis add_Suc_shift append.assoc append_Cons append_Nil replicate_Suc)
    next
      case nok: False
      with "2.prems" False al show ?thesis by (auto intro: exI[of _ 0])
    qed
  qed
qed

lemma scull_follow_loop_total:
  "k < length qs \<Longrightarrow>
   scull_follow_loop n k qs [] = (qs @ replicate (Suc (k + n) - length qs) None, Some (k + n), [])"
proof (induction n arbitrary: k qs)
  case 0
  then show ?case by simp
next
  case (Suc n)
  then have "length (qs @ [None]) = Suc (Suc k)" if "\<not> Suc k < length qs"
    using that by simp
  then show ?case using Suc by (auto simp: replicate_append_same simp flip: replicate_Suc)
qed

lemma scull_dev_data_id [simp]: "dev\<lparr>dev_data := dev_data dev\<rparr> = dev"
  by (cases dev) simp

lemma scull_follow_eq:
  assumes "n < 2147483648"
  shows "scull_follow dev (int n) al =
    (if dev_data dev = []
     then (case kmalloc al of (ok, al') \<Rightarrow>
       if \<not> ok then (dev, None, al')
       else case scull_follow_loop n 0 [None] al' of (qs, r, al'') \<Rightarrow> (dev\<lparr>dev_data := qs\<rparr>, r, al''))
     else (case scull_follow_loop n 0 (dev_data dev) al of (qs, r, al') \<Rightarrow>
       (dev\<lparr>dev_data := qs\<rparr>, r, al')))"
proof -
  have "nat (int n mod 4294967296) = n" using assms by simp
  then show ?thesis unfolding scull_follow_def Let_def by (simp only:)
qed

lemma scull_follow_append:
  assumes "scull_follow dev (int n) al = (dev', r, al')" "n < 2147483648"
  shows "\<exists>m. dev' = dev\<lparr>dev_data := dev_data dev @ replicate m None\<rparr> \<and>
    (\<forall>j. r = Some j \<longrightarrow> j = n \<and> n < length (dev_data dev'))"
proof (cases "dev_data dev = []")
  case True
  obtain ok al1 where al: "kmalloc al = (ok, al1)" by force
  obtain qs r1 al2 where l: "scull_follow_loop n 0 [None] al1 = (qs, r1, al2)"
    by (metis prod_cases3)
  note f = assms(1)[unfolded scull_follow_eq[OF assms(2)]]
  show ?thesis
  proof (cases ok)
    case ok: True
    from scull_follow_loop_append[OF l] obtain m where
      m: "qs = [None] @ replicate m None" "\<forall>j. r1 = Some j \<longrightarrow> j = 0 + n \<and> j < length qs"
      by auto
    have "dev' = dev\<lparr>dev_data := qs\<rparr>" "r = r1" using f True al l ok by auto
    with True m show ?thesis by (intro exI[of _ "Suc m"]) auto
  next
    case False
    with f True al show ?thesis by (intro exI[of _ 0]) simp
  qed
next
  case False
  obtain qs r1 al2 where l: "scull_follow_loop n 0 (dev_data dev) al = (qs, r1, al2)"
    by (metis prod_cases3)
  from scull_follow_loop_append[OF l] False obtain m where
    m: "qs = dev_data dev @ replicate m None" "\<forall>j. r1 = Some j \<longrightarrow> j = 0 + n \<and> j < length qs"
    by auto
  have "dev' = dev\<lparr>dev_data := qs\<rparr>" "r = r1"
    using assms(1)[unfolded scull_follow_eq[OF assms(2)]] False l by auto
  with m show ?thesis by (intro exI[of _ m]) auto
qed

lemma scull_follow_total:
  assumes "n < 2147483648"
  shows "\<exists>m. scull_follow dev (int n) [] =
    (dev\<lparr>dev_data := dev_data dev @ replicate m None\<rparr>, Some n, [])"
proof (cases "dev_data dev")
  case Nil
  then show ?thesis unfolding scull_follow_eq[OF assms]
    by (intro exI[of _ "Suc n"]) (simp add: scull_follow_loop_total)
next
  case (Cons it its)
  then show ?thesis unfolding scull_follow_eq[OF assms]
    by (intro exI[of _ "Suc n - length (dev_data dev)"]) (simp add: scull_follow_loop_total)
qed

lemma scull_follow_present:
  assumes "n < length (dev_data dev)" "n < 2147483648"
  shows "scull_follow dev (int n) al = (dev, Some n, al)"
proof -
  have "scull_follow_loop n k qs al = (qs, Some (k + n), al)" if "k + n < length qs" for k qs
    using that by (induction n arbitrary: k) auto
  from this[of 0 "dev_data dev"] assms show ?thesis
    by (auto simp: scull_follow_def)
qed

lemma scull_QS_update [simp]:
  "scull_Q (dev\<lparr>dev_data := d\<rparr>) = scull_Q dev" "scull_S (dev\<lparr>dev_data := d\<rparr>) = scull_S dev"
  "scull_Q (dev\<lparr>dev_size := n\<rparr>) = scull_Q dev" "scull_S (dev\<lparr>dev_size := n\<rparr>) = scull_S dev"
  "scull_limit (dev\<lparr>dev_data := d\<rparr>) = scull_limit dev"
  "scull_limit (dev\<lparr>dev_size := n\<rparr>) = scull_limit dev"
  by (simp_all add: scull_Q_def scull_S_def scull_limit_def)

lemma scull_slot_append [simp]:
  "scull_slot (dev\<lparr>dev_data := dev_data dev @ replicate m None\<rparr>) = scull_slot dev"
  by (rule ext) (auto simp: scull_slot_def Let_def nth_append split: option.split)

lemma scull_slot_new_array:
  assumes "0 < scull_S dev" "k < length (dev_data dev)" "dev_data dev ! k = None"
  shows "scull_slot (dev\<lparr>dev_data := (dev_data dev)[k := Some (replicate (scull_S dev) None)]\<rparr>) =
    scull_slot dev"
proof (rule ext)
  fix b
  show "scull_slot (dev\<lparr>dev_data := (dev_data dev)[k := Some (replicate (scull_S dev) None)]\<rparr>) b =
    scull_slot dev b"
    using assms by (auto simp: scull_slot_def Let_def nth_list_update split: option.split)
qed

lemma scull_slot_set:
  assumes "k < length (dev_data dev)" "dev_data dev ! k = Some arr" "length arr = scull_S dev"
    "s < scull_S dev"
  shows "scull_slot (dev\<lparr>dev_data := (dev_data dev)[k := Some (arr[s := v])]\<rparr>) b =
    (if b = k * scull_S dev + s then v else scull_slot dev b)"
proof -
  have "b div scull_S dev = k \<and> b mod scull_S dev = s \<longleftrightarrow> b = k * scull_S dev + s"
    using assms(4) by (metis div_mult_mod_eq div_mult_self3 mod_mult_self3 mod_less
        div_less add.right_neutral add_0 gr_implies_not0)
  with assms show ?thesis
    by (auto simp: scull_slot_def Let_def nth_list_update split: option.split)
qed

lemma scull_slot_cong:
  "scull_Q d = scull_Q d' \<Longrightarrow> scull_slot d = scull_slot d' \<Longrightarrow> scull_peek d = scull_peek d'"
  by (rule ext) (simp add: scull_peek_def split: option.split)

lemma scull_slot_size [simp]:
  "scull_slot (dev\<lparr>dev_size := n\<rparr>) = scull_slot dev" "scull_peek (dev\<lparr>dev_size := n\<rparr>) = scull_peek dev"
  by (rule ext, simp add: scull_slot_def Let_def split: option.split)
    (rule ext, simp add: scull_slot_def scull_peek_def Let_def split: option.split)

subsection \<open>Preservation of well-formedness\<close>

lemma qitem_wf_simps [simp]:
  "qitem_wf Q S None"
  "qitem_wf Q S (Some (replicate S None))"
  by (auto simp: qitem_wf_def)

lemma qitem_wf_set:
  "qitem_wf Q S (Some arr) \<Longrightarrow> length q = Q \<Longrightarrow> qitem_wf Q S (Some (arr[s := Some q]))"
  by (auto simp: qitem_wf_def split: option.splits dest!: set_update_subset_insert[THEN subsetD])

lemma scull_wf_append:
  "scull_wf dev \<Longrightarrow> scull_wf (dev\<lparr>dev_data := dev_data dev @ replicate m None\<rparr>)"
  by (auto simp: scull_wf_def algebra_simps)

lemma scull_wf_item:
  "scull_wf dev \<Longrightarrow> qitem_wf (scull_Q dev) (scull_S dev) it \<Longrightarrow>
   scull_wf (dev\<lparr>dev_data := (dev_data dev)[k := it]\<rparr>)"
  by (auto simp: scull_wf_def dest!: set_update_subset_insert[THEN subsetD])

lemma scull_wf_size:
  "scull_wf dev \<Longrightarrow> n \<le> length (dev_data dev) * (scull_Q dev * scull_S dev) \<Longrightarrow>
   scull_wf (dev\<lparr>dev_size := n\<rparr>)"
  by (auto simp: scull_wf_def)

lemma scull_wf_nth:
  "scull_wf dev \<Longrightarrow> k < length (dev_data dev) \<Longrightarrow>
   qitem_wf (scull_Q dev) (scull_S dev) (dev_data dev ! k)"
  by (auto simp: scull_wf_def)

text \<open>\<open>scull_like d d'\<close>: same geometry, same size, same bytes.\<close>

definition scull_like :: "scull_dev \<Rightarrow> scull_dev \<Rightarrow> bool" where
  "scull_like d d' \<longleftrightarrow> scull_wf d' \<and> dev_quantum d' = dev_quantum d \<and> dev_qset d' = dev_qset d \<and>
     dev_size d' = dev_size d \<and> scull_slot d' = scull_slot d"

lemma scull_likeD:
  assumes "scull_like d d'"
  shows "scull_wf d'" "scull_Q d' = scull_Q d" "scull_S d' = scull_S d" "dev_size d' = dev_size d"
    "scull_slot d' = scull_slot d" "scull_peek d' = scull_peek d" "scull_limit d' = scull_limit d"
    "dev_quantum d' = dev_quantum d" "dev_qset d' = dev_qset d"
  using assms
  by (auto simp: scull_like_def scull_Q_def scull_S_def scull_limit_def intro!: scull_slot_cong)

lemma scull_like_refl: "scull_wf d \<Longrightarrow> scull_like d d"
  by (simp add: scull_like_def)

lemma scull_like_trans: "scull_like a b \<Longrightarrow> scull_like b c \<Longrightarrow> scull_like a c"
  by (simp add: scull_like_def)

lemma scull_follow_like:
  assumes "scull_wf dev" "scull_follow dev (int n) al = (dev', r, al')" "n < 2147483648"
  shows "scull_like dev dev'" "r = Some j \<Longrightarrow> j = n \<and> n < length (dev_data dev')"
proof -
  from scull_follow_append[OF assms(2,3)] obtain m where
    m: "dev' = dev\<lparr>dev_data := dev_data dev @ replicate m None\<rparr>"
       "\<forall>j. r = Some j \<longrightarrow> j = n \<and> n < length (dev_data dev')" by blast
  show "scull_like dev dev'"
    using assms(1) by (simp add: m(1) scull_like_def scull_wf_append)
  show "r = Some j \<Longrightarrow> j = n \<and> n < length (dev_data dev')" using m(2) by blast
qed

lemma scull_get_array_like:
  assumes "scull_wf dev" "k < length (dev_data dev)"
    "scull_get_array (dev_qset dev) (dev_data dev ! k) al = (Some arr, al')"
  shows "scull_like dev (dev\<lparr>dev_data := (dev_data dev)[k := Some arr]\<rparr>)"
    "qitem_wf (scull_Q dev) (scull_S dev) (Some arr)"
proof -
  have S: "nat (dev_qset dev) = scull_S dev" "0 < scull_S dev"
    using scull_wf_pos[OF assms(1)] by simp_all
  consider "dev_data dev ! k = Some arr" | "dev_data dev ! k = None" "arr = replicate (scull_S dev) None"
    using assms(3) S by (auto simp: scull_get_array_def split: option.splits if_splits prod.splits)
  then have "scull_like dev (dev\<lparr>dev_data := (dev_data dev)[k := Some arr]\<rparr>) \<and>
    qitem_wf (scull_Q dev) (scull_S dev) (Some arr)"
  proof cases
    case 1
    then have "(dev_data dev)[k := Some arr] = dev_data dev" by (metis list_update_id)
    with assms(1) scull_wf_nth[OF assms(1,2)] 1 show ?thesis by (simp add: scull_like_refl)
  next
    case 2
    with assms(1,2) S(2) show ?thesis
      by (simp add: scull_like_def scull_wf_item scull_slot_new_array)
  qed
  then show "scull_like dev (dev\<lparr>dev_data := (dev_data dev)[k := Some arr]\<rparr>)"
    "qitem_wf (scull_Q dev) (scull_S dev) (Some arr)" by blast+
qed

text \<open>Storing bytes in quantum \<open>b\<close> of a device whose array for it is present.\<close>

lemma scull_store:
  fixes p :: nat
  defines "b \<equiv> \<lambda>dev. p div scull_Q dev"
  assumes wf: "scull_wf dev" and k: "k = b dev div scull_S dev" "k < length (dev_data dev)"
    and arr: "dev_data dev ! k = Some arr"
    and q: "length q = scull_Q dev"
      "\<And>j. j < scull_Q dev \<Longrightarrow> q ! j = (case scull_slot dev (b dev) of None \<Rightarrow> None | Some c \<Rightarrow> c ! j)"
    and ys: "length ys \<le> scull_Q dev - p mod scull_Q dev"
    and d': "dev' = dev\<lparr>dev_data :=
      (dev_data dev)[k := Some (arr[b dev mod scull_S dev := Some (blit q (p mod scull_Q dev) ys)])]\<rparr>"
  shows "scull_wf dev'"
    "scull_peek dev' i = (if p \<le> i \<and> i < p + length ys then ys ! (i - p) else scull_peek dev i)"
proof -
  let ?Q = "scull_Q dev" and ?S = "scull_S dev"
  note W = scull_wf_pos[OF wf]
  have lt: "p mod ?Q < ?Q" "b dev mod ?S < ?S" using W by simp_all
  have fits: "p mod ?Q + length ys \<le> length q" using ys q(1) lt by linarith
  have it: "qitem_wf ?Q ?S (Some arr)" using scull_wf_nth[OF wf k(2)] arr by simp
  then have la: "length arr = ?S" by (simp add: qitem_wf_def)
  show "scull_wf dev'"
    unfolding d' using fits q(1) by (intro scull_wf_item[OF wf] qitem_wf_set[OF it]) simp
  have slot: "scull_slot dev' c = (if c = b dev then Some (blit q (p mod ?Q) ys) else scull_slot dev c)" for c
    unfolding d' using scull_slot_set[OF k(2) arr la lt(2)] by (simp add: k(1))
  have eq: "p \<le> i \<and> i < p + length ys \<longleftrightarrow>
      i div ?Q = b dev \<and> p mod ?Q \<le> i mod ?Q \<and> i mod ?Q < p mod ?Q + length ys"
    unfolding b_def by (rule block_range[OF W(1) ys])
  have im: "i mod ?Q < length q" using W(1) q(1) by simp
  show "scull_peek dev' i = (if p \<le> i \<and> i < p + length ys then ys ! (i - p) else scull_peek dev i)"
  proof (cases "i div ?Q = b dev")
    case True
    have "scull_Q dev' = ?Q" by (simp add: d')
    then have "scull_peek dev' i = blit q (p mod ?Q) ys ! (i mod ?Q)"
      using slot True by (simp add: scull_peek_def)
    also have "\<dots> = (if p \<le> i \<and> i < p + length ys then ys ! (i - p) else q ! (i mod ?Q))"
      using eq True block_diff[of i ?Q p]
      by (simp add: nth_blit[OF fits im] b_def)
    also have "q ! (i mod ?Q) = scull_peek dev i"
      using q(2)[of "i mod ?Q"] W(1) True by (simp add: scull_peek_def)
    finally show ?thesis .
  next
    case False
    have "scull_Q dev' = ?Q" by (simp add: d')
    then have "scull_peek dev' i = scull_peek dev i"
      using slot False by (simp add: scull_peek_def split: option.split)
    with eq False show ?thesis by auto
  qed
qed

subsection \<open>What a write does\<close>

definition scull_chunk :: "scull_dev \<Rightarrow> nat \<Rightarrow> nat \<Rightarrow> nat" where
  "scull_chunk dev p n = min n (scull_Q dev - p mod scull_Q dev)"

lemma scull_get_quantum_spec:
  assumes "scull_get_quantum (int (scull_Q dev)) (scull_slot dev b) al = (Some q, al')"
    "\<And>c. scull_slot dev b = Some c \<Longrightarrow> length c = scull_Q dev"
  shows "length q = scull_Q dev"
    "j < scull_Q dev \<Longrightarrow> q ! j = (case scull_slot dev b of None \<Rightarrow> None | Some c \<Rightarrow> c ! j)"
  using assms by (auto simp: scull_get_quantum_def split: option.splits if_splits prod.splits)

lemma scull_slot_present:
  assumes "scull_wf dev" "b div scull_S dev < length (dev_data dev)"
    "dev_data dev ! (b div scull_S dev) = Some arr"
  shows "scull_slot dev b = arr ! (b mod scull_S dev)" "b mod scull_S dev < length arr"
    "scull_slot dev b = Some c \<Longrightarrow> length c = scull_Q dev"
proof -
  have "qitem_wf (scull_Q dev) (scull_S dev) (Some arr)"
    using scull_wf_nth[OF assms(1,2)] assms(3) by simp
  then have la: "length arr = scull_S dev"
    and el: "\<forall>q \<in> set arr. case q of None \<Rightarrow> True | Some c \<Rightarrow> length c = scull_Q dev"
    by (auto simp: qitem_wf_def)
  show s: "scull_slot dev b = arr ! (b mod scull_S dev)"
    using assms by (simp add: scull_slot_def)
  show lt: "b mod scull_S dev < length arr" using la scull_wf_pos[OF assms(1)] by simp
  show "scull_slot dev b = Some c \<Longrightarrow> length c = scull_Q dev"
    using el nth_mem[OF lt] s by fastforce
qed

text \<open>The three outcomes of a write whose position is in range.\<close>

definition write_nomem :: "scull_dev \<Rightarrow> nat \<Rightarrow> scull_dev \<times> nat \<times> nat sysret \<Rightarrow> bool" where
  "write_nomem dev p R \<longleftrightarrow> (\<exists>dev'. R = (dev', p, Err ENOMEM) \<and> scull_like dev dev')"

definition write_fault :: "scull_dev \<Rightarrow> nat \<Rightarrow> nat \<Rightarrow> scull_dev \<times> nat \<times> nat sysret \<Rightarrow> bool" where
  "write_fault dev p c R \<longleftrightarrow> (\<exists>dev'. R = (dev', p, Err EFAULT) \<and> scull_wf dev' \<and>
     dev_quantum dev' = dev_quantum dev \<and> dev_qset dev' = dev_qset dev \<and> dev_size dev' = dev_size dev \<and>
     (\<forall>i. i < p \<or> p + c \<le> i \<longrightarrow> scull_peek dev' i = scull_peek dev i))"

definition write_done :: "scull_dev \<Rightarrow> byte list \<Rightarrow> nat \<Rightarrow> nat \<Rightarrow> scull_dev \<times> nat \<times> nat sysret \<Rightarrow> bool" where
  "write_done dev buf p c R \<longleftrightarrow> (\<exists>dev'. R = (dev', p + c, Ret c) \<and> scull_wf dev' \<and>
     dev_quantum dev' = dev_quantum dev \<and> dev_qset dev' = dev_qset dev \<and>
     dev_size dev' = max (dev_size dev) (p + c) \<and>
     (\<forall>i. scull_peek dev' i = (if p \<le> i \<and> i < p + c then Some (buf ! (i - p)) else scull_peek dev i)))"

lemma scull_write_copy:
  assumes wf: "scull_wf dev" and k: "k = p div scull_Q dev div scull_S dev" "k < length (dev_data dev)"
    and arr: "dev_data dev ! k = Some arr"
    and gq: "scull_get_quantum (int (scull_Q dev)) (scull_slot dev (p div scull_Q dev)) al = (Some q, al')"
    and c: "c = scull_chunk dev p (length buf)"
    and d': "dev' = dev\<lparr>dev_data := (dev_data dev)[k :=
      Some (arr[p div scull_Q dev mod scull_S dev :=
        Some (blit q (p mod scull_Q dev) (map Some (copy_in uc (take c buf))))])]\<rparr>"
  shows "uc \<noteq> Copied \<Longrightarrow> write_fault dev p c (dev', p, Err EFAULT)"
    and "uc = Copied \<Longrightarrow> write_done dev buf p c
      (dev'\<lparr>dev_size := (if dev_size dev' < p + c then p + c else dev_size dev')\<rparr>, p + c, Ret c)"
proof -
  let ?Q = "scull_Q dev" and ?S = "scull_S dev" and ?ys = "map Some (copy_in uc (take c buf))"
  note W = scull_wf_pos[OF wf]
  note sl = scull_slot_present[OF wf, of "p div ?Q" arr, folded k(1), OF k(2) arr]
  note q = scull_get_quantum_spec[OF gq sl(3)]
  have cl: "c \<le> length buf" "c \<le> ?Q - p mod ?Q" by (simp_all add: c scull_chunk_def)
  have ys: "length ?ys \<le> c"
    using length_copy_in_le[of uc "take c buf"] by (simp del: length_copy_in_le)
  have yl: "length ?ys \<le> ?Q - p mod ?Q" using ys cl(2) by linarith
  have wf': "scull_wf dev'"
    and pk: "\<And>i. scull_peek dev' i = (if p \<le> i \<and> i < p + length ?ys then ?ys ! (i - p) else scull_peek dev i)"
    using scull_store[OF wf k arr q yl d'] by blast+
  have len: "length (dev_data dev') = length (dev_data dev)" by (simp add: d')
  show "uc \<noteq> Copied \<Longrightarrow> write_fault dev p c (dev', p, Err EFAULT)"
    unfolding write_fault_def using wf' pk ys by (auto simp: d')
  show "write_done dev buf p c
      (dev'\<lparr>dev_size := (if dev_size dev' < p + c then p + c else dev_size dev')\<rparr>, p + c, Ret c)"
    if uc: "uc = Copied"
  proof -
    have yc: "length ?ys = c" using uc cl(1) by simp
    have "Suc k * (?Q * ?S) \<le> length (dev_data dev') * (?Q * ?S)"
      using k(2) len by (intro mult_le_mono1) simp
    then have sz: "p + c \<le> length (dev_data dev') * (scull_Q dev' * scull_S dev')"
      using block_end[OF W(1,2) cl(2)] k(1) d' by (simp only: scull_QS_update)
    have sz': "dev_size dev' = dev_size dev" by (simp add: d')
    have "(if dev_size dev' < p + c then p + c else dev_size dev')
        \<le> length (dev_data dev') * (scull_Q dev' * scull_S dev')"
      using sz wf' by (simp add: scull_wf_def)
    then have "scull_wf (dev'\<lparr>dev_size := (if dev_size dev' < p + c then p + c else dev_size dev')\<rparr>)"
      by (rule scull_wf_size[OF wf'])
    moreover have "scull_peek dev' i = (if p \<le> i \<and> i < p + c then Some (buf ! (i - p)) else scull_peek dev i)" for i
      using pk[of i, unfolded yc] cl(1) uc by auto
    ultimately show ?thesis unfolding write_done_def by (auto simp: d')
  qed
qed

text \<open>A write at a position in range, in terms of its three allocation steps.\<close>

lemma scull_write_eq:
  assumes wf: "scull_wf dev" and p: "p < scull_limit dev"
    and k: "k = p div scull_Q dev div scull_S dev"
    and s: "s = p div scull_Q dev mod scull_S dev"
  shows "scull_write False al uc dev buf p =
    (case scull_follow dev (int k) al of
       (dev1, None, _) \<Rightarrow> (dev1, p, Err ENOMEM)
     | (dev1, Some k, al1) \<Rightarrow>
       (case scull_get_array (dev_qset dev) (dev_data dev1 ! k) al1 of
          (None, _) \<Rightarrow> (dev1, p, Err ENOMEM)
        | (Some arr, al2) \<Rightarrow>
          let dev2 = dev1\<lparr>dev_data := (dev_data dev1)[k := Some arr]\<rparr> in
          if length arr \<le> s then (dev2, p, Oops)
          else (case scull_get_quantum (dev_quantum dev) (arr ! s) al2 of
            (None, _) \<Rightarrow> (dev2, p, Err ENOMEM)
          | (Some q, _) \<Rightarrow>
            if length q \<le> p mod scull_Q dev
            then (dev2\<lparr>dev_data := (dev_data dev2)[k := Some (arr[s := Some q])]\<rparr>, p, Oops)
            else
              let c = scull_chunk dev p (length buf);
                  q' = blit q (p mod scull_Q dev) (map Some (copy_in uc (take c buf)));
                  dev3 = dev2\<lparr>dev_data := (dev_data dev2)[k := Some (arr[s := Some q'])]\<rparr>
              in if uc \<noteq> Copied then (dev3, p, Err EFAULT)
                 else (dev3\<lparr>dev_size := (if dev_size dev3 < p + c then p + c else dev_size dev3)\<rparr>,
                       p + c, Ret c))))"
proof -
  have ch: "min (length buf) (nat (dev_quantum dev - int (p mod scull_Q dev))) = scull_chunk dev p (length buf)"
    using scull_wf_pos(3)[OF wf] by (simp add: scull_chunk_def nat_diff_distrib')
  have neg: "(int a < 0) = False" for a by simp
  show ?thesis
    unfolding scull_write_def if_False scull_locate_wf[OF wf p] option.case prod.case ch neg
      of_nat_le_iff nat_int simp_thms k[symmetric] s[symmetric]
    by (rule TrueI)
qed

lemma scull_write_cases:
  assumes wf: "scull_wf dev" and p: "p < scull_limit dev" and c: "c = scull_chunk dev p (length buf)"
    and R: "R = scull_write False al uc dev buf p"
  shows "write_nomem dev p R \<or> (uc \<noteq> Copied \<and> write_fault dev p c R) \<or>
    (uc = Copied \<and> write_done dev buf p c R)"
proof -
  let ?Q = "scull_Q dev" and ?S = "scull_S dev"
  define k where k: "k = p div ?Q div ?S"
  define s where s: "s = p div ?Q mod ?S"
  note W = scull_wf_pos[OF wf]
  have kl: "k < 2147483648"
    using p unfolding k scull_limit_def
    by (metis div_mult2_eq less_mult_imp_div_less)
  note R = R[unfolded scull_write_eq[OF wf p k s]]
  obtain dev1 r al1 where f: "scull_follow dev (int k) al = (dev1, r, al1)"
    by (metis prod_cases3)
  note fl = scull_follow_like[OF wf f kl]
  note D1 = scull_likeD[OF fl(1)]
  show ?thesis
  proof (cases r)
    case None
    then show ?thesis using R f fl(1) by (simp add: write_nomem_def)
  next
    case (Some j)
    with fl(2) have j: "j = k" "k < length (dev_data dev1)" by auto
    obtain ao al2 where ga: "scull_get_array (dev_qset dev) (dev_data dev1 ! k) al1 = (ao, al2)" by force
    show ?thesis
    proof (cases ao)
      case None
      then show ?thesis using R f fl(1) Some j ga by (simp add: write_nomem_def)
    next
      case ao: (Some arr)
      define dev2 where d2: "dev2 = dev1\<lparr>dev_data := (dev_data dev1)[k := Some arr]\<rparr>"
      have ga': "scull_get_array (dev_qset dev1) (dev_data dev1 ! k) al1 = (Some arr, al2)"
        using ga ao by (simp add: D1(9))
      have l2: "scull_like dev dev2" and la: "length arr = ?S"
        using scull_get_array_like[OF D1(1) j(2) ga'] fl(1) scull_like_trans
        by (auto simp: d2 D1(2,3) qitem_wf_def)
      note D2 = scull_likeD[OF l2]
      have k2: "k < length (dev_data dev2)" "dev_data dev2 ! k = Some arr"
        using j(2) by (simp_all add: d2)
      have kd: "k = p div scull_Q dev2 div scull_S dev2" by (simp add: D2(2,3) k)
      have s2: "s < length arr" using la W(2) by (simp add: s)
      have slot: "scull_slot dev2 (p div scull_Q dev2) = arr ! s"
        using scull_slot_present(1)[OF D2(1), of "p div scull_Q dev2" arr] k2 kd
        by (simp add: D2(2,3) s)
      obtain qo al3 where gq: "scull_get_quantum (dev_quantum dev) (arr ! s) al2 = (qo, al3)" by force
      show ?thesis
      proof (cases qo)
        case None
        then have "R = (dev2, p, Err ENOMEM)" using R f Some j ga ao s2 gq by (simp add: d2 Let_def)
        then show ?thesis using l2 by (simp add: write_nomem_def)
      next
        case (Some q)
        have gq': "scull_get_quantum (int (scull_Q dev2)) (scull_slot dev2 (p div scull_Q dev2)) al2 = (Some q, al3)"
          using gq Some W(3) unfolding slot unfolding D2(2) by simp
        have ql: "length q = scull_Q dev2"
          using scull_get_quantum_spec(1)[OF gq'] scull_slot_present(3)[OF D2(1), of "p div scull_Q dev2" arr] k2 kd
          by auto
        have pm: "p mod ?Q < length q" using ql W(1) by (simp add: D2(2))
        have ch: "scull_chunk dev2 p n = scull_chunk dev p n" for n by (simp add: scull_chunk_def D2(2))
        define dev3 where d3: "dev3 = dev2\<lparr>dev_data := (dev_data dev2)[k :=
          Some (arr[s := Some (blit q (p mod ?Q) (map Some (copy_in uc (take c buf))))])]\<rparr>"
        have d3': "dev3 = dev2\<lparr>dev_data := (dev_data dev2)[k := Some (arr[p div scull_Q dev2 mod scull_S dev2 :=
            Some (blit q (p mod scull_Q dev2) (map Some (copy_in uc (take c buf))))])]\<rparr>"
          by (simp add: d3 D2(2,3) s)
        note X = scull_write_copy[OF D2(1) kd k2 gq' c[folded ch] d3']
        have R': "R = (if uc \<noteq> Copied then (dev3, p, Err EFAULT)
            else (dev3\<lparr>dev_size := (if dev_size dev3 < p + c then p + c else dev_size dev3)\<rparr>, p + c, Ret c))"
          using R f \<open>r = Some j\<close> j ga ao s2 gq Some pm by (simp add: d2 d3 c Let_def)
        show ?thesis
        proof (cases "uc = Copied")
          case True
          with X(2) R' have "write_done dev2 buf p c R" by simp
          then show ?thesis using True unfolding write_done_def D2(4,6,8,9) by blast
        next
          case False
          with X(1) R' have "write_fault dev2 p c R" by simp
          then show ?thesis using False unfolding write_fault_def D2(4,6,8,9) by blast
        qed
      qed
    qed
  qed
qed

lemma scull_write_enough_memory:
  assumes wf: "scull_wf dev" and p: "p < scull_limit dev"
  shows "snd (snd (scull_write False [] uc dev buf p)) \<noteq> Err ENOMEM"
proof -
  have "p div scull_Q dev div scull_S dev < 2147483648"
    using p unfolding scull_limit_def by (metis div_mult2_eq less_mult_imp_div_less)
  from scull_follow_total[OF this] obtain m where
    f: "scull_follow dev (int (p div scull_Q dev div scull_S dev)) [] =
      (dev\<lparr>dev_data := dev_data dev @ replicate m None\<rparr>, Some (p div scull_Q dev div scull_S dev), [])"
    by blast
  show ?thesis
    unfolding scull_write_eq[OF wf p refl refl] f
    by (simp add: scull_get_array_def scull_get_quantum_def Let_def split: option.split)
qed

lemma scull_write_ok:
  assumes "scull_wf dev" "p < scull_limit dev"
  shows "write_done dev buf p (scull_chunk dev p (length buf)) (scull_write False [] Copied dev buf p)"
  using scull_write_cases[OF assms refl refl, where buf = buf and uc = Copied and al = "[]"]
    scull_write_enough_memory[OF assms, where buf = buf and uc = Copied]
  by (auto simp: write_nomem_def)

lemma scull_write_locked_out: "scull_write True al uc dev buf p = (dev, p, Err ERESTARTSYS)"
  by (simp add: scull_write_def)

subsection \<open>What a read does\<close>

lemma scull_slot_length:
  assumes "scull_wf dev" "scull_slot dev b = Some c"
  shows "length c = scull_Q dev"
proof -
  have "b div scull_S dev < length (dev_data dev)" using assms(2) by (simp add: scull_slot_def Let_def split: if_splits)
  moreover from this obtain arr where "dev_data dev ! (b div scull_S dev) = Some arr"
    using assms(2) by (auto simp: scull_slot_def split: option.splits)
  ultimately show ?thesis using scull_slot_present(3) assms by blast
qed

definition scull_avail :: "scull_dev \<Rightarrow> nat \<Rightarrow> nat \<Rightarrow> nat" where
  "scull_avail dev p n = min (min n (dev_size dev - p)) (scull_Q dev - p mod scull_Q dev)"

lemma scull_read_eq:
  assumes wf: "scull_wf dev" and p: "p < scull_limit dev" "p < dev_size dev"
  shows "scull_read False al fault dev n p =
    (case scull_slot dev (p div scull_Q dev) of
       None \<Rightarrow> (dev, p, Ret [])
     | Some c \<Rightarrow> if fault then (dev, p, Err EFAULT)
         else (dev, p + scull_avail dev p n, Ret (region c (p mod scull_Q dev) (scull_avail dev p n))))"
proof -
  let ?Q = "scull_Q dev" and ?S = "scull_S dev" and ?k = "p div scull_Q dev div scull_S dev"
  note W = scull_wf_pos[OF wf]
  have kl: "?k < 2147483648"
    using p unfolding scull_limit_def by (metis div_mult2_eq less_mult_imp_div_less)
  have "p < length (dev_data dev) * (?Q * ?S)" using wf p(2) by (simp add: scull_wf_def)
  then have k: "?k < length (dev_data dev)" by (metis div_mult2_eq less_mult_imp_div_less)
  note f = scull_follow_present[OF k kl]
  have av: "min (if dev_size dev < p + n then dev_size dev - p else n) (nat (int ?Q - int (p mod ?Q)))
      = scull_avail dev p n"
    using p(2) by (auto simp: scull_avail_def nat_diff_distrib')
  show ?thesis
  proof (cases "dev_data dev ! ?k")
    case None
    then have "scull_slot dev (p div ?Q) = None" using k by (simp add: scull_slot_def)
    then show ?thesis
      using p(2) None by (simp add: scull_read_def scull_locate_wf[OF wf p(1)] f)
  next
    case (Some arr)
    note sl = scull_slot_present[OF wf k Some]
    show ?thesis
    proof (cases "scull_slot dev (p div ?Q)")
      case None
      then show ?thesis
        using p(2) Some sl(1,2) by (simp add: scull_read_def scull_locate_wf[OF wf p(1)] f)
    next
      case slot: (Some c)
      have c: "length c = ?Q" "\<not> ?Q \<le> p mod ?Q" using sl(3)[OF slot] W(1) by (simp_all add: not_le)
      show ?thesis
        using p(2) Some slot sl(1,2) c
        by (simp add: scull_read_def scull_locate_wf[OF wf p(1)] f av Let_def W(3) del: of_nat_diff)
    qed
  qed
qed

lemma scull_avail_range:
  assumes "scull_wf dev" "j < scull_avail dev p n"
  shows "(p + j) div scull_Q dev = p div scull_Q dev" "(p + j) mod scull_Q dev = p mod scull_Q dev + j"
    "p mod scull_Q dev + j < scull_Q dev"
proof -
  let ?Q = "scull_Q dev"
  note W = scull_wf_pos[OF assms(1)]
  have le: "Suc j \<le> ?Q - p mod ?Q" using assms(2) by (simp add: scull_avail_def)
  then show lt: "p mod ?Q + j < ?Q" by linarith
  from block_range[OF W(1) le, of "p + j"] show d: "(p + j) div ?Q = p div ?Q" by simp
  show "(p + j) mod ?Q = p mod ?Q + j"
    using lt by (metis mod_add_left_eq mod_less)
qed

lemma scull_read_spec:
  assumes wf: "scull_wf dev" and p: "p < scull_limit dev" "p < dev_size dev"
  shows "scull_read False al False dev n p =
    (if scull_slot dev (p div scull_Q dev) = None then (dev, p, Ret [])
     else (dev, p + scull_avail dev p n, Ret (map (scull_peek dev) [p..<p + scull_avail dev p n])))"
proof (cases "scull_slot dev (p div scull_Q dev)")
  case None
  then show ?thesis using scull_read_eq[OF assms] by simp
next
  case (Some c)
  let ?Q = "scull_Q dev" and ?n = "scull_avail dev p n"
  have lc: "length c = ?Q" by (rule scull_slot_length[OF wf Some])
  have "?n \<le> ?Q - p mod ?Q" by (simp add: scull_avail_def)
  then have "region c (p mod ?Q) ?n = map (scull_peek dev) [p..<p + ?n]"
    using lc scull_avail_range[OF wf, of _ p n] Some
    by (intro nth_equalityI) (auto simp: nth_region scull_peek_def)
  then show ?thesis using scull_read_eq[OF assms] Some by simp
qed

subsection \<open>The device as a byte store\<close>

text \<open>
  What user space can rely on beyond \<open>scull_wf\<close>: no byte is stored beyond the device's size.
\<close>

definition scull_inv :: "scull_dev \<Rightarrow> bool" where
  "scull_inv dev \<longleftrightarrow> scull_wf dev \<and> dev_size dev \<le> scull_limit dev \<and>
     (\<forall>i. scull_peek dev i \<noteq> None \<longrightarrow> i < dev_size dev)"

definition scull_pwrite :: "scull_dev \<Rightarrow> nat \<Rightarrow> byte list \<Rightarrow> scull_dev \<times> nat" where
  "scull_pwrite dev p buf =
     (case scull_write False [] Copied dev buf p of
        (dev', _, Ret k) \<Rightarrow> (dev', k) | (dev', _, _) \<Rightarrow> (dev', 0))"

definition scull_pread :: "scull_dev \<Rightarrow> nat \<Rightarrow> nat \<Rightarrow> cell list" where
  "scull_pread dev p n =
     (case scull_read False [] False dev n p of (_, _, Ret xs) \<Rightarrow> xs | _ \<Rightarrow> [])"

lemma scull_chunk_le:
  assumes "scull_wf dev" "p < scull_limit dev"
  shows "scull_chunk dev p n \<le> n" "p + scull_chunk dev p n \<le> scull_limit dev"
    "0 < n \<Longrightarrow> 0 < scull_chunk dev p n"
proof -
  let ?Q = "scull_Q dev" and ?S = "scull_S dev"
  note W = scull_wf_pos[OF assms(1)]
  show "scull_chunk dev p n \<le> n" by (simp add: scull_chunk_def)
  show "0 < n \<Longrightarrow> 0 < scull_chunk dev p n" using W(1) by (simp add: scull_chunk_def)
  have "p div ?Q div ?S < 2147483648"
    using assms(2) unfolding scull_limit_def by (metis div_mult2_eq less_mult_imp_div_less)
  then have "Suc (p div ?Q div ?S) * (?Q * ?S) \<le> scull_limit dev"
    unfolding scull_limit_def by (intro mult_le_mono1) simp
  moreover have "p + scull_chunk dev p n \<le> Suc (p div ?Q div ?S) * (?Q * ?S)"
    by (rule block_end[OF W(1,2)]) (simp add: scull_chunk_def)
  ultimately show "p + scull_chunk dev p n \<le> scull_limit dev" by linarith
qed

lemma scull_pwrite_spec:
  assumes "scull_wf dev" "p < scull_limit dev" "scull_pwrite dev p buf = (dev', k)"
  shows "k = scull_chunk dev p (length buf)" "scull_wf dev'" "scull_limit dev' = scull_limit dev"
    "dev_size dev' = max (dev_size dev) (p + k)"
    "scull_peek dev' i = (if p \<le> i \<and> i < p + k then Some (buf ! (i - p)) else scull_peek dev i)"
  using scull_write_ok[OF assms(1,2), of buf] assms(3)
  by (auto simp: write_done_def scull_pwrite_def scull_limit_def scull_Q_def scull_S_def)

lemma scull_pread_spec:
  assumes "scull_wf dev" "p < scull_limit dev"
  shows "scull_pread dev p n =
    (if p < dev_size dev \<and> scull_slot dev (p div scull_Q dev) \<noteq> None
     then map (scull_peek dev) [p..<p + scull_avail dev p n] else [])"
proof (cases "p < dev_size dev")
  case True
  from scull_read_spec[OF assms True, of "[]" n] True show ?thesis by (auto simp: scull_pread_def)
next
  case False
  then show ?thesis by (simp add: scull_pread_def scull_read_def)
qed

interpretation scull: byte_store scull_inv scull_limit scull_peek scull_pwrite scull_pread
proof (unfold_locales, goal_cases)
  case (1 s p xs s' k)
  then show ?case
    using scull_pwrite_spec[of s p xs s' k] scull_chunk_le[of s p "length xs"]
    by (auto simp: scull_inv_def split: if_splits)
next
  case (2 s p xs s' k)
  then show ?case
    using scull_pwrite_spec(1)[of s p xs s' k] scull_chunk_le[of s p "length xs"]
    by (simp add: scull_inv_def)
next
  case (3 s p xs s' k)
  then show ?case
    using scull_pwrite_spec(1)[of s p xs s' k] scull_chunk_le(3)[of s p "length xs"]
    by (simp add: scull_inv_def)
next
  case (4 s p xs s' k i)
  then show ?case using scull_pwrite_spec(5)[of s p xs s' k i] by (simp add: scull_inv_def)
next
  case (5 s p n)
  then show ?case by (auto simp: scull_pread_spec scull_inv_def scull_avail_def min_def)
next
  case (6 s p j n)
  then show ?case by (simp add: scull_pread_spec scull_inv_def split: if_splits)
next
  case (7 s p n)
  then have wf: "scull_wf s" and sz: "p < dev_size s" by (simp_all add: scull_inv_def)
  have "scull_slot s (p div scull_Q s) \<noteq> None"
    using 7(3) by (cases "scull_slot s (p div scull_Q s)") (simp_all add: scull_peek_def)
  moreover have "0 < scull_avail s p n"
    using scull_wf_pos(1)[OF wf] sz 7(4) by (simp add: scull_avail_def)
  ultimately show ?case using sz by (simp add: scull_pread_spec[OF wf 7(2)])
next
  case (8 s p)
  then show ?case by (fastforce simp: scull_inv_def)
qed

text \<open>A device as the module leaves it: trimmed, with usable parameters.\<close>

definition scull_params_ok :: "scull_params \<Rightarrow> bool" where
  "scull_params_ok g \<longleftrightarrow> 0 < scull_quantum g \<and> 0 < scull_qset g \<and>
     scull_quantum g * scull_qset g < 2147483648"

lemma scull_trim_peek [simp]: "scull_peek (fst (scull_trim g dev)) i = None"
  by (simp add: scull_trim_def scull_peek_def scull_slot_def)

lemma scull_trim_inv: "scull_params_ok g \<Longrightarrow> scull_inv (fst (scull_trim g dev))"
  unfolding scull_inv_def
  by (auto simp: scull_params_ok_def scull_wf_def scull_trim_def scull_peek_def scull_slot_def)

text \<open>The objects \<open>kmalloc\<close> gave to the device: items, arrays and quanta.\<close>

definition qitem_objects :: "qitem \<Rightarrow> nat" where
  "qitem_objects it = (case it of None \<Rightarrow> 1
     | Some arr \<Rightarrow> 2 + length (filter (\<lambda>q. q \<noteq> None) arr))"

definition scull_objects :: "scull_dev \<Rightarrow> nat" where
  "scull_objects dev = sum_list (map qitem_objects (dev_data dev))"

lemma scull_trim_loop_objects:
  "\<forall>it \<in> set qs. qitem_wf Q S it \<Longrightarrow> scull_trim_loop S qs = sum_list (map qitem_objects qs)"
  by (induction S qs rule: scull_trim_loop.induct) (auto simp: qitem_objects_def qitem_wf_def)

subsection \<open>Properties\<close>

text \<open>A device with quanta of four bytes in sets of two, for the witnesses.\<close>

definition tiny_scull :: scull_dev where
  "tiny_scull = \<lparr>dev_data = [], dev_quantum = 4, dev_qset = 2, dev_size = 0\<rparr>"

lemma tiny_scull_inv: "scull_inv tiny_scull"
  unfolding scull_inv_def
  by (auto simp: scull_wf_def tiny_scull_def scull_peek_def scull_slot_def)

lemma tiny_scull_limit: "scull_limit tiny_scull = 17179869184"
  by (simp add: tiny_scull_def scull_limit_def scull_Q_def scull_S_def)

text \<open>
  C1. Bytes written to a scull device through the usual short-write loop, at any position and over
  any number of quanta and list items, are the bytes the short-read loop gets back, and no other
  stored region of the device changes.
\<close>

theorem scull_roundtrip:
  assumes "scull_inv dev" "p + length xs \<le> scull_limit dev"
    and "write_all scull_pwrite dev p xs = (dev', m)"
  shows "m = length xs \<and> scull_inv dev' \<and>
    read_all scull_pread dev' p (length xs) = map Some xs \<and>
    (\<forall>q n. (q + n \<le> p \<or> p + length xs \<le> q) \<and> (\<forall>i. q \<le> i \<and> i < q + n \<longrightarrow> scull_peek dev i \<noteq> None) \<longrightarrow>
      read_all scull_pread dev' q n = read_all scull_pread dev q n)"
  using scull.write_all_spec[OF assms] scull.write_read_roundtrip[OF assms]
    scull.write_other_region[OF assms] by blast

theorem scull_roundtrip_witness:
  "read_all scull_pread (fst (write_all scull_pwrite tiny_scull 6 [1, 2, 3, 4, 5])) 6 5 =
    [Some 1, Some 2, Some 3, Some 4, Some 5]"
proof -
  have "6 + length [1::byte, 2, 3, 4, 5] \<le> scull_limit tiny_scull" by (simp add: tiny_scull_limit)
  from scull_roundtrip[OF tiny_scull_inv this surjective_pairing, THEN conjunct2, THEN conjunct2, THEN conjunct1]
  show ?thesis by (simp add: eval_nat_numeral)
qed

text \<open>
  C3. Whatever the lock, the allocator and the user copy do, a write to a well-formed device
  never leaves the bounds of the list, the arrays or the quanta, keeps the device well-formed and
  the bytes outside its chunk; a failed write moves neither the file position nor the size, and a
  successful one stores exactly the accepted prefix, up to the end of the quantum.
\<close>

theorem scull_write_outcomes:
  assumes wf: "scull_wf dev" and p: "p < scull_limit dev"
    and r: "scull_write intr al uc dev buf p = (dev', p', r)"
  shows "scull_wf dev' \<and> scull_limit dev' = scull_limit dev \<and>
    (\<forall>i. i < p \<or> p + scull_chunk dev p (length buf) \<le> i \<longrightarrow> scull_peek dev' i = scull_peek dev i) \<and>
    (case r of
       Ret k \<Rightarrow> k = scull_chunk dev p (length buf) \<and> p' = p + k \<and> dev_size dev' = max (dev_size dev) p' \<and>
         (\<forall>j < k. scull_peek dev' (p + j) = Some (buf ! j))
     | Err e \<Rightarrow> e \<in> {ERESTARTSYS, ENOMEM, EFAULT} \<and> p' = p \<and> dev_size dev' = dev_size dev
     | _ \<Rightarrow> False)"
proof (cases intr)
  case True
  then show ?thesis using r wf by (auto simp: scull_write_locked_out)
next
  case False
  then have R: "(dev', p', r) = scull_write False al uc dev buf p" using r by simp
  from scull_write_cases[OF wf p refl R] consider
      "write_nomem dev p (dev', p', r)"
    | "write_fault dev p (scull_chunk dev p (length buf)) (dev', p', r)"
    | "write_done dev buf p (scull_chunk dev p (length buf)) (dev', p', r)" by blast
  then show ?thesis
  proof cases
    case 1
    then show ?thesis by (auto simp: write_nomem_def dest: scull_likeD)
  next
    case 2
    then show ?thesis by (auto simp: write_fault_def scull_limit_def scull_Q_def scull_S_def)
  next
    case 3
    then show ?thesis by (auto simp: write_done_def scull_limit_def scull_Q_def scull_S_def)
  qed
qed

theorem scull_write_outcomes_witness:
  "scull_wf (fst (scull_write False [True, True, False] Copied tiny_scull [7, 8] 5))"
  using scull_write_outcomes[of tiny_scull 5 False "[True, True, False]" Copied "[7, 8]"]
    tiny_scull_inv
  by (simp add: scull_inv_def tiny_scull_limit prod_eq_iff)

text \<open>
  A read delivers the bytes of the device from the position on, up to the end of the
  quantum, the requested count and the size; it returns 0 in a hole, and it never changes the device.
\<close>

theorem scull_read_exact:
  assumes "scull_wf dev" "p < scull_limit dev"
  shows "scull_read intr al fault dev n p =
    (if intr then (dev, p, Err ERESTARTSYS)
     else if dev_size dev \<le> p \<or> scull_slot dev (p div scull_Q dev) = None then (dev, p, Ret [])
     else if fault then (dev, p, Err EFAULT)
     else (dev, p + scull_avail dev p n, Ret (map (scull_peek dev) [p..<p + scull_avail dev p n])))"
proof (cases "intr \<or> dev_size dev \<le> p")
  case True
  then show ?thesis by (auto simp: scull_read_def)
next
  case False
  then have p: "p < dev_size dev" and i: "\<not> intr" by auto
  show ?thesis
    using scull_read_eq[OF assms p, of al True n] scull_read_spec[OF assms p, of al n] p i
    by (cases fault) (auto split: option.splits)
qed

theorem scull_read_exact_witness:
  "scull_read False [] False tiny_scull 10 3 = (tiny_scull, 3, Ret [])"
  using scull_read_exact[of tiny_scull 3 False "[]" False 10] tiny_scull_inv
  by (simp add: scull_inv_def tiny_scull_limit) (simp add: tiny_scull_def)

text \<open>
  Trimming a well-formed device frees exactly the list items, arrays and quanta the device
  owns; afterwards it is empty, and with usable parameters it is a valid device again.
\<close>

theorem scull_trim_frees_all:
  assumes "scull_wf dev" "scull_trim g dev = (dev', freed)"
  shows "freed = scull_objects dev \<and> scull_objects dev' = 0 \<and> dev_size dev' = 0 \<and>
    (\<forall>i. scull_peek dev' i = None) \<and> (scull_params_ok g \<longrightarrow> scull_inv dev')"
proof -
  have "scull_trim_loop (scull_S dev) (dev_data dev) = scull_objects dev"
    unfolding scull_objects_def
    using assms(1) by (intro scull_trim_loop_objects) (auto simp: scull_wf_def)
  moreover have "dev' = fst (scull_trim g dev)" "freed = scull_trim_loop (scull_S dev) (dev_data dev)"
    using assms(2) by (auto simp: scull_trim_def scull_S_def)
  ultimately show ?thesis
    using scull_trim_inv[of g dev] by (simp add: scull_objects_def) (simp add: scull_trim_def)
qed

theorem scull_trim_frees_all_witness:
  "snd (scull_trim scull_default_params (fst (scull_pwrite tiny_scull 4 [1]))) = 3"
proof -
  have "scull_wf (fst (scull_pwrite tiny_scull 4 [1]))"
    using scull_pwrite_spec(2)[OF _ _ surjective_pairing, of tiny_scull 4 "[1]"] tiny_scull_inv
    by (simp add: scull_inv_def tiny_scull_limit)
  from scull_trim_frees_all[OF this surjective_pairing] show ?thesis
    by (simp add: scull_objects_def qitem_objects_def scull_pwrite_def scull_write_def scull_locate_def
        scull_follow_def scull_get_array_def scull_get_quantum_def tiny_scull_def s32_def
        signed_divide_int_def signed_modulo_int_def Let_def numeral_2_eq_2)
qed

lemma scull_ioctl_refused:
  assumes "\<not> capable env"
    and "cmd \<in> {SCULL_IOCSQUANTUM, SCULL_IOCTQUANTUM, SCULL_IOCXQUANTUM, SCULL_IOCHQUANTUM,
      SCULL_IOCSQSET, SCULL_IOCTQSET, SCULL_IOCXQSET, SCULL_IOCHQSET}"
  shows "scull_ioctl env g cmd arg \<in> {(g, None, Err EPERM), (g, None, Err EFAULT)}"
  using assms(2) by (elim insertE) (simp_all add: assms(1) scull_ioctl_def scull_cmd_defs ioc_defs)

text \<open>
  Without \<open>CAP_SYS_ADMIN\<close> the quantum and the quantum-set size change only to their defaults
  (\<open>SCULL_IOCRESET\<close>), every set and exchange command is refused with \<open>EPERM\<close> or \<open>EFAULT\<close>, and commands
  of another driver leave all parameters alone.
\<close>

theorem scull_ioctl_unprivileged:
  assumes "\<not> capable env" "scull_ioctl env g cmd arg = (g', out, r)"
  shows "(scull_quantum g', scull_qset g') \<in>
      {(scull_quantum g, scull_qset g), (SCULL_QUANTUM, SCULL_QSET)} \<and>
    (scull_params_ok g \<longrightarrow> scull_params_ok g') \<and>
    (cmd \<in> {SCULL_IOCSQUANTUM, SCULL_IOCTQUANTUM, SCULL_IOCXQUANTUM, SCULL_IOCHQUANTUM,
             SCULL_IOCSQSET, SCULL_IOCTQSET, SCULL_IOCXQSET, SCULL_IOCHQSET} \<longrightarrow>
      g' = g \<and> r \<in> {Err EPERM, Err EFAULT}) \<and>
    (ioc_type cmd \<noteq> SCULL_IOC_MAGIC \<or> SCULL_IOC_MAXNR < ioc_nr cmd \<longrightarrow> g' = g \<and> r = Err ENOTTY)"
proof -
  let ?priv = "{SCULL_IOCSQUANTUM, SCULL_IOCTQUANTUM, SCULL_IOCXQUANTUM, SCULL_IOCHQUANTUM,
    SCULL_IOCSQSET, SCULL_IOCTQSET, SCULL_IOCXQSET, SCULL_IOCHQSET}"
  have refused: "g' = g \<and> r \<in> {Err EPERM, Err EFAULT}" if "cmd \<in> ?priv"
    using scull_ioctl_refused[OF assms(1) that, of g arg] assms(2) by auto
  have alien: "g' = g \<and> r = Err ENOTTY" if "ioc_type cmd \<noteq> SCULL_IOC_MAGIC \<or> SCULL_IOC_MAXNR < ioc_nr cmd"
    using that assms(2) by (auto simp: scull_ioctl_def split: if_splits)
  have "g' \<in> {g, g\<lparr>scull_quantum := SCULL_QUANTUM, scull_qset := SCULL_QSET\<rparr>} \<or>
      (\<exists>n. g' = g\<lparr>scull_p_buffer := n\<rparr>)"
  proof (cases "cmd \<in> ?priv")
    case True
    with refused show ?thesis by blast
  next
    case False
    then show ?thesis
      using assms(2) by (simp add: scull_ioctl_def put_reply_def split: if_splits) blast
  qed
  then show ?thesis using refused alien by (auto simp: scull_params_ok_def)
qed

theorem scull_ioctl_unprivileged_witness:
  "scull_ioctl \<lparr>access_ok = True, capable = False, user_word = Some 0, put_ok = True\<rparr>
     scull_default_params SCULL_IOCSQUANTUM 0 = (scull_default_params, None, Err EPERM)"
  using scull_ioctl_unprivileged[OF _ surjective_triple,
    of "\<lparr>access_ok = True, capable = False, user_word = Some 0, put_ok = True\<rparr>"
       scull_default_params SCULL_IOCSQUANTUM 0]
  by (simp add: scull_ioctl_def scull_cmd_defs ioc_defs)

text \<open>
  An exchange command (\<open>SCULL_IOCXQUANTUM\<close>) that succeeds returns the old value and installs the
  new one, so exchanging twice with the returned value restores the parameters.
\<close>

theorem scull_ioctl_exchange:
  assumes "access_ok env" "capable env" "put_ok env" "user_word env = Some v"
    and "- 2147483648 \<le> v" "v < 2147483648"
    and "- 2147483648 \<le> scull_quantum g" "scull_quantum g < 2147483648"
  shows "\<exists>old g'. scull_ioctl env g SCULL_IOCXQUANTUM arg = (g', Some old, Ret 0) \<and>
    scull_quantum g' = v \<and> old = scull_quantum g \<and>
    fst (scull_ioctl (env\<lparr>user_word := Some old\<rparr>) g' SCULL_IOCXQUANTUM arg) = g"
  using assms
  by (simp add: scull_ioctl_def put_reply_def get_user_def scull_cmd_defs ioc_defs s32_id)

theorem scull_ioctl_exchange_witness:
  "\<exists>old g'. scull_ioctl \<lparr>access_ok = True, capable = True, user_word = Some 512, put_ok = True\<rparr>
      scull_default_params SCULL_IOCXQUANTUM 0 = (g', Some old, Ret 0)"
  using scull_ioctl_exchange[of "\<lparr>access_ok = True, capable = True, user_word = Some 512, put_ok = True\<rparr>"
      512 scull_default_params 0]
  by (auto simp: scull_default_params_def)

text \<open>
  A faulting argument pointer does not leave the quantum alone: \<open>SCULL_IOCSQUANTUM\<close> returns
  \<open>EFAULT\<close> with the quantum set to 0, and after the next \<open>open\<close> for writing every write to the device
  divides by zero.
\<close>

theorem scull_zero_quantum_oops:
  assumes "access_ok env" "capable env" "user_word env = None"
    and "scull_ioctl env g SCULL_IOCSQUANTUM arg = (g', out, r)"
  shows "r = Err EFAULT \<and> scull_quantum g' = 0 \<and>
    snd (snd (scull_write False al uc (fst (scull_open False g' O_WRONLY dev)) buf p)) = Oops"
  using assms
  by (auto simp: scull_ioctl_def get_reply_def get_user_def scull_cmd_defs ioc_defs
      scull_write_def scull_open_def scull_trim_def scull_locate_def s32_def)

theorem scull_zero_quantum_oops_witness:
  "scull_quantum (fst (scull_ioctl \<lparr>access_ok = True, capable = True, user_word = None, put_ok = True\<rparr>
     scull_default_params SCULL_IOCSQUANTUM 0)) = 0"
  using scull_zero_quantum_oops[OF _ _ _ surjective_triple,
    of "\<lparr>access_ok = True, capable = True, user_word = None, put_ok = True\<rparr>"]
  by simp

text \<open>
  A quantum is not cleared when it is allocated: after a first write at offset \<open>p\<close> of an empty
  device, reading the file from its start delivers \<open>p\<close> bytes that nobody wrote.
\<close>

theorem scull_uninitialised_read:
  assumes "scull_params_ok g" "0 < p" "p < nat (scull_quantum g)" "buf \<noteq> []"
    and "scull_pwrite (fst (scull_open False g O_WRONLY dev)) p buf = (dev', k)"
  shows "scull_pread dev' 0 p = replicate p None"
proof -
  let ?d = "fst (scull_trim g dev)"
  have inv: "scull_inv ?d" by (rule scull_trim_inv[OF assms(1)])
  have Q: "scull_Q ?d = nat (scull_quantum g)" by (simp add: scull_trim_def scull_Q_def)
  have lim: "nat (scull_quantum g) \<le> scull_limit ?d"
    using assms(1) by (simp add: scull_limit_def scull_trim_def scull_Q_def scull_S_def scull_params_ok_def Suc_le_eq)
  have "p < scull_limit ?d" using assms(3) lim by linarith
  moreover have "scull_pwrite ?d p buf = (dev', k)" using assms(5) by (simp add: scull_open_def)
  ultimately have W: "0 < k" "scull_wf dev'" "scull_limit dev' = scull_limit ?d" "dev_size dev' = max (dev_size ?d) (p + k)"
    "\<And>i. scull_peek dev' i = (if p \<le> i \<and> i < p + k then Some (buf ! (i - p)) else None)"
    using scull_pwrite_spec[of ?d p buf dev' k] scull_chunk_le(3)[of ?d p "length buf"] inv assms(4)
    by (auto simp: scull_inv_def)
  have Q': "scull_Q dev' = nat (scull_quantum g)"
    using scull_write_ok[of ?d p buf] \<open>p < scull_limit ?d\<close> inv \<open>scull_pwrite ?d p buf = (dev', k)\<close> Q
    by (auto simp: write_done_def scull_pwrite_def scull_Q_def scull_inv_def)
  have "scull_peek dev' p \<noteq> None" using W(1,5) by simp
  then have "scull_slot dev' (p div scull_Q dev') \<noteq> None"
    by (cases "scull_slot dev' (p div scull_Q dev')") (simp_all add: scull_peek_def)
  then have "scull_slot dev' 0 \<noteq> None" using assms(3) Q' by simp
  moreover have "scull_avail dev' 0 p = p" using W(4) assms(3) Q' by (simp add: scull_avail_def)
  moreover have "0 < scull_limit dev'" using \<open>p < scull_limit ?d\<close> W(3) by simp
  ultimately have "scull_pread dev' 0 p = map (scull_peek dev') [0..<p]"
    using W(4) assms(2) by (simp add: scull_pread_spec[OF W(2)])
  also have "\<dots> = replicate p None"
    using W(5) by (intro nth_equalityI) auto
  finally show ?thesis .
qed

theorem scull_uninitialised_read_witness:
  "scull_pread (fst (scull_pwrite (fst (scull_open False scull_default_params O_WRONLY tiny_scull)) 3 [9])) 0 3
     = [None, None, None]"
  using scull_uninitialised_read[OF _ _ _ _ surjective_pairing, of scull_default_params 3 "[9]" tiny_scull]
  by (simp add: scull_params_ok_def scull_default_params_def eval_nat_numeral)

end
