(* ===== verification/Scull_Access.thy ===== *)
theory Scull_Access
  imports Scull_Main
begin

text \<open>
  The access-controlled scull devices (\<open>scull/dev/access.c\<close>): the single-open device, the devices of
  one user with and without waiting, and the private device of each terminal.  All of them fall back
  on the bare device, so only opening and closing are modelled here.  The critical sections are
  steps of their own: the step relations interleave the processes between them, and the handlers as
  a whole are the runs without interleaving.
\<close>

subsection \<open>The single-open device\<close>

record single =
  s_device :: scull_dev
  s_available :: int

definition trim_if_write :: "scull_params \<Rightarrow> accmode \<Rightarrow> scull_dev \<Rightarrow> scull_dev" where
  "trim_if_write g flags dev = (if flags = O_WRONLY then fst (scull_trim g dev) else dev)"

text \<open>\<open>atomic_dec_and_test\<close> and \<open>atomic_inc\<close>.\<close>

definition dec_and_test :: "single \<Rightarrow> single \<times> bool" where
  "dec_and_test st = (st\<lparr>s_available := s_available st - 1\<rparr>, s_available st - 1 = 0)"

definition atomic_inc :: "single \<Rightarrow> single" where
  "atomic_inc st = st\<lparr>s_available := s_available st + 1\<rparr>"

definition scull_s_open :: "scull_params \<Rightarrow> accmode \<Rightarrow> single \<Rightarrow> single \<times> int sysret" where
  "scull_s_open g flags st =
     (case dec_and_test st of (st1, ok) \<Rightarrow>
        if \<not> ok then (atomic_inc st1, Err EBUSY)
        else (st1\<lparr>s_device := trim_if_write g flags (s_device st1)\<rparr>, Ret 0))"

definition scull_s_release :: "single \<Rightarrow> single \<times> int sysret" where
  "scull_s_release st = (atomic_inc st, Ret 0)"

text \<open>
  Between the atomic operations other processes run.  \<open>S_refused\<close>: decremented in vain and about to
  increment; \<open>S_granted\<close>: let in, not yet trimmed; \<open>S_open\<close>: has the device open and may change it.
\<close>

datatype s_pc = S_idle | S_refused | S_granted accmode | S_open

inductive s_step :: "scull_params \<Rightarrow> single \<times> (nat \<Rightarrow> s_pc) \<Rightarrow> single \<times> (nat \<Rightarrow> s_pc) \<Rightarrow> bool"
  for g where
  s_enter: "pc p = S_idle \<Longrightarrow> dec_and_test st = (st', ok) \<Longrightarrow>
     s_step g (st, pc) (st', pc(p := if ok then S_granted flags else S_refused))"
| s_back: "pc p = S_refused \<Longrightarrow> s_step g (st, pc) (atomic_inc st, pc(p := S_idle))"
| s_trim: "pc p = S_granted flags \<Longrightarrow>
     s_step g (st, pc) (st\<lparr>s_device := trim_if_write g flags (s_device st)\<rparr>, pc(p := S_open))"
| s_use: "pc p = S_open \<Longrightarrow> s_step g (st, pc) (st\<lparr>s_device := d\<rparr>, pc)"
| s_close: "pc p = S_open \<Longrightarrow> s_step g (st, pc) (fst (scull_s_release st), pc(p := S_idle))"

inductive_cases s_stepE: "s_step g c c'"

definition s_holds :: "s_pc \<Rightarrow> bool" where
  "s_holds x \<longleftrightarrow> x = S_open \<or> (\<exists>flags. x = S_granted flags)"

definition s_inv :: "single \<times> (nat \<Rightarrow> s_pc) \<Rightarrow> bool" where
  "s_inv c \<longleftrightarrow> (case c of (st, pc) \<Rightarrow> finite {p. pc p \<noteq> S_idle} \<and>
     s_available st = 1 - int (card {p. pc p \<noteq> S_idle}) \<and>
     (\<forall>p q. s_holds (pc p) \<and> s_holds (pc q) \<longrightarrow> p = q))"

lemma busy_upd:
  "{q. (pc(p := x)) q \<noteq> i} = (if x = i then {q. pc q \<noteq> i} - {p} else insert p {q. pc q \<noteq> i})"
  by (cases "x = i") auto

lemma card_leave: "finite B \<Longrightarrow> p \<in> B \<Longrightarrow> int (card (B - {p})) = int (card B) - 1"
  by (metis card_Suc_Diff1 diff_add_cancel of_nat_Suc add.commute add_diff_cancel_left')

lemma s_inv_leave:
  assumes I: "s_inv (st, pc)" and p: "pc p \<noteq> S_idle" and st': "s_available st' = s_available st + 1"
  shows "s_inv (st', pc(p := S_idle))"
proof -
  let ?B = "{q. pc q \<noteq> S_idle}"
  have B: "finite ?B" "p \<in> ?B" "s_available st = 1 - int (card ?B)" using I p by (simp_all add: s_inv_def)
  have av: "s_available st' = 1 - int (card (?B - {p}))" using st' B(3) card_leave[OF B(1,2)] by linarith
  have eq: "{q. (pc(p := S_idle)) q \<noteq> S_idle} = ?B - {p}" by (subst busy_upd) simp
  have "s_holds ((pc(p := S_idle)) a) \<longrightarrow> s_holds (pc a)" for a
    by (cases "a = p") (simp_all add: s_holds_def)
  then have "\<forall>a b. s_holds ((pc(p := S_idle)) a) \<and> s_holds ((pc(p := S_idle)) b) \<longrightarrow> a = b"
    using I unfolding s_inv_def prod.case by blast
  then show ?thesis unfolding s_inv_def prod.case eq by (intro conjI finite_Diff B(1) av)
qed

lemma s_inv_enter:
  assumes I: "s_inv (st, pc)" and p: "pc p = S_idle" and st': "s_available st' = s_available st - 1"
    and x: "x \<noteq> S_idle" "s_holds x \<longrightarrow> s_available st' = 0"
  shows "s_inv (st', pc(p := x))"
proof -
  let ?B = "{q. pc q \<noteq> S_idle}"
  have B: "finite ?B" "p \<notin> ?B" "s_available st = 1 - int (card ?B)" using I p by (simp_all add: s_inv_def)
  have eq: "{q. (pc(p := x)) q \<noteq> S_idle} = insert p ?B" using x(1) by (subst busy_upd) simp
  have alone: "\<not> s_holds x" if "s_holds (pc q)" for q
  proof -
    have "q \<in> ?B" using that by (auto simp: s_holds_def)
    then have "card ?B \<noteq> 0" using B(1) by auto
    then show ?thesis using x(2) st' B(3) by linarith
  qed
  have u: "a = b" if "s_holds (pc a)" "s_holds (pc b)" for a b
    using I that unfolding s_inv_def prod.case by blast
  have "a = b" if ab: "s_holds ((pc(p := x)) a)" "s_holds ((pc(p := x)) b)" for a b
  proof (cases "a = p")
    case True
    then show ?thesis using ab alone[of b] by (cases "b = p") simp_all
  next
    case False
    then show ?thesis using ab alone[of a] u[of a b] by (cases "b = p") simp_all
  qed
  moreover have "s_available st' = 1 - int (card (insert p ?B))"
    using st' B(3) card_insert_disjoint[OF B(1,2)] by linarith
  ultimately show ?thesis unfolding s_inv_def prod.case eq using B(1) by blast
qed

lemma s_inv_step: "s_step g c c' \<Longrightarrow> s_inv c \<Longrightarrow> s_inv c'"
proof (induction rule: s_step.induct)
  case (s_enter pc p st st' ok flags)
  then have st': "s_available st' = s_available st - 1" "ok = (s_available st' = 0)"
    by (auto simp: dec_and_test_def)
  show ?case by (rule s_inv_enter[OF s_enter(3) s_enter(1) st'(1)]) (use st' in \<open>simp_all add: s_holds_def\<close>)
next
  case (s_back pc p st)
  show ?case by (rule s_inv_leave[OF s_back(2)]) (simp_all add: s_back(1) atomic_inc_def)
next
  case (s_trim pc p flags st)
  have eq: "{q. (pc(p := S_open)) q \<noteq> S_idle} = {q. pc q \<noteq> S_idle}" using s_trim(1) by auto
  have "s_holds ((pc(p := S_open)) q) = s_holds (pc q)" for q using s_trim(1) by (simp add: s_holds_def)
  then show ?case using s_trim(2) unfolding s_inv_def prod.case eq by simp
next
  case (s_use pc p st d)
  then show ?case by (simp add: s_inv_def)
next
  case (s_close pc p st)
  show ?case by (rule s_inv_leave[OF s_close(2)]) (simp_all add: s_close(1) atomic_inc_def scull_s_release_def)
qed

lemma s_inv_reach: "(s_step g)\<^sup>*\<^sup>* c c' \<Longrightarrow> s_inv c \<Longrightarrow> s_inv c'"
  by (induction rule: rtranclp_induct) (auto intro: s_inv_step)

text \<open>The handler as a whole is the run of one process without interleaving.\<close>

lemma scull_s_open_run:
  assumes "pc p = S_idle"
  shows "case scull_s_open g flags st of (st', r) \<Rightarrow>
    (s_step g)\<^sup>*\<^sup>* (st, pc) (st', pc(p := if r = Ret 0 then S_open else S_idle))"
proof (cases "dec_and_test st")
  case (Pair st1 ok)
  have "s_step g (st, pc) (st1, pc(p := if ok then S_granted flags else S_refused))"
    by (rule s_step.s_enter) (use assms Pair in simp_all)
  moreover have "s_step g (st1, pc(p := S_refused)) (atomic_inc st1, (pc(p := S_refused))(p := S_idle))"
    by (rule s_step.s_back) simp
  moreover have "s_step g (st1, pc(p := S_granted flags))
      (st1\<lparr>s_device := trim_if_write g flags (s_device st1)\<rparr>, (pc(p := S_granted flags))(p := S_open))"
    by (rule s_step.s_trim) simp
  ultimately show ?thesis using Pair
    by (cases ok) (auto simp: scull_s_open_def intro: converse_rtranclp_into_rtranclp)
qed

text \<open>
  C28. However the processes interleave between the atomic operations, at most one of them has the
  single-open device at a time, the counter counts exactly the processes inside, and once they have all
  left the next open succeeds.
\<close>

theorem scull_single_open:
  assumes "(s_step g)\<^sup>*\<^sup>* (\<lparr>s_device = d, s_available = 1\<rparr>, \<lambda>_. S_idle) (st, pc)"
  shows "(\<forall>p q. s_holds (pc p) \<and> s_holds (pc q) \<longrightarrow> p = q) \<and>
    s_available st = 1 - int (card {p. pc p \<noteq> S_idle}) \<and>
    ((\<forall>p. pc p = S_idle) \<longrightarrow> snd (scull_s_open g flags st) = Ret 0)"
proof -
  have "s_inv (\<lparr>s_device = d, s_available = 1\<rparr>, \<lambda>_. S_idle)" by (simp add: s_inv_def s_holds_def)
  from s_inv_reach[OF assms this] have I: "s_inv (st, pc)" .
  moreover have "s_available st = 1" if "\<forall>p. pc p = S_idle" using I that by (simp add: s_inv_def)
  ultimately show ?thesis by (simp add: s_inv_def scull_s_open_def dec_and_test_def)
qed

theorem scull_single_open_witness:
  "s_available (fst (scull_s_open scull_default_params O_RDWR \<lparr>s_device = tiny_scull, s_available = 1\<rparr>)) = 0"
proof -
  have "(s_step scull_default_params)\<^sup>*\<^sup>* (\<lparr>s_device = tiny_scull, s_available = 1\<rparr>, \<lambda>_. S_idle)
      (\<lparr>s_device = tiny_scull, s_available = 0\<rparr>, (\<lambda>_. S_idle)(3 := S_open))"
    using scull_s_open_run[where pc = "\<lambda>_. S_idle" and p = 3 and g = scull_default_params and flags = O_RDWR
      and st = "\<lparr>s_device = tiny_scull, s_available = 1\<rparr>"]
    by (simp add: scull_s_open_def dec_and_test_def trim_if_write_def)
  from scull_single_open[OF this] show ?thesis by (simp add: scull_s_open_def dec_and_test_def trim_if_write_def)
qed

subsection \<open>The devices of one user\<close>

record cred =
  c_uid :: nat
  c_euid :: nat
  c_override :: bool

record owner_state =
  o_count :: int
  o_owner :: nat

definition take_device :: "cred \<Rightarrow> owner_state \<Rightarrow> owner_state" where
  "take_device c st =
     (let st1 = (if o_count st = 0 then st\<lparr>o_owner := c_uid c\<rparr> else st) in st1\<lparr>o_count := o_count st1 + 1\<rparr>)"

text \<open>The critical section of \<open>scull_u_open\<close>; \<open>None\<close> is the refusal.\<close>

definition u_enter :: "cred \<Rightarrow> owner_state \<Rightarrow> owner_state option" where
  "u_enter c st =
     (if o_count st \<noteq> 0 \<and> o_owner st \<noteq> c_uid c \<and> o_owner st \<noteq> c_euid c \<and> \<not> c_override c then None
      else Some (take_device c st))"

definition scull_u_open ::
  "scull_params \<Rightarrow> accmode \<Rightarrow> cred \<Rightarrow> scull_dev \<Rightarrow> owner_state \<Rightarrow> scull_dev \<times> owner_state \<times> int sysret" where
  "scull_u_open g flags c dev st =
     (case u_enter c st of None \<Rightarrow> (dev, st, Err EBUSY) | Some st' \<Rightarrow> (trim_if_write g flags dev, st', Ret 0))"

definition scull_u_release :: "owner_state \<Rightarrow> owner_state \<times> int sysret" where
  "scull_u_release st = (st\<lparr>o_count := o_count st - 1\<rparr>, Ret 0)"

definition scull_w_available :: "cred \<Rightarrow> owner_state \<Rightarrow> bool" where
  "scull_w_available c st \<longleftrightarrow>
     o_count st = 0 \<or> o_owner st = c_uid c \<or> o_owner st = c_euid c \<or> c_override c"

definition w_enter :: "cred \<Rightarrow> owner_state \<Rightarrow> owner_state option" where
  "w_enter c st = (if \<not> scull_w_available c st then None else Some (take_device c st))"

text \<open>
  The waiting open: each element of the list is the outcome of one \<open>wait_event_interruptible\<close>, with the
  state the process finds when it has the lock again.
\<close>

fun scull_w_open ::
  "scull_params \<Rightarrow> accmode \<Rightarrow> bool \<Rightarrow> cred \<Rightarrow> scull_dev \<times> owner_state \<Rightarrow> (scull_dev \<times> owner_state) sched list \<Rightarrow>
   scull_dev \<times> owner_state \<times> int sysret" where
  "scull_w_open g flags nonblock c (dev, st) evs =
     (case w_enter c st of
        Some st' \<Rightarrow> (trim_if_write g flags dev, st', Ret 0)
      | None \<Rightarrow>
        if nonblock then (dev, st, Err EAGAIN)
        else (case evs of
            [] \<Rightarrow> (dev, st, Asleep)
          | Sleeps # _ \<Rightarrow> (dev, st, Asleep)
          | Signalled # _ \<Rightarrow> (dev, st, Err ERESTARTSYS)
          | Runs ds # evs' \<Rightarrow> scull_w_open g flags nonblock c ds evs'))"

text \<open>The new state, the return value and whether the sleepers are woken.\<close>

definition scull_w_release :: "owner_state \<Rightarrow> owner_state \<times> int sysret \<times> bool" where
  "scull_w_release st = (let st1 = st\<lparr>o_count := o_count st - 1\<rparr> in (st1, Ret 0, o_count st1 = 0))"

subsection \<open>What both gates promise\<close>

definition permitted :: "nat \<Rightarrow> cred \<Rightarrow> bool" where
  "permitted owner c \<longleftrightarrow> owner = c_uid c \<or> owner = c_euid c \<or> c_override c"

text \<open>\<open>P\<close> are the open files; the counter counts them and the owner permits them all.\<close>

definition guarded :: "(nat \<Rightarrow> cred) \<Rightarrow> owner_state \<Rightarrow> nat set \<Rightarrow> bool" where
  "guarded cr st P \<longleftrightarrow> finite P \<and> o_count st = int (card P) \<and> (\<forall>i \<in> P. permitted (o_owner st) (cr i))"

locale owner_gate =
  fixes enter :: "cred \<Rightarrow> owner_state \<Rightarrow> owner_state option"
  assumes enter_law: "enter c st =
    (if o_count st = 0 \<or> permitted (o_owner st) c then Some (take_device c st) else None)"
begin

lemma enter_guarded:
  assumes G: "guarded cr st P" and i: "i \<notin> P" and e: "enter (cr i) st = Some st'"
  shows "guarded cr st' (insert i P)"
proof -
  have F: "finite P" "o_count st = int (card P)" using G by (simp_all add: guarded_def)
  have c: "o_count st' = int (card (insert i P))"
    using e F card_insert_disjoint[OF F(1) i] by (auto simp: enter_law take_device_def Let_def split: if_splits)
  show ?thesis
  proof (cases "o_count st = 0")
    case True
    then have "P = {}" using F by simp
    moreover have "o_owner st' = c_uid (cr i)" using e True by (auto simp: enter_law take_device_def Let_def)
    ultimately show ?thesis using c by (simp add: guarded_def permitted_def)
  next
    case False
    then have "o_owner st' = o_owner st" "permitted (o_owner st) (cr i)"
      using e by (auto simp: enter_law take_device_def Let_def split: if_splits)
    then show ?thesis using G c F by (simp add: guarded_def)
  qed
qed

lemma leave_guarded:
  assumes G: "guarded cr st P" and i: "i \<in> P"
  shows "guarded cr (st\<lparr>o_count := o_count st - 1\<rparr>) (P - {i})"
  using G card_leave[of P i] i by (simp add: guarded_def)

lemma refusal:
  assumes "guarded cr st P"
  shows "enter c st = None \<longleftrightarrow> P \<noteq> {} \<and> \<not> permitted (o_owner st) c"
  using assms by (auto simp: enter_law guarded_def)

end

interpretation ug: owner_gate u_enter
  by unfold_locales (auto simp: u_enter_def permitted_def)

interpretation wg: owner_gate w_enter
  by unfold_locales (auto simp: w_enter_def scull_w_available_def permitted_def)

subsection \<open>The device that refuses other users\<close>

inductive u_step :: "(nat \<Rightarrow> cred) \<Rightarrow> owner_state \<times> nat set \<Rightarrow> owner_state \<times> nat set \<Rightarrow> bool" for cr where
  u_open: "i \<notin> P \<Longrightarrow> u_enter (cr i) st = Some st' \<Longrightarrow> u_step cr (st, P) (st', insert i P)"
| u_release: "i \<in> P \<Longrightarrow> u_step cr (st, P) (fst (scull_u_release st), P - {i})"

lemma u_reach_guarded:
  assumes "(u_step cr)\<^sup>*\<^sup>* (st0, {}) (st, P)" "o_count st0 = 0"
  shows "guarded cr st P"
proof -
  have "guarded cr (fst c) (snd c)" if "(u_step cr)\<^sup>*\<^sup>* (st0, {}) c" for c
    using that
  proof (induction rule: rtranclp_induct)
    case base
    then show ?case using assms(2) by (simp add: guarded_def)
  next
    case (step c d)
    from step(2) show ?case
    proof cases
      case (u_open i P st st')
      then show ?thesis using ug.enter_guarded[of cr st P i st'] step(3) by simp
    next
      case (u_release i P st)
      then show ?thesis using ug.leave_guarded[of cr st P i] step(3) by (simp add: scull_u_release_def)
    qed
  qed
  from this[OF assms(1)] show ?thesis by simp
qed

text \<open>
  At any moment every open file of the uid device belongs to a process the owner permits (its
  user, someone who became that user, or a process that may override), so ordinary processes of two users
  never have it open together; a further open is refused exactly when someone has the device and the
  caller is not permitted, and the counter never goes wrong.
\<close>

theorem scull_uid_exclusive:
  assumes "(u_step cr)\<^sup>*\<^sup>* (\<lparr>o_count = 0, o_owner = 0\<rparr>, {}) (st, P)"
  shows "o_count st = int (card P) \<and> (\<forall>i \<in> P. permitted (o_owner st) (cr i)) \<and>
    (\<forall>i \<in> P. \<forall>j \<in> P. \<not> c_override (cr i) \<and> \<not> c_override (cr j) \<and> c_euid (cr i) = c_uid (cr i) \<and>
       c_euid (cr j) = c_uid (cr j) \<longrightarrow> c_uid (cr i) = c_uid (cr j)) \<and>
    (\<forall>g flags c dev. snd (snd (scull_u_open g flags c dev st)) =
       (if P \<noteq> {} \<and> \<not> permitted (o_owner st) c then Err EBUSY else Ret 0))"
proof -
  have G: "guarded cr st P" by (rule u_reach_guarded[OF assms]) simp
  have "snd (snd (scull_u_open g flags c dev st)) =
      (if P \<noteq> {} \<and> \<not> permitted (o_owner st) c then Err EBUSY else Ret 0)" for g flags c dev
    using ug.refusal[OF G, of c] by (auto simp: scull_u_open_def split: option.splits)
  moreover have "c_uid (cr i) = c_uid (cr j)"
    if "i \<in> P" "j \<in> P" "\<not> c_override (cr i)" "\<not> c_override (cr j)" "c_euid (cr i) = c_uid (cr i)"
      "c_euid (cr j) = c_uid (cr j)" for i j
  proof -
    have "permitted (o_owner st) (cr i)" "permitted (o_owner st) (cr j)" using G that by (simp_all add: guarded_def)
    then show ?thesis using that by (auto simp: permitted_def)
  qed
  ultimately show ?thesis using G unfolding guarded_def by blast
qed

theorem scull_uid_exclusive_witness:
  "\<forall>g flags dev. snd (snd (scull_u_open g flags \<lparr>c_uid = 8, c_euid = 8, c_override = False\<rparr> dev \<lparr>o_count = 1, o_owner = 7\<rparr>)) =
    Err EBUSY"
proof -
  have "(u_step (\<lambda>_. \<lparr>c_uid = 7, c_euid = 7, c_override = False\<rparr>))\<^sup>*\<^sup>* (\<lparr>o_count = 0, o_owner = 0\<rparr>, {})
      (\<lparr>o_count = 1, o_owner = 7\<rparr>, insert 3 {})"
    by (intro r_into_rtranclp u_step.u_open) (simp_all add: u_enter_def take_device_def Let_def)
  from scull_uid_exclusive[OF this] show ?thesis by (simp add: permitted_def)
qed

subsection \<open>The device that waits\<close>

text \<open>
  A process in \<open>scull_w_open\<close>: about to take the lock (\<open>W_lock\<close>), about to evaluate the condition of
  \<open>wait_event_interruptible\<close> (\<open>W_test\<close>), or asleep.  \<open>W_wake\<close>: it brought the counter to 0 in
  \<open>scull_w_release\<close> and is about to wake the others.
\<close>

datatype w_pc = W_idle | W_lock | W_test | W_asleep | W_open | W_wake

inductive w_step :: "(nat \<Rightarrow> cred) \<Rightarrow> owner_state \<times> (nat \<Rightarrow> w_pc) \<Rightarrow> owner_state \<times> (nat \<Rightarrow> w_pc) \<Rightarrow> bool" for cr
  where
  w_call: "pc p = W_idle \<Longrightarrow> w_step cr (st, pc) (st, pc(p := W_lock))"
| w_granted: "pc p = W_lock \<Longrightarrow> w_enter (cr p) st = Some st' \<Longrightarrow> w_step cr (st, pc) (st', pc(p := W_open))"
| w_again: "pc p = W_lock \<Longrightarrow> w_enter (cr p) st = None \<Longrightarrow> w_step cr (st, pc) (st, pc(p := W_idle))"
| w_wait: "pc p = W_lock \<Longrightarrow> w_enter (cr p) st = None \<Longrightarrow> w_step cr (st, pc) (st, pc(p := W_test))"
| w_test: "pc p = W_test \<Longrightarrow>
     w_step cr (st, pc) (st, pc(p := if scull_w_available (cr p) st then W_lock else W_asleep))"
| w_signal: "pc p = W_asleep \<Longrightarrow> w_step cr (st, pc) (st, pc(p := W_idle))"
| w_close: "pc p = W_open \<Longrightarrow> scull_w_release st = (st', r, wake) \<Longrightarrow>
     w_step cr (st, pc) (st', pc(p := if wake then W_wake else W_idle))"
| w_wake_up: "pc p = W_wake \<Longrightarrow>
     w_step cr (st, pc) (st, (\<lambda>q. if pc q = W_asleep then W_test else pc q)(p := W_idle))"

definition w_holders :: "(nat \<Rightarrow> w_pc) \<Rightarrow> nat set" where
  "w_holders pc = {p. pc p = W_open}"

text \<open>Whoever sleeps cannot have the device, or is about to be woken.\<close>

definition w_inv :: "(nat \<Rightarrow> cred) \<Rightarrow> owner_state \<times> (nat \<Rightarrow> w_pc) \<Rightarrow> bool" where
  "w_inv cr c \<longleftrightarrow> (case c of (st, pc) \<Rightarrow> guarded cr st (w_holders pc) \<and>
     (\<forall>p. pc p = W_asleep \<longrightarrow> \<not> scull_w_available (cr p) st \<or> (\<exists>q. pc q = W_wake)))"

lemma holders_upd:
  "w_holders (pc(p := x)) = (if x = W_open then insert p (w_holders pc) else w_holders pc - {p})"
  by (cases "x = W_open") (auto simp: w_holders_def)

lemma not_holder: "pc p \<noteq> W_open \<Longrightarrow> w_holders pc - {p} = w_holders pc"
  by (auto simp: w_holders_def)

text \<open>Steps that leave the device alone and wake nobody.\<close>

lemma w_inv_move:
  assumes I: "w_inv cr (st, pc)" and p: "pc p \<noteq> W_open" "pc p \<noteq> W_wake" and x: "x \<noteq> W_open"
    and s: "x = W_asleep \<longrightarrow> \<not> scull_w_available (cr p) st"
  shows "w_inv cr (st, pc(p := x))"
proof -
  have "guarded cr st (w_holders (pc(p := x)))" using I x not_holder[of pc p] p(1) by (simp add: w_inv_def holders_upd)
  moreover have "\<not> scull_w_available (cr a) st \<or> (\<exists>q. (pc(p := x)) q = W_wake)" if "(pc(p := x)) a = W_asleep" for a
  proof (cases "a = p")
    case True
    then show ?thesis using that s by simp
  next
    case False
    then have "\<not> scull_w_available (cr a) st \<or> (\<exists>q. pc q = W_wake)" using that I by (simp add: w_inv_def)
    then show ?thesis using p(2) by (metis fun_upd_other)
  qed
  ultimately show ?thesis by (simp add: w_inv_def)
qed

lemma w_inv_granted:
  assumes I: "w_inv cr (st, pc)" and p: "pc p = W_lock" and e: "w_enter (cr p) st = Some st'"
  shows "w_inv cr (st', pc(p := W_open))"
proof -
  have "p \<notin> w_holders pc" using p by (simp add: w_holders_def)
  then have G: "guarded cr st' (w_holders (pc(p := W_open)))"
    using wg.enter_guarded[of cr st "w_holders pc" p st'] I e by (simp add: w_inv_def holders_upd)
  have "\<not> scull_w_available (cr a) st' \<or> (\<exists>q. (pc(p := W_open)) q = W_wake)" if a: "(pc(p := W_open)) a = W_asleep" for a
  proof -
    have "a \<noteq> p" "pc a = W_asleep" using a by (auto split: if_splits)
    then have "\<not> scull_w_available (cr a) st \<or> (\<exists>q. pc q = W_wake)" using I by (simp add: w_inv_def)
    then show ?thesis
    proof
      assume n: "\<not> scull_w_available (cr a) st"
      then have "o_count st \<noteq> 0" by (simp add: scull_w_available_def)
      then have "o_owner st' = o_owner st" "o_count st' \<noteq> 0 \<or> o_count st = - 1"
        using e by (auto simp: w_enter_def take_device_def Let_def split: if_splits)
      moreover have "0 \<le> o_count st" using I by (simp add: w_inv_def guarded_def)
      ultimately show ?thesis using n by (simp add: scull_w_available_def)
    next
      assume "\<exists>q. pc q = W_wake"
      then show ?thesis using p by (metis fun_upd_other w_pc.distinct)
    qed
  qed
  then show ?thesis using G by (simp add: w_inv_def)
qed

lemma w_inv_close:
  assumes I: "w_inv cr (st, pc)" and p: "pc p = W_open" and e: "scull_w_release st = (st', r, wake)"
  shows "w_inv cr (st', pc(p := if wake then W_wake else W_idle))"
proof -
  let ?x = "if wake then W_wake else W_idle"
  have st': "st' = st\<lparr>o_count := o_count st - 1\<rparr>" "wake = (o_count st - 1 = 0)"
    using e by (auto simp: scull_w_release_def Let_def)
  have "p \<in> w_holders pc" using p by (simp add: w_holders_def)
  then have G: "guarded cr st' (w_holders (pc(p := ?x)))"
    using wg.leave_guarded[of cr st "w_holders pc" p] I st' by (simp add: w_inv_def holders_upd)
  have "\<not> scull_w_available (cr a) st' \<or> (\<exists>q. (pc(p := ?x)) q = W_wake)" if a: "(pc(p := ?x)) a = W_asleep" for a
  proof (cases wake)
    case True
    then show ?thesis by (intro disjI2 exI[of _ p]) simp
  next
    case False
    have "pc a = W_asleep" using a False by (auto split: if_splits)
    then have "\<not> scull_w_available (cr a) st \<or> (\<exists>q. pc q = W_wake)" using I by (simp add: w_inv_def)
    then show ?thesis
    proof
      assume "\<not> scull_w_available (cr a) st"
      then show ?thesis using st' False by (simp add: scull_w_available_def)
    next
      assume "\<exists>q. pc q = W_wake"
      then show ?thesis using p by (metis fun_upd_other w_pc.distinct)
    qed
  qed
  then show ?thesis using G by (simp add: w_inv_def)
qed

lemma w_inv_step: "w_step cr c c' \<Longrightarrow> w_inv cr c \<Longrightarrow> w_inv cr c'"
proof (induction rule: w_step.induct)
  case (w_granted pc p st st')
  show ?case by (rule w_inv_granted[OF w_granted(3,1,2)])
next
  case (w_close pc p st st' r wake)
  show ?case by (rule w_inv_close[OF w_close(3,1,2)])
next
  case (w_wake_up pc p st)
  let ?pc = "(\<lambda>q. if pc q = W_asleep then W_test else pc q)(p := W_idle)"
  have "w_holders ?pc = w_holders pc" using w_wake_up(1) by (auto simp: w_holders_def)
  then show ?case using w_wake_up(2) by (simp add: w_inv_def)
next
  case (w_test pc p st)
  show ?case by (rule w_inv_move[OF w_test(2)]) (simp_all add: w_test(1))
qed (erule w_inv_move; simp)+

lemma w_inv_reach: "(w_step cr)\<^sup>*\<^sup>* c c' \<Longrightarrow> w_inv cr c \<Longrightarrow> w_inv cr c'"
  by (induction rule: rtranclp_induct) (auto intro: w_inv_step)

text \<open>
  C27. The waiting device loses no wake-up: in every reachable state of any processes, a sleeper either may
  not have the device, because someone else has it open, or another process is just about to wake it;
  and the holders are always permitted by the owner and counted.
\<close>

theorem scull_wait_no_lost_wakeup:
  assumes "(w_step cr)\<^sup>*\<^sup>* (\<lparr>o_count = 0, o_owner = 0\<rparr>, \<lambda>_. W_idle) (st, pc)"
  shows "(\<forall>p. pc p = W_asleep \<longrightarrow>
      (\<exists>q. pc q = W_wake) \<or> (w_holders pc \<noteq> {} \<and> \<not> permitted (o_owner st) (cr p))) \<and>
    o_count st = int (card (w_holders pc)) \<and> (\<forall>i \<in> w_holders pc. permitted (o_owner st) (cr i))"
proof -
  have "w_inv cr (\<lparr>o_count = 0, o_owner = 0\<rparr>, \<lambda>_. W_idle)"
    by (simp add: w_inv_def guarded_def w_holders_def)
  from w_inv_reach[OF assms this] have I: "w_inv cr (st, pc)" .
  then have G: "guarded cr st (w_holders pc)" by (simp add: w_inv_def)
  have "(\<exists>q. pc q = W_wake) \<or> (w_holders pc \<noteq> {} \<and> \<not> permitted (o_owner st) (cr p))" if "pc p = W_asleep" for p
    using I that wg.refusal[OF G, of "cr p"] by (auto simp: w_inv_def w_enter_def)
  then show ?thesis using G by (simp add: guarded_def)
qed

theorem scull_wait_no_lost_wakeup_witness:
  "\<exists>(st :: owner_state) pc. pc (2 :: nat) = W_asleep \<and> pc 1 = W_open \<and> w_holders pc \<noteq> {} \<and> \<not> permitted (o_owner st) \<lparr>c_uid = 8, c_euid = 8, c_override = False\<rparr>"
proof -
  define cr :: "nat \<Rightarrow> cred" where "cr = (\<lambda>p. if p = 2 then \<lparr>c_uid = 8, c_euid = 8, c_override = False\<rparr> else \<lparr>c_uid = 7, c_euid = 7, c_override = False\<rparr>)"
  define p0 where "p0 = (\<lambda>_ :: nat. W_idle)"
  define p1 where "p1 = p0(1 := W_lock)"
  define p2 where "p2 = p1(1 := W_open)"
  define p3 where "p3 = p2(2 := W_lock)"
  define p4 where "p4 = p3(2 := W_test)"
  define p5 where "p5 = p4(2 := W_asleep)"
  let ?s0 = "\<lparr>o_count = 0, o_owner = 0\<rparr>" and ?s1 = "\<lparr>o_count = 1, o_owner = 7\<rparr>"
  have n: "w_enter (cr 1) ?s0 = Some ?s1" "\<not> scull_w_available (cr 2) ?s1" "w_enter (cr 2) ?s1 = None"
    by (simp_all add: w_enter_def) (simp_all add: scull_w_available_def take_device_def cr_def)
  have a: "w_step cr (?s0, p0) (?s0, p1)" unfolding p1_def by (rule w_step.w_call) (simp add: p0_def)
  have b: "w_step cr (?s0, p1) (?s1, p2)" unfolding p2_def by (rule w_step.w_granted[of p1 1]) (simp add: p1_def, rule n(1))
  have c: "w_step cr (?s1, p2) (?s1, p3)"
    unfolding p3_def by (rule w_step.w_call) (simp add: p2_def p1_def p0_def)
  have d: "w_step cr (?s1, p3) (?s1, p4)" unfolding p4_def by (rule w_step.w_wait[of p3 2]) (simp add: p3_def, rule n(3))
  have t: "p4 2 = W_test" by (simp add: p4_def)
  have e: "w_step cr (?s1, p4) (?s1, p5)"
    using w_step.w_test[of p4 2, OF t, of cr ?s1] n(2) by (simp add: p5_def)
  note R = rtranclp.rtrancl_into_rtrancl[OF rtranclp.rtrancl_into_rtrancl[OF rtranclp.rtrancl_into_rtrancl[OF
        rtranclp.rtrancl_into_rtrancl[OF r_into_rtranclp[of "w_step cr", OF a] b] c] d] e]
  have q: "p5 2 = W_asleep" "p5 1 = W_open" by (simp_all add: p5_def p4_def p3_def p2_def)
  have w: "p5 x \<noteq> W_wake" for x by (simp add: p5_def p4_def p3_def p2_def p1_def p0_def)
  from scull_wait_no_lost_wakeup[OF R[unfolded p0_def]] q(1) w
  have "w_holders p5 \<noteq> {} \<and> \<not> permitted 7 (cr 2)" by auto
  then show ?thesis using q by (intro exI[of _ ?s1] exI[of _ p5]) (simp add: cr_def)
qed

subsection \<open>The private device of each terminal\<close>

text \<open>\<open>scull_c_list\<close>, newest item first; a pointer into the list is named by its key.\<close>

type_synonym clones = "(nat \<times> scull_dev) list"

fun c_find :: "clones \<Rightarrow> nat \<Rightarrow> scull_dev option" where
  "c_find [] key = None"
| "c_find ((k, dev) # l) key = (if k = key then Some dev else c_find l key)"

fun c_update :: "nat \<Rightarrow> (scull_dev \<Rightarrow> scull_dev) \<Rightarrow> clones \<Rightarrow> clones" where
  "c_update key f [] = []"
| "c_update key f ((k, dev) # l) = (if k = key then (k, f dev) # l else (k, dev) # c_update key f l)"

text \<open>The list and whether there is a device; \<open>ok\<close> is the outcome of \<open>kmalloc\<close>.\<close>

definition scull_c_lookfor_device :: "scull_params \<Rightarrow> bool \<Rightarrow> clones \<Rightarrow> nat \<Rightarrow> clones \<times> bool" where
  "scull_c_lookfor_device g ok l key =
     (if c_find l key \<noteq> None then (l, True)
      else if \<not> ok then (l, False)
      else ((key, fst (scull_trim g \<lparr>dev_data = [], dev_quantum = 0, dev_qset = 0, dev_size = 0\<rparr>)) # l, True))"

definition scull_c_open ::
  "scull_params \<Rightarrow> accmode \<Rightarrow> nat option \<Rightarrow> bool \<Rightarrow> clones \<Rightarrow> clones \<times> int sysret" where
  "scull_c_open g flags tty ok l =
     (case tty of None \<Rightarrow> (l, Err EINVAL)
      | Some key \<Rightarrow>
        (case scull_c_lookfor_device g ok l key of (l1, found) \<Rightarrow>
           if \<not> found then (l1, Err ENOMEM) else (c_update key (trim_if_write g flags) l1, Ret 0)))"

definition scull_c_release :: "clones \<Rightarrow> clones \<times> int sysret" where
  "scull_c_release l = (l, Ret 0)"

text \<open>The calls that change a private device, with the outcomes of the services they use.\<close>

datatype c_op =
    C_open "nat option" accmode bool
  | C_write nat bool "bool list" "byte ucopy" "byte list" nat
  | C_read nat bool "bool list" bool nat nat

fun c_key :: "c_op \<Rightarrow> nat option" where
  "c_key (C_open tty flags ok) = tty"
| "c_key (C_write key intr al uc buf p) = Some key"
| "c_key (C_read key intr al fault n p) = Some key"

fun c_step :: "scull_params \<Rightarrow> c_op \<Rightarrow> clones \<Rightarrow> clones" where
  "c_step g (C_open tty flags ok) l = fst (scull_c_open g flags tty ok l)"
| "c_step g (C_write key intr al uc buf p) l = c_update key (\<lambda>dev. fst (scull_write intr al uc dev buf p)) l"
| "c_step g (C_read key intr al fault n p) l = c_update key (\<lambda>dev. fst (scull_read intr al fault dev n p)) l"

lemma c_find_update: "c_find (c_update key f l) k = (if k = key then map_option f (c_find l k) else c_find l k)"
  by (induction key f l rule: c_update.induct) auto

lemma c_update_keys [simp]: "map fst (c_update key f l) = map fst l"
  by (induction key f l rule: c_update.induct) auto

lemma c_find_None: "c_find l k = None \<longleftrightarrow> k \<notin> fst ` set l"
  by (induction l k rule: c_find.induct) auto

lemma c_find_open:
  "c_find (fst (scull_c_open g flags tty ok l)) k =
     (if tty = Some k then
        (case c_find l k of
           Some dev \<Rightarrow> Some (trim_if_write g flags dev)
         | None \<Rightarrow> if ok then Some (trim_if_write g flags
             (fst (scull_trim g \<lparr>dev_data = [], dev_quantum = 0, dev_qset = 0, dev_size = 0\<rparr>))) else None)
      else c_find l k)"
  by (auto simp: scull_c_open_def scull_c_lookfor_device_def c_find_update split: option.splits)

lemma c_step_other: "c_key p \<noteq> Some k \<Longrightarrow> c_find (c_step g p l) k = c_find l k"
  by (cases p) (auto simp: c_find_open c_find_update)

lemma c_step_own: "c_find l k = c_find l' k \<Longrightarrow> c_key p = Some k \<Longrightarrow> c_find (c_step g p l) k = c_find (c_step g p l') k"
  by (cases p) (auto simp: c_find_open c_find_update)

lemma c_step_distinct: "distinct (map fst l) \<Longrightarrow> distinct (map fst (c_step g p l))"
  by (cases p) (auto simp: scull_c_open_def scull_c_lookfor_device_def c_find_None split: option.splits)

lemma c_run_own:
  "c_find l k = c_find l' k \<Longrightarrow>
   c_find (fold (c_step g) ops l) k = c_find (fold (c_step g) (filter (\<lambda>p. c_key p = Some k) ops) l') k"
proof (induction ops arbitrary: l l')
  case (Cons p ops)
  show ?case
  proof (cases "c_key p = Some k")
    case True
    then show ?thesis using Cons.IH[OF c_step_own[OF Cons.prems True]] by simp
  next
    case False
    then have "c_find (c_step g p l) k = c_find l' k" using c_step_other[of p k g l] Cons.prems by simp
    from Cons.IH[OF this] show ?thesis using False by simp
  qed
qed simp

text \<open>
  Private devices are private: whatever calls the processes of all terminals make, the device of a
  terminal is in the state that the calls from this terminal alone give it; the list never holds two
  devices of one terminal.
\<close>

theorem scull_private_devices:
  "c_find (fold (c_step g) ops []) key = c_find (fold (c_step g) (filter (\<lambda>p. c_key p = Some key) ops) []) key \<and>
   distinct (map fst (fold (c_step g) ops []))"
proof -
  have "distinct (map fst l) \<Longrightarrow> distinct (map fst (fold (c_step g) ops l))" for l
    by (induction ops arbitrary: l) (simp_all add: c_step_distinct)
  then show ?thesis using c_run_own[of "[]" key "[]"] by simp
qed

subsection \<open>Setting up and cleaning up\<close>

definition scull_access_setup :: "scull_params \<Rightarrow> scull_dev \<Rightarrow> scull_dev" where
  "scull_access_setup g dev = dev\<lparr>dev_quantum := scull_quantum g, dev_qset := scull_qset g\<rparr>"

text \<open>The number of devices, 0 when the region could not be registered.\<close>

definition scull_access_init :: "scull_params \<Rightarrow> bool \<Rightarrow> scull_dev list \<Rightarrow> scull_dev list \<times> int" where
  "scull_access_init g registered devs =
     (if \<not> registered then (devs, 0) else (map (scull_access_setup g) devs, 4))"

text \<open>The devices left, the list left and the number of objects freed.\<close>

definition scull_access_cleanup :: "scull_params \<Rightarrow> scull_dev list \<Rightarrow> clones \<Rightarrow> scull_dev list \<times> clones \<times> nat" where
  "scull_access_cleanup g devs l =
     (map (\<lambda>d. fst (scull_trim g d)) devs, [],
      sum_list (map (\<lambda>d. snd (scull_trim g d)) devs) + sum_list (map (\<lambda>(k, d). snd (scull_trim g d) + 1) l))"

lemma scull_access_init_inv:
  assumes "scull_params_ok g"
  shows "scull_inv (scull_access_setup g \<lparr>dev_data = [], dev_quantum = 0, dev_qset = 0, dev_size = 0\<rparr>)"
  using scull_trim_inv[OF assms, of "\<lparr>dev_data = [], dev_quantum = 0, dev_qset = 0, dev_size = 0\<rparr>"]
  by (simp add: scull_trim_def scull_access_setup_def)

lemma scull_access_cleanup_frees:
  assumes "\<forall>d \<in> set devs \<union> snd ` set l. scull_wf d"
  shows "snd (snd (scull_access_cleanup g devs l)) =
    sum_list (map scull_objects devs) + sum_list (map (\<lambda>(k, d). scull_objects d + 1) l)"
proof -
  have "snd (scull_trim g d) = scull_objects d" if "scull_wf d" for d
    unfolding scull_trim_def scull_objects_def snd_conv
    using that by (intro scull_trim_loop_objects) (auto simp: scull_wf_def scull_S_def)
  then have "map (\<lambda>d. snd (scull_trim g d)) devs = map scull_objects devs"
    "map (\<lambda>(k, d). snd (scull_trim g d) + 1) l = map (\<lambda>(k, d). scull_objects d + 1) l"
    using assms by (auto intro!: map_cong simp: image_iff split_beta)
  then show ?thesis unfolding scull_access_cleanup_def by (simp only: snd_conv)
qed

end
