(* ===== verification/Scull_Pipe.thy ===== *)
theory Scull_Pipe
  imports Byte_Fifo Scull_Main
begin

text \<open>
  The scull pipe device (\<open>scull/dev/pipe.c\<close>): a ring buffer with blocking readers and writers.
  Pointers into \<open>dev->buffer\<close> are offsets from it.  A call that sleeps gets the list of events that
  end its waits; \<open>spacefree\<close> is \<open>None\<close> where the code divides by zero.
\<close>

record scull_pipe =
  p_buffer :: "byte list option"
  p_buffersize :: int
  p_end :: int
  p_rp :: int
  p_wp :: int
  p_nreaders :: int
  p_nwriters :: int

subsection \<open>Open and release\<close>

text \<open>\<open>mem\<close> is the memory \<open>kmalloc\<close> hands out: \<open>None\<close>, or bytes of any value.\<close>

definition scull_p_open ::
  "bool \<Rightarrow> (nat \<Rightarrow> byte) option \<Rightarrow> scull_params \<Rightarrow> bool \<Rightarrow> bool \<Rightarrow> scull_pipe \<Rightarrow> scull_pipe \<times> int sysret" where
  "scull_p_open intr mem g fmode_read fmode_write dev =
     (if intr then (dev, Err ERESTARTSYS)
      else if p_buffer dev = None \<and> mem = None then (dev, Err ENOMEM)
      else
        let buf = (case p_buffer dev of Some b \<Rightarrow> b
                   | None \<Rightarrow> map (the mem) [0..<nat (scull_p_buffer g)]);
            dev1 = dev\<lparr>p_buffer := Some buf, p_buffersize := scull_p_buffer g, p_end := scull_p_buffer g,
                       p_rp := 0, p_wp := 0\<rparr>;
            dev2 = (if fmode_read then dev1\<lparr>p_nreaders := p_nreaders dev1 + 1\<rparr> else dev1);
            dev3 = (if fmode_write then dev2\<lparr>p_nwriters := p_nwriters dev2 + 1\<rparr> else dev2)
        in (dev3, Ret 0))"

definition scull_p_release :: "bool \<Rightarrow> bool \<Rightarrow> scull_pipe \<Rightarrow> scull_pipe \<times> int sysret" where
  "scull_p_release fmode_read fmode_write dev =
     (let dev1 = (if fmode_read then dev\<lparr>p_nreaders := p_nreaders dev - 1\<rparr> else dev);
          dev2 = (if fmode_write then dev1\<lparr>p_nwriters := p_nwriters dev1 - 1\<rparr> else dev1)
      in (if p_nreaders dev2 + p_nwriters dev2 = 0 then dev2\<lparr>p_buffer := None\<rparr> else dev2, Ret 0))"

subsection \<open>Reading\<close>

fun scull_p_wait_data :: "bool \<Rightarrow> scull_pipe \<Rightarrow> scull_pipe wake list \<Rightarrow> scull_pipe \<times> unit sysret" where
  "scull_p_wait_data nonblock dev ws =
     (if p_rp dev \<noteq> p_wp dev then (dev, Ret ())
      else if nonblock then (dev, Err EAGAIN)
      else case ws of
        [] \<Rightarrow> (dev, Asleep)
      | Signal # _ \<Rightarrow> (dev, Err ERESTARTSYS)
      | Lock_Signal # _ \<Rightarrow> (dev, Err ERESTARTSYS)
      | Resumed dev' # ws' \<Rightarrow> scull_p_wait_data nonblock dev' ws')"

text \<open>The part of \<open>scull_p_read\<close> after the wait.\<close>

definition scull_p_take :: "bool \<Rightarrow> scull_pipe \<Rightarrow> nat \<Rightarrow> scull_pipe \<times> byte list sysret" where
  "scull_p_take fault dev count =
     (let count = (if p_wp dev > p_rp dev then min count (size_t (p_wp dev - p_rp dev))
                   else min count (size_t (p_end dev - p_rp dev))) in
      case p_buffer dev of
        None \<Rightarrow> (dev, Oops)
      | Some b \<Rightarrow>
        if p_rp dev < 0 \<or> int (length b) < p_rp dev + int count then (dev, Oops)
        else if fault then (dev, Err EFAULT)
        else let rp = p_rp dev + int count in
          (dev\<lparr>p_rp := (if rp = p_end dev then 0 else rp)\<rparr>, Ret (region b (nat (p_rp dev)) count)))"

definition scull_p_read ::
  "bool \<Rightarrow> bool \<Rightarrow> scull_pipe wake list \<Rightarrow> bool \<Rightarrow> scull_pipe \<Rightarrow> nat \<Rightarrow> scull_pipe \<times> byte list sysret" where
  "scull_p_read intr nonblock ws fault dev count =
     (if intr then (dev, Err ERESTARTSYS)
      else case scull_p_wait_data nonblock dev ws of
        (dev', Ret _) \<Rightarrow> scull_p_take fault dev' count
      | (dev', Err e) \<Rightarrow> (dev', Err e)
      | (dev', Asleep) \<Rightarrow> (dev', Asleep)
      | (dev', Oops) \<Rightarrow> (dev', Oops))"

subsection \<open>Writing\<close>

definition spacefree :: "scull_pipe \<Rightarrow> int option" where
  "spacefree dev =
     (if p_rp dev = p_wp dev then Some (p_buffersize dev - 1)
      else if p_buffersize dev = 0 then None
      else Some ((p_rp dev + p_buffersize dev - p_wp dev) smod p_buffersize dev - 1))"

fun scull_getwritespace :: "bool \<Rightarrow> scull_pipe \<Rightarrow> scull_pipe wake list \<Rightarrow> scull_pipe \<times> unit sysret" where
  "scull_getwritespace nonblock dev ws =
     (case spacefree dev of
        None \<Rightarrow> (dev, Oops)
      | Some free \<Rightarrow>
        if free \<noteq> 0 then (dev, Ret ())
        else if nonblock then (dev, Err EAGAIN)
        else case ws of
          [] \<Rightarrow> (dev, Asleep)
        | Signal # _ \<Rightarrow> (dev, Err ERESTARTSYS)
        | Lock_Signal # _ \<Rightarrow> (dev, Err ERESTARTSYS)
        | Resumed dev' # ws' \<Rightarrow> scull_getwritespace nonblock dev' ws')"

text \<open>The part of \<open>scull_p_write\<close> after the wait.\<close>

definition scull_p_accept :: "byte ucopy \<Rightarrow> scull_pipe \<Rightarrow> byte list \<Rightarrow> scull_pipe \<times> nat sysret" where
  "scull_p_accept uc dev buf =
     (case spacefree dev of
        None \<Rightarrow> (dev, Oops)
      | Some free \<Rightarrow>
        let count = min (length buf) (size_t free);
            count = (if p_wp dev \<ge> p_rp dev then min count (size_t (p_end dev - p_wp dev))
                     else min count (size_t (p_rp dev - p_wp dev - 1)))
        in case p_buffer dev of
          None \<Rightarrow> (dev, Oops)
        | Some b \<Rightarrow>
          if p_wp dev < 0 \<or> int (length b) < p_wp dev + int count then (dev, Oops)
          else
            let dev1 = dev\<lparr>p_buffer := Some (blit b (nat (p_wp dev)) (copy_in uc (take count buf)))\<rparr> in
            if uc \<noteq> Copied then (dev1, Err EFAULT)
            else let wp = p_wp dev + int count in
              (dev1\<lparr>p_wp := (if wp = p_end dev then 0 else wp)\<rparr>, Ret count))"

definition scull_p_write ::
  "bool \<Rightarrow> bool \<Rightarrow> scull_pipe wake list \<Rightarrow> byte ucopy \<Rightarrow> scull_pipe \<Rightarrow> byte list \<Rightarrow> scull_pipe \<times> nat sysret" where
  "scull_p_write intr nonblock ws uc dev buf =
     (if intr then (dev, Err ERESTARTSYS)
      else case scull_getwritespace nonblock dev ws of
        (dev', Ret _) \<Rightarrow> scull_p_accept uc dev' buf
      | (dev', Err e) \<Rightarrow> (dev', Err e)
      | (dev', Asleep) \<Rightarrow> (dev', Asleep)
      | (dev', Oops) \<Rightarrow> (dev', Oops))"

text \<open>\<open>poll\<close>: readable, writable; \<open>None\<close> is the division by zero.\<close>

definition scull_p_poll :: "scull_pipe \<Rightarrow> (bool \<times> bool) option" where
  "scull_p_poll dev = (case spacefree dev of None \<Rightarrow> None
     | Some free \<Rightarrow> Some (p_rp dev \<noteq> p_wp dev, free \<noteq> 0))"

declare scull_p_wait_data.simps [simp del] scull_getwritespace.simps [simp del]

subsection \<open>The ring\<close>

definition pipe_wf :: "scull_pipe \<Rightarrow> bool" where
  "pipe_wf dev = (case p_buffer dev of None \<Rightarrow> False
     | Some b \<Rightarrow> p_buffersize dev = int (length b) \<and> p_end dev = int (length b) \<and>
         length b < 2147483648 \<and>
         0 \<le> p_rp dev \<and> p_rp dev < p_end dev \<and> 0 \<le> p_wp dev \<and> p_wp dev < p_end dev)"

definition pipe_content :: "scull_pipe \<Rightarrow> byte list" where
  "pipe_content dev = (case p_buffer dev of None \<Rightarrow> []
     | Some b \<Rightarrow> ring_content b (nat (p_rp dev)) (nat (p_wp dev)))"

definition pipe_cap :: "scull_pipe \<Rightarrow> nat" where
  "pipe_cap dev = nat (p_buffersize dev) - 1"

text \<open>The device with buffer \<open>b\<close> and offsets \<open>r\<close> and \<open>w\<close>.\<close>

definition pipe_at :: "scull_pipe \<Rightarrow> byte list \<Rightarrow> nat \<Rightarrow> nat \<Rightarrow> bool" where
  "pipe_at dev b r w \<longleftrightarrow> p_buffer dev = Some b \<and> p_buffersize dev = int (length b) \<and>
     p_end dev = int (length b) \<and> length b < 2147483648 \<and>
     p_rp dev = int r \<and> p_wp dev = int w \<and> r < length b \<and> w < length b"

lemma pipe_wf_at: "pipe_wf dev \<longleftrightarrow> (\<exists>b r w. pipe_at dev b r w)"
proof
  assume wf: "pipe_wf dev"
  then obtain b where b: "p_buffer dev = Some b" by (auto simp: pipe_wf_def split: option.splits)
  from wf b have "pipe_at dev b (nat (p_rp dev)) (nat (p_wp dev))"
    by (auto simp: pipe_wf_def pipe_at_def)
  then show "\<exists>b r w. pipe_at dev b r w" by blast
qed (auto simp: pipe_wf_def pipe_at_def)

lemma pipe_at_content: "pipe_at dev b r w \<Longrightarrow> pipe_content dev = ring_content b r w \<and> pipe_cap dev = length b - 1"
  by (simp add: pipe_at_def pipe_content_def pipe_cap_def)

lemma spacefree_at:
  assumes "pipe_at dev b r w"
  shows "spacefree dev = Some (int (length b - 1 - length (ring_content b r w)))"
proof (cases "r = w")
  case True
  then show ?thesis using assms by (simp add: pipe_at_def spacefree_def length_ring_content)
next
  case False
  note A = assms[unfolded pipe_at_def]
  have "spacefree dev = Some ((int r + int (length b) - int w) smod int (length b) - 1)"
    using False A by (auto simp: spacefree_def)
  also have "(int r + int (length b) - int w) smod int (length b) - 1 =
      int (length b - 1 - length (ring_content b r w))"
    using A False by (intro ring_free_smod) simp_all
  finally show ?thesis .
qed

lemma scull_p_take_at:
  assumes at: "pipe_at dev b r w" and ne: "r \<noteq> w" and c: "c = min count (ring_avail (length b) r w)"
  shows "scull_p_take fault dev count =
    (if fault then (dev, Err EFAULT)
     else (dev\<lparr>p_rp := int (ring_next (length b) r c)\<rparr>, Ret (region b r c)))"
proof -
  note A = at[unfolded pipe_at_def]
  have "size_t (int w - int r) = w - r" if "r < w"
    using that A by (intro size_t_diff) linarith+
  moreover have "size_t (int (length b) - int r) = length b - r"
    using A by (intro size_t_diff) linarith+
  ultimately have cc: "(if p_wp dev > p_rp dev then min count (size_t (p_wp dev - p_rp dev))
      else min count (size_t (p_end dev - p_rp dev))) = c"
    using ne A by (auto simp: c ring_avail_def)
  have "r + c \<le> length b"
    using ring_content_get(2)[of r b w c] A by (simp add: c)
  then show ?thesis
    unfolding scull_p_take_def Let_def cc using A
    by (simp add: ring_next_def flip: of_nat_add)
qed

lemma scull_p_accept_at:
  assumes at: "pipe_at dev b r w" and c: "c = min (length buf) (ring_room (length b) r w)"
  shows "scull_p_accept uc dev buf =
    (let dev1 = dev\<lparr>p_buffer := Some (blit b w (copy_in uc (take c buf)))\<rparr> in
     if uc \<noteq> Copied then (dev1, Err EFAULT)
     else (dev1\<lparr>p_wp := int (ring_next (length b) w c)\<rparr>, Ret c))"
proof -
  note A = at[unfolded pipe_at_def]
  let ?f = "length b - 1 - length (ring_content b r w)"
  have f: "size_t (int ?f) = ?f" using A by (intro size_t_small) linarith
  have "size_t (int r - int w - 1) = r - w - 1" if "w < r"
  proof -
    have "int r - int w - 1 = int r - int (w + 1)" by simp
    moreover have "size_t (int r - int (w + 1)) = r - (w + 1)"
      using that A by (intro size_t_diff) linarith+
    ultimately show ?thesis by (simp only: diff_diff_left)
  qed
  moreover have "size_t (int (length b) - int w) = length b - w"
    using A by (intro size_t_diff) linarith+
  ultimately have cc: "(if p_wp dev \<ge> p_rp dev
      then min (min (length buf) (size_t (int ?f))) (size_t (p_end dev - p_wp dev))
      else min (min (length buf) (size_t (int ?f))) (size_t (p_rp dev - p_wp dev - 1))) = c"
    unfolding f using A by (auto simp: c ring_room_def length_ring_content)
  have "w + length (take c buf) \<le> length b"
    using ring_content_put(2)[of r b w "take c buf"] A by (simp add: c)
  then have "w + c \<le> length b" by (simp add: c)
  then show ?thesis
    unfolding scull_p_accept_def spacefree_at[OF at] option.case Let_def cc using A
    by (simp add: ring_next_def flip: of_nat_add)
qed

lemma take_effect:
  assumes wf: "pipe_wf dev" and ne: "p_rp dev \<noteq> p_wp dev"
    and R: "scull_p_take fault dev count = (dev', res)"
  shows "pipe_wf dev' \<and> pipe_cap dev' = pipe_cap dev \<and>
    (if fault then dev' = dev \<and> res = Err EFAULT
     else \<exists>ys. res = Ret ys \<and> length ys \<le> count \<and> (0 < count \<longrightarrow> ys \<noteq> []) \<and>
       pipe_content dev = ys @ pipe_content dev')"
proof -
  from wf obtain b r w where at: "pipe_at dev b r w" by (auto simp: pipe_wf_at)
  note A = at[unfolded pipe_at_def]
  define c where c: "c = min count (ring_avail (length b) r w)"
  have rw: "r \<noteq> w" using ne A by simp
  note T = scull_p_take_at[OF at rw c, of fault]
  have bounds: "r < length b" "w < length b" "c \<le> ring_avail (length b) r w" using A by (simp_all add: c)
  note G = ring_content_get[OF bounds]
  show ?thesis
  proof (cases fault)
    case True
    then show ?thesis using R T wf by simp
  next
    case False
    then have d': "dev' = dev\<lparr>p_rp := int (ring_next (length b) r c)\<rparr>" "res = Ret (region b r c)"
      using R T by auto
    have at': "pipe_at dev' b (ring_next (length b) r c) w" using A G(3) by (simp add: pipe_at_def d')
    have wf': "pipe_wf dev'" using at' by (auto simp: pipe_wf_at)
    have lr: "length (region b r c) = c" using G(2) by simp
    have "0 < c" if "0 < count" using that ring_avail_pos[OF bounds(1) rw] by (simp add: c)
    then have "0 < count \<longrightarrow> region b r c \<noteq> []" using lr by (metis less_numeral_extra(3) list.size(3))
    moreover have "length (region b r c) \<le> count" unfolding lr by (simp add: c)
    moreover have "pipe_content dev = region b r c @ pipe_content dev'" "pipe_cap dev' = pipe_cap dev"
      using G(1) pipe_at_content[OF at] pipe_at_content[OF at'] by simp_all
    ultimately show ?thesis using False wf' d'(2) by simp
  qed
qed

lemma accept_effect:
  assumes wf: "pipe_wf dev" and R: "scull_p_accept uc dev buf = (dev', res)"
  shows "pipe_wf dev' \<and> pipe_cap dev' = pipe_cap dev \<and>
    (if uc \<noteq> Copied then pipe_content dev' = pipe_content dev \<and> res = Err EFAULT
     else \<exists>k. res = Ret k \<and> k \<le> length buf \<and> pipe_content dev' = pipe_content dev @ take k buf \<and>
       (buf \<noteq> [] \<and> length (pipe_content dev) < pipe_cap dev \<longrightarrow> 0 < k))"
proof -
  from wf obtain b r w where at: "pipe_at dev b r w" by (auto simp: pipe_wf_at)
  note A = at[unfolded pipe_at_def]
  define c where c: "c = min (length buf) (ring_room (length b) r w)"
  define ys where ys: "ys = copy_in uc (take c buf)"
  note T = scull_p_accept_at[OF at c, of uc, folded ys]
  have rw: "r < length b" "w < length b" using A by simp_all
  have yl: "length ys \<le> ring_room (length b) r w"
    using length_copy_in_le[of uc "take c buf"] by (simp add: ys c del: length_copy_in_le)
  have lb: "length (blit b w ys) = length b" using ring_content_put(2)[OF rw yl] by simp
  show ?thesis
  proof (cases "uc = Copied")
    case False
    then have d': "dev' = dev\<lparr>p_buffer := Some (blit b w ys)\<rparr>" "res = Err EFAULT"
      using R T by (auto simp: Let_def)
    have at': "pipe_at dev' (blit b w ys) r w" using A lb by (simp add: pipe_at_def d')
    then show ?thesis
      using False ring_content_scratch[OF rw yl] pipe_at_content[OF at] pipe_at_content[OF at'] d' lb
      by (auto simp: pipe_wf_at)
  next
    case True
    then have yc: "ys = take c buf" "length ys = c" by (simp_all add: ys c)
    have d': "dev' = dev\<lparr>p_buffer := Some (blit b w ys), p_wp := int (ring_next (length b) w c)\<rparr>" "res = Ret c"
      using R T True by (auto simp: Let_def)
    have at': "pipe_at dev' (blit b w ys) r (ring_next (length b) w c)"
      using A lb ring_content_put(3)[OF rw yl] by (simp add: pipe_at_def d' yc(2))
    have wf': "pipe_wf dev'" using at' by (auto simp: pipe_wf_at)
    have cl: "c \<le> length buf" by (simp add: c)
    have "0 < c" if "buf \<noteq> []" "length (pipe_content dev) < pipe_cap dev"
      using that ring_room_pos[OF rw] pipe_at_content[OF at] by (simp add: c)
    then show ?thesis
      using True ring_content_put(1)[OF rw yl, unfolded yc(2)] pipe_at_content[OF at] pipe_at_content[OF at']
        d'(2) lb yc(1) cl wf' by simp
  qed
qed

lemma pipe_free:
  assumes "pipe_wf dev"
  shows "spacefree dev = Some (int (pipe_cap dev - length (pipe_content dev)))"
    and "length (pipe_content dev) \<le> pipe_cap dev"
    and "p_rp dev = p_wp dev \<longleftrightarrow> pipe_content dev = []"
proof -
  from assms obtain b r w where at: "pipe_at dev b r w" by (auto simp: pipe_wf_at)
  note A = at[unfolded pipe_at_def]
  show "spacefree dev = Some (int (pipe_cap dev - length (pipe_content dev)))"
    using spacefree_at[OF at] pipe_at_content[OF at] by simp
  show "length (pipe_content dev) \<le> pipe_cap dev"
    using ring_content_bound[of r b w] A pipe_at_content[OF at] by simp
  show "p_rp dev = p_wp dev \<longleftrightarrow> pipe_content dev = []"
    using ring_content_empty[of r b w] A pipe_at_content[OF at] by simp
qed

subsection \<open>Waiting\<close>

text \<open>The devices a sleeper may find are well-formed.\<close>

definition wakes_wf :: "scull_pipe wake list \<Rightarrow> bool" where
  "wakes_wf ws \<longleftrightarrow> (\<forall>d. Resumed d \<in> set ws \<longrightarrow> pipe_wf d)"

lemma wait_data_effect:
  "pipe_wf dev \<Longrightarrow> wakes_wf ws \<Longrightarrow> scull_p_wait_data nb dev ws = (dev', res) \<Longrightarrow>
   pipe_wf dev' \<and> res \<noteq> Oops \<and> (is_ret res \<longrightarrow> p_rp dev' \<noteq> p_wp dev') \<and>
   (res = Err EAGAIN \<longrightarrow> nb \<and> dev' = dev \<and> pipe_content dev = []) \<and>
   (\<forall>e. res = Err e \<longrightarrow> e \<in> {EAGAIN, ERESTARTSYS}) \<and> (res = Asleep \<longrightarrow> \<not> nb \<and> pipe_content dev' = [])"
proof (induction nb dev ws arbitrary: dev' res rule: scull_p_wait_data.induct)
  case (1 nb dev ws)
  show ?case
  proof (cases "p_rp dev = p_wp dev \<and> \<not> nb \<and> (\<exists>d ws'. ws = Resumed d # ws')")
    case True
    then obtain d ws' where ws: "ws = Resumed d # ws'" by blast
    have "pipe_wf d" "wakes_wf ws'" using "1.prems"(2) ws by (auto simp: wakes_wf_def)
    moreover have "scull_p_wait_data nb d ws' = (dev', res)"
      using "1.prems"(3) True ws by (subst (asm) scull_p_wait_data.simps) simp
    ultimately show ?thesis
      using "1.IH"[of "Resumed d" ws' d dev' res] True ws by auto
  next
    case False
    then show ?thesis
      using "1.prems"(1,3)[unfolded scull_p_wait_data.simps[of nb dev ws]] pipe_free(3)[OF "1.prems"(1)]
      by (auto split: if_splits list.splits wake.splits)
  qed
qed

lemma writespace_effect:
  "pipe_wf dev \<Longrightarrow> wakes_wf ws \<Longrightarrow> scull_getwritespace nb dev ws = (dev', res) \<Longrightarrow>
   pipe_wf dev' \<and> res \<noteq> Oops \<and> (is_ret res \<longrightarrow> length (pipe_content dev') < pipe_cap dev') \<and>
   (res = Err EAGAIN \<longrightarrow> nb \<and> dev' = dev \<and> length (pipe_content dev) = pipe_cap dev) \<and>
   (\<forall>e. res = Err e \<longrightarrow> e \<in> {EAGAIN, ERESTARTSYS}) \<and>
   (res = Asleep \<longrightarrow> \<not> nb \<and> length (pipe_content dev') = pipe_cap dev')"
proof (induction nb dev ws arbitrary: dev' res rule: scull_getwritespace.induct)
  case (1 nb dev ws)
  note F = pipe_free[OF "1.prems"(1)]
  show ?case
  proof (cases "length (pipe_content dev) = pipe_cap dev \<and> \<not> nb \<and> (\<exists>d ws'. ws = Resumed d # ws')")
    case True
    then obtain d ws' where ws: "ws = Resumed d # ws'" by blast
    have "pipe_wf d" "wakes_wf ws'" using "1.prems"(2) ws by (auto simp: wakes_wf_def)
    moreover have "scull_getwritespace nb d ws' = (dev', res)"
      using "1.prems"(3) True ws F(1) by (subst (asm) scull_getwritespace.simps) simp
    ultimately show ?thesis
      using "1.IH"[OF F(1), of "Resumed d" ws' d dev' res] True ws by auto
  next
    case False
    then show ?thesis
      using "1.prems"(1,3)[unfolded scull_getwritespace.simps[of nb dev ws]] F
      by (auto split: if_splits list.splits wake.splits)
  qed
qed

lemmas pipe_loop_simps = scull_p_wait_data.simps scull_getwritespace.simps

subsection \<open>The pipe as a FIFO\<close>

definition pipe_put :: "scull_pipe \<Rightarrow> byte list \<Rightarrow> scull_pipe \<times> nat" where
  "pipe_put dev xs = (case scull_p_write False True [] Copied dev xs of
     (dev', Ret k) \<Rightarrow> (dev', k) | (dev', _) \<Rightarrow> (dev', 0))"

definition pipe_get :: "scull_pipe \<Rightarrow> nat \<Rightarrow> scull_pipe \<times> byte list" where
  "pipe_get dev n = (case scull_p_read False True [] False dev n of
     (dev', Ret ys) \<Rightarrow> (dev', ys) | (dev', _) \<Rightarrow> (dev', []))"

lemma pipe_put_spec:
  assumes wf: "pipe_wf dev" and R: "pipe_put dev xs = (dev', k)"
  shows "pipe_wf dev' \<and> pipe_cap dev' = pipe_cap dev \<and> pipe_content dev' = pipe_content dev @ take k xs \<and>
    k \<le> length xs \<and> (xs \<noteq> [] \<and> length (pipe_content dev) < pipe_cap dev \<longrightarrow> 0 < k)"
proof (cases "length (pipe_content dev) = pipe_cap dev")
  case True
  then have "scull_getwritespace True dev [] = (dev, Err EAGAIN)"
    using pipe_free[OF wf] by (simp add: scull_getwritespace.simps)
  then show ?thesis using R wf True by (simp add: pipe_put_def scull_p_write_def)
next
  case False
  then have "scull_getwritespace True dev [] = (dev, Ret ())"
    using pipe_free[OF wf] by (simp add: scull_getwritespace.simps)
  moreover obtain d res where a: "scull_p_accept Copied dev xs = (d, res)" by force
  ultimately show ?thesis
    using accept_effect[OF wf a] R by (auto simp: pipe_put_def scull_p_write_def)
qed

lemma pipe_get_spec:
  assumes wf: "pipe_wf dev" and R: "pipe_get dev n = (dev', ys)"
  shows "pipe_wf dev' \<and> pipe_cap dev' = pipe_cap dev \<and> pipe_content dev = ys @ pipe_content dev' \<and>
    length ys \<le> n \<and> (0 < n \<and> pipe_content dev \<noteq> [] \<longrightarrow> ys \<noteq> [])"
proof (cases "p_rp dev = p_wp dev")
  case True
  then have "scull_p_wait_data True dev [] = (dev, Err EAGAIN)" by (simp add: scull_p_wait_data.simps)
  then show ?thesis using R wf True pipe_free(3)[OF wf] by (auto simp: pipe_get_def scull_p_read_def)
next
  case False
  then have "scull_p_wait_data True dev [] = (dev, Ret ())" by (simp add: scull_p_wait_data.simps)
  moreover obtain d res where a: "scull_p_take False dev n = (d, res)" by force
  ultimately show ?thesis
    using take_effect[OF wf False a] R by (auto simp: pipe_get_def scull_p_read_def)
qed

interpretation pipe: byte_fifo pipe_wf pipe_content pipe_cap pipe_put pipe_get
proof (unfold_locales, goal_cases)
  case (1 s xs s' k)
  then show ?case using pipe_put_spec by blast
next
  case (2 s xs s' k)
  then show ?case using pipe_put_spec by blast
next
  case (3 s xs s' k)
  then show ?case using pipe_put_spec by blast
next
  case (4 s n s' ys)
  then show ?case using pipe_get_spec by blast
next
  case (5 s n s' ys)
  then show ?case using pipe_get_spec by blast
next
  case (6 s n s' ys)
  then show ?case using pipe_get_spec by blast
next
  case (7 s)
  then show ?case by (rule pipe_free(2))
qed

subsection \<open>Interleaved calls\<close>

text \<open>
  A section of a read or write with the outcomes of its kernel services: whether \<open>down_interruptible\<close> was
  interrupted, \<open>O_NONBLOCK\<close>, the user copy.  A call that is put to sleep ends its section with \<open>Asleep\<close>;
  when it is resumed it does what a call does from its entry on (\<open>resumed_read\<close>, \<open>resumed_write\<close>), and a signal
  ends it without effect.
\<close>

datatype pipe_section = Read_section bool bool bool nat | Write_section bool bool "byte ucopy" "byte list"

fun pipe_call :: "pipe_section \<Rightarrow> scull_pipe \<Rightarrow> scull_pipe \<times> byte list \<times> byte list" where
  "pipe_call (Read_section intr nonblock fault count) dev = read_result (scull_p_read intr nonblock [] fault dev count)"
| "pipe_call (Write_section intr nonblock uc buf) dev = write_result buf (scull_p_write intr nonblock [] uc dev buf)"

lemma take_accept_awake: "snd (scull_p_take fault dev n) \<noteq> Asleep" "snd (scull_p_accept uc dev buf) \<noteq> Asleep"
  by (auto simp: scull_p_take_def scull_p_accept_def Let_def split: option.splits)

lemma resumed_read:
  assumes "snd (scull_p_read False nb [] fault dev n) = Asleep"
  shows "scull_p_read False nb (Resumed d # ws) fault dev n = scull_p_read False nb ws fault d n \<and>
    scull_p_read False nb (Signal # ws) fault dev n = (dev, Err ERESTARTSYS) \<and>
    scull_p_read False nb (Lock_Signal # ws) fault dev n = (dev, Err ERESTARTSYS)"
proof -
  have "p_rp dev = p_wp dev \<and> \<not> nb"
    using assms take_accept_awake(1)[of fault dev n]
    by (cases "p_rp dev = p_wp dev"; cases nb) (simp_all add: scull_p_read_def scull_p_wait_data.simps)
  then show ?thesis by (simp add: scull_p_read_def scull_p_wait_data.simps[of False dev])
qed

lemma resumed_write:
  assumes "snd (scull_p_write False nb [] uc dev buf) = Asleep"
  shows "scull_p_write False nb (Resumed d # ws) uc dev buf = scull_p_write False nb ws uc d buf \<and>
    scull_p_write False nb (Signal # ws) uc dev buf = (dev, Err ERESTARTSYS) \<and>
    scull_p_write False nb (Lock_Signal # ws) uc dev buf = (dev, Err ERESTARTSYS)"
proof -
  have "spacefree dev = Some 0 \<and> \<not> nb"
  proof (cases "spacefree dev")
    case None
    then show ?thesis using assms by (simp add: scull_p_write_def scull_getwritespace.simps)
  next
    case (Some f)
    then show ?thesis using assms take_accept_awake(2)[of uc dev buf]
      by (cases "f = 0"; cases nb) (simp_all add: scull_p_write_def scull_getwritespace.simps)
  qed
  then show ?thesis by (simp add: scull_p_write_def scull_getwritespace.simps[of False dev])
qed

lemma pipe_call_effect:
  assumes wf: "pipe_wf dev" and R: "pipe_call c dev = (dev', ws, rs)"
  shows "pipe_wf dev' \<and> pipe_cap dev' = pipe_cap dev \<and> pipe_content dev @ ws = rs @ pipe_content dev'"
proof (cases c)
  case (Read_section intr nb fault n)
  obtain d res where w: "scull_p_wait_data nb dev [] = (d, res)" by force
  obtain d' res' where a: "scull_p_take fault dev n = (d', res')" by force
  have d: "d = dev \<and> (res = Ret () \<longrightarrow> p_rp dev \<noteq> p_wp dev)"
    using w by (auto simp: scull_p_wait_data.simps split: if_splits)
  show ?thesis
    using R w a d wf take_effect[OF wf _ a]
    by (cases intr; cases res; cases res') (auto simp: Read_section scull_p_read_def split: if_splits)
next
  case (Write_section intr nb uc buf)
  obtain d res where w: "scull_getwritespace nb dev [] = (d, res)" by force
  obtain d' res' where a: "scull_p_accept uc dev buf = (d', res')" by force
  have d: "d = dev" using w by (auto simp: scull_getwritespace.simps split: if_splits option.splits)
  show ?thesis
    using R w a d wf accept_effect[OF wf a]
    by (cases intr; cases res; cases res') (auto simp: Write_section scull_p_write_def split: if_splits)
qed

interpretation pipe_sections: byte_sections pipe_wf pipe_content pipe_cap pipe_call "\<lambda>_ _. True"
proof (unfold_locales, goal_cases)
  case (1 s c s' ws rs)
  then show ?case using pipe_call_effect by blast
next
  case (2 s c s' ws rs)
  then show ?case using pipe_call_effect[OF 2] by (metis length_append)
next
  case (3 s c s' ws rs)
  then show ?case using pipe_call_effect by blast
next
  case (4 s)
  then show ?case by (rule pipe_free(2))
qed

lemma all_along_True: "all_along call (\<lambda>_ _. True) s cs"
  by (induction cs arbitrary: s) simp_all

subsection \<open>Properties\<close>

definition tiny_pipe :: scull_pipe where
  "tiny_pipe = \<lparr>p_buffer = Some [0, 0, 0, 0], p_buffersize = 4, p_end = 4, p_rp = 2, p_wp = 2,
     p_nreaders = 1, p_nwriters = 1\<rparr>"

lemma tiny_pipe_facts: "pipe_wf tiny_pipe" "pipe_cap tiny_pipe = 3" "pipe_content tiny_pipe = []"
  by (simp_all add: pipe_wf_def pipe_cap_def pipe_content_def ring_content_def region_def tiny_pipe_def)

text \<open>
  C2. The pipe is a bounded FIFO: for any interleaving of reads and writes, blocking or not, interrupted or
  with failing user copies, what was stored plus what was accepted is what was delivered plus what is stored,
  in order, and never more than \<open>buffersize - 1\<close> bytes are stored.
\<close>

theorem scull_pipe_fifo:
  assumes "pipe_wf dev" "sections_run pipe_call dev cs = (dev', accepted, delivered)"
  shows "pipe_wf dev' \<and> pipe_content dev @ accepted = delivered @ pipe_content dev' \<and>
    length (pipe_content dev') \<le> nat (p_buffersize dev) - 1"
  using pipe_sections.run_sections[OF assms] by (simp add: pipe_cap_def all_along_True)

theorem scull_pipe_fifo_witness:
  "\<exists>cs. cs = [Read_section False False False 3, Write_section False True Copied [1, 2, 3, 4], Read_section False True True 1] \<and>
     snd (snd (sections_run pipe_call tiny_pipe cs)) @ pipe_content (fst (sections_run pipe_call tiny_pipe cs)) =
     fst (snd (sections_run pipe_call tiny_pipe cs))"
  using scull_pipe_fifo[OF tiny_pipe_facts(1) surjective_triple] by (simp add: tiny_pipe_facts(3))

text \<open>
  A message of any length gets through the pipe, whatever its buffer size (at least two) and
  the reader's request size: a writer and a reader that take turns make progress until the reader
  has the stored bytes and the whole message.
\<close>

theorem scull_pipe_transfer:
  assumes "pipe_wf dev" "1 < p_buffersize dev" "0 < n"
    and "2 * length xs + length (pipe_content dev) \<le> turns"
  shows "fifo_pump pipe_put pipe_get n turns dev xs = pipe_content dev @ xs"
  using pipe.pump_all[OF assms(1) _ assms(3,4)] assms(2) by (simp add: pipe_cap_def)

theorem scull_pipe_transfer_witness:
  "fifo_pump pipe_put pipe_get 2 12 tiny_pipe [1, 2, 3, 4, 5, 6] = [1, 2, 3, 4, 5, 6]"
  using scull_pipe_transfer[OF tiny_pipe_facts(1), of 2 "[1, 2, 3, 4, 5, 6]" 12]
  by (simp add: tiny_pipe_facts(3)) (simp add: tiny_pipe_def)

text \<open>
  Blocking calls: for every sequence of wake-ups in which the other processes leave the device
  well-formed, a read never leaves the buffer, returns \<open>EAGAIN\<close> only for a non-blocking call on an
  empty pipe, sleeps on only while the pipe is empty, and a successful read of at least one byte
  delivers at least one byte; a write behaves alike on a full pipe.
\<close>

theorem scull_pipe_blocking:
  assumes "pipe_wf dev" "wakes_wf ws" "0 < count" "buf \<noteq> []"
  shows "(case scull_p_read intr nb ws fault dev count of
      (dev', Ret ys) \<Rightarrow> pipe_wf dev' \<and> ys \<noteq> [] \<and> length ys \<le> count
    | (dev', Err e) \<Rightarrow> pipe_wf dev' \<and> e \<in> {EAGAIN, ERESTARTSYS, EFAULT} \<and>
        (e = EAGAIN \<longrightarrow> nb \<and> pipe_content dev = [] \<and> dev' = dev)
    | (dev', Asleep) \<Rightarrow> pipe_wf dev' \<and> \<not> nb \<and> pipe_content dev' = []
    | (dev', Oops) \<Rightarrow> False) \<and>
    (case scull_p_write intr nb ws uc dev buf of
      (dev', Ret k) \<Rightarrow> pipe_wf dev' \<and> 0 < k \<and> k \<le> length buf
    | (dev', Err e) \<Rightarrow> pipe_wf dev' \<and> e \<in> {EAGAIN, ERESTARTSYS, EFAULT} \<and>
        (e = EAGAIN \<longrightarrow> nb \<and> length (pipe_content dev) = pipe_cap dev \<and> dev' = dev)
    | (dev', Asleep) \<Rightarrow> pipe_wf dev' \<and> \<not> nb \<and> length (pipe_content dev') = pipe_cap dev'
    | (dev', Oops) \<Rightarrow> False)"
proof (rule conjI, goal_cases)
  case 1
  obtain d res where w: "scull_p_wait_data nb dev ws = (d, res)" by force
  obtain d' res' where a: "scull_p_take fault d count = (d', res')" by force
  show ?case
    using wait_data_effect[OF assms(1,2) w] take_effect[of d fault count d' res'] a w assms(1,3)
    by (cases intr; cases res; cases res') (auto simp: scull_p_read_def split: if_splits)
next
  case 2
  obtain d res where w: "scull_getwritespace nb dev ws = (d, res)" by force
  obtain d' res' where a: "scull_p_accept uc d buf = (d', res')" by force
  show ?case
    using writespace_effect[OF assms(1,2) w] accept_effect[of d uc buf d' res'] a w assms(1,4)
    by (cases intr; cases res; cases res') (auto simp: scull_p_write_def split: if_splits)
qed

theorem scull_pipe_blocking_witness:
  "fst (scull_p_read False True [] False tiny_pipe 3) = tiny_pipe \<or>
   pipe_wf (fst (scull_p_read False True [] False tiny_pipe 3))"
  using scull_pipe_blocking[OF tiny_pipe_facts(1), where ws = "[]" and count = 3 and buf = "[1]"
      and intr = False and nb = True and fault = False and uc = Copied]
  by (auto simp: wakes_wf_def split: prod.splits sysret.splits)

text \<open>
  Opening a pipe that is in use drops the bytes in it; if its size parameter has been raised
  since the buffer was allocated (\<open>SCULL_P_IOCTSIZE\<close> needs no privilege) the device believes in the
  new size and a long enough write runs past the end of the old buffer.
\<close>

theorem scull_p_open_overrun:
  assumes "pipe_wf dev" "p_buffersize dev + 1 < int n" "n \<le> 2147483647" "n \<le> length buf"
    and "scull_p_open False mem (fst (scull_ioctl env g SCULL_P_IOCTSIZE n)) rd wr dev = (dev', r)"
  shows "r = Ret 0 \<and> pipe_content dev' = [] \<and> p_buffer dev' = p_buffer dev \<and>
    snd (scull_p_write False nb ws uc dev' buf) = Oops"
proof -
  from assms(1) obtain b rd0 w0 where at: "pipe_at dev b rd0 w0" by (auto simp: pipe_wf_at)
  note A = at[unfolded pipe_at_def]
  have g: "scull_p_buffer (fst (scull_ioctl env g SCULL_P_IOCTSIZE n)) = int n"
    using assms(3) by (simp add: scull_ioctl_def scull_cmd_defs ioc_defs s32_nat)
  have d': "p_buffer dev' = Some b" "p_buffersize dev' = int n" "p_end dev' = int n" "p_rp dev' = 0"
      "p_wp dev' = 0" "r = Ret 0"
    using assms(5) A g by (auto simp: scull_p_open_def Let_def)
  have sp: "spacefree dev' = Some (int n - 1)" using d' by (simp add: spacefree_def)
  have big: "length b < n - 1" using assms(2) A by linarith
  have big': "int (length b) < int n - 1" using big by linarith
  have sz: "size_t (int n - 1) = n - 1" "size_t (int n) = n"
    using size_t_diff[of 1 n] size_t_small[of n] assms(3) big by simp_all
  have cnt: "min (min (length buf) (n - 1)) n = n - 1" using assms(4) by simp
  have "scull_getwritespace nb dev' ws = (dev', Ret ())"
    using sp big by (cases "n = Suc 0") (simp_all add: scull_getwritespace.simps)
  moreover have "scull_p_accept uc dev' buf = (dev', Oops)"
    unfolding scull_p_accept_def sp option.case Let_def d' using sz cnt big' big by simp
  moreover have "pipe_content dev' = []"
    using d' by (simp add: pipe_content_def ring_content_def region_def)
  ultimately show ?thesis using d' A by (simp add: scull_p_write_def)
qed

theorem scull_p_open_overrun_witness:
  "pipe_content (fst (scull_p_open False None
     (fst (scull_ioctl \<lparr>access_ok = True, capable = False, user_word = None, put_ok = True\<rparr>
       scull_default_params SCULL_P_IOCTSIZE 6)) True False tiny_pipe)) = []"
  using scull_p_open_overrun[OF tiny_pipe_facts(1) _ _ _ surjective_pairing,
      where n = 6 and buf = "[1, 2, 3, 4, 5, 6]"]
  by (simp add: tiny_pipe_def)

end
