(* ===== verification/Search_Tree.thy ===== *)
theory Search_Tree
  imports Ak_Prelude "HOL-Library.Monad_Syntax" "HOL-Library.Tree"
begin

text \<open>
  The search tree \<open>acm-lib/binary_search_tree/binary_search_tree.cpp\<close>: nodes with pointers to both children
  and to the parent, below a root node that holds no item.

  A pointer is an address or \<open>None\<close>, the memory a map from addresses to nodes.  \<open>None\<close> as a result is an access
  through a null pointer or to freed memory.  The address that \<open>new\<close> returns is an argument.
\<close>

type_synonym ptr = "nat option"

record ('k, 'v) BSTnode =
  m_key :: 'k
  m_value :: 'v
  m_left :: ptr
  m_right :: ptr
  m_parent :: ptr

type_synonym ('k, 'v) nodes = "nat \<Rightarrow> ('k, 'v) BSTnode option"

record ('k, 'v) BinarySearchTree =
  nodes :: "('k, 'v) nodes"
  m_root :: nat

definition load :: "('k, 'v) nodes \<Rightarrow> ptr \<Rightarrow> ('k, 'v) BSTnode option" where
  "load h p = (case p of None \<Rightarrow> None | Some a \<Rightarrow> h a)"

definition store :: "('k, 'v) nodes \<Rightarrow> ptr \<Rightarrow> (('k, 'v) BSTnode \<Rightarrow> ('k, 'v) BSTnode) \<Rightarrow> ('k, 'v) nodes option" where
  "store h p f = (case p of None \<Rightarrow> None | Some a \<Rightarrow> map_option (\<lambda>n. h(a \<mapsto> f n)) (h a))"

definition CreateNode :: "'k \<Rightarrow> 'v \<Rightarrow> ('k, 'v) BSTnode" where
  "CreateNode k v = \<lparr>m_key = k, m_value = v, m_left = None, m_right = None, m_parent = None\<rparr>"

definition bst_new :: "nat \<Rightarrow> 'k \<Rightarrow> 'v \<Rightarrow> ('k, 'v) BinarySearchTree" where
  "bst_new a k0 v0 = \<lparr>nodes = [a \<mapsto> CreateNode k0 v0], m_root = a\<rparr>"

text \<open>The descent that \<open>InsertItem\<close>, \<open>Find\<close> and \<open>DeleteItem\<close> share: where it ended, and the last node it visited.\<close>

partial_function (option) walk :: "('k::linorder, 'v) nodes \<Rightarrow> 'k \<Rightarrow> ptr \<Rightarrow> ptr \<Rightarrow> (ptr \<times> ptr) option" where
  "walk h k root parent =
     (if root = None then Some (None, parent)
      else do {
        n \<leftarrow> load h root;
        if m_key n = k then Some (root, root)
        else walk h k (if m_key n < k then m_right n else m_left n) root
      })"

definition InsertItem :: "nat \<Rightarrow> 'k::linorder \<Rightarrow> 'v \<Rightarrow> ('k, 'v) BinarySearchTree \<Rightarrow> ('k, 'v) BinarySearchTree option" where
  "InsertItem tmp k v s = (let h = (nodes s)(tmp \<mapsto> CreateNode k v); top = Some (m_root s) in do {
     rt \<leftarrow> load h top;
     h' \<leftarrow> (if m_left rt = None then do {
               h1 \<leftarrow> store h (Some tmp) (\<lambda>n. n\<lparr>m_parent := top\<rparr>);
               store h1 top (\<lambda>n. n\<lparr>m_left := Some tmp\<rparr>)
             } else do {
               (root, parent) \<leftarrow> walk h k (m_left rt) None;
               if root \<noteq> None then map_option (\<lambda>h1. h1(tmp := None)) (store h root (\<lambda>n. n\<lparr>m_value := v\<rparr>))
               else do {
                 p \<leftarrow> load h parent;
                 h1 \<leftarrow> store h parent (\<lambda>n. if m_key p < k then n\<lparr>m_right := Some tmp\<rparr> else n\<lparr>m_left := Some tmp\<rparr>);
                 store h1 (Some tmp) (\<lambda>n. n\<lparr>m_parent := parent\<rparr>)
               }
             });
     Some (s\<lparr>nodes := h'\<rparr>)
   })"

definition Find :: "'k::linorder \<Rightarrow> ('k, 'v) BinarySearchTree \<Rightarrow> ptr option" where
  "Find k s = do {
     rt \<leftarrow> load (nodes s) (Some (m_root s));
     (root, _) \<leftarrow> walk (nodes s) k (m_left rt) None;
     Some root
   }"

text \<open>The traversals, as the values in the order of the visits.\<close>

partial_function (option) InOrder :: "('k, 'v) nodes \<Rightarrow> ptr \<Rightarrow> 'v list option" where
  "InOrder h subtree =
     (if subtree = None then Some []
      else do {
        n \<leftarrow> load h subtree;
        xs \<leftarrow> InOrder h (m_left n);
        ys \<leftarrow> InOrder h (m_right n);
        Some (xs @ [m_value n] @ ys)
      })"

partial_function (option) PreOrder :: "('k, 'v) nodes \<Rightarrow> ptr \<Rightarrow> 'v list option" where
  "PreOrder h subtree =
     (if subtree = None then Some []
      else do {
        n \<leftarrow> load h subtree;
        xs \<leftarrow> PreOrder h (m_left n);
        ys \<leftarrow> PreOrder h (m_right n);
        Some ([m_value n] @ xs @ ys)
      })"

partial_function (option) PostOrder :: "('k, 'v) nodes \<Rightarrow> ptr \<Rightarrow> 'v list option" where
  "PostOrder h subtree =
     (if subtree = None then Some []
      else do {
        n \<leftarrow> load h subtree;
        xs \<leftarrow> PostOrder h (m_left n);
        ys \<leftarrow> PostOrder h (m_right n);
        Some (xs @ ys @ [m_value n])
      })"

partial_function (option) GetDepth :: "('k, 'v) nodes \<Rightarrow> ptr \<Rightarrow> nat option" where
  "GetDepth h subtree =
     (if subtree = None then Some 0
      else do {
        n \<leftarrow> load h subtree;
        left \<leftarrow> GetDepth h (m_left n);
        right \<leftarrow> GetDepth h (m_right n);
        Some ((if right < left then left else right) + 1)
      })"

text \<open>\<open>CountLeaf\<close> follows its argument without asking whether it is null.\<close>

partial_function (option) CountLeaf :: "('k, 'v) nodes \<Rightarrow> ptr \<Rightarrow> nat \<Rightarrow> nat option" where
  "CountLeaf h subtree outSum = do {
     n \<leftarrow> load h subtree;
     if m_left n = None \<and> m_right n = None then Some (outSum + 1)
     else do {
       s1 \<leftarrow> (if m_left n \<noteq> None then CountLeaf h (m_left n) outSum else Some outSum);
       if m_right n \<noteq> None then CountLeaf h (m_right n) s1 else Some s1
     }
   }"

partial_function (option) deleteSubTree :: "('k, 'v) nodes \<Rightarrow> ptr \<Rightarrow> ('k, 'v) nodes option" where
  "deleteSubTree h subtree =
     (case subtree of
        None \<Rightarrow> Some h
      | Some a \<Rightarrow> do {
          n \<leftarrow> h a;
          h1 \<leftarrow> deleteSubTree h (m_left n);
          n1 \<leftarrow> h1 a;
          h2 \<leftarrow> deleteSubTree h1 (m_right n1);
          _ \<leftarrow> h2 a;
          Some (h2(a := None))
        })"

text \<open>The addresses of the copies come from a list; an exhausted list is a failed \<open>new\<close>.\<close>

partial_function (option) copySubTree :: "nat list \<Rightarrow> ('k, 'v) nodes \<Rightarrow> ptr \<Rightarrow> (ptr \<times> ('k, 'v) nodes \<times> nat list) option" where
  "copySubTree as h subtree =
     (if subtree = None then Some (None, h, as)
      else do {
        n \<leftarrow> load h subtree;
        (left, h1, as1) \<leftarrow> (if m_left n = None then Some (None, h, as) else copySubTree as h (m_left n));
        (right, h2, as2) \<leftarrow> (if m_right n = None then Some (None, h1, as1) else copySubTree as1 h1 (m_right n));
        (case as2 of
           [] \<Rightarrow> None
         | a # as3 \<Rightarrow> do {
             let h3 = h2(a \<mapsto> (CreateNode (m_key n) (m_value n))\<lparr>m_left := left, m_right := right\<rparr>);
             h4 \<leftarrow> (if left \<noteq> None then store h3 left (\<lambda>n. n\<lparr>m_parent := Some a\<rparr>) else Some h3);
             h5 \<leftarrow> (if right \<noteq> None then store h4 right (\<lambda>n. n\<lparr>m_parent := Some a\<rparr>) else Some h4);
             Some (Some a, h5, as3)
           })
      })"

text \<open>\<open>DeleteItem\<close>: one pointer of \<open>parent\<close> that leads to \<open>root\<close> is turned to \<open>q\<close>.\<close>

definition relink :: "('k, 'v) nodes \<Rightarrow> ptr \<Rightarrow> ptr \<Rightarrow> ptr \<Rightarrow> ('k, 'v) nodes option" where
  "relink h parent root q = store h parent (\<lambda>p. if m_left p = root then p\<lparr>m_left := q\<rparr> else p\<lparr>m_right := q\<rparr>)"

definition set_parent :: "('k, 'v) nodes \<Rightarrow> ptr \<Rightarrow> ptr \<Rightarrow> ('k, 'v) nodes option" where
  "set_parent h p q = store h p (\<lambda>n. n\<lparr>m_parent := q\<rparr>)"

partial_function (option) rightmost :: "('k, 'v) nodes \<Rightarrow> ptr \<Rightarrow> ptr option" where
  "rightmost h pleft = do {
     n \<leftarrow> load h pleft;
     if m_right n = None then Some pleft else rightmost h (m_right n)
   }"

text \<open>The node has two children: its place goes to the largest node on its left.\<close>

definition delete_two :: "('k, 'v) nodes \<Rightarrow> nat \<Rightarrow> ptr \<Rightarrow> ('k, 'v) BSTnode \<Rightarrow> ('k, 'v) nodes option" where
  "delete_two h rt root n = (let left = m_left n; parent = m_parent n in do {
     pleft \<leftarrow> rightmost h left;
     pn \<leftarrow> load h pleft;
     let ppleft = m_parent pn;
     h1 \<leftarrow> store h pleft (\<lambda>x. x\<lparr>m_right := m_right n\<rparr>);
     h2 \<leftarrow> set_parent h1 (m_right n) pleft;
     if pleft = left then
       (if parent \<noteq> root then do {
          h3 \<leftarrow> relink h2 parent root left;
          set_parent h3 left parent
        } else do {
          h3 \<leftarrow> store h2 (Some rt) (\<lambda>x. x\<lparr>m_left := left\<rparr>);
          set_parent h3 left (Some rt)
        })
     else do {
       pn2 \<leftarrow> load h2 pleft;
       h3 \<leftarrow> store h2 ppleft (\<lambda>x. x\<lparr>m_right := m_left pn2\<rparr>);
       h4 \<leftarrow> (if m_left pn2 \<noteq> None then set_parent h3 (m_left pn2) ppleft else Some h3);
       h5 \<leftarrow> store h4 pleft (\<lambda>x. x\<lparr>m_left := left\<rparr>);
       h6 \<leftarrow> set_parent h5 left pleft;
       h7 \<leftarrow> (if parent \<noteq> root then do {
                 h' \<leftarrow> relink h6 parent root pleft;
                 set_parent h' pleft parent
               } else store h6 (Some rt) (\<lambda>x. x\<lparr>m_left := pleft\<rparr>));
       set_parent h7 pleft (Some rt)
     }
   })"

definition DeleteItem :: "'k::linorder \<Rightarrow> ('k, 'v) BinarySearchTree \<Rightarrow> ('k, 'v) BinarySearchTree option" where
  "DeleteItem k s = (let h = nodes s in do {
     rt \<leftarrow> load h (Some (m_root s));
     if m_left rt = None then Some s else do {
       (root, _) \<leftarrow> walk h k (m_left rt) None;
       case root of
         None \<Rightarrow> Some s
       | Some r \<Rightarrow> do {
           n \<leftarrow> h r;
           h' \<leftarrow> (if m_left n = None \<and> m_right n = None then relink h (m_parent n) root None
                  else if m_left n \<noteq> None \<and> m_right n \<noteq> None then delete_two h (m_root s) root n
                  else if m_left n \<noteq> None then do {
                    h1 \<leftarrow> relink h (m_parent n) root (m_left n);
                    set_parent h1 (m_left n) (m_parent n)
                  } else do {
                    h1 \<leftarrow> relink h (m_parent n) root (m_right n);
                    set_parent h1 (m_right n) (m_parent n)
                  });
           Some (s\<lparr>nodes := h'(r := None)\<rparr>)
         }
     }
   })"

declare walk.simps [code] InOrder.simps [code] PreOrder.simps [code] PostOrder.simps [code] GetDepth.simps [code]
  CountLeaf.simps [code] deleteSubTree.simps [code] copySubTree.simps [code] rightmost.simps [code]

end
