(* ===== verification/Search_Tree_Proofs.thy ===== *)
theory Search_Tree_Proofs
  imports Search_Tree
begin

text \<open>
  The nodes of \<open>Search_Tree\<close> hold a binary tree, each item at its address; on such trees the operations are those
  of a finite map.
\<close>

subsection \<open>The tree in the memory\<close>

type_synonym ('k, 'v) item_tree = "(nat \<times> 'k \<times> 'v) tree"

fun ptr_of :: "('k, 'v) item_tree \<Rightarrow> ptr" where
  "ptr_of Leaf = None"
| "ptr_of (Node l (a, k, v) r) = Some a"

fun tree_at :: "('k, 'v) nodes \<Rightarrow> ptr \<Rightarrow> ('k, 'v) item_tree \<Rightarrow> bool" where
  "tree_at h par Leaf = True"
| "tree_at h par (Node l (a, k, v) r) \<longleftrightarrow>
     h a = Some \<lparr>m_key = k, m_value = v, m_left = ptr_of l, m_right = ptr_of r, m_parent = par\<rparr> \<and>
     tree_at h (Some a) l \<and> tree_at h (Some a) r"

definition addrs :: "('k, 'v) item_tree \<Rightarrow> nat list" where
  "addrs t = map fst (inorder t)"

definition items :: "('k, 'v) item_tree \<Rightarrow> ('k \<times> 'v) list" where
  "items t = map snd (inorder t)"

definition ordered :: "('k::linorder, 'v) item_tree \<Rightarrow> bool" where
  "ordered t \<longleftrightarrow> sorted_wrt (<) (map fst (items t))"

lemma addrs_simps [simp]: "addrs Leaf = []" "addrs (Node l (a, k, v) r) = addrs l @ a # addrs r"
  by (simp_all add: addrs_def)

lemma items_simps [simp]: "items Leaf = []" "items (Node l (a, k, v) r) = items l @ (k, v) # items r"
  by (simp_all add: items_def)

lemma ptr_of_None [simp]: "ptr_of t = None \<longleftrightarrow> t = Leaf" "None = ptr_of t \<longleftrightarrow> t = Leaf"
  by (cases t; auto)+

lemma ptr_of_addrs: "ptr_of t = Some a \<Longrightarrow> a \<in> set (addrs t)"
  by (cases t) auto

lemma ordered_Node:
  "ordered (Node l (a, k, v) r) \<longleftrightarrow> ordered l \<and> ordered r \<and> (\<forall>x \<in> fst ` set (items l). x < k) \<and> (\<forall>x \<in> fst ` set (items r). k < x)"
  by (auto simp: ordered_def sorted_wrt_append) (metis less_trans fst_conv)

text \<open>Memory outside the tree does not matter.\<close>

lemma tree_at_frame:
  assumes "tree_at h par t" "\<And>a. a \<in> set (addrs t) \<Longrightarrow> h' a = h a"
  shows "tree_at h' par t"
  using assms by (induction h par t rule: tree_at.induct) auto

lemma tree_at_upd: "tree_at h par t \<Longrightarrow> a \<notin> set (addrs t) \<Longrightarrow> tree_at (h(a := n)) par t"
  by (erule tree_at_frame) auto

definition bst_ok :: "('k::linorder, 'v) BinarySearchTree \<Rightarrow> ('k, 'v) item_tree \<Rightarrow> bool" where
  "bst_ok s t \<longleftrightarrow> (\<exists>k0 v0. tree_at (nodes s) None (Node t (m_root s, k0, v0) Leaf)) \<and>
     distinct (m_root s # addrs t) \<and> ordered t"

subsection \<open>The descent\<close>

fun place :: "'k::linorder \<Rightarrow> ptr \<Rightarrow> ('k, 'v) item_tree \<Rightarrow> ptr \<times> ptr" where
  "place k p Leaf = (None, p)"
| "place k p (Node l (a, x, v) r) = (if x = k then (Some a, Some a) else if x < k then place k (Some a) r else place k (Some a) l)"

lemma walk_place: "tree_at h par t \<Longrightarrow> walk h k (ptr_of t) p = Some (place k p t)"
proof (induction k p t arbitrary: par rule: place.induct)
  case (1 k p)
  show ?case by (simp add: walk.simps)
next
  case (2 k p l a x v r)
  then show ?case by (subst walk.simps) (auto simp: load_def)
qed

lemma place_found:
  "ordered t \<Longrightarrow> (k, v) \<in> set (items t) \<Longrightarrow> \<exists>a. place k p t = (Some a, Some a) \<and> (a, k, v) \<in> set_tree t"
proof (induction k p t rule: place.induct)
  case (2 k p l a x w r)
  have o: "ordered l" "ordered r" "\<And>y. y \<in> fst ` set (items l) \<Longrightarrow> y < x" "\<And>y. y \<in> fst ` set (items r) \<Longrightarrow> x < y"
    using "2.prems"(1) unfolding ordered_Node by blast+
  from "2.prems"(2) consider "k = x" "v = w" | "(k, v) \<in> set (items l)" | "(k, v) \<in> set (items r)" by auto
  then show ?case
  proof cases
    case 1
    then show ?thesis by simp
  next
    case 2
    then have "k < x" using o(3) by force
    then show ?thesis using "2.IH"(2)[OF _ _ o(1) 2] by auto
  next
    case 3
    then have "x < k" using o(4) by force
    then show ?thesis using "2.IH"(1)[OF _ _ o(2) 3] by auto
  qed
qed simp

lemma place_missing: "ordered t \<Longrightarrow> k \<notin> fst ` set (items t) \<Longrightarrow> fst (place k p t) = None"
  by (induction k p t rule: place.induct) (auto simp: ordered_Node)

lemma place_last: "fst (place k p t) = None \<Longrightarrow> t \<noteq> Leaf \<Longrightarrow> \<exists>b \<in> set (addrs t). place k p t = (None, Some b)"
proof (induction k p t rule: place.induct)
  case (2 k p l a x w r)
  show ?case
  proof (cases "x < k")
    case True
    then show ?thesis using 2 by (cases "r = Leaf") auto
  next
    case False
    then show ?thesis using 2 by (cases "l = Leaf") (auto split: if_splits)
  qed
qed simp

lemma place_addr: "place k p t = (Some a, q) \<Longrightarrow> a \<in> set (addrs t)"
  by (induction k p t rule: place.induct) (auto split: if_splits)

subsection \<open>Insertion\<close>

fun insert_tree :: "nat \<Rightarrow> 'k::linorder \<Rightarrow> 'v \<Rightarrow> ('k, 'v) item_tree \<Rightarrow> ('k, 'v) item_tree" where
  "insert_tree tmp k v Leaf = Node Leaf (tmp, k, v) Leaf"
| "insert_tree tmp k v (Node l (a, x, w) r) =
     (if x = k then Node l (a, x, v) r
      else if x < k then Node l (a, x, w) (insert_tree tmp k v r)
      else Node (insert_tree tmp k v l) (a, x, w) r)"

lemma insert_tree_items: "ordered t \<Longrightarrow> set (items (insert_tree tmp k v t)) = insert (k, v) {x \<in> set (items t). fst x \<noteq> k}"
proof (induction tmp k v t rule: insert_tree.induct)
  case (2 tmp k v l a x w r)
  have o: "ordered l" "ordered r" "\<And>y. y \<in> set (items l) \<Longrightarrow> fst y < x" "\<And>y. y \<in> set (items r) \<Longrightarrow> x < fst y"
    using "2.prems" unfolding ordered_Node by blast+
  consider "x = k" | "x < k" "x \<noteq> k" | "k < x" "x \<noteq> k" "\<not> x < k" by fastforce
  then show ?case
  proof cases
    case 1
    then show ?thesis using o by force
  next
    case 2
    then have "\<forall>y \<in> set (items l). fst y \<noteq> k" using o(3) by fastforce
    then show ?thesis using 2 "2.IH"(1)[OF _ _ o(2)] by auto
  next
    case 3
    then have "\<forall>y \<in> set (items r). fst y \<noteq> k" using o(4) by fastforce
    then show ?thesis using 3 "2.IH"(2)[OF _ _ o(1)] by auto
  qed
qed simp

lemma insert_tree_ordered: "ordered t \<Longrightarrow> ordered (insert_tree tmp k v t)"
proof (induction tmp k v t rule: insert_tree.induct)
  case (2 tmp k v l a x w r)
  have o: "ordered l" "ordered r" "\<And>y. y \<in> set (items l) \<Longrightarrow> fst y < x" "\<And>y. y \<in> set (items r) \<Longrightarrow> x < fst y"
    using "2.prems" unfolding ordered_Node by blast+
  consider "x = k" | "x < k" "x \<noteq> k" | "k < x" "x \<noteq> k" "\<not> x < k" by fastforce
  then show ?case
  proof cases
    case 1
    then show ?thesis using "2.prems" by (simp add: ordered_Node)
  next
    case 2
    then show ?thesis using "2.IH"(1)[OF _ _ o(2)] o by (auto simp: ordered_Node insert_tree_items)
  next
    case 3
    then show ?thesis using "2.IH"(2)[OF _ _ o(1)] o by (auto simp: ordered_Node insert_tree_items)
  qed
qed (simp add: ordered_def)

lemma insert_tree_addrs:
  "fst (place k p t) = None \<Longrightarrow> set (addrs (insert_tree tmp k v t)) = insert tmp (set (addrs t)) \<and>
     (distinct (addrs t) \<longrightarrow> tmp \<notin> set (addrs t) \<longrightarrow> distinct (addrs (insert_tree tmp k v t)))"
  "fst (place k p t) \<noteq> None \<Longrightarrow> addrs (insert_tree tmp k v t) = addrs t"
  by (induction k p t rule: place.induct) auto

lemma ptr_of_insert: "t \<noteq> Leaf \<Longrightarrow> ptr_of (insert_tree tmp k v t) = ptr_of t"
  by (cases t) auto

lemma tree_at_set_value:
  assumes "tree_at h par t" "distinct (addrs t)" "place k p t = (Some a, q)"
  shows "\<exists>n. h a = Some n \<and> tree_at (h(a \<mapsto> n\<lparr>m_value := v\<rparr>)) par (insert_tree tmp k v t)"
  using assms
proof (induction k p t arbitrary: par rule: place.induct)
  case (2 k p l b x w r)
  show ?case
  proof (cases "x = k")
    case True
    then have "b = a" "b \<notin> set (addrs l)" "b \<notin> set (addrs r)" using "2.prems" by simp_all
    let ?n = "\<lparr>m_key = x, m_value = w, m_left = ptr_of l, m_right = ptr_of r, m_parent = par\<rparr>"
    have n: "h a = Some ?n" using "2.prems"(1) \<open>b = a\<close> by simp
    have "tree_at (h(a \<mapsto> ?n\<lparr>m_value := v\<rparr>)) (Some a) l" "tree_at (h(a \<mapsto> ?n\<lparr>m_value := v\<rparr>)) (Some a) r"
      using "2.prems"(1) \<open>b = a\<close> \<open>b \<notin> set (addrs l)\<close> \<open>b \<notin> set (addrs r)\<close> by (auto intro: tree_at_upd)
    then have "tree_at (h(a \<mapsto> ?n\<lparr>m_value := v\<rparr>)) par (insert_tree tmp k v (Node l (b, x, w) r))"
      using True \<open>b = a\<close> by simp
    then show ?thesis using n by blast
  next
    case False
    have t: "tree_at h (Some b) l" "tree_at h (Some b) r" "distinct (addrs l)" "distinct (addrs r)" using "2.prems" by simp_all
    show ?thesis
    proof (cases "x < k")
      case True
      then have pl: "place k (Some b) r = (Some a, q)" using "2.prems"(3) False by simp
      have a: "a \<in> set (addrs r)" using pl t(2)
        by (metis place_addr)
      from "2.IH"(1)[OF False True t(2,4) pl] obtain n where n: "h a = Some n"
        "tree_at (h(a \<mapsto> n\<lparr>m_value := v\<rparr>)) (Some b) (insert_tree tmp k v r)" by blast
      have "a \<noteq> b" "a \<notin> set (addrs l)" "r \<noteq> Leaf" using a "2.prems"(2) by auto
      then have "tree_at (h(a \<mapsto> n\<lparr>m_value := v\<rparr>)) par (insert_tree tmp k v (Node l (b, x, w) r))"
        using "2.prems"(1) n(2) True False tree_at_upd[OF t(1)] by (simp add: ptr_of_insert)
      then show ?thesis using n(1) by blast
    next
      case ge: False
      then have pl: "place k (Some b) l = (Some a, q)" using "2.prems"(3) False by simp
      have a: "a \<in> set (addrs l)" using pl by (metis place_addr)
      from "2.IH"(2)[OF False ge t(1,3) pl] obtain n where n: "h a = Some n"
        "tree_at (h(a \<mapsto> n\<lparr>m_value := v\<rparr>)) (Some b) (insert_tree tmp k v l)" by blast
      have "a \<noteq> b" "a \<notin> set (addrs r)" "l \<noteq> Leaf" using a "2.prems"(2) by auto
      then have "tree_at (h(a \<mapsto> n\<lparr>m_value := v\<rparr>)) par (insert_tree tmp k v (Node l (b, x, w) r))"
        using "2.prems"(1) n(2) ge False tree_at_upd[OF t(2)] by (simp add: ptr_of_insert)
      then show ?thesis using n(1) by blast
    qed
  qed
qed simp

lemma tree_at_link:
  assumes "tree_at h par t" "distinct (addrs t)" "place k p t = (None, Some b)" "t \<noteq> Leaf" "tmp \<notin> set (addrs t)"
  shows "\<exists>n. h b = Some n \<and> tree_at (h(b \<mapsto> (if m_key n < k then n\<lparr>m_right := Some tmp\<rparr> else n\<lparr>m_left := Some tmp\<rparr>),
      tmp \<mapsto> \<lparr>m_key = k, m_value = v, m_left = None, m_right = None, m_parent = Some b\<rparr>)) par (insert_tree tmp k v t)"
  using assms
proof (induction k p t arbitrary: par rule: place.induct)
  case (2 k p l a x w r)
  have t: "tree_at h (Some a) l" "tree_at h (Some a) r" "distinct (addrs l)" "distinct (addrs r)"
    "tmp \<notin> set (addrs l)" "tmp \<notin> set (addrs r)" "tmp \<noteq> a" "a \<notin> set (addrs l)" "a \<notin> set (addrs r)" using "2.prems" by simp_all
  have ne: "x \<noteq> k" using "2.prems"(3) by auto
  let ?n = "\<lparr>m_key = x, m_value = w, m_left = ptr_of l, m_right = ptr_of r, m_parent = par\<rparr>"
  have n: "h a = Some ?n" using "2.prems"(1) by simp
  let ?new = "\<lambda>b. \<lparr>m_key = k, m_value = v, m_left = None, m_right = None, m_parent = Some b\<rparr>"
  show ?case
  proof (cases "x < k")
    case True
    then have pl: "place k (Some a) r = (None, Some b)" using "2.prems"(3) ne by simp
    show ?thesis
    proof (cases "r = Leaf")
      case leaf: True
      then have "b = a" using pl by simp
      have "tree_at (h(a \<mapsto> ?n\<lparr>m_right := Some tmp\<rparr>, tmp \<mapsto> ?new a)) (Some a) l"
        using t by (intro tree_at_upd)
      then have "tree_at (h(a \<mapsto> ?n\<lparr>m_right := Some tmp\<rparr>, tmp \<mapsto> ?new a)) par (insert_tree tmp k v (Node l (a, x, w) r))"
        using True ne leaf t(7) by simp
      moreover have "(if m_key ?n < k then ?n\<lparr>m_right := Some tmp\<rparr> else ?n\<lparr>m_left := Some tmp\<rparr>) = ?n\<lparr>m_right := Some tmp\<rparr>"
        using True by simp
      ultimately show ?thesis using n unfolding \<open>b = a\<close> by (intro exI[of _ ?n]) (simp only: simp_thms)
    next
      case node: False
      from "2.IH"(1)[OF ne True t(2,4) pl node t(6)] obtain m where m: "h b = Some m" "tree_at (h(b \<mapsto>
          (if m_key m < k then m\<lparr>m_right := Some tmp\<rparr> else m\<lparr>m_left := Some tmp\<rparr>), tmp \<mapsto> ?new b)) (Some a) (insert_tree tmp k v r)"
        (is "tree_at ?h' _ _") by blast
      have b: "b \<in> set (addrs r)" using place_last[of k "Some a" r] pl node by auto
      then have "b \<noteq> a" "b \<notin> set (addrs l)" using "2.prems"(2) by auto
      then have "tree_at ?h' (Some a) l" using t by (intro tree_at_upd)
      then have "tree_at ?h' par (insert_tree tmp k v (Node l (a, x, w) r))"
        using True ne n m(2) t(7) \<open>b \<noteq> a\<close> node by (simp add: ptr_of_insert)
      then show ?thesis using m(1) by blast
    qed
  next
    case ge: False
    then have pl: "place k (Some a) l = (None, Some b)" using "2.prems"(3) ne by simp
    show ?thesis
    proof (cases "l = Leaf")
      case leaf: True
      then have "b = a" using pl by simp
      have "tree_at (h(a \<mapsto> ?n\<lparr>m_left := Some tmp\<rparr>, tmp \<mapsto> ?new a)) (Some a) r"
        using t by (intro tree_at_upd)
      then have "tree_at (h(a \<mapsto> ?n\<lparr>m_left := Some tmp\<rparr>, tmp \<mapsto> ?new a)) par (insert_tree tmp k v (Node l (a, x, w) r))"
        using ge ne leaf t(7) by simp
      moreover have "(if m_key ?n < k then ?n\<lparr>m_right := Some tmp\<rparr> else ?n\<lparr>m_left := Some tmp\<rparr>) = ?n\<lparr>m_left := Some tmp\<rparr>"
        using ge by simp
      ultimately show ?thesis using n unfolding \<open>b = a\<close> by (intro exI[of _ ?n]) (simp only: simp_thms)
    next
      case node: False
      from "2.IH"(2)[OF ne ge t(1,3) pl node t(5)] obtain m where m: "h b = Some m" "tree_at (h(b \<mapsto>
          (if m_key m < k then m\<lparr>m_right := Some tmp\<rparr> else m\<lparr>m_left := Some tmp\<rparr>), tmp \<mapsto> ?new b)) (Some a) (insert_tree tmp k v l)"
        (is "tree_at ?h' _ _") by blast
      have b: "b \<in> set (addrs l)" using place_last[of k "Some a" l] pl node by auto
      then have "b \<noteq> a" "b \<notin> set (addrs r)" using "2.prems"(2) by auto
      then have "tree_at ?h' (Some a) r" using t by (intro tree_at_upd)
      then have "tree_at ?h' par (insert_tree tmp k v (Node l (a, x, w) r))"
        using ge ne n m(2) t(7) \<open>b \<noteq> a\<close> node by (simp add: ptr_of_insert)
      then show ?thesis using m(1) by blast
    qed
  qed
qed simp

lemma tree_at_live: "tree_at h par t \<Longrightarrow> a \<in> set (addrs t) \<Longrightarrow> h a \<noteq> None"
  by (induction h par t rule: tree_at.induct) auto

lemma tree_at_root:
  "tree_at h None (Node t (m, k0, v0) Leaf) \<longleftrightarrow>
     h m = Some \<lparr>m_key = k0, m_value = v0, m_left = ptr_of t, m_right = None, m_parent = None\<rparr> \<and> tree_at h (Some m) t"
  by simp

lemma bst_okI:
  assumes "h m = Some \<lparr>m_key = k0, m_value = v0, m_left = ptr_of t, m_right = None, m_parent = None\<rparr>" "tree_at h (Some m) t"
    "distinct (m # addrs t)" "ordered t"
  shows "bst_ok \<lparr>nodes = h, m_root = m\<rparr> t"
  unfolding bst_ok_def tree_at_root using assms by auto

lemma bst_okD:
  assumes "bst_ok s t"
  obtains k0 v0 where "nodes s (m_root s) = Some \<lparr>m_key = k0, m_value = v0, m_left = ptr_of t, m_right = None, m_parent = None\<rparr>"
    "tree_at (nodes s) (Some (m_root s)) t" "m_root s \<notin> set (addrs t)" "distinct (addrs t)" "ordered t"
    "s = \<lparr>nodes = nodes s, m_root = m_root s\<rparr>"
proof -
  from assms obtain k0 v0 where "nodes s (m_root s) = Some \<lparr>m_key = k0, m_value = v0, m_left = ptr_of t, m_right = None, m_parent = None\<rparr>"
    "tree_at (nodes s) (Some (m_root s)) t" unfolding bst_ok_def tree_at_root by blast
  then show ?thesis using assms by (intro that) (auto simp: bst_ok_def)
qed

lemma with_nodes: "s\<lparr>nodes := h\<rparr> = \<lparr>nodes = h, m_root = m_root s\<rparr>" for s :: "('k, 'v) BinarySearchTree"
  by (cases s) simp

lemma InsertItem_ok:
  assumes ok: "bst_ok s t" and tmp: "nodes s tmp = None"
  shows "\<exists>s'. InsertItem tmp k v s = Some s' \<and> bst_ok s' (insert_tree tmp k v t) \<and> m_root s' = m_root s"
proof -
  from ok obtain k0 v0 where r: "nodes s (m_root s) = Some \<lparr>m_key = k0, m_value = v0, m_left = ptr_of t, m_right = None, m_parent = None\<rparr>"
    "tree_at (nodes s) (Some (m_root s)) t" "m_root s \<notin> set (addrs t)" "distinct (addrs t)" "ordered t"
    "s = \<lparr>nodes = nodes s, m_root = m_root s\<rparr>" by (rule bst_okD)
  let ?m = "m_root s" and ?h = "(nodes s)(tmp \<mapsto> CreateNode k v)"
  have new: "tmp \<noteq> ?m" "tmp \<notin> set (addrs t)" using tmp r(1) tree_at_live[OF r(2), of tmp] by auto
  have h: "tree_at ?h (Some ?m) t" using r(2) new(2) by (rule tree_at_upd)
  have rt: "load ?h (Some ?m) = Some \<lparr>m_key = k0, m_value = v0, m_left = ptr_of t, m_right = None, m_parent = None\<rparr>"
    using r(1) new(1) by (simp add: load_def)
  have w: "walk ?h k (ptr_of t) None = Some (place k None t)" by (rule walk_place[OF h])
  have o: "ordered (insert_tree tmp k v t)" by (rule insert_tree_ordered[OF r(5)])
  consider "t = Leaf" | a where "t \<noteq> Leaf" "place k None t = (Some a, Some a)" | b where "t \<noteq> Leaf" "place k None t = (None, Some b)"
  proof (cases "fst (place k None t) = None \<or> t = Leaf")
    case True
    then show ?thesis using place_last[of k None t] that(1,3) by blast
  next
    case False
    then have "k \<in> fst ` set (items t)" using place_missing[OF r(5), of k None] by blast
    then obtain v' where "(k, v') \<in> set (items t)" by auto
    then show ?thesis using place_found[OF r(5)] that(2) False by blast
  qed
  then show ?thesis
  proof cases
    case 1
    let ?h' = "?h(tmp \<mapsto> (CreateNode k v)\<lparr>m_parent := Some ?m\<rparr>,
        ?m \<mapsto> \<lparr>m_key = k0, m_value = v0, m_left = Some tmp, m_right = None, m_parent = None\<rparr>)"
    have "InsertItem tmp k v s = Some \<lparr>nodes = ?h', m_root = ?m\<rparr>"
      using r(1) new(1) by (subst r(6)) (simp add: InsertItem_def rt 1 store_def Let_def load_def)
    moreover have "bst_ok \<lparr>nodes = ?h', m_root = ?m\<rparr> (insert_tree tmp k v t)"
      using 1 new(1) by (intro bst_okI[where ?k0.0 = k0 and ?v0.0 = v0]) (auto simp: CreateNode_def ordered_def)
    ultimately show ?thesis by simp
  next
    case (2 a)
    have a: "a \<in> set (addrs t)" "a \<noteq> tmp" "a \<noteq> ?m" using place_addr[OF 2(2)] new r(3) by auto
    from tree_at_set_value[OF h r(4) 2(2)] obtain n where n: "?h a = Some n"
      "tree_at (?h(a \<mapsto> n\<lparr>m_value := v\<rparr>)) (Some ?m) (insert_tree tmp k v t)" by blast
    have ad: "addrs (insert_tree tmp k v t) = addrs t" by (rule insert_tree_addrs(2)[of k None]) (simp add: 2)
    let ?h' = "?h(a \<mapsto> n\<lparr>m_value := v\<rparr>, tmp := None)"
    have "InsertItem tmp k v s = Some \<lparr>nodes = ?h', m_root = ?m\<rparr>"
      using n(1) by (subst r(6)) (simp add: InsertItem_def rt 2 w store_def Let_def del: fun_upd_apply)
    moreover have "bst_ok \<lparr>nodes = ?h', m_root = ?m\<rparr> (insert_tree tmp k v t)"
      using r(1,3,4) o a(3) new 2(1) by (intro bst_okI[where ?k0.0 = k0 and ?v0.0 = v0] tree_at_upd[OF n(2)]) (auto simp: ad ptr_of_insert)
    ultimately show ?thesis by simp
  next
    case (3 b)
    have b: "b \<in> set (addrs t)" "b \<noteq> tmp" "b \<noteq> ?m" using place_last[of k None t] 3 new r(3) by auto
    from tree_at_link[OF h r(4) 3(2,1) new(2)] obtain n where n: "?h b = Some n"
      "tree_at (?h(b \<mapsto> (if m_key n < k then n\<lparr>m_right := Some tmp\<rparr> else n\<lparr>m_left := Some tmp\<rparr>),
        tmp \<mapsto> \<lparr>m_key = k, m_value = v, m_left = None, m_right = None, m_parent = Some b\<rparr>)) (Some ?m) (insert_tree tmp k v t)"
      (is "tree_at ?h' _ _") by blast
    have ad: "set (addrs (insert_tree tmp k v t)) = insert tmp (set (addrs t))" "distinct (addrs (insert_tree tmp k v t))"
      using insert_tree_addrs(1)[of k None t tmp v] 3 r(4) new(2) by auto
    have "InsertItem tmp k v s = Some \<lparr>nodes = ?h', m_root = ?m\<rparr>"
    proof -
      have ld: "load ?h (Some b) = Some n" using n(1) by (simp add: load_def del: fun_upd_apply)
      have st: "store ?h (Some b) f = Some (?h(b \<mapsto> f n))" for f using n(1) by (simp add: store_def del: fun_upd_apply)
      have st2: "store (?h(b \<mapsto> x)) (Some tmp) (\<lambda>n. n\<lparr>m_parent := Some b\<rparr>) =
          Some (?h(b \<mapsto> x, tmp \<mapsto> \<lparr>m_key = k, m_value = v, m_left = None, m_right = None, m_parent = Some b\<rparr>))" for x
        using b(2) by (simp add: store_def CreateNode_def)
      show ?thesis
        by (simp add: InsertItem_def rt w 3 Let_def ld st st2 with_nodes del: fun_upd_apply)
    qed
    moreover have "bst_ok \<lparr>nodes = ?h', m_root = ?m\<rparr> (insert_tree tmp k v t)"
      using r(1,3) o b(3) new ad 3(1) by (intro bst_okI[where ?k0.0 = k0 and ?v0.0 = v0] n(2)) (auto simp: ptr_of_insert)
    ultimately show ?thesis by simp
  qed
qed

end
