(* ===== verification/Search_Tree_Walks.thy ===== *)
theory Search_Tree_Walks
  imports Search_Tree_Proofs
begin

text \<open>The operations of the search tree that only follow pointers, and those that free or copy a whole subtree.\<close>

lemma tree_at_node:
  "tree_at h par t \<Longrightarrow> (a, k, v) \<in> set_tree t \<Longrightarrow> \<exists>n. h a = Some n \<and> m_key n = k \<and> m_value n = v"
  by (induction h par t rule: tree_at.induct) auto

lemma Find_ok:
  assumes ok: "bst_ok s t"
  shows "(k, v) \<in> set (items t) \<Longrightarrow> \<exists>a n. Find k s = Some (Some a) \<and> nodes s a = Some n \<and> m_key n = k \<and> m_value n = v"
    "k \<notin> fst ` set (items t) \<Longrightarrow> Find k s = Some None"
proof -
  from ok obtain k0 v0 where r: "nodes s (m_root s) = Some \<lparr>m_key = k0, m_value = v0, m_left = ptr_of t, m_right = None, m_parent = None\<rparr>"
    "tree_at (nodes s) (Some (m_root s)) t" "ordered t" by (rule bst_okD)
  have f: "Find k s = Some (fst (place k None t))"
    using r(1) walk_place[OF r(2), of k None] by (simp add: Find_def load_def case_prod_beta)
  show "k \<notin> fst ` set (items t) \<Longrightarrow> Find k s = Some None" using place_missing[OF r(3)] by (simp add: f)
  show "(k, v) \<in> set (items t) \<Longrightarrow> \<exists>a n. Find k s = Some (Some a) \<and> nodes s a = Some n \<and> m_key n = k \<and> m_value n = v"
    using place_found[OF r(3), of k v None] tree_at_node[OF r(2)] by (auto simp: f)
qed

subsection \<open>Traversals\<close>

lemma load_root: "tree_at h par (Node l (a, k, v) r) \<Longrightarrow>
    load h (Some a) = Some \<lparr>m_key = k, m_value = v, m_left = ptr_of l, m_right = ptr_of r, m_parent = par\<rparr>"
  by (simp add: load_def)

lemma InOrder_tree: "tree_at h par t \<Longrightarrow> InOrder h (ptr_of t) = Some (map snd (items t))"
proof (induction h par t rule: tree_at.induct)
  case (2 h par l a k v r)
  then show ?case by (subst InOrder.simps) (simp add: load_def)
qed (simp add: InOrder.simps)

lemma PreOrder_tree: "tree_at h par t \<Longrightarrow> PreOrder h (ptr_of t) = Some (map (snd \<circ> snd) (preorder t))"
proof (induction h par t rule: tree_at.induct)
  case (2 h par l a k v r)
  then show ?case by (subst PreOrder.simps) (simp add: load_def)
qed (simp add: PreOrder.simps)

lemma PostOrder_tree: "tree_at h par t \<Longrightarrow> PostOrder h (ptr_of t) = Some (map (snd \<circ> snd) (postorder t))"
proof (induction h par t rule: tree_at.induct)
  case (2 h par l a k v r)
  then show ?case by (subst PostOrder.simps) (simp add: load_def)
qed (simp add: PostOrder.simps)

lemma GetDepth_tree: "tree_at h par t \<Longrightarrow> GetDepth h (ptr_of t) = Some (height t)"
proof (induction h par t rule: tree_at.induct)
  case (2 h par l a k v r)
  then show ?case by (subst GetDepth.simps) (simp add: load_def max_def)
qed (simp add: GetDepth.simps)

fun leaves :: "'a tree \<Rightarrow> nat" where
  "leaves Leaf = 0"
| "leaves (Node l x r) = (if l = Leaf \<and> r = Leaf then 1 else leaves l + leaves r)"

lemma CountLeaf_tree:
  "tree_at h par t \<Longrightarrow> CountLeaf h (ptr_of t) n = (if t = Leaf then None else Some (n + leaves t))"
proof (induction h par t arbitrary: n rule: tree_at.induct)
  case (1 h par)
  show ?case by (subst CountLeaf.simps) (simp add: load_def)
next
  case (2 h par l a k v r)
  have n: "load h (Some a) = Some \<lparr>m_key = k, m_value = v, m_left = ptr_of l, m_right = ptr_of r, m_parent = par\<rparr>"
    using "2.prems" by (rule load_root)
  have "CountLeaf h (ptr_of l) m = (if l = Leaf then None else Some (m + leaves l))"
    "CountLeaf h (ptr_of r) m = (if r = Leaf then None else Some (m + leaves r))" for m using 2 by simp_all
  then show ?case by (subst CountLeaf.simps) (simp add: n)
qed

lemma deleteSubTree_tree:
  "tree_at h par t \<Longrightarrow> distinct (addrs t) \<Longrightarrow>
    deleteSubTree h (ptr_of t) = Some (\<lambda>a. if a \<in> set (addrs t) then None else h a)"
proof (induction t arbitrary: h par)
  case Leaf
  show ?case by (subst deleteSubTree.simps) simp
next
  case (Node l x r)
  obtain a k v where x: "x = (a, k, v)" by (cases x)
  let ?h1 = "\<lambda>b. if b \<in> set (addrs l) then None else h b"
  have t: "tree_at h (Some a) l" "tree_at h (Some a) r" "distinct (addrs l)" "distinct (addrs r)"
    and n: "h a = Some \<lparr>m_key = k, m_value = v, m_left = ptr_of l, m_right = ptr_of r, m_parent = par\<rparr>"
    and a: "a \<notin> set (addrs l)" "a \<notin> set (addrs r)" "set (addrs l) \<inter> set (addrs r) = {}"
    using Node.prems by (auto simp: x)
  have "tree_at ?h1 (Some a) r" by (rule tree_at_frame[OF t(2)]) (use a(3) in auto)
  note l = Node.IH(1)[OF t(1,3)] and r = Node.IH(2)[OF this t(4)]
  show ?case unfolding x by (subst deleteSubTree.simps) (use n l r a in \<open>simp add: fun_eq_iff\<close>)
qed

subsection \<open>Copies\<close>

lemma tree_at_new_parent:
  assumes "tree_at h par t" "distinct (addrs t)" "ptr_of t = Some b"
  shows "\<exists>n. h b = Some n \<and> tree_at (h(b \<mapsto> n\<lparr>m_parent := q\<rparr>)) q t"
proof -
  from assms(3) obtain l k v r where t: "t = Node l (b, k, v) r" by (cases t) auto
  let ?n = "\<lparr>m_key = k, m_value = v, m_left = ptr_of l, m_right = ptr_of r, m_parent = par\<rparr>"
  have n: "h b = Some ?n" "tree_at h (Some b) l" "tree_at h (Some b) r" "b \<notin> set (addrs l)" "b \<notin> set (addrs r)"
    using assms(1,2) by (simp_all add: t)
  have "tree_at (h(b \<mapsto> ?n\<lparr>m_parent := q\<rparr>)) q t" using n by (simp add: t tree_at_upd)
  then show ?thesis using n(1) by blast
qed

lemma copySubTree_None: "copySubTree as h None = Some (None, h, as)"
  by (subst copySubTree.simps) simp

lemma copy_if: "(if p = None then Some (None, h, as) else copySubTree as h p) = copySubTree as h p"
  by (simp add: copySubTree_None)

lemma adopt:
  assumes "tree_at h None t" "distinct (addrs t)"
  shows "\<exists>h'. (if ptr_of t \<noteq> None then store h (ptr_of t) (\<lambda>n. n\<lparr>m_parent := Some a\<rparr>) else Some h) = Some h' \<and>
    tree_at h' (Some a) t \<and> (\<forall>b. b \<notin> set (addrs t) \<longrightarrow> h' b = h b)"
proof (cases "ptr_of t")
  case None
  then show ?thesis by simp
next
  case (Some b)
  from tree_at_new_parent[OF assms Some] obtain n where n: "h b = Some n" "tree_at (h(b \<mapsto> n\<lparr>m_parent := Some a\<rparr>)) (Some a) t" by blast
  have "b \<in> set (addrs t)" by (rule ptr_of_addrs[OF Some])
  then have "\<forall>c. c \<notin> set (addrs t) \<longrightarrow> (h(b \<mapsto> n\<lparr>m_parent := Some a\<rparr>)) c = h c" by auto
  moreover have "(if ptr_of t \<noteq> None then store h (ptr_of t) (\<lambda>n. n\<lparr>m_parent := Some a\<rparr>) else Some h) =
      Some (h(b \<mapsto> n\<lparr>m_parent := Some a\<rparr>))" using n(1) Some by (simp add: store_def)
  ultimately show ?thesis using n(2) by blast
qed

lemma copySubTree_tree:
  assumes "tree_at h par t" "distinct as" "length as = size t" "\<forall>a \<in> set as. h a = None"
  shows "\<exists>t' h'. copySubTree (as @ rest) h (ptr_of t) = Some (ptr_of t', h', rest) \<and> tree_at h' None t' \<and>
    set (addrs t') = set as \<and> distinct (addrs t') \<and> items t' = items t \<and> (\<forall>a. a \<notin> set as \<longrightarrow> h' a = h a)"
  using assms
proof (induction t arbitrary: h par as rest)
  case Leaf
  then show ?case by (intro exI[of _ Leaf] exI[of _ h]) (simp add: copySubTree_None)
next
  case (Node l x r)
  obtain a k v where x: "x = (a, k, v)" by (cases x)
  have t: "tree_at h (Some a) l" "tree_at h (Some a) r"
    and n: "load h (Some a) = Some \<lparr>m_key = k, m_value = v, m_left = ptr_of l, m_right = ptr_of r, m_parent = par\<rparr>"
    using Node.prems(1) by (simp_all add: x load_def)
  obtain as1 as2 c where as: "as = as1 @ as2 @ [c]" "length as1 = size l" "length as2 = size r"
  proof (rule that[of "take (size l) as" "take (size r) (drop (size l) as)" "last as"])
    have "as \<noteq> []" using Node.prems(3) by auto
    then have "as = butlast as @ [last as]" by simp
    moreover have "butlast as = take (size l) as @ take (size r) (drop (size l) as)"
      using Node.prems(3) by (simp add: butlast_conv_take flip: take_add)
    ultimately show "as = take (size l) as @ take (size r) (drop (size l) as) @ [last as]" by (metis append_assoc)
  qed (use Node.prems(3) in auto)
  have d: "distinct as1" "distinct as2" "set as1 \<inter> set as2 = {}" "c \<notin> set as1" "c \<notin> set as2"
    and fr: "\<forall>a \<in> set as1. h a = None" "\<forall>a \<in> set as2. h a = None"
    using Node.prems(2,4) by (auto simp: as)
  obtain t1 h1 where 1: "copySubTree (as1 @ as2 @ c # rest) h (ptr_of l) = Some (ptr_of t1, h1, as2 @ c # rest)" "tree_at h1 None t1"
    "set (addrs t1) = set as1" "distinct (addrs t1)" "items t1 = items l" "\<And>a. a \<notin> set as1 \<Longrightarrow> h1 a = h a"
    using Node.IH(1)[OF t(1) d(1) as(2) fr(1)] by blast
  have r1: "tree_at h1 (Some a) r"
    by (rule tree_at_frame[OF t(2)], rule 1(6)) (use tree_at_live[OF t(2)] fr(1) in blast)
  have f1: "\<forall>a \<in> set as2. h1 a = None" using d(3) 1(6) fr(2) by (metis disjoint_iff)
  obtain t2 h2 where 2: "copySubTree (as2 @ c # rest) h1 (ptr_of r) = Some (ptr_of t2, h2, c # rest)" "tree_at h2 None t2"
    "set (addrs t2) = set as2" "distinct (addrs t2)" "items t2 = items r" "\<And>a. a \<notin> set as2 \<Longrightarrow> h2 a = h1 a"
    using Node.IH(2)[OF r1 d(2) as(3) f1] by blast
  let ?new = "(CreateNode k v)\<lparr>m_left := ptr_of t1, m_right := ptr_of t2\<rparr>"
  let ?h3 = "h2(c \<mapsto> ?new)"
  have "tree_at h2 None t1" by (rule tree_at_frame[OF 1(2)], rule 2(6)) (use 1(3) d(3) in blast)
  then have t1: "tree_at ?h3 None t1" by (rule tree_at_upd) (simp add: 1(3) d(4))
  obtain h4 where 4: "(if ptr_of t1 \<noteq> None then store ?h3 (ptr_of t1) (\<lambda>n. n\<lparr>m_parent := Some c\<rparr>) else Some ?h3) = Some h4"
    "tree_at h4 (Some c) t1" "\<And>b. b \<notin> set (addrs t1) \<Longrightarrow> h4 b = ?h3 b" using adopt[OF t1 1(4)] by blast
  have "tree_at ?h3 None t2" by (rule tree_at_upd[OF 2(2)]) (simp add: 2(3) d(5))
  then have t2: "tree_at h4 None t2" by (rule tree_at_frame, intro 4(3)) (use 1(3) 2(3) d(3) in blast)
  obtain h5 where 5: "(if ptr_of t2 \<noteq> None then store h4 (ptr_of t2) (\<lambda>n. n\<lparr>m_parent := Some c\<rparr>) else Some h4) = Some h5"
    "tree_at h5 (Some c) t2" "\<And>b. b \<notin> set (addrs t2) \<Longrightarrow> h5 b = h4 b" using adopt[OF t2 2(4)] by blast
  have "copySubTree (as @ rest) h (Some a) = Some (Some c, h5, rest)"
    by (subst copySubTree.simps, unfold copy_if, cases "t1 = Leaf"; cases "t2 = Leaf")
      (use 4(1) 5(1) in \<open>simp_all add: n as(1) 1(1) 2(1) Let_def\<close>)
  moreover have "tree_at h5 (Some c) t1" by (rule tree_at_frame[OF 4(2)], rule 5(3)) (use 1(3) 2(3) d(3) in blast)
  then have "tree_at h5 None (Node t1 (c, k, v) t2)"
    using 4(3) 5(2,3) 1(3) 2(3) d(4,5) by (simp add: CreateNode_def)
  moreover have "b \<notin> set as \<Longrightarrow> h5 b = h b" for b
    using 1(3,6) 2(3,6) 4(3) 5(3) by (auto simp: as(1))
  ultimately show ?case
    using 1(3-5) 2(3-5) d by (intro exI[of _ "Node t1 (c, k, v) t2"] exI[of _ h5]) (auto simp: x as(1))
qed

end
