(* ===== verification/Search_Tree_Delete.thy ===== *)
theory Search_Tree_Delete
  imports Search_Tree_Walks
begin

text \<open>
  Deletion in the search tree: a subtree is replaced below its parent.  The tree is right afterwards except for
  the parent pointer of one node, when the deleted node has two children, is not the topmost, and its left
  child has a right child.
\<close>

subsection \<open>Replacing a subtree\<close>

fun graft :: "nat \<Rightarrow> ('k, 'v) item_tree \<Rightarrow> ('k, 'v) item_tree \<Rightarrow> ('k, 'v) item_tree" where
  "graft a u Leaf = Leaf"
| "graft a u (Node l (b, k, v) r) = (if b = a then u else Node (graft a u l) (b, k, v) (graft a u r))"

fun sub_at :: "nat \<Rightarrow> ('k, 'v) item_tree \<Rightarrow> ('k, 'v) item_tree" where
  "sub_at a Leaf = Leaf"
| "sub_at a (Node l (b, k, v) r) =
     (if b = a then Node l (b, k, v) r else if a \<in> set (addrs l) then sub_at a l else sub_at a r)"

lemma graft_id [simp]: "a \<notin> set (addrs t) \<Longrightarrow> graft a u t = t"
  by (induction a u t rule: graft.induct) auto

lemma sub_at_root: "ptr_of t = Some a \<Longrightarrow> sub_at a t = t \<and> graft a u t = u"
  by (cases t) auto

lemma sub_at_addrs: "a \<in> set (addrs t) \<Longrightarrow> a \<in> set (addrs (sub_at a t)) \<and> set (addrs (sub_at a t)) \<subseteq> set (addrs t) \<and> ptr_of (sub_at a t) = Some a"
  by (induction a t rule: sub_at.induct) auto

lemma sub_at_tree: "tree_at h par t \<Longrightarrow> a \<in> set (addrs t) \<Longrightarrow> \<exists>q. tree_at h q (sub_at a t)"
  by (induction h par t rule: tree_at.induct) auto

lemma graft_inorder:
  "a \<in> set (addrs t) \<Longrightarrow> distinct (addrs t) \<Longrightarrow>
    \<exists>xs ys. inorder t = xs @ inorder (sub_at a t) @ ys \<and> inorder (graft a u t) = xs @ inorder u @ ys"
proof (induction a t rule: sub_at.induct)
  case (2 a l b k v r)
  consider "b = a" | "b \<noteq> a" "a \<in> set (addrs l)" "a \<notin> set (addrs r)" | "b \<noteq> a" "a \<notin> set (addrs l)" "a \<in> set (addrs r)"
    using "2.prems" by auto
  then show ?case
  proof cases
    case 1
    then show ?thesis by (intro exI[of _ "[]"]) simp
  next
    case 2
    then obtain xs ys where "inorder l = xs @ inorder (sub_at a l) @ ys" "inorder (graft a u l) = xs @ inorder u @ ys"
      using "2.IH"(1) "2.prems" by auto
    then show ?thesis using 2 by (intro exI[of _ xs] exI[of _ "ys @ (b, k, v) # inorder r"]) simp
  next
    case 3
    then obtain xs ys where "inorder r = xs @ inorder (sub_at a r) @ ys" "inorder (graft a u r) = xs @ inorder u @ ys"
      using "2.IH"(2) "2.prems" by auto
    then show ?thesis using 3 by (intro exI[of _ "inorder l @ (b, k, v) # xs"] exI[of _ ys]) simp
  qed
qed simp

text \<open>The node that points to \<open>a\<close> is outside the subtree below \<open>a\<close>.\<close>

definition linked :: "('k, 'v) nodes \<Rightarrow> nat \<Rightarrow> nat \<Rightarrow> ('k, 'v) BSTnode \<Rightarrow> ('k, 'v) BSTnode \<Rightarrow> bool" where
  "linked h a p n np \<longleftrightarrow> h a = Some n \<and> m_parent n = Some p \<and> h p = Some np \<and>
     (m_left np = Some a \<and> m_right np \<noteq> Some a \<or> m_right np = Some a \<and> m_left np \<noteq> Some a)"

lemma parent_of:
  assumes "tree_at h par t" "distinct (addrs t)" "a \<in> set (addrs t)" "ptr_of t \<noteq> Some a"
  shows "\<exists>p n np. linked h a p n np \<and> p \<in> set (addrs t) \<and> p \<notin> set (addrs (sub_at a t))"
  using assms
proof (induction t arbitrary: par)
  case (Node l x r)
  obtain b k v where x: "x = (b, k, v)" by (cases x)
  have t: "tree_at h (Some b) l" "tree_at h (Some b) r" "distinct (addrs l)" "distinct (addrs r)" "b \<noteq> a"
    "h b = Some \<lparr>m_key = k, m_value = v, m_left = ptr_of l, m_right = ptr_of r, m_parent = par\<rparr>"
    using Node.prems by (auto simp: x)
  have out: "b \<notin> set (addrs l)" "b \<notin> set (addrs r)" "set (addrs l) \<inter> set (addrs r) = {}" using Node.prems(2) by (auto simp: x)
  have direct: ?case if "ptr_of u = Some a" "u = l \<or> u = r" for u
  proof -
    from that(1) obtain ul ua ur where u: "u = Node ul (a, ua) ur" by (cases u) auto
    have "h a \<noteq> None \<and> m_parent (the (h a)) = Some b" using that(2) t(1,2) by (cases ua) (auto simp: u)
    then obtain n where n: "h a = Some n" "m_parent n = Some b" by auto
    have "ptr_of l = Some a \<Longrightarrow> ptr_of r \<noteq> Some a" using out(3) ptr_of_addrs by blast
    then have "linked h a b n \<lparr>m_key = k, m_value = v, m_left = ptr_of l, m_right = ptr_of r, m_parent = par\<rparr>"
      using n t(6) that by (auto simp: linked_def)
    moreover have "set (addrs (sub_at a (Node l x r))) \<subseteq> set (addrs l) \<union> set (addrs r)"
      using Node.prems(3) t(5) sub_at_addrs[of a l] sub_at_addrs[of a r] by (auto simp: x)
    ultimately show ?thesis using out by (intro exI[of _ b] exI[of _ n] exI) (auto simp: x)
  qed
  consider "ptr_of l = Some a" | "ptr_of r = Some a" | "a \<in> set (addrs l)" "ptr_of l \<noteq> Some a" "a \<notin> set (addrs r)"
    | "a \<in> set (addrs r)" "ptr_of r \<noteq> Some a" "a \<notin> set (addrs l)"
    using Node.prems(3) t(5) out(3) by (auto simp: x)
  then show ?case
  proof cases
    case 1
    then show ?thesis by (rule direct) simp
  next
    case 2
    then show ?thesis by (rule direct) simp
  next
    case 3
    then show ?thesis using Node.IH(1)[OF t(1,3) 3(1,2)] t(5) by (auto simp: x)
  next
    case 4
    then show ?thesis using Node.IH(2)[OF t(2,4) 4(1,2)] t(5) by (auto simp: x)
  qed
qed simp

definition relinked :: "nat \<Rightarrow> ptr \<Rightarrow> ('k, 'v) BSTnode \<Rightarrow> ('k, 'v) BSTnode" where
  "relinked a q np = (if m_left np = Some a then np\<lparr>m_left := q\<rparr> else np\<lparr>m_right := q\<rparr>)"

lemma ptr_of_graft: "ptr_of t \<noteq> Some a \<Longrightarrow> ptr_of (graft a u t) = ptr_of t"
  by (cases t) auto

lemma linked_child:
  assumes "tree_at h (Some b) u" "ptr_of u = Some a" "linked h a p n np"
  shows "p = b"
  using assms by (cases u) (auto simp: linked_def)

lemma graft_ok:
  assumes "tree_at h par t" "distinct (addrs t)" "a \<in> set (addrs t)" "ptr_of t \<noteq> Some a" "linked h a p n np"
    "h' p = Some (relinked a (ptr_of u) np)" "tree_at h' (Some p) u"
    "\<And>b. b \<in> set (addrs t) \<Longrightarrow> b \<notin> set (addrs (sub_at a t)) \<Longrightarrow> b \<noteq> p \<Longrightarrow> h' b = h b"
  shows "tree_at h' par (graft a u t)"
  using assms
proof (induction t arbitrary: par)
  case (Node l x r)
  obtain b k v where x: "x = (b, k, v)" by (cases x)
  have t: "tree_at h (Some b) l" "tree_at h (Some b) r" "distinct (addrs l)" "distinct (addrs r)" "b \<noteq> a"
    and nb: "h b = Some \<lparr>m_key = k, m_value = v, m_left = ptr_of l, m_right = ptr_of r, m_parent = par\<rparr>"
    using Node.prems by (auto simp: x)
  have out: "b \<notin> set (addrs l)" "b \<notin> set (addrs r)" "set (addrs l) \<inter> set (addrs r) = {}" using Node.prems(2) by (auto simp: x)
  have whole: "h' c = h c" if "c \<in> set (addrs w)" "w = l \<and> a \<in> set (addrs r) \<or> w = r \<and> a \<in> set (addrs l)" "c \<noteq> p" for c w
  proof (rule Node.prems(8))
    show "c \<in> set (addrs (Node l x r))" using that(1,2) by (auto simp: x)
    show "c \<notin> set (addrs (sub_at a (Node l x r)))"
      using that(1,2) out(3) t(5) sub_at_addrs[of a l] sub_at_addrs[of a r] by (auto simp: x)
  qed (rule that(3))
  consider "ptr_of l = Some a" | "ptr_of r = Some a" | "a \<in> set (addrs l)" "ptr_of l \<noteq> Some a" "a \<notin> set (addrs r)"
    | "a \<in> set (addrs r)" "ptr_of r \<noteq> Some a" "a \<notin> set (addrs l)"
    using Node.prems(3) t(5) out(3) by (auto simp: x)
  then show ?case
  proof cases
    case 1
    have pb: "p = b" by (rule linked_child[OF t(1) 1 Node.prems(5)])
    have a: "a \<in> set (addrs l)" "a \<notin> set (addrs r)" using ptr_of_addrs[OF 1] out(3) by auto
    have np: "np = \<lparr>m_key = k, m_value = v, m_left = ptr_of l, m_right = ptr_of r, m_parent = par\<rparr>"
      using Node.prems(5) nb pb by (simp add: linked_def)
    have "tree_at h' (Some b) r" by (rule tree_at_frame[OF t(2)]) (use whole[of _ r] a(1) out(2) pb in blast)
    then show ?thesis
      using Node.prems(6,7) t(5) a 1 sub_at_root[OF 1] by (simp add: x pb np relinked_def)
  next
    case 2
    have pb: "p = b" by (rule linked_child[OF t(2) 2 Node.prems(5)])
    have a: "a \<in> set (addrs r)" "a \<notin> set (addrs l)" using ptr_of_addrs[OF 2] out(3) by auto
    have np: "np = \<lparr>m_key = k, m_value = v, m_left = ptr_of l, m_right = ptr_of r, m_parent = par\<rparr>"
      using Node.prems(5) nb pb by (simp add: linked_def)
    have "ptr_of l \<noteq> Some a" using ptr_of_addrs a(2) by blast
    moreover have "tree_at h' (Some b) l" by (rule tree_at_frame[OF t(1)]) (use whole[of _ l] a(1) out(1) pb in blast)
    ultimately show ?thesis
      using Node.prems(6,7) t(5) a 2 sub_at_root[OF 2] by (simp add: x pb np relinked_def)
  next
    case 3
    obtain q n' np' where q: "linked h a q n' np'" "q \<in> set (addrs l)" "q \<notin> set (addrs (sub_at a l))"
      using parent_of[OF t(1,3) 3(1,2)] by blast
    then have p: "p \<in> set (addrs l)" "p \<notin> set (addrs r)" "p \<noteq> b" using Node.prems(5) out by (auto simp: linked_def)
    have "tree_at h' (Some b) (graft a u l)"
      by (rule Node.IH(1)[OF t(1,3) 3(1,2) Node.prems(5-7)], rule Node.prems(8)) (use 3 t(5) in \<open>auto simp: x\<close>)
    moreover have "tree_at h' (Some b) r" by (rule tree_at_frame[OF t(2)]) (use whole[of _ r] 3(1) p(2) in blast)
    moreover have "h' b = h b" by (rule Node.prems(8)) (use t(5) 3 p(3) out(1) sub_at_addrs[of a l] in \<open>auto simp: x\<close>)
    ultimately show ?thesis using t(5) 3 nb by (simp add: x ptr_of_graft)
  next
    case 4
    obtain q n' np' where q: "linked h a q n' np'" "q \<in> set (addrs r)" "q \<notin> set (addrs (sub_at a r))"
      using parent_of[OF t(2,4) 4(1,2)] by blast
    then have p: "p \<in> set (addrs r)" "p \<notin> set (addrs l)" "p \<noteq> b" using Node.prems(5) out by (auto simp: linked_def)
    have "tree_at h' (Some b) (graft a u r)"
      by (rule Node.IH(2)[OF t(2,4) 4(1,2) Node.prems(5-7)], rule Node.prems(8)) (use 4 t(5) in \<open>auto simp: x\<close>)
    moreover have "tree_at h' (Some b) l" by (rule tree_at_frame[OF t(1)]) (use whole[of _ l] 4(1) p(2) in blast)
    moreover have "h' b = h b" by (rule Node.prems(8)) (use t(5) 4 p(3) out(2) sub_at_addrs[of a r] in \<open>auto simp: x\<close>)
    ultimately show ?thesis using t(5) 4 nb by (simp add: x ptr_of_graft)
  qed
qed simp

subsection \<open>The largest node of a subtree\<close>

fun deep :: "'a tree \<Rightarrow> bool" where
  "deep Leaf = False"
| "deep (Node l x r) = (r \<noteq> Leaf)"

lemma linked_root:
  assumes "tree_at h (Some b) u" "ptr_of u = Some a" "h b = Some nb" "m_right nb = Some a" "m_left nb \<noteq> Some a"
  shows "\<exists>n. linked h a b n nb"
  using assms by (cases u) (auto simp: linked_def)

lemma rightmost_tree:
  assumes "tree_at h par t" "t \<noteq> Leaf" "distinct (addrs t)"
  shows "\<exists>x kx vx xl. rightmost h (ptr_of t) = Some (Some x) \<and> sub_at x t = Node xl (x, kx, vx) Leaf \<and> x \<in> set (addrs t) \<and>
    inorder t = inorder (graft x xl t) @ [(x, kx, vx)] \<and> (ptr_of t = Some x \<longleftrightarrow> \<not> deep t) \<and>
    (deep t \<longrightarrow> (\<exists>p n np. linked h x p n np \<and> m_right np = Some x))"
  using assms
proof (induction t arbitrary: par)
  case (Node l y r)
  obtain b k v where y: "y = (b, k, v)" by (cases y)
  let ?nb = "\<lparr>m_key = k, m_value = v, m_left = ptr_of l, m_right = ptr_of r, m_parent = par\<rparr>"
  have nb: "load h (Some b) = Some ?nb" "h b = Some ?nb" using Node.prems(1) by (simp_all add: y load_def)
  have t: "tree_at h (Some b) r" "distinct (addrs r)" "b \<notin> set (addrs l)" "b \<notin> set (addrs r)" "set (addrs l) \<inter> set (addrs r) = {}"
    using Node.prems(1,3) by (auto simp: y)
  show ?case
  proof (cases "r = Leaf")
    case True
    have "rightmost h (Some b) = Some (Some b)" by (subst rightmost.simps) (simp add: nb(1) True)
    then show ?thesis using True by (simp add: y)
  next
    case False
    from Node.IH(2)[OF t(1) False t(2)] obtain x kx vx xl where m: "rightmost h (ptr_of r) = Some (Some x)"
      "sub_at x r = Node xl (x, kx, vx) Leaf" "x \<in> set (addrs r)" "inorder r = inorder (graft x xl r) @ [(x, kx, vx)]"
      "ptr_of r = Some x \<longleftrightarrow> \<not> deep r" "deep r \<longrightarrow> (\<exists>p n np. linked h x p n np \<and> m_right np = Some x)" by blast
    have x: "x \<notin> set (addrs l)" "x \<noteq> b" using m(3) t(4,5) by auto
    have "rightmost h (Some b) = Some (Some x)" by (subst rightmost.simps) (simp add: nb(1) m(1) False)
    moreover have "\<exists>p n np. linked h x p n np \<and> m_right np = Some x"
    proof (cases "deep r")
      case True
      then show ?thesis using m(6) by blast
    next
      case flat: False
      then have r: "ptr_of r = Some x" using m(5) by blast
      have "ptr_of l \<noteq> Some x" using x(1) ptr_of_addrs by blast
      then obtain n where "linked h x b n ?nb" using linked_root[OF t(1) r nb(2)] r by auto
      moreover have "m_right ?nb = Some x" using r by simp
      ultimately show ?thesis by blast
    qed
    ultimately show ?thesis using False m(2-4) x
      by (intro exI[of _ x] exI[of _ kx] exI[of _ vx] exI[of _ xl]) (simp add: y)
  qed
qed simp

subsection \<open>A node with two children\<close>

text \<open>What is common to all cases: a new subtree \<open>u\<close> stands below \<open>p\<close>, and only the old subtree and \<open>p\<close> changed.\<close>

definition regrown :: "('k, 'v) nodes \<Rightarrow> ('k, 'v) nodes \<Rightarrow> nat \<Rightarrow> nat \<Rightarrow> ('k, 'v) BSTnode \<Rightarrow> ('k, 'v) item_tree \<Rightarrow> ('k, 'v) item_tree \<Rightarrow> bool" where
  "regrown h h' a p np t u \<longleftrightarrow> tree_at h' (Some p) u \<and> h' p = Some (relinked a (ptr_of u) np) \<and>
     (\<forall>b. b \<notin> set (addrs t) \<longrightarrow> b \<noteq> p \<longrightarrow> h' b = h b)"

lemma store_Some: "h a = Some n \<Longrightarrow> store h (Some a) f = Some (h(a \<mapsto> f n))"
  by (simp add: store_def)

lemma load_Some: "load h (Some a) = h a"
  by (simp add: load_def)

lemma relink_Some: "h p = Some np \<Longrightarrow> relink h (Some p) (Some a) q = Some (h(p \<mapsto> relinked a q np))"
  by (simp add: relink_def store_Some relinked_def)

lemma set_parent_tree:
  assumes "tree_at h par t" "distinct (addrs t)" "t \<noteq> Leaf"
  shows "\<exists>b n. ptr_of t = Some b \<and> b \<in> set (addrs t) \<and> h b = Some n \<and>
    set_parent h (ptr_of t) q = Some (h(b \<mapsto> n\<lparr>m_parent := q\<rparr>)) \<and> tree_at (h(b \<mapsto> n\<lparr>m_parent := q\<rparr>)) q t"
proof -
  obtain b where b: "ptr_of t = Some b" using assms(3) by (cases t) auto
  from tree_at_new_parent[OF assms(1,2) b] obtain n where "h b = Some n" "tree_at (h(b \<mapsto> n\<lparr>m_parent := q\<rparr>)) q t" by blast
  then show ?thesis using b ptr_of_addrs[OF b] by (simp add: set_parent_def store_Some)
qed

lemma delete_two_flat:
  assumes t: "tree_at h (Some p) (Node l (a, k, v) r)" "distinct (addrs (Node l (a, k, v) r))" "p \<notin> set (addrs (Node l (a, k, v) r))"
    and np: "h p = Some np" and n: "h a = Some n" and c: "r \<noteq> Leaf" and l: "l = Node xl (x, kx, vx) Leaf"
  shows "\<exists>h'. delete_two h m (Some a) n = Some h' \<and> regrown h h' a p np (Node l (a, k, v) r) (Node xl (x, kx, vx) r)"
proof -
  let ?nx = "\<lparr>m_key = kx, m_value = vx, m_left = ptr_of xl, m_right = ptr_of r, m_parent = Some a\<rparr>"
  have sub: "tree_at h (Some x) xl" "tree_at h (Some a) r" "distinct (addrs r)" "x \<notin> set (addrs xl)" "x \<notin> set (addrs r)" "x \<noteq> a"
    "x \<noteq> p" "p \<noteq> a" "p \<notin> set (addrs xl)" "p \<notin> set (addrs r)" "set (addrs xl) \<inter> set (addrs r) = {}"
    "h x = Some \<lparr>m_key = kx, m_value = vx, m_left = ptr_of xl, m_right = None, m_parent = Some a\<rparr>" "n = \<lparr>m_key = k, m_value = v, m_left = Some x, m_right = ptr_of r, m_parent = Some p\<rparr>"
    using t n by (auto simp: l)
  let ?h1 = "h(x \<mapsto> ?nx)"
  have "tree_at ?h1 (Some a) r" using sub(2,5) by (rule tree_at_upd)
  from set_parent_tree[OF this sub(3) c] obtain b nb where b: "ptr_of r = Some b" "b \<in> set (addrs r)"
    "set_parent ?h1 (ptr_of r) (Some x) = Some (?h1(b \<mapsto> nb))" "tree_at (?h1(b \<mapsto> nb)) (Some x) r" by metis
  have bx: "b \<noteq> x" "b \<noteq> p" "b \<notin> set (addrs xl)" using b(2) sub by auto
  let ?h2 = "?h1(b \<mapsto> nb)" let ?h3 = "?h2(p \<mapsto> relinked a (Some x) np)" let ?h4 = "?h3(x \<mapsto> ?nx\<lparr>m_parent := Some p\<rparr>)"
  have rm: "rightmost h (Some x) = Some (Some x)" by (subst rightmost.simps) (simp add: load_Some sub(12))
  have s1: "store h (Some x) (\<lambda>y. y\<lparr>m_right := ptr_of r\<rparr>) = Some ?h1" by (simp add: store_def sub(12))
  have "?h2 p = Some np" using np sub(7) bx(2) by simp
  then have s3: "relink ?h2 (Some p) (Some a) (Some x) = Some ?h3" by (rule relink_Some)
  have "?h3 x = Some ?nx" using bx(1) sub(7) by simp
  then have s4: "set_parent ?h3 (Some x) (Some p) = Some ?h4" unfolding set_parent_def by (rule store_Some)
  have "delete_two h m (Some a) n = Some ?h4"
    using sub(8) by (simp add: delete_two_def sub(13) rm load_Some sub(12) s1 b(3) s3 s4 Let_def del: fun_upd_apply)
  moreover have "tree_at ?h4 (Some x) xl"
    by (intro tree_at_upd[OF tree_at_upd[OF tree_at_upd[OF tree_at_upd[OF sub(1)]]]] sub(4,9) bx(3))
  moreover have "tree_at ?h4 (Some x) r" by (intro tree_at_upd[OF tree_at_upd[OF b(4)]] sub(5,10))
  moreover have "\<forall>c. c \<notin> set (addrs (Node l (a, k, v) r)) \<longrightarrow> c \<noteq> p \<longrightarrow> ?h4 c = h c" using b(2) by (auto simp: l)
  ultimately show ?thesis using sub(7) by (intro exI[of _ ?h4]) (simp add: regrown_def)
qed

lemma linked_same: "linked h x p n np \<Longrightarrow> linked h x q m mq \<Longrightarrow> q = p \<and> m = n \<and> mq = np"
  by (auto simp: linked_def)

lemma adopt_child:
  assumes "tree_at h par t" "distinct (addrs t)"
  shows "\<exists>h'. (if ptr_of t \<noteq> None then set_parent h (ptr_of t) q else Some h) = Some h' \<and> tree_at h' q t \<and>
    (\<forall>b. b \<notin> set (addrs t) \<longrightarrow> h' b = h b)"
proof (cases "t = Leaf")
  case False
  from set_parent_tree[OF assms False, of q] obtain b n where b: "ptr_of t = Some b" "b \<in> set (addrs t)"
    "set_parent h (ptr_of t) q = Some (h(b \<mapsto> n))" "tree_at (h(b \<mapsto> n)) q t" by metis
  then have "\<forall>c. c \<notin> set (addrs t) \<longrightarrow> (h(b \<mapsto> n)) c = h c" by auto
  then show ?thesis using b False by auto
qed simp

text \<open>The last assignment points the moved node at the root node instead of its parent.\<close>

lemma delete_two_deep:
  assumes t: "tree_at h (Some p) (Node l (a, k, v) r)" "distinct (addrs (Node l (a, k, v) r))" "p \<notin> set (addrs (Node l (a, k, v) r))"
    and np: "h p = Some np" and n: "h a = Some n" and c: "r \<noteq> Leaf" and l: "l \<noteq> Leaf" "deep l"
  shows "\<exists>h' x kx vx l' nx. delete_two h m (Some a) n = Some (h'(x \<mapsto> nx\<lparr>m_parent := Some m\<rparr>)) \<and> h' x = Some nx \<and>
    regrown h h' a p np (Node l (a, k, v) r) (Node l' (x, kx, vx) r) \<and> inorder l = inorder l' @ [(x, kx, vx)]"
proof -
  have sub: "tree_at h (Some a) l" "tree_at h (Some a) r" "distinct (addrs l)" "distinct (addrs r)" "set (addrs l) \<inter> set (addrs r) = {}"
    "p \<noteq> a" "p \<notin> set (addrs l)" "p \<notin> set (addrs r)" "a \<notin> set (addrs l)" "a \<notin> set (addrs r)"
    "n = \<lparr>m_key = k, m_value = v, m_left = ptr_of l, m_right = ptr_of r, m_parent = Some p\<rparr>"
    using t n by auto
  obtain y where y: "ptr_of l = Some y" using l(1) by (cases l) auto
  from rightmost_tree[OF sub(1) l(1) sub(3)] l(2) obtain x kx vx xl pp nx npp where
    mx: "rightmost h (Some y) = Some (Some x)" "sub_at x l = Node xl (x, kx, vx) Leaf" "x \<in> set (addrs l)"
      "inorder l = inorder (graft x xl l) @ [(x, kx, vx)]" "ptr_of l \<noteq> Some x"
    and lk: "linked h x pp nx npp" "m_right npp = Some x" unfolding y by blast
  let ?l' = "graft x xl l"
  have al: "addrs l = addrs ?l' @ [x]" unfolding addrs_def by (subst mx(4)) simp
  have xl': "x \<notin> set (addrs ?l')" "distinct (addrs ?l')" using sub(3) unfolding al by auto
  obtain q n2 nq where "linked h x q n2 nq" "q \<in> set (addrs l)" "q \<notin> set (addrs (sub_at x l))"
    using parent_of[OF sub(1,3) mx(3,5)] by blast
  then have pp: "pp \<in> set (addrs l)" "pp \<notin> set (addrs (sub_at x l))" using linked_same[OF lk(1)] by auto
  obtain q0 where q0: "tree_at h q0 (Node xl (x, kx, vx) Leaf)" using sub_at_tree[OF sub(1) mx(3)] mx(2) by auto
  have nx: "h x = Some \<lparr>m_key = kx, m_value = vx, m_left = ptr_of xl, m_right = None, m_parent = Some pp\<rparr>"
    "tree_at h (Some x) xl" using q0 lk(1) by (auto simp: linked_def)
  have hpp: "h pp = Some npp" "relinked x (ptr_of xl) npp = npp\<lparr>m_right := ptr_of xl\<rparr>"
    using lk by (auto simp: linked_def relinked_def)
  have xs: "set (addrs xl) \<subseteq> set (addrs l)" "distinct (addrs xl)" "x \<notin> set (addrs xl)"
  proof -
    show "set (addrs xl) \<subseteq> set (addrs l)" using sub_at_addrs[OF mx(3)] mx(2) by auto
    obtain us vs where "inorder l = us @ inorder (sub_at x l) @ vs" using graft_inorder[OF mx(3) sub(3)] by blast
    then have "addrs l = map fst us @ addrs (sub_at x l) @ map fst vs" by (simp add: addrs_def)
    then have "distinct (addrs (sub_at x l))" using sub(3) by simp
    then show "distinct (addrs xl)" "x \<notin> set (addrs xl)" by (simp_all add: mx(2))
  qed
  have out: "x \<notin> set (addrs r)" "x \<noteq> p" "pp \<noteq> x" "pp \<noteq> p" "pp \<notin> set (addrs r)" "y \<noteq> x" "x \<noteq> a" "pp \<notin> set (addrs xl)"
    using mx(2,3,5) pp sub(5,7,9) y by auto
  let ?nx = "\<lparr>m_key = kx, m_value = vx, m_left = ptr_of xl, m_right = ptr_of r, m_parent = Some pp\<rparr>"
  let ?h1 = "h(x \<mapsto> ?nx)"
  have "tree_at ?h1 (Some a) r" using sub(2) out(1) by (rule tree_at_upd)
  from set_parent_tree[OF this sub(4) c] obtain b nb where b: "ptr_of r = Some b" "b \<in> set (addrs r)"
    "set_parent ?h1 (ptr_of r) (Some x) = Some (?h1(b \<mapsto> nb))" "tree_at (?h1(b \<mapsto> nb)) (Some x) r" by metis
  have bl: "b \<noteq> x" "b \<noteq> p" "b \<noteq> pp" "b \<notin> set (addrs l)" "b \<notin> set (addrs xl)" using b(2) sub(5,8) out(1,5) xs(1) by auto
  let ?h2 = "?h1(b \<mapsto> nb)" let ?h3 = "?h2(pp \<mapsto> npp\<lparr>m_right := ptr_of xl\<rparr>)"
  have "tree_at ?h3 (Some x) xl"
    by (intro tree_at_upd[OF tree_at_upd[OF tree_at_upd[OF nx(2)]]] xs(3) bl(5) out(8))
  from adopt_child[OF this xs(2), of "Some pp"] obtain h4 where h4: "(if ptr_of xl \<noteq> None then set_parent ?h3 (ptr_of xl) (Some pp) else Some ?h3) = Some h4"
    "tree_at h4 (Some pp) xl" "\<And>c. c \<notin> set (addrs xl) \<Longrightarrow> h4 c = ?h3 c" by blast
  have "tree_at h4 (Some a) ?l'"
  proof (rule graft_ok[OF sub(1,3) mx(3,5) lk(1) _ h4(2)])
    show "h4 pp = Some (relinked x (ptr_of xl) npp)" using h4(3)[OF out(8)] hpp(2) by simp
    show "h4 c = h c" if "c \<in> set (addrs l)" "c \<notin> set (addrs (sub_at x l))" "c \<noteq> pp" for c
      using that h4(3)[of c] bl(4) by (auto simp: mx(2))
  qed
  let ?h5 = "h4(x \<mapsto> \<lparr>m_key = kx, m_value = vx, m_left = Some y, m_right = ptr_of r, m_parent = Some pp\<rparr>)"
  have "tree_at ?h5 (Some a) ?l'" by (rule tree_at_upd) (fact \<open>tree_at h4 (Some a) ?l'\<close> xl'(1))+
  moreover have yl: "ptr_of ?l' = Some y" using ptr_of_graft[OF mx(5)] y by simp
  moreover have "?l' \<noteq> Leaf" using yl by auto
  ultimately obtain ny where ny: "y \<in> set (addrs ?l')"
    "set_parent ?h5 (Some y) (Some x) = Some (?h5(y \<mapsto> ny))" "tree_at (?h5(y \<mapsto> ny)) (Some x) ?l'"
    using set_parent_tree[OF _ xl'(2), of ?h5 "Some a" "Some x"] by (metis option.inject)
  let ?h6 = "?h5(y \<mapsto> ny)" let ?h7 = "?h6(p \<mapsto> relinked a (Some x) np)"
  let ?ny = "\<lparr>m_key = kx, m_value = vx, m_left = Some y, m_right = ptr_of r, m_parent = Some p\<rparr>"
  let ?h8 = "?h7(x \<mapsto> ?ny)"
  have hx: "?h1 x = Some ?nx" "?h2 x = Some ?nx" "h4 x = Some ?nx" using bl(1) h4(3)[OF xs(3)] out(3) by simp_all
  have hp: "?h6 p = Some np" using ny(1) out(2,4) bl(2) sub(7) np h4(3)[of p] xs(1) al by auto
  have h2p: "?h2 pp = Some npp" using hpp(1) out(3) bl(3) by simp
  have h7x: "?h7 x = Some \<lparr>m_key = kx, m_value = vx, m_left = Some y, m_right = ptr_of r, m_parent = Some pp\<rparr>" using out(2,6) by simp
  have s1: "store h (Some x) (\<lambda>z. z\<lparr>m_right := ptr_of r\<rparr>) = Some ?h1" by (simp add: store_def nx(1))
  have s3: "store ?h2 (Some pp) (\<lambda>z. z\<lparr>m_right := ptr_of xl\<rparr>) = Some ?h3" using h2p by (simp add: store_def del: fun_upd_apply)
  have s5: "store h4 (Some x) (\<lambda>z. z\<lparr>m_left := Some y\<rparr>) = Some ?h5" using hx(3) by (simp add: store_def del: fun_upd_apply)
  have s7: "relink ?h6 (Some p) (Some a) (Some x) = Some ?h7" by (rule relink_Some) (rule hp)
  have s8: "set_parent ?h7 (Some x) (Some p) = Some ?h8" using h7x by (simp add: set_parent_def store_def del: fun_upd_apply)
  have s4: "(if xl \<noteq> Leaf then set_parent ?h3 (ptr_of xl) (Some pp) else Some ?h3) = Some h4" using h4(1) by (cases "xl = Leaf") auto
  have "delete_two h m (Some a) n = Some (?h8(x \<mapsto> ?ny\<lparr>m_parent := Some m\<rparr>))"
    using mx(5) sub(6)
    by (simp add: delete_two_def sub(11) y mx(1) load_Some nx(1) s1 b(3) hx(2) s3 s4 s5 ny(2) s7 s8 Let_def
        del: fun_upd_apply not_None_eq cong: if_cong split del: if_split)
      (simp add: set_parent_def store_def)
  moreover have "tree_at ?h8 (Some x) ?l'"
    by (intro tree_at_upd[OF tree_at_upd[OF ny(3)]] xl'(1)) (use al sub(7) in auto)
  moreover have "tree_at ?h8 (Some x) r"
  proof (rule tree_at_frame[OF b(4)])
    fix d assume d: "d \<in> set (addrs r)"
    then have "d \<noteq> x" "d \<noteq> p" "d \<noteq> y" "d \<notin> set (addrs xl)" "d \<noteq> pp" using out(1,5) sub(5,8) xs(1) ny(1) al by auto
    then show "?h8 d = ?h2 d" using h4(3)[of d] by simp
  qed
  moreover have "?h8 c = h c" if "c \<notin> set (addrs (Node l (a, k, v) r))" "c \<noteq> p" for c
  proof -
    have "c \<noteq> x" "c \<noteq> y" "c \<notin> set (addrs xl)" "c \<noteq> pp" "c \<noteq> b" using that mx(3) ny(1) al xs(1) pp(1) b(2) by auto
    then show ?thesis using that(2) h4(3)[of c] by simp
  qed
  moreover have "?h8 p = Some (relinked a (Some x) np)" using out(2) by simp
  ultimately have r: "regrown h ?h8 a p np (Node l (a, k, v) r) (Node ?l' (x, kx, vx) r)"
    unfolding regrown_def using yl by simp
  show ?thesis
    by (rule exI[of _ ?h8], rule exI[of _ x], rule exI[of _ kx], rule exI[of _ vx], rule exI[of _ ?l'], rule exI[of _ ?ny])
      (use \<open>delete_two h m (Some a) n = _\<close> r mx(4) in simp)
qed

subsection \<open>The whole operation\<close>

text \<open>Where the last assignment of the deletion goes wrong.\<close>

fun misparented :: "bool \<Rightarrow> 'k::linorder \<Rightarrow> ('k, 'v) item_tree \<Rightarrow> bool" where
  "misparented rt k Leaf = False"
| "misparented rt k (Node l (a, x, v) r) =
     (if x = k then \<not> rt \<and> l \<noteq> Leaf \<and> r \<noteq> Leaf \<and> deep l
      else if x < k then misparented False k r else misparented False k l)"

lemma place_sub:
  "ordered t \<Longrightarrow> distinct (addrs t) \<Longrightarrow> place k q t = (Some a, Some a) \<Longrightarrow>
    \<exists>l v r. sub_at a t = Node l (a, k, v) r \<and>
      (misparented rt k t \<longleftrightarrow> (ptr_of t = Some a \<longrightarrow> \<not> rt) \<and> l \<noteq> Leaf \<and> r \<noteq> Leaf \<and> deep l)"
proof (induction k q t arbitrary: rt rule: place.induct)
  case (2 k q l b x w r)
  have o: "ordered l" "ordered r" "distinct (addrs l)" "distinct (addrs r)" using "2.prems"(1,2) by (auto simp: ordered_Node)
  consider "x = k" | "x \<noteq> k" "x < k" | "x \<noteq> k" "\<not> x < k" by blast
  then show ?case
  proof cases
    case 1
    then show ?thesis using "2.prems"(3) by auto
  next
    case 2
    have pl: "place k (Some b) r = (Some a, Some a)" using "2.prems"(3) 2 by simp
    have a: "a \<in> set (addrs r)" by (rule place_addr[OF pl])
    then have "a \<noteq> b" "a \<notin> set (addrs l)" using "2.prems"(2) by auto
    then show ?thesis using "2.IH"(1)[OF 2 o(2,4) pl, of False] 2 by simp
  next
    case 3
    have pl: "place k (Some b) l = (Some a, Some a)" using "2.prems"(3) 3 by simp
    have a: "a \<in> set (addrs l)" by (rule place_addr[OF pl])
    then have "a \<noteq> b" using "2.prems"(2) by auto
    then show ?thesis using "2.IH"(2)[OF 3 o(1,3) pl, of False] 3 a by simp
  qed
qed simp

lemma sorted_around:
  "sorted_wrt (<) (map fst (A @ (k, v) # B)) \<Longrightarrow> (\<forall>y \<in> set A. fst y < k) \<and> (\<forall>y \<in> set B. k < fst y)" for k :: "'k::linorder"
  by (auto simp: sorted_wrt_append)

lemma regrown_ok:
  assumes ok: "bst_ok s t" and a: "a \<in> set (addrs t)" and sub: "sub_at a t = Node l (a, k, v) r"
    and lk: "linked (nodes s) a p n np" and rg: "regrown (nodes s) h' a p np (Node l (a, k, v) r) u"
    and inorder: "inorder u = inorder l @ inorder r"
  shows "bst_ok \<lparr>nodes = h'(a := None), m_root = m_root s\<rparr> (graft a u t)"
    "set (items (graft a u t)) = {y \<in> set (items t). fst y \<noteq> k}" "p \<notin> set (addrs (sub_at a t))"
proof -
  let ?m = "m_root s" and ?h = "nodes s"
  from ok obtain k0 v0 where r: "tree_at ?h None (Node t (?m, k0, v0) Leaf)" "distinct (?m # addrs t)" "ordered t"
    unfolding bst_ok_def by blast
  let ?T = "Node t (?m, k0, v0) Leaf"
  have T: "distinct (addrs ?T)" "a \<in> set (addrs ?T)" "ptr_of ?T \<noteq> Some a" "sub_at a ?T = sub_at a t" "graft a u ?T = Node (graft a u t) (?m, k0, v0) Leaf"
    using r(2) a by auto
  obtain q n' nq where "linked ?h a q n' nq" "q \<notin> set (addrs (sub_at a ?T))" using parent_of[OF r(1) T(1-3)] by blast
  then show p: "p \<notin> set (addrs (sub_at a t))" using linked_same[OF lk] T(4) by auto
  have "tree_at h' None (graft a u ?T)"
    by (rule graft_ok[OF r(1) T(1-3) lk]) (use rg T(4) sub in \<open>auto simp: regrown_def\<close>)
  obtain xs ys where io: "inorder t = xs @ inorder (Node l (a, k, v) r) @ ys" "inorder (graft a u t) = xs @ inorder u @ ys"
    using graft_inorder[OF a, of u] r(2) sub by auto
  then have ad: "addrs t = map fst xs @ addrs l @ a # addrs r @ map fst ys" "addrs (graft a u t) = map fst xs @ addrs l @ addrs r @ map fst ys"
    and it: "items t = map snd xs @ items l @ (k, v) # items r @ map snd ys" "items (graft a u t) = map snd xs @ items l @ items r @ map snd ys"
    by (simp_all add: addrs_def items_def inorder)
  have d: "a \<notin> set (addrs (graft a u t))" "distinct (?m # addrs (graft a u t))" using r(2) unfolding ad by auto
  have am: "a \<noteq> ?m" using r(2) a by auto
  have "tree_at (h'(a := None)) None (Node (graft a u t) (?m, k0, v0) Leaf)"
    using \<open>tree_at h' None (graft a u ?T)\<close> unfolding T(5) by (rule tree_at_upd) (use d am in simp)
  moreover have "ordered (graft a u t)" using r(3) unfolding ordered_def it by (auto simp: sorted_wrt_append)
  ultimately show "bst_ok \<lparr>nodes = h'(a := None), m_root = ?m\<rparr> (graft a u t)"
    unfolding bst_ok_def using d(2) by auto
  have "sorted_wrt (<) (map fst ((map snd xs @ items l) @ (k, v) # items r @ map snd ys))"
    using r(3) unfolding ordered_def it by simp
  then have "\<forall>y \<in> set (map snd xs @ items l) \<union> set (items r @ map snd ys). fst y \<noteq> k"
    using sorted_around by fastforce
  then show "set (items (graft a u t)) = {y \<in> set (items t). fst y \<noteq> k}" unfolding it by auto
qed

text \<open>The step below the search: \<open>a\<close> is the node to remove.\<close>

definition remove_node :: "('k, 'v) nodes \<Rightarrow> nat \<Rightarrow> nat \<Rightarrow> ('k, 'v) BSTnode \<Rightarrow> ('k, 'v) nodes option" where
  "remove_node h m a n =
     (if m_left n = None \<and> m_right n = None then relink h (m_parent n) (Some a) None
      else if m_left n \<noteq> None \<and> m_right n \<noteq> None then delete_two h m (Some a) n
      else if m_left n \<noteq> None then do {
        h1 \<leftarrow> relink h (m_parent n) (Some a) (m_left n);
        set_parent h1 (m_left n) (m_parent n)
      } else do {
        h1 \<leftarrow> relink h (m_parent n) (Some a) (m_right n);
        set_parent h1 (m_right n) (m_parent n)
      })"

lemma one_child:
  assumes u: "tree_at h (Some a) u" "u \<noteq> Leaf" "distinct (addrs u)" "p \<notin> set (addrs u)" "set (addrs u) \<subseteq> set (addrs t)"
    and p: "h p = Some np"
  shows "\<exists>h'. do { h1 \<leftarrow> relink h (Some p) (Some a) (ptr_of u); set_parent h1 (ptr_of u) (Some p) } = Some h' \<and>
    regrown h h' a p np t u"
proof -
  let ?h1 = "h(p \<mapsto> relinked a (ptr_of u) np)"
  have "tree_at ?h1 (Some a) u" using u(1,4) by (rule tree_at_upd)
  from set_parent_tree[OF this u(3,2)] obtain b nb where b: "ptr_of u = Some b" "b \<in> set (addrs u)"
    "set_parent ?h1 (ptr_of u) (Some p) = Some (?h1(b \<mapsto> nb))" "tree_at (?h1(b \<mapsto> nb)) (Some p) u" by metis
  have "b \<noteq> p" using b(2) u(4) by auto
  then have "regrown h (?h1(b \<mapsto> nb)) a p np t u" using b u(5) by (auto simp: regrown_def)
  then show ?thesis using b(3) by (simp add: relink_Some[of h p np, OF p])
qed

lemma remove_node_ok:
  assumes t: "tree_at h (Some p) (Node l (a, k, v) r)" "distinct (addrs (Node l (a, k, v) r))" "p \<notin> set (addrs (Node l (a, k, v) r))"
    and np: "h p = Some np" and n: "h a = Some n"
  shows "\<exists>h' u. regrown h h' a p np (Node l (a, k, v) r) u \<and> inorder u = inorder l @ inorder r \<and>
    (if l \<noteq> Leaf \<and> r \<noteq> Leaf \<and> deep l
     then \<exists>x nx. x \<in> set (addrs l) \<and> h' x = Some nx \<and> m_parent nx = Some p \<and>
        remove_node h m a n = Some (h'(x \<mapsto> nx\<lparr>m_parent := Some m\<rparr>))
     else remove_node h m a n = Some h')"
proof -
  let ?S = "Node l (a, k, v) r"
  have sub: "tree_at h (Some a) l" "tree_at h (Some a) r" "distinct (addrs l)" "distinct (addrs r)" "p \<notin> set (addrs l)" "p \<notin> set (addrs r)"
    "n = \<lparr>m_key = k, m_value = v, m_left = ptr_of l, m_right = ptr_of r, m_parent = Some p\<rparr>"
    using t n by auto
  consider "l = Leaf" "r = Leaf" | "l \<noteq> Leaf" "r = Leaf" | "l = Leaf" "r \<noteq> Leaf" | "l \<noteq> Leaf" "r \<noteq> Leaf" "\<not> deep l"
    | "l \<noteq> Leaf" "r \<noteq> Leaf" "deep l" by blast
  then show ?thesis
  proof cases
    case 1
    then have "remove_node h m a n = Some (h(p \<mapsto> relinked a None np))"
      by (simp add: remove_node_def sub(7) relink_Some[of h p np, OF np])
    then show ?thesis using 1 by (intro exI[of _ "h(p \<mapsto> relinked a None np)"] exI[of _ Leaf]) (simp add: regrown_def)
  next
    case 2
    then show ?thesis using one_child[OF sub(1) 2(1) sub(3,5) _ np, of ?S]
      by (auto simp: remove_node_def sub(7))
  next
    case 3
    then show ?thesis using one_child[OF sub(2) 3(2) sub(4,6) _ np, of ?S]
      by (auto simp: remove_node_def sub(7))
  next
    case 4
    then obtain xl x kx vx where l: "l = Node xl (x, kx, vx) Leaf" by (cases l) auto
    then show ?thesis using delete_two_flat[OF t np n 4(2) l, of m] 4
      by (elim exE conjE, intro exI[of _ "Node xl (x, kx, vx) r"] exI) (auto simp: remove_node_def sub(7))
  next
    case 5
    from delete_two_deep[OF t np n 5(2,1,3), of m] obtain h' x kx vx l' nx where d:
      "delete_two h m (Some a) n = Some (h'(x \<mapsto> nx\<lparr>m_parent := Some m\<rparr>))" "h' x = Some nx"
      "regrown h h' a p np ?S (Node l' (x, kx, vx) r)" "inorder l = inorder l' @ [(x, kx, vx)]" by blast
    have "x \<in> set (addrs l)" using d(4) by (simp add: addrs_def)
    moreover have "m_parent nx = Some p" using d(2,3) by (simp add: regrown_def)
    ultimately show ?thesis using 5 d
      by (intro exI[of _ h'] exI[of _ "Node l' (x, kx, vx) r"]) (auto simp: remove_node_def sub(7))
  qed
qed

lemma DeleteItem_absent:
  assumes "bst_ok s t" "k \<notin> fst ` set (items t)"
  shows "DeleteItem k s = Some s"
proof -
  from assms(1) obtain k0 v0 where r: "nodes s (m_root s) = Some \<lparr>m_key = k0, m_value = v0, m_left = ptr_of t, m_right = None, m_parent = None\<rparr>"
    "tree_at (nodes s) (Some (m_root s)) t" "ordered t" by (rule bst_okD)
  have "fst (place k None t) = None" by (rule place_missing[OF r(3) assms(2)])
  then show ?thesis using r(1) walk_place[OF r(2), of k None] by (simp add: DeleteItem_def load_def case_prod_beta Let_def)
qed

lemma DeleteItem_ok:
  assumes ok: "bst_ok s t" and k: "k \<in> fst ` set (items t)"
  shows "\<exists>s' t'. DeleteItem k s = Some s' \<and> m_root s' = m_root s \<and> set (items t') = {y \<in> set (items t). fst y \<noteq> k} \<and>
    (if misparented True k t
     then \<exists>x n p. nodes s' x = Some n \<and> m_parent n = Some (m_root s) \<and> p \<noteq> m_root s \<and>
        bst_ok (s'\<lparr>nodes := (nodes s')(x \<mapsto> n\<lparr>m_parent := Some p\<rparr>)\<rparr>) t'
     else bst_ok s' t')"
proof -
  let ?m = "m_root s" and ?h = "nodes s"
  from ok obtain k0 v0 where r: "?h ?m = Some \<lparr>m_key = k0, m_value = v0, m_left = ptr_of t, m_right = None, m_parent = None\<rparr>"
    "tree_at ?h (Some ?m) t" "?m \<notin> set (addrs t)" "distinct (addrs t)" "ordered t" by (rule bst_okD)
  from k obtain v where "(k, v) \<in> set (items t)" by auto
  then obtain a where pl: "place k None t = (Some a, Some a)" using place_found[OF r(5), of k v None] by auto
  have a: "a \<in> set (addrs t)" by (rule place_addr[OF pl])
  from place_sub[OF r(5,4) pl, of True] obtain l v r' where sub: "sub_at a t = Node l (a, k, v) r'"
    and mis: "misparented True k t \<longleftrightarrow> ptr_of t \<noteq> Some a \<and> l \<noteq> Leaf \<and> r' \<noteq> Leaf \<and> deep l" by auto
  let ?S = "Node l (a, k, v) r'"
  have T: "tree_at ?h None (Node t (?m, k0, v0) Leaf)" using r(1,2) by simp
  obtain p n np where lk: "linked ?h a p n np"
    using parent_of[OF T, of a] r(3,4) a by auto
  have pm: "p = ?m \<longleftrightarrow> ptr_of t = Some a"
  proof (cases "ptr_of t = Some a")
    case True
    then show ?thesis using linked_child[OF r(2) True lk] by simp
  next
    case False
    then obtain q n' nq where "linked ?h a q n' nq" "q \<in> set (addrs t)" using parent_of[OF r(2,4) a] by blast
    then have "p \<in> set (addrs t)" using linked_same[OF lk] by auto
    then show ?thesis using r(3) False by auto
  qed
  obtain q0 where q0: "tree_at ?h q0 ?S" using sub_at_tree[OF r(2) a] sub by auto
  have "q0 = Some p" using q0 lk by (auto simp: linked_def)
  then have S: "tree_at ?h (Some p) ?S" using q0 by simp
  obtain xs ys where "inorder t = xs @ inorder ?S @ ys" using graft_inorder[OF a r(4)] sub by metis
  then have "addrs t = map fst xs @ addrs ?S @ map fst ys" by (simp add: addrs_def)
  then have dS: "distinct (addrs ?S)" using r(4) by (simp only: distinct_append)
  have pS: "p \<notin> set (addrs ?S)"
    using parent_of[OF T, of a] r(3,4) a linked_same[OF lk] sub by auto
  have np: "?h p = Some np" "?h a = Some n" using lk by (simp_all add: linked_def)
  have DI: "DeleteItem k s = map_option (\<lambda>h'. \<lparr>nodes = h'(a := None), m_root = ?m\<rparr>) (remove_node ?h ?m a n)"
  proof -
    have "t \<noteq> Leaf" using a by auto
    then have "DeleteItem k s = do { h' \<leftarrow> remove_node ?h ?m a n; Some (s\<lparr>nodes := h'(a := None)\<rparr>) }"
      using r(1) walk_place[OF r(2), of k None] pl np(2)
      by (simp add: DeleteItem_def load_Some remove_node_def Let_def)
    then show ?thesis by (cases "remove_node ?h ?m a n") (simp_all add: with_nodes)
  qed
  from remove_node_ok[OF S dS pS np, of ?m] obtain h' u where rg: "regrown ?h h' a p np ?S u" "inorder u = inorder l @ inorder r'"
    and rm: "if l \<noteq> Leaf \<and> r' \<noteq> Leaf \<and> deep l
     then \<exists>x nx. x \<in> set (addrs l) \<and> h' x = Some nx \<and> m_parent nx = Some p \<and>
        remove_node ?h ?m a n = Some (h'(x \<mapsto> nx\<lparr>m_parent := Some ?m\<rparr>))
     else remove_node ?h ?m a n = Some h'" by blast
  note g = regrown_ok[OF ok a sub lk rg]
  show ?thesis
  proof (cases "l \<noteq> Leaf \<and> r' \<noteq> Leaf \<and> deep l")
    case False
    then have "DeleteItem k s = Some \<lparr>nodes = h'(a := None), m_root = ?m\<rparr>" "\<not> misparented True k t" using rm mis DI by auto
    then show ?thesis using g by auto
  next
    case True
    then obtain x nx where x: "x \<in> set (addrs l)" "h' x = Some nx" "m_parent nx = Some p"
      "remove_node ?h ?m a n = Some (h'(x \<mapsto> nx\<lparr>m_parent := Some ?m\<rparr>))" using rm by auto
    let ?s' = "\<lparr>nodes = h'(x \<mapsto> nx\<lparr>m_parent := Some ?m\<rparr>, a := None), m_root = ?m\<rparr>"
    have xa: "x \<noteq> a" using x(1) dS by auto
    have nx: "nx\<lparr>m_parent := Some p\<rparr> = nx" using x(3) by (cases nx) simp
    then have undo: "h'(x \<mapsto> nx\<lparr>m_parent := Some ?m\<rparr>, a := None, x \<mapsto> nx) = h'(a := None)"
      using x(2) xa by (auto simp: fun_eq_iff)
    have DI': "DeleteItem k s = Some ?s'" using DI x(4) by simp
    show ?thesis
    proof (cases "p = ?m")
      case True
      then have "?s' = \<lparr>nodes = h'(a := None), m_root = ?m\<rparr>" using x(2) nx by (auto simp: fun_eq_iff)
      moreover have "\<not> misparented True k t" using True mis pm by simp
      ultimately show ?thesis using DI' g by auto
    next
      case pne: False
      then have m: "misparented True k t = True" using True mis pm by simp
      have "nodes ?s' x = Some (nx\<lparr>m_parent := Some ?m\<rparr>)" using xa by simp
      moreover have "?s'\<lparr>nodes := (nodes ?s')(x \<mapsto> (nx\<lparr>m_parent := Some ?m\<rparr>)\<lparr>m_parent := Some p\<rparr>)\<rparr> = \<lparr>nodes = h'(a := None), m_root = ?m\<rparr>"
        using undo nx by simp
      moreover have "m_parent (nx\<lparr>m_parent := Some ?m\<rparr>) = Some ?m" by simp
      ultimately have ex: "\<exists>x n p. nodes ?s' x = Some n \<and> m_parent n = Some ?m \<and> p \<noteq> ?m \<and>
          bst_ok (?s'\<lparr>nodes := (nodes ?s')(x \<mapsto> n\<lparr>m_parent := Some p\<rparr>)\<rparr>) (graft a u t)"
        using g(1) pne by metis
      show ?thesis
      proof (rule exI[of _ ?s'], rule exI[of _ "graft a u t"], intro conjI)
        show "DeleteItem k s = Some ?s'" by (fact DI')
        show "set (items (graft a u t)) = {y \<in> set (items t). fst y \<noteq> k}" by (fact g(2))
      qed (use ex in \<open>simp_all only: m if_True BinarySearchTree.select_convs\<close>)
    qed
  qed
qed

end
