(* ===== verification/Search_Tree_Map.thy ===== *)
theory Search_Tree_Map
  imports Search_Tree_Delete
begin

text \<open>
  The search tree as a finite map, copies and destruction of whole trees, and the two ways in which a deletion
  goes wrong: the parent pointer that it leaves behind, and the missing parent of a copied tree.
\<close>

subsection \<open>Contents\<close>

definition content :: "('k::linorder, 'v) BinarySearchTree \<Rightarrow> 'k \<Rightarrow> 'v option" where
  "content s k = (case Find k s of Some (Some a) \<Rightarrow> map_option m_value (nodes s a) | _ \<Rightarrow> None)"

lemma distinct_keys: "ordered t \<Longrightarrow> distinct (map fst (items t))"
  by (simp add: ordered_def strict_sorted_iff)

lemma content_tree:
  assumes "nodes s (m_root s) = Some n" "m_left n = ptr_of t" "tree_at (nodes s) par t" "ordered t"
  shows "content s = map_of (items t)"
proof
  fix k
  have d: "distinct (map fst (items t))" using assms(4) by (rule distinct_keys)
  have F: "Find k s = Some (fst (place k None t))"
    using assms(1,2) walk_place[OF assms(3), of k None] by (simp add: Find_def load_def case_prod_beta)
  show "content s k = map_of (items t) k"
  proof (cases "map_of (items t) k")
    case None
    then have "fst (place k None t) = None" using place_missing[OF assms(4)] by (simp add: map_of_eq_None_iff)
    then show ?thesis using F None by (simp add: content_def)
  next
    case (Some v)
    then have "(k, v) \<in> set (items t)" using map_of_eq_Some_iff[OF d] by simp
    then obtain a where a: "place k None t = (Some a, Some a)" "(a, k, v) \<in> set_tree t" using place_found[OF assms(4)] by blast
    then show ?thesis using F tree_at_node[OF assms(3) a(2)] Some by (auto simp: content_def)
  qed
qed

lemma content_items:
  assumes "bst_ok s t"
  shows "content s = map_of (items t)"
  using assms by (elim bst_okD) (rule content_tree, auto)

lemma map_of_same_set:
  assumes "distinct (map fst xs)" "distinct (map fst ys)" "set ys = insert (k, v) {x \<in> set xs. fst x \<noteq> k}"
  shows "map_of ys = (map_of xs)(k \<mapsto> v)"
proof
  fix q
  show "map_of ys q = ((map_of xs)(k \<mapsto> v)) q"
  proof (cases "map_of ys q")
    case None
    then have "q \<notin> fst ` set ys" by (simp add: map_of_eq_None_iff)
    then have "q \<noteq> k" "q \<notin> fst ` set xs" using assms(3) by force+
    then show ?thesis using None by (simp add: map_of_eq_None_iff[THEN iffD2])
  next
    case (Some w)
    then have "(q, w) \<in> set ys" using map_of_eq_Some_iff[OF assms(2)] by simp
    then show ?thesis using Some assms(3) map_of_eq_Some_iff[OF assms(1), of q w] by auto
  qed
qed

lemma map_of_removed:
  assumes "distinct (map fst xs)" "distinct (map fst ys)" "set ys = {x \<in> set xs. fst x \<noteq> k}"
  shows "map_of ys = (map_of xs)(k := None)"
proof
  fix q
  show "map_of ys q = ((map_of xs)(k := None)) q"
  proof (cases "map_of ys q")
    case None
    then have "q \<notin> fst ` set ys" by (simp add: map_of_eq_None_iff)
    then have "q = k \<or> q \<notin> fst ` set xs" using assms(3) by force
    then show ?thesis using None by (auto simp: map_of_eq_None_iff[THEN iffD2])
  next
    case (Some w)
    then have "(q, w) \<in> set ys" using map_of_eq_Some_iff[OF assms(2)] by simp
    then show ?thesis using Some assms(3) map_of_eq_Some_iff[OF assms(1), of q w] by auto
  qed
qed

lemma content_insert: "bst_ok s t \<Longrightarrow> bst_ok s' (insert_tree tmp k v t) \<Longrightarrow> content s' = (content s)(k \<mapsto> v)"
  unfolding content_items
  by (rule map_of_same_set) (auto simp: bst_ok_def distinct_keys insert_tree_items)

lemma content_remove:
  assumes "bst_ok s t" "bst_ok s' t'" "set (items t') = {y \<in> set (items t). fst y \<noteq> k}"
  shows "content s' = (content s)(k := None)"
  unfolding content_items[OF assms(1)] content_items[OF assms(2)]
  using assms by (intro map_of_removed) (auto simp: bst_ok_def distinct_keys)

text \<open>An insertion takes no address but the one it is given.\<close>

lemma store_free: "store h p f = Some h' \<Longrightarrow> h b = None \<Longrightarrow> h' b = None"
  by (cases p) (auto simp: store_def split: if_splits)

lemma InsertItem_free:
  assumes "InsertItem tmp k v s = Some s'" "b \<noteq> tmp" "nodes s b = None"
  shows "nodes s' b = None"
proof -
  let ?h = "(nodes s)(tmp \<mapsto> CreateNode k v)"
  have h: "?h b = None" using assms(2,3) by simp
  have s1: "h1 b = None" if "store ?h p f = Some h1" for p f h1 by (rule store_free[OF that h])
  have s2: "h2 b = None" if "store ?h p f = Some h1" "store h1 q g = Some h2" for p f h1 q g h2
    by (rule store_free[OF that(2) s1[OF that(1)]])
  show ?thesis
    using assms(1) s1 s2 unfolding InsertItem_def Let_def
    by (auto split: bind_splits if_splits prod.splits)
qed

subsection \<open>A map that is built by insertions\<close>

text \<open>
  What a client of \<open>InsertItem\<close> relies on: a well-formed tree and an unused address give a well-formed tree with
  the new entry, and the other unused addresses stay unused.
\<close>

locale item_map =
  fixes ok :: "'s \<Rightarrow> bool" and entries :: "'s \<Rightarrow> 'k \<Rightarrow> 'v option" and free :: "'s \<Rightarrow> nat \<Rightarrow> bool"
    and ins :: "nat \<Rightarrow> 'k \<Rightarrow> 'v \<Rightarrow> 's \<Rightarrow> 's option"
  assumes ins: "ok s \<Longrightarrow> free s a \<Longrightarrow> \<exists>s'. ins a k v s = Some s' \<and> ok s' \<and> entries s' = (entries s)(k \<mapsto> v)"
    and ins_free: "ins a k v s = Some s' \<Longrightarrow> free s b \<Longrightarrow> b \<noteq> a \<Longrightarrow> free s' b"
begin

fun ins_all :: "(nat \<times> 'k \<times> 'v) list \<Rightarrow> 's \<Rightarrow> 's option" where
  "ins_all [] s = Some s"
| "ins_all ((a, k, v) # xs) s = Option.bind (ins a k v s) (ins_all xs)"

lemma ins_all_entries:
  "ok s \<Longrightarrow> distinct (map fst xs) \<Longrightarrow> \<forall>a \<in> fst ` set xs. free s a \<Longrightarrow>
    \<exists>s'. ins_all xs s = Some s' \<and> ok s' \<and> entries s' = entries s ++ map_of (rev (map snd xs))"
proof (induction xs s rule: ins_all.induct)
  case (2 a k v xs s)
  then obtain s1 where s1: "ins a k v s = Some s1" "ok s1" "entries s1 = (entries s)(k \<mapsto> v)"
    using ins[of s a k v] by auto
  have "free s1 b" if "b \<in> fst ` set xs" for b
    using ins_free[OF s1(1)] "2.prems"(2,3) that by (metis distinct.simps(2) fst_conv image_insert insertCI list.simps(15) list.set_map list.simps(9))
  then obtain s' where "ins_all xs s1 = Some s'" "ok s'" "entries s' = entries s1 ++ map_of (rev (map snd xs))"
    using "2.IH"[of s1] "2.prems"(2) s1(1,2) by auto
  then show ?case using s1 by simp
qed simp

end

fun insert_all :: "(nat \<times> 'k::linorder \<times> 'v) list \<Rightarrow> ('k, 'v) BinarySearchTree \<Rightarrow> ('k, 'v) BinarySearchTree option" where
  "insert_all [] s = Some s"
| "insert_all ((a, k, v) # xs) s = Option.bind (InsertItem a k v s) (insert_all xs)"

interpretation bst: item_map "\<lambda>s. \<exists>t. bst_ok s t" content "\<lambda>s a. nodes s a = None" InsertItem
proof
  fix s :: "('k::linorder, 'v) BinarySearchTree" and a k v
  assume "\<exists>t. bst_ok s t" "nodes s a = None"
  then obtain t where t: "bst_ok s t" by blast
  obtain s' where s': "InsertItem a k v s = Some s'" "bst_ok s' (insert_tree a k v t)"
    using InsertItem_ok[OF t \<open>nodes s a = None\<close>, of k v] by blast
  have "content s' = (content s)(k \<mapsto> v)" by (rule content_insert[OF t s'(2)])
  with s' show "\<exists>s'. InsertItem a k v s = Some s' \<and> (\<exists>t. bst_ok s' t) \<and> content s' = (content s)(k \<mapsto> v)" by blast
qed (rule InsertItem_free)

lemma ins_all_insert_all: "bst.ins_all xs s = insert_all xs s"
proof (induction xs arbitrary: s)
  case (Cons x xs)
  then have "bst.ins_all xs = insert_all xs" by (rule ext)
  then show ?case by (cases x) simp
qed simp

subsection \<open>The traversal in order\<close>

definition GetRoot :: "('k, 'v) BinarySearchTree \<Rightarrow> ptr option" where
  "GetRoot s = map_option m_left (nodes s (m_root s))"

lemma sorted_keys:
  assumes "ordered t"
  shows "sorted_list_of_set (dom (map_of (items t))) = map fst (items t)"
proof -
  have "sorted_list_of_set (set (map fst (items t))) = map fst (items t)"
    using assms unfolding ordered_def
    by (metis sorted_list_of_set.idem_if_sorted_distinct strict_sorted_iff)
  then show ?thesis by (simp add: dom_map_of_conv_image_fst)
qed

lemma values_in_order:
  assumes "ordered t"
  shows "map snd (items t) = map (the \<circ> map_of (items t)) (sorted_list_of_set (dom (map_of (items t))))"
  unfolding sorted_keys[OF assms] using distinct_keys[OF assms] by (auto simp: map_of_is_SomeI)

lemma InOrder_sorted:
  assumes "bst_ok s t"
  shows "Option.bind (GetRoot s) (InOrder (nodes s)) =
    Some (map (the \<circ> content s) (sorted_list_of_set (dom (content s))))"
  unfolding content_items[OF assms] using assms values_in_order[of t]
  by (elim bst_okD) (simp add: GetRoot_def InOrder_tree)

subsection \<open>Copies and destruction of whole trees\<close>

text \<open>The copy constructor; both trees are in the same memory.\<close>

definition bst_copy :: "nat \<Rightarrow> 'k \<Rightarrow> 'v \<Rightarrow> nat list \<Rightarrow> ('k, 'v) BinarySearchTree \<Rightarrow> (('k, 'v) BinarySearchTree \<times> nat list) option" where
  "bst_copy a k0 v0 as other = (let h = (nodes other)(a \<mapsto> CreateNode k0 v0) in do {
     ro \<leftarrow> load h (Some (m_root other));
     (h', as') \<leftarrow> (if m_left ro \<noteq> None then do {
                     (p, h1, as1) \<leftarrow> copySubTree as h (m_left ro);
                     h2 \<leftarrow> store h1 (Some a) (\<lambda>n. n\<lparr>m_left := p\<rparr>);
                     Some (h2, as1)
                   } else Some (h, as));
     Some (\<lparr>nodes = h', m_root = a\<rparr>, as')
   })"

definition bst_destroy :: "('k, 'v) BinarySearchTree \<Rightarrow> ('k, 'v) nodes option" where
  "bst_destroy s = deleteSubTree (nodes s) (Some (m_root s))"

lemma bst_copy_tree:
  assumes ok: "bst_ok s t" and new: "distinct (a # as)" "length as = size t" "\<forall>b \<in> set (a # as). nodes s b = None"
  shows "\<exists>h t'. bst_copy a k0 v0 as s = Some (\<lparr>nodes = h, m_root = a\<rparr>, []) \<and>
    h a = Some \<lparr>m_key = k0, m_value = v0, m_left = ptr_of t', m_right = None, m_parent = None\<rparr> \<and> tree_at h None t' \<and>
    set (addrs t') = set as \<and> distinct (addrs t') \<and> items t' = items t \<and> (\<forall>b. b \<notin> set (a # as) \<longrightarrow> h b = nodes s b)"
proof -
  let ?h = "(nodes s)(a \<mapsto> CreateNode k0 v0)" and ?m = "m_root s"
  from ok obtain k1 v1 where r: "nodes s ?m = Some \<lparr>m_key = k1, m_value = v1, m_left = ptr_of t, m_right = None, m_parent = None\<rparr>"
    "tree_at (nodes s) (Some ?m) t" by (rule bst_okD)
  have ro: "load ?h (Some ?m) = nodes s ?m" using r(1) new(3) by (auto simp: load_def)
  have "a \<notin> set (addrs t)" using tree_at_live[OF r(2), of a] new(3) by auto
  then have T: "tree_at ?h (Some ?m) t" by (rule tree_at_upd[OF r(2)])
  have "distinct as" "\<forall>b \<in> set as. ?h b = None" using new(1,3) by auto
  from copySubTree_tree[OF T this(1) new(2) this(2), of "[]"] obtain t' h1 where
    c: "copySubTree as ?h (ptr_of t) = Some (ptr_of t', h1, [])" "tree_at h1 None t'" "set (addrs t') = set as"
      "distinct (addrs t')" "items t' = items t" "\<forall>b. b \<notin> set as \<longrightarrow> h1 b = ?h b" unfolding append_Nil2 by blast
  have a: "a \<notin> set as" "h1 a = Some (CreateNode k0 v0)" using new(1) c(6) by auto
  let ?h2 = "h1(a \<mapsto> (CreateNode k0 v0)\<lparr>m_left := ptr_of t'\<rparr>)"
  have st: "store h1 (Some a) (\<lambda>n. n\<lparr>m_left := ptr_of t'\<rparr>) = Some ?h2" using a(2) by (simp add: store_def)
  have "bst_copy a k0 v0 as s = Some (\<lparr>nodes = ?h2, m_root = a\<rparr>, [])"
  proof (cases t)
    case Leaf
    then have e: "t' = Leaf" "h1 = ?h" using c(1,5) by (auto simp: copySubTree_None)
    have "(CreateNode k0 v0)\<lparr>m_left := None\<rparr> = CreateNode k0 v0" by (simp add: CreateNode_def)
    then show ?thesis using Leaf e new(2) by (simp add: bst_copy_def Let_def ro r(1))
  next
    case (Node l x r')
    then show ?thesis using c(1) st by (simp add: bst_copy_def Let_def ro r(1))
  qed
  moreover have "tree_at ?h2 None t'" by (rule tree_at_upd[OF c(2)]) (use a(1) c(3) in simp)
  moreover have "?h2 a = Some \<lparr>m_key = k0, m_value = v0, m_left = ptr_of t', m_right = None, m_parent = None\<rparr>"
    by (simp add: CreateNode_def)
  moreover have "\<forall>b. b \<notin> set (a # as) \<longrightarrow> ?h2 b = nodes s b" using c(6) by simp
  ultimately show ?thesis using c(3,4,5) by blast
qed

lemma delete_topmost_orphan:
  assumes "nodes c (m_root c) = Some n" "m_left n = ptr_of (Node l (b, k, v) r)" "tree_at (nodes c) None (Node l (b, k, v) r)"
  shows "DeleteItem k c = None"
proof -
  have w: "walk (nodes c) k (Some b) None = Some (Some b, Some b)" using walk_place[OF assms(3), of k None] by simp
  have b: "nodes c b = Some \<lparr>m_key = k, m_value = v, m_left = ptr_of l, m_right = ptr_of r, m_parent = None\<rparr>"
    using assms(3) by simp
  have rel: "relink h None q q' = None" for h :: "('k, 'v) nodes" and q q' by (simp add: relink_def store_def)
  show ?thesis
    using assms(1,2) w b by (auto simp: DeleteItem_def load_def rel delete_two_def Let_def split: bind_splits)
qed

subsection \<open>The tree is a map\<close>

lemma bst_new_ok: "bst_ok (bst_new a k0 v0) Leaf"
  by (simp add: bst_ok_def bst_new_def CreateNode_def ordered_def)

lemma insert_all_ok:
  assumes "distinct (map fst xs)" "\<exists>t. bst_ok s t" "\<forall>a \<in> fst ` set xs. nodes s a = None"
  shows "\<exists>s'. insert_all xs s = Some s' \<and> (\<exists>t. bst_ok s' t) \<and> content s' = content s ++ map_of (rev (map snd xs))"
  using bst.ins_all_entries[OF assms(2,1,3)] unfolding ins_all_insert_all .

text \<open>
  C19. A tree into which items are inserted holds for each key the last value, and visits the values in the order of the keys.\<close>

theorem bst_build:
  assumes "distinct (a # map fst xs)"
  shows "\<exists>s. insert_all xs (bst_new a k0 v0) = Some s \<and> content s = map_of (rev (map snd xs)) \<and>
    Option.bind (GetRoot s) (InOrder (nodes s)) = Some (map (the \<circ> content s) (sorted_list_of_set (fst ` snd ` set xs)))"
proof -
  have n: "\<forall>b \<in> fst ` set xs. nodes (bst_new a k0 v0) b = None" using assms by (auto simp: bst_new_def)
  have e: "content (bst_new a k0 v0) = Map.empty" using content_items[OF bst_new_ok, of a k0 v0] by simp
  obtain s t where s: "insert_all xs (bst_new a k0 v0) = Some s" "bst_ok s t" "content s = map_of (rev (map snd xs))"
    using insert_all_ok[of xs "bst_new a k0 v0"] assms n bst_new_ok[of a k0 v0] by (auto simp: e)
  then show ?thesis using InOrder_sorted[OF s(2)] by (simp add: dom_map_of_conv_image_fst)
qed

theorem bst_build_witness:
  "\<exists>s. insert_all [(1, 10 :: nat, 100), (2, 5, 50), (3, 10, 7)] (bst_new 0 0 0) = Some s \<and>
     content s = [5 \<mapsto> 50, 10 \<mapsto> 7] \<and> Option.bind (GetRoot s) (InOrder (nodes s)) = Some [50, 7 :: nat]"
proof -
  have "sorted_list_of_set (set [5, 10 :: nat]) = [5, 10]" by (rule sorted_list_of_set.idem_if_sorted_distinct) simp_all
  then have "sorted_list_of_set {10, 5, 10 :: nat} = [5, 10]" by (simp add: insert_commute)
  then show ?thesis using bst_build[of 0 "[(1, 10 :: nat, 100), (2, 5, 50), (3, 10, 7)]" 0 "0 :: nat"] by (auto simp: fun_upd_twist simp del: sorted_list_of_set_insert_remove)
qed

text \<open>
  C20. A deletion removes the key and nothing else, and leaves a well-formed tree unless the parent pointer of the moved node is set to the root node wrongly.\<close>

theorem bst_delete:
  assumes "bst_ok s t" "\<not> misparented True k t"
  shows "\<exists>s' t'. DeleteItem k s = Some s' \<and> bst_ok s' t' \<and> content s' = (content s)(k := None)"
proof (cases "k \<in> fst ` set (items t)")
  case True
  from DeleteItem_ok[OF assms(1) this] obtain s' t' where
    s': "DeleteItem k s = Some s'" "set (items t') = {y \<in> set (items t). fst y \<noteq> k}" "bst_ok s' t'"
    using assms(2) by auto
  show ?thesis using s' content_remove[OF assms(1) s'(3,2)] by blast
next
  case False
  have "content s k = None" using False by (simp add: content_items[OF assms(1)] map_of_eq_None_iff)
  then have "(content s)(k := None) = content s" by (simp add: fun_upd_idem_iff)
  then show ?thesis using DeleteItem_absent[OF assms(1) False] assms(1) by auto
qed

definition sample_tree :: "(nat, nat) item_tree" where
  "sample_tree = Node (Node (Node Leaf (3, 2, 20) (Node Leaf (6, 3, 30) Leaf)) (2, 5, 50) (Node Leaf (4, 8, 80) Leaf))
     (1, 10, 100) (Node Leaf (7, 20, 200) Leaf)"

definition sample_memory :: "(nat, nat) BinarySearchTree" where
  "sample_memory = \<lparr>nodes = [
     0 \<mapsto> \<lparr>m_key = 0, m_value = 0, m_left = Some 1, m_right = None, m_parent = None\<rparr>,
     1 \<mapsto> \<lparr>m_key = 10, m_value = 100, m_left = Some 2, m_right = Some 7, m_parent = Some 0\<rparr>,
     2 \<mapsto> \<lparr>m_key = 5, m_value = 50, m_left = Some 3, m_right = Some 4, m_parent = Some 1\<rparr>,
     3 \<mapsto> \<lparr>m_key = 2, m_value = 20, m_left = None, m_right = Some 6, m_parent = Some 2\<rparr>,
     4 \<mapsto> \<lparr>m_key = 8, m_value = 80, m_left = None, m_right = None, m_parent = Some 2\<rparr>,
     6 \<mapsto> \<lparr>m_key = 3, m_value = 30, m_left = None, m_right = None, m_parent = Some 3\<rparr>,
     7 \<mapsto> \<lparr>m_key = 20, m_value = 200, m_left = None, m_right = None, m_parent = Some 1\<rparr>], m_root = 0\<rparr>"

lemma sample_ok: "bst_ok sample_memory sample_tree"
  by (simp add: bst_ok_def sample_memory_def sample_tree_def ordered_def)

theorem bst_delete_witness:
  "\<exists>s' t'. DeleteItem 10 sample_memory = Some s' \<and> bst_ok s' t' \<and> content s' = (content sample_memory)(10 := None)"
  using bst_delete[OF sample_ok, of 10] by (simp add: sample_tree_def)

text \<open>
  C21. Deleting a node that is not the topmost, and whose left child has a right child, leaves the node that takes its place with the root node as its parent, although it hangs below another node.\<close>

theorem bst_delete_misparents:
  assumes "bst_ok s t" "misparented True k t" "k \<in> dom (content s)"
  shows "\<exists>s' t' x n p. DeleteItem k s = Some s' \<and> set (items t') = {y \<in> set (items t). fst y \<noteq> k} \<and>
    nodes s' x = Some n \<and> m_parent n = Some (m_root s) \<and> p \<noteq> m_root s \<and>
    bst_ok (s'\<lparr>nodes := (nodes s')(x \<mapsto> n\<lparr>m_parent := Some p\<rparr>)\<rparr>) t'"
proof -
  have "k \<in> fst ` set (items t)" using assms(3) by (simp add: content_items[OF assms(1)] dom_map_of_conv_image_fst)
  from DeleteItem_ok[OF assms(1) this] show ?thesis unfolding if_P[OF assms(2)] by blast
qed

theorem bst_delete_misparents_witness:
  "\<exists>s' t' x n p. DeleteItem 5 sample_memory = Some s' \<and> set (items t') = {y \<in> set (items sample_tree). fst y \<noteq> 5} \<and>
    nodes s' x = Some n \<and> m_parent n = Some (m_root sample_memory) \<and> p \<noteq> m_root sample_memory \<and>
    bst_ok (s'\<lparr>nodes := (nodes s')(x \<mapsto> n\<lparr>m_parent := Some p\<rparr>)\<rparr>) t'"
proof (rule bst_delete_misparents[OF sample_ok])
  show "misparented True 5 sample_tree" by (simp add: sample_tree_def)
  show "5 \<in> dom (content sample_memory)" unfolding content_items[OF sample_ok] by (simp add: sample_tree_def)
qed

text \<open>
  What follows from it: of seven items the keys 5 and 3 are deleted; the search for 3 then follows a pointer to the
  node that was freed.
\<close>

lemma bst_use_after_free:
  "(insert_all [(1, 10, 0), (2, 5, 0), (3, 2, 0), (4, 8, 0), (5, 1, 0), (6, 3, 0), (7, 20, 0)] (bst_new 0 0 0) \<bind>
      DeleteItem (5 :: nat) \<bind> DeleteItem 3) \<noteq> (None :: (nat, nat) BinarySearchTree option)"
  "(insert_all [(1, 10, 0), (2, 5, 0), (3, 2, 0), (4, 8, 0), (5, 1, 0), (6, 3, 0), (7, 20, 0)] (bst_new 0 0 (0 :: nat)) \<bind>
      DeleteItem (5 :: nat) \<bind> DeleteItem 3 \<bind> Find 3) = None"
  by code_simp+

text \<open>
  C22. A copy has the entries of the original, both can be searched, and its destruction gives back the memory as it was; but the topmost node of a copy has no parent, so deleting its key follows a null pointer.\<close>

theorem bst_copy_deletes_null:
  assumes "bst_ok s t" "t \<noteq> Leaf" "distinct (a # as)" "length as = size t" "\<forall>b \<in> set (a # as). nodes s b = None"
  shows "\<exists>c k. bst_copy a k0 v0 as s = Some (c, []) \<and> content c = content s \<and> content (s\<lparr>nodes := nodes c\<rparr>) = content s \<and>
    bst_destroy c = Some (nodes s) \<and> k \<in> dom (content s) \<and> DeleteItem k c = None"
proof -
  let ?m = "m_root s"
  have o: "ordered t" using assms(1) by (simp add: bst_ok_def)
  from assms(1) obtain k1 v1 where r: "nodes s ?m = Some \<lparr>m_key = k1, m_value = v1, m_left = ptr_of t, m_right = None, m_parent = None\<rparr>"
    "tree_at (nodes s) (Some ?m) t" by (rule bst_okD)
  from bst_copy_tree[OF assms(1,3-5), of k0 v0] obtain h t' where c: "bst_copy a k0 v0 as s = Some (\<lparr>nodes = h, m_root = a\<rparr>, [])"
    and ha: "h a = Some \<lparr>m_key = k0, m_value = v0, m_left = ptr_of t', m_right = None, m_parent = None\<rparr>"
    and t': "tree_at h None t'" "set (addrs t') = set as" "distinct (addrs t')" "items t' = items t"
    and h: "\<forall>b. b \<notin> set (a # as) \<longrightarrow> h b = nodes s b" by blast
  let ?c = "\<lparr>nodes = h, m_root = a\<rparr>"
  have o': "ordered t'" using o t'(4) by (simp add: ordered_def)
  have cc: "content ?c = content s"
    using content_tree[of ?c _ t' None, OF _ _ _ o'] ha t'(1,4) content_items[OF assms(1)] by simp
  have old: "b \<notin> set (a # as)" if "nodes s b \<noteq> None" for b using assms(5) that by metis
  have "tree_at h (Some ?m) t" by (rule tree_at_frame[OF r(2)]) (use h old tree_at_live[OF r(2)] in blast)
  moreover have "h ?m = nodes s ?m" using h old[of ?m] r(1) by simp
  ultimately have cs: "content (s\<lparr>nodes := h\<rparr>) = content s"
    using content_tree[of "s\<lparr>nodes := h\<rparr>" _ t "Some ?m", OF _ _ _ o] r(1) content_items[OF assms(1)] by simp
  have n: "a \<notin> set (addrs t')" using assms(3) t'(2) by simp
  have "bst_destroy ?c = Some (\<lambda>b. if b \<in> set (a # as) then None else h b)"
    using deleteSubTree_tree[OF t'(1,3)] n ha t'(2)
    by (simp add: bst_destroy_def deleteSubTree.simps[of h "Some a"] deleteSubTree.simps[of _ None] fun_eq_iff)
  moreover have "(\<lambda>b. if b \<in> set (a # as) then None else h b) = nodes s" using h assms(5) by auto
  ultimately have d: "bst_destroy ?c = Some (nodes s)" by simp
  have "items t' \<noteq> []" using assms(2) t'(4) by (cases t) auto
  then obtain l b k v r' where N: "t' = Node l (b, k, v) r'" by (cases t') auto
  have "DeleteItem k ?c = None" by (rule delete_topmost_orphan) (use ha t'(1) in \<open>auto simp: N\<close>)
  moreover have "k \<in> dom (content s)"
    unfolding content_items[OF assms(1)] t'(4)[symmetric] dom_map_of_conv_image_fst by (simp add: N)
  ultimately show ?thesis using c cc cs d by (intro exI[of _ ?c] exI[of _ k]) simp
qed

theorem bst_copy_deletes_null_witness:
  "\<exists>c k. bst_copy 10 0 0 [11, 12, 13, 14, 15, 16] sample_memory = Some (c, []) \<and> content c = content sample_memory \<and>
    content (sample_memory\<lparr>nodes := nodes c\<rparr>) = content sample_memory \<and>
    bst_destroy c = Some (nodes sample_memory) \<and> k \<in> dom (content sample_memory) \<and> DeleteItem k c = None"
  by (rule bst_copy_deletes_null[OF sample_ok]) (simp_all add: sample_tree_def sample_memory_def)

end
