(* ===== verification/Segment_Tree.thy ===== *)
theory Segment_Tree
  imports Ak_Prelude "HOL-Library.Monad_Syntax"
begin

text \<open>
  The segment tree \<open>acm-lib/segment_tree\<close>: nodes in a static array, a node for an interval, and in each node the
  number of inserted intervals that are split into it.

  A pointer is an index of the array \<open>tree\<close> or \<open>None\<close>; \<open>None\<close> as a result is an access outside the array or
  through a null pointer, a recursion that does not end, or an addition that leaves the range of \<open>int\<close>, which C
  leaves undefined.
\<close>

record LS =
  nl :: int
  nr :: int
  cover :: int
  left_of :: "nat option"
  right_of :: "nat option"

record segs =
  tree :: "LS list"
  total :: nat

definition in_int :: "int \<Rightarrow> int option" where
  "in_int x = (if - 2147483648 \<le> x \<and> x < 2147483648 then Some x else None)"

definition half :: "int \<Rightarrow> int \<Rightarrow> int" where
  "half l r = (l + r) sdiv 2"

definition mid_of :: "int \<Rightarrow> int \<Rightarrow> int option" where
  "mid_of l r = (if in_int (l + r) = None then None else Some (half l r))"

definition node :: "LS list \<Rightarrow> nat option \<Rightarrow> LS option" where
  "node h p = (case p of None \<Rightarrow> None | Some i \<Rightarrow> if i < length h then Some (h ! i) else None)"

definition modify :: "LS list \<Rightarrow> nat option \<Rightarrow> (LS \<Rightarrow> LS) \<Rightarrow> LS list option" where
  "modify h p f = (case p of None \<Rightarrow> None | Some i \<Rightarrow> if i < length h then Some (h[i := f (h ! i)]) else None)"

partial_function (option) Create :: "nat option \<Rightarrow> int \<Rightarrow> int \<Rightarrow> segs \<Rightarrow> segs option" where
  "Create this l r s = do {
     h \<leftarrow> modify (tree s) this (\<lambda>n. n\<lparr>nl := l, nr := r\<rparr>);
     l1 \<leftarrow> in_int (l + 1);
     if l1 = r then do {
       h1 \<leftarrow> modify h this (\<lambda>n. n\<lparr>left_of := None, right_of := None\<rparr>);
       Some (s\<lparr>tree := h1\<rparr>)
     } else do {
       mid \<leftarrow> mid_of l r;
       h1 \<leftarrow> modify h this (\<lambda>n. n\<lparr>left_of := Some (total s), right_of := Some (total s + 1)\<rparr>);
       n \<leftarrow> node h1 this;
       s1 \<leftarrow> Create (left_of n) l mid (s\<lparr>tree := h1, total := total s + 2\<rparr>);
       n1 \<leftarrow> node (tree s1) this;
       Create (right_of n1) mid r s1
     }
   }"

text \<open>\<open>Insert\<close> and \<open>Delete\<close> are the same walk with \<open>++cover\<close> and \<open>--cover\<close>.\<close>

partial_function (option) add_cover :: "int \<Rightarrow> nat option \<Rightarrow> int \<Rightarrow> int \<Rightarrow> LS list \<Rightarrow> LS list option" where
  "add_cover k this l r h = do {
     n \<leftarrow> node h this;
     if l = nl n \<and> nr n = r then do {
       c \<leftarrow> in_int (cover n + k);
       modify h this (\<lambda>n. n\<lparr>cover := c\<rparr>)
     }
     else if left_of n = None \<and> right_of n = None then Some h
     else do {
       mid \<leftarrow> mid_of (nl n) (nr n);
       if r \<le> mid then add_cover k (left_of n) l r h
       else if mid \<le> l then add_cover k (right_of n) l r h
       else do {
         h1 \<leftarrow> add_cover k (left_of n) l mid h;
         n1 \<leftarrow> node h1 this;
         add_cover k (right_of n1) mid r h1
       }
     }
   }"

definition Insert :: "nat option \<Rightarrow> int \<Rightarrow> int \<Rightarrow> segs \<Rightarrow> segs option" where
  "Insert this l r s = map_option (\<lambda>h. s\<lparr>tree := h\<rparr>) (add_cover 1 this l r (tree s))"

definition Delete :: "nat option \<Rightarrow> int \<Rightarrow> int \<Rightarrow> segs \<Rightarrow> segs option" where
  "Delete this l r s = map_option (\<lambda>h. s\<lparr>tree := h\<rparr>) (add_cover (- 1) this l r (tree s))"

declare Create.simps [code] add_cover.simps [code]

lemma half_between: "l + 1 < r \<Longrightarrow> l < half l r \<and> half l r < r"
  unfolding half_def signed_divide_int_def by (cases "l + r" "0 :: int" rule: linorder_cases) (simp_all, presburger+)

lemma mid_of_half: "- 1073741824 \<le> l \<Longrightarrow> l < r \<Longrightarrow> r \<le> 1073741824 \<Longrightarrow> mid_of l r = Some (half l r)"
  by (simp add: mid_of_def in_int_def)

lemma in_int_room: "\<bar>c\<bar> \<le> n \<Longrightarrow> \<bar>k\<bar> \<le> 1 \<Longrightarrow> n + 1 < 2147483648 \<Longrightarrow> in_int (c + k) = Some (c + k)"
  by (auto simp: in_int_def)

subsection \<open>The tree in the array\<close>

datatype seg = Tip nat int | Fork nat int seg seg

fun adr :: "seg \<Rightarrow> nat" where
  "adr (Tip i c) = i"
| "adr (Fork i c t u) = i"

fun adrs :: "seg \<Rightarrow> nat set" where
  "adrs (Tip i c) = {i}"
| "adrs (Fork i c t u) = insert i (adrs t \<union> adrs u)"

fun seg_at :: "LS list \<Rightarrow> int \<Rightarrow> int \<Rightarrow> seg \<Rightarrow> bool" where
  "seg_at h a b (Tip i c) \<longleftrightarrow> a + 1 = b \<and> i < length h \<and>
     h ! i = \<lparr>nl = a, nr = b, cover = c, left_of = None, right_of = None\<rparr>"
| "seg_at h a b (Fork i c t u) \<longleftrightarrow> a + 1 < b \<and> i < length h \<and>
     h ! i = \<lparr>nl = a, nr = b, cover = c, left_of = Some (adr t), right_of = Some (adr u)\<rparr> \<and>
     i \<notin> adrs t \<and> i \<notin> adrs u \<and> adrs t \<inter> adrs u = {} \<and> seg_at h a (half a b) t \<and> seg_at h (half a b) b u"

lemma adr_in [simp]: "adr t \<in> adrs t"
  by (cases t) simp_all

lemma seg_at_frame: "seg_at h a b t \<Longrightarrow> length h' = length h \<Longrightarrow> \<forall>i \<in> adrs t. h' ! i = h ! i \<Longrightarrow> seg_at h' a b t"
  by (induction h a b t rule: seg_at.induct) auto

lemma seg_at_bound: "seg_at h a b t \<Longrightarrow> i \<in> adrs t \<Longrightarrow> i < length h"
  by (induction h a b t rule: seg_at.induct) auto

text \<open>How often a point is covered: the counts on the way down to it.\<close>

fun stab :: "int \<Rightarrow> int \<Rightarrow> seg \<Rightarrow> int \<Rightarrow> int" where
  "stab a b (Tip i c) x = c"
| "stab a b (Fork i c t u) x = c + (if x < half a b then stab a (half a b) t x else stab (half a b) b u x)"

fun add_seg :: "int \<Rightarrow> int \<Rightarrow> int \<Rightarrow> int \<Rightarrow> int \<Rightarrow> seg \<Rightarrow> seg" where
  "add_seg k l r a b (Tip i c) = (if l = a \<and> b = r then Tip i (c + k) else Tip i c)"
| "add_seg k l r a b (Fork i c t u) =
     (if l = a \<and> b = r then Fork i (c + k) t u
      else let m = half a b in
        if r \<le> m then Fork i c (add_seg k l r a m t) u
        else if m \<le> l then Fork i c t (add_seg k l r m b u)
        else Fork i c (add_seg k l m a m t) (add_seg k m r m b u))"

lemma add_seg_adr [simp]: "adr (add_seg k l r a b t) = adr t" "adrs (add_seg k l r a b t) = adrs t"
  by (induction k l r a b t rule: add_seg.induct) (simp_all add: Let_def)

lemma stab_add:
  "seg_at h a b t \<Longrightarrow> a \<le> l \<Longrightarrow> l < r \<Longrightarrow> r \<le> b \<Longrightarrow> a \<le> x \<Longrightarrow> x < b \<Longrightarrow>
    stab a b (add_seg k l r a b t) x = stab a b t x + (if l \<le> x \<and> x < r then k else 0)"
proof (induction k l r a b t rule: add_seg.induct)
  case (1 k l r a b i c)
  then show ?case by auto
next
  case (2 k l r a b i c t u)
  let ?m = "half a b"
  have m: "a < ?m" "?m < b" using half_between[of a b] "2.prems"(1) by auto
  consider "l = a \<and> b = r" | "\<not> (l = a \<and> b = r)" "r \<le> ?m" | "\<not> (l = a \<and> b = r)" "\<not> r \<le> ?m" "?m \<le> l"
    | "\<not> (l = a \<and> b = r)" "\<not> r \<le> ?m" "\<not> ?m \<le> l" by blast
  then show ?case
  proof cases
    case 1
    then show ?thesis using "2.prems" by simp
  next
    case 2
    then show ?thesis using "2.IH"(1)[OF 2(1) refl 2(2)] "2.prems" m by auto
  next
    case 3
    then show ?thesis using "2.IH"(2)[OF 3(1) refl 3(2,3)] "2.prems" m by auto
  next
    case 4
    then show ?thesis using "2.IH"(3,4)[OF 4(1) refl 4(2,3)] "2.prems" m by (auto simp: Let_def)
  qed
qed

text \<open>No count is farther from 0 than the number of changes.\<close>

fun room :: "int \<Rightarrow> seg \<Rightarrow> bool" where
  "room n (Tip i c) \<longleftrightarrow> \<bar>c\<bar> \<le> n"
| "room n (Fork i c t u) \<longleftrightarrow> \<bar>c\<bar> \<le> n \<and> room n t \<and> room n u"

lemma room_Suc: "room n t \<Longrightarrow> room (n + 1) t"
  by (induction n t rule: room.induct) auto

lemma add_seg_room: "room n t \<Longrightarrow> \<bar>k\<bar> \<le> 1 \<Longrightarrow> room (n + 1) (add_seg k l r a b t)"
proof (induction k l r a b t rule: add_seg.induct)
  case (1 k l r a b i c)
  then show ?case by auto
next
  case (2 k l r a b i c t u)
  have "room (n + 1) t" "room (n + 1) u" using "2.prems"(1) by (simp_all add: room_Suc)
  then show ?case using 2 by (auto simp: Let_def)
qed

lemma modify_Some: "i < length h \<Longrightarrow> modify h (Some i) f = Some (h[i := f (h ! i)])"
  by (simp add: modify_def)

lemma node_Some: "i < length h \<Longrightarrow> node h (Some i) = Some (h ! i)"
  by (simp add: node_def)

lemma add_cover_tree:
  assumes "seg_at h a b t" "- 1073741824 \<le> a" "b \<le> 1073741824" "room w t" "\<bar>k\<bar> \<le> 1" "w + 1 < 2147483648"
  shows "\<exists>h'. add_cover k (Some (adr t)) l r h = Some h' \<and> seg_at h' a b (add_seg k l r a b t) \<and>
    length h' = length h \<and> (\<forall>i. i \<notin> adrs t \<longrightarrow> h' ! i = h ! i)"
  using assms
proof (induction k l r a b t arbitrary: h rule: add_seg.induct)
  case (1 k l r a b i c)
  then have c: "in_int (c + k) = Some (c + k)" by (intro in_int_room) auto
  from 1 have n: "node h (Some i) = Some \<lparr>nl = a, nr = b, cover = c, left_of = None, right_of = None\<rparr>" "i < length h"
    by (simp_all add: node_def)
  show ?case using 1 n c by (subst add_cover.simps) (auto simp: modify_def)
next
  case (2 k l r a b i c t u)
  let ?m = "half a b"
  let ?n = "\<lparr>nl = a, nr = b, cover = c, left_of = Some (adr t), right_of = Some (adr u)\<rparr>"
  have n: "node h (Some i) = Some ?n" and i: "i < length h" "h ! i = ?n" using "2.prems" by (simp_all add: node_def)
  have m: "a < ?m" "?m < b" using half_between[of a b] "2.prems"(1) by auto
  have R: "- 1073741824 \<le> a" "?m \<le> 1073741824" "room w t" "\<bar>k\<bar> \<le> 1" "w + 1 < 2147483648"
    "- 1073741824 \<le> ?m" "b \<le> 1073741824" "room w u" using m "2.prems"(2-6) by simp_all
  have M: "mid_of a b = Some ?m" using mid_of_half[OF R(1) _ R(7)] m by simp
  have T: "seg_at h a ?m t" "seg_at h ?m b u" "i \<notin> adrs t" "i \<notin> adrs u" "adrs t \<inter> adrs u = {}" "a + 1 < b"
    using "2.prems" by simp_all
  consider "l = a \<and> b = r" | "\<not> (l = a \<and> b = r)" "r \<le> ?m" | "\<not> (l = a \<and> b = r)" "\<not> r \<le> ?m" "?m \<le> l"
    | "\<not> (l = a \<and> b = r)" "\<not> r \<le> ?m" "\<not> ?m \<le> l" by blast
  then show ?case
  proof cases
    case 1
    have c: "in_int (c + k) = Some (c + k)" using "2.prems" by (intro in_int_room) auto
    let ?h = "h[i := ?n\<lparr>cover := c + k\<rparr>]"
    have "seg_at ?h a ?m t" by (rule seg_at_frame[OF T(1)]) (use T(3) in \<open>auto intro!: nth_list_update_neq\<close>)
    moreover have "seg_at ?h ?m b u" by (rule seg_at_frame[OF T(2)]) (use T(4) in \<open>auto intro!: nth_list_update_neq\<close>)
    ultimately show ?thesis using 1 n i T c by (subst add_cover.simps) (simp add: modify_def)
  next
    case 2
    obtain h' where h': "add_cover k (Some (adr t)) l r h = Some h'" "seg_at h' a ?m (add_seg k l r a ?m t)"
      "length h' = length h" "\<forall>j. j \<notin> adrs t \<longrightarrow> h' ! j = h ! j" using "2.IH"(1)[OF 2(1) refl 2(2) T(1) R(1-5)] by blast
    have "seg_at h' ?m b u" by (rule seg_at_frame[OF T(2) h'(3)]) (use h'(4) T(5) in blast)
    then show ?thesis using 2 n i T h' M by (subst add_cover.simps) (auto simp: Let_def)
  next
    case 3
    obtain h' where h': "add_cover k (Some (adr u)) l r h = Some h'" "seg_at h' ?m b (add_seg k l r ?m b u)"
      "length h' = length h" "\<forall>j. j \<notin> adrs u \<longrightarrow> h' ! j = h ! j" using "2.IH"(2)[OF 3(1) refl 3(2,3) T(2) R(6-8,4,5)] by blast
    have "seg_at h' a ?m t" by (rule seg_at_frame[OF T(1) h'(3)]) (use h'(4) T(5) in blast)
    then show ?thesis using 3 n i T h' M by (subst add_cover.simps) (auto simp: Let_def)
  next
    case 4
    obtain h1 where h1: "add_cover k (Some (adr t)) l ?m h = Some h1" "seg_at h1 a ?m (add_seg k l ?m a ?m t)"
      "length h1 = length h" "\<forall>j. j \<notin> adrs t \<longrightarrow> h1 ! j = h ! j" using "2.IH"(3)[OF 4(1) refl 4(2,3) T(1) R(1-5)] by blast
    have u1: "seg_at h1 ?m b u" by (rule seg_at_frame[OF T(2) h1(3)]) (use h1(4) T(5) in blast)
    obtain h' where h': "add_cover k (Some (adr u)) ?m r h1 = Some h'" "seg_at h' ?m b (add_seg k ?m r ?m b u)"
      "length h' = length h1" "\<forall>j. j \<notin> adrs u \<longrightarrow> h' ! j = h1 ! j" using "2.IH"(4)[OF 4(1) refl 4(2,3) u1 R(6-8,4,5)] by blast
    have "seg_at h' a ?m (add_seg k l ?m a ?m t)" by (rule seg_at_frame[OF h1(2) h'(3)]) (use h'(4) T(5) in auto)
    moreover have "node h1 (Some i) = Some ?n" using i h1(3,4) T(3) by (simp add: node_def)
    moreover have "h' ! i = ?n" using i(2) h1(4) h'(4) T(3,4) by simp
    ultimately show ?thesis using 4 n i T h1 h' M by (subst add_cover.simps) (auto simp: Let_def)
  qed
qed

text \<open>An interval of \<open>n\<close> points takes two new nodes for each but one.\<close>

lemma Create_tree:
  assumes "l < r" "- 1073741824 \<le> l" "r \<le> 1073741824" "this < total s" "total s + 2 * nat (r - l - 1) \<le> length (tree s)"
  shows "\<exists>s' t. Create (Some this) l r s = Some s' \<and> seg_at (tree s') l r t \<and> adr t = this \<and>
    adrs t \<subseteq> insert this {total s..<total s'} \<and> total s' = total s + 2 * nat (r - l - 1) \<and>
    length (tree s') = length (tree s) \<and>
    (\<forall>i. i \<noteq> this \<longrightarrow> \<not> (total s \<le> i \<and> i < total s') \<longrightarrow> tree s' ! i = tree s ! i) \<and>
    (\<forall>i. cover (tree s' ! i) = cover (tree s ! i))"
  using assms
proof (induction "nat (r - l)" arbitrary: l r this s rule: less_induct)
  case less
  have i: "this < length (tree s)" using less.prems by linarith
  have l1: "in_int (l + 1) = Some (l + 1)" using less.prems(1-3) unfolding in_int_def by simp
  show ?case
  proof (cases "l + 1 = r")
    case True
    let ?n = "(tree s ! this)\<lparr>nl := l, nr := r, left_of := None, right_of := None\<rparr>"
    have "?n = \<lparr>nl = l, nr = r, cover = cover (tree s ! this), left_of = None, right_of = None\<rparr>" by simp
    then have "seg_at ((tree s)[this := ?n]) l r (Tip this (cover (tree s ! this)))" using True i by simp
    moreover have "Create (Some this) l r s = Some (s\<lparr>tree := (tree s)[this := ?n]\<rparr>)"
      using True i l1 by (subst Create.simps) (simp add: modify_def)
    ultimately show ?thesis using True i
      by (intro exI[of _ "s\<lparr>tree := (tree s)[this := ?n]\<rparr>"] exI[of _ "Tip this (cover (tree s ! this))"])
        (auto simp: nth_list_update)
  next
    case False
    let ?m = "half l r" and ?c = "cover (tree s ! this)"
    let ?n = "\<lparr>nl = l, nr = r, cover = ?c, left_of = Some (total s), right_of = Some (total s + 1)\<rparr>"
    have m: "l < ?m" "?m < r" using half_between[of l r] False less.prems(1) by auto
    have M: "mid_of l r = Some ?m" using mid_of_half[of l r] less.prems(1-3) by simp
    have b: "- 1073741824 \<le> l" "?m \<le> 1073741824" "- 1073741824 \<le> ?m" "r \<le> 1073741824"
      using m less.prems(1-3) by simp_all
    let ?s1 = "s\<lparr>tree := (tree s)[this := ?n], total := total s + 2\<rparr>"
    have sz: "nat (r - l - 1) = Suc (nat (?m - l - 1) + nat (r - ?m - 1))" using m by linarith
    have "nat (?m - l) < nat (r - l)" "l < ?m" "- 1073741824 \<le> l" "?m \<le> 1073741824" "total s < total ?s1" "total ?s1 + 2 * nat (?m - l - 1) \<le> length (tree ?s1)"
      using m b less.prems(5) unfolding sz by simp_all
    from less.hyps[OF this] obtain s2 t where s2: "Create (Some (total s)) l ?m ?s1 = Some s2" "seg_at (tree s2) l ?m t" "adr t = total s"
      "adrs t \<subseteq> insert (total s) {total ?s1..<total s2}" "total s2 = total ?s1 + 2 * nat (?m - l - 1)"
      "length (tree s2) = length (tree ?s1)"
      "\<forall>i. i \<noteq> total s \<longrightarrow> \<not> (total ?s1 \<le> i \<and> i < total s2) \<longrightarrow> tree s2 ! i = tree ?s1 ! i"
      "\<forall>i. cover (tree s2 ! i) = cover (tree ?s1 ! i)" by blast
    have "nat (r - ?m) < nat (r - l)" "?m < r" "- 1073741824 \<le> ?m" "r \<le> 1073741824" "total s + 1 < total s2" "total s2 + 2 * nat (r - ?m - 1) \<le> length (tree s2)"
      using m b less.prems(5) s2(5,6) unfolding sz by simp_all
    from less.hyps[OF this] obtain s3 u where s3: "Create (Some (total s + 1)) ?m r s2 = Some s3" "seg_at (tree s3) ?m r u" "adr u = total s + 1"
      "adrs u \<subseteq> insert (total s + 1) {total s2..<total s3}" "total s3 = total s2 + 2 * nat (r - ?m - 1)"
      "length (tree s3) = length (tree s2)"
      "\<forall>i. i \<noteq> total s + 1 \<longrightarrow> \<not> (total s2 \<le> i \<and> i < total s3) \<longrightarrow> tree s3 ! i = tree s2 ! i"
      "\<forall>i. cover (tree s3 ! i) = cover (tree s2 ! i)" by blast
    have n2: "tree s2 ! this = ?n" using s2(7) i less.prems(4) by simp
    have n3: "tree s3 ! this = ?n" using s3(7) n2 less.prems(4) s2(5) by simp
    have tin: "x = total s \<or> total s + 2 \<le> x \<and> x < total s2" if "x \<in> adrs t" for x using s2(4) that by auto
    have uin: "x = total s + 1 \<or> total s2 \<le> x" if "x \<in> adrs u" for x using s3(4) that by auto
    have "x \<notin> adrs u" if "x \<in> adrs t" for x using tin[OF that] uin[of x] s2(5) by auto
    moreover have "this \<notin> adrs t" "this \<notin> adrs u" using tin[of this] uin[of this] less.prems(4) s2(5) by auto
    ultimately have tu: "this \<notin> adrs t" "this \<notin> adrs u" "adrs t \<inter> adrs u = {}" by blast+
    have "\<forall>j \<in> adrs t. tree s3 ! j = tree s2 ! j"
    proof
      fix j assume "j \<in> adrs t"
      then have "j \<noteq> total s + 1" "\<not> total s2 \<le> j" using tin[of j] s2(5) by auto
      then show "tree s3 ! j = tree s2 ! j" using s3(7) by blast
    qed
    then have "seg_at (tree s3) l ?m t" by (rule seg_at_frame[OF s2(2) s3(6)])
    then have "seg_at (tree s3) l r (Fork this ?c t u)"
      using n3 tu s3(2,3,6) s2(3,6) i m by simp
    moreover have e: "(tree s ! this)\<lparr>nl := l, nr := r, left_of := Some (total s), right_of := Some (Suc (total s))\<rparr> = ?n" by simp
    moreover have "Create (Some this) l r s = Some s3"
      using False i n2 s2(1,6) s3(1) l1 M by (subst Create.simps) (simp add: modify_def node_def Let_def e)
    moreover have "adrs (Fork this ?c t u) \<subseteq> insert this {total s..<total s3}"
      using s2(4,5) s3(4,5) by (auto simp: subset_iff)
    moreover have "total s3 = total s + 2 * nat (r - l - 1)" using s2(5) s3(5) unfolding sz by simp
    moreover have "tree s3 ! j = tree s ! j" if "j \<noteq> this" "\<not> (total s \<le> j \<and> j < total s3)" for j
    proof -
      have "j \<noteq> total s" "j \<noteq> total s + 1" "\<not> (total s + 2 \<le> j \<and> j < total s2)" "\<not> (total s2 \<le> j \<and> j < total s3)"
        using that(2) s2(5) s3(5) by auto
      then show ?thesis using s2(7) s3(7) that(1) by simp
    qed
    moreover have "cover (tree s3 ! j) = cover (tree s ! j)" for j
      using s2(8) s3(8) i by (cases "j = this") simp_all
    ultimately show ?thesis using s2(6) s3(6) by (intro exI[of _ s3] exI[of _ "Fork this ?c t u"]) simp
  qed
qed

subsection \<open>Intervals over a set of points\<close>

datatype seg_op = Ins int int | Del int int

fun run_op :: "seg_op \<Rightarrow> segs \<Rightarrow> segs option" where
  "run_op (Ins l r) s = Insert (Some 0) l r s"
| "run_op (Del l r) s = Delete (Some 0) l r s"

fun run_ops :: "seg_op list \<Rightarrow> segs \<Rightarrow> segs option" where
  "run_ops [] s = Some s"
| "run_ops (p # ps) s = Option.bind (run_op p s) (run_ops ps)"

fun op_ok :: "int \<Rightarrow> int \<Rightarrow> seg_op \<Rightarrow> bool" where
  "op_ok a b (Ins l r) \<longleftrightarrow> a \<le> l \<and> l < r \<and> r \<le> b"
| "op_ok a b (Del l r) \<longleftrightarrow> a \<le> l \<and> l < r \<and> r \<le> b"

fun op_count :: "int \<Rightarrow> seg_op \<Rightarrow> int" where
  "op_count x (Ins l r) = (if l \<le> x \<and> x < r then 1 else 0)"
| "op_count x (Del l r) = (if l \<le> x \<and> x < r then - 1 else 0)"

text \<open>The sum of \<open>cover\<close> on the way from a node down to the point \<open>x\<close>.\<close>

partial_function (option) covered :: "LS list \<Rightarrow> nat option \<Rightarrow> int \<Rightarrow> int option" where
  "covered h p x = do {
     n \<leftarrow> node h p;
     if left_of n = None then Some (cover n)
     else do {
       v \<leftarrow> covered h (if x < half (nl n) (nr n) then left_of n else right_of n) x;
       Some (cover n + v)
     }
   }"

declare covered.simps [code]

lemma covered_stab: "seg_at h a b t \<Longrightarrow> covered h (Some (adr t)) x = Some (stab a b t x)"
proof (induction h a b t rule: seg_at.induct)
  case (1 h a b i c)
  then show ?case by (subst covered.simps) (simp add: node_def)
next
  case (2 h a b i c t u)
  then show ?case by (subst covered.simps) (simp add: node_def)
qed

lemma run_op_ok:
  assumes "seg_at (tree s) a b t" "- 1073741824 \<le> a" "b \<le> 1073741824" "room w t" "w + 1 < 2147483648" "adr t = 0" "op_ok a b p"
  shows "\<exists>s' t'. run_op p s = Some s' \<and> seg_at (tree s') a b t' \<and> adr t' = 0 \<and> room (w + 1) t' \<and>
    (\<forall>x. a \<le> x \<and> x < b \<longrightarrow> stab a b t' x = stab a b t x + op_count x p)"
proof -
  have g: "\<exists>s'. map_option (\<lambda>h. s\<lparr>tree := h\<rparr>) (add_cover k (Some 0) l r (tree s)) = Some s' \<and>
      seg_at (tree s') a b (add_seg k l r a b t)" if "\<bar>k\<bar> \<le> 1" for k l r
    using add_cover_tree[OF assms(1-4) that assms(5), of l r] assms(6) by auto
  have st: "\<forall>x. a \<le> x \<and> x < b \<longrightarrow> stab a b (add_seg k l r a b t) x = stab a b t x + (if l \<le> x \<and> x < r then k else 0)"
    if "a \<le> l" "l < r" "r \<le> b" for k l r using stab_add[OF assms(1) that] by blast
  have rm: "room (w + 1) (add_seg 1 l r a b t)" "room (w + 1) (add_seg (- 1) l r a b t)" for l r
    using add_seg_room[OF assms(4)] by simp_all
  show ?thesis
  proof (cases p)
    case (Ins l r)
    then show ?thesis using g[of 1 l r] st[of l r 1] rm(1)[of l r] assms(6,7) add_seg_adr(1)[of 1 l r a b t]
      by (fastforce simp: Insert_def)
  next
    case (Del l r)
    then show ?thesis using g[of "- 1" l r] st[of l r "- 1"] rm(2)[of l r] assms(6,7) add_seg_adr(1)[of "- 1" l r a b t]
      by (fastforce simp: Delete_def)
  qed
qed

lemma run_ops_ok:
  assumes "seg_at (tree s) a b t" "- 1073741824 \<le> a" "b \<le> 1073741824" "room w t" "w + int (length ps) < 2147483648"
    "adr t = 0" "\<forall>p \<in> set ps. op_ok a b p"
  shows "\<exists>s' t'. run_ops ps s = Some s' \<and> seg_at (tree s') a b t' \<and> adr t' = 0 \<and>
    (\<forall>x. a \<le> x \<and> x < b \<longrightarrow> stab a b t' x = stab a b t x + sum_list (map (op_count x) ps))"
  using assms
proof (induction ps arbitrary: s t w)
  case Nil
  then show ?case by auto
next
  case (Cons p ps)
  have w: "w + 1 < 2147483648" "w + 1 + int (length ps) < 2147483648" "op_ok a b p" "\<forall>q \<in> set ps. op_ok a b q"
    using Cons.prems(5,7) by simp_all
  obtain s1 t1 where 1: "run_op p s = Some s1" "seg_at (tree s1) a b t1" "adr t1 = 0" "room (w + 1) t1"
    "\<forall>x. a \<le> x \<and> x < b \<longrightarrow> stab a b t1 x = stab a b t x + op_count x p"
    using run_op_ok[OF Cons.prems(1-4) w(1) Cons.prems(6) w(3)] by blast
  from Cons.IH[OF 1(2) Cons.prems(2,3) 1(4) w(2) 1(3) w(4)] obtain s2 t2
    where 2: "run_ops ps s1 = Some s2" "seg_at (tree s2) a b t2" "adr t2 = 0"
    "\<forall>x. a \<le> x \<and> x < b \<longrightarrow> stab a b t2 x = stab a b t1 x + sum_list (map (op_count x) ps)" by blast
  then show ?case using 1 by (intro exI[of _ s2] exI[of _ t2]) auto
qed

lemma stab_zero: "seg_at h a b t \<Longrightarrow> \<forall>i. i < length h \<longrightarrow> cover (h ! i) = 0 \<Longrightarrow> stab a b t x = 0"
  by (induction h a b t rule: seg_at.induct) (auto dest: spec)

lemma room_zero: "seg_at h a b t \<Longrightarrow> \<forall>i. i < length h \<longrightarrow> cover (h ! i) = 0 \<Longrightarrow> room 0 t"
  by (induction h a b t rule: seg_at.induct) (auto dest: spec)

text \<open>
  C26. After any insertions and deletions of intervals between \<open>a\<close> and \<open>b\<close> the counts on the way to a point add up
  to the number of insertions minus deletions of intervals around it, if the array has room for the nodes, \<open>a\<close> and \<open>b\<close>
  are no farther from 0 than \<open>2 ^ 30\<close> and there are fewer than \<open>2 ^ 31\<close> changes; no addition of the program overflows then.
\<close>

theorem segment_tree_counts:
  assumes "a < b" "- 1073741824 \<le> a" "b \<le> 1073741824" "length ps < 2147483648"
    "2 * nat (b - a) - 1 \<le> n" "\<forall>p \<in> set ps. op_ok a b p"
  shows "\<exists>s s'. Create (Some 0) a b \<lparr>tree = replicate n \<lparr>nl = 0, nr = 0, cover = 0, left_of = None, right_of = None\<rparr>, total = 1\<rparr> = Some s \<and>
    run_ops ps s = Some s' \<and> total s = 2 * nat (b - a) - 1 \<and>
    (\<forall>x. a \<le> x \<and> x < b \<longrightarrow> covered (tree s') (Some 0) x = Some (sum_list (map (op_count x) ps)))"
proof -
  let ?z = "\<lparr>nl = 0, nr = 0, cover = 0, left_of = None, right_of = None\<rparr>"
  let ?s0 = "\<lparr>tree = replicate n ?z, total = 1\<rparr>"
  have sz: "2 * nat (b - a) - 1 = 1 + 2 * nat (b - a - 1)" using assms(1) by linarith
  have "0 < total ?s0" "total ?s0 + 2 * nat (b - a - 1) \<le> length (tree ?s0)" using assms(5) sz by simp_all
  from Create_tree[OF assms(1-3) this] obtain s t where s: "Create (Some 0) a b ?s0 = Some s" "seg_at (tree s) a b t" "adr t = 0"
    "total s = total ?s0 + 2 * nat (b - a - 1)" "length (tree s) = length (tree ?s0)" "\<forall>i. cover (tree s ! i) = cover (tree ?s0 ! i)"
    by blast
  have c0: "\<forall>i. i < length (tree s) \<longrightarrow> cover (tree s ! i) = 0" using s(5,6) by simp
  have z: "stab a b t x = 0" for x by (rule stab_zero[OF s(2) c0])
  have "0 + int (length ps) < 2147483648" using assms(4) by simp
  from run_ops_ok[OF s(2) assms(2,3) room_zero[OF s(2) c0] this s(3) assms(6)] obtain s' t' where s': "run_ops ps s = Some s'" "seg_at (tree s') a b t'" "adr t' = 0"
    "\<forall>x. a \<le> x \<and> x < b \<longrightarrow> stab a b t' x = stab a b t x + sum_list (map (op_count x) ps)" by blast
  have "\<forall>x. a \<le> x \<and> x < b \<longrightarrow> covered (tree s') (Some 0) x = Some (sum_list (map (op_count x) ps))"
    using s'(4) covered_stab[OF s'(2)] z unfolding s'(3) by simp
  moreover have "total s = 2 * nat (b - a) - 1" using s(4) sz by simp
  ultimately show ?thesis using s(1) s'(1) by blast
qed

theorem segment_tree_counts_witness:
  "\<exists>s s'. Create (Some 0) 0 10 \<lparr>tree = replicate 10000 \<lparr>nl = 0, nr = 0, cover = 0, left_of = None, right_of = None\<rparr>, total = 1\<rparr> = Some s \<and>
    run_ops [Ins 4 6, Ins 1 9, Del 4 6] s = Some s' \<and> total s = 19 \<and> covered (tree s') (Some 0) 5 = Some 1"
  using segment_tree_counts[of 0 10 "[Ins 4 6, Ins 1 9, Del 4 6]" 10000] by fastforce

end
