(* ===== verification/Shortest_Paths.thy ===== *)
theory Shortest_Paths
  imports Ak_Prelude "HOL-Library.Monad_Syntax"
begin

text \<open>
  The shortest-path programs \<open>acm-lib/floyd\<close> and \<open>acm-lib/dijkstra\<close>.  A graph is a matrix of \<open>short\<close>s in which
  \<open>MAX\<close> stands for no edge; the number of vertices, 9 in the programs, is an argument.  \<open>None\<close> is a failed
  assertion or a loop that does not end.
\<close>

definition MAX_SHORT :: int where
  "MAX_SHORT = 32767"

definition s16 :: "int \<Rightarrow> int" where
  "s16 x = (x + 32768) mod 65536 - 32768"

type_synonym matrix = "nat \<Rightarrow> nat \<Rightarrow> int"

definition upd :: "matrix \<Rightarrow> nat \<Rightarrow> nat \<Rightarrow> int \<Rightarrow> matrix" where
  "upd d i j x = d(i := (d i)(j := x))"

subsection \<open>Floyd\<close>

definition relax :: "nat \<Rightarrow> nat \<Rightarrow> nat \<Rightarrow> matrix \<Rightarrow> matrix" where
  "relax k i j dest = (if dest i k + dest k j < dest i j then upd dest i j (s16 (dest i k + dest k j)) else dest)"

definition Floyd :: "matrix \<Rightarrow> matrix \<Rightarrow> nat \<Rightarrow> matrix option" where
  "Floyd dest src numOfVertice =
     (if 0 < numOfVertice then
        let copied = fold (\<lambda>i. fold (\<lambda>j dest. upd dest i j (src i j)) [0..<numOfVertice]) [0..<numOfVertice] dest
        in Some (fold (\<lambda>k. fold (\<lambda>i. fold (relax k i) [0..<numOfVertice]) [0..<numOfVertice]) [0..<numOfVertice] copied)
      else None)"

text \<open>Paths of at least one edge with their weight; what lies between the ends is below \<open>K\<close>.\<close>

inductive path :: "matrix \<Rightarrow> nat \<Rightarrow> nat \<Rightarrow> nat \<Rightarrow> nat \<Rightarrow> int \<Rightarrow> bool" for w n K where
  edge: "i < n \<Longrightarrow> j < n \<Longrightarrow> path w n K i j (w i j)"
| step: "path w n K i m c \<Longrightarrow> m < K \<Longrightarrow> j < n \<Longrightarrow> path w n K i j (c + w m j)"

lemma path_append: "path w n n k j c2 \<Longrightarrow> path w n n i k c1 \<Longrightarrow> k < n \<Longrightarrow> path w n n i j (c1 + c2)"
proof (induction rule: path.induct)
  case (edge k j)
  then show ?case by (auto intro: path.step)
next
  case (step k m c j)
  then have "path w n n i j ((c1 + c) + w m j)" by (intro path.step) auto
  then show ?case by (simp add: add.assoc)
qed

lemma path_nonneg: "path w n K i j c \<Longrightarrow> \<forall>a<n. \<forall>b<n. 0 \<le> w a b \<Longrightarrow> K \<le> n \<Longrightarrow> 0 \<le> c"
  by (induction rule: path.induct) (auto intro!: add_nonneg_nonneg)

text \<open>A path through \<open>K\<close> is at least as heavy as its part up to the first \<open>K\<close> and its part from the last.\<close>

lemma path_split:
  assumes "path w n (Suc K) i j c" "\<forall>a<n. \<forall>b<n. 0 \<le> w a b" "K < n"
  shows "path w n K i j c \<or> (\<exists>c1 c2. path w n K i K c1 \<and> path w n K K j c2 \<and> c1 + c2 \<le> c)"
  using assms(1)
proof (induction rule: path.induct)
  case (edge i j)
  then show ?case by (auto intro: path.edge)
next
  case (step i m c j)
  have last: "path w n K K j (w K j)" using step.hyps(3) assms(3) by (rule path.edge[rotated])
  consider "m < K" "path w n K i m c" | "m = K" "path w n K i m c"
    | c1 c2 where "m < K" "path w n K i K c1" "path w n K K m c2" "c1 + c2 \<le> c"
    | c1 c2 where "m = K" "path w n K i K c1" "path w n K K m c2" "c1 + c2 \<le> c"
    using step.IH step.hyps(2) less_Suc_eq by blast
  then show ?case
  proof cases
    case 1
    then show ?thesis using path.step[OF 1(2,1) step.hyps(3)] by blast
  next
    case 2
    then show ?thesis using last by blast
  next
    case 3
    have "path w n K K j (c2 + w m j)" by (rule path.step[OF 3(3,1) step.hyps(3)])
    moreover have "c1 + (c2 + w m j) \<le> c + w m j" using 3(4) by simp
    ultimately show ?thesis using 3(2) by blast
  next
    case 4
    have "0 \<le> c2" using path_nonneg[OF 4(3) assms(2)] assms(3) by simp
    then have "c1 + w K j \<le> c + w m j" using 4(1,4) by simp
    then show ?thesis using 4(2) last by blast
  qed
qed

text \<open>Every entry is the weight of a path, and none grows.\<close>

definition sound :: "matrix \<Rightarrow> nat \<Rightarrow> matrix \<Rightarrow> bool" where
  "sound w n d \<longleftrightarrow> (\<forall>i<n. \<forall>j<n. path w n n i j (d i j) \<and> d i j \<le> MAX_SHORT)"

definition below :: "nat \<Rightarrow> matrix \<Rightarrow> matrix \<Rightarrow> bool" where
  "below n d d' \<longleftrightarrow> (\<forall>i<n. \<forall>j<n. d i j \<le> d' i j)"

lemma below_refl: "below n d d" and below_trans: "below n d1 d2 \<Longrightarrow> below n d2 d3 \<Longrightarrow> below n d1 d3"
  unfolding below_def using order_trans by blast+

lemma s16_id: "0 \<le> x \<Longrightarrow> x \<le> MAX_SHORT \<Longrightarrow> s16 x = x"
  by (simp add: s16_def MAX_SHORT_def)

lemma relax_step:
  assumes "sound w n d" "\<forall>a<n. \<forall>b<n. 0 \<le> w a b" "k < n" "i < n" "j < n"
  shows "sound w n (relax k i j d) \<and> below n (relax k i j d) d \<and> relax k i j d i j \<le> d i k + d k j"
proof (cases "d i k + d k j < d i j")
  case False
  then show ?thesis using assms by (simp add: relax_def below_refl)
next
  case True
  have p: "path w n n i j (d i k + d k j)" using assms by (intro path_append[of w n k]) (auto simp: sound_def)
  have "d i j \<le> MAX_SHORT" using assms by (simp add: sound_def)
  then have "s16 (d i k + d k j) = d i k + d k j" using True path_nonneg[OF p assms(2)] by (intro s16_id) auto
  moreover have "d i k + d k j \<le> MAX_SHORT" using True \<open>d i j \<le> MAX_SHORT\<close> by simp
  ultimately show ?thesis using True p assms(1,4,5)
    by (auto simp: relax_def sound_def below_def upd_def)
qed

lemma relax_row:
  assumes "sound w n d" "\<forall>a<n. \<forall>b<n. 0 \<le> w a b" "k < n" "i < n" "set js \<subseteq> {..<n}"
  shows "sound w n (fold (relax k i) js d) \<and> below n (fold (relax k i) js d) d \<and>
    (\<forall>j \<in> set js. fold (relax k i) js d i j \<le> d i k + d k j)"
  using assms(5)
proof (induction js rule: rev_induct)
  case Nil
  then show ?case using assms(1) by (simp add: below_refl)
next
  case (snoc j js)
  let ?d = "fold (relax k i) js d"
  have IH: "sound w n ?d" "below n ?d d" "\<forall>j \<in> set js. ?d i j \<le> d i k + d k j" and j: "j < n" using snoc by auto
  from relax_step[OF IH(1) assms(2-4) j] have r: "sound w n (relax k i j ?d)" "below n (relax k i j ?d) ?d"
    "relax k i j ?d i j \<le> ?d i k + ?d k j" by blast+
  have "?d i k + ?d k j \<le> d i k + d k j" using IH(2) assms(3,4) j by (simp add: below_def add_mono)
  moreover have "relax k i j ?d i b \<le> d i k + d k b" if "b \<in> set js" for b
  proof -
    have "b < n" using that snoc.prems by auto
    then have "relax k i j ?d i b \<le> ?d i b" using r(2) assms(4) by (simp add: below_def)
    then show ?thesis using IH(3) that by force
  qed
  ultimately show ?case using r below_trans[OF r(2) IH(2)] by auto
qed

lemma relax_rows:
  assumes "sound w n d" "\<forall>a<n. \<forall>b<n. 0 \<le> w a b" "k < n" "set is \<subseteq> {..<n}"
  shows "sound w n (fold (\<lambda>i. fold (relax k i) [0..<n]) is d) \<and> below n (fold (\<lambda>i. fold (relax k i) [0..<n]) is d) d \<and>
    (\<forall>i \<in> set is. \<forall>j<n. fold (\<lambda>i. fold (relax k i) [0..<n]) is d i j \<le> d i k + d k j)"
  using assms(4)
proof (induction "is" rule: rev_induct)
  case Nil
  then show ?case using assms(1) by (simp add: below_refl)
next
  case (snoc i "is")
  let ?d = "fold (\<lambda>i. fold (relax k i) [0..<n]) is d" let ?e = "fold (relax k i) [0..<n] ?d"
  have IH: "sound w n ?d" "below n ?d d" "\<forall>a \<in> set is. \<forall>j<n. ?d a j \<le> d a k + d k j" and i: "i < n" using snoc by auto
  have r: "sound w n ?e" "below n ?e ?d" "\<forall>j<n. ?e i j \<le> ?d i k + ?d k j"
    using relax_row[OF IH(1) assms(2,3) i, of "[0..<n]"] by (auto simp: lessThan_atLeast0)
  have "?e i j \<le> d i k + d k j" if "j < n" for j
  proof -
    have "?d i k + ?d k j \<le> d i k + d k j" using IH(2) assms(3) i that by (simp add: below_def add_mono)
    then show ?thesis using r(3) that by force
  qed
  moreover have "?e a j \<le> d a k + d k j" if "a \<in> set is" "j < n" for a j
  proof -
    have "a < n" using that(1) snoc.prems by auto
    then have "?e a j \<le> ?d a j" using r(2) that(2) by (simp add: below_def)
    then show ?thesis using IH(3) that by force
  qed
  ultimately show ?case using r(1) below_trans[OF r(2) IH(2)] by auto
qed

lemma relax_all:
  assumes "sound w n d" "\<forall>a<n. \<forall>b<n. 0 \<le> w a b" "below n d w" "K \<le> n"
  shows "let d' = fold (\<lambda>k. fold (\<lambda>i. fold (relax k i) [0..<n]) [0..<n]) [0..<K] d
    in sound w n d' \<and> (\<forall>i j c. path w n K i j c \<longrightarrow> i < n \<longrightarrow> j < n \<longrightarrow> d' i j \<le> c)"
  using assms(4)
proof (induction K)
  case 0
  have "d i j \<le> c" if "path w n 0 i j c" for i j c
    using that by (cases rule: path.cases) (use assms(3) in \<open>auto simp: below_def\<close>)
  then show ?case using assms(1) by simp
next
  case (Suc K)
  let ?d = "fold (\<lambda>k. fold (\<lambda>i. fold (relax k i) [0..<n]) [0..<n]) [0..<K] d"
  let ?e = "fold (\<lambda>i. fold (relax K i) [0..<n]) [0..<n] ?d"
  have K: "K < n" using Suc.prems by simp
  have IH: "sound w n ?d" "\<And>i j c. path w n K i j c \<Longrightarrow> i < n \<Longrightarrow> j < n \<Longrightarrow> ?d i j \<le> c"
    using Suc by (simp_all add: Let_def)
  have r: "sound w n ?e" "below n ?e ?d" "\<forall>i<n. \<forall>j<n. ?e i j \<le> ?d i K + ?d K j"
    using relax_rows[OF IH(1) assms(2) K, of "[0..<n]"] by (auto simp: lessThan_atLeast0)
  have "?e i j \<le> c" if p: "path w n (Suc K) i j c" and ij: "i < n" "j < n" for i j c
    using path_split[OF p assms(2) K]
  proof (elim disjE exE conjE)
    assume "path w n K i j c"
    then have "?d i j \<le> c" by (rule IH(2)[OF _ ij])
    then show ?thesis using r(2) ij by (force simp: below_def)
  next
    fix c1 c2
    assume c: "path w n K i K c1" "path w n K K j c2" "c1 + c2 \<le> c"
    have "?d i K + ?d K j \<le> c1 + c2" by (intro add_mono IH(2) c ij K)
    moreover have "?e i j \<le> ?d i K + ?d K j" using r(3) ij by blast
    ultimately show ?thesis using c(3) by linarith
  qed
  then show ?case using r(1) by (simp add: Let_def)
qed

lemma copy_row: "fold (\<lambda>j dest. upd dest i j (src i j)) js d = (\<lambda>a b. if a = i \<and> b \<in> set js then src a b else d a b)"
  by (induction js arbitrary: d) (auto simp: upd_def fun_eq_iff)

lemma copy_matrix:
  "fold (\<lambda>i. fold (\<lambda>j dest. upd dest i j (src i j)) js) is d = (\<lambda>a b. if a \<in> set is \<and> b \<in> set js then src a b else d a b)"
  by (induction "is" arbitrary: d) (auto simp: copy_row fun_eq_iff)

text \<open>The graph of both programs.\<close>

definition program_graph :: matrix where
  "program_graph = (let M = MAX_SHORT in (\<lambda>i j.
    [[M, 3, 4, 8, M, M, M, M, M],
     [3, M, 2, M, M, M, M, M, M],
     [4, 2, M, M, M, M, M, M, M],
     [8, M, M, M, 10, M, M, M, M],
     [M, M, M, 10, M, 7, M, M, 7],
     [M, M, M, M, 7, M, 1, 2, M],
     [M, M, M, M, M, 1, M, 9, 4],
     [M, M, M, M, M, 2, 9, M, 3],
     [M, M, M, 7, M, 4, 3, M, M]] ! i ! j))"

lemma program_graph_weights: "\<forall>i<9. \<forall>j<9. 0 < program_graph i j \<and> program_graph i j \<le> MAX_SHORT"
proof -
  have "\<forall>i \<in> set [0..<9]. \<forall>j \<in> set [0..<9]. 0 < program_graph i j \<and> program_graph i j \<le> MAX_SHORT" by code_simp
  then show ?thesis by simp
qed

text \<open>
  C24. For weights of no edge or not negative \<open>Floyd\<close> leaves for all vertices the weight of a lightest path of one
  edge or more, and nothing overflows a \<open>short\<close>.
\<close>

theorem floyd_shortest:
  assumes "0 < n" "\<forall>i<n. \<forall>j<n. 0 \<le> g i j \<and> g i j \<le> MAX_SHORT"
  shows "\<exists>d. Floyd dest g n = Some d \<and>
    (\<forall>i<n. \<forall>j<n. path g n n i j (d i j) \<and> d i j \<le> MAX_SHORT \<and> (\<forall>c. path g n n i j c \<longrightarrow> d i j \<le> c))"
proof -
  let ?d = "fold (\<lambda>i. fold (\<lambda>j dest. upd dest i j (g i j)) [0..<n]) [0..<n] dest"
  have d: "?d i j = g i j" if "i < n" "j < n" for i j using that by (simp add: copy_matrix)
  have "sound g n ?d" unfolding sound_def using assms(2) by (simp add: d path.edge)
  moreover have "\<forall>a<n. \<forall>b<n. 0 \<le> g a b" using assms(2) by blast
  moreover have "below n ?d g" by (simp add: below_def d)
  ultimately show ?thesis using relax_all[of g n ?d n] assms(1) by (simp add: Floyd_def Let_def sound_def)
qed

theorem floyd_shortest_witness:
  "\<exists>d. Floyd (\<lambda>_ _. 0) program_graph 9 = Some d \<and> path program_graph 9 9 0 8 (d 0 8) \<and> d 0 8 \<le> 25"
proof -
  have "path program_graph 9 9 0 8 (8 + program_graph 3 4 + program_graph 4 8)"
    using path.edge[of 0 9 3 program_graph 9] by (intro path.step) (simp_all add: program_graph_def)
  then have "path program_graph 9 9 0 8 25" by (simp add: program_graph_def)
  moreover have "\<forall>i<9. \<forall>j<9. 0 \<le> program_graph i j \<and> program_graph i j \<le> MAX_SHORT"
    using program_graph_weights by (simp add: less_imp_le)
  then obtain d where "Floyd (\<lambda>_ _. 0) program_graph 9 = Some d"
    "\<forall>i<9. \<forall>j<9. path program_graph 9 9 i j (d i j) \<and> d i j \<le> MAX_SHORT \<and> (\<forall>c. path program_graph 9 9 i j c \<longrightarrow> d i j \<le> c)"
    using floyd_shortest[of 9 program_graph "\<lambda>_ _. 0"] by auto
  ultimately show ?thesis by auto
qed

subsection \<open>Dijkstra\<close>

text \<open>
  \<open>Dijkstra\<close> works on the static graph, \<open>cost\<close> and \<open>visited\<close>; of its arguments it uses only \<open>start\<close>.
\<close>

record spt =
  cost :: "nat \<Rightarrow> int"
  visited :: "nat \<Rightarrow> bool"

text \<open>The scan for an edge out of the visited vertices: \<open>best\<close>, 0 while there is none, and \<open>best_j\<close>.\<close>

definition try_edge :: "matrix \<Rightarrow> spt \<Rightarrow> nat \<Rightarrow> nat \<Rightarrow> int \<times> nat \<Rightarrow> int \<times> nat" where
  "try_edge graph s i j b =
     (if \<not> visited s j \<and> graph i j < MAX_SHORT then
        if fst b = 0 \<or> graph i j + cost s i < fst b then (graph i j + cost s i, j) else b
      else b)"

definition scan :: "matrix \<Rightarrow> nat \<Rightarrow> spt \<Rightarrow> int \<times> nat \<Rightarrow> int \<times> nat" where
  "scan graph n s = fold (\<lambda>i b. if visited s i then fold (try_edge graph s i) [0..<n] b else b) [0..<n]"

partial_function (option) rounds :: "matrix \<Rightarrow> nat \<Rightarrow> nat \<Rightarrow> spt \<Rightarrow> spt option" where
  "rounds graph n best_j s =
     (let (best, best_j) = scan graph n s (0, best_j);
          s' = (if 0 < best then \<lparr>cost = (cost s)(best_j := best), visited = (visited s)(best_j := True)\<rparr> else s)
      in if best \<noteq> 0 then rounds graph n best_j s' else Some s')"

definition Dijkstra :: "matrix \<Rightarrow> nat \<Rightarrow> nat \<Rightarrow> nat \<Rightarrow> nat \<Rightarrow> spt \<Rightarrow> spt option" where
  "Dijkstra graph n numOfVertice start best_j s =
     (if 0 < numOfVertice \<and> start < numOfVertice
      then rounds graph n best_j \<lparr>cost = (cost s)(start := 0), visited = (visited s)(start := True)\<rparr>
      else None)"

declare rounds.simps [code]

text \<open>Paths of real edges, of any length.\<close>

inductive route :: "matrix \<Rightarrow> nat \<Rightarrow> nat \<Rightarrow> nat \<Rightarrow> int \<Rightarrow> bool" for g n start where
  here: "route g n start start 0"
| hop: "route g n start i c \<Longrightarrow> i < n \<Longrightarrow> j < n \<Longrightarrow> g i j < MAX_SHORT \<Longrightarrow> route g n start j (c + g i j)"

definition crossing :: "matrix \<Rightarrow> spt \<Rightarrow> nat \<Rightarrow> nat \<Rightarrow> bool" where
  "crossing g s i j \<longleftrightarrow> visited s i \<and> \<not> visited s j \<and> g i j < MAX_SHORT"

text \<open>\<open>b\<close> is the best of the crossing edges among \<open>P\<close>.\<close>

definition best_of :: "matrix \<Rightarrow> spt \<Rightarrow> (nat \<times> nat) set \<Rightarrow> int \<times> nat \<Rightarrow> bool" where
  "best_of g s P b \<longleftrightarrow>
     (if fst b = 0 then \<forall>(i, j) \<in> P. \<not> crossing g s i j
      else (\<exists>i. (i, snd b) \<in> P \<and> crossing g s i (snd b) \<and> fst b = g i (snd b) + cost s i) \<and>
        (\<forall>(i, j) \<in> P. crossing g s i j \<longrightarrow> fst b \<le> g i j + cost s i))"

lemma best_of_add: "best_of g s P b \<Longrightarrow> \<forall>(i, j) \<in> Q. \<not> crossing g s i j \<Longrightarrow> best_of g s (P \<union> Q) b"
  unfolding best_of_def by (cases "fst b = 0") auto

lemma try_edge_best:
  assumes "best_of g s P b" "visited s i" "0 < g i j" "0 \<le> cost s i"
  shows "best_of g s (insert (i, j) P) (try_edge g s i j b)"
proof (cases "crossing g s i j")
  case False
  then have "try_edge g s i j b = b" using assms(2) by (auto simp: try_edge_def crossing_def)
  then show ?thesis using best_of_add[OF assms(1), of "{(i, j)}"] False by simp
next
  case True
  then have c: "\<not> visited s j" "g i j < MAX_SHORT" by (simp_all add: crossing_def)
  show ?thesis
  proof (cases "fst b = 0 \<or> g i j + cost s i < fst b")
    case t: True
    then have "try_edge g s i j b = (g i j + cost s i, j)" using c by (simp add: try_edge_def)
    moreover have "best_of g s (insert (i, j) P) (g i j + cost s i, j)"
      using assms(1,3,4) True t by (cases "fst b = 0") (fastforce simp: best_of_def)+
    ultimately show ?thesis by simp
  next
    case f: False
    then have "try_edge g s i j b = b" by (simp add: try_edge_def)
    moreover have "best_of g s (insert (i, j) P) b" using assms(1) f by (auto simp: best_of_def)
    ultimately show ?thesis by simp
  qed
qed

lemma try_edges_best:
  assumes "visited s i" "\<forall>j \<in> set js. 0 < g i j" "0 \<le> cost s i" "best_of g s P b"
  shows "best_of g s (P \<union> {i} \<times> set js) (fold (try_edge g s i) js b)"
  using assms(2)
proof (induction js rule: rev_induct)
  case Nil
  then show ?case using assms(4) by simp
next
  case (snoc j js)
  have IH: "best_of g s (P \<union> {i} \<times> set js) (fold (try_edge g s i) js b)" and j: "0 < g i j" using snoc by simp_all
  have "best_of g s (insert (i, j) (P \<union> {i} \<times> set js)) (try_edge g s i j (fold (try_edge g s i) js b))"
    by (rule try_edge_best[OF IH assms(1) j assms(3)])
  moreover have e: "insert (i, j) (P \<union> {i} \<times> set js) = P \<union> {i} \<times> set (js @ [j])" by auto
  ultimately show ?case unfolding e fold_append by (simp only: fold.simps comp_apply id_apply)
qed

lemma scan_best:
  assumes "\<forall>i<n. \<forall>j<n. 0 < g i j" "\<forall>i<n. 0 \<le> cost s i"
  shows "best_of g s ({0..<n} \<times> {0..<n}) (scan g n s (0, k))"
proof -
  have "best_of g s (set is \<times> {0..<n}) (fold (\<lambda>i b. if visited s i then fold (try_edge g s i) [0..<n] b else b) is (0, k))"
    if "set is \<subseteq> {0..<n}" for "is"
    using that
  proof (induction "is" rule: rev_induct)
    case Nil
    show ?case by (simp add: best_of_def)
  next
    case (snoc i "is")
    let ?b = "fold (\<lambda>i b. if visited s i then fold (try_edge g s i) [0..<n] b else b) is (0, k)"
    have IH: "best_of g s (set is \<times> {0..<n}) ?b" and i: "i < n" using snoc by auto
    have e: "set (is @ [i]) \<times> {0..<n} = set is \<times> {0..<n} \<union> {i} \<times> set [0..<n]" by auto
    show ?case
    proof (cases "visited s i")
      case True
      have "best_of g s (set is \<times> {0..<n} \<union> {i} \<times> set [0..<n]) (fold (try_edge g s i) [0..<n] ?b)"
        by (rule try_edges_best[OF True _ _ IH]) (use assms i in auto)
      then show ?thesis using True unfolding e by simp
    next
      case False
      then have "best_of g s (set is \<times> {0..<n} \<union> {i} \<times> set [0..<n]) ?b"
        by (intro best_of_add[OF IH]) (auto simp: crossing_def)
      then show ?thesis using False unfolding e by simp
    qed
  qed
  from this[of "[0..<n]"] show ?thesis by (simp add: scan_def)
qed

text \<open>A route that leaves the visited vertices is at least as heavy as its part up to the first edge out of them.\<close>

lemma route_leaves:
  assumes "route g n start v c" "visited s start" "\<not> visited s v" "\<forall>i<n. \<forall>j<n. 0 < g i j"
  shows "\<exists>i j c1. i < n \<and> j < n \<and> crossing g s i j \<and> route g n start i c1 \<and> c1 + g i j \<le> c"
  using assms(1,3)
proof (induction rule: route.induct)
  case here
  then show ?case using assms(2) by simp
next
  case (hop i c j)
  show ?case
  proof (cases "visited s i")
    case True
    then show ?thesis using hop by (intro exI[of _ i] exI[of _ j] exI[of _ c]) (auto simp: crossing_def)
  next
    case False
    have "0 < g i j" using assms(4) hop.hyps by simp
    then show ?thesis using hop.IH[OF False] by force
  qed
qed

definition spt_ok :: "matrix \<Rightarrow> nat \<Rightarrow> nat \<Rightarrow> spt \<Rightarrow> bool" where
  "spt_ok g n start s \<longleftrightarrow> visited s start \<and> (\<forall>v. if visited s v
     then v < n \<and> route g n start v (cost s v) \<and> (\<forall>c. route g n start v c \<longrightarrow> cost s v \<le> c) else cost s v = 0)"

lemma route_nonneg: "route g n start v c \<Longrightarrow> \<forall>i<n. \<forall>j<n. 0 < g i j \<Longrightarrow> 0 \<le> c"
proof (induction rule: route.induct)
  case (hop i c j)
  then have "0 < g i j" "0 \<le> c" by simp_all
  then show ?case by simp
qed simp

lemma spt_grow:
  assumes ok: "spt_ok g n start s" and pos: "\<forall>i<n. \<forall>j<n. 0 < g i j"
    and b: "best_of g s ({0..<n} \<times> {0..<n}) (best, j)" "best \<noteq> 0"
  shows "0 < best \<and> j < n \<and> \<not> visited s j \<and>
    spt_ok g n start \<lparr>cost = (cost s)(j := best), visited = (visited s)(j := True)\<rparr>"
proof -
  obtain i where i: "i < n" "j < n" "crossing g s i j" "best = g i j + cost s i"
    using b by (auto simp: best_of_def)
  have least: "best \<le> g a q + cost s a" if "a < n" "q < n" "crossing g s a q" for a q
    using b that by (auto simp: best_of_def)
  have vi: "route g n start i (cost s i)" using ok i(3) by (auto simp: spt_ok_def crossing_def split: if_splits)
  have r: "route g n start j best" using route.hop[OF vi i(1,2)] i(3,4) by (simp add: crossing_def add.commute)
  have "best \<le> c" if c: "route g n start j c" for c
  proof -
    have "\<not> visited s j" "visited s start" using i(3) ok by (simp_all add: crossing_def spt_ok_def)
    then obtain a q c1 where a: "a < n" "q < n" "crossing g s a q" "route g n start a c1" "c1 + g a q \<le> c"
      using route_leaves[OF c _ _ pos] by blast
    have "cost s a \<le> c1" using ok a(3,4) by (auto simp: spt_ok_def crossing_def split: if_splits)
    then show ?thesis using least[OF a(1-3)] a(5) by linarith
  qed
  moreover have "0 < best" using pos i route_nonneg[OF vi pos] by (simp add: add_pos_nonneg)
  ultimately show ?thesis using ok r i(2,3) by (auto simp: spt_ok_def crossing_def)
qed

lemma rounds_ok:
  assumes "spt_ok g n start s" "\<forall>i<n. \<forall>j<n. 0 < g i j"
  shows "\<exists>s'. rounds g n k s = Some s' \<and> spt_ok g n start s' \<and> (\<forall>v c. route g n start v c \<longrightarrow> visited s' v)"
  using assms(1)
proof (induction "card {v. v < n \<and> \<not> visited s v}" arbitrary: s k rule: less_induct)
  case less
  have cost: "\<forall>i<n. 0 \<le> cost s i"
  proof (intro allI impI)
    fix i
    show "0 \<le> cost s i"
    proof (cases "visited s i")
      case True
      then have "route g n start i (cost s i)" using less.prems by (simp add: spt_ok_def)
      then show ?thesis by (rule route_nonneg[OF _ assms(2)])
    next
      case False
      then show ?thesis using less.prems by (simp add: spt_ok_def)
    qed
  qed
  obtain best j where bj: "scan g n s (0, k) = (best, j)" by (cases "scan g n s (0, k)")
  have b: "best_of g s ({0..<n} \<times> {0..<n}) (best, j)" using scan_best[OF assms(2) cost, of k] bj by simp
  show ?case
  proof (cases "best = 0")
    case True
    then have "rounds g n k s = Some s" by (subst rounds.simps) (simp add: bj)
    moreover have "visited s v" if r: "route g n start v c" for v c
    proof (rule ccontr)
      assume "\<not> visited s v"
      moreover have "visited s start" using less.prems by (simp add: spt_ok_def)
      ultimately obtain i q where "i < n" "q < n" "crossing g s i q" using route_leaves[OF r _ _ assms(2)] by blast
      then show False using b True by (auto simp: best_of_def)
    qed
    ultimately show ?thesis using less.prems by blast
  next
    case False
    let ?s = "\<lparr>cost = (cost s)(j := best), visited = (visited s)(j := True)\<rparr>"
    from spt_grow[OF less.prems assms(2) b False] have g: "0 < best" "j < n" "\<not> visited s j" "spt_ok g n start ?s" by blast+
    have "{v. v < n \<and> \<not> visited ?s v} \<subset> {v. v < n \<and> \<not> visited s v}" using g(2,3) by auto
    then have "card {v. v < n \<and> \<not> visited ?s v} < card {v. v < n \<and> \<not> visited s v}" by (intro psubset_card_mono) auto
    from less.hyps[OF this g(4)] show ?thesis using False g(1) by (subst rounds.simps) (simp add: bj)
  qed
qed

text \<open>
  C25. With positive weights \<open>Dijkstra\<close> ends, has visited the vertices that can be reached from \<open>start\<close>, and has
  for each the weight of a lightest route; the cost of the others is still 0.
\<close>

theorem dijkstra_shortest:
  assumes "start < n" "\<forall>i<n. \<forall>j<n. 0 < g i j"
  shows "\<exists>s. Dijkstra g n n start k \<lparr>cost = (\<lambda>_. 0), visited = (\<lambda>_. False)\<rparr> = Some s \<and>
    (\<forall>v. visited s v \<longleftrightarrow> (\<exists>c. route g n start v c)) \<and>
    (\<forall>v. if visited s v then route g n start v (cost s v) \<and> (\<forall>c. route g n start v c \<longrightarrow> cost s v \<le> c)
      else cost s v = 0)"
proof -
  let ?s = "\<lparr>cost = (\<lambda>_. 0)(start := 0), visited = (\<lambda>_. False)(start := True)\<rparr>"
  have "spt_ok g n start ?s" using assms route_nonneg[OF _ assms(2)] by (auto simp: spt_ok_def route.here)
  from rounds_ok[OF this assms(2)] obtain s where s: "rounds g n k ?s = Some s" "spt_ok g n start s"
    "\<forall>v c. route g n start v c \<longrightarrow> visited s v" by blast
  moreover have "Dijkstra g n n start k \<lparr>cost = (\<lambda>_. 0), visited = (\<lambda>_. False)\<rparr> = rounds g n k ?s"
    using assms(1) by (simp add: Dijkstra_def fun_upd_def)
  moreover have "visited s v \<longleftrightarrow> (\<exists>c. route g n start v c)" for v
    using s(2,3) unfolding spt_ok_def by (metis (full_types))
  ultimately show ?thesis unfolding spt_ok_def by (metis (full_types))
qed

theorem dijkstra_shortest_witness:
  "\<exists>s. Dijkstra program_graph 9 9 0 0 \<lparr>cost = (\<lambda>_. 0), visited = (\<lambda>_. False)\<rparr> = Some s \<and>
    visited s 3 \<and> route program_graph 9 0 3 (cost s 3) \<and> cost s 3 \<le> 8"
proof -
  have "route program_graph 9 0 3 (0 + program_graph 0 3)"
    by (rule route.hop[OF route.here]) (simp_all add: program_graph_def MAX_SHORT_def)
  then have r: "route program_graph 9 0 3 8" by (simp add: program_graph_def)
  from dijkstra_shortest[of 0 9 program_graph 0] program_graph_weights obtain s where
    s: "Dijkstra program_graph 9 9 0 0 \<lparr>cost = (\<lambda>_. 0), visited = (\<lambda>_. False)\<rparr> = Some s"
    "\<forall>v. visited s v \<longleftrightarrow> (\<exists>c. route program_graph 9 0 v c)"
    "\<forall>v. if visited s v then route program_graph 9 0 v (cost s v) \<and> (\<forall>c. route program_graph 9 0 v c \<longrightarrow> cost s v \<le> c)
      else cost s v = 0" by auto
  have "visited s 3" using s(2) r by blast
  then show ?thesis using s(1,3) r by auto
qed

text \<open>An edge of weight 0 is not taken: 0 also means that no edge was found.\<close>

lemma dijkstra_zero_edge:
  "map_option (\<lambda>s. visited s 1) (Dijkstra (\<lambda>i j. 0) 2 2 0 0 \<lparr>cost = (\<lambda>_. 0), visited = (\<lambda>_. False)\<rparr>) = Some False"
  by code_simp

end
