(* ===== verification/Snull.thy ===== *)
theory Snull
  imports Ak_Prelude "HOL-Library.Multiset"
begin

text \<open>
  The pair of network interfaces \<open>snull/snull.c\<close> that pass every frame to each other, with the third
  octets of the IP addresses toggled.  A device is named by a boolean (\<open>False\<close> is \<open>snull_devs[0]\<close>).

  Packet buffers keep their identity and owner while they move between the pools and the receive
  queues.  The record of a device also carries the kernel's view: whether its transmit queue is
  stopped, whether a poll is scheduled, the frames passed to \<open>netif_rx\<close> or \<open>netif_receive_skb\<close> and
  the socket buffers freed.  The checksum function and the outcomes of \<open>dev_alloc_skb\<close> are arguments;
  \<open>None\<close> is a null pointer that is followed, a copy past the end of a packet buffer, or a read past the end of a frame.
\<close>

abbreviation ETH_ZLEN :: nat where "ETH_ZLEN \<equiv> 60"
abbreviation ETH_DATA_LEN :: nat where "ETH_DATA_LEN \<equiv> 1500"

record snull_packet =
  pk_id :: nat
  pk_dev :: bool
  pk_datalen :: nat
  pk_data :: "byte list"

record snull_priv =
  tx_packets :: nat
  tx_bytes :: nat
  tx_errors :: nat
  rx_packets :: nat
  rx_bytes :: nat
  rx_dropped :: nat
  status_rx :: bool
  status_tx :: bool
  ppool :: "snull_packet list"
  rx_queue :: "snull_packet list"
  rx_int_enabled :: bool
  tx_packetlen :: nat
  priv_skb :: nat
  queue_stopped :: bool
  poll_scheduled :: bool
  hw_addr :: "byte list"
  delivered :: "byte list list"
  freed_skbs :: "nat list"

type_synonym snull = "bool \<Rightarrow> snull_priv"

subsection \<open>Packet buffers\<close>

fun snull_setup_pool :: "bool \<Rightarrow> bool list \<Rightarrow> nat \<Rightarrow> snull_packet list \<Rightarrow> snull_packet list" where
  "snull_setup_pool d al 0 pool = pool"
| "snull_setup_pool d al (Suc i) pool =
     (case kmalloc al of (ok, al') \<Rightarrow>
        if \<not> ok then pool
        else snull_setup_pool d al' i (\<lparr>pk_id = i, pk_dev = d, pk_datalen = 0, pk_data = []\<rparr> # pool))"

text \<open>The number of buffers freed; those in flight are not found.\<close>

fun snull_teardown_pool :: "snull_packet list \<Rightarrow> nat" where
  "snull_teardown_pool [] = 0"
| "snull_teardown_pool (p # pool) = Suc (snull_teardown_pool pool)"

definition snull_get_tx_buffer :: "snull \<Rightarrow> bool \<Rightarrow> (snull \<times> snull_packet) option" where
  "snull_get_tx_buffer st d =
     (case ppool (st d) of
        [] \<Rightarrow> None
      | pkt # pool \<Rightarrow>
          Some (st(d := (st d)\<lparr>ppool := pool, queue_stopped := (pool = [] \<or> queue_stopped (st d))\<rparr>), pkt))"

definition snull_release_buffer :: "snull \<Rightarrow> snull_packet \<Rightarrow> snull" where
  "snull_release_buffer st pkt =
     (let d = pk_dev pkt; dev = st d; next_pkt = ppool dev in
      st(d := dev\<lparr>ppool := pkt # next_pkt,
                  queue_stopped := (queue_stopped dev \<and> next_pkt \<noteq> [])\<rparr>))"

definition snull_enqueue_buf :: "snull \<Rightarrow> bool \<Rightarrow> snull_packet \<Rightarrow> snull" where
  "snull_enqueue_buf st d pkt = st(d := (st d)\<lparr>rx_queue := pkt # rx_queue (st d)\<rparr>)"

definition snull_dequeue_buf :: "snull \<Rightarrow> bool \<Rightarrow> snull \<times> snull_packet option" where
  "snull_dequeue_buf st d =
     (case rx_queue (st d) of
        [] \<Rightarrow> (st, None)
      | pkt # q \<Rightarrow> (st(d := (st d)\<lparr>rx_queue := q\<rparr>), Some pkt))"

definition snull_rx_ints :: "snull_priv \<Rightarrow> bool \<Rightarrow> snull_priv" where
  "snull_rx_ints dev enable = dev\<lparr>rx_int_enabled := enable\<rparr>"

subsection \<open>Open, close, configuration\<close>

definition snull_open :: "snull \<Rightarrow> bool \<Rightarrow> snull" where
  "snull_open st d =
     st(d := (st d)\<lparr>hw_addr := [0, 0x53, 0x4E, 0x55, 0x4C, 0x30 + (if d then 1 else 0)], queue_stopped := False\<rparr>)"

definition snull_release :: "snull \<Rightarrow> bool \<Rightarrow> snull" where
  "snull_release st d = st(d := (st d)\<lparr>queue_stopped := True\<rparr>)"

record snull_if =
  if_up :: bool
  if_base_addr :: nat
  if_irq :: nat
  if_mtu :: int
  if_dev_addr :: "byte list"

definition snull_config :: "snull_if \<Rightarrow> nat \<Rightarrow> nat \<Rightarrow> snull_if \<times> int sysret" where
  "snull_config dev map_base_addr map_irq =
     (if if_up dev then (dev, Err EBUSY)
      else if map_base_addr \<noteq> if_base_addr dev then (dev, Err EOPNOTSUPP)
      else (if map_irq \<noteq> if_irq dev then dev\<lparr>if_irq := map_irq\<rparr> else dev, Ret 0))"

definition snull_change_mtu :: "snull_if \<Rightarrow> int \<Rightarrow> snull_if \<times> int sysret" where
  "snull_change_mtu dev new_mtu =
     (if new_mtu < 68 \<or> new_mtu > 1500 then (dev, Err EINVAL) else (dev\<lparr>if_mtu := new_mtu\<rparr>, Ret 0))"

text \<open>The Ethernet header: destination, source, type.\<close>

definition toggle_last :: "byte list \<Rightarrow> byte list" where
  "toggle_last a = a[5 := xor (a ! 5) 1]"

definition snull_rebuild_header :: "snull_if \<Rightarrow> byte list \<Rightarrow> byte list" where
  "snull_rebuild_header dev frame =
     toggle_last (if_dev_addr dev) @ if_dev_addr dev @ drop 12 frame"

definition snull_header ::
  "snull_if \<Rightarrow> byte list \<Rightarrow> byte \<Rightarrow> byte \<Rightarrow> byte list option \<Rightarrow> byte list option \<Rightarrow> byte list \<times> int" where
  "snull_header dev payload type_hi type_lo daddr saddr =
     (toggle_last (case daddr of Some a \<Rightarrow> a | None \<Rightarrow> if_dev_addr dev) @
      (case saddr of Some a \<Rightarrow> a | None \<Rightarrow> if_dev_addr dev) @ [type_hi, type_lo] @ payload, 14)"

subsection \<open>Receiving\<close>

definition snull_rx :: "bool \<Rightarrow> snull_priv \<Rightarrow> snull_packet \<Rightarrow> snull_priv" where
  "snull_rx skb_ok dev pkt =
     (if \<not> skb_ok then dev\<lparr>rx_dropped := rx_dropped dev + 1\<rparr>
      else dev\<lparr>rx_packets := rx_packets dev + 1, rx_bytes := rx_bytes dev + pk_datalen pkt,
               delivered := delivered dev @ [take (pk_datalen pkt) (pk_data pkt)]\<rparr>)"

function snull_poll_loop ::
  "snull \<Rightarrow> bool \<Rightarrow> nat \<Rightarrow> nat \<Rightarrow> bool list \<Rightarrow> snull \<times> nat" where
  "snull_poll_loop st d quota npackets al =
     (if npackets < quota \<and> rx_queue (st d) \<noteq> [] then
        (case snull_dequeue_buf st d of
           (st1, None) \<Rightarrow> (st1, npackets)
         | (st1, Some pkt) \<Rightarrow>
           (case kmalloc al of (skb_ok, al') \<Rightarrow>
              let st2 = st1(d := snull_rx skb_ok (st1 d) pkt);
                  st3 = snull_release_buffer st2 pkt
              in snull_poll_loop st3 d quota (if skb_ok then npackets + 1 else npackets) al'))
      else (st, npackets))"
  by pat_completeness auto
termination
  by (relation "measure (\<lambda>(st, d, quota, n, al). length (rx_queue (st d)))")
    (auto simp: snull_dequeue_buf_def snull_release_buffer_def snull_rx_def Let_def split: list.splits)

declare snull_poll_loop.simps [simp del]

text \<open>The state, the packets processed and the return value.\<close>

definition snull_poll :: "snull \<Rightarrow> bool \<Rightarrow> nat \<Rightarrow> bool list \<Rightarrow> snull \<times> nat \<times> int" where
  "snull_poll st d quota al =
     (case snull_poll_loop st d quota 0 al of (st1, n) \<Rightarrow>
        if rx_queue (st1 d) = []
        then (st1(d := snull_rx_ints ((st1 d)\<lparr>poll_scheduled := False\<rparr>) True), n, 0)
        else (st1, n, 1))"

subsection \<open>Interrupts\<close>

text \<open>A finished transmission.\<close>

definition snull_tx_done :: "snull_priv \<Rightarrow> snull_priv" where
  "snull_tx_done dev =
     dev\<lparr>tx_packets := tx_packets dev + 1, tx_bytes := tx_bytes dev + tx_packetlen dev,
         freed_skbs := freed_skbs dev @ [priv_skb dev]\<rparr>"

definition snull_regular_interrupt :: "bool \<Rightarrow> snull \<Rightarrow> bool \<Rightarrow> snull" where
  "snull_regular_interrupt skb_ok st d =
     (let dev = st d;
          dev1 = dev\<lparr>status_rx := False, status_tx := False\<rparr>;
          (dev2, pkt) =
            (if status_rx dev
             then (case rx_queue dev1 of
                [] \<Rightarrow> (dev1, None)
              | p # q \<Rightarrow> (snull_rx skb_ok (dev1\<lparr>rx_queue := q\<rparr>) p, Some p))
             else (dev1, None));
          dev3 = (if status_tx dev then snull_tx_done dev2 else dev2);
          st1 = st(d := dev3)
      in case pkt of None \<Rightarrow> st1 | Some p \<Rightarrow> snull_release_buffer st1 p)"

definition snull_napi_interrupt :: "snull \<Rightarrow> bool \<Rightarrow> snull" where
  "snull_napi_interrupt st d =
     (let dev = st d;
          dev1 = dev\<lparr>status_rx := False, status_tx := False\<rparr>;
          dev2 = (if status_rx dev then (snull_rx_ints dev1 False)\<lparr>poll_scheduled := True\<rparr> else dev1);
          dev3 = (if status_tx dev then snull_tx_done dev2 else dev2)
      in st(d := dev3))"

definition snull_interrupt :: "bool \<Rightarrow> bool \<Rightarrow> snull \<Rightarrow> bool \<Rightarrow> snull" where
  "snull_interrupt use_napi skb_ok st d =
     (if use_napi then snull_napi_interrupt st d else snull_regular_interrupt skb_ok st d)"

subsection \<open>Transmitting\<close>

text \<open>
  The change to the frame: bit 0 of the third octet of both addresses, then the checksum field
  (bytes 24 and 25) is zeroed and filled with the checksum of the IP header.
\<close>

definition header_end :: "byte list \<Rightarrow> nat" where
  "header_end buf = 14 + 4 * unat (and (buf ! 14) 15)"

definition twisted :: "(byte list \<Rightarrow> byte \<times> byte) \<Rightarrow> byte list \<Rightarrow> byte list" where
  "twisted csum buf =
     (let buf1 = buf[28 := xor (buf ! 28) 1];
          buf2 = buf1[32 := xor (buf1 ! 32) 1];
          buf3 = buf2[24 := 0, 25 := 0];
          (c1, c2) = csum (region buf3 14 (header_end buf3 - 14))
      in buf3[24 := c1, 25 := c2])"

text \<open>The header is as long as its length field says; the checksum reads that much, even past the end of the frame.\<close>

definition snull_twist :: "(byte list \<Rightarrow> byte \<times> byte) \<Rightarrow> byte list \<Rightarrow> byte list option" where
  "snull_twist csum buf = (if length buf < header_end buf then None else Some (twisted csum buf))"

definition snull_hw_tx ::
  "(byte list \<Rightarrow> byte \<times> byte) \<Rightarrow> bool \<Rightarrow> nat \<Rightarrow> bool \<Rightarrow> snull \<Rightarrow> bool \<Rightarrow> byte list \<Rightarrow> snull option" where
  "snull_hw_tx csum use_napi lockup skb_ok st d buf =
     (if length buf < 14 + 20 then Some st
      else case snull_twist csum buf of
        None \<Rightarrow> None
      | Some buf1 \<Rightarrow>
        let len = length buf1; dest = (\<not> d) in
        case snull_get_tx_buffer st d of
          None \<Rightarrow> None
        | Some (st1, pkt) \<Rightarrow>
          if len > ETH_DATA_LEN then None
          else
            let st2 = snull_enqueue_buf st1 dest (pkt\<lparr>pk_datalen := len, pk_data := buf1\<rparr>);
                st3 = (if rx_int_enabled (st2 dest)
                       then snull_interrupt use_napi skb_ok (st2(dest := (st2 dest)\<lparr>status_rx := True\<rparr>)) dest
                       else st2);
                st4 = st3(d := (st3 d)\<lparr>tx_packetlen := len, status_tx := True\<rparr>)
            in if lockup \<noteq> 0 \<and> (tx_packets (st4 d) + 1) mod lockup = 0
               then Some (st4(d := (st4 d)\<lparr>queue_stopped := True\<rparr>))
               else Some (snull_interrupt use_napi skb_ok st4 d))"

definition snull_pad :: "byte list \<Rightarrow> byte list" where
  "snull_pad frame = (if length frame < ETH_ZLEN then frame @ replicate (ETH_ZLEN - length frame) 0 else frame)"

definition snull_tx ::
  "(byte list \<Rightarrow> byte \<times> byte) \<Rightarrow> bool \<Rightarrow> nat \<Rightarrow> bool \<Rightarrow> snull \<Rightarrow> bool \<Rightarrow> nat \<Rightarrow> byte list \<Rightarrow> snull option" where
  "snull_tx csum use_napi lockup skb_ok st d skb frame =
     snull_hw_tx csum use_napi lockup skb_ok (st(d := (st d)\<lparr>priv_skb := skb\<rparr>)) d (snull_pad frame)"

definition snull_tx_timeout :: "bool \<Rightarrow> bool \<Rightarrow> snull \<Rightarrow> bool \<Rightarrow> snull" where
  "snull_tx_timeout use_napi skb_ok st d =
     (let st1 = st(d := (st d)\<lparr>status_rx := False, status_tx := True\<rparr>);
          st2 = snull_interrupt use_napi skb_ok st1 d
      in st2(d := (st2 d)\<lparr>tx_errors := tx_errors (st2 d) + 1, queue_stopped := False\<rparr>))"

definition snull_init :: "nat \<Rightarrow> bool list \<Rightarrow> bool list \<Rightarrow> snull" where
  "snull_init pool_size al0 al1 d =
     \<lparr>tx_packets = 0, tx_bytes = 0, tx_errors = 0, rx_packets = 0, rx_bytes = 0, rx_dropped = 0,
      status_rx = False, status_tx = False,
      ppool = snull_setup_pool d (if d then al1 else al0) pool_size [],
      rx_queue = [], rx_int_enabled = True, tx_packetlen = 0, priv_skb = 0, queue_stopped = True,
      poll_scheduled = False, hw_addr = [], delivered = [], freed_skbs = []\<rparr>"

subsection \<open>Where the packet buffers are\<close>

definition pkt_name :: "snull_packet \<Rightarrow> bool \<times> nat" where
  "pkt_name p = (pk_dev p, pk_id p)"

definition dev_pkts :: "snull_priv \<Rightarrow> (bool \<times> nat) multiset" where
  "dev_pkts dev = image_mset pkt_name (mset (ppool dev) + mset (rx_queue dev))"

definition all_pkts :: "snull \<Rightarrow> (bool \<times> nat) multiset" where
  "all_pkts st = dev_pkts (st False) + dev_pkts (st True)"

text \<open>A started queue has a buffer to transmit with.\<close>

definition snull_ready :: "snull \<Rightarrow> bool" where
  "snull_ready st \<longleftrightarrow> (\<forall>d. \<not> queue_stopped (st d) \<longrightarrow> ppool (st d) \<noteq> [])"

lemma all_pkts_split: "all_pkts st = dev_pkts (st d) + dev_pkts (st (\<not> d))"
  by (cases d) (simp_all add: all_pkts_def add.commute)

lemma all_pkts_upd: "dev_pkts v = dev_pkts (st d) \<Longrightarrow> all_pkts (st(d := v)) = all_pkts st"
  by (simp add: all_pkts_split[of _ d])

lemma ready_upd:
  "snull_ready st \<Longrightarrow> (\<not> queue_stopped v \<longrightarrow> ppool v \<noteq> []) \<Longrightarrow> snull_ready (st(d := v))"
  by (simp add: snull_ready_def)

lemma snull_rx_same [simp]:
  "ppool (snull_rx ok dev p) = ppool dev" "rx_queue (snull_rx ok dev p) = rx_queue dev"
  "queue_stopped (snull_rx ok dev p) = queue_stopped dev"
  by (simp_all add: snull_rx_def)

lemma snull_tx_done_same [simp]:
  "ppool (snull_tx_done dev) = ppool dev" "rx_queue (snull_tx_done dev) = rx_queue dev"
  "queue_stopped (snull_tx_done dev) = queue_stopped dev"
  by (simp_all add: snull_tx_done_def)

lemma get_tx_buffer_pkts:
  assumes "snull_get_tx_buffer st d = Some (st', p)"
  shows "all_pkts st = add_mset (pkt_name p) (all_pkts st')" "snull_ready st \<Longrightarrow> snull_ready st'"
  using assms
  by (auto simp: snull_get_tx_buffer_def all_pkts_split[of _ d] dev_pkts_def snull_ready_def
      split: list.splits if_splits)

lemma release_buffer_pkts:
  "all_pkts (snull_release_buffer st p) = add_mset (pkt_name p) (all_pkts st)"
  "snull_ready st \<Longrightarrow> snull_ready (snull_release_buffer st p)"
  by (auto simp: snull_release_buffer_def Let_def all_pkts_split[of _ "pk_dev p"] dev_pkts_def snull_ready_def)

lemma enqueue_buf_pkts:
  "all_pkts (snull_enqueue_buf st d p) = add_mset (pkt_name p) (all_pkts st)"
  "snull_ready st \<Longrightarrow> snull_ready (snull_enqueue_buf st d p)"
  by (auto simp: snull_enqueue_buf_def all_pkts_split[of _ d] dev_pkts_def snull_ready_def)

lemma napi_interrupt_pkts:
  "all_pkts (snull_napi_interrupt st d) = all_pkts st"
  "snull_ready st \<Longrightarrow> snull_ready (snull_napi_interrupt st d)"
  unfolding snull_napi_interrupt_def Let_def
  by (rule all_pkts_upd, simp add: dev_pkts_def snull_rx_ints_def)
    (rule ready_upd, simp_all add: snull_rx_ints_def snull_ready_def)

lemma regular_interrupt_pkts:
  "all_pkts (snull_regular_interrupt ok st d) = all_pkts st"
  "snull_ready st \<Longrightarrow> snull_ready (snull_regular_interrupt ok st d)"
proof -
  let ?fin = "\<lambda>v. if status_tx (st d) then snull_tx_done v else v"
  let ?d1 = "(st d)\<lparr>status_rx := False, status_tx := False\<rparr>"
  show "all_pkts (snull_regular_interrupt ok st d) = all_pkts st"
  proof (cases "status_rx (st d) \<and> rx_queue (st d) \<noteq> []")
    case True
    then obtain p q where q: "rx_queue (st d) = p # q" by (cases "rx_queue (st d)") auto
    have "snull_regular_interrupt ok st d =
        snull_release_buffer (st(d := ?fin (snull_rx ok (?d1\<lparr>rx_queue := q\<rparr>) p))) p"
      using True q by (simp add: snull_regular_interrupt_def Let_def)
    then have "all_pkts (snull_regular_interrupt ok st d) =
        add_mset (pkt_name p) (all_pkts (st(d := ?fin (snull_rx ok (?d1\<lparr>rx_queue := q\<rparr>) p))))"
      by (simp only: release_buffer_pkts)
    also have "\<dots> = all_pkts st" using q by (simp add: all_pkts_split[of _ d] dev_pkts_def)
    finally show ?thesis .
  next
    case False
    then have "snull_regular_interrupt ok st d = st(d := ?fin ?d1)"
      by (auto simp: snull_regular_interrupt_def Let_def split: list.split)
    then show ?thesis by (simp add: all_pkts_upd dev_pkts_def)
  qed
  show "snull_ready (snull_regular_interrupt ok st d)" if r: "snull_ready st"
  proof (cases "status_rx (st d) \<and> rx_queue (st d) \<noteq> []")
    case True
    then obtain p q where q: "rx_queue (st d) = p # q" by (cases "rx_queue (st d)") auto
    have "snull_regular_interrupt ok st d =
        snull_release_buffer (st(d := ?fin (snull_rx ok (?d1\<lparr>rx_queue := q\<rparr>) p))) p"
      using True q by (simp add: snull_regular_interrupt_def Let_def)
    moreover have "snull_ready (st(d := ?fin (snull_rx ok (?d1\<lparr>rx_queue := q\<rparr>) p)))"
      using r by (intro ready_upd) (simp_all add: snull_ready_def)
    ultimately show ?thesis by (simp add: release_buffer_pkts)
  next
    case False
    then have "snull_regular_interrupt ok st d = st(d := ?fin ?d1)"
      by (auto simp: snull_regular_interrupt_def Let_def split: list.split)
    then show ?thesis using r by (simp add: ready_upd snull_ready_def)
  qed
qed

lemma interrupt_pkts:
  "all_pkts (snull_interrupt napi ok st d) = all_pkts st"
  "snull_ready st \<Longrightarrow> snull_ready (snull_interrupt napi ok st d)"
  by (simp_all add: snull_interrupt_def napi_interrupt_pkts regular_interrupt_pkts)

lemma poll_loop_pkts:
  "all_pkts (fst (snull_poll_loop st d quota n al)) = all_pkts st \<and>
   (snull_ready st \<longrightarrow> snull_ready (fst (snull_poll_loop st d quota n al)))"
proof (induction st d quota n al rule: snull_poll_loop.induct)
  case (1 st d quota n al)
  show ?case
  proof (cases "n < quota \<and> rx_queue (st d) \<noteq> []")
    case False
    have "snull_poll_loop st d quota n al = (st, n)"
      unfolding snull_poll_loop.simps[of st d quota n al] if_not_P[OF False] ..
    then show ?thesis by simp
  next
    case True
    then obtain p q where q: "rx_queue (st d) = p # q" by (cases "rx_queue (st d)") auto
    obtain ok al' where k: "kmalloc al = (ok, al')" by force
    let ?st1 = "st(d := (st d)\<lparr>rx_queue := q\<rparr>)"
    let ?st2 = "?st1(d := snull_rx ok (?st1 d) p)"
    let ?st3 = "snull_release_buffer ?st2 p"
    let ?n = "if ok then n + 1 else n"
    have dq: "snull_dequeue_buf st d = (?st1, Some p)" using q by (simp add: snull_dequeue_buf_def)
    have step: "snull_poll_loop st d quota n al = snull_poll_loop ?st3 d quota ?n al'"
      using True k by (simp add: snull_poll_loop.simps[of st] dq Let_def)
    have "all_pkts ?st3 = all_pkts st"
      unfolding release_buffer_pkts using q by (simp add: all_pkts_split[of _ d] dev_pkts_def)
    moreover have "snull_ready ?st3" if "snull_ready st"
      using that by (intro release_buffer_pkts(2) ready_upd) (simp_all add: snull_ready_def)
    ultimately show ?thesis using "1.IH"[OF True dq[symmetric] refl k[symmetric] refl refl] step by simp
  qed
qed

lemma poll_pkts:
  "all_pkts (fst (snull_poll st d quota al)) = all_pkts st"
  "snull_ready st \<Longrightarrow> snull_ready (fst (snull_poll st d quota al))"
proof -
  obtain st1 n where l: "snull_poll_loop st d quota 0 al = (st1, n)" by force
  note P = poll_loop_pkts[of st d quota 0 al, unfolded l fst_conv]
  show "all_pkts (fst (snull_poll st d quota al)) = all_pkts st"
    using P by (simp add: snull_poll_def l all_pkts_upd dev_pkts_def snull_rx_ints_def)
  show "snull_ready st \<Longrightarrow> snull_ready (fst (snull_poll st d quota al))"
    using P by (simp add: snull_poll_def l ready_upd snull_ready_def snull_rx_ints_def)
qed

lemma hw_tx_pkts:
  assumes "snull_hw_tx csum napi lockup ok st d buf = Some st'"
  shows "all_pkts st' = all_pkts st" "snull_ready st \<Longrightarrow> snull_ready st'"
proof -
  have "all_pkts st' = all_pkts st \<and> (snull_ready st \<longrightarrow> snull_ready st')"
  proof (cases "length buf < 14 + 20")
    case True
    then show ?thesis using assms by (simp add: snull_hw_tx_def)
  next
    case False
    let ?b = "twisted csum buf"
    have H: "snull_hw_tx csum napi lockup ok st d buf \<noteq> None" using assms by simp
    then have w: "snull_twist csum buf = Some ?b"
      using False by (auto simp: snull_hw_tx_def snull_twist_def split: if_splits)
    obtain st1 p where g: "snull_get_tx_buffer st d = Some (st1, p)"
      using H False w by (auto simp: snull_hw_tx_def Let_def split: option.splits)
    have len: "\<not> length ?b > ETH_DATA_LEN" using H False g w by (auto simp: snull_hw_tx_def Let_def split: if_splits)
    let ?p = "p\<lparr>pk_datalen := length ?b, pk_data := ?b\<rparr>"
    define st2 where st2: "st2 = snull_enqueue_buf st1 (\<not> d) ?p"
    define st3 where st3: "st3 = (if rx_int_enabled (st2 (\<not> d))
      then snull_interrupt napi ok (st2(\<not> d := (st2 (\<not> d))\<lparr>status_rx := True\<rparr>)) (\<not> d) else st2)"
    define st4 where st4: "st4 = st3(d := (st3 d)\<lparr>tx_packetlen := length ?b, status_tx := True\<rparr>)"
    have "Some st' = (if lockup \<noteq> 0 \<and> (tx_packets (st4 d) + 1) mod lockup = 0
        then Some (st4(d := (st4 d)\<lparr>queue_stopped := True\<rparr>)) else Some (snull_interrupt napi ok st4 d))"
      using assms unfolding snull_hw_tx_def Let_def if_not_P[OF False] w g option.case prod.case if_not_P[OF len]
        st2[symmetric] st3[symmetric] st4[symmetric] by (rule sym)
    then have R: "st' = (if lockup \<noteq> 0 \<and> (tx_packets (st4 d) + 1) mod lockup = 0
        then st4(d := (st4 d)\<lparr>queue_stopped := True\<rparr>) else snull_interrupt napi ok st4 d)"
      by (simp only: option.inject if_distrib[of Some, symmetric])
    have n: "pkt_name ?p = pkt_name p" by (simp add: pkt_name_def)
    have p2: "all_pkts st2 = all_pkts st" unfolding st2 enqueue_buf_pkts n get_tx_buffer_pkts(1)[OF g] ..
    have p3: "all_pkts st3 = all_pkts st"
      unfolding st3 using p2 by (simp add: interrupt_pkts all_pkts_upd dev_pkts_def)
    have p4: "all_pkts st4 = all_pkts st" unfolding st4 using p3 by (simp add: all_pkts_upd dev_pkts_def)
    have p5: "all_pkts st' = all_pkts st" unfolding R using p4 by (simp add: interrupt_pkts all_pkts_upd dev_pkts_def)
    have "snull_ready st'" if r: "snull_ready st"
    proof -
      have r2: "snull_ready st2" unfolding st2 by (intro enqueue_buf_pkts get_tx_buffer_pkts(2)[OF g r])
      have "snull_ready (st2(\<not> d := (st2 (\<not> d))\<lparr>status_rx := True\<rparr>))"
        using r2 by (intro ready_upd) (simp_all add: snull_ready_def)
      then have r3: "snull_ready st3" unfolding st3 using r2 by (simp add: interrupt_pkts)
      then have r4: "snull_ready st4" unfolding st4 by (intro ready_upd) (simp_all add: snull_ready_def)
      show ?thesis unfolding R using r4 by (simp add: interrupt_pkts ready_upd)
    qed
    with p5 show ?thesis by blast
  qed
  then show "all_pkts st' = all_pkts st" "snull_ready st \<Longrightarrow> snull_ready st'" by blast+
qed

lemma length_twist [simp]: "length (twisted csum buf) = length buf"
  by (simp add: twisted_def Let_def split: prod.split)

lemma hw_tx_some:
  assumes "ppool (st d) \<noteq> []" "length buf \<le> ETH_DATA_LEN" "header_end buf \<le> length buf"
  shows "snull_hw_tx csum napi lockup ok st d buf \<noteq> None"
proof (cases "length buf < 14 + 20")
  case True
  then show ?thesis by (simp add: snull_hw_tx_def)
next
  case False
  obtain st1 p where g: "snull_get_tx_buffer st d = Some (st1, p)"
    using assms(1) by (cases "ppool (st d)") (simp_all add: snull_get_tx_buffer_def)
  have len: "\<not> length (twisted csum buf) > ETH_DATA_LEN" using assms(2) by simp
  have w: "snull_twist csum buf = Some (twisted csum buf)" using assms(3) by (simp add: snull_twist_def)
  have "(if b then Some x else Some y) \<noteq> None" for b and x y :: snull by simp
  then show ?thesis
    unfolding snull_hw_tx_def Let_def if_not_P[OF False] w g option.case prod.case if_not_P[OF len] .
qed

text \<open>The three ways in which a transmission of more than a header crashes.\<close>

lemma hw_tx_none:
  assumes "34 \<le> length buf"
  shows "snull_hw_tx csum napi lockup ok st d buf = None \<longleftrightarrow>
    ppool (st d) = [] \<or> ETH_DATA_LEN < length buf \<or> length buf < header_end buf"
proof (cases "ppool (st d) = [] \<or> ETH_DATA_LEN < length buf \<or> length buf < header_end buf")
  case True
  have "snull_hw_tx csum napi lockup ok st d buf = None"
    using True assms by (auto simp: snull_hw_tx_def snull_twist_def snull_get_tx_buffer_def split: list.split)
  then show ?thesis using True by blast
next
  case False
  then show ?thesis using hw_tx_some[of st d buf csum napi lockup ok] by (simp add: not_less)
qed

lemma tx_timeout_pkts: "all_pkts (snull_tx_timeout napi ok st d) = all_pkts st"
  unfolding snull_tx_timeout_def Let_def
  by (subst all_pkts_upd, simp add: dev_pkts_def, simp add: interrupt_pkts all_pkts_upd dev_pkts_def)

subsection \<open>What the kernel does with the interfaces\<close>

text \<open>
  The kernel transmits only on a started queue and polls only a device that asked for it.  With
  \<open>any\<close> also the watchdog may fire, and an interface may be brought up while all its buffers are in
  flight.
\<close>

inductive snull_step ::
  "(byte list \<Rightarrow> byte \<times> byte) \<Rightarrow> bool \<Rightarrow> nat \<Rightarrow> bool \<Rightarrow> snull \<Rightarrow> snull \<Rightarrow> bool"
  for csum napi lockup any where
  do_open: "any \<or> ppool (st d) \<noteq> [] \<Longrightarrow> snull_step csum napi lockup any st (snull_open st d)"
| do_release: "snull_step csum napi lockup any st (snull_release st d)"
| do_tx: "\<not> queue_stopped (st d) \<Longrightarrow> snull_tx csum napi lockup ok st d skb frame = Some st' \<Longrightarrow>
    snull_step csum napi lockup any st st'"
| do_poll: "poll_scheduled (st d) \<Longrightarrow> snull_step csum napi lockup any st (fst (snull_poll st d quota al))"
| do_timeout: "any \<Longrightarrow> snull_step csum napi lockup any st (snull_tx_timeout napi ok st d)"

inductive snull_reachable ::
  "(byte list \<Rightarrow> byte \<times> byte) \<Rightarrow> bool \<Rightarrow> nat \<Rightarrow> bool \<Rightarrow> snull \<Rightarrow> snull \<Rightarrow> bool"
  for csum napi lockup any st0 where
  at_start: "snull_reachable csum napi lockup any st0 st0"
| at_step: "snull_reachable csum napi lockup any st0 st \<Longrightarrow> snull_step csum napi lockup any st st' \<Longrightarrow>
    snull_reachable csum napi lockup any st0 st'"

lemma step_pkts:
  assumes "snull_step csum napi lockup any st st'"
  shows "all_pkts st' = all_pkts st \<and> (\<not> any \<and> snull_ready st \<longrightarrow> snull_ready st')"
  using assms
proof cases
  case (do_open d)
  then show ?thesis by (auto simp: snull_open_def all_pkts_upd dev_pkts_def intro!: ready_upd)
next
  case (do_release d)
  then show ?thesis by (auto simp: snull_release_def all_pkts_upd dev_pkts_def intro!: ready_upd)
next
  case (do_tx d ok skb frame)
  have "all_pkts (st(d := (st d)\<lparr>priv_skb := skb\<rparr>)) = all_pkts st" by (simp add: all_pkts_upd dev_pkts_def)
  moreover have "snull_ready (st(d := (st d)\<lparr>priv_skb := skb\<rparr>))" if "snull_ready st"
    using that by (intro ready_upd) (simp_all add: snull_ready_def)
  ultimately show ?thesis using hw_tx_pkts[OF do_tx(2)[unfolded snull_tx_def]] by simp
next
  case (do_poll d quota al)
  then show ?thesis using poll_pkts by simp
next
  case (do_timeout ok d)
  then show ?thesis using tx_timeout_pkts by simp
qed

lemma setup_pool_names:
  "mset (map pkt_name (snull_setup_pool d al n pool)) \<subseteq># mset (map pkt_name pool) + mset (map (Pair d) [0..<n])"
proof (induction n arbitrary: al pool)
  case (Suc n)
  let ?p = "\<lparr>pk_id = n, pk_dev = d, pk_datalen = 0, pk_data = []\<rparr>"
  obtain ok al' where k: "kmalloc al = (ok, al')" by force
  have "mset (map pkt_name (snull_setup_pool d al' n (?p # pool))) \<subseteq>#
      mset (map pkt_name (?p # pool)) + mset (map (Pair d) [0..<n])" by (rule Suc.IH)
  moreover have "pkt_name ?p = (d, n)" by (simp add: pkt_name_def)
  ultimately show ?case using k by (cases ok) (simp_all add: subset_mset.le_add_same_cancel1)
qed simp

lemma distinct_subset_count:
  assumes "A \<subseteq># mset xs" "distinct xs"
  shows "count A x \<le> 1"
proof -
  have "count A x \<le> count (mset xs) x" using assms(1) by (rule mset_subset_eq_count)
  then show ?thesis using assms(2) by (simp add: distinct_count_atmost_1 split: if_splits)
qed

lemma init_distinct: "count (all_pkts (snull_init n al0 al1)) x \<le> 1"
proof -
  have le: "dev_pkts (snull_init n al0 al1 d) \<subseteq># mset (map (Pair d) [0..<n])" for d
    using setup_pool_names[of d "if d then al1 else al0" n "[]"]
    by (cases d) (simp_all add: dev_pkts_def snull_init_def)
  have "all_pkts (snull_init n al0 al1) \<subseteq># mset (map (Pair False) [0..<n] @ map (Pair True) [0..<n])"
    unfolding all_pkts_def mset_append by (intro subset_mset.add_mono le)
  moreover have "distinct (map (Pair False) [0..<n] @ map (Pair True) [0..<n])"
    by (auto simp: distinct_map inj_on_def)
  ultimately show ?thesis by (rule distinct_subset_count)
qed

lemma reachable_pkts:
  assumes "snull_reachable csum napi lockup any st0 st"
  shows "all_pkts st = all_pkts st0 \<and> (\<not> any \<and> snull_ready st0 \<longrightarrow> snull_ready st)"
  using assms by (induction rule: snull_reachable.induct) (auto dest: step_pkts)

lemma init_ready: "snull_ready (snull_init n al0 al1)"
  by (simp add: snull_ready_def snull_init_def)

subsection \<open>The regular driver at rest\<close>

text \<open>Between two calls the interrupt-driven device has handed on everything it received.\<close>

definition snull_quiet :: "snull \<Rightarrow> bool" where
  "snull_quiet st \<longleftrightarrow> (\<forall>d. rx_queue (st d) = [] \<and> rx_int_enabled (st d) \<and> \<not> status_rx (st d) \<and>
     \<not> poll_scheduled (st d) \<and> (\<forall>p\<in>set (ppool (st d)). pk_dev p = d))"

definition quiet_dev :: "snull_priv \<Rightarrow> bool \<Rightarrow> bool" where
  "quiet_dev v d \<longleftrightarrow> rx_queue v = [] \<and> rx_int_enabled v \<and> \<not> status_rx v \<and>
     \<not> poll_scheduled v \<and> (\<forall>p\<in>set (ppool v). pk_dev p = d)"

lemma quiet_iff: "snull_quiet st \<longleftrightarrow> (\<forall>d. quiet_dev (st d) d)"
  by (simp add: snull_quiet_def quiet_dev_def)

lemma quiet_upd: "snull_quiet st \<Longrightarrow> quiet_dev v d \<Longrightarrow> snull_quiet (st(d := v))"
  by (simp add: quiet_iff)

lemma quiet_interrupt_eq:
  assumes "\<not> status_rx (st d)"
  shows "snull_regular_interrupt ok st d =
     st(d := (if status_tx (st d) then snull_tx_done else (\<lambda>v. v)) ((st d)\<lparr>status_rx := False, status_tx := False\<rparr>))"
  using assms by (simp add: snull_regular_interrupt_def Let_def)

lemma quiet_interrupt: "snull_quiet st \<Longrightarrow> snull_quiet (snull_regular_interrupt ok st d)"
  by (subst quiet_interrupt_eq)
    (auto simp: quiet_iff quiet_dev_def snull_tx_done_def)

text \<open>One transmission in the regular mode, written out.\<close>

definition regular_peer :: "bool \<Rightarrow> snull_priv \<Rightarrow> snull_packet \<Rightarrow> snull_priv" where
  "regular_peer ok v p =
     (if status_tx v then snull_tx_done else (\<lambda>v. v))
       (snull_rx ok (v\<lparr>status_rx := False, status_tx := False\<rparr>) p)"

definition regular_sender :: "nat \<Rightarrow> snull_priv \<Rightarrow> snull_packet \<Rightarrow> snull_packet list \<Rightarrow> snull_priv" where
  "regular_sender lockup v p ps =
     (let w = v\<lparr>ppool := p # ps, queue_stopped := (queue_stopped v \<and> ps \<noteq> []), tx_packetlen := pk_datalen p\<rparr>
      in if lockup \<noteq> 0 \<and> (tx_packets v + 1) mod lockup = 0 then w\<lparr>status_tx := True, queue_stopped := True\<rparr>
         else snull_tx_done (w\<lparr>status_rx := False, status_tx := False\<rparr>))"

lemma regular_interrupt_rx:
  assumes "status_rx (st d)" "rx_queue (st d) = p # q"
  shows "snull_regular_interrupt ok st d = snull_release_buffer (st(d :=
     (if status_tx (st d) then snull_tx_done else (\<lambda>v. v))
       (snull_rx ok ((st d)\<lparr>status_rx := False, status_tx := False, rx_queue := q\<rparr>) p))) p"
  using assms by (simp add: snull_regular_interrupt_def Let_def)

lemma release_own:
  "pk_dev p = d \<Longrightarrow> snull_release_buffer (st(\<not> d := v)) p =
     st(\<not> d := v, d := (st d)\<lparr>ppool := p # ppool (st d), queue_stopped := (queue_stopped (st d) \<and> ppool (st d) \<noteq> [])\<rparr>)"
  by (simp add: snull_release_buffer_def Let_def)

lemma peer_interrupt:
  assumes "rx_queue v = []" "rx_int_enabled v" "pk_dev p = d" "st2 (\<not> d) = v\<lparr>rx_queue := [p]\<rparr>"
  shows "snull_interrupt False ok (st2(\<not> d := (st2 (\<not> d))\<lparr>status_rx := True\<rparr>)) (\<not> d) =
     st2(\<not> d := regular_peer ok v p, d := (st2 d)\<lparr>ppool := p # ppool (st2 d),
        queue_stopped := (queue_stopped (st2 d) \<and> ppool (st2 d) \<noteq> [])\<rparr>)"
proof -
  let ?st = "st2(\<not> d := (st2 (\<not> d))\<lparr>status_rx := True\<rparr>)"
  have s: "?st (\<not> d) = v\<lparr>rx_queue := [p], status_rx := True\<rparr>" using assms(4) by simp
  have r: "v\<lparr>rx_queue := [p], status_rx := True\<rparr>\<lparr>status_rx := False, status_tx := False, rx_queue := []\<rparr> =
      v\<lparr>status_rx := False, status_tx := False\<rparr>" using assms(1) by (cases v) simp
  have tx: "status_tx (v\<lparr>rx_queue := [p], status_rx := True\<rparr>) = status_tx v" by simp
  have "snull_interrupt False ok ?st (\<not> d) = snull_release_buffer (?st(\<not> d := regular_peer ok v p)) p"
    unfolding snull_interrupt_def if_False regular_peer_def r[symmetric] tx[symmetric] s[symmetric]
    by (rule regular_interrupt_rx) (simp_all add: s assms(4))
  also have "?st(\<not> d := regular_peer ok v p) = st2(\<not> d := regular_peer ok v p)" by simp
  also have "snull_release_buffer (st2(\<not> d := regular_peer ok v p)) p =
     st2(\<not> d := regular_peer ok v p, d := (st2 d)\<lparr>ppool := p # ppool (st2 d),
        queue_stopped := (queue_stopped (st2 d) \<and> ppool (st2 d) \<noteq> [])\<rparr>)"
    by (rule release_own[OF assms(3)])
  finally show ?thesis .
qed

lemma hw_tx_regular:
  fixes csum :: "byte list \<Rightarrow> byte \<times> byte"
  assumes q: "snull_quiet st" and pool: "ppool (st d) = p # ps"
    and len: "34 \<le> length buf" "length buf \<le> ETH_DATA_LEN" "header_end buf \<le> length buf"
  defines "p' \<equiv> p\<lparr>pk_datalen := length buf, pk_data := twisted csum buf\<rparr>"
  shows "snull_hw_tx csum False lockup ok st d buf =
     Some (st(\<not> d := regular_peer ok (st (\<not> d)) p', d := regular_sender lockup (st d) p' ps))"
proof -
  have e: "pk_dev p = d" "rx_queue (st (\<not> d)) = []" "rx_int_enabled (st (\<not> d))" "\<not> status_rx (st d)"
    using q pool by (simp_all add: snull_quiet_def)
  let ?b = "twisted csum buf"
  have w: "snull_twist csum buf = Some ?b" using len(3) by (simp add: snull_twist_def)
  let ?v = "(st d)\<lparr>ppool := ps, queue_stopped := (ps = [] \<or> queue_stopped (st d))\<rparr>"
  have g: "snull_get_tx_buffer st d = Some (st(d := ?v), p)" by (simp add: snull_get_tx_buffer_def pool)
  define st2 where st2: "st2 = snull_enqueue_buf (st(d := ?v)) (\<not> d) p'"
  have s2: "st2 (\<not> d) = (st (\<not> d))\<lparr>rx_queue := [p']\<rparr>" "st2 d = ?v" "rx_int_enabled (st2 (\<not> d))"
    using e by (simp_all add: st2 snull_enqueue_buf_def)
  define st3 where st3: "st3 = (if rx_int_enabled (st2 (\<not> d))
      then snull_interrupt False ok (st2(\<not> d := (st2 (\<not> d))\<lparr>status_rx := True\<rparr>)) (\<not> d) else st2)"
  have pd: "pk_dev p' = d" using e by (simp add: p'_def)
  let ?w = "?v\<lparr>ppool := p' # ps, queue_stopped := (queue_stopped (st d) \<and> ps \<noteq> [])\<rparr>"
  have P: "snull_interrupt False ok (st2(\<not> d := (st2 (\<not> d))\<lparr>status_rx := True\<rparr>)) (\<not> d) =
     st2(\<not> d := regular_peer ok (st (\<not> d)) p', d := (st2 d)\<lparr>ppool := p' # ppool (st2 d),
        queue_stopped := (queue_stopped (st2 d) \<and> ppool (st2 d) \<noteq> [])\<rparr>)"
    by (rule peer_interrupt) (fact e(2) e(3) pd s2(1))+
  have st3': "st3 = st2(\<not> d := regular_peer ok (st (\<not> d)) p', d := ?w)"
    unfolding st3 if_P[OF s2(3)] P s2(2) by (cases "ps = []") simp_all
  define st4 where st4: "st4 = st3(d := (st3 d)\<lparr>tx_packetlen := length ?b, status_tx := True\<rparr>)"
  have s4: "st4 d = ?w\<lparr>tx_packetlen := length ?b, status_tx := True\<rparr>" by (simp add: st4 st3')
  have s4': "st4(d := x) = st(\<not> d := regular_peer ok (st (\<not> d)) p', d := x)" for x
    by (rule ext) (simp add: st4 st3' st2 snull_enqueue_buf_def)
  have "snull_hw_tx csum False lockup ok st d buf =
     (if lockup \<noteq> 0 \<and> (tx_packets (st4 d) + 1) mod lockup = 0
      then Some (st4(d := (st4 d)\<lparr>queue_stopped := True\<rparr>)) else Some (snull_interrupt False ok st4 d))"
    using len(1,2) unfolding snull_hw_tx_def Let_def w g option.case prod.case p'_def[symmetric] length_twist[of csum buf]
      st2[symmetric] st3[symmetric] by (simp add: st4)
  moreover have "snull_interrupt False ok st4 d =
      st4(d := snull_tx_done ((st4 d)\<lparr>status_rx := False, status_tx := False\<rparr>))"
    using e(4) by (simp add: snull_interrupt_def quiet_interrupt_eq s4)
  moreover have "pk_datalen p' = length ?b" by (simp add: p'_def)
  ultimately show ?thesis using e(4)
    by (simp add: s4' s4 regular_sender_def Let_def)
qed

text \<open>A sender at rest stays at rest, so the peer sees every frame at once.\<close>

lemma setup_pool_dev: "(\<forall>p\<in>set pool. pk_dev p = d) \<Longrightarrow> \<forall>p\<in>set (snull_setup_pool d al n pool). pk_dev p = d"
proof (induction n arbitrary: al pool)
  case (Suc n)
  obtain ok al' where k: "kmalloc al = (ok, al')" by force
  show ?case
    using Suc.IH[of "\<lparr>pk_id = n, pk_dev = d, pk_datalen = 0, pk_data = []\<rparr> # pool" al'] Suc.prems k
    by (cases ok) simp_all
qed simp

lemma init_quiet: "snull_quiet (snull_init n al0 al1)"
  using setup_pool_dev[of "[]"] by (simp add: snull_quiet_def snull_init_def)

lemma tx_regular_quiet:
  assumes q: "snull_quiet st" and s: "snull_hw_tx csum False lockup ok st d buf = Some st'"
  shows "snull_quiet st'"
proof (cases "length buf < 34")
  case True
  then show ?thesis using s q by (simp add: snull_hw_tx_def)
next
  case False
  then have len34: "34 \<le> length buf" by simp
  have "snull_hw_tx csum False lockup ok st d buf \<noteq> None" using s by simp
  then have c: "ppool (st d) \<noteq> []" "length buf \<le> ETH_DATA_LEN" "header_end buf \<le> length buf"
    unfolding hw_tx_none[OF len34] by auto
  then obtain p ps where pool: "ppool (st d) = p # ps" by (cases "ppool (st d)") auto
  let ?p = "p\<lparr>pk_datalen := length buf, pk_data := twisted csum buf\<rparr>"
  have R: "st' = st(\<not> d := regular_peer ok (st (\<not> d)) ?p, d := regular_sender lockup (st d) ?p ps)"
    using s hw_tx_regular[OF q pool len34 c(2,3), of csum lockup ok] by simp
  have "quiet_dev (regular_peer ok (st (\<not> d)) ?p) (\<not> d)"
    using q by (simp add: quiet_iff quiet_dev_def regular_peer_def snull_tx_done_def snull_rx_def)
  moreover have "quiet_dev (regular_sender lockup (st d) ?p ps) d"
    using q[unfolded quiet_iff, rule_format, of d] pool
    by (simp add: quiet_dev_def regular_sender_def snull_tx_done_def Let_def)
  ultimately show ?thesis unfolding R using q by (intro quiet_upd)
qed

lemma step_regular_quiet:
  assumes "snull_step csum False lockup any st st'" "snull_quiet st"
  shows "snull_quiet st'"
  using assms(1)
proof cases
  case (do_open d)
  then show ?thesis using assms(2) by (simp add: snull_open_def quiet_iff quiet_dev_def)
next
  case (do_release d)
  then show ?thesis using assms(2) by (simp add: snull_release_def quiet_iff quiet_dev_def)
next
  case (do_tx d ok skb frame)
  have "snull_quiet (st(d := (st d)\<lparr>priv_skb := skb\<rparr>))" using assms(2) by (simp add: quiet_iff quiet_dev_def)
  then show ?thesis using tx_regular_quiet do_tx(2)[unfolded snull_tx_def] by blast
next
  case (do_poll d quota al)
  then show ?thesis using assms(2) by (simp add: snull_quiet_def)
next
  case (do_timeout ok d)
  let ?st1 = "st(d := (st d)\<lparr>status_rx := False, status_tx := True\<rparr>)"
  have "snull_quiet ?st1" using assms(2) by (simp add: quiet_iff quiet_dev_def)
  then have "snull_quiet (snull_regular_interrupt ok ?st1 d)" by (rule quiet_interrupt)
  then show ?thesis unfolding do_timeout(1) snull_tx_timeout_def Let_def snull_interrupt_def if_False
    by (simp add: quiet_iff quiet_dev_def)
qed

lemma reachable_regular_quiet:
  "snull_reachable csum False lockup any (snull_init n al0 al1) st \<Longrightarrow> snull_quiet st"
  by (induction rule: snull_reachable.induct) (auto intro: init_quiet step_regular_quiet)

subsection \<open>Polling\<close>

lemma poll_loop_drains:
  assumes "length (rx_queue (st d)) \<le> quota - n"
  shows "rx_queue (fst (snull_poll_loop st d quota n []) d) = [] \<and>
    snd (snull_poll_loop st d quota n []) = n + length (rx_queue (st d)) \<and>
    delivered (fst (snull_poll_loop st d quota n []) d) =
      delivered (st d) @ map (\<lambda>p. take (pk_datalen p) (pk_data p)) (rx_queue (st d))"
  using assms
proof (induction "rx_queue (st d)" arbitrary: st n)
  case Nil
  then have "\<not> (n < quota \<and> rx_queue (st d) \<noteq> [])" by simp
  from if_not_P[OF this] show ?case using Nil by (simp add: snull_poll_loop.simps[of st])
next
  case (Cons p q)
  let ?st1 = "st(d := (st d)\<lparr>rx_queue := q\<rparr>)"
  let ?st3 = "snull_release_buffer (?st1(d := snull_rx True (?st1 d) p)) p"
  have dq: "snull_dequeue_buf st d = (?st1, Some p)" using Cons.hyps(2)[symmetric] by (simp add: snull_dequeue_buf_def)
  have lt: "n < quota" using Cons.prems Cons.hyps(2)[symmetric] by simp
  have step: "snull_poll_loop st d quota n [] = snull_poll_loop ?st3 d quota (n + 1) []"
    using lt Cons.hyps(2)[symmetric] by (simp add: snull_poll_loop.simps[of st] dq Let_def)
  have q3: "rx_queue (?st3 d) = q" "delivered (?st3 d) = delivered (st d) @ [take (pk_datalen p) (pk_data p)]"
    by (simp_all add: snull_release_buffer_def Let_def snull_rx_def)
  have "length (rx_queue (?st3 d)) \<le> quota - (n + 1)" using Cons.prems Cons.hyps(2)[symmetric] q3 by simp
  from Cons.hyps(1)[where st = ?st3 and n = "n + 1", OF q3(1)[symmetric] this] show ?case
    unfolding step q3 Cons.hyps(2)[symmetric] by simp
qed

subsection \<open>Properties\<close>

text \<open>
  C4. No packet buffer is lost or duplicated: whatever the kernel does with the two interfaces
  (opening, closing, sending, polling, even the watchdog), in both driver modes and for any lockup
  setting, the buffers in the two pools and the two receive queues are together the ones set up at load
  time, each in one place.
\<close>

theorem snull_conserves:
  assumes "snull_reachable csum napi lockup any (snull_init n al0 al1) st"
  shows "all_pkts st = all_pkts (snull_init n al0 al1) \<and> count (all_pkts st) x \<le> 1"
  using reachable_pkts[OF assms] init_distinct by simp

text \<open>A concrete session in the polled mode: both devices up, one frame sent, then polled.\<close>

definition demo_csum :: "byte list \<Rightarrow> byte \<times> byte" where
  "demo_csum h = (sum_list h, 7)"

definition demo_frame :: "byte list" where
  "demo_frame = replicate 14 0 @ [69] @ replicate 27 9"

definition demo_up :: "nat \<Rightarrow> snull" where
  "demo_up n = snull_open (snull_open (snull_init n [] []) False) True"

lemma setup_pool_nonempty: "xs \<noteq> [] \<or> 0 < k \<Longrightarrow> snull_setup_pool d [] k xs \<noteq> []"
proof (induction k arbitrary: xs)
  case (Suc k)
  then show ?case by simp
qed simp

lemma demo_up_pools: "0 < n \<Longrightarrow> ppool (demo_up n d) \<noteq> []" "\<not> queue_stopped (demo_up n d)"
  by (cases d; simp add: demo_up_def snull_open_def snull_init_def setup_pool_nonempty)+

lemma demo_up_reachable:
  assumes "0 < n"
  shows "snull_reachable csum napi lockup any (snull_init n [] []) (demo_up n)"
proof -
  let ?s0 = "snull_init n [] []"
  have "ppool (?s0 False) \<noteq> []" "ppool (snull_open ?s0 False True) \<noteq> []"
    using assms by (simp_all add: snull_init_def snull_open_def setup_pool_nonempty)
  then have "snull_step csum napi lockup any ?s0 (snull_open ?s0 False)"
      "snull_step csum napi lockup any (snull_open ?s0 False) (demo_up n)"
    unfolding demo_up_def using do_open by blast+
  then show ?thesis by (meson at_start at_step)
qed

theorem snull_conserves_witness:
  "all_pkts (demo_up 8) = all_pkts (snull_init 8 [] []) \<and> count (all_pkts (demo_up 8)) (True, 3) \<le> 1"
  by (rule snull_conserves[OF demo_up_reachable]) simp

text \<open>
  C13. Without the watchdog, and with an interface brought up only while its pool has a buffer, a started queue always
  has a packet buffer, and sending on it crashes exactly for a frame of more than 1500 bytes, which overruns the packet
  buffer, or one whose IP header claims to be longer than the padded frame, which the checksum then reads past.
\<close>

theorem snull_no_crash:
  assumes "snull_reachable csum napi lockup False (snull_init n al0 al1) st" "\<not> queue_stopped (st d)"
  shows "ppool (st d) \<noteq> [] \<and>
    (snull_tx csum napi lockup skb_ok st d skb frame = None \<longleftrightarrow>
       ETH_DATA_LEN < length frame \<or> length (snull_pad frame) < header_end (snull_pad frame))"
proof -
  have p: "ppool (st d) \<noteq> []"
    using reachable_pkts[OF assms(1)] init_ready assms(2) by (auto simp: snull_ready_def)
  have "34 \<le> length (snull_pad frame)" "ETH_DATA_LEN < length (snull_pad frame) \<longleftrightarrow> ETH_DATA_LEN < length frame"
    by (auto simp: snull_pad_def)
  then show ?thesis unfolding snull_tx_def using p by (simp add: hw_tx_none)
qed

theorem snull_no_crash_witness:
  "ppool (demo_up 8 True) \<noteq> [] \<and> snull_tx demo_csum True 0 False (demo_up 8) True 5 demo_frame \<noteq> None \<and>
   snull_tx demo_csum True 0 False (demo_up 8) True 5 (demo_frame[14 := 79]) = None"
proof -
  have u: "snull_reachable demo_csum True 0 False (snull_init 8 [] []) (demo_up 8)" "\<not> queue_stopped (demo_up 8 True)"
    by (simp_all add: demo_up_reachable demo_up_pools)
  have "\<not> ETH_DATA_LEN < length demo_frame" "\<not> length (snull_pad demo_frame) < header_end (snull_pad demo_frame)"
    "length (snull_pad (demo_frame[14 := 79])) < header_end (snull_pad (demo_frame[14 := 79]))"
    by code_simp+
  then show ?thesis
    using snull_no_crash[OF u, of False 5 demo_frame] snull_no_crash[OF u, of False 5 "demo_frame[14 := 79]"] by blast
qed

text \<open>Nothing keeps an interface from being brought up while all its buffers are in flight.\<close>

lemma snull_open_unsafe:
  assumes "ppool (st d) = []"
  shows "\<not> queue_stopped (snull_open st d d) \<and> snull_tx csum napi lockup ok (snull_open st d) d skb frame = None"
proof -
  have "34 \<le> length (snull_pad frame)" by (simp add: snull_pad_def)
  then show ?thesis using assms by (simp add: snull_tx_def hw_tx_none snull_open_def)
qed

text \<open>
  In the interrupt-driven mode a frame of at most 1500 bytes arrives at the other interface within the
  call, padded to 60 bytes and with the addresses and the checksum changed; the packet buffer is back
  in its pool, nothing arrives at the sender, and without simulated lockups the transmission is counted
  and the socket buffer freed, once.
\<close>

theorem snull_loopback:
  assumes "snull_reachable csum False lockup any (snull_init n al0 al1) st"
    and "ppool (st d) \<noteq> []" "length frame \<le> ETH_DATA_LEN" "header_end (snull_pad frame) \<le> length (snull_pad frame)"
  shows "case snull_tx csum False lockup True st d skb frame of None \<Rightarrow> False | Some st' \<Rightarrow>
     delivered (st' (\<not> d)) = delivered (st (\<not> d)) @ [twisted csum (snull_pad frame)] \<and>
     rx_packets (st' (\<not> d)) = rx_packets (st (\<not> d)) + 1 \<and>
     rx_bytes (st' (\<not> d)) = rx_bytes (st (\<not> d)) + length (snull_pad frame) \<and>
     delivered (st' d) = delivered (st d) \<and>
     map pkt_name (ppool (st' d)) = map pkt_name (ppool (st d)) \<and>
     (lockup = 0 \<longrightarrow> tx_packets (st' d) = tx_packets (st d) + 1 \<and>
        tx_bytes (st' d) = tx_bytes (st d) + length (snull_pad frame) \<and>
        freed_skbs (st' d) = freed_skbs (st d) @ [skb] \<and> queue_stopped (st' d) \<le> queue_stopped (st d))"
proof -
  let ?s = "st(d := (st d)\<lparr>priv_skb := skb\<rparr>)" and ?f = "snull_pad frame"
  obtain p ps where pool: "ppool (st d) = p # ps" using assms(2) by (cases "ppool (st d)") auto
  have q: "snull_quiet ?s" using reachable_regular_quiet[OF assms(1)] by (simp add: quiet_iff quiet_dev_def)
  have "34 \<le> length ?f" "length ?f \<le> ETH_DATA_LEN" using assms(3) by (simp_all add: snull_pad_def)
  note tx = hw_tx_regular[OF q _ this assms(4), of d p ps csum lockup True, folded snull_tx_def]
  show ?thesis
    using pool \<open>length ?f \<le> ETH_DATA_LEN\<close>
    by (subst tx) (simp_all add: regular_peer_def regular_sender_def snull_rx_def snull_tx_done_def pkt_name_def Let_def)
qed

theorem snull_loopback_witness:
  "case snull_tx demo_csum False 0 True (demo_up 8) False 5 demo_frame of None \<Rightarrow> False | Some st' \<Rightarrow>
     delivered (st' True) = delivered (demo_up 8 True) @ [twisted demo_csum (snull_pad demo_frame)]"
proof -
  have "length demo_frame \<le> ETH_DATA_LEN" "header_end (snull_pad demo_frame) \<le> length (snull_pad demo_frame)" by code_simp+
  from snull_loopback[OF demo_up_reachable demo_up_pools(1) this, of 8 False demo_csum 0 5]
  show ?thesis by (simp split: option.splits)
qed

text \<open>
  A poll with enough quota hands on every received packet, in the order of the receive queue,
  which is last in first out (a burst arrives reversed), and then turns interrupts back on.
\<close>

theorem snull_poll_drains:
  assumes "length (rx_queue (st d)) \<le> quota"
  shows "case snull_poll st d quota [] of (st', n, r) \<Rightarrow>
     rx_queue (st' d) = [] \<and> rx_int_enabled (st' d) \<and> \<not> poll_scheduled (st' d) \<and> r = 0 \<and>
     n = length (rx_queue (st d)) \<and>
     delivered (st' d) = delivered (st d) @ map (\<lambda>p. take (pk_datalen p) (pk_data p)) (rx_queue (st d)) \<and>
     all_pkts st' = all_pkts st \<and>
     rx_queue (snull_enqueue_buf st d p d) = p # rx_queue (st d)"
proof -
  obtain st1 n where l: "snull_poll_loop st d quota 0 [] = (st1, n)" by force
  have L: "rx_queue (st1 d) = []" "n = length (rx_queue (st d))"
      "delivered (st1 d) = delivered (st d) @ map (\<lambda>p. take (pk_datalen p) (pk_data p)) (rx_queue (st d))"
    using poll_loop_drains[of st d quota 0] assms unfolding l by simp_all
  have "all_pkts (fst (snull_poll st d quota [])) = all_pkts st" by (rule poll_pkts)
  then show ?thesis
    by (simp add: snull_poll_def l L snull_rx_ints_def snull_enqueue_buf_def)
qed

theorem snull_poll_drains_witness:
  "delivered (fst (snull_poll (snull_enqueue_buf (snull_enqueue_buf (demo_up 2) True
      \<lparr>pk_id = 0, pk_dev = False, pk_datalen = 1, pk_data = [10]\<rparr>) True
      \<lparr>pk_id = 1, pk_dev = False, pk_datalen = 1, pk_data = [20]\<rparr>) True 64 []) True) = [[20], [10]]"
  using snull_poll_drains[of "snull_enqueue_buf (snull_enqueue_buf (demo_up 2) True
      \<lparr>pk_id = 0, pk_dev = False, pk_datalen = 1, pk_data = [10]\<rparr>) True
      \<lparr>pk_id = 1, pk_dev = False, pk_datalen = 1, pk_data = [20]\<rparr>" True 64]
  by (simp add: snull_enqueue_buf_def demo_up_def snull_open_def snull_init_def split: prod.splits)

text \<open>
  The watchdog is not safe: when the pool is empty (the reason the queue was stopped), the timeout
  handler starts the queue all the same, so the next frame is sent with a null packet buffer; and
  it frees the last socket buffer again, which the transmit interrupt has already freed.
\<close>

theorem snull_timeout_unsafe:
  assumes "ppool (st d) = []"
  shows "\<not> queue_stopped (snull_tx_timeout napi ok st d d) \<and>
     snull_tx csum napi lockup ok' (snull_tx_timeout napi ok st d) d skb frame = None \<and>
     freed_skbs (snull_tx_timeout napi ok st d d) = freed_skbs (st d) @ [priv_skb (st d)]"
proof -
  have e: "ppool (snull_tx_timeout napi ok st d d) = []"
    using assms by (simp add: snull_tx_timeout_def snull_interrupt_def snull_napi_interrupt_def
        quiet_interrupt_eq Let_def)
  have "34 \<le> length (snull_pad frame)" by (simp add: snull_pad_def)
  then have "snull_tx csum napi lockup ok' (snull_tx_timeout napi ok st d) d skb frame = None"
    by (simp add: snull_tx_def hw_tx_none e)
  then show ?thesis
    by (simp add: snull_tx_timeout_def snull_interrupt_def snull_napi_interrupt_def snull_tx_done_def
        quiet_interrupt_eq Let_def)
qed

text \<open>With a pool of one buffer the polled driver gets there with one frame; buffer 7 is freed twice.\<close>

definition demo_stuck :: snull where
  "demo_stuck = the (snull_tx demo_csum True 0 True (demo_up 1) False 7 demo_frame)"

theorem snull_timeout_unsafe_witness:
  "queue_stopped (demo_stuck False) \<and> freed_skbs (snull_tx_timeout True True demo_stuck False False) = [7, 7] \<and>
   snull_tx demo_csum True 0 True (snull_tx_timeout True True demo_stuck False) False 8 demo_frame = None"
proof -
  have "ppool (demo_stuck False) = []" "queue_stopped (demo_stuck False)" "freed_skbs (demo_stuck False) = [7]"
      "priv_skb (demo_stuck False) = 7"
    by code_simp+
  then show ?thesis using snull_timeout_unsafe[of demo_stuck False True True demo_csum 0 True 8 demo_frame] by simp
qed

end
