(* ===== verification/Union_Find.thy ===== *)
theory Union_Find
  imports Ak_Prelude "HOL-Library.Monad_Syntax"
begin

text \<open>
  The disjoint sets of \<open>acm-lib/disjoint_set\<close>: the arrays \<open>v\<close> (parents) and \<open>rank\<close>, \<open>find\<close> with path
  compression and \<open>judge\<close>, which joins two sets.  \<open>None\<close> is an access outside the arrays or a recursion
  that does not end.
\<close>

abbreviation DS_SIZE :: nat where "DS_SIZE \<equiv> 1000"

record disjoint_set =
  ds_v :: "nat list"
  ds_rank :: "int list"

text \<open>The global arrays start out zero.\<close>

definition ds_init :: "nat \<Rightarrow> disjoint_set \<Rightarrow> disjoint_set option" where
  "ds_init n s =
     (if 1 \<le> n \<and> length (ds_v s) \<le> n then None
      else Some (fold (\<lambda>i s. s\<lparr>ds_v := (ds_v s)[i := i], ds_rank := (ds_rank s)[i := 0]\<rparr>) [1..<n + 1] s))"

definition ds_zero :: disjoint_set where
  "ds_zero = \<lparr>ds_v = replicate DS_SIZE 0, ds_rank = replicate DS_SIZE 0\<rparr>"

partial_function (option) ds_find :: "nat list \<Rightarrow> nat \<Rightarrow> (nat list \<times> nat) option" where
  "ds_find v p =
     (if length v \<le> p then None
      else if v ! p = p then Some (v, p)
      else Option.bind (ds_find v (v ! p)) (\<lambda>(v', r). Some (v'[p := r], r)))"

declare ds_find.simps [code]

text \<open>The condition \<open>rank[fa]=rank[fb]\<close> is an assignment.\<close>

definition judge :: "disjoint_set \<Rightarrow> nat \<Rightarrow> nat \<Rightarrow> disjoint_set option" where
  "judge s a b =
     Option.bind (ds_find (ds_v s) a) (\<lambda>(v1, fa).
     Option.bind (ds_find v1 b) (\<lambda>(v2, fb).
       if fa = fb then Some (s\<lparr>ds_v := v2\<rparr>)
       else if ds_rank s ! fa > ds_rank s ! fb then Some (s\<lparr>ds_v := v2[fb := fa]\<rparr>)
       else
         let rank1 = (ds_rank s)[fa := ds_rank s ! fb]
         in Some (s\<lparr>ds_v := v2[fa := v2 ! fb],
                   ds_rank := (if rank1 ! fa \<noteq> 0 then rank1[fb := rank1 ! fb + 1] else rank1)\<rparr>)))"

fun ds_run :: "(nat \<times> nat) list \<Rightarrow> disjoint_set \<Rightarrow> disjoint_set option" where
  "ds_run [] s = Some s"
| "ds_run ((a, b) # ops) s = Option.bind (judge s a b) (ds_run ops)"

subsection \<open>Representatives\<close>

inductive rep :: "nat list \<Rightarrow> nat \<Rightarrow> nat \<Rightarrow> bool" for v where
  rep_root: "p < length v \<Longrightarrow> v ! p = p \<Longrightarrow> rep v p p"
| rep_step: "p < length v \<Longrightarrow> v ! p \<noteq> p \<Longrightarrow> rep v (v ! p) r \<Longrightarrow> rep v p r"

inductive_cases repE: "rep v p r"

definition forest :: "nat list \<Rightarrow> bool" where
  "forest v \<longleftrightarrow> (\<forall>p < length v. \<exists>r. rep v p r)"

lemma rep_det: "rep v p r \<Longrightarrow> rep v p s \<Longrightarrow> r = s"
proof (induction rule: rep.induct)
  case (rep_root p)
  then show ?case by (auto elim: repE)
next
  case (rep_step p r)
  from rep_step(5) show ?case
  proof (rule repE)
    assume "v ! p = p"
    then show ?thesis using rep_step(2) by simp
  qed (rule rep_step(4))
qed

lemma rep_range: "rep v p r \<Longrightarrow> p < length v \<and> r < length v \<and> v ! r = r"
  by (induction rule: rep.induct) simp_all

lemma rep_idem: "rep v p r \<Longrightarrow> rep v r r"
  using rep_range by (blast intro: rep_root)

text \<open>A change of one parent that keeps the representatives, or joins two sets.\<close>

lemma rep_same_parent: "rep (v[p := r]) (v ! x) y \<Longrightarrow> x < length v \<Longrightarrow> x \<noteq> p \<Longrightarrow> v ! x \<noteq> x \<Longrightarrow> rep (v[p := r]) x y"
  by (rule rep.rep_step) simp_all

lemma rep_same_root: "x < length v \<Longrightarrow> x \<noteq> p \<Longrightarrow> v ! x = x \<Longrightarrow> rep (v[p := r]) x x"
  by (rule rep.rep_root) simp_all

lemma rep_new_parent: "rep (v[p := r]) r y \<Longrightarrow> p < length v \<Longrightarrow> r \<noteq> p \<Longrightarrow> rep (v[p := r]) p y"
  by (rule rep.rep_step) simp_all

lemma rep_compress:
  assumes p: "rep v p r" and np: "v ! p \<noteq> p" and x: "rep v x y"
  shows "rep (v[p := r]) x y"
  using x
proof (induction rule: rep.induct)
  case (rep_root x)
  then have "x \<noteq> p" using np by blast
  with rep_root show ?case by (metis rep_same_root)
next
  case (rep_step x y)
  show ?case
  proof (cases "x = p")
    case True
    have "rep v x y" by (rule rep.rep_step[OF rep_step(1-3)])
    then have y: "y = r" using p True rep_det by blast
    have r: "v ! r = r" "r < length v" using rep_range[OF p] by simp_all
    then have "r \<noteq> p" using np by blast
    then have "rep (v[p := r]) r r" using r by (metis rep_same_root)
    then have "rep (v[p := r]) p r" using \<open>r \<noteq> p\<close> rep_step(1) True by (metis rep_new_parent)
    then show ?thesis using True y by blast
  next
    case False
    then show ?thesis using rep_step by (metis rep_same_parent)
  qed
qed

lemma rep_link:
  assumes "rep v a a" "rep v b b" "a \<noteq> b" "rep v x y"
  shows "rep (v[a := b]) x (if y = a then b else y)"
  using assms(4)
proof (induction rule: rep.induct)
  case (rep_root x)
  have ab: "a < length v" "b < length v" "v ! b = b" using rep_range[OF assms(1)] rep_range[OF assms(2)] by blast+
  have b: "rep (v[a := b]) b b" using ab assms(3) by (metis rep_same_root)
  show ?case
  proof (cases "x = a")
    case True
    have "rep (v[a := b]) a b" using ab b assms(3) by (metis rep_new_parent)
    then show ?thesis using True by simp
  next
    case False
    then have "rep (v[a := b]) x x" using rep_root by (metis rep_same_root)
    then show ?thesis using False by simp
  qed
next
  case (rep_step x y)
  have "v ! a = a" using rep_range[OF assms(1)] by blast
  then have "x \<noteq> a" using rep_step(2) by blast
  then show ?case using rep_step by (metis rep_same_parent)
qed

lemma forest_step:
  assumes "forest v" "length v' = length v" "\<And>x y. rep v x y \<Longrightarrow> rep v' x (h y)"
  shows "forest v'" "rep v' x z \<longleftrightarrow> (\<exists>y. rep v x y \<and> z = h y)"
proof -
  show "forest v'" using assms unfolding forest_def by metis
  show "rep v' x z \<longleftrightarrow> (\<exists>y. rep v x y \<and> z = h y)"
  proof
    assume z: "rep v' x z"
    then obtain y where "rep v x y" using assms(1,2) rep_range[OF z] unfolding forest_def by auto
    then show "\<exists>y. rep v x y \<and> z = h y" using assms(3) z rep_det by blast
  qed (use assms(3) in blast)
qed

lemma ds_find_ok:
  "rep v p r \<Longrightarrow> forest v \<Longrightarrow>
   \<exists>v'. ds_find v p = Some (v', r) \<and> length v' = length v \<and> forest v' \<and> (\<forall>x y. rep v' x y \<longleftrightarrow> rep v x y)"
proof (induction rule: rep.induct)
  case (rep_root p)
  then show ?case by (simp add: ds_find.simps[of v p])
next
  case (rep_step p r)
  then obtain v' where v': "ds_find v (v ! p) = Some (v', r)" "length v' = length v" "forest v'"
      "\<forall>x y. rep v' x y \<longleftrightarrow> rep v x y" by blast
  have e: "ds_find v p = Some (v'[p := r], r)" using rep_step(1,2) v'(1) by (simp add: ds_find.simps[of v p])
  have "rep v p r" by (rule rep.rep_step[OF rep_step(1-3)])
  then have pr: "rep v' p r" using v'(4) by blast
  have np: "v' ! p \<noteq> p"
  proof
    assume "v' ! p = p"
    then have "rep v' p p" using rep_range[OF pr] by (intro rep.rep_root) blast+
    then have "rep v p p" using v'(4) by blast
    then show False using rep_range rep_step(2) by blast
  qed
  have "forest (v'[p := r])" "\<forall>x z. rep (v'[p := r]) x z \<longleftrightarrow> rep v' x z"
    using forest_step(1)[OF v'(3), of "v'[p := r]" "\<lambda>y. y"] forest_step(2)[OF v'(3), of "v'[p := r]" "\<lambda>y. y"]
      rep_compress[OF pr np] by simp_all
  then show ?case using e v'(2,4) by simp
qed

subsection \<open>Joining\<close>

text \<open>The equivalence the calls of \<open>judge\<close> ask for.\<close>

inductive joined :: "(nat \<times> nat) list \<Rightarrow> nat \<Rightarrow> nat \<Rightarrow> bool" for ops where
  joined_refl: "joined ops x x"
| joined_edge: "(x, y) \<in> set ops \<Longrightarrow> joined ops x y"
| joined_sym: "joined ops x y \<Longrightarrow> joined ops y x"
| joined_trans: "joined ops x y \<Longrightarrow> joined ops y z \<Longrightarrow> joined ops x z"

lemma joined_mono: "joined ops x y \<Longrightarrow> set ops \<subseteq> set ops' \<Longrightarrow> joined ops' x y"
  by (induction rule: joined.induct) (auto intro: joined.intros)

lemma joined_Nil: "joined [] x y \<Longrightarrow> x = y"
  by (induction rule: joined.induct) auto

lemma joined_snoc:
  "joined (ops @ [(a, b)]) x y \<longleftrightarrow>
     joined ops x y \<or> (joined ops x a \<and> joined ops b y) \<or> (joined ops x b \<and> joined ops a y)"
    (is "?L \<longleftrightarrow> ?R x y")
proof
  have mono: "joined (ops @ [(a, b)]) u w" if "joined ops u w" for u w
    by (rule joined_mono[OF that]) auto
  have ab: "joined (ops @ [(a, b)]) a b" by (rule joined_edge) simp
  assume "?R x y"
  then consider "joined ops x y" | "joined ops x a" "joined ops b y" | "joined ops x b" "joined ops a y" by blast
  then show ?L
  proof cases
    case 1
    then show ?thesis by (rule mono)
  next
    case 2
    show ?thesis by (rule joined_trans[OF mono[OF 2(1)] joined_trans[OF ab mono[OF 2(2)]]])
  next
    case 3
    show ?thesis by (rule joined_trans[OF mono[OF 3(1)] joined_trans[OF joined_sym[OF ab] mono[OF 3(2)]]])
  qed
next
  assume ?L
  then show "?R x y"
  proof (induction rule: joined.induct)
    case (joined_edge x y)
    then consider "(x, y) \<in> set ops" | "x = a" "y = b" by auto
    then show ?case
    proof cases
      case 1
      then have "joined ops x y" by (rule joined.joined_edge)
      then show ?thesis ..
    qed (simp add: joined_refl)
  next
    case (joined_sym x y)
    then show ?case using joined.joined_sym by metis
  next
    case (joined_trans x y z)
    then show ?case using joined.joined_sym joined.joined_trans by metis
  qed (simp add: joined_refl)
qed

text \<open>
  The invariant: the parents form a forest over the whole array and two elements below \<open>n\<close> have one
  representative exactly when they have been joined.
\<close>

definition ds_inv :: "nat \<Rightarrow> (nat \<times> nat) list \<Rightarrow> disjoint_set \<Rightarrow> bool" where
  "ds_inv n ops s \<longleftrightarrow> forest (ds_v s) \<and> n < length (ds_v s) \<and>
     (\<forall>x \<in> {1..n}. \<forall>y \<in> {1..n}. (\<exists>r. rep (ds_v s) x r \<and> rep (ds_v s) y r) \<longleftrightarrow> joined ops x y)"

lemma same_rep_link:
  assumes v: "forest v" and x: "rep v x rx" and y: "rep v y ry"
    and a: "rep v a a" and b: "rep v b b" and ab: "a \<noteq> b"
  shows "forest (v[a := b]) \<and>
    ((\<exists>r. rep (v[a := b]) x r \<and> rep (v[a := b]) y r) \<longleftrightarrow>
       rx = ry \<or> (rx = a \<and> ry = b) \<or> (rx = b \<and> ry = a))"
proof -
  note F = forest_step[OF v, of "v[a := b]" "\<lambda>y. if y = a then b else y", OF _ rep_link[OF a b ab]]
  have X: "rep (v[a := b]) x r \<longleftrightarrow> r = (if rx = a then b else rx)" for r
    using F(2) x rep_det by (metis length_list_update)
  have Y: "rep (v[a := b]) y r \<longleftrightarrow> r = (if ry = a then b else ry)" for r
    using F(2) y rep_det by (metis length_list_update)
  show ?thesis using F(1) ab unfolding X Y by auto
qed

lemma ds_inv_link:
  assumes I: "ds_inv n ops s" and v: "forest v" "length v = length (ds_v s)" "\<forall>x y. rep v x y \<longleftrightarrow> rep (ds_v s) x y"
    and a: "rep v a ra" "a \<in> {1..n}" and b: "rep v b rb" "b \<in> {1..n}" and ne: "ra \<noteq> rb"
    and c: "(p, q) = (ra, rb) \<or> (p, q) = (rb, ra)"
    and s': "ds_v s' = v[p := q]"
  shows "ds_inv n (ops @ [(a, b)]) s'"
proof -
  have J: "(\<exists>r. rep v x r \<and> rep v y r) \<longleftrightarrow> joined ops x y" if "x \<in> {1..n}" "y \<in> {1..n}" for x y
    using I that v(3) by (simp add: ds_inv_def)
  have pq: "rep v p p" "rep v q q" "p \<noteq> q" using c ne rep_idem[OF a(1)] rep_idem[OF b(1)] by auto
  have total: "\<exists>r. rep v x r" if "x \<in> {1..n}" for x
    using v(1,2) I that unfolding forest_def ds_inv_def by simp
  have "(\<exists>r. rep (v[p := q]) x r \<and> rep (v[p := q]) y r) \<longleftrightarrow> joined (ops @ [(a, b)]) x y"
    if x: "x \<in> {1..n}" and y: "y \<in> {1..n}" for x y
  proof -
    obtain rx ry where r: "rep v x rx" "rep v y ry" using total[OF x] total[OF y] by blast
    have "joined ops x y \<longleftrightarrow> rx = ry" using J[OF x y] r rep_det by metis
    moreover have "joined ops x a \<longleftrightarrow> rx = ra" using J[OF x a(2)] r a(1) rep_det by metis
    moreover have "joined ops x b \<longleftrightarrow> rx = rb" using J[OF x b(2)] r b(1) rep_det by metis
    moreover have "joined ops a y \<longleftrightarrow> ra = ry" using J[OF a(2) y] r a(1) rep_det by metis
    moreover have "joined ops b y \<longleftrightarrow> rb = ry" using J[OF b(2) y] r b(1) rep_det by metis
    ultimately show ?thesis
      using same_rep_link[OF v(1) r pq] c unfolding joined_snoc by auto
  qed
  moreover have "forest (v[p := q])" using same_rep_link[OF v(1) a(1) b(1) pq] by blast
  ultimately show ?thesis using I v(2) s' by (simp add: ds_inv_def)
qed

lemma judge_ok:
  assumes I: "ds_inv n ops s" and ab: "a \<in> {1..n}" "b \<in> {1..n}"
  shows "\<exists>s'. judge s a b = Some s' \<and> ds_inv n (ops @ [(a, b)]) s'"
proof -
  have F: "forest (ds_v s)" "n < length (ds_v s)" using I by (simp_all add: ds_inv_def)
  obtain ra rb where r: "rep (ds_v s) a ra" "rep (ds_v s) b rb"
    using F ab unfolding forest_def by (metis atLeastAtMost_iff le_less_trans)
  obtain v1 where v1: "ds_find (ds_v s) a = Some (v1, ra)" "length v1 = length (ds_v s)" "forest v1"
      "\<forall>x y. rep v1 x y \<longleftrightarrow> rep (ds_v s) x y" using ds_find_ok[OF r(1) F(1)] by blast
  have "rep v1 b rb" using r v1(4) by blast
  from ds_find_ok[OF this v1(3)] obtain v2 where v2: "ds_find v1 b = Some (v2, rb)" "length v2 = length (ds_v s)"
      "forest v2" "\<forall>x y. rep v2 x y \<longleftrightarrow> rep (ds_v s) x y" using v1(2,4) by auto
  have R: "rep v2 a ra" "rep v2 b rb" using r v2(4) by blast+
  note e = judge_def[of s a b, unfolded v1(1), simplified, unfolded v2(1), simplified]
  show ?thesis
  proof (cases "ra = rb")
    case True
    have j: "joined ops a b" using I ab r True unfolding ds_inv_def by blast
    have "joined (ops @ [(a, b)]) x y \<longleftrightarrow> joined ops x y" for x y
      unfolding joined_snoc using j by (metis joined_trans joined_sym)
    then have "ds_inv n (ops @ [(a, b)]) (s\<lparr>ds_v := v2\<rparr>)" using I v2 by (simp add: ds_inv_def)
    moreover have "judge s a b = Some (s\<lparr>ds_v := v2\<rparr>)" unfolding e using True by simp
    ultimately show ?thesis by blast
  next
    case False
    have "v2 ! rb = rb" using rep_range[OF R(2)] by blast
    then obtain s' p q where s': "judge s a b = Some s'" "ds_v s' = v2[p := q]"
        "(p, q) = (ra, rb) \<or> (p, q) = (rb, ra)"
      using e False by (cases "ds_rank s ! ra > ds_rank s ! rb") (auto simp: Let_def)
    then show ?thesis using ds_inv_link[OF I v2(3,2,4) R(1) ab(1) R(2) ab(2) False] by blast
  qed
qed

lemma ds_init_fold:
  "length (ds_v (fold (\<lambda>i s. s\<lparr>ds_v := (ds_v s)[i := i], ds_rank := (ds_rank s)[i := 0]\<rparr>) xs s)) = length (ds_v s) \<and>
   (i < length (ds_v s) \<longrightarrow>
     ds_v (fold (\<lambda>i s. s\<lparr>ds_v := (ds_v s)[i := i], ds_rank := (ds_rank s)[i := 0]\<rparr>) xs s) ! i =
     (if i \<in> set xs then i else ds_v s ! i))"
  by (induction xs arbitrary: s) (auto simp: nth_list_update)

lemma ds_init_ok:
  assumes "n < DS_SIZE"
  shows "\<exists>s. ds_init n ds_zero = Some s \<and> ds_inv n [] s"
proof -
  let ?s = "fold (\<lambda>i s. s\<lparr>ds_v := (ds_v s)[i := i], ds_rank := (ds_rank s)[i := 0]\<rparr>) [1..<n + 1] ds_zero"
  have z: "length (ds_v ds_zero) = DS_SIZE" "i < DS_SIZE \<Longrightarrow> ds_v ds_zero ! i = 0" for i by (simp_all add: ds_zero_def)
  have e: "ds_init n ds_zero = Some ?s" using assms unfolding ds_init_def z by simp
  have l: "length (ds_v ?s) = DS_SIZE" using ds_init_fold[of "[1..<n + 1]" ds_zero 0] z(1) by presburger
  have nth: "ds_v ?s ! i = (if i \<in> {1..n} then i else 0)" if "i < DS_SIZE" for i
    using ds_init_fold[of "[1..<n + 1]" ds_zero i] z that by auto
  have own: "rep (ds_v ?s) i i" if "i \<in> insert 0 {1..n}" for i
    using that assms l nth[of i] by (intro rep_root) auto
  have "\<exists>r. rep (ds_v ?s) i r" if "i < length (ds_v ?s)" for i
  proof (cases "i \<in> insert 0 {1..n}")
    case True
    then show ?thesis using own by blast
  next
    case False
    then have "ds_v ?s ! i = 0" "i \<noteq> 0" using nth[of i] that l by auto
    moreover have "rep (ds_v ?s) 0 0" by (rule own) simp
    ultimately have "rep (ds_v ?s) i 0" using that rep_step[of i "ds_v ?s" 0] by simp
    then show ?thesis by blast
  qed
  then have f: "forest (ds_v ?s)" by (simp add: forest_def)
  have "(\<exists>r. rep (ds_v ?s) x r \<and> rep (ds_v ?s) y r) \<longleftrightarrow> joined [] x y" if "x \<in> {1..n}" "y \<in> {1..n}" for x y
  proof -
    have xy: "rep (ds_v ?s) x x" "rep (ds_v ?s) y y" using own that by blast+
    show ?thesis
    proof
      assume "\<exists>r. rep (ds_v ?s) x r \<and> rep (ds_v ?s) y r"
      then have "x = y" using xy rep_det by blast
      then show "joined [] x y" by (simp add: joined_refl)
    next
      assume "joined [] x y"
      then have "x = y" by (rule joined_Nil)
      then show "\<exists>r. rep (ds_v ?s) x r \<and> rep (ds_v ?s) y r" using xy by blast
    qed
  qed
  then have "ds_inv n [] ?s" using f l assms by (simp add: ds_inv_def)
  then show ?thesis using e by blast
qed

lemma ds_run_ok:
  "ds_inv n done s \<Longrightarrow> \<forall>(a, b) \<in> set ops. a \<in> {1..n} \<and> b \<in> {1..n} \<Longrightarrow>
   \<exists>s'. ds_run ops s = Some s' \<and> ds_inv n (done @ ops) s'"
proof (induction ops s arbitrary: "done" rule: ds_run.induct)
  case (2 a b ops s)
  then obtain s1 where s1: "judge s a b = Some s1" "ds_inv n (done @ [(a, b)]) s1"
    using judge_ok[of n "done" s a b] by auto
  have "\<exists>s'. ds_run ops s1 = Some s' \<and> ds_inv n ((done @ [(a, b)]) @ ops) s'"
    by (rule 2(1)) (use 2(3) s1 in simp_all)
  then show ?case using s1(1) by simp
qed simp

text \<open>
  C18. The disjoint sets are right, the assignment in the comparison of the ranks notwithstanding: after
  \<open>init\<close> and any joins of elements that were initialised, every \<open>find\<close> ends without leaving the
  arrays, and two elements have the same representative exactly when the joins connect them.
\<close>

theorem union_find_correct:
  assumes "n < DS_SIZE" "\<forall>(a, b) \<in> set ops. a \<in> {1..n} \<and> b \<in> {1..n}" "x \<in> {1..n}" "y \<in> {1..n}"
  shows "\<exists>s0 s v1 v2 r t. ds_init n ds_zero = Some s0 \<and> ds_run ops s0 = Some s \<and>
    ds_find (ds_v s) x = Some (v1, r) \<and> ds_find v1 y = Some (v2, t) \<and> (r = t \<longleftrightarrow> joined ops x y)"
proof -
  obtain s0 where s0: "ds_init n ds_zero = Some s0" "ds_inv n [] s0" using ds_init_ok[OF assms(1)] by blast
  obtain s where s: "ds_run ops s0 = Some s" "ds_inv n ops s" using ds_run_ok[OF s0(2) assms(2)] by auto
  then have F: "forest (ds_v s)" "n < length (ds_v s)" by (simp_all add: ds_inv_def)
  obtain r t where r: "rep (ds_v s) x r" "rep (ds_v s) y t"
    using F assms(3,4) unfolding forest_def by (metis atLeastAtMost_iff le_less_trans)
  obtain v1 where v1: "ds_find (ds_v s) x = Some (v1, r)" "forest v1" "\<forall>x y. rep v1 x y \<longleftrightarrow> rep (ds_v s) x y"
    using ds_find_ok[OF r(1) F(1)] by blast
  have "rep v1 y t" using r(2) v1(3) by blast
  from ds_find_ok[OF this v1(2)] obtain v2 where v2: "ds_find v1 y = Some (v2, t)" by blast
  have "(\<exists>u. rep (ds_v s) x u \<and> rep (ds_v s) y u) \<longleftrightarrow> joined ops x y"
    using s(2) assms(3,4) unfolding ds_inv_def by blast
  then have "r = t \<longleftrightarrow> joined ops x y" using r rep_det by metis
  then show ?thesis using s0(1) s(1) v1(1) v2 by blast
qed

theorem union_find_correct_witness:
  "\<exists>s0 s v1 v2 r. ds_init 5 ds_zero = Some s0 \<and> ds_run [(1, 2), (3, 4), (4, 2)] s0 = Some s \<and>
    ds_find (ds_v s) 1 = Some (v1, r) \<and> ds_find v1 3 = Some (v2, r)"
proof -
  let ?ops = "[(1 :: nat, 2 :: nat), (3, 4), (4, 2)]"
  have e: "joined ?ops 1 2" "joined ?ops 3 4" "joined ?ops 4 2" by (rule joined_edge, simp)+
  have "joined ?ops 1 3" by (rule joined_trans[OF e(1) joined_sym[OF joined_trans[OF e(2,3)]]])
  moreover have "\<forall>(a, b) \<in> set ?ops. a \<in> {1..5} \<and> b \<in> {1..5}" by simp
  ultimately show ?thesis using union_find_correct[of 5 ?ops 1 3] by simp
qed

end
