(* ===== verification/Update_Wire.thy ===== *)
theory Update_Wire
  imports Ak_Prelude
begin

text \<open>
  The pieces that both ends of \<open>update_tool\<close> share, or that the client applies to what it received: the
  packets of \<open>global.h\<close>, the loops around \<open>send\<close> and \<open>recv\<close>, the transformation of the image header, and
  the routine that checks a received image and installs its files.

  The results of \<open>recv\<close> and \<open>send\<close>, and whether a file of the target directory opens and takes a write, are
  arguments.  \<open>None\<close> is a call with undefined behaviour: a read outside an array or of bytes never filled in.
\<close>

subsection \<open>Packets\<close>

text \<open>A flag is the first byte of its packet; reserved bytes and padding are left out.\<close>

unbundle bit_operations_syntax

record update_request_packet =
  update_request_flag :: char
  resume_transfer_flag :: char
  rq_offset :: int
  rq_mtime :: int
  rq_file_name :: string

record update_reply_packet =
  update_reply_flag :: char
  rp_mtime :: int
  rp_total_size :: int
  rp_file_name :: string

record file_packet =
  file_data_flag :: char
  packet_id :: int
  data_len :: int
  fp_buf :: "byte list"

record heart_beat_packet =
  heart_beat_flag :: char
  ip_addr :: string

abbreviation (input) "BUFFER_SIZE \<equiv> (8192::nat)"
abbreviation (input) "FILE_NAME_MAX_LEN \<equiv> (100::nat)"

subsection \<open>Whole buffers over a stream socket\<close>

text \<open>
  One list element is the result of one call: \<open>None\<close> an error, \<open>Some bs\<close> the bytes it delivered, none at
  all once the peer has closed the connection.
\<close>

fun recv_loop :: "byte list option list \<Rightarrow> int \<Rightarrow> byte list \<Rightarrow> int sysret \<times> byte list" where
  "recv_loop rs remain_len buf =
     (if remain_len \<le> 0 then (Ret 0, buf)
      else case rs of
          [] \<Rightarrow> (Asleep, buf)
        | None # rs' \<Rightarrow> (Ret (- 1), buf)
        | Some bs # rs' \<Rightarrow> (let got = take (nat remain_len) bs in
            recv_loop rs' (remain_len - int (length got)) (buf @ got)))"

definition recv_data :: "byte list option list \<Rightarrow> int \<Rightarrow> int sysret \<times> byte list" where
  "recv_data rs buf_len = recv_loop rs buf_len []"

text \<open>\<open>Some n\<close>: the call took \<open>n\<close> bytes, of those offered to it.\<close>

fun send_loop :: "nat option list \<Rightarrow> byte list \<Rightarrow> byte list \<Rightarrow> int sysret \<times> byte list" where
  "send_loop rs buf sent =
     (if buf = [] then (Ret 0, sent)
      else case rs of
          [] \<Rightarrow> (Asleep, sent)
        | None # rs' \<Rightarrow> (Ret (- 1), sent)
        | Some n # rs' \<Rightarrow> send_loop rs' (drop n buf) (sent @ take n buf))"

definition send_data :: "nat option list \<Rightarrow> byte list \<Rightarrow> int sysret \<times> byte list" where
  "send_data rs buf = send_loop rs buf []"

declare recv_loop.simps [simp del] send_loop.simps [simp del]

lemma recv_loop_step:
  "recv_loop rs 0 buf = (Ret 0, buf)"
  "0 < n \<Longrightarrow> recv_loop [] n buf = (Asleep, buf)"
  "0 < n \<Longrightarrow> recv_loop (None # rs) n buf = (Ret (- 1), buf)"
  "0 < n \<Longrightarrow> int (length bs) \<le> n \<Longrightarrow> recv_loop (Some bs # rs) n buf = recv_loop rs (n - int (length bs)) (buf @ bs)"
  by (auto simp: recv_loop.simps)

lemma send_loop_step:
  "send_loop rs [] sent = (Ret 0, sent)"
  "buf \<noteq> [] \<Longrightarrow> send_loop [] buf sent = (Asleep, sent)"
  "buf \<noteq> [] \<Longrightarrow> send_loop (None # rs) buf sent = (Ret (- 1), sent)"
  "buf \<noteq> [] \<Longrightarrow> send_loop (Some n # rs) buf sent = send_loop rs (drop n buf) (sent @ take n buf)"
  by (auto simp: send_loop.simps)

text \<open>However the stream is cut into pieces, a buffer arrives as it was sent.\<close>

lemma recv_loop_chunks:
  "recv_loop (map Some css @ rs) (int (length (concat css))) buf = (Ret 0, buf @ concat css)"
proof (induction css arbitrary: buf)
  case Nil
  show ?case by (cases rs) (simp_all add: recv_loop.simps)
next
  case (Cons c css)
  show ?case
  proof (cases "length (concat (c # css)) = 0")
    case True
    then have "concat (c # css) = []" by simp
    moreover have "int (length (concat (c # css))) = 0" using True by simp
    ultimately show ?thesis by (simp only: recv_loop_step(1) append_Nil2)
  next
    case False
    then have "0 < int (length (concat (c # css)))" "int (length c) \<le> int (length (concat (c # css)))"
      "int (length (concat (c # css))) - int (length c) = int (length (concat css))"
      by (simp_all only: of_nat_0_less_iff neq0_conv) simp_all
    then have "recv_loop (Some c # map Some css @ rs) (int (length (concat (c # css)))) buf =
        recv_loop (map Some css @ rs) (int (length (concat css))) (buf @ c)"
      by (simp only: recv_loop_step(4))
    then show ?thesis using Cons.IH[of "buf @ c"] by simp
  qed
qed

lemma send_loop_takes:
  assumes "length buf \<le> sum_list ns"
  shows "send_loop (map Some ns @ rs) buf sent = (Ret 0, sent @ buf)"
  using assms
proof (induction ns arbitrary: buf sent)
  case Nil
  then show ?case by (simp add: send_loop_step)
next
  case (Cons n ns)
  then show ?case
    using Cons.IH[of "drop n buf" "sent @ take n buf"] by (cases "buf = []") (simp_all add: send_loop_step)
qed

text \<open>A peer that has closed the connection is not noticed: \<open>recv\<close> returns 0 for ever and so the loop goes on.\<close>

lemma recv_data_closed: "0 < n \<Longrightarrow> recv_data (replicate k (Some [])) n = (Asleep, [])"
  unfolding recv_data_def by (induction k) (simp_all add: recv_loop_step)

subsection \<open>The transformation of the header\<close>

definition magic :: "byte list" where
  "magic = [0xba, 0xcd, 0xbc, 0xfe, 0xd6, 0xca, 0xdd, 0xd3, 0xba, 0xb9, 0xa3, 0xab, 0xbf, 0xcb, 0xb5, 0xbe]"

abbreviation (input) "magic_len \<equiv> (16::nat)"

text \<open>One run of the outer loop handles the next \<open>magic_len\<close> bytes, or what is left of them.\<close>

function convert_loop :: "nat \<Rightarrow> byte list \<Rightarrow> byte list" where
  "convert_loop start_magic p_src =
     (if p_src = [] then []
      else map (\<lambda>j. p_src ! j XOR magic ! ((start_magic + j) mod magic_len)) [0..<min magic_len (length p_src)]
        @ convert_loop ((start_magic + 1) mod magic_len) (drop magic_len p_src))"
  by auto
termination by (relation "measure (length \<circ> snd)") auto

declare convert_loop.simps [simp del]

text \<open>\<open>None\<close> for a null pointer.\<close>

definition convert_data :: "byte list option \<Rightarrow> bool \<Rightarrow> int \<Rightarrow> (int \<times> byte list) option" where
  "convert_data p_src p_dst len =
     (case p_src of
        None \<Rightarrow> Some (- 1, [])
      | Some src \<Rightarrow>
          if \<not> p_dst then Some (- 1, [])
          else if int (length src) < len then None
          else Some (0, convert_loop 0 (take (nat len) src)))"

text \<open>The key at position \<open>k\<close> does not depend on the data.\<close>

definition key :: "nat \<Rightarrow> nat \<Rightarrow> byte" where
  "key start k = magic ! ((start + k div magic_len + k mod magic_len) mod magic_len)"

lemma key_shift: "key ((start + 1) mod magic_len) r = key start (magic_len + r)"
proof -
  have d: "(magic_len + r) div magic_len = Suc (r div magic_len)" by simp
  have m: "(magic_len + r) mod magic_len = r mod magic_len" by simp
  have "((start + 1) mod magic_len + (r div magic_len + r mod magic_len)) mod magic_len =
      (start + 1 + (r div magic_len + r mod magic_len)) mod magic_len"
    by (rule mod_add_left_eq)
  then show ?thesis unfolding key_def d m by (simp only: add.assoc Suc_eq_plus1_left)
qed

definition masked :: "byte list \<Rightarrow> byte list" where
  "masked xs = map (\<lambda>k. xs ! k XOR key 0 k) [0..<length xs]"

lemma convert_loop_nth:
  "length (convert_loop start src) = length src \<and>
   (\<forall>k < length src. convert_loop start src ! k = src ! k XOR key start k)"
proof (induction start src rule: convert_loop.induct)
  case (1 start src)
  show ?case
  proof (cases "src = []")
    case True
    then show ?thesis by (simp add: convert_loop.simps)
  next
    case False
    let ?m = "min magic_len (length src)"
    let ?tl = "convert_loop ((start + 1) mod magic_len) (drop magic_len src)"
    have eq: "convert_loop start src = map (\<lambda>j. src ! j XOR magic ! ((start + j) mod magic_len)) [0..<?m] @ ?tl"
      using False by (simp add: convert_loop.simps[of start src])
    note IH = 1[OF False]
    have "convert_loop start src ! k = src ! k XOR key start k" if k: "k < length src" for k
    proof (cases "k < magic_len")
      case True
      then show ?thesis using k by (simp add: eq nth_append key_def)
    next
      case ge: False
      obtain r where r: "k = magic_len + r" using ge by (metis le_iff_add not_less)
      then have "key ((start + 1) mod magic_len) (k - magic_len) = key start k"
        by (simp only: key_shift add_diff_cancel_left')
      moreover have "?tl ! (k - magic_len) = src ! k XOR key ((start + 1) mod magic_len) (k - magic_len)"
        using IH k ge by simp
      ultimately show ?thesis using k ge by (simp add: eq nth_append)
    qed
    moreover have "length (convert_loop start src) = length src" using IH by (simp add: eq)
    ultimately show ?thesis by blast
  qed
qed

lemma convert_loop_masked: "convert_loop 0 src = masked src"
  using convert_loop_nth[of 0 src] by (intro nth_equalityI) (simp_all add: masked_def)

lemma length_masked [simp]: "length (masked xs) = length xs"
  by (simp add: masked_def)

lemma nth_masked: "k < length xs \<Longrightarrow> masked xs ! k = xs ! k XOR key 0 k"
  by (simp add: masked_def)

lemma masked_masked [simp]: "masked (masked xs) = xs"
  by (rule nth_equalityI) (simp_all add: nth_masked xor.assoc)

lemma take_masked: "take n (masked xs) = masked (take n xs)"
  by (rule nth_equalityI) (simp_all add: nth_masked)

lemma convert_data_masked: "convert_data (Some src) True (int (length src)) = Some (0, masked src)"
  by (simp add: convert_data_def convert_loop_masked)

end
