(* ===== verification/Update_Server.thy ===== *)
theory Update_Server
  imports Update_Wire
begin

text \<open>
  The server of \<open>update_tool\<close> (\<open>update_tool/server/server_tool.c\<close>): the thread of one connection, with its
  request, its loop over the blocks of the file and its replies, and the heartbeat beside it.

  The files of the server are a map from names to a modification time and contents; whether an existing file
  opens, and whether it can be read at an offset, are arguments.  A file does not change while it is open.
\<close>

type_synonym files = "string \<Rightarrow> (int \<times> byte list) option"

text \<open>What goes to the client, and what comes back.\<close>

datatype to_client = Reply update_reply_packet | Pack file_packet | Beat heart_beat_packet
datatype to_server = Request update_request_packet | File_reply char

fun msg_flag :: "to_client \<Rightarrow> char" where
  "msg_flag (Reply p) = update_reply_flag p"
| "msg_flag (Pack p) = file_data_flag p"
| "msg_flag (Beat p) = heart_beat_flag p"

text \<open>
  Where the thread is: waiting for the request, at the head of its loop, waiting for the reply to a packet;
  then finished, at \<open>err0\<close>, stopped through \<open>err1\<close>, or killed by a division by zero.
\<close>

datatype server_pc = Sv_request | Sv_loop | Sv_wait | Sv_finished | Sv_stopped | Sv_killed

record server =
  sv_pc :: server_pc
  sv_file :: string
  sv_content :: "byte list"
  sv_offset :: int
  sv_read :: nat
  sv_total :: int
  sv_packet :: file_packet

definition server_start :: server where
  "server_start = \<lparr>sv_pc = Sv_request, sv_file = [], sv_content = [], sv_offset = 0, sv_read = 0, sv_total = 0,
     sv_packet = \<lparr>file_data_flag = CHR 0x00, packet_id = 0, data_len = 0, fp_buf = replicate BUFFER_SIZE 0\<rparr>\<rparr>"

definition stop_update :: update_reply_packet where
  "stop_update = \<lparr>update_reply_flag = CHR ''N'', rp_mtime = 0, rp_total_size = 0, rp_file_name = []\<rparr>"

definition goto_err1 :: "server \<Rightarrow> server \<times> to_client list" where
  "goto_err1 sv = (sv\<lparr>sv_pc := Sv_stopped\<rparr>, [Reply stop_update])"

text \<open>The request: \<open>opened\<close> tells whether \<open>open\<close> and \<open>fstat\<close> succeed.\<close>

definition serve_request :: "files \<Rightarrow> bool \<Rightarrow> update_request_packet \<Rightarrow> server \<Rightarrow> server \<times> to_client list" where
  "serve_request fs opened rq sv =
     (if update_request_flag rq \<noteq> CHR ''U'' then goto_err1 sv
      else if FILE_NAME_MAX_LEN < length (rq_file_name rq) \<or> rq_file_name rq = [] then goto_err1 sv
      else case fs (rq_file_name rq) of
          None \<Rightarrow> goto_err1 sv
        | Some (mtime, content) \<Rightarrow>
            if \<not> opened then goto_err1 sv
            else let resume = (resume_transfer_flag rq = CHR ''G'' \<and> mtime = rq_mtime rq) in
              (sv\<lparr>sv_pc := Sv_loop, sv_file := rq_file_name rq, sv_content := content,
                  sv_offset := (if resume then rq_offset rq else sv_offset sv), sv_total := int (length content)\<rparr>,
               [Reply \<lparr>update_reply_flag = (if resume then CHR ''G'' else CHR ''Y''), rp_mtime = mtime,
                  rp_total_size = int (length content), rp_file_name = rq_file_name rq\<rparr>]))"

text \<open>
  The loop up to the call that sends the packet; \<open>quit_flag\<close> is the loop condition, \<open>readable\<close> the success
  of \<open>read\<close>.  A negative offset makes \<open>lseek\<close> fail.
\<close>

definition serve_block :: "bool \<Rightarrow> bool \<Rightarrow> server \<Rightarrow> server \<times> to_client list" where
  "serve_block quit_flag readable sv =
     (if \<not> quit_flag then goto_err1 sv
      else if sv_offset sv < 0 then goto_err1 sv
      else if \<not> readable then goto_err1 sv
      else let bytes = region (sv_content sv) (nat (sv_offset sv)) BUFFER_SIZE;
               p = \<lparr>file_data_flag = (if s32 (sv_offset sv + int (length bytes)) = sv_total sv then CHR ''E'' else CHR ''F''),
                    packet_id = s32 (packet_id (sv_packet sv) + 1), data_len = int (length bytes),
                    fp_buf = bytes @ drop (length bytes) (fp_buf (sv_packet sv))\<rparr>
        in (sv\<lparr>sv_pc := Sv_wait, sv_read := length bytes, sv_packet := p\<rparr>, [Pack p]))"

text \<open>The reply of the client.  The progress that is printed divides by the size of the file.\<close>

definition serve_reply :: "char \<Rightarrow> server \<Rightarrow> server \<times> to_client list" where
  "serve_reply c sv =
     (if c = CHR ''Y'' then
        let sv1 = sv\<lparr>sv_offset := s32 (sv_offset sv + int (sv_read sv))\<rparr> in
        if sv_total sv = 0 then (sv1\<lparr>sv_pc := Sv_killed\<rparr>, [])
        else if file_data_flag (sv_packet sv) = CHR ''E'' then (sv1\<lparr>sv_pc := Sv_finished\<rparr>, [])
        else (sv1\<lparr>sv_pc := Sv_loop\<rparr>, [])
      else if c = CHR ''N'' then (sv, [Pack (sv_packet sv)])
      else goto_err1 sv)"

definition heart_beat :: "string \<Rightarrow> to_client list" where
  "heart_beat ip = [Beat \<lparr>heart_beat_flag = CHR ''H'', ip_addr = ip\<rparr>]"

end
