(* ===== verification/Update_Unpack.thy ===== *)
theory Update_Unpack
  imports Update_Wire "HOL-Library.Monad_Syntax"
begin

text \<open>
  \<open>unpack_file\<close> of \<open>update_tool/client/client_tool.c\<close>: what the client does with a received image.  The image
  starts with a header and a directory of the files in it, both under \<open>convert_data\<close>, with a checksum over
  the header and one for each file.

  Whether the file of a directory entry opens, and what its write does, is the argument \<open>dev\<close>: \<open>None\<close> for a write that
  fails, \<open>Some n\<close> for one that leaves out the last \<open>n\<close> bytes, which the code takes for success.  As a result \<open>None\<close> is undefined
  behaviour: a read past the end of an array, or of a header that the file was too short to fill.
\<close>

subsection \<open>The header\<close>

record FIRMWARE_HEADER =
  magic_number :: "32 word"
  header_checksum :: "32 word"
  header_length :: "32 word"
  file_nums :: "32 word"

record UPGRADE_FILE_HEADER =
  file_name :: "byte list"
  start_offset :: int
  file_len :: int
  checksum :: "32 word"

definition le32 :: "byte list \<Rightarrow> nat \<Rightarrow> 32 word" where
  "le32 xs p = word_of_int (horner_sum uint 256 (region xs p 4))"

definition firmware_header :: "byte list \<Rightarrow> FIRMWARE_HEADER" where
  "firmware_header h = \<lparr>magic_number = le32 h 0, header_checksum = le32 h 4, header_length = le32 h 8, file_nums = le32 h 12\<rparr>"

abbreviation (input) "FIRMWARE_SIZE \<equiv> (64::nat)"
abbreviation (input) "UPGRADE_SIZE \<equiv> (44::nat)"

definition upgrade_header :: "byte list \<Rightarrow> nat \<Rightarrow> UPGRADE_FILE_HEADER" where
  "upgrade_header h i = (let b = FIRMWARE_SIZE + UPGRADE_SIZE * i in
     \<lparr>file_name = takeWhile (\<lambda>c. c \<noteq> 0) (region h b 32), start_offset = sint (le32 h (b + 32)),
      file_len = sint (le32 h (b + 36)), checksum = le32 h (b + 40)\<rparr>)"

text \<open>The names are printed first, as strings: each must end within its array.\<close>

definition named :: "byte list \<Rightarrow> nat \<Rightarrow> bool" where
  "named h i \<longleftrightarrow> 0 \<in> set (region h (FIRMWARE_SIZE + UPGRADE_SIZE * i) 32)"

definition byte_sum :: "byte list \<Rightarrow> 32 word" where
  "byte_sum xs = sum_list (map ucast xs)"

text \<open>\<open>header_length - 12\<close> is unsigned; the sum starts at \<open>file_nums\<close>.\<close>

definition header_sum :: "byte list \<Rightarrow> 32 word option" where
  "header_sum h = (let n = unat (header_length (firmware_header h) - 12) in
     if length h < 12 + n then None else Some (byte_sum (region h 12 n)))"

subsection \<open>The files\<close>

type_synonym dir = "byte list \<Rightarrow> byte list option"

datatype unpacked = Unpacked | Unpack_failed

definition section_bytes :: "byte list \<Rightarrow> UPGRADE_FILE_HEADER \<Rightarrow> byte list option" where
  "section_bytes buffer e =
     (if file_len e \<le> 0 then Some []
      else if start_offset e < 0 \<or> int (length buffer) < start_offset e + file_len e then None
      else Some (region buffer (nat (start_offset e)) (nat (file_len e))))"

definition file_path :: "byte list \<Rightarrow> UPGRADE_FILE_HEADER \<Rightarrow> byte list" where
  "file_path path_name e = path_name @ [0x2f] @ file_name e"

text \<open>Both branches of the code open the file with the same flags, and neither truncates it.\<close>

definition old_bytes :: "dir \<Rightarrow> byte list \<Rightarrow> byte list" where
  "old_bytes d q = (case d q of None \<Rightarrow> [] | Some bs \<Rightarrow> bs)"

definition overwrite :: "byte list \<Rightarrow> byte list \<Rightarrow> dir \<Rightarrow> dir" where
  "overwrite q bs d = d(q \<mapsto> bs @ drop (length bs) (old_bytes d q))"

definition all_but :: "nat \<Rightarrow> byte list \<Rightarrow> byte list" where
  "all_but n bs = take (length bs - n) bs"

fun install_files :: "(nat \<Rightarrow> bool \<times> nat option) \<Rightarrow> byte list \<Rightarrow> byte list \<Rightarrow> nat \<Rightarrow> UPGRADE_FILE_HEADER list \<Rightarrow> dir \<Rightarrow>
    (unpacked \<times> dir) option" where
  "install_files dev path_name buffer i [] d = Some (Unpacked, d)"
| "install_files dev path_name buffer i (e # es) d =
     (case section_bytes buffer e of
        None \<Rightarrow> None
      | Some bs \<Rightarrow>
          if byte_sum bs \<noteq> checksum e then Some (Unpack_failed, d)
          else let q = file_path path_name e; (opened, written) = dev i in
            if 100 \<le> length q then None
            else if \<not> opened then Some (Unpack_failed, d)
            else if written = None \<or> file_len e < 0 then Some (Unpack_failed, overwrite q [] d)
            else install_files dev path_name buffer (i + 1) es (overwrite q (all_but (the written) bs) d))"

text \<open>\<open>total_size\<close> is the size the server announced, \<open>f\<close> the file \<open>update_file\<close>.\<close>

definition unpack_file :: "(nat \<Rightarrow> bool \<times> nat option) \<Rightarrow> byte list \<Rightarrow> int \<Rightarrow> byte list \<Rightarrow> dir \<Rightarrow> (unpacked \<times> dir) option" where
  "unpack_file dev path_name total_size f d =
     (if total_size < 0 \<or> length f < FIRMWARE_SIZE then None
      else do {
        (_, fir2) \<leftarrow> convert_data (Some (take FIRMWARE_SIZE f)) True (int FIRMWARE_SIZE);
        let n = unat (file_nums (firmware_header fir2));
        let hsize = FIRMWARE_SIZE + UPGRADE_SIZE * n;
        if length f < hsize then None else do {
          (_, h) \<leftarrow> convert_data (Some (take hsize f)) True (int hsize);
          if \<not> list_all (named h) [0..<n] then None else do {
            total \<leftarrow> header_sum h;
            if total \<noteq> header_checksum (firmware_header h) then Some (Unpack_failed, d)
            else let buffer = take (nat total_size) f @ replicate (nat total_size + 1 - min (nat total_size) (length f)) 0 in
              install_files dev path_name buffer 0 (map (upgrade_header h) [0..<n]) d
          }
        }
      })"

subsection \<open>What may be installed\<close>

text \<open>However the run ends, only files whose checksum is right have been written, in the order of the directory.\<close>

definition directory :: "byte list \<Rightarrow> UPGRADE_FILE_HEADER list" where
  "directory f = (let n = unat (file_nums (firmware_header (masked (take FIRMWARE_SIZE f)))) in
     map (upgrade_header (masked (take (FIRMWARE_SIZE + UPGRADE_SIZE * n) f))) [0..<n])"

definition image_buffer :: "int \<Rightarrow> byte list \<Rightarrow> byte list" where
  "image_buffer total_size f = take (nat total_size) f @ replicate (nat total_size + 1 - min (nat total_size) (length f)) 0"

definition install :: "byte list \<Rightarrow> byte list \<Rightarrow> UPGRADE_FILE_HEADER \<Rightarrow> dir \<Rightarrow> dir" where
  "install path_name buffer e d = overwrite (file_path path_name e) (the (section_bytes buffer e)) d"

text \<open>With what the writes have left out.\<close>

definition install_cut :: "(nat \<Rightarrow> bool \<times> nat option) \<Rightarrow> byte list \<Rightarrow> byte list \<Rightarrow> nat \<times> UPGRADE_FILE_HEADER \<Rightarrow> dir \<Rightarrow> dir" where
  "install_cut dev path_name buffer ie d =
     overwrite (file_path path_name (snd ie)) (all_but (the (snd (dev (fst ie)))) (the (section_bytes buffer (snd ie)))) d"

lemma all_but_0 [simp]: "all_but 0 bs = bs"
  by (simp add: all_but_def)

lemma install_cut_whole:
  "\<forall>j < length es. snd (dev (i + j)) = Some 0 \<Longrightarrow>
    fold (install_cut dev path_name buffer) (enumerate i es) d = fold (install path_name buffer) es d"
proof (induction es arbitrary: i d)
  case Nil
  then show ?case by simp
next
  case (Cons e es)
  have "snd (dev i) = Some 0" "\<forall>j < length es. snd (dev (Suc i + j)) = Some 0" using Cons.prems by fastforce+
  then show ?case using Cons.IH[of "Suc i"] by (simp add: install_cut_def install_def)
qed

lemma install_files_verified:
  assumes "install_files dev path_name buffer i es d = Some (r, d')"
  shows "\<exists>k \<le> length es. list_all (\<lambda>e. map_option byte_sum (section_bytes buffer e) = Some (checksum e)) (take k es) \<and>
    (let d1 = fold (install_cut dev path_name buffer) (enumerate i (take k es)) d in
       if r = Unpacked then k = length es \<and> d' = d1
       else k < length es \<and> (d' = d1 \<or> d' = overwrite (file_path path_name (es ! k)) [] d1))"
  using assms
proof (induction es arbitrary: i d)
  case Nil
  then show ?case by simp
next
  case (Cons e es)
  obtain bs where bs: "section_bytes buffer e = Some bs" using Cons.prems by (auto split: option.splits)
  let ?q = "file_path path_name e" and ?bs = "all_but (the (snd (dev i))) bs"
  show ?case
  proof (cases "byte_sum bs = checksum e \<and> length ?q < 100 \<and> fst (dev i) \<and> snd (dev i) \<noteq> None \<and> 0 \<le> file_len e")
    case True
    then have "install_files dev path_name buffer (i + 1) es (overwrite ?q ?bs d) = Some (r, d')"
      using Cons.prems bs by (simp add: Let_def split: prod.splits)
    from Cons.IH[OF this] obtain k where k: "k \<le> length es"
      "list_all (\<lambda>e. map_option byte_sum (section_bytes buffer e) = Some (checksum e)) (take k es)"
      "let d1 = fold (install_cut dev path_name buffer) (enumerate (i + 1) (take k es)) (overwrite ?q ?bs d) in
       if r = Unpacked then k = length es \<and> d' = d1
       else k < length es \<and> (d' = d1 \<or> d' = overwrite (file_path path_name (es ! k)) [] d1)" by blast
    have "install_cut dev path_name buffer (i, e) d = overwrite ?q ?bs d" by (simp add: install_cut_def bs)
    then show ?thesis by (intro exI[of _ "Suc k"]) (use k True bs in \<open>simp add: Let_def\<close>)
  next
    case False
    then have "r = Unpack_failed \<and> (d' = d \<or> d' = overwrite ?q [] d)"
      using Cons.prems bs by (auto simp: Let_def split: prod.splits if_splits)
    then show ?thesis by (intro exI[of _ 0]) auto
  qed
qed

lemma convert_take: "n \<le> length f \<Longrightarrow> convert_data (Some (take n f)) True (int n) = Some (0, masked (take n f))"
  using convert_data_masked[of "take n f"] by (simp add: min_absorb2)

lemma unpack_file_eq:
  assumes "0 \<le> total_size" "FIRMWARE_SIZE \<le> length f" "n = unat (file_nums (firmware_header (masked (take FIRMWARE_SIZE f))))"
    "h = masked (take (FIRMWARE_SIZE + UPGRADE_SIZE * n) f)"
  shows "unpack_file dev path_name total_size f d =
     (if length f < FIRMWARE_SIZE + UPGRADE_SIZE * n \<or> \<not> list_all (named h) [0..<n] then None
      else case header_sum h of
          None \<Rightarrow> None
        | Some t \<Rightarrow> if t \<noteq> header_checksum (firmware_header h) then Some (Unpack_failed, d)
            else install_files dev path_name (image_buffer total_size f) 0 (directory f) d)"
proof -
  have fir: "convert_data (Some (take FIRMWARE_SIZE f)) True (int FIRMWARE_SIZE) = Some (0, masked (take FIRMWARE_SIZE f))"
    using assms(2) by (rule convert_take)
  have dr: "directory f = map (upgrade_header h) [0..<n]" unfolding directory_def Let_def assms(4) assms(3) ..
  show ?thesis
  proof (cases "length f < FIRMWARE_SIZE + UPGRADE_SIZE * n")
    case True
    then show ?thesis using assms(1,2) by (simp add: unpack_file_def Let_def fir assms(3)[symmetric] del: of_nat_numeral)
  next
    case False
    then have "convert_data (Some (take (FIRMWARE_SIZE + UPGRADE_SIZE * n) f)) True (int (FIRMWARE_SIZE + UPGRADE_SIZE * n)) = Some (0, h)"
      unfolding assms(4) by (intro convert_take) simp
    then show ?thesis using False assms(1,2)
      by (simp add: unpack_file_def Let_def fir assms(3)[symmetric] dr image_buffer_def
          del: of_nat_numeral of_nat_add of_nat_mult split: option.split)
  qed
qed

lemma unpack_file_cases:
  assumes "unpack_file dev path_name total_size f d = Some (r, d')"
  shows "(r = Unpack_failed \<and> d' = d) \<or>
    install_files dev path_name (image_buffer total_size f) 0 (directory f) d = Some (r, d')"
proof -
  have "0 \<le> total_size" "FIRMWARE_SIZE \<le> length f" using assms by (auto simp: unpack_file_def split: if_splits)
  from assms[unfolded unpack_file_eq[OF this refl refl]] show ?thesis by (simp split: option.splits if_splits)
qed

end
