(* ===== verification/Update_Client.thy ===== *)
theory Update_Client
  imports Update_Server Update_Unpack
begin

text \<open>
  The client of \<open>update_tool\<close> (\<open>update_tool/client/client_tool.c\<close>): what it remembers between runs, its loop
  over the packets of the server, and the thread that watches the heartbeat.

  The outcomes of its system calls are arguments: whether \<open>update_file\<close> opens, how much of a packet was
  written, whether the reply went out, and what happens to each file that is installed.
\<close>

record store_file =
  st_name :: string
  st_total :: int
  st_offset :: int
  st_mtime :: int

text \<open>Running, after \<open>exit\<close>, and killed by undefined behaviour or a division by zero.\<close>

datatype client_pc = Cl_run | Cl_exit | Cl_killed

text \<open>\<open>cl_disk\<close> is the file \<open>file_packet\<close>, \<open>cl_file\<close> is \<open>update_file\<close>, \<open>cl_dir\<close> the files under \<open>path_name\<close>.\<close>

record client =
  cl_pc :: client_pc
  cl_store :: store_file
  cl_disk :: "store_file option"
  cl_file :: "byte list"
  cl_dir :: dir

record client_env =
  ce_opened :: bool
  ce_short :: "nat option"
  ce_replied :: bool
  ce_dev :: "nat \<Rightarrow> bool \<times> nat option"
  ce_path :: "byte list"

definition write_file_info :: "client \<Rightarrow> client" where
  "write_file_info cl = cl\<lparr>cl_disk := Some (cl_store cl)\<rparr>"

definition read_file_info :: "string \<Rightarrow> client \<Rightarrow> client" where
  "read_file_info nm cl =
     (case cl_disk cl of
        Some st \<Rightarrow> cl\<lparr>cl_store := st\<rparr>
      | None \<Rightarrow>
          if FILE_NAME_MAX_LEN < length nm then cl\<lparr>cl_pc := Cl_killed\<rparr>
          else cl\<lparr>cl_store := \<lparr>st_name = nm, st_total = 0, st_offset = 0, st_mtime = 0\<rparr>\<rparr>)"

definition update_request :: "store_file \<Rightarrow> update_request_packet" where
  "update_request st = \<lparr>update_request_flag = CHR ''U'',
     resume_transfer_flag = (if st_offset st = 0 then CHR ''T'' else CHR ''G''),
     rq_offset = st_offset st, rq_mtime = st_mtime st, rq_file_name = st_name st\<rparr>"

text \<open>\<open>update_process\<close> up to its loop.\<close>

definition client_start :: "string \<Rightarrow> client \<Rightarrow> client \<times> to_server list" where
  "client_start nm cl = (let cl1 = read_file_info nm (cl\<lparr>cl_pc := Cl_run\<rparr>) in
     (cl1, if cl_pc cl1 = Cl_run then [Request (update_request (cl_store cl1))] else []))"

definition pwrite :: "byte list \<Rightarrow> nat \<Rightarrow> byte list \<Rightarrow> byte list" where
  "pwrite f off bs = take off f @ replicate (off - length f) 0 @ bs @ drop (off + length bs) f"

definition at_offset :: "int \<Rightarrow> client \<Rightarrow> client" where
  "at_offset n cl = cl\<lparr>cl_store := (cl_store cl)\<lparr>st_offset := n\<rparr>\<rparr>"

definition client_exit :: "client \<Rightarrow> client" where
  "client_exit cl = cl\<lparr>cl_pc := Cl_exit\<rparr>"

text \<open>
  \<open>None\<close>: the rest of the packet could not be received.  The result tells whether \<open>update_process\<close> sees 0;
  when the process ends within the routine it is not used.  \<open>write\<close> with a negative count returns -1, which
  is the right length for one such count.
\<close>

definition recv_file_pack :: "client_env \<Rightarrow> file_packet option \<Rightarrow> client \<Rightarrow> client \<times> to_server list \<times> bool" where
  "recv_file_pack ce got cl = (let off = st_offset (cl_store cl) in
     if \<not> ce_opened ce then (client_exit cl, [], False)
     else if off < 0 then (client_exit cl, [], False)
     else case got of
         None \<Rightarrow>
           if \<not> ce_replied ce then (client_exit (write_file_info cl), [], False)
           else (write_file_info (at_offset off cl), [File_reply (CHR ''N'')], False)
       | Some p \<Rightarrow>
           if data_len p < - 1 then (client_exit (write_file_info cl), [], False)
           else if int (length (fp_buf p)) < data_len p then (cl\<lparr>cl_pc := Cl_killed\<rparr>, [], False)
           else let bs = take (nat (data_len p)) (fp_buf p) in
             case ce_short ce of
               Some n \<Rightarrow> (client_exit (write_file_info (cl\<lparr>cl_file := pwrite (cl_file cl) (nat off) (take n bs)\<rparr>)), [], False)
             | None \<Rightarrow>
                 let cl1 = at_offset (s32 (off + data_len p)) (cl\<lparr>cl_file := pwrite (cl_file cl) (nat off) bs\<rparr>) in
                 if \<not> ce_replied ce then (client_exit (write_file_info cl1), [], False)
                 else if st_total (cl_store cl1) = 0 then (cl1\<lparr>cl_pc := Cl_killed\<rparr>, [File_reply (CHR ''Y'')], False)
                 else if file_data_flag p = CHR ''E'' then
                   (case unpack_file (ce_dev ce) (ce_path ce) (st_total (cl_store cl1)) (cl_file cl1) (cl_dir cl1) of
                      None \<Rightarrow> (cl1\<lparr>cl_pc := Cl_killed\<rparr>, [File_reply (CHR ''Y'')], False)
                    | Some (_, d) \<Rightarrow> (cl1\<lparr>cl_dir := d\<rparr>, [File_reply (CHR ''Y'')], True))
                 else (cl1, [File_reply (CHR ''Y'')], True))"

text \<open>
  What arrives: a whole packet, a packet that breaks off after its first byte, or nothing but an error.  The
  flag decides how much is read; the server sends each kind of packet with its own flags only.
\<close>

datatype incoming = Whole to_client | Cut to_client | Flag_failed

definition take_reply :: "update_reply_packet \<Rightarrow> store_file \<Rightarrow> store_file" where
  "take_reply rp st = \<lparr>st_name = rp_file_name rp, st_total = rp_total_size rp,
     st_offset = (if update_reply_flag rp = CHR ''Y'' then 0 else st_offset st), st_mtime = rp_mtime rp\<rparr>"

definition client_stop :: "client \<Rightarrow> client \<times> to_server list" where
  "client_stop cl = (client_exit (write_file_info cl), [])"

definition client_pack :: "client_env \<Rightarrow> char \<Rightarrow> file_packet option \<Rightarrow> client \<Rightarrow> client \<times> to_server list" where
  "client_pack ce flag got cl = (let (cl1, out, ok) = recv_file_pack ce got cl in
     if flag = CHR ''E'' \<and> ok then (client_exit (write_file_info (at_offset 0 cl1)), out) else (cl1, out))"

fun client_step :: "client_env \<Rightarrow> incoming \<Rightarrow> client \<Rightarrow> client \<times> to_server list" where
  "client_step ce Flag_failed cl = (client_exit cl, [])"
| "client_step ce (Whole (Reply rp)) cl =
     (if update_reply_flag rp \<in> {CHR ''Y'', CHR ''G''}
      then (write_file_info (cl\<lparr>cl_store := take_reply rp (cl_store cl)\<rparr>), []) else client_stop cl)"
| "client_step ce (Cut (Reply rp)) cl =
     (if update_reply_flag rp = CHR ''Y'' then (client_exit (at_offset 0 cl), [])
      else if update_reply_flag rp = CHR ''G'' then (client_exit cl, []) else client_stop cl)"
| "client_step ce (Whole (Beat b)) cl = (if heart_beat_flag b = CHR ''H'' then (cl, []) else client_stop cl)"
| "client_step ce (Cut (Beat b)) cl = client_stop cl"
| "client_step ce (Whole (Pack p)) cl =
     (if file_data_flag p \<in> {CHR ''F'', CHR ''E''} then client_pack ce (file_data_flag p) (Some p) cl else client_stop cl)"
| "client_step ce (Cut (Pack p)) cl =
     (if file_data_flag p \<in> {CHR ''F'', CHR ''E''} then client_pack ce (file_data_flag p) None cl else client_stop cl)"

text \<open>The watching thread, once more than ten seconds have passed since the last heartbeat.\<close>

definition client_timeout :: "client \<Rightarrow> client" where
  "client_timeout cl = client_exit (write_file_info cl)"

end
