(* ===== verification/Update_Tool.thy ===== *)
theory Update_Tool
  imports Update_Client
begin

text \<open>
  The two ends of \<open>update_tool\<close> together: sessions between one client and the server, in which packets and
  heartbeats interleave, connections break, the client times out or is killed, and is started again.

  The invariant follows the offset of the transfer through the packets that are under way.
\<close>

record session =
  ss_server :: server
  ss_client :: client
  ss_down :: "to_client list"
  ss_up :: "to_server list"
  ss_files :: files

text \<open>
  \<open>Ev_serve a b\<close> lets the server's thread do what its place in the code says, \<open>Ev_client\<close> lets the client take
  the next packet.  \<open>Ev_break brk\<close> breaks the connection, within the next packet or between two.  \<open>Ev_kill n\<close>
  kills the client, possibly when \<open>n\<close> bytes of the next packet are written and nothing is noted yet.
\<close>

datatype event =
    Ev_start string files
  | Ev_serve bool bool
  | Ev_beat string
  | Ev_client client_env
  | Ev_break bool client_env
  | Ev_timeout
  | Ev_kill nat

definition put_server :: "server \<times> to_client list \<Rightarrow> session \<Rightarrow> session" where
  "put_server r s = s\<lparr>ss_server := fst r, ss_down := ss_down s @ snd r\<rparr>"

definition put_client :: "client \<times> to_server list \<Rightarrow> session \<Rightarrow> session" where
  "put_client r s = s\<lparr>ss_client := fst r, ss_up := ss_up s @ snd r\<rparr>"

definition serve_step :: "bool \<Rightarrow> bool \<Rightarrow> session \<Rightarrow> session" where
  "serve_step a b s = (let sv = ss_server s in
     case (sv_pc sv, ss_up s) of
       (Sv_request, Request rq # up) \<Rightarrow> put_server (serve_request (ss_files s) a rq sv) (s\<lparr>ss_up := up\<rparr>)
     | (Sv_loop, up) \<Rightarrow> put_server (serve_block a b sv) s
     | (Sv_wait, File_reply c # up) \<Rightarrow> put_server (serve_reply c sv) (s\<lparr>ss_up := up\<rparr>)
     | _ \<Rightarrow> s)"

definition cut_off :: "client_env \<Rightarrow> incoming \<Rightarrow> session \<Rightarrow> session" where
  "cut_off ce inc s = s\<lparr>ss_client := fst (client_step ce inc (ss_client s)),
     ss_server := (ss_server s)\<lparr>sv_pc := Sv_stopped\<rparr>, ss_down := [], ss_up := []\<rparr>"

definition half_written :: "nat \<Rightarrow> session \<Rightarrow> client" where
  "half_written n s = (let cl = ss_client s in
     case ss_down s of
       Pack p # _ \<Rightarrow> cl\<lparr>cl_file := pwrite (cl_file cl) (nat (st_offset (cl_store cl)))
           (take n (take (nat (data_len p)) (fp_buf p)))\<rparr>
     | _ \<Rightarrow> cl)"

fun session_step :: "event \<Rightarrow> session \<Rightarrow> session" where
  "session_step (Ev_start nm fs) s =
     (if cl_pc (ss_client s) = Cl_run then s
      else let (cl, up) = client_start nm (ss_client s) in
        \<lparr>ss_server = server_start, ss_client = cl, ss_down = [], ss_up = up, ss_files = fs\<rparr>)"
| "session_step (Ev_serve a b) s = serve_step a b s"
| "session_step (Ev_beat ip) s =
     (if sv_pc (ss_server s) \<in> {Sv_request, Sv_loop, Sv_wait} then s\<lparr>ss_down := ss_down s @ heart_beat ip\<rparr> else s)"
| "session_step (Ev_client ce) s =
     (case ss_down s of
        m # ms \<Rightarrow> if cl_pc (ss_client s) = Cl_run
          then put_client (client_step ce (Whole m) (ss_client s)) (s\<lparr>ss_down := ms\<rparr>) else s
      | [] \<Rightarrow> s)"
| "session_step (Ev_break brk ce) s =
     (if cl_pc (ss_client s) \<noteq> Cl_run then s
      else case ss_down s of
        m # ms \<Rightarrow> cut_off ce (if brk then Cut m else Flag_failed) s
      | [] \<Rightarrow> cut_off ce Flag_failed s)"
| "session_step Ev_timeout s =
     (if cl_pc (ss_client s) = Cl_run then s\<lparr>ss_client := client_timeout (ss_client s)\<rparr> else s)"
| "session_step (Ev_kill n) s =
     (if cl_pc (ss_client s) = Cl_run then s\<lparr>ss_client := client_exit (half_written n s)\<rparr> else s)"

definition session_run :: "event list \<Rightarrow> session \<Rightarrow> session" where
  "session_run evs s = fold session_step evs s"

text \<open>The first start: no connection yet, and \<open>d\<close> the files of the device.\<close>

definition session_init :: "store_file option \<Rightarrow> byte list \<Rightarrow> dir \<Rightarrow> session" where
  "session_init info f d = \<lparr>ss_server = server_start\<lparr>sv_pc := Sv_stopped\<rparr>,
     ss_client = \<lparr>cl_pc = Cl_exit, cl_store = \<lparr>st_name = [], st_total = 0, st_offset = 0, st_mtime = 0\<rparr>,
       cl_disk = info, cl_file = f, cl_dir = d\<rparr>,
     ss_down = [], ss_up = [], ss_files = (\<lambda>_. None)\<rparr>"

subsection \<open>The invariant\<close>

text \<open>
  \<open>W name mtime\<close> is what the file of that name held when it had that modification time: a server shows
  a client only such files.
\<close>

definition exhibits :: "(string \<Rightarrow> int \<Rightarrow> byte list) \<Rightarrow> files \<Rightarrow> bool" where
  "exhibits W fs \<longleftrightarrow> (\<forall>nm m c. fs nm = Some (m, c) \<longrightarrow> c = W nm m \<and> length c < 2147483648)"

fun event_ok :: "(string \<Rightarrow> int \<Rightarrow> byte list) \<Rightarrow> event \<Rightarrow> bool" where
  "event_ok W (Ev_start nm fs) = exhibits W fs"
| "event_ok W _ = True"

text \<open>What the client has up to the noted offset is a prefix of the version that it noted.\<close>

definition prefix_ok :: "(string \<Rightarrow> int \<Rightarrow> byte list) \<Rightarrow> byte list \<Rightarrow> store_file \<Rightarrow> bool" where
  "prefix_ok W f st \<longleftrightarrow> 0 \<le> st_offset st \<and> nat (st_offset st) \<le> length f \<and>
     nat (st_offset st) \<le> length (W (st_name st) (st_mtime st)) \<and>
     take (nat (st_offset st)) f = take (nat (st_offset st)) (W (st_name st) (st_mtime st))"

fun is_beat :: "to_client \<Rightarrow> bool" where
  "is_beat (Beat b) = (heart_beat_flag b = CHR ''H'')"
| "is_beat _ = False"

abbreviation (input) "packets s \<equiv> filter (\<lambda>m. \<not> is_beat m) (ss_down s)"

text \<open>What the client will note once it has taken the reply that is under way, if one is.\<close>

fun noted :: "to_client list \<Rightarrow> store_file \<Rightarrow> store_file" where
  "noted (Reply rp # ms) st = (if update_reply_flag rp \<in> {CHR ''Y'', CHR ''G''} then take_reply rp st else st)"
| "noted _ st = st"

definition agree :: "(string \<Rightarrow> int \<Rightarrow> byte list) \<Rightarrow> server \<Rightarrow> int \<Rightarrow> store_file \<Rightarrow> bool" where
  "agree W sv off st \<longleftrightarrow> st_name st = sv_file sv \<and> sv_content sv = W (st_name st) (st_mtime st) \<and>
     st_total st = sv_total sv \<and> sv_total sv = int (length (sv_content sv)) \<and> sv_total sv < 2147483648 \<and> st_offset st = off"

text \<open>A replied packet is due: the reply to the request, alone or before \<open>ms\<close>.\<close>

definition after_reply :: "to_client list \<Rightarrow> to_client list \<Rightarrow> bool" where
  "after_reply ps ms \<longleftrightarrow> ps = ms \<or> (\<exists>rp. ps = Reply rp # ms \<and> update_reply_flag rp \<in> {CHR ''Y'', CHR ''G''})"

definition packet_ok :: "server \<Rightarrow> bool" where
  "packet_ok sv \<longleftrightarrow> (let bytes = region (sv_content sv) (nat (sv_offset sv)) BUFFER_SIZE; p = sv_packet sv in
     0 \<le> sv_offset sv \<and> nat (sv_offset sv) \<le> length (sv_content sv) \<and> sv_read sv = length bytes \<and>
     data_len p = int (length bytes) \<and> take (length bytes) (fp_buf p) = bytes \<and>
     file_data_flag p = (if sv_offset sv + int (length bytes) = sv_total sv then CHR ''E'' else CHR ''F''))"

definition transfer_ok :: "(string \<Rightarrow> int \<Rightarrow> byte list) \<Rightarrow> session \<Rightarrow> bool" where
  "transfer_ok W s = (let sv = ss_server s; st = cl_store (ss_client s); ps = packets s; up = ss_up s in
     case sv_pc sv of
       Sv_request \<Rightarrow> ps = [] \<and> up = [Request (update_request st)] \<and> sv_offset sv = 0
     | Sv_loop \<Rightarrow> up = [] \<and> after_reply ps [] \<and> agree W sv (sv_offset sv) (noted ps st)
     | Sv_wait \<Rightarrow> packet_ok sv \<and>
         ((up = [] \<and> after_reply ps [Pack (sv_packet sv)] \<and> agree W sv (sv_offset sv) (noted ps st)) \<or>
          (up = [File_reply (CHR ''Y'')] \<and> ps = [] \<and> agree W sv (sv_offset sv + int (sv_read sv)) st))
     | Sv_stopped \<Rightarrow> ps = [] \<or> after_reply ps [Reply stop_update]
     | _ \<Rightarrow> ps = [])"

definition disk_ok :: "(string \<Rightarrow> int \<Rightarrow> byte list) \<Rightarrow> client \<Rightarrow> bool" where
  "disk_ok W cl \<longleftrightarrow> (\<forall>st. cl_disk cl = Some st \<longrightarrow> prefix_ok W (cl_file cl) st)"

text \<open>While the client runs, the offset on the disk is never ahead of the one in memory.\<close>

definition store_ok :: "(string \<Rightarrow> int \<Rightarrow> byte list) \<Rightarrow> client \<Rightarrow> bool" where
  "store_ok W cl \<longleftrightarrow> prefix_ok W (cl_file cl) (cl_store cl) \<and>
     (\<forall>st. cl_disk cl = Some st \<longrightarrow> st_offset st \<le> st_offset (cl_store cl))"

definition session_ok :: "(string \<Rightarrow> int \<Rightarrow> byte list) \<Rightarrow> session \<Rightarrow> bool" where
  "session_ok W s \<longleftrightarrow> (let cl = ss_client s in disk_ok W cl \<and>
     (cl_pc cl = Cl_run \<longrightarrow> exhibits W (ss_files s) \<and> store_ok W cl \<and>
        prefix_ok W (cl_file cl) (noted (packets s) (cl_store cl)) \<and> transfer_ok W s))"

lemma take_pwrite:
  "off \<le> length f \<Longrightarrow> n \<le> off \<Longrightarrow> take n (pwrite f off bs) = take n f"
  "off \<le> length f \<Longrightarrow> take (off + length bs) (pwrite f off bs) = take off f @ bs"
  "off \<le> length f \<Longrightarrow> length f \<le> length (pwrite f off bs)"
  "off \<le> length f \<Longrightarrow> off + length bs \<le> length (pwrite f off bs)"
  by (auto simp: pwrite_def)

text \<open>A write at the noted offset leaves every shorter prefix alone.\<close>

lemma prefix_ok_pwrite:
  assumes "prefix_ok W f st" "nat (st_offset st) \<le> off" "off \<le> length f"
  shows "prefix_ok W (pwrite f off bs) st"
proof -
  have "length f \<le> length (pwrite f off bs)" by (rule take_pwrite(3)[OF assms(3)])
  then show ?thesis using assms unfolding prefix_ok_def by (simp add: take_pwrite(1))
qed

lemma prefix_ok_extend:
  assumes "prefix_ok W f st" "W (st_name st) (st_mtime st) = c" "bs = region c (nat (st_offset st)) BUFFER_SIZE"
  shows "prefix_ok W (pwrite f (nat (st_offset st)) bs) (st\<lparr>st_offset := st_offset st + int (length bs)\<rparr>)"
proof -
  let ?o = "nat (st_offset st)"
  have o: "?o \<le> length f" "?o \<le> length c" "0 \<le> st_offset st" "take ?o f = take ?o c"
    using assms(1,2) unfolding prefix_ok_def by simp_all
  have n: "nat (st_offset st + int (length bs)) = ?o + length bs" using o(3) by simp
  have "length bs \<le> length c - ?o" unfolding assms(3) by simp
  moreover have "bs = take (length bs) (drop ?o c)" unfolding assms(3) region_def by (simp add: min_def)
  then have "take ?o c @ bs = take (?o + length bs) c" by (simp add: take_add)
  ultimately show ?thesis
    using o take_pwrite(2,4)[OF o(1), of bs] assms(2) unfolding prefix_ok_def by (simp add: n)
qed

lemma stop_flag [simp]: "update_reply_flag stop_update = CHR ''N''"
  by (simp add: stop_update_def)

lemma noted_simps:
  "noted [] st = st" "noted (Pack p # ms) st = st" "noted (Reply stop_update # ms) st = st"
  by simp_all

lemma noted_append: "after_reply ps [] \<Longrightarrow> noted (ps @ [m]) st = (if ps = [] then noted [m] st else noted ps st)"
  by (auto simp: after_reply_def)

lemma session_ok_idle: "cl_pc (ss_client s) \<noteq> Cl_run \<Longrightarrow> session_ok W s \<longleftrightarrow> disk_ok W (ss_client s)"
  by (simp add: session_ok_def Let_def)

lemma session_okD:
  assumes "session_ok W s"
  shows "disk_ok W (ss_client s)" "cl_pc (ss_client s) = Cl_run \<Longrightarrow> exhibits W (ss_files s)"
    "cl_pc (ss_client s) = Cl_run \<Longrightarrow> store_ok W (ss_client s)"
    "cl_pc (ss_client s) = Cl_run \<Longrightarrow> prefix_ok W (cl_file (ss_client s)) (noted (packets s) (cl_store (ss_client s)))"
    "cl_pc (ss_client s) = Cl_run \<Longrightarrow> transfer_ok W s"
  using assms by (simp_all add: session_ok_def Let_def)

lemma session_ok_start:
  assumes "session_ok W s" "exhibits W fs"
  shows "session_ok W (session_step (Ev_start nm fs) s)"
proof (cases "cl_pc (ss_client s) = Cl_run")
  case False
  have d: "disk_ok W (ss_client s)" using assms(1) by (rule session_okD)
  show ?thesis
  proof (cases "cl_disk (ss_client s)")
    case None
    then show ?thesis using False assms(2) d
      by (auto simp: client_start_def read_file_info_def session_ok_def Let_def disk_ok_def store_ok_def prefix_ok_def
          transfer_ok_def server_start_def)
  next
    case (Some st)
    then have "prefix_ok W (cl_file (ss_client s)) st" using d by (simp add: disk_ok_def)
    then show ?thesis using False assms(2) Some
      by (simp add: client_start_def read_file_info_def session_ok_def Let_def disk_ok_def store_ok_def
          transfer_ok_def server_start_def)
  qed
qed (use assms in simp)

text \<open>Heartbeats may come and go anywhere.\<close>

lemma session_ok_down:
  "session_ok W s \<Longrightarrow> filter (\<lambda>m. \<not> is_beat m) ds = packets s \<Longrightarrow> session_ok W (s\<lparr>ss_down := ds\<rparr>)"
  by (simp add: session_ok_def transfer_ok_def Let_def)

lemma session_ok_beat: "session_ok W s \<Longrightarrow> session_ok W (session_step (Ev_beat ip) s)"
  by (auto intro!: session_ok_down simp: heart_beat_def)

lemma session_ok_timeout: "session_ok W s \<Longrightarrow> session_ok W (session_step Ev_timeout s)"
  by (auto simp: session_ok_def Let_def client_timeout_def client_exit_def write_file_info_def disk_ok_def store_ok_def)

lemma session_ok_kill: "session_ok W s \<Longrightarrow> session_ok W (session_step (Ev_kill n) s)"
proof (cases "cl_pc (ss_client s) = Cl_run")
  case True
  assume ok: "session_ok W s"
  let ?cl = "ss_client s"
  have "disk_ok W (?cl\<lparr>cl_file := pwrite (cl_file ?cl) (nat (st_offset (cl_store ?cl))) bs\<rparr>)" for bs
    using session_okD(1)[OF ok] session_okD(3)[OF ok True]
    by (auto simp: disk_ok_def store_ok_def intro!: prefix_ok_pwrite) (auto simp: prefix_ok_def)
  then have "disk_ok W (half_written n s)"
    using session_okD(1)[OF ok] by (auto simp: half_written_def Let_def split: list.splits to_client.splits)
  then show ?thesis using True by (simp add: session_ok_def Let_def client_exit_def disk_ok_def)
qed simp

text \<open>What the thread of the server sends keeps the invariant, in each of its places.\<close>

lemma session_okI:
  assumes "disk_ok W (ss_client s)" "exhibits W (ss_files s)" "store_ok W (ss_client s)"
    "prefix_ok W (cl_file (ss_client s)) (noted (packets s) (cl_store (ss_client s)))" "transfer_ok W s"
  shows "session_ok W s"
  using assms by (simp add: session_ok_def Let_def)

lemma serve_request_cases:
  assumes "sv_offset sv = 0"
  shows "serve_request fs a (update_request st) sv = goto_err1 sv \<or> (\<exists>m c. fs (st_name st) = Some (m, c) \<and>
    serve_request fs a (update_request st) sv =
      (sv\<lparr>sv_pc := Sv_loop, sv_file := st_name st, sv_content := c,
          sv_offset := (if st_offset st \<noteq> 0 \<and> m = st_mtime st then st_offset st else 0), sv_total := int (length c)\<rparr>,
        [Reply \<lparr>update_reply_flag = (if st_offset st \<noteq> 0 \<and> m = st_mtime st then CHR ''G'' else CHR ''Y''),
           rp_mtime = m, rp_total_size = int (length c), rp_file_name = st_name st\<rparr>]))"
proof (cases "100 < length (st_name st) \<or> st_name st = [] \<or> \<not> a \<or> fs (st_name st) = None")
  case True
  then have "serve_request fs a (update_request st) sv = goto_err1 sv"
    by (auto simp: serve_request_def update_request_def split: option.splits)
  then show ?thesis ..
next
  case False
  then obtain m c where "fs (st_name st) = Some (m, c)" by auto
  then show ?thesis using False assms by (simp add: serve_request_def update_request_def Let_def)
qed

lemma session_ok_request:
  assumes ok: "session_ok W s" and run: "cl_pc (ss_client s) = Cl_run" and pc: "sv_pc (ss_server s) = Sv_request"
  shows "session_ok W (serve_step a b s)"
proof -
  let ?sv = "ss_server s" and ?cl = "ss_client s" and ?st = "cl_store (ss_client s)"
  have t: "packets s = []" "ss_up s = [Request (update_request ?st)]" "sv_offset ?sv = 0"
    using session_okD(5)[OF ok run] pc by (simp_all add: transfer_ok_def Let_def)
  define r where "r = serve_request (ss_files s) a (update_request ?st) ?sv"
  have step: "serve_step a b s = put_server r (s\<lparr>ss_up := []\<rparr>)"
    using pc t(2) by (simp add: serve_step_def Let_def r_def)
  have p: "prefix_ok W (cl_file ?cl) ?st" using session_okD(3)[OF ok run] by (simp add: store_ok_def)
  consider "r = goto_err1 ?sv" | m c where "ss_files s (st_name ?st) = Some (m, c)"
      "r = (?sv\<lparr>sv_pc := Sv_loop, sv_file := st_name ?st, sv_content := c,
          sv_offset := (if st_offset ?st \<noteq> 0 \<and> m = st_mtime ?st then st_offset ?st else 0), sv_total := int (length c)\<rparr>,
        [Reply \<lparr>update_reply_flag = (if st_offset ?st \<noteq> 0 \<and> m = st_mtime ?st then CHR ''G'' else CHR ''Y''),
           rp_mtime = m, rp_total_size = int (length c), rp_file_name = st_name ?st\<rparr>])"
    using serve_request_cases[OF t(3)] unfolding r_def by blast
  then show ?thesis
  proof cases
    case 1
    have "transfer_ok W (serve_step a b s)"
      by (simp add: step 1 put_server_def goto_err1_def transfer_ok_def Let_def t(1) after_reply_def)
    then show ?thesis using session_okD(1-3)[OF ok] run t(1) p
      by (intro session_okI) (simp_all add: step 1 put_server_def goto_err1_def noted_simps)
  next
    case 2
    have c: "c = W (st_name ?st) m" "length c < 2147483648"
      using session_okD(2)[OF ok run] 2(1) unfolding exhibits_def by blast+
    let ?rp = "hd (snd r)"
    have n: "noted (packets (serve_step a b s)) ?st = \<lparr>st_name = st_name ?st, st_total = int (length c),
        st_offset = (if st_offset ?st \<noteq> 0 \<and> m = st_mtime ?st then st_offset ?st else 0), st_mtime = m\<rparr>"
      by (simp add: step 2 put_server_def t(1) take_reply_def)
    have "transfer_ok W (serve_step a b s)"
      using c n unfolding transfer_ok_def Let_def by (simp add: step 2 put_server_def t(1) after_reply_def agree_def)
    moreover have "prefix_ok W (cl_file ?cl) (noted (packets (serve_step a b s)) ?st)"
      using p unfolding n by (auto simp: prefix_ok_def)
    ultimately show ?thesis using session_okD(1-3)[OF ok] run
      by (intro session_okI) (simp_all add: step 2 put_server_def)
  qed
qed

lemma agree_change:
  "agree W sv off st \<Longrightarrow> sv_file sv' = sv_file sv \<Longrightarrow> sv_content sv' = sv_content sv \<Longrightarrow> sv_total sv' = sv_total sv \<Longrightarrow>
    agree W sv' off st"
  unfolding agree_def by metis

lemma agree_bounds:
  assumes "agree W sv off st" "prefix_ok W f st"
  shows "0 \<le> off" "off \<le> int (length (sv_content sv))" "sv_total sv = int (length (sv_content sv))"
    "int (length (sv_content sv)) < 2147483648"
proof -
  have c: "sv_content sv = W (st_name st) (st_mtime st)" and t: "sv_total sv = int (length (sv_content sv))"
    and l: "sv_total sv < 2147483648" and o: "st_offset st = off"
    using assms(1) unfolding agree_def by blast+
  have "0 \<le> st_offset st" "nat (st_offset st) \<le> length (W (st_name st) (st_mtime st))"
    using assms(2) unfolding prefix_ok_def by blast+
  then show "0 \<le> off" "off \<le> int (length (sv_content sv))" unfolding c o by linarith+
  show "sv_total sv = int (length (sv_content sv))" "int (length (sv_content sv)) < 2147483648" using t l by linarith+
qed

lemma noted_after:
  assumes "after_reply ps []" "noted [m] st = st"
  shows "noted (ps @ [m]) st = noted ps st" "after_reply (ps @ [m]) [m]"
  using assms by (auto simp: after_reply_def)

lemma serve_block_packet:
  assumes "agree W sv (sv_offset sv) st" "prefix_ok W f st"
  shows "\<exists>q. serve_block True True sv = (sv\<lparr>sv_pc := Sv_wait,
      sv_read := length (region (sv_content sv) (nat (sv_offset sv)) BUFFER_SIZE), sv_packet := q\<rparr>, [Pack q]) \<and>
    packet_ok (fst (serve_block True True sv))"
proof -
  let ?bs = "region (sv_content sv) (nat (sv_offset sv)) BUFFER_SIZE"
  note off = agree_bounds[OF assms]
  have "length ?bs \<le> length (sv_content sv) - nat (sv_offset sv)" by simp
  then have "int (length ?bs) \<le> int (length (sv_content sv)) - sv_offset sv" using off(1,2) by linarith
  then have "s32 (sv_offset sv + int (length ?bs)) = sv_offset sv + int (length ?bs)"
    using off by (intro s32_id) linarith+
  then show ?thesis using off(1,2) by (simp add: serve_block_def packet_ok_def Let_def nat_le_iff)
qed

lemma session_ok_block:
  assumes ok: "session_ok W s" and run: "cl_pc (ss_client s) = Cl_run" and pc: "sv_pc (ss_server s) = Sv_loop"
  shows "session_ok W (serve_step a b s)"
proof -
  let ?sv = "ss_server s" and ?cl = "ss_client s" and ?st = "cl_store (ss_client s)"
  let ?n = "noted (packets s) ?st"
  have t: "ss_up s = []" "after_reply (packets s) []" "agree W ?sv (sv_offset ?sv) ?n"
    using session_okD(5)[OF ok run] pc by (simp_all add: transfer_ok_def Let_def)
  have p: "prefix_ok W (cl_file ?cl) ?n" by (rule session_okD(4)[OF ok run])
  define r where "r = serve_block a b ?sv"
  have step: "serve_step a b s = put_server r s" using pc by (simp add: serve_step_def Let_def r_def)
  show ?thesis
  proof (cases "a \<and> 0 \<le> sv_offset ?sv \<and> b")
    case False
    then have r: "r = goto_err1 ?sv" by (auto simp: r_def serve_block_def)
    have n: "noted (packets s @ [Reply stop_update]) ?st = ?n" "after_reply (packets s @ [Reply stop_update]) [Reply stop_update]"
      by (rule noted_after[OF t(2)], simp)+
    have "transfer_ok W (serve_step a b s)"
      using n(2) t(2) unfolding transfer_ok_def Let_def
      by (auto simp: step r put_server_def goto_err1_def after_reply_def)
    then show ?thesis using session_okD(1-3)[OF ok] run p n(1)
      by (intro session_okI) (simp_all add: step r put_server_def goto_err1_def)
  next
    case True
    let ?bs = "region (sv_content ?sv) (nat (sv_offset ?sv)) BUFFER_SIZE"
    obtain q where q: "snd r = [Pack q]" "fst r = ?sv\<lparr>sv_pc := Sv_wait, sv_read := length ?bs, sv_packet := q\<rparr>"
      "packet_ok (fst r)" using serve_block_packet[OF t(3) p] True by (auto simp: r_def)
    have n: "noted (packets s @ [Pack q]) ?st = ?n" "after_reply (packets s @ [Pack q]) [Pack q]"
      by (rule noted_after[OF t(2)], simp)+
    have "agree W (fst r) (sv_offset ?sv) ?n" using t(3) by (rule agree_change) (simp_all add: q(2))
    then have "transfer_ok W (serve_step a b s)"
      using n t(1) q(3) unfolding transfer_ok_def Let_def by (simp add: step put_server_def q(1,2))
    then show ?thesis using session_okD(1-3)[OF ok] run p n(1)
      by (intro session_okI) (simp_all add: step put_server_def q(1))
  qed
qed

lemma session_ok_reply:
  assumes ok: "session_ok W s" and run: "cl_pc (ss_client s) = Cl_run" and pc: "sv_pc (ss_server s) = Sv_wait"
  shows "session_ok W (serve_step a b s)"
proof -
  let ?sv = "ss_server s" and ?cl = "ss_client s" and ?st = "cl_store (ss_client s)"
  have t: "packet_ok ?sv" "ss_up s = [] \<or> ss_up s = [File_reply (CHR ''Y'')] \<and> packets s = [] \<and>
      agree W ?sv (sv_offset ?sv + int (sv_read ?sv)) ?st"
    using session_okD(5)[OF ok run] pc by (auto simp: transfer_ok_def Let_def)
  show ?thesis
  proof (cases "ss_up s = []")
    case True
    then show ?thesis using ok pc by (simp add: serve_step_def Let_def)
  next
    case False
    then have u: "ss_up s = [File_reply (CHR ''Y'')]" "packets s = []" "agree W ?sv (sv_offset ?sv + int (sv_read ?sv)) ?st"
      using t(2) by simp_all
    define r where "r = serve_reply (CHR ''Y'') ?sv"
    have step: "serve_step a b s = put_server r (s\<lparr>ss_up := []\<rparr>)" using pc u(1) by (simp add: serve_step_def Let_def r_def)
    have p: "prefix_ok W (cl_file ?cl) ?st" using session_okD(3)[OF ok run] by (simp add: store_ok_def)
    have "s32 (sv_offset ?sv + int (sv_read ?sv)) = sv_offset ?sv + int (sv_read ?sv)"
      using agree_bounds[OF u(3) p] by (intro s32_id) linarith+
    then have r: "snd r = []" "fst r = ?sv\<lparr>sv_offset := sv_offset ?sv + int (sv_read ?sv), sv_pc := sv_pc (fst r)\<rparr>"
      "sv_pc (fst r) \<in> {Sv_killed, Sv_finished, Sv_loop}"
      by (simp_all add: r_def serve_reply_def Let_def)
    have "agree W (fst r) (sv_offset (fst r)) ?st" by (subst (1 2) r(2)) (simp add: agree_change[OF u(3)])
    then have "transfer_ok W (serve_step a b s)"
      using r(1,3) u(2) unfolding transfer_ok_def Let_def by (auto simp: step put_server_def after_reply_def)
    then show ?thesis using session_okD(1-3)[OF ok] run p u(2) r(1)
      by (intro session_okI) (simp_all add: step put_server_def)
  qed
qed

lemma session_ok_serve: "session_ok W s \<Longrightarrow> session_ok W (session_step (Ev_serve a b) s)"
proof (cases "cl_pc (ss_client s) = Cl_run")
  case True
  assume ok: "session_ok W s"
  show ?thesis
  proof (cases "sv_pc (ss_server s) \<in> {Sv_request, Sv_loop, Sv_wait}")
    case True
    then show ?thesis using session_ok_request[OF ok \<open>cl_pc _ = _\<close>] session_ok_block[OF ok \<open>cl_pc _ = _\<close>]
      session_ok_reply[OF ok \<open>cl_pc _ = _\<close>] by auto
  next
    case False
    then have "serve_step a b s = s" by (cases "sv_pc (ss_server s)") (simp_all add: serve_step_def Let_def)
    then show ?thesis using ok by simp
  qed
next
  case False
  assume "session_ok W s"
  moreover have "ss_client (serve_step a b s) = ss_client s"
    by (simp add: serve_step_def put_server_def Let_def split: server_pc.split list.split to_server.split)
  ultimately show ?thesis using False by (simp add: session_ok_idle)
qed

text \<open>The client that has stored a packet: its bytes are in the file and counted.\<close>

definition stored :: "server \<Rightarrow> client \<Rightarrow> client" where
  "stored sv cl = at_offset (st_offset (cl_store cl) + int (sv_read sv))
     (cl\<lparr>cl_file := pwrite (cl_file cl) (nat (st_offset (cl_store cl))) (region (sv_content sv) (nat (sv_offset sv)) BUFFER_SIZE)\<rparr>)"

lemma recv_file_pack_stored:
  assumes "prefix_ok W (cl_file cl) (cl_store cl)" "packet_ok sv" "agree W sv (sv_offset sv) (cl_store cl)"
  shows "recv_file_pack ce (Some (sv_packet sv)) cl =
    (let bs = region (sv_content sv) (nat (sv_offset sv)) BUFFER_SIZE; cl1 = stored sv cl in
     if \<not> ce_opened ce then (client_exit cl, [], False)
     else case ce_short ce of
       Some n \<Rightarrow> (client_exit (write_file_info (cl\<lparr>cl_file := pwrite (cl_file cl) (nat (st_offset (cl_store cl))) (take n bs)\<rparr>)), [], False)
     | None \<Rightarrow>
         if \<not> ce_replied ce then (client_exit (write_file_info cl1), [], False)
         else if sv_total sv = 0 then (cl1\<lparr>cl_pc := Cl_killed\<rparr>, [File_reply (CHR ''Y'')], False)
         else if file_data_flag (sv_packet sv) = CHR ''E'' then
           (case unpack_file (ce_dev ce) (ce_path ce) (sv_total sv) (cl_file cl1) (cl_dir cl1) of
              None \<Rightarrow> (cl1\<lparr>cl_pc := Cl_killed\<rparr>, [File_reply (CHR ''Y'')], False)
            | Some (_, d) \<Rightarrow> (cl1\<lparr>cl_dir := d\<rparr>, [File_reply (CHR ''Y'')], True))
         else (cl1, [File_reply (CHR ''Y'')], True))"
proof -
  let ?p = "sv_packet sv" and ?bs = "region (sv_content sv) (nat (sv_offset sv)) BUFFER_SIZE" and ?off = "st_offset (cl_store cl)"
  have p: "data_len ?p = int (length ?bs)" "take (length ?bs) (fp_buf ?p) = ?bs" "sv_read sv = length ?bs"
    using assms(2) unfolding packet_ok_def Let_def by blast+
  have off: "?off = sv_offset sv" using assms(3) unfolding agree_def by blast
  note b = agree_bounds[OF assms(3,1)]
  have "length ?bs \<le> length (sv_content sv) - nat (sv_offset sv)" by simp
  then have "s32 (?off + data_len ?p) = ?off + int (sv_read sv)"
    using b unfolding off p by (intro s32_id) linarith+
  then have st: "at_offset (s32 (?off + data_len ?p)) (cl\<lparr>cl_file := pwrite (cl_file cl) (nat ?off) ?bs\<rparr>) = stored sv cl"
    unfolding stored_def by simp
  have tot: "st_total (cl_store (stored sv cl)) = sv_total sv"
    using assms(3) unfolding agree_def by (simp add: stored_def at_offset_def)
  have len: "\<not> int (length (fp_buf ?p)) < data_len ?p" "\<not> data_len ?p < - 1" "\<not> ?off < 0"
    using p(1) b(1) off arg_cong[OF p(2), of length] by (simp_all add: min_def split: if_splits)
  have tk: "take (nat (data_len ?p)) (fp_buf ?p) = ?bs" using p(1,2) by (simp del: length_region)
  show ?thesis
    unfolding recv_file_pack_def Let_def option.case tk st tot using len by (simp del: length_region)
qed

lemma recv_file_pack_cases:
  assumes "store_ok W cl" "packet_ok sv" "agree W sv (sv_offset sv) (cl_store cl)"
    "r = recv_file_pack ce (Some (sv_packet sv)) cl"
  shows "r = (client_exit cl, [], False) \<or>
    (\<exists>bs. r = (client_exit (write_file_info (cl\<lparr>cl_file := pwrite (cl_file cl) (nat (st_offset (cl_store cl))) bs\<rparr>)), [], False)) \<or>
    r = (client_exit (write_file_info (stored sv cl)), [], False) \<or>
    r = ((stored sv cl)\<lparr>cl_pc := Cl_killed\<rparr>, [File_reply (CHR ''Y'')], False) \<or>
    (\<exists>d. r = ((stored sv cl)\<lparr>cl_dir := d\<rparr>, [File_reply (CHR ''Y'')], True))"
proof -
  have "(stored sv cl)\<lparr>cl_dir := cl_dir (stored sv cl)\<rparr> = stored sv cl" by simp
  then have ex: "\<exists>d. stored sv cl = (stored sv cl)\<lparr>cl_dir := d\<rparr>" by metis
  have px: "prefix_ok W (cl_file cl) (cl_store cl)" using assms(1) unfolding store_ok_def by blast
  show ?thesis
    unfolding assms(4) recv_file_pack_stored[OF px assms(2,3)] Let_def
    by (cases "ce_opened ce"; cases "ce_short ce";
        cases "unpack_file (ce_dev ce) (ce_path ce) (sv_total sv) (cl_file (stored sv cl)) (cl_dir (stored sv cl))";
        use ex in auto)
qed

lemma stored_ok:
  assumes "disk_ok W cl" "store_ok W cl" "packet_ok sv" "agree W sv (sv_offset sv) (cl_store cl)"
  shows "disk_ok W (stored sv cl)" "store_ok W (stored sv cl)"
    "agree W sv (sv_offset sv + int (sv_read sv)) (cl_store (stored sv cl))" "cl_pc (stored sv cl) = cl_pc cl"
proof -
  let ?bs = "region (sv_content sv) (nat (sv_offset sv)) BUFFER_SIZE" and ?st = "cl_store cl"
  have off: "st_offset ?st = sv_offset sv" "W (st_name ?st) (st_mtime ?st) = sv_content sv"
    using assms(4) unfolding agree_def by metis+
  have rd: "sv_read sv = length ?bs" using assms(3) unfolding packet_ok_def Let_def by blast
  have px: "prefix_ok W (cl_file cl) ?st" using assms(2) by (simp add: store_ok_def)
  have "prefix_ok W (pwrite (cl_file cl) (nat (st_offset ?st)) ?bs) (?st\<lparr>st_offset := st_offset ?st + int (length ?bs)\<rparr>)"
    by (rule prefix_ok_extend[OF px off(2)]) (simp only: off(1))
  then show "store_ok W (stored sv cl)" using assms(2) by (auto simp: store_ok_def stored_def at_offset_def rd simp del: length_region)
  show "agree W sv (sv_offset sv + int (sv_read sv)) (cl_store (stored sv cl))"
    using assms(4) unfolding agree_def stored_def at_offset_def by (elim conjE) (simp del: length_region)
  show "disk_ok W (stored sv cl)" using assms(1,2) px
    by (auto simp: disk_ok_def store_ok_def stored_def at_offset_def prefix_ok_def[of W _ ?st] intro!: prefix_ok_pwrite)
  show "cl_pc (stored sv cl) = cl_pc cl" by (simp add: stored_def at_offset_def)
qed

lemma store_to_disk: "store_ok W cl \<Longrightarrow> disk_ok W (client_exit (write_file_info cl))"
  by (simp add: disk_ok_def store_ok_def client_exit_def write_file_info_def)

lemma client_pack_ok:
  assumes "disk_ok W cl" "store_ok W cl" "packet_ok sv" "agree W sv (sv_offset sv) (cl_store cl)"
    "r = client_pack ce flag (Some (sv_packet sv)) cl"
  shows "disk_ok W (fst r)" "cl_pc (fst r) = Cl_run \<Longrightarrow> store_ok W (fst r) \<and> snd r = [File_reply (CHR ''Y'')] \<and>
    agree W sv (sv_offset sv + int (sv_read sv)) (cl_store (fst r))"
proof -
  note st = stored_ok[OF assms(1-4)]
  have px: "prefix_ok W (cl_file cl) (cl_store cl)" using assms(2) by (simp add: store_ok_def)
  then have off: "nat (st_offset (cl_store cl)) \<le> length (cl_file cl)" by (simp add: prefix_ok_def)
  have half: "disk_ok W (client_exit (write_file_info (cl\<lparr>cl_file := pwrite (cl_file cl) (nat (st_offset (cl_store cl))) bs\<rparr>)))" for bs
    using prefix_ok_pwrite[OF px order.refl off] by (simp add: disk_ok_def client_exit_def write_file_info_def)
  have fin: "disk_ok W (client_exit (write_file_info (at_offset 0 c)))" for c
    by (simp add: disk_ok_def client_exit_def write_file_info_def at_offset_def prefix_ok_def)
  show "disk_ok W (fst r)"
    using recv_file_pack_cases[OF assms(2-4) refl, of ce] assms(1) half fin st(1) store_to_disk[OF st(2)]
    by (auto simp: assms(5) client_pack_def disk_ok_def client_exit_def)
  show "store_ok W (fst r) \<and> snd r = [File_reply (CHR ''Y'')] \<and>
    agree W sv (sv_offset sv + int (sv_read sv)) (cl_store (fst r))" if "cl_pc (fst r) = Cl_run"
    using recv_file_pack_cases[OF assms(2-4) refl, of ce] that st(2,3)
    by (auto simp: assms(5) client_pack_def store_ok_def client_exit_def split: if_splits)
qed

text \<open>The client, by what it finds in front of it.\<close>

lemma session_ok_take_reply:
  assumes ok: "session_ok W s" and run: "cl_pc (ss_client s) = Cl_run"
    and d: "ss_down s = Reply rp # ms" "update_reply_flag rp \<in> {CHR ''Y'', CHR ''G''}"
  shows "session_ok W (session_step (Ev_client ce) s)"
proof -
  let ?cl = "ss_client s" and ?ps = "filter (\<lambda>m. \<not> is_beat m) ms"
  let ?st = "take_reply rp (cl_store ?cl)" and ?s' = "session_step (Ev_client ce) s"
  have ps: "packets s = Reply rp # ?ps" by (simp add: d(1))
  have s': "?s' = s\<lparr>ss_down := ms, ss_client := write_file_info (?cl\<lparr>cl_store := ?st\<rparr>)\<rparr>"
    using run d by (simp add: put_client_def)
  have p: "prefix_ok W (cl_file ?cl) ?st" using session_okD(4)[OF ok run] d(2) by (simp add: ps)
  have shape: "?ps = [] \<or> (\<exists>q. ?ps = [Pack q]) \<or> ?ps = [Reply stop_update]"
    using session_okD(5)[OF ok run] d(2)
    by (auto simp: transfer_ok_def Let_def ps after_reply_def split: server_pc.splits)
  then have n: "noted ?ps st = st" for st by auto
  have "noted (packets s) (cl_store ?cl) = ?st" using d(2) by (simp add: ps)
  then have "transfer_ok W ?s'"
    using session_okD(5)[OF ok run] d(2) unfolding transfer_ok_def Let_def s'
    by (auto simp: ps n after_reply_def write_file_info_def split: server_pc.splits)
  then show ?thesis using session_okD(2)[OF ok run] p unfolding s'
    by (intro session_okI) (auto simp: n disk_ok_def store_ok_def write_file_info_def)
qed

lemma next_pack:
  assumes ok: "session_ok W s" and run: "cl_pc (ss_client s) = Cl_run" and d: "ss_down s = Pack p # ms"
  shows "sv_pc (ss_server s) = Sv_wait" "packet_ok (ss_server s)" "ss_up s = []" "filter (\<lambda>m. \<not> is_beat m) ms = []"
    "p = sv_packet (ss_server s)" "agree W (ss_server s) (sv_offset (ss_server s)) (cl_store (ss_client s))"
  using session_okD(5)[OF ok run]
  by (auto simp: transfer_ok_def Let_def d after_reply_def split: server_pc.splits)

lemma session_ok_take_pack:
  assumes ok: "session_ok W s" and run: "cl_pc (ss_client s) = Cl_run" and d: "ss_down s = Pack p # ms"
  shows "session_ok W (session_step (Ev_client ce) s)"
proof -
  let ?cl = "ss_client s" and ?sv = "ss_server s" and ?ps = "filter (\<lambda>m. \<not> is_beat m) ms" and ?s' = "session_step (Ev_client ce) s"
  note t = next_pack[OF ok run d]
  have fl: "file_data_flag p \<in> {CHR ''F'', CHR ''E''}" using t(2) by (simp add: t(5) packet_ok_def Let_def)
  define r where "r = client_pack ce (file_data_flag p) (Some (sv_packet ?sv)) ?cl"
  have s': "?s' = put_client r (s\<lparr>ss_down := ms\<rparr>)" using run d fl by (auto simp: r_def t(5))
  note r = client_pack_ok[OF session_okD(1)[OF ok] session_okD(3)[OF ok run] t(2,6) r_def]
  show ?thesis
  proof (cases "cl_pc (fst r) = Cl_run")
    case False
    then show ?thesis using r(1) unfolding s' by (simp add: session_ok_idle put_client_def)
  next
    case True
    then have "transfer_ok W ?s'" using r(2) t unfolding s' by (simp add: put_client_def transfer_ok_def Let_def)
    then show ?thesis using r(1) r(2)[OF True] session_okD(2)[OF ok run] t(4) unfolding s'
      by (intro session_okI) (auto simp: put_client_def store_ok_def)
  qed
qed

lemma session_ok_client: 
  assumes ok: "session_ok W s"
  shows "session_ok W (session_step (Ev_client ce) s)"
proof (cases "ss_down s = [] \<or> cl_pc (ss_client s) \<noteq> Cl_run")
  case True
  then show ?thesis using ok by (auto split: list.split)
next
  case False
  then obtain m ms where d: "ss_down s = m # ms" and run: "cl_pc (ss_client s) = Cl_run" by (auto simp: neq_Nil_conv)
  have stop: ?thesis if "client_step ce (Whole m) (ss_client s) = client_stop (ss_client s)"
    using that run d store_to_disk[OF session_okD(3)[OF ok run]]
    by (simp add: session_ok_idle put_client_def client_stop_def client_exit_def)
  show ?thesis
  proof (cases m)
    case (Reply rp)
    then show ?thesis using session_ok_take_reply[OF ok run d[unfolded Reply]] stop by fastforce
  next
    case (Pack p)
    then show ?thesis using session_ok_take_pack[OF ok run] d by simp
  next
    case (Beat b)
    show ?thesis
    proof (cases "heart_beat_flag b = CHR ''H''")
      case True
      then have "session_step (Ev_client ce) s = s\<lparr>ss_down := ms\<rparr>" using Beat d run by (simp add: put_client_def)
      moreover have "filter (\<lambda>m. \<not> is_beat m) ms = packets s" using Beat d True by simp
      ultimately show ?thesis using session_ok_down[OF ok] by simp
    qed (use Beat stop in simp)
  qed
qed

lemma client_cut_ok:
  assumes "disk_ok W cl" "store_ok W cl" "inc = Flag_failed \<or> inc = Cut m"
  shows "disk_ok W (fst (client_step ce inc cl))" "cl_pc (fst (client_step ce inc cl)) = Cl_run \<Longrightarrow> store_ok W (fst (client_step ce inc cl))"
proof -
  have px: "prefix_ok W (cl_file cl) (cl_store cl)" using assms(2) unfolding store_ok_def by blast
  have pack: "fst (client_pack ce c None cl) \<in> {client_exit cl, client_exit (write_file_info cl), write_file_info (at_offset (st_offset (cl_store cl)) cl)}" for c
    by (simp add: client_pack_def recv_file_pack_def Let_def)
  have "fst (client_step ce inc cl) \<in> {client_exit cl, client_exit (write_file_info cl), client_exit (at_offset 0 cl),
      write_file_info (at_offset (st_offset (cl_store cl)) cl)}"
    using assms(3) pack[of "CHR ''F''"] pack[of "CHR ''E''"] by (cases m) (auto simp: client_stop_def)
  then show "disk_ok W (fst (client_step ce inc cl))" "cl_pc (fst (client_step ce inc cl)) = Cl_run \<Longrightarrow> store_ok W (fst (client_step ce inc cl))"
    using assms(1) px by (auto simp: disk_ok_def store_ok_def client_exit_def write_file_info_def at_offset_def)
qed

lemma session_ok_break:
  assumes ok: "session_ok W s"
  shows "session_ok W (session_step (Ev_break brk ce) s)"
proof (cases "cl_pc (ss_client s) = Cl_run")
  case True
  obtain inc m where inc: "inc = Flag_failed \<or> inc = Cut m" "session_step (Ev_break brk ce) s = cut_off ce inc s"
    using True by (cases "ss_down s"; cases brk) auto
  note c = client_cut_ok[OF session_okD(1)[OF ok] session_okD(3)[OF ok True] inc(1), of ce]
  show ?thesis
  proof (cases "cl_pc (fst (client_step ce inc (ss_client s))) = Cl_run")
    case False
    then show ?thesis using c(1) unfolding inc(2) by (simp add: session_ok_idle cut_off_def)
  next
    case run: True
    have "transfer_ok W (cut_off ce inc s)" by (simp add: cut_off_def transfer_ok_def Let_def)
    then show ?thesis using c(1) c(2)[OF run] session_okD(2)[OF ok True] unfolding inc(2)
      by (intro session_okI) (simp_all add: cut_off_def store_ok_def)
  qed
qed (use ok in simp)

lemma session_ok_step: "session_ok W s \<Longrightarrow> event_ok W e \<Longrightarrow> session_ok W (session_step e s)"
  by (cases e) (simp_all only: session_ok_start session_ok_serve session_ok_beat session_ok_client session_ok_break
      session_ok_timeout session_ok_kill event_ok.simps)

lemma session_ok_run: "session_ok W s \<Longrightarrow> list_all (event_ok W) evs \<Longrightarrow> session_ok W (session_run evs s)"
  unfolding session_run_def by (induction evs arbitrary: s) (simp_all add: session_ok_step)

lemma session_ok_init: "\<forall>st. info = Some st \<longrightarrow> prefix_ok W f st \<Longrightarrow> session_ok W (session_init info f d)"
  by (simp add: session_ok_idle session_init_def disk_ok_def)

subsection \<open>Resuming\<close>

lemma whole_file:
  assumes "prefix_ok W f st" "agree W sv (int (length (sv_content sv))) st"
  shows "\<exists>stale. f = W (st_name st) (st_mtime st) @ stale" "st_total st = int (length (W (st_name st) (st_mtime st)))"
proof -
  let ?w = "W (st_name st) (st_mtime st)"
  have "nat (st_offset st) = length ?w" "st_total st = int (length ?w)"
    using assms(2) unfolding agree_def by (elim conjE; simp)+
  moreover then have "take (length ?w) f = ?w" using assms(1) unfolding prefix_ok_def by simp
  then have "f = ?w @ drop (length ?w) f" by (metis append_take_drop_id)
  ultimately show "\<exists>stale. f = ?w @ stale" "st_total st = int (length ?w)" by blast+
qed

lemma last_packet_whole:
  assumes ok: "session_ok W s" and run: "cl_pc (ss_client s) = Cl_run" and d: "ss_down s = Pack p # ms"
    and e: "file_data_flag p = CHR ''E''" and r: "recv_file_pack ce (Some p) (ss_client s) = (cl, out, True)" "st = cl_store cl"
  shows "(\<exists>stale. cl_file cl = W (st_name st) (st_mtime st) @ stale) \<and> st_total st = int (length (W (st_name st) (st_mtime st)))"
proof -
  let ?sv = "ss_server s" and ?cl = "ss_client s"
  note t = next_pack[OF ok run d]
  note so = session_okD(3)[OF ok run]
  then have px: "prefix_ok W (cl_file ?cl) (cl_store ?cl)" unfolding store_ok_def by blast
  note st = stored_ok[OF session_okD(1)[OF ok] so t(2,6)]
  have "cl_file cl = cl_file (stored ?sv ?cl) \<and> cl_store cl = cl_store (stored ?sv ?cl)"
    using recv_file_pack_cases[OF so t(2,6) refl, of ce] r(1) unfolding t(5) by auto
  moreover have "sv_offset ?sv + int (sv_read ?sv) = int (length (sv_content ?sv))"
    using e t(2) agree_bounds(3)[OF t(6) px] unfolding t(5) packet_ok_def Let_def by (auto split: if_splits)
  ultimately show ?thesis using st(2,3) whole_file[of W "cl_file cl" "cl_store cl" ?sv] unfolding r(2) store_ok_def by simp
qed

text \<open>
  C39. Whatever happened before: broken connections, time-outs, a client killed in the middle of a write, files
replaced on the server between two connections.  The offset that the client has on its disk never exceeds what
its file shares with the version it noted, and when it takes the last packet, the file starts with the whole of
that version, of the length announced.\<close>

theorem update_resumes:
  assumes "list_all (event_ok W) evs" "\<forall>st. info = Some st \<longrightarrow> prefix_ok W f st" "s = session_run evs (session_init info f d)"
  shows "(\<forall>st. cl_disk (ss_client s) = Some st \<longrightarrow> prefix_ok W (cl_file (ss_client s)) st) \<and>
    (\<forall>p ms cl out st. cl_pc (ss_client s) = Cl_run \<and> ss_down s = Pack p # ms \<and> file_data_flag p = CHR ''E'' \<and>
       recv_file_pack ce (Some p) (ss_client s) = (cl, out, True) \<and> st = cl_store cl \<longrightarrow>
       (\<exists>stale. cl_file cl = W (st_name st) (st_mtime st) @ stale) \<and> st_total st = int (length (W (st_name st) (st_mtime st))))"
proof -
  have ok: "session_ok W s" unfolding assms(3) by (intro session_ok_run session_ok_init assms)
  then have "\<forall>st. cl_disk (ss_client s) = Some st \<longrightarrow> prefix_ok W (cl_file (ss_client s)) st"
    using session_okD(1)[OF ok] by (simp add: disk_ok_def)
  then show ?thesis using last_packet_whole[OF ok] by blast
qed

theorem update_resumes_witness:
  "let ce = \<lparr>ce_opened = True, ce_short = None, ce_replied = True, ce_dev = (\<lambda>_. (True, Some 0)), ce_path = []\<rparr>;
       W = (\<lambda>_ _. [1, 2, 3]); fs = (\<lambda>_. Some (7, [1, 2, 3]));
       s = session_run [Ev_start ''f'' fs, Ev_serve True True, Ev_client ce, Ev_serve True True] (session_init None [] (\<lambda>_. None)) in
   (\<forall>st. cl_disk (ss_client s) = Some st \<longrightarrow> prefix_ok W (cl_file (ss_client s)) st) \<and>
   (\<forall>p ms cl out st. cl_pc (ss_client s) = Cl_run \<and> ss_down s = Pack p # ms \<and> file_data_flag p = CHR ''E'' \<and>
       recv_file_pack ce (Some p) (ss_client s) = (cl, out, True) \<and> st = cl_store cl \<longrightarrow>
       (\<exists>stale. cl_file cl = W (st_name st) (st_mtime st) @ stale) \<and> st_total st = int (length (W (st_name st) (st_mtime st))))"
  unfolding Let_def by (rule update_resumes[OF _ _ refl]) (simp_all add: exhibits_def)

end
