(* ===== verification/Update_Pack.thy ===== *)
theory Update_Pack
  imports Update_Unpack
begin

text \<open>
  A reference encoder for the images that \<open>unpack_file\<close> reads, written from the layout in
  \<open>update_tool/client/global.h\<close>, and the round trip: the client installs exactly the files that were packed.
\<close>

definition le_bytes :: "32 word \<Rightarrow> byte list" where
  "le_bytes w = map (\<lambda>i. ucast (drop_bit (8 * i) w)) [0..<4]"

definition pack_entry :: "byte list \<Rightarrow> nat \<Rightarrow> byte list \<Rightarrow> byte list" where
  "pack_entry nm off bs = nm @ replicate (32 - length nm) 0 @ le_bytes (of_nat off) @ le_bytes (of_nat (length bs)) @ le_bytes (byte_sum bs)"

fun pack_entries :: "nat \<Rightarrow> (byte list \<times> byte list) list \<Rightarrow> byte list" where
  "pack_entries off [] = []"
| "pack_entries off ((nm, bs) # fs) = pack_entry nm off bs @ pack_entries (off + length bs) fs"

definition pack_size :: "(byte list \<times> byte list) list \<Rightarrow> nat" where
  "pack_size fs = FIRMWARE_SIZE + UPGRADE_SIZE * length fs"

definition pack_header :: "(byte list \<times> byte list) list \<Rightarrow> byte list" where
  "pack_header fs = (let rest = le_bytes (of_nat (length fs)) @ replicate 48 0 @ pack_entries (pack_size fs) fs in
     le_bytes 0x484b5753 @ le_bytes (byte_sum rest) @ le_bytes (of_nat (pack_size fs)) @ rest)"

definition pack_image :: "(byte list \<times> byte list) list \<Rightarrow> byte list" where
  "pack_image fs = masked (pack_header fs) @ concat (map snd fs)"

lemma length_le_bytes [simp]: "length (le_bytes w) = 4"
  by (simp add: le_bytes_def)

lemma le32_le_bytes: "le32 (pre @ le_bytes w @ post) (length pre) = w"
proof -
  have four: "[0..<4] = [0, 1, 2, 3::nat]" by (simp add: upt_rec numeral_eq_Suc)
  have "horner_sum uint 256 (le_bytes w) = uint w"
  proof -
    have lt: "uint w < 2 ^ 32" "0 \<le> uint w" using uint_lt2p[of w] by simp_all
    then have "uint w mod 4294967296 = uint w" by simp
    then have b: "uint (ucast (drop_bit n w) :: byte) = uint w div 2 ^ n mod 256" for n
      by (simp only: unsigned_ucast_eq unsigned_drop_bit_eq) (simp add: take_bit_eq_mod drop_bit_eq_div)
    have "uint w div 16777216 mod 256 = uint w div 16777216"
      using lt zdiv_mono1[of "uint w" 4294967295 16777216] by (intro mod_pos_pos_trivial) (simp_all add: pos_imp_zdiv_nonneg_iff)
    then have "horner_sum uint 256 (le_bytes w) =
        uint w mod 256 + 256 * (uint w div 256 mod 256 + 256 * (uint w div 65536 mod 256 + 256 * (uint w div 16777216)))"
      using b[of 0] by (simp add: le_bytes_def four b)
    moreover have "uint w div 65536 = uint w div 256 div 256" "uint w div 16777216 = uint w div 256 div 256 div 256"
      by (simp_all add: zdiv_zmult2_eq[symmetric])
    moreover have "k mod 256 + 256 * (k div 256) = k" for k :: int by simp
    ultimately show ?thesis by (simp only:)
  qed
  then show ?thesis by (simp add: le32_def region_def)
qed

lemma length_pack_entry [simp]: "length nm \<le> 32 \<Longrightarrow> length (pack_entry nm off bs) = UPGRADE_SIZE"
  by (simp add: pack_entry_def)

definition short_names :: "(byte list \<times> byte list) list \<Rightarrow> bool" where
  "short_names fs \<longleftrightarrow> list_all (\<lambda>(nm, _). length nm < 32 \<and> 0 \<notin> set nm) fs"

lemma length_pack_entries [simp]: "short_names fs \<Longrightarrow> length (pack_entries off fs) = UPGRADE_SIZE * length fs"
  by (induction off fs rule: pack_entries.induct) (auto simp: short_names_def)

lemma length_pack_header [simp]: "short_names fs \<Longrightarrow> length (pack_header fs) = pack_size fs"
  by (simp add: pack_header_def Let_def pack_size_def)

text \<open>Where each file starts, and the entry that the directory has for it.\<close>

definition pack_off :: "nat \<Rightarrow> (byte list \<times> byte list) list \<Rightarrow> nat \<Rightarrow> nat" where
  "pack_off off fs i = off + length (concat (map snd (take i fs)))"

lemma pack_entries_split:
  assumes "short_names fs" "i < length fs"
  shows "\<exists>pre post. pack_entries off fs = pre @ pack_entry (fst (fs ! i)) (pack_off off fs i) (snd (fs ! i)) @ post \<and>
    length pre = UPGRADE_SIZE * i"
  using assms
proof (induction off fs arbitrary: i rule: pack_entries.induct)
  case (1 off)
  then show ?case by simp
next
  case (2 off nm bs fs)
  show ?case
  proof (cases i)
    case 0
    then show ?thesis
      by (intro exI[of _ "[]"] exI[of _ "pack_entries (off + length bs) fs"]) (simp add: pack_off_def)
  next
    case (Suc j)
    from 2 Suc have nm: "length nm \<le> 32" and fs: "short_names fs" "j < length fs" by (auto simp: short_names_def)
    from "2.IH"[OF fs] obtain pre post where s: "pack_entries (off + length bs) fs =
        pre @ pack_entry (fst (fs ! j)) (pack_off (off + length bs) fs j) (snd (fs ! j)) @ post" "length pre = UPGRADE_SIZE * j"
      by blast
    have o1: "pack_off (off + length bs) fs j = pack_off off ((nm, bs) # fs) i" by (simp add: pack_off_def Suc)
    show ?thesis
      by (rule exI[of _ "pack_entry nm off bs @ pre"], rule exI[of _ post]) (use s o1 nm Suc in simp)
  qed
qed

lemma le32_split: "xs = pre @ le_bytes w @ post \<Longrightarrow> p = length pre \<Longrightarrow> le32 xs p = w"
  by (simp add: le32_le_bytes)

lemma firmware_header_split:
  assumes "h = le_bytes a @ le_bytes b @ le_bytes c @ le_bytes n @ ts"
  shows "firmware_header h = \<lparr>magic_number = a, header_checksum = b, header_length = c, file_nums = n\<rparr>"
proof -
  have "le32 h 0 = a" by (rule le32_split[where pre = "[]"]) (simp_all add: assms)
  moreover have "le32 h 4 = b" by (rule le32_split[where pre = "le_bytes a"]) (simp_all add: assms)
  moreover have "le32 h 8 = c" by (rule le32_split[where pre = "le_bytes a @ le_bytes b"]) (simp_all add: assms)
  moreover have "le32 h 12 = n"
    by (rule le32_split[where pre = "le_bytes a @ le_bytes b @ le_bytes c"]) (simp_all add: assms)
  ultimately show ?thesis by (simp add: firmware_header_def)
qed

lemma unat_of_nat_small: "n < 2147483648 \<Longrightarrow> unat (of_nat n :: 32 word) = n"
  by (simp add: unsigned_of_nat take_bit_nat_eq_self)

lemma sint_of_nat_small: "n < 2147483648 \<Longrightarrow> sint (of_nat n :: 32 word) = int n"
  by (simp add: signed_of_nat signed_take_bit_int_eq_self)

lemma upgrade_header_split:
  assumes h: "h = pre @ pack_entry nm off bs @ post" and pre: "length pre = FIRMWARE_SIZE + UPGRADE_SIZE * i"
    and nm: "length nm < 32" "0 \<notin> set nm" and small: "off < 2147483648" "length bs < 2147483648"
  shows "upgrade_header h i = \<lparr>file_name = nm, start_offset = int off, file_len = int (length bs), checksum = byte_sum bs\<rparr>"
    "named h i"
proof -
  let ?z = "replicate (32 - length nm) (0::byte)"
  have r: "region h (FIRMWARE_SIZE + UPGRADE_SIZE * i) 32 = nm @ ?z"
    using nm(1) by (simp add: h pre[symmetric] region_def pack_entry_def)
  have tw: "takeWhile (\<lambda>c. c \<noteq> 0) (nm @ ?z) = nm"
    using nm by (subst takeWhile_append2) (auto simp: takeWhile_eq_Nil_iff hd_replicate)
  have "le32 h (FIRMWARE_SIZE + UPGRADE_SIZE * i + 32) = of_nat off"
    by (rule le32_split[where pre = "pre @ nm @ ?z"]) (use nm(1) in \<open>simp_all add: h pre pack_entry_def\<close>)
  moreover have "le32 h (FIRMWARE_SIZE + UPGRADE_SIZE * i + 36) = of_nat (length bs)"
    by (rule le32_split[where pre = "pre @ nm @ ?z @ le_bytes (of_nat off)"]) (use nm(1) in \<open>simp_all add: h pre pack_entry_def\<close>)
  moreover have "le32 h (FIRMWARE_SIZE + UPGRADE_SIZE * i + 40) = byte_sum bs"
    by (rule le32_split[where pre = "pre @ nm @ ?z @ le_bytes (of_nat off) @ le_bytes (of_nat (length bs))"])
      (use nm(1) in \<open>simp_all add: h pre pack_entry_def\<close>)
  ultimately show "upgrade_header h i = \<lparr>file_name = nm, start_offset = int off, file_len = int (length bs), checksum = byte_sum bs\<rparr>"
    by (simp add: upgrade_header_def Let_def r tw sint_of_nat_small small)
  show "named h i" using nm(1) by (simp add: named_def r)
qed

subsection \<open>The round trip\<close>

lemma install_files_all:
  assumes "\<forall>e \<in> set es. map_option byte_sum (section_bytes buffer e) = Some (checksum e) \<and>
      length (file_path path_name e) < 100 \<and> 0 \<le> file_len e" "\<And>i. dev i = (True, Some 0)"
  shows "install_files dev path_name buffer i es d = Some (Unpacked, fold (install path_name buffer) es d)"
  using assms(1)
proof (induction es arbitrary: i d)
  case Nil
  then show ?case by simp
next
  case (Cons e es)
  then obtain bs where "section_bytes buffer e = Some bs" "byte_sum bs = checksum e" by auto
  then show ?case using Cons assms(2) by (simp add: Let_def install_def)
qed

lemma pack_section:
  assumes "short_names fs" "i < length fs"
  shows "region (pack_image fs @ ts) (pack_off (pack_size fs) fs i) (length (snd (fs ! i))) = snd (fs ! i)"
    "pack_off (pack_size fs) fs i + length (snd (fs ! i)) \<le> length (pack_image fs)"
proof -
  have "concat (map snd fs) = concat (map snd (take i fs)) @ snd (fs ! i) @ concat (map snd (drop (Suc i) fs))"
    using assms(2) by (subst id_take_nth_drop[of i fs]) simp_all
  then show "region (pack_image fs @ ts) (pack_off (pack_size fs) fs i) (length (snd (fs ! i))) = snd (fs ! i)"
    "pack_off (pack_size fs) fs i + length (snd (fs ! i)) \<le> length (pack_image fs)"
    using assms(1) by (simp_all add: pack_image_def pack_off_def region_def)
qed

lemma pack_directory:
  assumes "short_names fs" "length (pack_image fs) < 2147483648" "i < length fs"
  shows "upgrade_header (pack_header fs) i = \<lparr>file_name = fst (fs ! i), start_offset = int (pack_off (pack_size fs) fs i),
      file_len = int (length (snd (fs ! i))), checksum = byte_sum (snd (fs ! i))\<rparr>"
    "named (pack_header fs) i"
proof -
  have nm: "length (fst (fs ! i)) < 32" "0 \<notin> set (fst (fs ! i))"
    using assms(1,3) by (auto simp: short_names_def list_all_length case_prod_beta)
  from pack_entries_split[OF assms(1,3)] obtain pre post where
    "pack_entries (pack_size fs) fs = pre @ pack_entry (fst (fs ! i)) (pack_off (pack_size fs) fs i) (snd (fs ! i)) @ post"
    "length pre = UPGRADE_SIZE * i" by blast
  then obtain p2 where p2: "pack_header fs = p2 @ pack_entry (fst (fs ! i)) (pack_off (pack_size fs) fs i) (snd (fs ! i)) @ post"
    "length p2 = FIRMWARE_SIZE + UPGRADE_SIZE * i"
    by (simp add: pack_header_def Let_def flip: append_assoc)
  have small: "pack_off (pack_size fs) fs i < 2147483648" "length (snd (fs ! i)) < 2147483648"
    using pack_section(2)[OF assms(1,3)] assms(2) by auto
  show "upgrade_header (pack_header fs) i = \<lparr>file_name = fst (fs ! i), start_offset = int (pack_off (pack_size fs) fs i),
      file_len = int (length (snd (fs ! i))), checksum = byte_sum (snd (fs ! i))\<rparr>" "named (pack_header fs) i"
    using upgrade_header_split[OF p2 nm small] by blast+
qed

lemma pack_directory_list:
  assumes "short_names fs" "length (pack_image fs) < 2147483648"
  shows "unat (file_nums (firmware_header (masked (take FIRMWARE_SIZE (pack_image fs @ ts))))) = length fs"
    "masked (take (FIRMWARE_SIZE + UPGRADE_SIZE * length fs) (pack_image fs @ ts)) = pack_header fs"
proof -
  let ?n = "FIRMWARE_SIZE + UPGRADE_SIZE * length fs"
  have len: "length (pack_header fs) = ?n" using assms(1) by (simp add: pack_size_def)
  show h: "masked (take ?n (pack_image fs @ ts)) = pack_header fs"
    using len by (simp add: pack_image_def)
  let ?rest = "le_bytes (of_nat (length fs)) @ replicate 48 0 @ pack_entries (pack_size fs) fs"
  have "masked (take FIRMWARE_SIZE (pack_image fs @ ts)) = take FIRMWARE_SIZE (pack_header fs)"
    using len by (simp add: pack_image_def take_masked)
  also have "\<dots> = le_bytes 0x484b5753 @ le_bytes (byte_sum ?rest) @ le_bytes (of_nat (pack_size fs)) @
      le_bytes (of_nat (length fs)) @ replicate 48 0"
    by (simp add: pack_header_def Let_def)
  finally have "file_nums (firmware_header (masked (take FIRMWARE_SIZE (pack_image fs @ ts)))) = of_nat (length fs)"
    by (simp add: firmware_header_split)
  moreover have "length fs < 2147483648"
    using assms(2) len by (simp add: pack_image_def pack_size_def)
  ultimately show "unat (file_nums (firmware_header (masked (take FIRMWARE_SIZE (pack_image fs @ ts))))) = length fs"
    by (simp add: unat_of_nat_small)
qed

lemma pack_header_sum:
  assumes "short_names fs" "length (pack_image fs) < 2147483648"
  shows "header_sum (pack_header fs) = Some (header_checksum (firmware_header (pack_header fs)))"
proof -
  let ?rest = "le_bytes (of_nat (length fs)) @ replicate 48 0 @ pack_entries (pack_size fs) fs"
  have "pack_size fs < 2147483648" "12 \<le> pack_size fs"
    using assms by (auto simp: pack_image_def pack_size_def)
  then have "unat (of_nat (pack_size fs) - 12 :: 32 word) = pack_size fs - 12"
    by (simp add: unat_sub_if_size unat_of_nat_small)
  moreover have h: "pack_header fs = le_bytes 0x484b5753 @ le_bytes (byte_sum ?rest) @ le_bytes (of_nat (pack_size fs)) @ ?rest"
    by (simp add: pack_header_def Let_def)
  moreover from h have "firmware_header (pack_header fs) = \<lparr>magic_number = 0x484b5753, header_checksum = byte_sum ?rest,
      header_length = of_nat (pack_size fs), file_nums = of_nat (length fs)\<rparr>"
    by (rule firmware_header_split)
  moreover have "length ?rest = pack_size fs - 12" using assms(1) by (simp add: pack_size_def)
  ultimately show ?thesis by (simp add: header_sum_def Let_def region_def)
qed

text \<open>
  C37. However \<open>unpack_file\<close> ends, the files written are the first few of the directory, in its order, each with the
checksum that the directory gives for it, and all of them when it succeeds; at most one more file has been created, or
opened, without being written.  A file gets its bytes up to where its write stopped, and all of them if no write was short;
the program counts a short write as done.\<close>

theorem unpack_verified:
  assumes "unpack_file dev path_name total_size f d = Some (r, d')"
  shows "\<exists>k \<le> length (directory f).
    list_all (\<lambda>e. map_option byte_sum (section_bytes (image_buffer total_size f) e) = Some (checksum e)) (take k (directory f)) \<and>
    (let d1 = fold (install_cut dev path_name (image_buffer total_size f)) (enumerate 0 (take k (directory f))) d in
       (if r = Unpacked then k = length (directory f) \<and> d' = d1
        else d' = d1 \<or> (k < length (directory f) \<and> d' = overwrite (file_path path_name (directory f ! k)) [] d1)) \<and>
       ((\<forall>i < k. snd (dev i) = Some 0) \<longrightarrow>
          d1 = fold (install path_name (image_buffer total_size f)) (take k (directory f)) d))"
  using unpack_file_cases[OF assms]
proof
  assume "r = Unpack_failed \<and> d' = d"
  then show ?thesis by (intro exI[of _ 0]) simp
next
  assume "install_files dev path_name (image_buffer total_size f) 0 (directory f) d = Some (r, d')"
  from install_files_verified[OF this] obtain k where k: "k \<le> length (directory f)"
    "list_all (\<lambda>e. map_option byte_sum (section_bytes (image_buffer total_size f) e) = Some (checksum e)) (take k (directory f))"
    "let d1 = fold (install_cut dev path_name (image_buffer total_size f)) (enumerate 0 (take k (directory f))) d in
       if r = Unpacked then k = length (directory f) \<and> d' = d1
       else k < length (directory f) \<and> (d' = d1 \<or> d' = overwrite (file_path path_name (directory f ! k)) [] d1)" by blast
  have whole: "(\<forall>i < k. snd (dev i) = Some 0) \<longrightarrow> fold (install_cut dev path_name (image_buffer total_size f)) (enumerate 0 (take k (directory f))) d =
      fold (install path_name (image_buffer total_size f)) (take k (directory f)) d"
    using install_cut_whole[of "take k (directory f)" dev 0] by simp
  show ?thesis by (intro exI[of _ k] conjI k(1,2)) (use k(3) whole in \<open>auto simp: Let_def split: if_splits\<close>)
qed

text \<open>In the witness the second byte of the only file is not written.\<close>

definition cut_image :: "byte list" where
  "cut_image = pack_image [([0x61], [1, 2])]"

theorem unpack_verified_witness:
  "\<exists>d'. unpack_file (\<lambda>_. (True, Some 1)) [] 110 cut_image Map.empty = Some (Unpacked, d') \<and> d' [0x2f, 0x61] = Some [1] \<and>
    (\<exists>k \<le> length (directory cut_image).
      list_all (\<lambda>e. map_option byte_sum (section_bytes (image_buffer 110 cut_image) e) = Some (checksum e)) (take k (directory cut_image)))"
proof -
  have "map_option (\<lambda>(r, d). (r, d [0x2f, 0x61])) (unpack_file (\<lambda>_. (True, Some 1)) [] 110 cut_image Map.empty) =
      Some (Unpacked, Some [1])" by code_simp
  then obtain d' where d': "unpack_file (\<lambda>_. (True, Some 1)) [] 110 cut_image Map.empty = Some (Unpacked, d')"
    "d' [0x2f, 0x61] = Some [1]" by auto
  show ?thesis using d' unpack_verified[OF d'(1)] by blast
qed

lemma unpack_packed:
  assumes fs: "short_names fs" "length (pack_image fs) < 2147483648"
    and path: "list_all (\<lambda>(nm, _). length path_name + length nm < 99) fs" and dev: "\<And>i. dev i = (True, Some 0)"
  shows "unpack_file dev path_name (int (length (pack_image fs))) (pack_image fs @ stale) d =
    Some (Unpacked, fold (\<lambda>(nm, bs). overwrite (path_name @ [0x2f] @ nm) bs) fs d)"
proof -
  let ?f = "pack_image fs @ stale" and ?h = "pack_header fs" and ?n = "length fs"
  let ?buf = "image_buffer (int (length (pack_image fs))) ?f"
  have buf: "?buf = pack_image fs @ [0]" by (simp add: image_buffer_def)
  note n = pack_directory_list(1)[OF fs, of stale] and h = pack_directory_list(2)[OF fs(1,2), of stale]
  have long: "FIRMWARE_SIZE + UPGRADE_SIZE * ?n \<le> length ?f" "FIRMWARE_SIZE \<le> length ?f"
    using fs(1) by (simp_all add: pack_image_def pack_size_def)
  have nmd: "list_all (named ?h) [0..<?n]" using pack_directory(2)[OF fs] by (simp add: list_all_length)
  have dir: "directory ?f = map (upgrade_header ?h) [0..<?n]"
    unfolding directory_def Let_def n h ..
  have sec: "section_bytes ?buf (upgrade_header ?h i) = Some (snd (fs ! i))" if "i < ?n" for i
    using that pack_section[OF fs(1) that] by (simp add: section_bytes_def pack_directory(1)[OF fs that] buf)
  have nm: "file_name (upgrade_header ?h i) = fst (fs ! i)" "file_len (upgrade_header ?h i) = int (length (snd (fs ! i)))"
    "checksum (upgrade_header ?h i) = byte_sum (snd (fs ! i))" if "i < ?n" for i
    by (simp_all add: pack_directory(1)[OF fs that])
  have inst: "install path_name ?buf (upgrade_header ?h i) =
      (\<lambda>(nm, bs). overwrite (path_name @ [0x2f] @ nm) bs) (fs ! i)" if "i < ?n" for i
    by (simp add: install_def fun_eq_iff sec[OF that] nm[OF that] case_prod_beta file_path_def)
  have "\<forall>e \<in> set (directory ?f). map_option byte_sum (section_bytes ?buf e) = Some (checksum e) \<and>
      length (file_path path_name e) < 100 \<and> 0 \<le> file_len e"
    using path by (auto simp: dir sec nm file_path_def list_all_length case_prod_beta)
  from install_files_all[OF this dev]
  have "install_files dev path_name ?buf 0 (directory ?f) d =
      Some (Unpacked, fold (install path_name ?buf) (directory ?f) d)" .
  also have "fold (install path_name ?buf) (directory ?f) d =
      fold (\<lambda>i. (\<lambda>(nm, bs). overwrite (path_name @ [0x2f] @ nm) bs) (fs ! i)) [0..<?n] d"
    by (auto simp: dir fold_map o_def inst intro!: fold_cong)
  also have "\<dots> = fold (\<lambda>(nm, bs). overwrite (path_name @ [0x2f] @ nm) bs) (map ((!) fs) [0..<?n]) d"
    by (simp only: fold_map o_def)
  also have "map ((!) fs) [0..<?n] = fs" by (rule map_nth)
  finally have "install_files dev path_name ?buf 0 (directory ?f) d =
      Some (Unpacked, fold (\<lambda>(nm, bs). overwrite (path_name @ [0x2f] @ nm) bs) fs d)" .
  then show ?thesis using long
    by (simp add: unpack_file_eq[OF _ long(2) n[symmetric] h[symmetric]] nmd pack_header_sum[OF fs])
qed

text \<open>
  C38. The client installs just the files that were packed into an image, each over what the directory
had under its name, whatever a longer file before has left behind the image.\<close>

theorem unpack_pack:
  assumes fs: "short_names fs" "length (pack_image fs) < 2147483648"
    and path: "list_all (\<lambda>(nm, _). length path_name + length nm < 99) fs" and dev: "\<And>i. dev i = (True, Some 0)"
  shows "unpack_file dev path_name (int (length (pack_image fs))) (pack_image fs @ stale) d =
    Some (Unpacked, fold (\<lambda>(nm, bs). overwrite (path_name @ [0x2f] @ nm) bs) fs d)"
  by (rule unpack_packed[OF assms])

theorem unpack_pack_witness:
  "short_names [([0x61], [1, 2])] \<and>
   unpack_file (\<lambda>_. (True, Some 0)) [] (int (length (pack_image [([0x61], [1, 2])]))) (pack_image [([0x61], [1, 2])] @ [7]) Map.empty =
   Some (Unpacked, fold (\<lambda>(nm, bs). overwrite ([] @ [0x2f] @ nm) bs) [([0x61], [1, 2])] Map.empty)"
proof
  show "short_names [([0x61], [1, 2])]" by (simp add: short_names_def)
  show "unpack_file (\<lambda>_. (True, Some 0)) [] (int (length (pack_image [([0x61], [1, 2])]))) (pack_image [([0x61], [1, 2])] @ [7]) Map.empty =
   Some (Unpacked, fold (\<lambda>(nm, bs). overwrite ([] @ [0x2f] @ nm) bs) [([0x61], [1, 2])] Map.empty)"
    by (rule unpack_pack) (simp_all add: short_names_def pack_image_def pack_size_def)
qed

end
