(* ===== verification/Update_Deliver.thy ===== *)
theory Update_Deliver
  imports Update_Tool Update_Pack
begin

text \<open>
  What a connection of \<open>update_tool\<close> achieves whose system calls succeed: however the threads of the server, its
  heartbeats and the client interleave, nobody gets stuck, the rest of the image arrives and its files are installed.
\<close>

text \<open>All system calls of the client succeed.\<close>

definition calm :: "client_env \<Rightarrow> bool" where
  "calm ce \<longleftrightarrow> ce_opened ce \<and> ce_short ce = None \<and> ce_replied ce \<and> (\<forall>i. ce_dev ce i = (True, Some 0))"

text \<open>The two threads of the server and the loop of the client, in any order; the watcher of the client does not fire.\<close>

fun calm_event :: "client_env \<Rightarrow> event \<Rightarrow> bool" where
  "calm_event ce (Ev_serve a b) \<longleftrightarrow> a \<and> b"
| "calm_event ce (Ev_client ce') \<longleftrightarrow> ce' = ce"
| "calm_event ce (Ev_beat ip) \<longleftrightarrow> True"
| "calm_event ce _ \<longleftrightarrow> False"

text \<open>Whether the thread has something to do: it is not waiting for the other side.\<close>

fun busy :: "event \<Rightarrow> session \<Rightarrow> bool" where
  "busy (Ev_serve a b) s \<longleftrightarrow> (case (sv_pc (ss_server s), ss_up s) of
      (Sv_request, Request rq # up) \<Rightarrow> True
    | (Sv_loop, up) \<Rightarrow> True
    | (Sv_wait, File_reply c # up) \<Rightarrow> True
    | _ \<Rightarrow> False)"
| "busy (Ev_client ce) s \<longleftrightarrow> cl_pc (ss_client s) = Cl_run \<and> ss_down s \<noteq> []"
| "busy _ s \<longleftrightarrow> False"

text \<open>How many events of a run found something to do.\<close>

fun work :: "event list \<Rightarrow> session \<Rightarrow> nat" where
  "work [] s = 0"
| "work (e # es) s = (if busy e s then 1 else 0) + work es (session_step e s)"

fun beat_event :: "event \<Rightarrow> bool" where
  "beat_event (Ev_beat ip) \<longleftrightarrow> True"
| "beat_event _ \<longleftrightarrow> False"

text \<open>Installed, with nothing left to resume, and nothing under way but heartbeats.\<close>

definition delivered :: "dir \<Rightarrow> session \<Rightarrow> bool" where
  "delivered d s \<longleftrightarrow> cl_pc (ss_client s) = Cl_exit \<and> cl_dir (ss_client s) = d \<and>
     map_option st_offset (cl_disk (ss_client s)) = Some 0 \<and> sv_pc (ss_server s) = Sv_finished \<and>
     filter (\<lambda>m. \<not> is_beat m) (ss_down s) = []"

subsection \<open>The states of such a connection\<close>

text \<open>The client has the whole image and is gone; the server may still have to take its last reply.\<close>

definition closing :: "dir \<Rightarrow> session \<Rightarrow> bool" where
  "closing d s \<longleftrightarrow> cl_pc (ss_client s) = Cl_exit \<and> cl_dir (ss_client s) = d \<and>
     map_option st_offset (cl_disk (ss_client s)) = Some 0 \<and> packets s = [] \<and>
     (sv_pc (ss_server s) = Sv_finished \<or>
      sv_pc (ss_server s) = Sv_wait \<and> ss_up s = [File_reply (CHR ''Y'')] \<and>
        file_data_flag (sv_packet (ss_server s)) = CHR ''E'' \<and> sv_total (ss_server s) \<noteq> 0)"

text \<open>Before that: the request is to be served with the image \<open>c\<close>, or it has been.\<close>

definition moving :: "(string \<Rightarrow> int \<Rightarrow> byte list) \<Rightarrow> byte list \<Rightarrow> dir \<Rightarrow> session \<Rightarrow> bool" where
  "moving W c d s \<longleftrightarrow> session_ok W s \<and> cl_pc (ss_client s) = Cl_run \<and> cl_dir (ss_client s) = d \<and>
     (case sv_pc (ss_server s) of
        Sv_request \<Rightarrow> (\<exists>m. ss_files s (st_name (cl_store (ss_client s))) = Some (m, c)) \<and>
          st_name (cl_store (ss_client s)) \<noteq> [] \<and> length (st_name (cl_store (ss_client s))) \<le> 100
      | Sv_loop \<Rightarrow> sv_content (ss_server s) = c
      | Sv_wait \<Rightarrow> sv_content (ss_server s) = c \<and>
          (ss_up s \<noteq> [] \<longrightarrow> file_data_flag (sv_packet (ss_server s)) = CHR ''F'')
      | _ \<Rightarrow> False)"

text \<open>The steps that are left, and the heartbeats that the client still has to take.\<close>

definition blocks_left :: "server \<Rightarrow> nat" where
  "blocks_left sv = nat (int (length (sv_content sv)) - sv_offset sv) div 8192 + 1"

definition steps_left :: "byte list \<Rightarrow> session \<Rightarrow> nat" where
  "steps_left c s = (let sv = ss_server s in
     case sv_pc sv of
       Sv_request \<Rightarrow> 3 * (length c div 8192 + 1) + 2
     | Sv_loop \<Rightarrow> 3 * blocks_left sv + length (packets s)
     | Sv_wait \<Rightarrow> if cl_pc (ss_client s) = Cl_run then 3 * blocks_left sv - 2 + length (packets s) else 1
     | _ \<Rightarrow> 0)"

definition beats_left :: "session \<Rightarrow> nat" where
  "beats_left s = (if cl_pc (ss_client s) = Cl_run then length (filter is_beat (ss_down s)) else 0)"

lemma moving_okD:
  assumes "moving W c d s"
  shows "session_ok W s" "cl_pc (ss_client s) = Cl_run" "cl_dir (ss_client s) = d" "transfer_ok W s"
    "prefix_ok W (cl_file (ss_client s)) (noted (packets s) (cl_store (ss_client s)))" "store_ok W (ss_client s)"
  using assms session_okD(3-5)[of W s] by (simp_all add: moving_def)

text \<open>The server takes the request.\<close>

lemma serve_first:
  assumes m: "moving W c d s" and pc: "sv_pc (ss_server s) = Sv_request"
  defines "s' \<equiv> session_step (Ev_serve True True) s"
  shows "moving W c d s' \<and> beats_left s' = beats_left s \<and> steps_left c s' < steps_left c s"
proof -
  note ok = moving_okD[OF m]
  let ?st = "cl_store (ss_client s)"
  obtain mt where fs: "ss_files s (st_name ?st) = Some (mt, c)" "st_name ?st \<noteq> []" "length (st_name ?st) \<le> 100"
    using m pc by (auto simp: moving_def)
  have t: "packets s = []" "ss_up s = [Request (update_request ?st)]" "sv_offset (ss_server s) = 0"
    using ok(4) pc by (simp_all add: transfer_ok_def Let_def)
  obtain sv rp where sv: "serve_request (ss_files s) True (update_request ?st) (ss_server s) = (sv, [Reply rp])"
    "sv_content sv = c" "sv_pc sv = Sv_loop"
    using fs by (simp add: serve_request_def update_request_def Let_def)
  have s': "s' = s\<lparr>ss_server := sv, ss_up := [], ss_down := ss_down s @ [Reply rp]\<rparr>"
    using pc t(2) sv(1) by (simp add: s'_def serve_step_def put_server_def Let_def)
  have ok': "session_ok W s'" unfolding s'_def by (rule session_ok_serve[OF ok(1)])
  then have M: "moving W c d s'" using ok(2,3) sv(2,3) by (simp add: moving_def s')
  have "agree W sv (sv_offset sv) (noted [Reply rp] ?st)"
    using moving_okD(4)[OF M] sv(3) t(1) by (simp add: transfer_ok_def Let_def s')
  moreover have "prefix_ok W (cl_file (ss_client s)) (noted [Reply rp] ?st)"
    using moving_okD(5)[OF M] t(1) by (simp add: s')
  ultimately have "0 \<le> sv_offset sv" by (rule agree_bounds(1))
  then have "nat (int (length c) - sv_offset sv) \<le> length c" by linarith
  then have "nat (int (length c) - sv_offset sv) div 8192 \<le> length c div 8192" by (rule div_le_mono)
  then have "steps_left c s' < steps_left c s"
    using pc sv(2,3) t(1) by (simp add: steps_left_def s' blocks_left_def)
  then show ?thesis using M by (simp add: beats_left_def s')
qed

text \<open>The server sends a packet.\<close>

lemma serve_next:
  assumes m: "moving W c d s" and pc: "sv_pc (ss_server s) = Sv_loop"
  defines "s' \<equiv> session_step (Ev_serve True True) s"
  shows "moving W c d s' \<and> beats_left s' = beats_left s \<and> steps_left c s' < steps_left c s"
proof -
  note ok = moving_okD[OF m]
  have ag: "agree W (ss_server s) (sv_offset (ss_server s)) (noted (packets s) (cl_store (ss_client s)))" and up: "ss_up s = []"
    using ok(4) pc by (simp_all add: transfer_ok_def Let_def)
  obtain q where q: "serve_block True True (ss_server s) = ((ss_server s)\<lparr>sv_pc := Sv_wait,
      sv_read := length (region (sv_content (ss_server s)) (nat (sv_offset (ss_server s))) BUFFER_SIZE), sv_packet := q\<rparr>, [Pack q])"
    using serve_block_packet[OF ag ok(5)] by blast
  have s': "s' = s\<lparr>ss_server := fst (serve_block True True (ss_server s)), ss_down := ss_down s @ [Pack q]\<rparr>"
    using pc q by (simp add: s'_def serve_step_def put_server_def Let_def)
  have ok': "session_ok W s'" unfolding s'_def by (rule session_ok_serve[OF ok(1)])
  have "sv_content (ss_server s) = c" using m pc by (simp add: moving_def)
  then have "moving W c d s'" using ok' ok(2,3) up by (simp add: moving_def s' q)
  moreover have "steps_left c s' < steps_left c s" using pc ok(2) by (simp add: steps_left_def s' q blocks_left_def Let_def)
  ultimately show ?thesis by (simp add: beats_left_def s')
qed

text \<open>The server takes the reply to a packet that was not the last.\<close>

lemma serve_taken:
  assumes m: "moving W c d s" and pc: "sv_pc (ss_server s) = Sv_wait" and up: "ss_up s \<noteq> []" and c: "c \<noteq> []"
  defines "s' \<equiv> session_step (Ev_serve True True) s"
  shows "moving W c d s' \<and> beats_left s' = beats_left s \<and> steps_left c s' < steps_left c s"
proof -
  note ok = moving_okD[OF m]
  let ?sv = "ss_server s"
  have t: "packet_ok ?sv" "ss_up s = [File_reply (CHR ''Y'')]" "packets s = []"
      "agree W ?sv (sv_offset ?sv + int (sv_read ?sv)) (cl_store (ss_client s))"
    using ok(4) pc up by (auto simp: transfer_ok_def Let_def)
  have f: "file_data_flag (sv_packet ?sv) = CHR ''F''" "sv_content ?sv = c" using m pc up by (simp_all add: moving_def)
  have px: "prefix_ok W (cl_file (ss_client s)) (cl_store (ss_client s))" using ok(6) by (simp add: store_ok_def)
  note b = agree_bounds[OF t(4) px]
  have rd: "sv_read ?sv = min 8192 (length c - nat (sv_offset ?sv))" "0 \<le> sv_offset ?sv"
      "sv_offset ?sv + int (sv_read ?sv) \<noteq> int (length c)"
    using t(1) f b(3) by (auto simp: packet_ok_def Let_def min.commute)
  then have r8: "sv_read ?sv = 8192" "sv_offset ?sv + 8192 < int (length c)" using b(2) f(2) by (auto simp: min_def split: if_splits)
  have "s32 (sv_offset ?sv + int (sv_read ?sv)) = sv_offset ?sv + 8192"
    using b rd(2) r8 by (subst s32_id) auto
  moreover have "sv_total ?sv \<noteq> 0" using b(3) f(2) c by simp
  ultimately have y: "serve_reply (CHR ''Y'') ?sv = (?sv\<lparr>sv_offset := sv_offset ?sv + 8192, sv_pc := Sv_loop\<rparr>, [])"
    using f(1) by (simp add: serve_reply_def Let_def)
  have s': "s' = s\<lparr>ss_server := ?sv\<lparr>sv_offset := sv_offset ?sv + 8192, sv_pc := Sv_loop\<rparr>, ss_up := []\<rparr>"
    using pc t(2) y by (simp add: s'_def serve_step_def put_server_def Let_def)
  have ok': "session_ok W s'" unfolding s'_def by (rule session_ok_serve[OF ok(1)])
  then have "moving W c d s'" using ok(2,3) f(2) by (simp add: moving_def s')
  moreover have "nat (int (length c) - sv_offset ?sv) = 8192 + nat (int (length c) - (sv_offset ?sv + 8192))"
    using r8(2) by linarith
  then have "nat (int (length c) - sv_offset ?sv) div 8192 = Suc (nat (int (length c) - (sv_offset ?sv + 8192)) div 8192)"
    by simp
  then have "steps_left c s' < steps_left c s" using pc ok(2) t(3) f(2) by (simp add: steps_left_def s' blocks_left_def)
  ultimately show ?thesis by (simp add: beats_left_def s')
qed

subsection \<open>The client takes what arrives\<close>

lemma client_beat:
  fixes ce :: client_env
  assumes m: "moving W c d s" and down: "ss_down s = b # ms" "is_beat b"
  defines "s' \<equiv> session_step (Ev_client ce) s"
  shows "moving W c d s' \<and> beats_left s' < beats_left s \<and> steps_left c s' = steps_left c s"
proof -
  note ok = moving_okD[OF m]
  obtain h where h: "b = Beat h" "heart_beat_flag h = CHR ''H''" using down(2) by (cases b) simp_all
  have s': "s' = s\<lparr>ss_down := ms\<rparr>" using ok(2) down(1) h by (simp add: s'_def put_client_def)
  have "session_ok W s'" unfolding s' by (rule session_ok_down[OF ok(1)]) (use down in simp)
  then show ?thesis using m down ok(2)
    by (cases "sv_pc (ss_server s)") (simp_all add: s' moving_def beats_left_def steps_left_def Let_def)
qed

lemma client_reply:
  fixes ce :: client_env
  assumes m: "moving W c d s" and down: "ss_down s = Reply rp # ms"
  defines "s' \<equiv> session_step (Ev_client ce) s"
  shows "moving W c d s' \<and> beats_left s' = beats_left s \<and> steps_left c s' < steps_left c s"
proof -
  note ok = moving_okD[OF m]
  have p: "packets s = Reply rp # filter (\<lambda>m. \<not> is_beat m) ms" using down by simp
  have t: "update_reply_flag rp \<in> {CHR ''Y'', CHR ''G''}" "sv_pc (ss_server s) = Sv_loop \<or> sv_pc (ss_server s) = Sv_wait"
      "ss_up s = []"
    using ok(4) m unfolding transfer_ok_def Let_def p by (auto simp: after_reply_def moving_def split: server_pc.splits)
  have s': "s' = s\<lparr>ss_down := ms, ss_client := write_file_info ((ss_client s)\<lparr>cl_store := take_reply rp (cl_store (ss_client s))\<rparr>)\<rparr>"
    using ok(2) down t(1) by (simp add: s'_def put_client_def)
  have "session_ok W s'" unfolding s'_def by (rule session_ok_client[OF ok(1)])
  then show ?thesis using m down t(2,3) ok(2)
    by (auto simp: s' moving_def beats_left_def steps_left_def Let_def write_file_info_def blocks_left_def)
qed

text \<open>The client once it has taken a packet.\<close>

lemma calm_takes:
  assumes "calm ce" "prefix_ok W (cl_file cl) (cl_store cl)" "packet_ok sv" "agree W sv (sv_offset sv) (cl_store cl)"
    "cl_pc cl = Cl_run" "sv_total sv \<noteq> 0"
  shows "file_data_flag (sv_packet sv) = CHR ''F'' \<Longrightarrow>
      client_step ce (Whole (Pack (sv_packet sv))) cl = (stored sv cl, [File_reply (CHR ''Y'')])"
    "file_data_flag (sv_packet sv) = CHR ''E'' \<Longrightarrow>
      unpack_file (ce_dev ce) (ce_path ce) (sv_total sv) (cl_file (stored sv cl)) (cl_dir cl) = Some (u, d) \<Longrightarrow>
      client_step ce (Whole (Pack (sv_packet sv))) cl =
        (client_exit (write_file_info (at_offset 0 ((stored sv cl)\<lparr>cl_dir := d\<rparr>))), [File_reply (CHR ''Y'')])"
proof -
  have dir: "cl_dir (stored sv cl) = cl_dir cl" by (simp add: stored_def at_offset_def)
  show "file_data_flag (sv_packet sv) = CHR ''F'' \<Longrightarrow>
      client_step ce (Whole (Pack (sv_packet sv))) cl = (stored sv cl, [File_reply (CHR ''Y'')])"
    using assms(1,6) by (simp add: client_pack_def recv_file_pack_stored[OF assms(2-4)] calm_def Let_def)
  show "file_data_flag (sv_packet sv) = CHR ''E'' \<Longrightarrow>
      unpack_file (ce_dev ce) (ce_path ce) (sv_total sv) (cl_file (stored sv cl)) (cl_dir cl) = Some (u, d) \<Longrightarrow>
      client_step ce (Whole (Pack (sv_packet sv))) cl =
        (client_exit (write_file_info (at_offset 0 ((stored sv cl)\<lparr>cl_dir := d\<rparr>))), [File_reply (CHR ''Y'')])"
    using assms(1,6) by (simp add: client_pack_def recv_file_pack_stored[OF assms(2-4)] calm_def Let_def dir)
qed

lemma client_packet:
  assumes m: "moving W c d s" and down: "ss_down s = Pack p # ms" and ce: "calm ce" and c: "c \<noteq> []"
    and un: "\<And>stale. unpack_file (ce_dev ce) (ce_path ce) (int (length c)) (c @ stale) d = Some (u, d')"
  defines "s' \<equiv> session_step (Ev_client ce) s"
  shows "(moving W c d s' \<and> beats_left s' = beats_left s \<or> closing d' s' \<and> beats_left s' = 0) \<and> steps_left c s' < steps_left c s"
proof -
  note ok = moving_okD[OF m]
  note n = next_pack[OF ok(1,2) down]
  let ?sv = "ss_server s" and ?cl = "ss_client s"
  have px: "prefix_ok W (cl_file ?cl) (cl_store ?cl)" using ok(6) by (simp add: store_ok_def)
  note b = agree_bounds[OF n(6) px]
  have cc: "sv_content ?sv = c" using m n(1) by (simp add: moving_def)
  have t0: "sv_total ?sv \<noteq> 0" using b(3) cc c by simp
  note take = calm_takes[OF ce px n(2,6) ok(2) t0]
  have "file_data_flag (sv_packet ?sv) = CHR ''F'' \<or> file_data_flag (sv_packet ?sv) = CHR ''E''"
    using n(2) by (auto simp: packet_ok_def Let_def)
  then show ?thesis
  proof
    assume f: "file_data_flag (sv_packet ?sv) = CHR ''F''"
    have s': "s' = s\<lparr>ss_down := ms, ss_client := stored ?sv ?cl, ss_up := [File_reply (CHR ''Y'')]\<rparr>"
      using ok(2) down n(3) take(1)[OF f] by (simp add: s'_def put_client_def n(5) del: client_step.simps)
    have "session_ok W s'" unfolding s'_def by (rule session_ok_client[OF ok(1)])
    then show ?thesis using ok(2,3) down n(1,4) cc f
      by (simp add: s' moving_def beats_left_def steps_left_def Let_def stored_def at_offset_def blocks_left_def)
  next
    assume f: "file_data_flag (sv_packet ?sv) = CHR ''E''"
    then have "sv_offset ?sv + int (sv_read ?sv) = int (length (sv_content ?sv))"
      using n(2) b(3) unfolding packet_ok_def Let_def by (auto split: if_splits)
    then have ag: "agree W ?sv (int (length (sv_content ?sv))) (cl_store (stored ?sv ?cl))"
      using stored_ok(3)[OF session_okD(1)[OF ok(1)] ok(6) n(2,6)] by simp
    have st: "store_ok W (stored ?sv ?cl)" by (rule stored_ok(2)[OF session_okD(1)[OF ok(1)] ok(6) n(2,6)])
    then have "prefix_ok W (cl_file (stored ?sv ?cl)) (cl_store (stored ?sv ?cl))" by (simp add: store_ok_def)
    from whole_file(1)[OF this ag] obtain stale where "cl_file (stored ?sv ?cl) = c @ stale"
      using ag unfolding agree_def cc by metis
    then have "unpack_file (ce_dev ce) (ce_path ce) (sv_total ?sv) (cl_file (stored ?sv ?cl)) (cl_dir ?cl) = Some (u, d')"
      using un ok(3) b(3) cc by simp
    from take(2)[OF f this] have s': "s' = s\<lparr>ss_down := ms, ss_up := [File_reply (CHR ''Y'')],
        ss_client := client_exit (write_file_info (at_offset 0 ((stored ?sv ?cl)\<lparr>cl_dir := d'\<rparr>)))\<rparr>"
      using ok(2) down n(3) by (simp add: s'_def put_client_def n(5) del: client_step.simps)
    then have "closing d' s'" "beats_left s' = 0" using n(1,4) f t0
      by (simp_all add: closing_def beats_left_def client_exit_def write_file_info_def at_offset_def)
    moreover have "steps_left c s' < steps_left c s"
      using n(1) ok(2) down by (simp add: steps_left_def s' Let_def client_exit_def blocks_left_def)
    ultimately show ?thesis by blast
  qed
qed

text \<open>An empty file: the progress of both ends divides by its size.\<close>

lemma empty_file_kills:
  assumes m: "moving W [] d s" and down: "ss_down s = Pack p # ms" and ce: "calm ce"
  shows "cl_pc (ss_client (session_step (Ev_client ce) s)) = Cl_killed"
    "sv_pc (fst (serve_reply (CHR ''Y'') (ss_server s))) = Sv_killed"
proof -
  note ok = moving_okD[OF m]
  note n = next_pack[OF ok(1,2) down]
  let ?sv = "ss_server s" and ?cl = "ss_client s"
  have px: "prefix_ok W (cl_file ?cl) (cl_store ?cl)" using ok(6) by (simp add: store_ok_def)
  have "sv_content ?sv = []" using m n(1) by (simp add: moving_def)
  then have t0: "sv_total ?sv = 0" using agree_bounds(3)[OF n(6) px] by simp
  then show "sv_pc (fst (serve_reply (CHR ''Y'') ?sv)) = Sv_killed" by (simp add: serve_reply_def Let_def)
  have "file_data_flag (sv_packet ?sv) \<in> {CHR ''F'', CHR ''E''}" using n(2) by (simp add: packet_ok_def Let_def)
  then have "client_step ce (Whole (Pack p)) ?cl = ((stored ?sv ?cl)\<lparr>cl_pc := Cl_killed\<rparr>, [File_reply (CHR ''Y'')])"
    using ce recv_file_pack_stored[OF px n(2,6), of ce] t0 n(5) by (auto simp: client_pack_def calm_def Let_def)
  then show "cl_pc (ss_client (session_step (Ev_client ce) s)) = Cl_killed"
    using ok(2) down by (simp add: put_client_def del: client_step.simps)
qed

subsection \<open>Any order\<close>

definition on_way :: "(string \<Rightarrow> int \<Rightarrow> byte list) \<Rightarrow> byte list \<Rightarrow> dir \<Rightarrow> dir \<Rightarrow> session \<Rightarrow> bool" where
  "on_way W c d d' s \<longleftrightarrow> moving W c d s \<or> closing d' s"

lemma closing_serve:
  assumes "closing d s"
  defines "s' \<equiv> session_step (Ev_serve True True) s"
  shows "closing d s' \<and> beats_left s' = 0 \<and> (if busy (Ev_serve True True) s then steps_left c s' < steps_left c s else s' = s)"
  using assms(1) unfolding closing_def
  by (auto simp: s'_def closing_def serve_step_def put_server_def serve_reply_def beats_left_def steps_left_def Let_def)

lemma not_busy: "calm_event ce e \<Longrightarrow> \<not> beat_event e \<Longrightarrow> \<not> busy e s \<Longrightarrow> session_step e s = s"
proof (cases e)
  case (Ev_serve a b)
  assume "\<not> busy e s"
  then show ?thesis
    by (auto simp: Ev_serve serve_step_def Let_def split: server_pc.splits list.splits to_server.splits)
next
  case (Ev_client ce')
  assume "\<not> busy e s"
  then show ?thesis by (auto simp: Ev_client split: list.splits)
qed simp_all

lemma calm_progress:
  assumes w: "on_way W c d d' s" and e: "calm_event ce e" "busy e s" and ce: "calm ce" and c: "c \<noteq> []"
    and un: "\<And>stale. unpack_file (ce_dev ce) (ce_path ce) (int (length c)) (c @ stale) d = Some (u, d')"
  shows "on_way W c d d' (session_step e s) \<and>
    steps_left c (session_step e s) + beats_left (session_step e s) < steps_left c s + beats_left s"
proof (cases e)
  case (Ev_serve a b)
  then have ab: "e = Ev_serve True True" using e(1) by simp
  from w show ?thesis
  proof (unfold on_way_def, elim disjE)
    assume m: "moving W c d s"
    have "(sv_pc (ss_server s) = Sv_request \<or> sv_pc (ss_server s) = Sv_loop) \<or> sv_pc (ss_server s) = Sv_wait \<and> ss_up s \<noteq> []"
      using e(2) by (auto simp: Ev_serve split: server_pc.splits list.splits)
    then show "(moving W c d (session_step e s) \<or> closing d' (session_step e s)) \<and>
        steps_left c (session_step e s) + beats_left (session_step e s) < steps_left c s + beats_left s"
      using serve_first[OF m] serve_next[OF m] serve_taken[OF m _ _ c] unfolding ab by fastforce
  next
    assume "closing d' s"
    from closing_serve[OF this, of c] show "(moving W c d (session_step e s) \<or> closing d' (session_step e s)) \<and>
        steps_left c (session_step e s) + beats_left (session_step e s) < steps_left c s + beats_left s"
      using e(2) unfolding ab by (simp del: busy.simps)
  qed
next
  case (Ev_client ce')
  then have b: "e = Ev_client ce" "cl_pc (ss_client s) = Cl_run" "ss_down s \<noteq> []" using e by simp_all
  then have m: "moving W c d s" using w by (auto simp: on_way_def closing_def)
  obtain p ms where d: "ss_down s = p # ms" using b(3) by (cases "ss_down s") auto
  show ?thesis
  proof (cases "is_beat p")
    case True
    then show ?thesis using client_beat[OF m d, of ce] unfolding b(1) on_way_def by linarith
  next
    case False
    show ?thesis
    proof (cases p)
      case (Reply rp)
      then show ?thesis using client_reply[OF m, of rp ms ce] d unfolding b(1) on_way_def by simp
    next
      case (Pack q)
      then show ?thesis using client_packet[OF m _ ce c un, of q ms] d unfolding b(1) on_way_def by fastforce
    next
      case (Beat h)
      have "p \<in> set (packets s)" using d False by simp
      moreover have "\<not> (Beat h \<in> set (packets s))"
        using moving_okD(4)[OF m] m
        by (cases "sv_pc (ss_server s)") (auto simp: transfer_ok_def Let_def after_reply_def moving_def simp del: set_filter)
      ultimately show ?thesis using Beat by blast
    qed
  qed
qed (use e(2) in simp_all)

lemma beat_waits:
  assumes "on_way W c d d' s"
  shows "on_way W c d d' (session_step (Ev_beat ip) s) \<and> steps_left c (session_step (Ev_beat ip) s) = steps_left c s \<and>
    beats_left (session_step (Ev_beat ip) s) \<le> beats_left s + 1"
proof -
  let ?s = "session_step (Ev_beat ip) s"
  have d: "?s = s \<or> ?s = s\<lparr>ss_down := ss_down s @ heart_beat ip\<rparr>" by simp
  have "moving W c d ?s" if "moving W c d s"
    using that d session_ok_beat[of W s ip] by (auto simp: moving_def)
  moreover have "closing d' ?s" if "closing d' s" using that d by (auto simp: closing_def heart_beat_def)
  ultimately have "on_way W c d d' ?s" using assms by (auto simp: on_way_def)
  moreover have "steps_left c ?s = steps_left c s" "beats_left ?s \<le> beats_left s + 1"
    using d by (auto simp: steps_left_def Let_def beats_left_def heart_beat_def)
  ultimately show ?thesis by blast
qed

lemma calm_run:
  assumes "on_way W c d d' s" "list_all (calm_event ce) evs" "calm ce" "c \<noteq> []"
    "\<And>stale. unpack_file (ce_dev ce) (ce_path ce) (int (length c)) (c @ stale) d = Some (u, d')"
  shows "on_way W c d d' (session_run evs s) \<and>
    work evs s + steps_left c (session_run evs s) \<le> steps_left c s + beats_left s + length (filter beat_event evs)"
  using assms(1,2)
proof (induction evs arbitrary: s)
  case Nil
  then show ?case by (simp add: session_run_def)
next
  case (Cons e es)
  have run: "session_run (e # es) s = session_run es (session_step e s)" by (simp add: session_run_def)
  have IH: "on_way W c d d' (session_step e s) \<Longrightarrow> on_way W c d d' (session_run (e # es) s) \<and>
      work es (session_step e s) + steps_left c (session_run (e # es) s) \<le>
        steps_left c (session_step e s) + beats_left (session_step e s) + length (filter beat_event es)"
    unfolding run using Cons.prems(2) by (intro Cons.IH) simp_all
  show ?case
  proof (cases "busy e s")
    case True
    then have "\<not> beat_event e" by (cases e) simp_all
    moreover have "calm_event ce e" using Cons.prems(2) by simp
    note p = calm_progress[OF Cons.prems(1) this True assms(3-5)]
    ultimately show ?thesis using IH[OF conjunct1[OF p]] p True by simp
  next
    case False
    show ?thesis
    proof (cases "beat_event e")
      case True
      then obtain ip where ip: "e = Ev_beat ip" by (cases e) simp_all
      note b = beat_waits[OF Cons.prems(1), of ip, folded ip]
      show ?thesis using IH[OF conjunct1[OF b]] b True False by (simp del: session_step.simps)
    next
      case nb: False
      then have "session_step e s = s" using not_busy[of ce e s] Cons.prems(2) False by simp
      then show ?thesis using IH Cons.prems(1) False nb by simp
    qed
  qed
qed

text \<open>Nobody waits for ever.\<close>

lemma on_way_busy:
  assumes "on_way W c d d' s"
  shows "delivered d' s \<or> busy (Ev_serve True True) s \<or> busy (Ev_client ce) s"
  using assms unfolding on_way_def
proof
  assume m: "moving W c d s"
  note ok = moving_okD[OF m]
  show ?thesis
  proof (cases "ss_down s = []")
    case True
    then show ?thesis using ok(4) m
      by (auto simp: moving_def transfer_ok_def Let_def after_reply_def split: server_pc.splits)
  next
    case False
    then show ?thesis using ok(2) by simp
  qed
next
  assume "closing d' s"
  then show ?thesis by (auto simp: closing_def delivered_def)
qed

text \<open>The beginning: the client asks for the noted name if there is a note.\<close>

definition wanted :: "string \<Rightarrow> client \<Rightarrow> string" where
  "wanted nm cl = (case cl_disk cl of None \<Rightarrow> nm | Some st \<Rightarrow> st_name st)"

lemma start_moving:
  assumes "session_ok W s" "cl_pc (ss_client s) \<noteq> Cl_run" "exhibits W fs"
    and nm: "length nm \<le> 100" "wanted nm (ss_client s) \<noteq> []" "length (wanted nm (ss_client s)) \<le> 100"
    and fs: "fs (wanted nm (ss_client s)) = Some (m, c)"
  defines "s' \<equiv> session_step (Ev_start nm fs) s"
  shows "moving W c (cl_dir (ss_client s)) s'" "beats_left s' = 0" "steps_left c s' = 3 * (length c div 8192 + 1) + 2"
proof -
  obtain st where st: "client_start nm (ss_client s) = ((ss_client s)\<lparr>cl_pc := Cl_run, cl_store := st\<rparr>, [Request (update_request st)])"
    "st_name st = wanted nm (ss_client s)"
    using nm(1) by (cases "cl_disk (ss_client s)") (simp_all add: client_start_def read_file_info_def wanted_def Let_def)
  have s': "s' = \<lparr>ss_server = server_start, ss_client = (ss_client s)\<lparr>cl_pc := Cl_run, cl_store := st\<rparr>,
      ss_down = [], ss_up = [Request (update_request st)], ss_files = fs\<rparr>"
    using assms(2) by (simp add: s'_def st(1) Let_def)
  have "session_ok W s'" unfolding s'_def by (rule session_ok_start[OF assms(1,3)])
  then show "moving W c (cl_dir (ss_client s)) s'" using nm(2,3) fs by (simp add: moving_def s' st(2) server_start_def)
  show "beats_left s' = 0" "steps_left c s' = 3 * (length c div 8192 + 1) + 2"
    by (simp_all add: s' beats_left_def steps_left_def server_start_def)
qed

text \<open>
  C40. End to end, after any history: from a start of the client on, while no system call fails and the watcher of the
client does not fire, the request, the packets, their replies and the heartbeats may interleave in any way.  Always
some side can go on, or the files packed in the image that the client asks for are installed, each over what the
directory had under its name, and nothing is noted to resume; and at most three steps for each block of 8192 bytes and
five more, beside one for each heartbeat, find something to do, so that is what any run ends with.  The client asks for the noted
name, not its argument, once there is a note.\<close>

theorem update_delivers:
  assumes history: "list_all (event_ok W) evs" "\<forall>st. info = Some st \<longrightarrow> prefix_ok W f st"
      "s = session_run evs (session_init info f d0)" "cl_pc (ss_client s) \<noteq> Cl_run"
    and server: "exhibits W fs" "fs (wanted nm (ss_client s)) = Some (m, pack_image files)"
    and names: "length nm \<le> 100" "wanted nm (ss_client s) \<noteq> []" "length (wanted nm (ss_client s)) \<le> 100"
    and image: "short_names files" "length (pack_image files) \<le> 21474836"
      "list_all (\<lambda>(nm, _). length (ce_path ce) + length nm < 99) files"
    and calm: "calm ce" "list_all (calm_event ce) run"
    and t: "s1 = session_step (Ev_start nm fs) s" "t = session_run run s1"
  shows "(busy (Ev_serve True True) t \<or> busy (Ev_client ce) t \<or>
      delivered (fold (\<lambda>(nm, bs). overwrite (ce_path ce @ [0x2f] @ nm) bs) files (cl_dir (ss_client s))) t) \<and>
    work run s1 \<le> 3 * (length (pack_image files) div 8192) + 5 + length (filter beat_event run)"
proof -
  let ?d = "fold (\<lambda>(nm, bs). overwrite (ce_path ce @ [0x2f] @ nm) bs) files (cl_dir (ss_client s))"
  have ok: "session_ok W s" unfolding history(3) by (intro session_ok_run session_ok_init history)
  note g = start_moving[OF ok history(4) server(1) names server(2), folded t(1)]
  have ne: "pack_image files \<noteq> []" using image(1) by (auto simp: pack_image_def pack_size_def dest: arg_cong[of _ _ length])
  have un: "unpack_file (ce_dev ce) (ce_path ce) (int (length (pack_image files))) (pack_image files @ stale) (cl_dir (ss_client s)) =
      Some (Unpacked, ?d)" for stale
    using calm(1) image(2) by (intro unpack_packed image) (simp_all add: calm_def)
  have "on_way W (pack_image files) (cl_dir (ss_client s)) ?d s1" using g(1) by (simp add: on_way_def)
  note r = calm_run[OF this calm(2,1) ne un, folded t(2)]
  show ?thesis using r on_way_busy[OF conjunct1[OF r], of ce] g(2,3) by auto
qed

definition calm_env :: client_env where
  "calm_env = \<lparr>ce_opened = True, ce_short = None, ce_replied = True, ce_dev = (\<lambda>_. (True, Some 0)), ce_path = []\<rparr>"

text \<open>In the witness the server is ahead of the client by a packet, behind two heartbeats.\<close>

definition demo_image :: "byte list" where
  "demo_image = pack_image [([0x61], [1, 2])]"

definition demo_files :: files where
  "demo_files = (\<lambda>_. Some (7, demo_image))"

definition demo_start :: session where
  "demo_start = session_step (Ev_start ''f'' demo_files) (session_init None [] Map.empty)"

definition demo_calm :: "event list" where
  "demo_calm = [Ev_beat ''a'', Ev_serve True True, Ev_serve True True, Ev_beat ''a'', Ev_client calm_env, Ev_client calm_env,
     Ev_client calm_env, Ev_serve True True]"

lemma demo_length: "length demo_image = 110" "short_names [([0x61], [1, 2])]"
  by (simp_all add: demo_image_def pack_image_def pack_size_def short_names_def)

lemma demo_unpack: "\<exists>d. unpack_file (\<lambda>_. (True, Some 0)) [] 110 demo_image Map.empty = Some (Unpacked, d)"
  using unpack_packed[of "[([0x61], [1, 2])]" "[]" "\<lambda>_. (True, Some 0)" "[]" Map.empty] demo_length
  by (simp add: demo_image_def)

lemma demo_end:
  defines "t \<equiv> session_run demo_calm demo_start"
  shows "\<not> busy (Ev_serve True True) t" "\<not> busy (Ev_client calm_env) t"
proof -
  obtain d where d: "unpack_file (\<lambda>_. (True, Some 0)) [] 110 demo_image Map.empty = Some (Unpacked, d)"
    using demo_unpack by blast
  have r: "region demo_image 0 8192 = demo_image" by (simp add: region_def demo_length)
  have s: "s32 110 = 110" by (simp add: s32_def)
  have "sv_pc (ss_server t) = Sv_finished \<and> cl_pc (ss_client t) = Cl_exit"
    unfolding t_def demo_calm_def session_run_def demo_start_def
    by (simp add: session_init_def client_start_def read_file_info_def demo_files_def server_start_def update_request_def
        serve_step_def put_server_def serve_request_def put_client_def heart_beat_def serve_block_def r s demo_length
        take_reply_def write_file_info_def client_pack_def recv_file_pack_def calm_env_def pwrite_def at_offset_def d
        client_exit_def serve_reply_def Let_def)
  then show "\<not> busy (Ev_serve True True) t" "\<not> busy (Ev_client calm_env) t" by simp_all
qed

theorem update_delivers_witness:
  "delivered (fold (\<lambda>(nm, bs). overwrite (ce_path calm_env @ [0x2f] @ nm) bs) [([0x61], [1, 2])] Map.empty)
    (session_run demo_calm demo_start)"
proof -
  have ex: "exhibits (\<lambda>_ _. demo_image) demo_files" by (simp add: exhibits_def demo_files_def demo_length)
  have "delivered (fold (\<lambda>(nm, bs). overwrite (ce_path calm_env @ [0x2f] @ nm) bs) [([0x61], [1, 2])]
      (cl_dir (ss_client (session_init None [] Map.empty)))) (session_run demo_calm demo_start)"
    using update_delivers[where evs = "[]" and info = None and f = "[]" and ?d0.0 = Map.empty and nm = "''f''" and m = 7
        and files = "[([0x61], [1, 2])]" and ce = calm_env and run = demo_calm, OF _ _ refl _ ex _ _ _ _ demo_length(2) _ _ _ _ refl refl]
      demo_end demo_length(1)
    by (simp add: session_init_def session_run_def wanted_def demo_files_def demo_image_def calm_env_def calm_def demo_calm_def
        demo_start_def del: busy.simps session_step.simps)
  then show ?thesis by (simp add: session_init_def)
qed

end
