(* ===== verification/Spec2Isabelle.thy ===== *)
theory Spec2Isabelle
  imports Ak_Prelude Base64 Big_Integer Big_Proofs Big_Signed Byte_Fifo Byte_Store Chrdev Ctest
    Fd_Map Fsm Globalfifo Globalmem Hash_Set Heap_Queue Heap_Quick Kmp Mread_Ring Mread_Server
    Number_Theory_Lib Philosophers Producer_Consumer Ring_Blocks Ring_Chain Sbull Scull_Access
    Scull_Main Scull_Pipe Search_Tree Search_Tree_Delete Search_Tree_Map Search_Tree_Proofs
    Search_Tree_Walks Segment_Tree Shortest_Paths Snull Sort_Proofs Sorts Union_Find
    Update_Client Update_Deliver Update_Pack Update_Server Update_Tool Update_Unpack
    Update_Wire
begin

text \<open>
  \<^bold>\<open>Verification of the author's drivers, libraries and small programs\<close>

  The repository is a collection: Linux character, block and network drivers under
  \<open>src/c/ak_driver\<close> and \<open>src/c/ldd3_codes\<close>, algorithm templates under \<open>src/c/acm-lib\<close>, small C
  programs under \<open>src/c\<close>.  They do not link into one program; what the parts share is the kernel
  interface of the drivers and the conventions below.  Each theory models one part and proves what makes
  it correct; this theory imports them all.

  \<^bold>\<open>Conventions.\<close> \<open>Ak_Prelude\<close> holds bytes, error codes, the results of system calls, the outcomes of
  kernel services (\<open>kmalloc\<close>, the user copies, semaphores, sleeping), which are not code of the
  repository and therefore arguments of the definitions, C's signed arithmetic and \<open>memcpy\<close>.  A driver
  call is a function from the device state and these outcomes to the new state and the result;
  \<open>Oops\<close> (or \<open>None\<close> in the C++ code) is an access outside an array, a null dereference or a division by
  zero, so a theorem that excludes it proves memory safety.  Interleaving is a step relation between
  critical sections.  Loops that may not end are \<open>partial_function\<close>s, with \<open>None\<close> for not ending, and the
  theorems about them say that they do end.

  \<^bold>\<open>Interfaces.\<close> \<open>Byte_Store\<close> is the contract of a device that stores bytes by position, in the form of a
  locale: what short reads and writes and the loops over them do.  It is interpreted on the scull device and
  on the globalmem drivers.  \<open>Byte_Fifo\<close> has the contracts of a byte queue: \<open>byte_sections\<close>, about any interleaving of
  critical sections, faults and sleeps included, interpreted on scullpipe, globalfifo and the ctest ring, and \<open>byte_fifo\<close>,
  about callers that take turns without waiting, on scullpipe, the ctest ring and the chardevice driver.  \<open>weak_order\<close> (\<open>Sort_Proofs\<close>) is the comparison the
  sorting templates ask for, \<open>bag_table\<close> (\<open>Hash_Set\<close>) what a collision policy promises, \<open>owner_gate\<close>
  (\<open>Scull_Access\<close>) the entry to a device of one user, \<open>item_map\<close> (\<open>Search_Tree_Map\<close>) insertion into a map in memory,
  \<open>priority_queue\<close> (\<open>Heap_Queue\<close>) removal of a least item.

  \<^bold>\<open>Drivers.\<close>
  \<^item> \<open>Scull_Main\<close>, \<open>Scull_Pipe\<close>, \<open>Scull_Access\<close>: \<open>char_device/scull/dev/main.c\<close>, \<open>pipe.c\<close>, \<open>access.c\<close>.
  Quantum lists, the circular pipe buffer, the access-controlled devices.
  \<^item> \<open>Globalfifo\<close>, \<open>Globalmem\<close>, \<open>Chrdev\<close>, \<open>Ctest\<close>: the drivers of these names under \<open>ak_driver\<close>; \<open>Globalmem\<close>
  has the three variants and \<open>mycdev\<close>.
  \<^item> \<open>Sbull\<close>: the RAM disk \<open>ldd3_codes/sbull/sbull.c\<close>, its request functions, users and media change.
  \<^item> \<open>Snull\<close>: the network pair \<open>ldd3_codes/snull/snull.c\<close>, its packet pools, interrupts, polling and timeout.

  \<^bold>\<open>Libraries and programs.\<close>
  \<^item> \<open>Base64\<close>: \<open>base64/base64.c\<close>. \<open>Fsm\<close>: the two first-word filters of \<open>fsm\<close>.
  \<^item> \<open>Big_Integer\<close>, \<open>Big_Proofs\<close>, \<open>Big_Signed\<close>: \<open>acm-lib/big_integer\<close>; definitions, the value of every
  unsigned operation, the signed class.
  \<^item> \<open>Sorts\<close>, \<open>Sort_Proofs\<close>, \<open>Heap_Quick\<close>: \<open>acm-lib/sort\<close>. \<open>Kmp\<close>: \<open>acm-lib/kmp\<close>.
  \<^item> \<open>Number_Theory_Lib\<close>: \<open>acm-lib/number_theory\<close>. \<open>Hash_Set\<close>: \<open>acm-lib/hash_set\<close>. \<open>Union_Find\<close>:
  \<open>acm-lib/disjoint_set\<close>.
  \<^item> \<open>Philosophers\<close>: both versions of \<open>dining_philosophers\<close>. \<open>Producer_Consumer\<close>: \<open>producer_consumer\<close>,
  any number of processes over the shared ring.
  \<^item> \<open>Fd_Map\<close>: the socket table \<open>ctest/test_other1/servers/map.c\<close> of the file server.
  \<^item> \<open>Mread_Ring\<close>, \<open>Ring_Blocks\<close>, \<open>Ring_Chain\<close>: its block buffer \<open>ringbuffer.c\<close>; the operations on bytes,
  the blocks as an allocator, the chain of a connection as a stream.
  \<^item> \<open>Mread_Server\<close>: its connections, \<open>server.c\<close>, over the buffer and the table: the pool of slots and what a
  receive does.
  \<^item> \<open>Update_Wire\<close>, \<open>Update_Server\<close>, \<open>Update_Client\<close>: the packets and both programs of \<open>update_tool\<close>.
  \<open>Update_Unpack\<close>, \<open>Update_Pack\<close>: the installation of a received image, and its round trip with an encoder.
  \<^item> \<open>Update_Tool\<close>, \<open>Update_Deliver\<close>: the two programs over a history of connections; what survives breaks and
  kills, and the delivery of an image however the threads of one connection interleave.
  \<^item> \<open>Search_Tree\<close>: \<open>acm-lib/binary_search_tree\<close>, nodes at addresses. \<open>Search_Tree_Proofs\<close>, \<open>Search_Tree_Walks\<close>,
  \<open>Search_Tree_Delete\<close>: insertion, the traversals and deletion on trees in memory; \<open>Search_Tree_Map\<close>: the tree as
  a finite map, copies, and where a deletion goes wrong.
  \<^item> \<open>Heap_Queue\<close>: \<open>acm-lib/heap\<close>, a priority queue. \<open>Segment_Tree\<close>: \<open>acm-lib/segment_tree\<close>. \<open>Shortest_Paths\<close>:
  \<open>acm-lib/floyd\<close> and \<open>acm-lib/dijkstra\<close>.
  \<^bold>\<open>Bounds.\<close> Where C's width matters it is written out: \<open>s32\<close> and \<open>ulong\<close> wrap, words are words.  Where the
  model uses unbounded integers (the algorithm templates) the theory says so, and states bounds when the
  values could leave an \<open>int\<close>; the segment tree checks every addition.  The adjustments of \<open>SEM_UNDO\<close> have the
  limits of the kernel.  There is no fuel except lists of outcomes: a list of wake-ups that is used
  up means that the caller still sleeps.

  \<^bold>\<open>Not modelled.\<close> Registration of devices, \<open>/proc\<close> and module glue; spin locks and semaphores inside one
  handler (a handler is one step except in the step relations); the user programs that only exercise a
  driver; programs that only call the C library or the operating system (\<open>socket\<close>, \<open>signal\<close>, \<open>daemon\<close>,
  most of \<open>ctest\<close>); the ftp client, whose behaviour is that of a server; code copied from
  books and kernels beside the copies modelled (\<open>lkmpg\<close>, the other ldd3 drivers).  The manifest lists
  every part with its reason.
\<close>

end
